(* ===== verification/Prelude.thy ===== *)
theory Prelude
  imports Main "HOL-Library.Word" "HOL-Library.Signed_Division"
begin

text \<open>
  The shared vocabulary of the development: the machine integers of the Go code, byte strings,
  Go errors as the list of sentinels that \<^verbatim>\<open>errors.Is\<close> finds in a wrapped error, and the parts of
  the Go standard library that the sources call (\<^verbatim>\<open>encoding/binary\<close>, \<^verbatim>\<open>hash/crc32\<close>,
  \<^verbatim>\<open>encoding/hex\<close>, \<^verbatim>\<open>strconv\<close>, \<^verbatim>\<open>strings\<close>).  The lemma collections \<open>go_len\<close>, \<open>go_codec\<close>
  and \<open>go_bits\<close> carry the facts the component theories rewrite with.
\<close>

unbundle bit_operations_syntax

named_theorems go_len \<open>lengths of encoded byte strings\<close>
named_theorems go_codec \<open>decoding an encoding gives the value back\<close>
named_theorems go_bits \<open>single bits of values assembled by loops\<close>

section \<open>Types\<close>

type_synonym byte = "8 word"
type_synonym uint8 = "8 word"
type_synonym uint32 = "32 word"
type_synonym uint64 = "64 word"

text \<open>An \<^verbatim>\<open>int64\<close> is the same 64 bits, read by \<^const>\<open>sint\<close>.\<close>

type_synonym int64 = "64 word"
type_synonym bytes = "byte list"

text \<open>The sentinel errors of the sources.  A Go error is the list of the sentinels its chain wraps.\<close>

datatype sentinel =
    ErrInvalidWidth | ErrInvalidOrder | ErrOutOfRange | ErrValueTooWide | ErrShortBuffer
  | ErrInvalid
  | ErrInvalidZRLE
  | ErrBlockOutOfRange | ErrPayloadSize | ErrPresenceSize | ErrVersionMismatch
  | ErrCorrupt | ErrGeometryMismatch | ErrCorruptWAL | ErrCorruptVersion | ErrVersionOverflow
  | ErrCorruptIntent | ErrCorruptSnapshot | ErrSnapshotOverflow | ErrSnapshotChanged
  | ErrSnapshotUnstable | ErrReadOnly | ErrNotExist | ErrShortWrite
  | ErrUnsupportedVersion | ErrImageTooLarge | ErrSlotAbsent | ErrImageUnpublished
  | ErrExist | ErrDurabilityUnsupported | ErrDirectorySyncUnsupported

type_synonym error = "sentinel list"
type_synonym 'a result = "error + 'a"

definition errors_is :: "error \<Rightarrow> sentinel \<Rightarrow> bool" where
  "errors_is e t \<longleftrightarrow> t \<in> set e"

section \<open>Bytes and words\<close>

definition le_bytes :: "nat \<Rightarrow> 'a::len word \<Rightarrow> bytes" where
  "le_bytes n w = map (\<lambda>i. ucast (drop_bit (8 * i) w)) [0..<n]"

primrec le_word :: "bytes \<Rightarrow> 'a::len word" where
  "le_word [] = 0"
| "le_word (b # bs) = ucast b OR push_bit 8 (le_word bs)"

definition be_bytes :: "nat \<Rightarrow> 'a::len word \<Rightarrow> bytes" where
  "be_bytes n w = rev (le_bytes n w)"

definition be_word :: "bytes \<Rightarrow> 'a::len word" where
  "be_word bs = le_word (rev bs)"

lemma length_le_bytes [simp, go_len]: "length (le_bytes n w) = n"
  by (simp add: le_bytes_def)

lemma length_be_bytes [simp, go_len]: "length (be_bytes n w) = n"
  by (simp add: be_bytes_def)

lemma le_bytes_nth [simp]: "i < n \<Longrightarrow> le_bytes n w ! i = ucast (drop_bit (8 * i) w)"
  by (simp add: le_bytes_def)

lemma div_mod_8_cases:
  fixes k :: nat
  obtains (low) "k < 8" | (high) "8 \<le> k" "k div 8 = Suc ((k - 8) div 8)" "k mod 8 = (k - 8) mod 8"
proof (cases "k < 8")
  case True
  then show ?thesis by (rule low)
next
  case False
  then obtain j where "k = j + 8" by (metis add.commute le_Suc_ex not_less)
  then show ?thesis by (intro high) auto
qed

text \<open>Bit \<open>k\<close> of a little-endian word is bit \<open>k mod 8\<close> of byte \<open>k div 8\<close>.\<close>

lemma bit_le_word [go_bits]:
  "bit (le_word bs :: 'a::len word) k \<longleftrightarrow>
     k < LENGTH('a) \<and> k div 8 < length bs \<and> bit (bs ! (k div 8)) (k mod 8)"
proof (induction bs arbitrary: k)
  case Nil
  then show ?case by simp
next
  case (Cons b bs)
  show ?case
  proof (cases k rule: div_mod_8_cases)
    case low
    then show ?thesis by (auto simp: bit_or_iff bit_push_bit_iff bit_unsigned_iff)
  next
    case high
    then have "\<not> bit b k" by (auto dest: bit_imp_le_length)
    with high show ?thesis
      by (auto simp: bit_or_iff bit_push_bit_iff bit_unsigned_iff Cons.IH dest: bit_imp_le_length)
  qed
qed

lemma le_word_le_bytes [go_codec]:
  assumes "LENGTH('a) \<le> 8 * n"
  shows "le_word (le_bytes n (w :: 'a::len word)) = w"
proof (rule bit_word_eqI)
  fix k assume "k < LENGTH('a)"
  moreover from this assms have "k div 8 < n" by linarith
  moreover have "8 * (k div 8) + k mod 8 = k" by simp
  ultimately show "bit (le_word (le_bytes n w) :: 'a word) k = bit w k"
    by (simp add: bit_le_word bit_unsigned_iff bit_drop_bit_eq)
qed

lemma be_word_be_bytes [go_codec]:
  "LENGTH('a) \<le> 8 * n \<Longrightarrow> be_word (be_bytes n (w :: 'a::len word)) = w"
  by (simp add: be_word_def be_bytes_def le_word_le_bytes)

lemma le_bytes_le_word:
  assumes "length bs = n" "8 * n \<le> LENGTH('a)"
  shows "le_bytes n (le_word bs :: 'a::len word) = bs"
proof (rule nth_equalityI)
  show "length (le_bytes n (le_word bs :: 'a word)) = length bs"
    using assms by simp
  fix i assume "i < length (le_bytes n (le_word bs :: 'a word))"
  then have i: "i < n" by simp
  show "le_bytes n (le_word bs :: 'a word) ! i = bs ! i"
  proof (rule bit_word_eqI)
    fix k assume "k < LENGTH(8)"
    then have k: "k < 8" by simp
    then have "(8 * i + k) div 8 = i" "(8 * i + k) mod 8 = k" by auto
    moreover have "8 * i + k < LENGTH('a)" using i k assms by linarith
    ultimately show "bit (le_bytes n (le_word bs :: 'a word) ! i) k = bit (bs ! i) k"
      using i k assms by (simp add: bit_unsigned_iff bit_drop_bit_eq bit_le_word)
  qed
qed

lemma le_bytes_inject:
  assumes "LENGTH('a) \<le> 8 * n"
  shows "le_bytes n (v :: 'a::len word) = le_bytes n w \<longleftrightarrow> v = w"
  using le_word_le_bytes [OF assms] by metis

lemma le_bytes_ucast: "8 * n \<le> LENGTH('b) \<Longrightarrow> le_bytes n (ucast (w :: 'a::len word) :: 'b::len word) = le_bytes n w"
proof (rule nth_equalityI)
  fix i assume n: "8 * n \<le> LENGTH('b)" and "i < length (le_bytes n (ucast w :: 'b word))"
  then have "8 * i + 8 \<le> LENGTH('b)" by simp
  then show "le_bytes n (ucast w :: 'b word) ! i = le_bytes n w ! i" using \<open>i < length _\<close>
    by (auto intro!: bit_word_eqI simp: bit_unsigned_iff bit_drop_bit_eq dest: bit_imp_le_length)
qed simp

lemma ucast_le_word:
  "8 * length bs \<le> LENGTH('b) \<Longrightarrow> LENGTH('b) \<le> LENGTH('a) \<Longrightarrow>
     (ucast (le_word bs :: 'b::len word) :: 'a::len word) = le_word bs"
  by (auto intro!: bit_word_eqI simp: bit_unsigned_iff bit_le_word)

lemma ucast_be_word:
  "8 * length bs \<le> LENGTH('b) \<Longrightarrow> LENGTH('b) \<le> LENGTH('a) \<Longrightarrow>
     (ucast (be_word bs :: 'b::len word) :: 'a::len word) = be_word bs"
  by (simp add: be_word_def ucast_le_word)

lemma le_word_single: "length bs = 1 \<Longrightarrow> le_word bs = ucast (bs ! 0)"
  by (auto simp: length_Suc_conv)

section \<open>The overflow checks of the sources\<close>

definition MaxUint64 :: uint64 where
  "MaxUint64 = 0xFFFFFFFFFFFFFFFF"

definition MaxInt64 :: int64 where
  "MaxInt64 = 0x7FFFFFFFFFFFFFFF"

lemma unat_MaxUint64 [simp]: "unat MaxUint64 = 2 ^ 64 - 1"
  by (simp add: MaxUint64_def)

lemma unat_MaxInt64 [simp]: "unat MaxInt64 = 2 ^ 63 - 1"
  by (simp add: MaxInt64_def)

lemma unat_u64_bound: "unat (w :: uint64) < 2 ^ 64"
  using unsigned_less [of w, where ?'a = nat] by simp

lemma unat_u32_bound: "unat (w :: uint32) < 2 ^ 32"
  using unsigned_less [of w, where ?'a = nat] by simp

lemma le_MaxUint64 [simp]: "w \<le> MaxUint64"
  using unat_u64_bound [of w] by (simp add: word_le_nat_alt)

lemma unat_power_lower64: "n < 64 \<Longrightarrow> unat (2 ^ n :: uint64) = 2 ^ n"
proof -
  assume "n < 64"
  then have "(2::nat) ^ n < 2 ^ 64" by (rule power_strict_increasing) simp
  moreover have "(2 :: uint64) ^ n = of_nat (2 ^ n)" by simp
  ultimately show ?thesis by (simp only: unat_of_nat take_bit_nat_eq_self_iff) simp
qed

text \<open>\<^verbatim>\<open>left > math.MaxUint64/right\<close> is exact: it holds when the product overflows.\<close>

lemma mul_fits_iff:
  assumes "0 < unat (b :: uint64)"
  shows "a \<le> MaxUint64 div b \<longleftrightarrow> unat a * unat b < 2 ^ 64"
proof -
  have "a \<le> MaxUint64 div b \<longleftrightarrow> unat a \<le> (2 ^ 64 - 1) div unat b"
    by (simp add: word_le_nat_alt unat_div)
  also have "\<dots> \<longleftrightarrow> unat a * unat b \<le> 2 ^ 64 - 1"
    using assms by (rule less_eq_div_iff_mult_less_eq)
  finally show ?thesis by auto
qed

lemma unat_mul_fits: "unat a * unat b < 2 ^ 64 \<Longrightarrow> unat (a * b :: uint64) = unat a * unat b"
  by (simp add: unat_word_ariths)

text \<open>\<^verbatim>\<open>right > math.MaxUint64-left\<close> is exact for sums.\<close>

lemma add_fits_iff: "b \<le> MaxUint64 - a \<longleftrightarrow> unat a + unat b < 2 ^ 64"
  using unat_u64_bound [of a] unat_u64_bound [of b]
  by (auto simp: word_le_nat_alt unat_sub)

lemma unat_add_fits: "unat a + unat b < 2 ^ 64 \<Longrightarrow> unat (a + b :: uint64) = unat a + unat b"
  by (simp add: unat_word_ariths)

text \<open>The sources round a bit count up to bytes with a division and a conditional increment.\<close>

definition ceil8 :: "uint64 \<Rightarrow> uint64" where
  "ceil8 bits = (if bits mod 8 \<noteq> 0 then bits div 8 + 1 else bits div 8)"

lemma ceil8_nat: "(n + 7) div 8 = n div 8 + (if n mod 8 = 0 then 0 else 1 :: nat)"
proof -
  define q r where "q = n div 8" and "r = n mod 8"
  then have "n = 8 * q + r" "r < 8" by simp_all
  then show ?thesis by auto
qed

lemma unat_ceil8: "unat (ceil8 x) = (unat x + 7) div 8"
proof -
  have m: "x mod 8 \<noteq> 0 \<longleftrightarrow> unat x mod 8 \<noteq> 0"
    by (simp add: unat_0_iff [symmetric] unat_mod)
  have d: "unat (x div 8) = unat x div 8" by (simp add: unat_div)
  have "unat x div 8 + 1 < 2 ^ 64" using unat_u64_bound [of x] by (simp; linarith)
  then have p: "unat (x div 8 + 1) = unat x div 8 + 1" by (simp add: unat_word_ariths d)
  show ?thesis
  proof (cases "unat x mod 8 = 0")
    case True
    then show ?thesis using m d by (simp add: ceil8_def ceil8_nat)
  next
    case False
    then show ?thesis using m p by (simp add: ceil8_def ceil8_nat)
  qed
qed

section \<open>CRC-32 (hash/crc32, IEEE polynomial)\<close>

primrec crc_shift :: "nat \<Rightarrow> uint32 \<Rightarrow> uint32" where
  "crc_shift 0 c = c"
| "crc_shift (Suc n) c =
     crc_shift n (if bit c 0 then 0xEDB88320 XOR drop_bit 1 c else drop_bit 1 c)"

definition crc_step :: "uint32 \<Rightarrow> byte \<Rightarrow> uint32" where
  "crc_step c b = crc_shift 8 (c XOR ucast b)"

definition ChecksumIEEE :: "bytes \<Rightarrow> uint32" where
  "ChecksumIEEE bs = NOT (foldl crc_step (NOT 0) bs)"

section \<open>Go strings\<close>

definition byte_of_char :: "char \<Rightarrow> byte" where
  "byte_of_char c = of_char c"

definition char_of_byte :: "byte \<Rightarrow> char" where
  "char_of_byte b = char_of (unat b)"

text \<open>The conversions \<^verbatim>\<open>[]byte(s)\<close> and \<^verbatim>\<open>string(b)\<close>.\<close>

definition bytes_of :: "string \<Rightarrow> bytes" where
  "bytes_of s = map byte_of_char s"

definition string_of :: "bytes \<Rightarrow> string" where
  "string_of bs = map char_of_byte bs"

lemma unat_byte_of_char: "unat (byte_of_char c) = of_char c"
proof -
  have "byte_of_char c = of_nat (of_char c)"
    by (simp add: byte_of_char_def of_char_def horner_sum_eq_sum)
  moreover have "(of_char c :: nat) < 256" by simp
  ultimately show ?thesis by (simp add: unat_of_nat)
qed

lemma char_of_byte_of_char [simp]: "char_of_byte (byte_of_char c) = c"
  by (simp add: char_of_byte_def unat_byte_of_char)

lemma unat_byte_bound: "unat (b :: byte) < 256"
  using unsigned_less [of b, where ?'a = nat] by simp

lemma byte_of_char_of_byte [simp]: "byte_of_char (char_of_byte b) = b"
proof -
  have "of_char (char_of (unat b)) = (unat b :: nat)"
    using unat_byte_bound [of b] by simp
  then have "unat (byte_of_char (char_of_byte b)) = unat b"
    by (simp add: char_of_byte_def unat_byte_of_char)
  then show ?thesis by (rule word_unat_eq_iff [THEN iffD2])
qed

lemma string_of_bytes_of [simp]: "string_of (bytes_of s) = s"
  by (simp add: string_of_def bytes_of_def o_def)

lemma bytes_of_string_of [simp]: "bytes_of (string_of bs) = bs"
  by (simp add: string_of_def bytes_of_def o_def)

lemma length_bytes_of [simp, go_len]: "length (bytes_of s) = length s"
  by (simp add: bytes_of_def)

lemma length_string_of [simp, go_len]: "length (string_of s) = length s"
  by (simp add: string_of_def)

lemma bytes_of_append [simp]: "bytes_of (s @ t) = bytes_of s @ bytes_of t"
  by (simp add: bytes_of_def)

lemma string_of_append [simp]: "string_of (s @ t) = string_of s @ string_of t"
  by (simp add: string_of_def)

lemma bytes_of_inject [simp]: "bytes_of s = bytes_of t \<longleftrightarrow> s = t"
  by (metis string_of_bytes_of)

lemma string_of_inject [simp]: "string_of s = string_of t \<longleftrightarrow> s = t"
  by (metis bytes_of_string_of)

lemma string_of_eq_Nil [simp]: "string_of bs = [] \<longleftrightarrow> bs = []" "[] = string_of bs \<longleftrightarrow> bs = []"
  by (simp_all add: string_of_def)

lemma bytes_of_eq_Nil [simp]: "bytes_of s = [] \<longleftrightarrow> s = []" "[] = bytes_of s \<longleftrightarrow> s = []"
  by (simp_all add: bytes_of_def)

lemma bytes_of_Nil [simp]: "bytes_of [] = []"
  by (simp add: bytes_of_def)

lemma string_of_Nil [simp]: "string_of [] = []"
  by (simp add: string_of_def)

end
