(* ===== verification/Bitcodec.thy ===== *)
theory Bitcodec
  imports Prelude
begin

text \<open>
  The packed bit codec (\<^verbatim>\<open>internal/bitcodec/codec.go\<close>): fixed-width fields at bit granularity in
  a byte buffer, in least- or most-significant-bit-first order, with byte-aligned fast paths.
  \<open>codec_Set\<close> returns the buffer the Go method mutates in place.  Both paths of \<open>codec_Get\<close> and
  \<open>codec_Set\<close> are characterised by the single bits they read and write (\<open>codec_Get_bits\<close>,
  \<open>codec_Set_bits\<close>), from which the get/set laws and the equivalence of the fast paths follow.
\<close>

section \<open>The code\<close>

record Codec =
  codec_width :: uint8
  codec_order :: uint8

definition LSBFirst :: uint8 where
  "LSBFirst = 0"

definition MSBFirst :: uint8 where
  "MSBFirst = 1"

definition codec_New :: "uint8 \<Rightarrow> uint8 \<Rightarrow> Codec result" where
  "codec_New width order =
     (if width = 0 \<or> width > 64 then Inl [ErrInvalidWidth]
      else if order \<noteq> LSBFirst \<and> order \<noteq> MSBFirst then Inl [ErrInvalidOrder]
      else Inr \<lparr>codec_width = width, codec_order = order\<rparr>)"

definition codec_PackedBytes :: "Codec \<Rightarrow> uint64 \<Rightarrow> nat result" where
  "codec_PackedBytes c count =
     (let width = ucast (codec_width c) :: uint64
      in if count \<noteq> 0 \<and> width > MaxUint64 div count then Inl [ErrOutOfRange]
         else let bits = count * width;
                  packed = ceil8 bits
              in if packed > MaxInt64 then Inl [ErrOutOfRange]
                 else Inr (unat packed))"

definition codec_fieldStart :: "Codec \<Rightarrow> bytes \<Rightarrow> uint64 \<Rightarrow> uint64 result" where
  "codec_fieldStart c data index =
     (let width = ucast (codec_width c) :: uint64
      in if index > MaxUint64 div width then Inl [ErrOutOfRange]
         else let start = index * width
              in if width > MaxUint64 - start then Inl [ErrOutOfRange]
                 else let end = start + width;
                          required = ceil8 end
                      in if unat required > length data then Inl [ErrShortBuffer]
                         else Inr start)"

text \<open>The default branches of \<^verbatim>\<open>getBytes\<close>: a little-endian and a big-endian accumulation loop.\<close>

definition codec_getBytes :: "Codec \<Rightarrow> bytes \<Rightarrow> uint64" where
  "codec_getBytes c field =
     (if codec_order c = LSBFirst then
        (if length field = 1 then ucast (field ! 0)
         else if length field = 2 then ucast (le_word field :: 16 word)
         else if length field = 4 then ucast (le_word field :: 32 word)
         else if length field = 8 then le_word field
         else foldl (\<lambda>value index. value OR push_bit (index * 8) (ucast (field ! index))) 0
                [0..<length field])
      else
        (if length field = 1 then ucast (field ! 0)
         else if length field = 2 then ucast (be_word field :: 16 word)
         else if length field = 4 then ucast (be_word field :: 32 word)
         else if length field = 8 then be_word field
         else foldl (\<lambda>value current. push_bit 8 value OR ucast current) 0 field))"

definition codec_setBytes :: "Codec \<Rightarrow> bytes \<Rightarrow> uint64 \<Rightarrow> bytes" where
  "codec_setBytes c field value =
     (if codec_order c = LSBFirst then
        (if length field = 1 then [ucast value]
         else if length field = 2 then le_bytes 2 (ucast value :: 16 word)
         else if length field = 4 then le_bytes 4 (ucast value :: 32 word)
         else if length field = 8 then le_bytes 8 value
         else map (\<lambda>index. ucast (drop_bit (index * 8) value)) [0..<length field])
      else
        (if length field = 1 then [ucast value]
         else if length field = 2 then be_bytes 2 (ucast value :: 16 word)
         else if length field = 4 then be_bytes 4 (ucast value :: 32 word)
         else if length field = 8 then be_bytes 8 value
         else map (\<lambda>index. ucast (drop_bit ((length field - 1 - index) * 8) value))
                [0..<length field]))"

text \<open>The indices one iteration of the bit loops computes from the loop counter.\<close>

definition codec_byteIndex :: "uint64 \<Rightarrow> nat \<Rightarrow> nat" where
  "codec_byteIndex start fieldBit = unat ((start + of_nat fieldBit) div 8)"

definition codec_bitIndex :: "Codec \<Rightarrow> uint64 \<Rightarrow> nat \<Rightarrow> nat" where
  "codec_bitIndex c start fieldBit =
     (let b = (start + of_nat fieldBit) mod 8
      in unat (if codec_order c = MSBFirst then 7 - b else b))"

definition codec_valueBit :: "Codec \<Rightarrow> nat \<Rightarrow> nat" where
  "codec_valueBit c fieldBit =
     unat (if codec_order c = MSBFirst
           then (ucast (codec_width c) :: uint64) - 1 - of_nat fieldBit
           else of_nat fieldBit)"

definition codec_getBit :: "Codec \<Rightarrow> bytes \<Rightarrow> uint64 \<Rightarrow> uint64 \<Rightarrow> nat \<Rightarrow> uint64" where
  "codec_getBit c data start value fieldBit =
     (let b = drop_bit (codec_bitIndex c start fieldBit) (data ! codec_byteIndex start fieldBit) AND 1
      in value OR push_bit (codec_valueBit c fieldBit) (ucast b))"

definition codec_setBit :: "Codec \<Rightarrow> uint64 \<Rightarrow> uint64 \<Rightarrow> bytes \<Rightarrow> nat \<Rightarrow> bytes" where
  "codec_setBit c start value data fieldBit =
     (let i = codec_byteIndex start fieldBit;
          mask = push_bit (codec_bitIndex c start fieldBit) 1
      in if value AND push_bit (codec_valueBit c fieldBit) 1 \<noteq> 0
         then data[i := data ! i OR mask]
         else data[i := data ! i AND NOT mask])"

definition codec_getLoop :: "Codec \<Rightarrow> bytes \<Rightarrow> uint64 \<Rightarrow> uint64" where
  "codec_getLoop c data start = foldl (codec_getBit c data start) 0 [0..<unat (codec_width c)]"

definition codec_setLoop :: "Codec \<Rightarrow> bytes \<Rightarrow> uint64 \<Rightarrow> uint64 \<Rightarrow> bytes" where
  "codec_setLoop c data start value =
     foldl (codec_setBit c start value) data [0..<unat (codec_width c)]"

definition codec_Get :: "Codec \<Rightarrow> bytes \<Rightarrow> uint64 \<Rightarrow> uint64 result" where
  "codec_Get c data index =
     (case codec_fieldStart c data index of
        Inl e \<Rightarrow> Inl e
      | Inr start \<Rightarrow>
          if codec_width c mod 8 = 0 then
            let offset = unat (start div 8)
            in Inr (codec_getBytes c (take (unat (codec_width c) div 8) (drop offset data)))
          else Inr (codec_getLoop c data start))"

definition codec_Set :: "Codec \<Rightarrow> bytes \<Rightarrow> uint64 \<Rightarrow> uint64 \<Rightarrow> bytes result" where
  "codec_Set c data index value =
     (if codec_width c < 64 \<and> value \<ge> push_bit (unat (codec_width c)) 1 then Inl [ErrValueTooWide]
      else case codec_fieldStart c data index of
        Inl e \<Rightarrow> Inl e
      | Inr start \<Rightarrow>
          if codec_width c mod 8 = 0 then
            let offset = unat (start div 8); n = unat (codec_width c) div 8
            in Inr (take offset data @ codec_setBytes c (take n (drop offset data)) value
                      @ drop (offset + n) data)
          else Inr (codec_setLoop c data start value))"

definition codec_AppendUint32 :: "bytes \<Rightarrow> uint32 \<Rightarrow> bytes" where
  "codec_AppendUint32 dst value = dst @ le_bytes 4 value"

definition codec_AppendUint64 :: "bytes \<Rightarrow> uint64 \<Rightarrow> bytes" where
  "codec_AppendUint64 dst value = dst @ le_bytes 8 value"

definition codec_Uint32 :: "bytes \<Rightarrow> uint32 result" where
  "codec_Uint32 src = (if length src < 4 then Inl [ErrShortBuffer] else Inr (le_word (take 4 src)))"

definition codec_Uint64 :: "bytes \<Rightarrow> uint64 result" where
  "codec_Uint64 src = (if length src < 8 then Inl [ErrShortBuffer] else Inr (le_word (take 8 src)))"

text \<open>What \<^verbatim>\<open>New\<close> guarantees of every codec it returns.\<close>

definition wf_codec :: "Codec \<Rightarrow> bool" where
  "wf_codec c \<longleftrightarrow> 0 < unat (codec_width c) \<and> unat (codec_width c) \<le> 64 \<and>
     (codec_order c = LSBFirst \<or> codec_order c = MSBFirst)"

section \<open>Field positions\<close>

lemma codec_New_wf: "codec_New w ord = Inr c \<Longrightarrow> wf_codec c \<and> codec_width c = w \<and> codec_order c = ord"
  by (auto simp: codec_New_def wf_codec_def word_gt_0 unat_gt_0 word_le_nat_alt not_less
      split: if_splits)

lemma codec_New_Inr_iff:
  "(\<exists>c. codec_New w ord = Inr c) \<longleftrightarrow> 0 < unat w \<and> unat w \<le> 64 \<and> (ord = LSBFirst \<or> ord = MSBFirst)"
  by (auto simp: codec_New_def unat_gt_0 word_le_nat_alt not_less word_less_nat_alt)

lemma unat_ucast_width [simp]: "unat (ucast (w :: uint8) :: uint64) = unat w"
  using unat_byte_bound [of w] by (simp add: unsigned_ucast_eq take_bit_nat_eq_self)

text \<open>
  \<open>codec_fieldStart\<close> accepts an index exactly when the field lies in the buffer, and the start it
  returns is the exact product: no 64-bit overflow is hidden in it.
\<close>

lemma codec_fieldStart_eq:
  assumes "wf_codec c"
  shows "codec_fieldStart c data index =
    (let n = unat index * unat (codec_width c); e = n + unat (codec_width c)
     in if 2 ^ 64 \<le> e then Inl [ErrOutOfRange]
        else if (e + 7) div 8 > length data then Inl [ErrShortBuffer]
        else Inr (of_nat n))"
proof -
  define w where "w = (ucast (codec_width c) :: uint64)"
  have w: "unat w = unat (codec_width c)" "0 < unat w" "unat w \<le> 64"
    using assms by (auto simp: w_def wf_codec_def)
  show ?thesis
  proof (cases "unat index * unat w < 2 ^ 64")
    case True
    then have m: "index \<le> MaxUint64 div w" using w by (simp add: mul_fits_iff)
    have p: "unat (index * w) = unat index * unat w" using True by (rule unat_mul_fits)
    show ?thesis
    proof (cases "unat index * unat w + unat w < 2 ^ 64")
      case True
      then have "w \<le> MaxUint64 - index * w" by (simp add: add_fits_iff p)
      moreover have "unat (index * w + w) = unat index * unat w + unat w"
        using True by (simp add: unat_add_fits p)
      ultimately show ?thesis using m True w
        by (simp add: codec_fieldStart_def w_def [symmetric] Let_def unat_ceil8 not_less)
    next
      case False
      then have "\<not> w \<le> MaxUint64 - index * w" by (simp add: add_fits_iff p)
      then show ?thesis using m False w
        by (simp add: codec_fieldStart_def w_def [symmetric] Let_def not_less not_le)
    qed
  next
    case False
    then have "\<not> index \<le> MaxUint64 div w" using w by (simp add: mul_fits_iff)
    then show ?thesis using False w
      by (simp add: codec_fieldStart_def w_def [symmetric] Let_def not_less not_le)
  qed
qed

lemma codec_fieldStart_Inr:
  assumes "wf_codec c" "codec_fieldStart c data index = Inr start"
  shows "unat start = unat index * unat (codec_width c)"
    and "unat start + unat (codec_width c) < 2 ^ 64"
    and "unat start + unat (codec_width c) \<le> 8 * length data"
proof -
  define n where "n = unat index * unat (codec_width c)"
  have h: "n + unat (codec_width c) < 2 ^ 64" "(n + unat (codec_width c) + 7) div 8 \<le> length data"
      "start = of_nat n"
    using assms(2) unfolding codec_fieldStart_eq [OF assms(1)] n_def [symmetric] Let_def
    by (auto simp: not_le not_less split: if_splits)
  then have u: "unat start = n" by (simp add: unat_of_nat)
  then show "unat start = unat index * unat (codec_width c)" by (simp add: n_def)
  show "unat start + unat (codec_width c) < 2 ^ 64" using u h by simp
  have "n + unat (codec_width c) \<le> 8 * ((n + unat (codec_width c) + 7) div 8)" by simp
  with h(2) show "unat start + unat (codec_width c) \<le> 8 * length data" unfolding u
    by (meson le_trans mult_le_mono2)
qed

text \<open>
  The specification side: bit \<open>k\<close> of the stream lies in byte \<open>k div 8\<close>, at the lane the bit order
  gives, and the \<open>j\<close>-th bit of a field carries bit \<open>field_pos c j\<close> of the value.
\<close>

definition field_lane :: "Codec \<Rightarrow> nat \<Rightarrow> nat" where
  "field_lane c k = (if codec_order c = MSBFirst then 7 - k mod 8 else k mod 8)"

definition field_bit :: "Codec \<Rightarrow> bytes \<Rightarrow> nat \<Rightarrow> bool" where
  "field_bit c data k = bit (data ! (k div 8)) (field_lane c k)"

definition field_pos :: "Codec \<Rightarrow> nat \<Rightarrow> nat" where
  "field_pos c j = (if codec_order c = MSBFirst then unat (codec_width c) - 1 - j else j)"

lemma field_lane_less [simp]: "field_lane c k < 8"
proof -
  have "k mod 8 < 8" by simp
  then show ?thesis by (auto simp: field_lane_def intro: le_less_trans [OF diff_le_self])
qed

lemma field_lane_inj: "k div 8 = m div 8 \<Longrightarrow> field_lane c k = field_lane c m \<longleftrightarrow> k = m"
proof -
  assume d: "k div 8 = m div 8"
  have "k mod 8 < 8" "m mod 8 < 8" by simp_all
  then have "field_lane c k = field_lane c m \<longleftrightarrow> k mod 8 = m mod 8"
    by (auto simp: field_lane_def)
  with d show ?thesis by (metis div_mult_mod_eq)
qed

lemma field_pos_less: "j < unat (codec_width c) \<Longrightarrow> field_pos c j < unat (codec_width c)"
  by (auto simp: field_pos_def)

lemma field_pos_pos: "j < unat (codec_width c) \<Longrightarrow> field_pos c (field_pos c j) = j"
  by (auto simp: field_pos_def)

lemma unat_start_add:
  assumes "unat (start :: uint64) + w < 2 ^ 64" "j < w"
  shows "unat (start + of_nat j) = unat start + j"
  using assms by (simp add: unat_word_ariths unat_of_nat)

lemma codec_indices:
  assumes "wf_codec c" "unat start + unat (codec_width c) < 2 ^ 64" "j < unat (codec_width c)"
  shows "codec_byteIndex start j = (unat start + j) div 8"
    and "codec_bitIndex c start j = field_lane c (unat start + j)"
    and "codec_valueBit c j = field_pos c j"
proof -
  note u = unat_start_add [OF assms(2,3)]
  show "codec_byteIndex start j = (unat start + j) div 8"
    by (simp add: codec_byteIndex_def unat_div u)
  have m: "unat ((start + of_nat j) mod 8) = (unat start + j) mod 8"
    by (simp add: unat_mod u)
  then have "unat (7 - (start + of_nat j) mod 8) = 7 - (unat start + j) mod 8"
    by (subst unat_sub) (simp_all add: word_le_nat_alt)
  with m show "codec_bitIndex c start j = field_lane c (unat start + j)"
    by (simp add: codec_bitIndex_def field_lane_def Let_def)
  have w: "0 < unat (codec_width c)" "unat (codec_width c) \<le> 64" using assms(1) by (auto simp: wf_codec_def)
  have j: "unat (of_nat j :: uint64) = j" using assms(3) w by (simp add: unat_of_nat)
  have w1: "unat ((ucast (codec_width c) :: uint64) - 1) = unat (codec_width c) - 1"
    using w by (subst unat_sub) (simp_all add: word_le_nat_alt)
  have "unat ((ucast (codec_width c) :: uint64) - 1 - of_nat j) = unat (codec_width c) - 1 - j"
    using assms(3) w1 j by (subst unat_sub) (simp_all add: word_le_nat_alt)
  with j show "codec_valueBit c j = field_pos c j"
    by (simp add: codec_valueBit_def field_pos_def)
qed

text \<open>Every byte the loops touch lies in the buffer: the indexing of the Go loops never panics.\<close>

lemma codec_byteIndex_in_range:
  assumes "wf_codec c" "codec_fieldStart c data index = Inr start" "j < unat (codec_width c)"
  shows "codec_byteIndex start j < length data"
proof -
  note f = codec_fieldStart_Inr [OF assms(1,2)]
  have "codec_byteIndex start j = (unat start + j) div 8"
    using codec_indices(1) [OF assms(1) f(2) assms(3)] .
  also have "\<dots> < length data" using f(3) assms(3) by (simp add: less_mult_imp_div_less)
  finally show ?thesis .
qed

section \<open>The bit loops\<close>

lemma bit_ucast_bit:
  "p < 64 \<Longrightarrow> bit (v OR push_bit p (ucast (drop_bit b x AND 1) :: uint64)) i \<longleftrightarrow>
     bit v i \<or> (i = p \<and> bit (x :: byte) b)"
  by (auto simp: bit_or_iff bit_push_bit_iff bit_unsigned_iff bit_and_iff bit_drop_bit_eq bit_1_iff
      dest: bit_imp_le_length)

lemma codec_getLoop_prefix:
  assumes "wf_codec c" "unat start + unat (codec_width c) < 2 ^ 64" "n \<le> unat (codec_width c)"
  shows "bit (foldl (codec_getBit c data start) v [0..<n]) i \<longleftrightarrow>
    bit v i \<or> (\<exists>j<n. field_pos c j = i \<and> field_bit c data (unat start + j))"
  using assms(3)
proof (induction n)
  case 0
  then show ?case by simp
next
  case (Suc n)
  then have n: "n < unat (codec_width c)" by simp
  note ix = codec_indices [OF assms(1,2) n]
  have "field_pos c n < 64" using field_pos_less [OF n] assms(1) by (simp add: wf_codec_def)
  then show ?case using Suc
    by (auto simp: codec_getBit_def ix Let_def bit_ucast_bit field_bit_def less_Suc_eq)
qed

lemma codec_getLoop_bits:
  assumes "wf_codec c" "unat start + unat (codec_width c) < 2 ^ 64"
  shows "bit (codec_getLoop c data start) i \<longleftrightarrow>
    i < unat (codec_width c) \<and> field_bit c data (unat start + field_pos c i)"
  unfolding codec_getLoop_def codec_getLoop_prefix [OF assms order_refl]
  using field_pos_less field_pos_pos by (auto; metis)

lemma and_bit_mask_eq_0: "(v :: 'a::len word) AND 2 ^ p = 0 \<longleftrightarrow> \<not> bit v p"
proof
  assume "v AND 2 ^ p = 0"
  then have "\<not> bit (v AND 2 ^ p) p" by simp
  then show "\<not> bit v p" by (auto simp: bit_and_iff bit_exp_iff dest: bit_imp_le_length)
next
  assume "\<not> bit v p"
  then show "v AND 2 ^ p = 0"
    by (auto intro!: bit_word_eqI simp: bit_and_iff bit_exp_iff)
qed

lemma bit_mask_update:
  "b < 8 \<Longrightarrow> bit ((x :: byte) OR 2 ^ b) k \<longleftrightarrow> bit x k \<or> k = b"
  "b < 8 \<Longrightarrow> bit ((x :: byte) AND NOT (2 ^ b)) k \<longleftrightarrow> bit x k \<and> k \<noteq> b"
  by (auto simp: bit_or_iff bit_and_iff bit_not_iff bit_exp_iff dest: bit_imp_le_length)

lemma codec_setBit_length [simp, go_len]: "length (codec_setBit c start value data j) = length data"
  by (simp add: codec_setBit_def Let_def)

lemma codec_setBit_bits:
  assumes "wf_codec c" "unat start + unat (codec_width c) < 2 ^ 64" "j < unat (codec_width c)"
    and "unat start + unat (codec_width c) \<le> 8 * length data"
  shows "field_bit c (codec_setBit c start value data j) k \<longleftrightarrow>
    (if k = unat start + j then bit value (field_pos c j) else field_bit c data k)"
proof -
  note ix = codec_indices [OF assms(1-3)]
  let ?m = "unat start + j"
  have r: "?m div 8 < length data" using assms(3,4) by (simp add: less_mult_imp_div_less)
  have ne: "field_lane c k \<noteq> field_lane c ?m" if "k \<noteq> ?m" "k div 8 = ?m div 8"
    using that field_lane_inj by blast
  show ?thesis
  proof (cases "k div 8 = ?m div 8")
    case True
    then show ?thesis using r ne
      by (auto simp: codec_setBit_def ix Let_def and_bit_mask_eq_0 field_bit_def bit_mask_update)
  next
    case False
    then show ?thesis
      by (auto simp: codec_setBit_def ix Let_def field_bit_def)
  qed
qed

lemma codec_setLoop_prefix:
  assumes "wf_codec c" "unat start + unat (codec_width c) < 2 ^ 64"
    and "unat start + unat (codec_width c) \<le> 8 * length data" "n \<le> unat (codec_width c)"
  shows "length (foldl (codec_setBit c start value) data [0..<n]) = length data"
    and "field_bit c (foldl (codec_setBit c start value) data [0..<n]) k \<longleftrightarrow>
      (if unat start \<le> k \<and> k < unat start + n then bit value (field_pos c (k - unat start))
       else field_bit c data k)"
  using assms(4)
proof (induction n arbitrary: k)
  case 0
  { case 1 then show ?case by simp next case 2 then show ?case by auto }
next
  case (Suc n)
  { case 1 then show ?case using Suc.IH(1) by simp
  next
    case 2
    then have n: "n < unat (codec_width c)" by simp
    let ?d = "foldl (codec_setBit c start value) data [0..<n]"
    have len: "length ?d = length data" using Suc.IH(1) n by simp
    have IH: "field_bit c ?d k \<longleftrightarrow>
      (if unat start \<le> k \<and> k < unat start + n then bit value (field_pos c (k - unat start))
       else field_bit c data k)" using Suc.IH(2) n by simp
    have "field_bit c (codec_setBit c start value ?d n) k \<longleftrightarrow>
      (if k = unat start + n then bit value (field_pos c n) else field_bit c ?d k)"
      using assms(3) len by (intro codec_setBit_bits [OF assms(1,2) n]) simp
    with IH show ?case by auto }
qed

section \<open>The byte-aligned fast paths\<close>

lemma or_bytes_loop:
  "bit (foldl (\<lambda>value index. value OR push_bit (index * 8) (ucast (field ! index))) (v :: uint64) [0..<n]) k
     \<longleftrightarrow> bit v k \<or> (k < 64 \<and> k div 8 < n \<and> bit (field ! (k div 8) :: byte) (k mod 8))"
proof (induction n)
  case 0
  then show ?case by simp
next
  case (Suc n)
  have "bit (push_bit (n * 8) (ucast (field ! n) :: uint64)) k \<longleftrightarrow>
      k < 64 \<and> k div 8 = n \<and> bit (field ! n) (k mod 8)"
  proof (cases "k div 8 = n")
    case True
    then have "k = n * 8 + k mod 8" by (metis div_mult_mod_eq)
    then have "k - n * 8 = k mod 8" "n * 8 \<le> k" by linarith+
    with True show ?thesis by (auto simp: bit_push_bit_iff bit_unsigned_iff)
  next
    case False
    have "8 \<le> k - n * 8" if "n * 8 \<le> k"
    proof -
      have "n \<le> k div 8" using that by (simp add: less_eq_div_iff_mult_less_eq)
      with False have "Suc n \<le> k div 8" by simp
      then have "Suc n * 8 \<le> k" by (simp add: less_eq_div_iff_mult_less_eq)
      then show ?thesis by simp
    qed
    with False show ?thesis
      by (auto simp: bit_push_bit_iff bit_unsigned_iff dest: bit_imp_le_length)
  qed
  with Suc show ?case by (auto simp: bit_or_iff less_Suc_eq)
qed

lemma or_bytes_loop_le_word:
  "foldl (\<lambda>value index. value OR push_bit (index * 8) (ucast (field ! index))) (0 :: uint64) [0..<length field]
     = le_word field"
  by (rule bit_word_eqI) (auto simp: or_bytes_loop bit_le_word)

lemma be_bytes_loop:
  "foldl (\<lambda>value current. push_bit 8 value OR ucast current) (0 :: uint64) (field :: bytes) = be_word field"
  by (induction field rule: rev_induct) (auto simp: be_word_def or.commute)

lemma codec_getBytes_eq:
  "codec_getBytes c field = (if codec_order c = LSBFirst then le_word field else be_word field)"
  by (simp add: codec_getBytes_def ucast_le_word ucast_be_word or_bytes_loop_le_word be_bytes_loop
      le_word_single be_word_def rev_nth)

lemma codec_setBytes_eq:
  "codec_setBytes c field value =
     (if codec_order c = LSBFirst then le_bytes (length field) value else be_bytes (length field) value)"
proof -
  have 1: "[ucast value] = le_bytes 1 value" by (simp add: le_bytes_def)
  have 2: "map (\<lambda>index. ucast (drop_bit (index * 8) value)) [0..<length field] = le_bytes (length field) value"
    by (simp add: le_bytes_def mult.commute)
  have 3: "map (\<lambda>index. ucast (drop_bit ((length field - 1 - index) * 8) value)) [0..<length field]
      = be_bytes (length field) value"
    by (rule nth_equalityI) (simp_all add: be_bytes_def rev_nth mult.commute)
  show ?thesis
    unfolding codec_setBytes_def 1 2 3
    by (simp add: le_bytes_ucast be_bytes_def) (simp add: le_bytes_def)
qed

text \<open>The stream position of value bit \<open>i\<close> of a byte-aligned field, split into byte and lane.\<close>

lemma aligned_pos:
  assumes "unat (codec_width c) = 8 * n" "i < 8 * n"
  shows "(8 * o' + field_pos c i) div 8 = o' + (if codec_order c = MSBFirst then n - 1 - i div 8 else i div 8)"
    and "field_lane c (8 * o' + field_pos c i) = i mod 8"
proof -
  define a b where "a = i div 8" and "b = i mod 8"
  then have ab: "i = 8 * a + b" "b < 8" by simp_all
  then have a: "a < n" using assms(2) by linarith
  then have m: "8 * n - 1 - i = 8 * (n - 1 - a) + (7 - b)" using ab by (simp add: algebra_simps)
  have dm: "(8 * p + (8 * q + r)) div 8 = p + q" "(8 * p + (8 * q + r)) mod 8 = r"
    if "r < 8" for p q r :: nat using that by auto
  have "7 - b < 8" by simp
  from dm [OF this] dm [OF ab(2)]
  have "(8 * o' + (8 * (n - 1 - a) + (7 - b))) div 8 = o' + (n - 1 - a)"
    and "(8 * o' + (8 * (n - 1 - a) + (7 - b))) mod 8 = 7 - b"
    and "(8 * o' + (8 * a + b)) div 8 = o' + a" and "(8 * o' + (8 * a + b)) mod 8 = b"
    by blast+
  note dm = this
  have b: "7 - (7 - b) = b" using ab by simp
  show "(8 * o' + field_pos c i) div 8 = o' + (if codec_order c = MSBFirst then n - 1 - i div 8 else i div 8)"
    unfolding field_pos_def assms(1) a_def [symmetric] m using ab(1) dm by presburger
  show "field_lane c (8 * o' + field_pos c i) = i mod 8"
    unfolding field_pos_def field_lane_def assms(1) b_def [symmetric] m using ab(1) dm b by presburger
qed

lemma codec_width_aligned:
  assumes "codec_width c mod 8 = 0"
  obtains n where "unat (codec_width c) = 8 * n" "unat (codec_width c) div 8 = n"
proof -
  have "unat (codec_width c mod 8) = 0" using assms by simp
  then have "unat (codec_width c) mod 8 = 0" by (simp add: unat_mod)
  then show thesis using that [of "unat (codec_width c) div 8"] by auto
qed

lemma MSB_neq_LSB [simp]: "MSBFirst \<noteq> LSBFirst" "LSBFirst \<noteq> MSBFirst"
  by (simp_all add: MSBFirst_def LSBFirst_def)

lemma bit_be_word: "bit (be_word bs :: uint64) i \<longleftrightarrow>
    i < 64 \<and> i div 8 < length bs \<and> bit (bs ! (length bs - 1 - i div 8)) (i mod 8)"
  by (auto simp: be_word_def bit_le_word rev_nth)

lemma codec_getBytes_bits:
  assumes wf: "wf_codec c" and n: "unat (codec_width c) = 8 * n"
    and len: "8 * o' + 8 * n \<le> 8 * length data"
  shows "bit (codec_getBytes c (take n (drop o' data))) i \<longleftrightarrow>
    i < unat (codec_width c) \<and> field_bit c data (8 * o' + field_pos c i)"
proof (cases "i < 8 * n")
  case True
  then have d: "i div 8 < n" and i: "i < 64" using n wf by (auto simp: wf_codec_def)
  have l: "length (take n (drop o' data)) = n" using len by simp
  show ?thesis using True d i wf len
    unfolding field_bit_def aligned_pos [OF n True] n codec_getBytes_eq
    by (auto simp: bit_le_word bit_be_word l wf_codec_def)
next
  case False
  then have "\<not> i div 8 < n" by (simp add: not_less less_eq_div_iff_mult_less_eq mult.commute)
  moreover have "length (take n (drop o' data)) = n" using len by simp
  ultimately show ?thesis using False by (simp add: codec_getBytes_eq bit_le_word bit_be_word n)
qed

text \<open>
  What \<open>codec_Get\<close> returns, on both paths: bit \<open>i\<close> of the value is the stream bit at the field's
  position for \<open>i\<close>, and every bit from the width up is clear.
\<close>

lemma codec_Get_bits:
  assumes wf: "wf_codec c" and st: "codec_fieldStart c data index = Inr start"
  shows "\<exists>v. codec_Get c data index = Inr v \<and>
    (\<forall>i. bit v i \<longleftrightarrow> i < unat (codec_width c) \<and>
       field_bit c data (unat index * unat (codec_width c) + field_pos c i))"
proof (cases "codec_width c mod 8 = 0")
  case True
  note f = codec_fieldStart_Inr [OF wf st]
  from True obtain n where n: "unat (codec_width c) = 8 * n" "unat (codec_width c) div 8 = n"
    by (rule codec_width_aligned)
  have o: "8 * unat (start div 8) = unat start" using f(1) n by (simp add: unat_div)
  have "8 * unat (start div 8) + 8 * n \<le> 8 * length data" using f(3) n o by simp
  note b = codec_getBytes_bits [OF wf n(1) this, unfolded o f(1)]
  have "codec_Get c data index = Inr (codec_getBytes c (take n (drop (unat (start div 8)) data)))"
    using True st n by (simp add: codec_Get_def Let_def)
  with b show ?thesis by auto
next
  case False
  note f = codec_fieldStart_Inr [OF wf st]
  from False have "codec_Get c data index = Inr (codec_getLoop c data start)"
    using st by (simp add: codec_Get_def)
  with codec_getLoop_bits [OF wf f(2)] f(1) show ?thesis by auto
qed

lemma codec_setBytes_bits:
  fixes newval :: uint64
  assumes wf: "wf_codec c" and n: "unat (codec_width c) = 8 * n"
    and len: "8 * o' + 8 * n \<le> 8 * length data" and k: "k < 8 * length data"
  defines "data' \<equiv> take o' data @ codec_setBytes c (take n (drop o' data)) newval @ drop (o' + n) data"
  shows "length data' = length data"
    and "field_bit c data' k \<longleftrightarrow>
      (if 8 * o' \<le> k \<and> k < 8 * o' + 8 * n then bit newval (field_pos c (k - 8 * o')) else field_bit c data k)"
proof -
  have l: "length (codec_setBytes c (take n (drop o' data)) newval) = n"
    using len by (simp add: codec_setBytes_eq)
  then show L: "length data' = length data" using len by (simp add: data'_def)
  show "field_bit c data' k \<longleftrightarrow>
      (if 8 * o' \<le> k \<and> k < 8 * o' + 8 * n then bit newval (field_pos c (k - 8 * o')) else field_bit c data k)"
  proof (cases "8 * o' \<le> k \<and> k < 8 * o' + 8 * n")
    case False
    then have "k div 8 < o' \<or> o' + n \<le> k div 8"
      by (simp add: less_eq_div_iff_mult_less_eq div_less_iff_less_mult algebra_simps not_le not_less)
    moreover have "k div 8 < length data" using k by (simp add: div_less_iff_less_mult algebra_simps)
    ultimately have "data' ! (k div 8) = data ! (k div 8)" using len l
      by (auto simp: data'_def nth_append)
    with False show ?thesis by (auto simp: field_bit_def)
  next
    case True
    define j i where "j = k - 8 * o'" and "i = field_pos c j"
    have j: "j < 8 * n" "k = 8 * o' + j" using True by (auto simp: j_def)
    have i: "i < 8 * n" "field_pos c i = j" unfolding i_def using j n
      by (metis field_pos_less, metis field_pos_pos)
    then have d: "i div 8 < n" by simp
    have "i < 64" using i n wf by (simp add: wf_codec_def)
    have "field_bit c data' k \<longleftrightarrow> bit (data' ! (o' + (if codec_order c = MSBFirst then n - 1 - i div 8 else i div 8))) (i mod 8)"
      unfolding field_bit_def j(2) i(2) [symmetric] aligned_pos [OF n i(1)] ..
    also have "\<dots> \<longleftrightarrow> bit (codec_setBytes c (take n (drop o' data)) newval !
        (if codec_order c = MSBFirst then n - 1 - i div 8 else i div 8)) (i mod 8)"
      using len l d by (auto simp: data'_def nth_append)
    also have "\<dots> \<longleftrightarrow> bit newval i"
      using len d wf by (auto simp: codec_setBytes_eq be_bytes_def rev_nth wf_codec_def
          bit_unsigned_iff bit_drop_bit_eq)
    finally show ?thesis using True by (simp add: i_def j_def)
  qed
qed

lemma codec_Set_bits:
  assumes wf: "wf_codec c" and st: "codec_fieldStart c data index = Inr start"
    and fits: "unat value < 2 ^ unat (codec_width c)"
  shows "\<exists>data'. codec_Set c data index value = Inr data' \<and> length data' = length data \<and>
    (\<forall>k < 8 * length data. field_bit c data' k \<longleftrightarrow>
       (if unat index * unat (codec_width c) \<le> k
           \<and> k < unat index * unat (codec_width c) + unat (codec_width c)
        then bit value (field_pos c (k - unat index * unat (codec_width c)))
        else field_bit c data k))"
proof -
  note f = codec_fieldStart_Inr [OF wf st]
  have w: "\<not> (codec_width c < 64 \<and> value \<ge> push_bit (unat (codec_width c)) 1)"
  proof
    assume a: "codec_width c < 64 \<and> value \<ge> push_bit (unat (codec_width c)) 1"
    then have "unat (codec_width c) < 64" by (simp add: word_less_nat_alt)
    then have "unat (2 ^ unat (codec_width c) :: uint64) = 2 ^ unat (codec_width c)"
      by (simp add: unat_power_lower64)
    with a fits show False by (simp add: word_le_nat_alt)
  qed
  show ?thesis
  proof (cases "codec_width c mod 8 = 0")
    case True
    from True obtain n where n: "unat (codec_width c) = 8 * n" "unat (codec_width c) div 8 = n"
      by (rule codec_width_aligned)
    have o: "8 * unat (start div 8) = unat start" using f(1) n by (simp add: unat_div)
    have len: "8 * unat (start div 8) + 8 * n \<le> 8 * length data" using f(3) n o by simp
    have "codec_Set c data index value = Inr (take (unat (start div 8)) data @
        codec_setBytes c (take n (drop (unat (start div 8)) data)) value @ drop (unat (start div 8) + n) data)"
      using True st n w by (simp add: codec_Set_def Let_def)
    moreover have "length (take (unat (start div 8)) data @
        codec_setBytes c (take n (drop (unat (start div 8)) data)) value @ drop (unat (start div 8) + n) data) = length data"
      using len by (simp add: codec_setBytes_eq)
    ultimately show ?thesis
      using codec_setBytes_bits(2) [OF wf n(1) len, where newval = "value", unfolded o f(1)] n(1)
      by (auto simp: o f(1))
  next
    case False
    have "codec_Set c data index value = Inr (codec_setLoop c data start value)"
      using False st w by (auto simp: codec_Set_def)
    then show ?thesis using codec_setLoop_prefix [OF wf f(2,3) order_refl] f(1)
      by (auto simp: codec_setLoop_def)
  qed
qed

section \<open>The codec laws\<close>

lemma field_bits_eqI:
  assumes "length d = length d'" "\<And>k. k < 8 * length d \<Longrightarrow> field_bit c d k \<longleftrightarrow> field_bit c d' k"
  shows "d = d'"
proof (rule nth_equalityI)
  show "length d = length d'" by (rule assms(1))
  fix q assume q: "q < length d"
  show "d ! q = d' ! q"
  proof (rule bit_word_eqI)
    fix r assume "r < LENGTH(8)"
    then have r: "r < 8" by simp
    define s where "s = (if codec_order c = MSBFirst then 7 - r else r)"
    have s: "s < 8" using r by (cases "codec_order c = MSBFirst") (simp_all add: s_def)
    then have dm: "(8 * q + s) div 8 = q" "(8 * q + s) mod 8 = s" by auto
    have "8 * q + s < 8 * length d" using q s by linarith
    moreover have "field_lane c (8 * q + s) = r" using r unfolding field_lane_def dm
      by (auto simp: s_def)
    ultimately show "bit (d ! q) r = bit (d' ! q) r" using assms(2) [of "8 * q + s"]
      by (simp add: field_bit_def dm)
  qed
qed

lemma bit_imp_less_of_unat_less:
  assumes "unat (v :: 'a::len word) < 2 ^ w" "bit v i"
  shows "i < w"
proof (rule ccontr)
  assume "\<not> i < w"
  then have "(2 :: nat) ^ w \<le> 2 ^ i" by simp
  with assms(1) have "unat v < 2 ^ i" by linarith
  then have "unat v div 2 ^ i = 0" by simp
  moreover have "bit (unat v) i" using assms(2) by (simp add: bit_unsigned_iff)
  ultimately show False by (simp add: bit_iff_odd)
qed

lemma unat_less_of_bits:
  assumes "\<And>i. bit (v :: uint64) i \<Longrightarrow> i < w"
  shows "unat v < 2 ^ w"
proof -
  have "take_bit w v = v"
    by (rule bit_word_eqI) (use assms in \<open>auto simp: bit_take_bit_iff\<close>)
  then have "take_bit w (unat v) = unat v" by (metis unsigned_take_bit_eq)
  then show ?thesis by (simp add: take_bit_nat_eq_self_iff)
qed

lemma codec_Set_too_wide:
  assumes "wf_codec c"
  shows "codec_width c < 64 \<and> (value :: uint64) \<ge> push_bit (unat (codec_width c)) 1
    \<longleftrightarrow> 2 ^ unat (codec_width c) \<le> unat value"
proof (cases "unat (codec_width c) < 64")
  case True
  then show ?thesis using unat_power_lower64 [OF True] by (simp add: word_less_nat_alt word_le_nat_alt)
next
  case False
  then have "unat (codec_width c) = 64" using assms by (simp add: wf_codec_def)
  then show ?thesis using unat_u64_bound [of "value"] by (simp add: word_less_nat_alt)
qed

text \<open>\<open>codec_Set\<close> fails exactly on a value that does not fit and on a field outside the buffer.\<close>

lemma codec_Set_cases:
  assumes "wf_codec c"
  shows "codec_Set c data index value =
    (if 2 ^ unat (codec_width c) \<le> unat value then Inl [ErrValueTooWide]
     else case codec_fieldStart c data index of
            Inl e \<Rightarrow> Inl e
          | Inr _ \<Rightarrow> codec_Set c data index value)"
  unfolding codec_Set_def codec_Set_too_wide [OF assms] by (auto split: sum.splits)

lemma codec_Set_Inr:
  assumes "wf_codec c" "codec_Set c data index value = Inr data'"
  shows "unat value < 2 ^ unat (codec_width c)" "\<exists>start. codec_fieldStart c data index = Inr start"
  using assms(2) codec_Set_cases [OF assms(1), of data index "value"]
  by (auto split: if_splits sum.splits)

lemma codec_fieldStart_length:
  "length data = length data' \<Longrightarrow> codec_fieldStart c data index = codec_fieldStart c data' index"
  by (simp add: codec_fieldStart_def Let_def)

lemma codec_Get_Inl: "codec_fieldStart c data index = Inl e \<Longrightarrow> codec_Get c data index = Inl e"
  by (simp add: codec_Get_def)

lemma field_pos_distinct_fields:
  assumes "j < w" "i \<noteq> (i' :: nat)"
  shows "\<not> (i * w \<le> i' * w + j \<and> i' * w + j < i * w + w)"
proof
  assume h: "i * w \<le> i' * w + j \<and> i' * w + j < i * w + w"
  then have "i * w < Suc i' * w" "i' * w < Suc i * w" using assms(1) by auto
  then have "i < Suc i'" "i' < Suc i" by (metis mult_less_cancel2)+
  with assms(2) show False by simp
qed

lemma codec_Set_Get:
  assumes wf: "wf_codec c" and set: "codec_Set c data index value = Inr data'"
  shows "length data' = length data"
    and "codec_Get c data' index = Inr value"
    and "j \<noteq> index \<Longrightarrow> codec_Get c data' j = codec_Get c data j"
proof -
  let ?w = "unat (codec_width c)"
  note fits = codec_Set_Inr(1) [OF wf set]
  from codec_Set_Inr(2) [OF wf set] obtain start where st: "codec_fieldStart c data index = Inr start" ..
  from codec_Set_bits [OF wf st fits] set
  have len: "length data' = length data" and b: "\<And>k. k < 8 * length data \<Longrightarrow> field_bit c data' k \<longleftrightarrow>
       (if unat index * ?w \<le> k \<and> k < unat index * ?w + ?w
        then bit value (field_pos c (k - unat index * ?w)) else field_bit c data k)"
    by auto
  show "length data' = length data" by (rule len)
  note f = codec_fieldStart_Inr [OF wf st]
  have st': "codec_fieldStart c data' index = Inr start"
    using st codec_fieldStart_length [OF len] by simp
  from codec_Get_bits [OF wf st'] obtain v where v: "codec_Get c data' index = Inr v"
    "\<And>i. bit v i \<longleftrightarrow> i < ?w \<and> field_bit c data' (unat index * ?w + field_pos c i)" by auto
  have "v = value"
  proof (rule bit_word_eqI)
    fix i
    show "bit v i = bit value i"
    proof (cases "i < ?w")
      case True
      then have "field_pos c i < ?w" by (rule field_pos_less)
      then show ?thesis using True f(1,3) field_pos_pos [OF True]
        by (simp add: v(2) b)
    next
      case False
      then show ?thesis using bit_imp_less_of_unat_less [OF fits] by (auto simp: v(2))
    qed
  qed
  with v(1) show "codec_Get c data' index = Inr value" by simp
  assume j: "j \<noteq> index"
  show "codec_Get c data' j = codec_Get c data j"
  proof (cases "codec_fieldStart c data j")
    case (Inl e)
    then show ?thesis using codec_fieldStart_length [OF len] by (simp add: codec_Get_Inl)
  next
    case (Inr s)
    then have s': "codec_fieldStart c data' j = Inr s" using codec_fieldStart_length [OF len] by simp
    note g = codec_fieldStart_Inr [OF wf Inr]
    from codec_Get_bits [OF wf Inr] obtain x where x: "codec_Get c data j = Inr x"
      "\<And>i. bit x i \<longleftrightarrow> i < ?w \<and> field_bit c data (unat j * ?w + field_pos c i)" by auto
    from codec_Get_bits [OF wf s'] obtain y where y: "codec_Get c data' j = Inr y"
      "\<And>i. bit y i \<longleftrightarrow> i < ?w \<and> field_bit c data' (unat j * ?w + field_pos c i)" by auto
    have "unat index \<noteq> unat j" using j by (simp add: word_unat_eq_iff)
    note d = field_pos_distinct_fields [OF field_pos_less this]
    have "field_bit c data' (unat j * ?w + field_pos c i) \<longleftrightarrow> field_bit c data (unat j * ?w + field_pos c i)"
      if "i < ?w" for i
      using g(1,3) d [OF that] field_pos_less [OF that] b [of "unat j * ?w + field_pos c i"] by auto
    then have "y = x" by (intro bit_word_eqI) (auto simp: x(2) y(2))
    with x(1) y(1) show ?thesis by simp
  qed
qed

lemma codec_Get_bound:
  assumes "wf_codec c" "codec_Get c data index = Inr v"
  shows "unat v < 2 ^ unat (codec_width c)"
proof (cases "codec_fieldStart c data index")
  case (Inl e)
  then show ?thesis using assms(2) by (simp add: codec_Get_Inl)
next
  case (Inr s)
  from codec_Get_bits [OF assms(1) Inr] assms(2) show ?thesis
    by (auto intro: unat_less_of_bits)
qed

text \<open>The fast paths compute what the bit loops would.\<close>

lemma codec_Get_is_loop:
  assumes "wf_codec c" "codec_fieldStart c data index = Inr start"
  shows "codec_Get c data index = Inr (codec_getLoop c data start)"
proof -
  note f = codec_fieldStart_Inr [OF assms]
  from codec_Get_bits [OF assms] obtain v where v: "codec_Get c data index = Inr v"
    "\<And>i. bit v i \<longleftrightarrow> i < unat (codec_width c) \<and>
      field_bit c data (unat index * unat (codec_width c) + field_pos c i)" by auto
  have "v = codec_getLoop c data start"
    by (rule bit_word_eqI) (simp add: v(2) codec_getLoop_bits [OF assms(1) f(2)] f(1))
  with v(1) show ?thesis by simp
qed

lemma codec_Set_is_loop:
  assumes "wf_codec c" "codec_fieldStart c data index = Inr start"
    and "unat value < 2 ^ unat (codec_width c)"
  shows "codec_Set c data index value = Inr (codec_setLoop c data start value)"
proof -
  note f = codec_fieldStart_Inr [OF assms(1,2)]
  note loop = codec_setLoop_prefix [OF assms(1) f(2,3) order_refl, folded codec_setLoop_def]
  from codec_Set_bits [OF assms] obtain d where d: "codec_Set c data index value = Inr d"
    "length d = length data" "\<And>k. k < 8 * length data \<Longrightarrow> field_bit c d k \<longleftrightarrow>
       (if unat index * unat (codec_width c) \<le> k
           \<and> k < unat index * unat (codec_width c) + unat (codec_width c)
        then bit value (field_pos c (k - unat index * unat (codec_width c)))
        else field_bit c data k)" by auto
  have "d = codec_setLoop c data start value"
    by (rule field_bits_eqI [where c = c]) (simp_all add: d(2,3) loop f(1))
  with d(1) show ?thesis by simp
qed

lemma codec_Uint32_append [go_codec]: "codec_Uint32 (le_bytes 4 v @ rest) = Inr v"
  by (simp add: codec_Uint32_def le_word_le_bytes)

lemma codec_Uint64_append [go_codec]: "codec_Uint64 (le_bytes 8 v @ rest) = Inr v"
  by (simp add: codec_Uint64_def le_word_le_bytes)

lemma codec_Get_eq:
  assumes "wf_codec c"
  shows "codec_Get c data index =
    (case codec_fieldStart c data index of Inl e \<Rightarrow> Inl e | Inr start \<Rightarrow> Inr (codec_getLoop c data start))"
  using codec_Get_Inl codec_Get_is_loop [OF assms] by (simp split: sum.split)

lemma codec_Set_eq:
  assumes "wf_codec c"
  shows "codec_Set c data index v =
    (if 2 ^ unat (codec_width c) \<le> unat v then Inl [ErrValueTooWide]
     else case codec_fieldStart c data index of
            Inl e \<Rightarrow> Inl e | Inr start \<Rightarrow> Inr (codec_setLoop c data start v))"
  by (subst codec_Set_cases [OF assms]) (simp add: codec_Set_is_loop [OF assms] not_le split: sum.split)

section \<open>The properties of the codec\<close>

text \<open>
  (C12) A successful \<^verbatim>\<open>Set\<close> keeps the buffer length, makes \<^verbatim>\<open>Get\<close> at the same index return the
  stored value and leaves what \<^verbatim>\<open>Get\<close> returns at every other index, an error included, as it was.
\<close>

theorem codec_set_get_frame:
  assumes "wf_codec c" and "codec_Set c data index v = Inr data'"
  shows "length data' = length data \<and> codec_Get c data' index = Inr v \<and>
         (\<forall>j. j \<noteq> index \<longrightarrow> codec_Get c data' j = codec_Get c data j)"
  using codec_Set_Get [OF assms] by blast

theorem codec_set_get_frame_witness:
  "wf_codec \<lparr>codec_width = 5, codec_order = LSBFirst\<rparr> \<and>
   codec_Set \<lparr>codec_width = 5, codec_order = LSBFirst\<rparr> [255, 0] 1 9 = Inr [63, 1] \<and>
   codec_Get \<lparr>codec_width = 5, codec_order = LSBFirst\<rparr> [63, 1] 1 = Inr 9 \<and>
   codec_Get \<lparr>codec_width = 5, codec_order = LSBFirst\<rparr> [63, 1] 0 =
     codec_Get \<lparr>codec_width = 5, codec_order = LSBFirst\<rparr> [255, 0] 0"
proof -
  let ?c = "\<lparr>codec_width = 5, codec_order = LSBFirst\<rparr>"
  have wf: "wf_codec ?c" by code_simp
  have set: "codec_Set ?c [255, 0] 1 9 = Inr [63, 1]" by code_simp
  show ?thesis using wf set codec_set_get_frame [OF wf set] by simp
qed

text \<open>
  The byte-aligned fast paths of \<^verbatim>\<open>Get\<close> and \<^verbatim>\<open>Set\<close> compute what the bit-by-bit loops
  compute: for every width, on every field that lies in the buffer, both operations are their loops.
\<close>

theorem codec_fast_paths_are_loops:
  assumes "wf_codec c" and "codec_fieldStart c data index = Inr start"
  shows "codec_Get c data index = Inr (codec_getLoop c data start) \<and>
         (unat v < 2 ^ unat (codec_width c) \<longrightarrow>
            codec_Set c data index v = Inr (codec_setLoop c data start v))"
  using codec_Get_is_loop [OF assms] codec_Set_is_loop [OF assms] by blast

theorem codec_fast_paths_are_loops_witness:
  "codec_Get \<lparr>codec_width = 16, codec_order = MSBFirst\<rparr> [0, 0, 1, 2] 1 =
     Inr (codec_getLoop \<lparr>codec_width = 16, codec_order = MSBFirst\<rparr> [0, 0, 1, 2] 16) \<and>
   codec_Set \<lparr>codec_width = 16, codec_order = MSBFirst\<rparr> [0, 0, 1, 2] 1 513 =
     Inr (codec_setLoop \<lparr>codec_width = 16, codec_order = MSBFirst\<rparr> [0, 0, 1, 2] 16 513)"
proof -
  let ?c = "\<lparr>codec_width = 16, codec_order = MSBFirst\<rparr>"
  have wf: "wf_codec ?c" by code_simp
  have st: "codec_fieldStart ?c [0, 0, 1, 2] 1 = Inr 16" by code_simp
  show ?thesis using codec_fast_paths_are_loops [OF wf st, of 513] by simp
qed

text \<open>
  (C13) \<^verbatim>\<open>Set\<close> on a constructed codec fails with \<^verbatim>\<open>ErrValueTooWide\<close> exactly for values of more than
  \<^verbatim>\<open>width\<close> bits; otherwise \<^verbatim>\<open>Set\<close> and \<^verbatim>\<open>Get\<close> fail with \<^verbatim>\<open>ErrOutOfRange\<close> exactly when the end bit
  of the field does not fit in 64 bits, with \<^verbatim>\<open>ErrShortBuffer\<close> exactly when the field ends behind
  the buffer, and succeed in every other case.  Each condition is one on exact integers: no
  intermediate product or sum wraps.
\<close>

theorem codec_errors_exact:
  assumes "codec_New w ord = Inr c"
  shows "codec_Set c data index v =
     (if 2 ^ unat w \<le> unat v then Inl [ErrValueTooWide]
      else if 2 ^ 64 \<le> (unat index + 1) * unat w then Inl [ErrOutOfRange]
      else if 8 * length data < (unat index + 1) * unat w then Inl [ErrShortBuffer]
      else Inr (codec_setLoop c data (index * ucast w) v)) \<and>
   codec_Get c data index =
     (if 2 ^ 64 \<le> (unat index + 1) * unat w then Inl [ErrOutOfRange]
      else if 8 * length data < (unat index + 1) * unat w then Inl [ErrShortBuffer]
      else Inr (codec_getLoop c data (index * ucast w)))"
proof -
  from codec_New_wf [OF assms] have wf: "wf_codec c" and w: "codec_width c = w" by simp_all
  have "(unat index + 1) * unat w = unat index * unat w + unat w" by (simp add: algebra_simps)
  moreover have "of_nat (unat index * unat w) = index * ucast w" by (simp add: unat_ucast_width [symmetric] del: unat_ucast_width)
  moreover have "length data < (e + 7) div 8 \<longleftrightarrow> 8 * length data < e" for e by linarith
  ultimately have f: "codec_fieldStart c data index =
    (if 2 ^ 64 \<le> (unat index + 1) * unat w then Inl [ErrOutOfRange]
     else if 8 * length data < (unat index + 1) * unat w then Inl [ErrShortBuffer]
     else Inr (index * ucast w))"
    unfolding codec_fieldStart_eq [OF wf] w Let_def by presburger
  show ?thesis unfolding codec_Set_eq [OF wf] codec_Get_eq [OF wf] f w by simp
qed

theorem codec_errors_exact_witness:
  "codec_New 7 MSBFirst = Inr \<lparr>codec_width = 7, codec_order = MSBFirst\<rparr> \<and>
   codec_Set \<lparr>codec_width = 7, codec_order = MSBFirst\<rparr> [0, 0] 0 128 = Inl [ErrValueTooWide] \<and>
   codec_Set \<lparr>codec_width = 7, codec_order = MSBFirst\<rparr> [0, 0] 2 1 = Inl [ErrShortBuffer]"
proof -
  have new: "codec_New 7 MSBFirst = Inr \<lparr>codec_width = 7, codec_order = MSBFirst\<rparr>" by code_simp
  show ?thesis using new codec_errors_exact [OF new, of "[0, 0]" 0 128] codec_errors_exact [OF new, of "[0, 0]" 2 1]
    by simp
qed

end
