(* ===== verification/GoText.thy ===== *)
theory GoText
  imports Prelude
begin

text \<open>
  The text functions of the Go standard library that the sources use: \<^verbatim>\<open>strconv.FormatUint\<close>,
  \<^verbatim>\<open>FormatInt\<close>, \<^verbatim>\<open>ParseUint\<close>, \<^verbatim>\<open>ParseInt\<close> in base ten at 64 bits, \<^verbatim>\<open>hex.Encode\<close> and
  \<^verbatim>\<open>hex.Decode\<close>, and \<^verbatim>\<open>strings.Cut\<close>, \<^verbatim>\<open>HasPrefix\<close>, \<^verbatim>\<open>HasSuffix\<close>, \<^verbatim>\<open>TrimPrefix\<close>,
  \<^verbatim>\<open>TrimSuffix\<close> and \<^verbatim>\<open>Contains\<close>.  A parse error is \<open>None\<close>.
\<close>

section \<open>strconv\<close>

definition digit_char :: "nat \<Rightarrow> char" where
  "digit_char d = char_of (48 + d)"

definition digit_value :: "char \<Rightarrow> nat option" where
  "digit_value c = (let n = of_char c in if 48 \<le> n \<and> n \<le> 57 then Some (n - 48) else None)"

fun dec_digits :: "nat \<Rightarrow> string" where
  "dec_digits n =
     (if n < 10 then [digit_char n] else dec_digits (n div 10) @ [digit_char (n mod 10)])"

declare dec_digits.simps [simp del]

definition FormatUint :: "uint64 \<Rightarrow> string" where
  "FormatUint w = dec_digits (unat w)"

definition FormatInt :: "int64 \<Rightarrow> string" where
  "FormatInt w =
     (if sint w < 0 then CHR ''-'' # dec_digits (nat (- sint w)) else dec_digits (nat (sint w)))"

fun parse_dec :: "nat \<Rightarrow> string \<Rightarrow> nat option" where
  "parse_dec acc [] = Some acc"
| "parse_dec acc (c # cs) =
     (case digit_value c of None \<Rightarrow> None | Some d \<Rightarrow> parse_dec (10 * acc + d) cs)"

definition ParseUint :: "string \<Rightarrow> uint64 option" where
  "ParseUint s =
     (if s = [] then None
      else case parse_dec 0 s of
             None \<Rightarrow> None
           | Some n \<Rightarrow> if n < 2 ^ 64 then Some (of_nat n) else None)"

definition ParseInt :: "string \<Rightarrow> int64 option" where
  "ParseInt s =
     (case s of
        [] \<Rightarrow> None
      | c # cs \<Rightarrow>
          let neg = (c = CHR ''-''); body = (if c = CHR ''+'' \<or> c = CHR ''-'' then cs else s)
          in case ParseUint body of
               None \<Rightarrow> None
             | Some un \<Rightarrow>
                 if \<not> neg \<and> 2 ^ 63 \<le> unat un then None
                 else if neg \<and> 2 ^ 63 < unat un then None
                 else Some (if neg then - un else un))"

lemma of_char_digit_char [simp]: "d < 10 \<Longrightarrow> of_char (digit_char d) = (48 + d :: nat)"
  by (simp add: digit_char_def)

lemma digit_value_digit_char [simp]: "d < 10 \<Longrightarrow> digit_value (digit_char d) = Some d"
  by (simp add: digit_value_def Let_def)

lemma digit_value_Some:
  assumes "digit_value c = Some d"
  shows "d < 10" "c = digit_char d"
proof -
  have c: "48 \<le> (of_char c :: nat)" "of_char c \<le> (57 :: nat)" "d = of_char c - 48"
    using assms by (auto simp: digit_value_def Let_def split: if_splits)
  then show "d < 10" by simp
  from c have "char_of (48 + d) = char_of (of_char c :: nat)" by simp
  then show "c = digit_char d" by (simp add: digit_char_def)
qed

lemma dec_digits_nonempty [simp]: "dec_digits n \<noteq> []"
  by (subst dec_digits.simps) simp

lemma parse_dec_append:
  "parse_dec acc (s @ t) = (case parse_dec acc s of None \<Rightarrow> None | Some n \<Rightarrow> parse_dec n t)"
  by (induction s arbitrary: acc) (auto split: option.splits)

lemma parse_dec_dec_digits: "parse_dec 0 (dec_digits n) = Some n"
proof (induction n rule: dec_digits.induct)
  case (1 n)
  then show ?case
    by (cases "n < 10") (auto simp: dec_digits.simps [of n] parse_dec_append)
qed

lemma set_dec_digits: "c \<in> set (dec_digits n) \<Longrightarrow> 48 \<le> (of_char c :: nat) \<and> of_char c \<le> (57 :: nat)"
proof (induction n rule: dec_digits.induct)
  case (1 n)
  then show ?case
    by (cases "n < 10") (auto simp: dec_digits.simps [of n])
qed

lemma hd_dec_digits_neq:
  "dec_digits n \<noteq> CHR ''-'' # s" "dec_digits n \<noteq> CHR ''+'' # s"
  using set_dec_digits [of "CHR ''-''" n] set_dec_digits [of "CHR ''+''" n] by auto

lemma dec_digits_inject [simp]: "dec_digits m = dec_digits n \<longleftrightarrow> m = n"
  by (metis option.inject parse_dec_dec_digits)

lemma ParseUint_dec_digits: "n < 2 ^ 64 \<Longrightarrow> ParseUint (dec_digits n) = Some (of_nat n)"
  by (simp add: ParseUint_def parse_dec_dec_digits)

lemma ParseUint_FormatUint [go_codec]: "ParseUint (FormatUint w) = Some w"
  using unsigned_less [of w, where ?'a = nat]
  by (simp add: FormatUint_def ParseUint_dec_digits)

lemma FormatUint_inject [simp]: "FormatUint v = FormatUint w \<longleftrightarrow> v = w"
  by (simp add: FormatUint_def word_unat_eq_iff [symmetric])

lemma sint_bounds64: "- (2 ^ 63) \<le> sint (w :: int64)" "sint (w :: int64) < 2 ^ 63"
  using sint_ge [of w] sint_lt [of w] by simp_all

lemma ParseInt_FormatInt [go_codec]: "ParseInt (FormatInt w) = Some w"
proof (cases "sint w < 0")
  case True
  define n where "n = nat (- sint w)"
  have n: "n \<le> 2 ^ 63" "int n = - sint w"
    using True sint_bounds64 [of w] by (auto simp: n_def)
  then have un: "unat (of_nat n :: uint64) = n" by (simp add: unat_of_nat)
  have "- (of_nat n :: uint64) = of_int (- int n)" by simp
  also have "\<dots> = of_int (sint w)" by (simp only: n minus_minus)
  finally have "- (of_nat n :: uint64) = w" by simp
  with True n un show ?thesis
    by (simp add: FormatInt_def n_def [symmetric] ParseInt_def ParseUint_dec_digits Let_def)
next
  case False
  define n where "n = nat (sint w)"
  have n: "n < 2 ^ 63" "int n = sint w"
    using False sint_bounds64 [of w] by (auto simp: n_def)
  then have un: "unat (of_nat n :: uint64) = n" by (simp add: unat_of_nat)
  have "(of_nat n :: uint64) = of_int (int n)" by simp
  also have "\<dots> = of_int (sint w)" by (simp only: n)
  finally have w: "(of_nat n :: uint64) = w" by simp
  obtain c cs where cs: "dec_digits n = c # cs" by (cases "dec_digits n") auto
  moreover have "c \<noteq> CHR ''-''" "c \<noteq> CHR ''+''" using cs hd_dec_digits_neq by metis+
  ultimately show ?thesis using False n un w ParseUint_dec_digits [of n]
    by (simp add: FormatInt_def n_def [symmetric] ParseInt_def Let_def)
qed

lemma FormatInt_inject [simp]: "FormatInt v = FormatInt w \<longleftrightarrow> v = w"
  by (metis ParseInt_FormatInt option.inject)

section \<open>encoding/hex\<close>

definition hex_char :: "nat \<Rightarrow> byte" where
  "hex_char d = of_nat (if d < 10 then 48 + d else 87 + d)"

definition hex_value :: "byte \<Rightarrow> nat option" where
  "hex_value b =
     (let n = unat b
      in if 48 \<le> n \<and> n \<le> 57 then Some (n - 48)
         else if 97 \<le> n \<and> n \<le> 102 then Some (n - 87)
         else if 65 \<le> n \<and> n \<le> 70 then Some (n - 55)
         else None)"

definition hex_EncodedLen :: "nat \<Rightarrow> nat" where
  "hex_EncodedLen n = n * 2"

primrec hex_Encode :: "bytes \<Rightarrow> bytes" where
  "hex_Encode [] = []"
| "hex_Encode (b # bs) = hex_char (unat b div 16) # hex_char (unat b mod 16) # hex_Encode bs"

fun hex_Decode :: "bytes \<Rightarrow> bytes option" where
  "hex_Decode [] = Some []"
| "hex_Decode [x] = None"
| "hex_Decode (x # y # rest) =
     (case (hex_value x, hex_value y) of
        (Some a, Some b) \<Rightarrow> map_option ((#) (of_nat (16 * a + b))) (hex_Decode rest)
      | _ \<Rightarrow> None)"

lemma length_hex_Encode [simp, go_len]: "length (hex_Encode bs) = hex_EncodedLen (length bs)"
  by (induction bs) (auto simp: hex_EncodedLen_def)

lemma hex_value_hex_char: "d < 16 \<Longrightarrow> hex_value (hex_char d) = Some d"
  by (simp add: hex_value_def hex_char_def Let_def unat_of_nat)

lemma hex_Decode_Encode [go_codec]: "hex_Decode (hex_Encode bs) = Some bs"
proof (induction bs)
  case Nil
  then show ?case by simp
next
  case (Cons b bs)
  have "unat b div 16 < 16" using unat_byte_bound [of b] by linarith
  with Cons.IH show ?case by (simp add: hex_value_hex_char)
qed

lemma hex_Decode_length: "hex_Decode s = Some bs \<Longrightarrow> length s = 2 * length bs"
  by (induction s arbitrary: bs rule: hex_Decode.induct) (auto split: option.splits)

section \<open>strings\<close>

fun strings_Cut :: "string \<Rightarrow> char \<Rightarrow> string \<times> string \<times> bool" where
  "strings_Cut [] sep = ([], [], False)"
| "strings_Cut (c # cs) sep =
     (if c = sep then ([], cs, True)
      else let (before, after, found) = strings_Cut cs sep in (c # before, after, found))"

definition strings_ContainsChar :: "string \<Rightarrow> char \<Rightarrow> bool" where
  "strings_ContainsChar s c \<longleftrightarrow> c \<in> set s"

definition strings_HasPrefix :: "string \<Rightarrow> string \<Rightarrow> bool" where
  "strings_HasPrefix s p \<longleftrightarrow> take (length p) s = p"

definition strings_HasSuffix :: "string \<Rightarrow> string \<Rightarrow> bool" where
  "strings_HasSuffix s p \<longleftrightarrow> length p \<le> length s \<and> drop (length s - length p) s = p"

definition strings_TrimPrefix :: "string \<Rightarrow> string \<Rightarrow> string" where
  "strings_TrimPrefix s p = (if strings_HasPrefix s p then drop (length p) s else s)"

definition strings_TrimSuffix :: "string \<Rightarrow> string \<Rightarrow> string" where
  "strings_TrimSuffix s p = (if strings_HasSuffix s p then take (length s - length p) s else s)"

lemma strings_Cut_append [simp]:
  "sep \<notin> set s \<Longrightarrow> strings_Cut (s @ sep # t) sep = (s, t, True)"
  by (induction s) auto

lemma strings_Cut_absent: "sep \<notin> set s \<Longrightarrow> strings_Cut s sep = (s, [], False)"
  by (induction s) auto

lemma strings_Cut_True:
  "strings_Cut s sep = (a, b, True) \<Longrightarrow> s = a @ sep # b \<and> sep \<notin> set a"
  by (induction s arbitrary: a) (auto split: prod.splits if_splits)

lemma HasPrefix_append [simp]: "strings_HasPrefix (p @ s) p"
  by (simp add: strings_HasPrefix_def)

lemma HasSuffix_append [simp]: "strings_HasSuffix (s @ p) p"
  by (simp add: strings_HasSuffix_def)

lemma TrimPrefix_append [simp]: "strings_TrimPrefix (p @ s) p = s"
  by (simp add: strings_TrimPrefix_def)

lemma TrimSuffix_append [simp]: "strings_TrimSuffix (s @ p) p = s"
  by (simp add: strings_TrimSuffix_def)

end
