(* ===== verification/Geometry.thy ===== *)
theory Geometry
  imports GoText
begin

text \<open>
  Chunk geometry (\<^verbatim>\<open>internal/geometry/geometry.go\<close>): the validated edge and width configuration, the
  derived sizes, and the floor-division mappings from world blocks to chunks and from chunks to
  large chunks.  Coordinates are \<^verbatim>\<open>int64\<close>, kept as 64-bit words and read with \<^const>\<open>sint\<close>.
  Coordinates are ordered as \<^verbatim>\<open>chunkCoordLess\<close> (\<^verbatim>\<open>fs_split/scan.go\<close>) orders them, and the order is
  the type's \<open>linorder\<close>.
\<close>

section \<open>The code\<close>

record Config =
  ChunkEdge :: uint32
  LargeChunkEdge :: uint32
  BlockBits :: uint8

record Geometry =
  config :: Config
  blockCount :: uint64
  payloadBytes :: nat
  presenceBytes :: nat

datatype Coord = Coord (coord_X: int64) (coord_Y: int64)

record Offset =
  offset_X :: uint32
  offset_Y :: uint32

record BlockMapping =
  map_Chunk :: Coord
  map_Offset :: Offset

record ChunkMapping =
  map_LargeChunk :: Coord
  map_ChunkOffset :: Offset

definition checkedMul :: "uint64 \<Rightarrow> uint64 \<Rightarrow> uint64 \<times> bool" where
  "checkedMul left right =
     (if left \<noteq> 0 \<and> right > MaxUint64 div left then (0, False) else (left * right, True))"

definition maxInt :: uint64 where
  "maxInt = drop_bit 1 (NOT 0)"

definition geometry_New :: "Config \<Rightarrow> Geometry result" where
  "geometry_New cfg =
     (if ChunkEdge cfg = 0 then Inl [ErrInvalid]
      else if LargeChunkEdge cfg = 0 then Inl [ErrInvalid]
      else if BlockBits cfg = 0 \<or> BlockBits cfg > 64 then Inl [ErrInvalid]
      else
        let (blocks, ok) = checkedMul (ucast (ChunkEdge cfg)) (ucast (ChunkEdge cfg))
        in if \<not> ok then Inl [ErrInvalid]
        else let (payloadBits, ok) = checkedMul blocks (ucast (BlockBits cfg))
        in if \<not> ok then Inl [ErrInvalid]
        else let payload = ceil8 payloadBits
        in if payload > maxInt then Inl [ErrInvalid]
        else let presence = ceil8 blocks
        in if presence > maxInt then Inl [ErrInvalid]
        else Inr \<lparr>config = cfg, blockCount = blocks,
                  payloadBytes = unat payload, presenceBytes = unat presence\<rparr>)"

text \<open>Go's \<^verbatim>\<open>/\<close> and \<^verbatim>\<open>%\<close> truncate towards zero and wrap at the width.\<close>

definition floorDiv :: "int64 \<Rightarrow> int64 \<Rightarrow> int64 \<times> int64" where
  "floorDiv value divisor =
     (let quotient = word_of_int (sint value sdiv sint divisor);
          remainder = word_of_int (sint value smod sint divisor)
      in if sint remainder < 0 then (quotient - 1, remainder + divisor) else (quotient, remainder))"

definition BlockToChunk :: "Geometry \<Rightarrow> Coord \<Rightarrow> BlockMapping" where
  "BlockToChunk g block =
     (let (x, localX) = floorDiv (coord_X block) (ucast (ChunkEdge (config g)));
          (y, localY) = floorDiv (coord_Y block) (ucast (ChunkEdge (config g)))
      in \<lparr>map_Chunk = Coord x y,
          map_Offset = \<lparr>offset_X = ucast localX, offset_Y = ucast localY\<rparr>\<rparr>)"

definition ChunkToLargeChunk :: "Geometry \<Rightarrow> Coord \<Rightarrow> ChunkMapping" where
  "ChunkToLargeChunk g chunk =
     (let (x, localX) = floorDiv (coord_X chunk) (ucast (LargeChunkEdge (config g)));
          (y, localY) = floorDiv (coord_Y chunk) (ucast (LargeChunkEdge (config g)))
      in \<lparr>map_LargeChunk = Coord x y,
          map_ChunkOffset = \<lparr>offset_X = ucast localX, offset_Y = ucast localY\<rparr>\<rparr>)"

definition config_String :: "Config \<Rightarrow> string" where
  "config_String c =
     FormatUint (ucast (ChunkEdge c)) @ ''x'' @ FormatUint (ucast (LargeChunkEdge c)) @ ''x''
       @ FormatUint (ucast (BlockBits c))"

definition chunkCoordLess :: "Coord \<Rightarrow> Coord \<Rightarrow> bool" where
  "chunkCoordLess left right \<longleftrightarrow>
     sint (coord_X left) < sint (coord_X right) \<or>
     coord_X left = coord_X right \<and> sint (coord_Y left) < sint (coord_Y right)"

text \<open>Every constructor of the sources re-validates the geometry it is given: this is its check.\<close>

definition wf_geometry :: "Geometry \<Rightarrow> bool" where
  "wf_geometry g \<longleftrightarrow> geometry_New (config g) = Inr g"

section \<open>Coordinates as a linear order\<close>

lemma sint_eqI: "\<not> sint v < sint w \<Longrightarrow> \<not> sint w < sint v \<Longrightarrow> v = (w :: int64)"
  by (rule signed_word_eqI) simp

instantiation Coord :: linorder
begin

definition less_Coord :: "Coord \<Rightarrow> Coord \<Rightarrow> bool" where
  "less_Coord a b \<longleftrightarrow> chunkCoordLess a b"

definition less_eq_Coord :: "Coord \<Rightarrow> Coord \<Rightarrow> bool" where
  "less_eq_Coord a b \<longleftrightarrow> a = b \<or> chunkCoordLess a b"

instance
proof
  fix a b c :: Coord
  note d = less_Coord_def less_eq_Coord_def chunkCoordLess_def
  show "a < b \<longleftrightarrow> a \<le> b \<and> \<not> b \<le> a" by (auto simp: d)
  show "a \<le> a" by (simp add: d)
  show "a \<le> b \<Longrightarrow> b \<le> c \<Longrightarrow> a \<le> c" by (auto simp: d)
  show "a \<le> b \<Longrightarrow> b \<le> a \<Longrightarrow> a = b" by (auto simp: d)
  show "a \<le> b \<or> b \<le> a"
    by (cases a; cases b) (auto simp: d intro: sint_eqI)
qed

end

section \<open>Validation\<close>

lemma unat_ucast_32_64 [simp]: "unat (ucast (e :: uint32) :: uint64) = unat e"
  using unat_u32_bound [of e] by (simp add: unsigned_ucast_eq take_bit_nat_eq_self)

lemma unat_ucast_8_64 [simp]: "unat (ucast (e :: uint8) :: uint64) = unat e"
  using unat_byte_bound [of e] by (simp add: unsigned_ucast_eq take_bit_nat_eq_self)

lemma unat_maxInt [simp]: "unat maxInt = 2 ^ 63 - 1"
  by (simp add: maxInt_def mask_eq_exp_minus_1)

lemma checkedMul_eq:
  "checkedMul a b = (if unat a * unat b < 2 ^ 64 then (a * b, True) else (0, False))"
proof (cases "a = 0")
  case True
  then show ?thesis by (simp add: checkedMul_def)
next
  case False
  then have "0 < unat a" by (simp add: unat_gt_0)
  then have "b \<le> MaxUint64 div a \<longleftrightarrow> unat a * unat b < 2 ^ 64"
    using mul_fits_iff [of a b] by (simp only: mult.commute)
  with False show ?thesis by (simp only: checkedMul_def not_le [symmetric]) simp
qed

lemma square_fits: "unat (e :: uint32) * unat e < 2 ^ 64"
proof -
  have "unat e * unat e \<le> (2 ^ 32 - 1) * (2 ^ 32 - 1)"
    using unat_u32_bound [of e] by (intro mult_le_mono) simp_all
  then show ?thesis by simp
qed

text \<open>The exact domain of \<open>geometry_New\<close> and what it returns: two of its four checks never fire.\<close>

lemma geometry_New_eq:
  "geometry_New cfg =
     (let e = unat (ChunkEdge cfg); b = unat (BlockBits cfg)
      in if e = 0 \<or> unat (LargeChunkEdge cfg) = 0 \<or> b = 0 \<or> 64 < b \<or> 2 ^ 64 \<le> e * e * b
         then Inl [ErrInvalid]
         else Inr \<lparr>config = cfg, blockCount = of_nat (e * e),
                   payloadBytes = (e * e * b + 7) div 8, presenceBytes = (e * e + 7) div 8\<rparr>)"
proof -
  define e b where "e = unat (ChunkEdge cfg)" and "b = unat (BlockBits cfg)"
  have n: "unat (ucast (ChunkEdge cfg) * ucast (ChunkEdge cfg) :: uint64) = e * e"
    using square_fits [of "ChunkEdge cfg"] by (simp add: unat_mul_fits e_def)
  have bb: "BlockBits cfg > 64 \<longleftrightarrow> 64 < b" by (simp add: word_less_nat_alt b_def)
  have z: "ChunkEdge cfg = 0 \<longleftrightarrow> e = 0" "BlockBits cfg = 0 \<longleftrightarrow> b = 0"
    by (simp_all add: e_def b_def unat_0_iff)
  have big: "\<not> maxInt < ceil8 x" for x
    using unat_u64_bound [of x] by (simp add: word_less_nat_alt unat_ceil8; linarith)
  show ?thesis
  proof (cases "e * e * b < 2 ^ 64")
    case True
    then have "unat (ucast (ChunkEdge cfg) * ucast (ChunkEdge cfg) * ucast (BlockBits cfg) :: uint64) = e * e * b"
      by (simp add: unat_mul_fits n b_def)
    moreover have "(ucast (ChunkEdge cfg) * ucast (ChunkEdge cfg) :: uint64) = of_nat (e * e)"
      by (simp add: e_def unsigned_ucast_eq)
    ultimately show ?thesis using True square_fits [of "ChunkEdge cfg"] n
      by (simp add: geometry_New_def checkedMul_eq z bb big unat_ceil8 unat_0_iff
          e_def [symmetric] b_def [symmetric] Let_def not_le)
  next
    case False
    then show ?thesis using square_fits [of "ChunkEdge cfg"] n
      by (simp add: geometry_New_def checkedMul_eq z bb unat_0_iff
          e_def [symmetric] b_def [symmetric] Let_def not_le)
  qed
qed

lemma geometry_New_sizes:
  assumes "geometry_New cfg = Inr g"
  shows "config g = cfg" and "0 < unat (ChunkEdge cfg)" and "0 < unat (LargeChunkEdge cfg)"
    and "0 < unat (BlockBits cfg)" and "unat (BlockBits cfg) \<le> 64"
    and "unat (blockCount g) = unat (ChunkEdge cfg) * unat (ChunkEdge cfg)"
    and "payloadBytes g = (unat (blockCount g) * unat (BlockBits cfg) + 7) div 8"
    and "presenceBytes g = (unat (blockCount g) + 7) div 8"
    and "unat (blockCount g) * unat (BlockBits cfg) < 2 ^ 64"
proof -
  have "unat (of_nat (unat (ChunkEdge cfg) * unat (ChunkEdge cfg)) :: uint64)
      = unat (ChunkEdge cfg) * unat (ChunkEdge cfg)"
    using square_fits [of "ChunkEdge cfg"] by (subst unat_of_nat) simp
  with assms show "config g = cfg" and "0 < unat (ChunkEdge cfg)" and "0 < unat (LargeChunkEdge cfg)"
    and "0 < unat (BlockBits cfg)" and "unat (BlockBits cfg) \<le> 64"
    and "unat (blockCount g) = unat (ChunkEdge cfg) * unat (ChunkEdge cfg)"
    and "payloadBytes g = (unat (blockCount g) * unat (BlockBits cfg) + 7) div 8"
    and "presenceBytes g = (unat (blockCount g) + 7) div 8"
    and "unat (blockCount g) * unat (BlockBits cfg) < 2 ^ 64"
    unfolding geometry_New_eq Let_def by (auto split: if_splits simp del: of_nat_mult)
qed

lemma wf_geometry_sizes:
  assumes "wf_geometry g"
  shows "0 < unat (ChunkEdge (config g))" "0 < unat (LargeChunkEdge (config g))"
    and "0 < unat (BlockBits (config g))" "unat (BlockBits (config g)) \<le> 64"
    and "unat (blockCount g) = unat (ChunkEdge (config g)) * unat (ChunkEdge (config g))"
    and "payloadBytes g = (unat (blockCount g) * unat (BlockBits (config g)) + 7) div 8"
    and "presenceBytes g = (unat (blockCount g) + 7) div 8"
    and "unat (blockCount g) * unat (BlockBits (config g)) < 2 ^ 64"
  using geometry_New_sizes [OF assms [unfolded wf_geometry_def]] by simp_all

lemma geometry_New_wf: "geometry_New cfg = Inr g \<Longrightarrow> wf_geometry g"
  using geometry_New_sizes(1) by (auto simp: wf_geometry_def)

lemma wf_geometry_pos:
  assumes "wf_geometry g"
  shows "0 < unat (blockCount g)" "0 < payloadBytes g" "0 < presenceBytes g"
proof -
  note s = wf_geometry_sizes [OF assms]
  show b: "0 < unat (blockCount g)" using s(1,5) by simp
  then have "1 \<le> unat (blockCount g) * unat (BlockBits (config g))" using s(3) by (simp add: Suc_leI)
  then show "0 < payloadBytes g" unfolding s(6) by (simp add: div_greater_zero_iff)
  show "0 < presenceBytes g" using b unfolding s(7) by (simp add: div_greater_zero_iff)
qed

lemma wf_geometry_bounds:
  assumes "wf_geometry g"
  shows "payloadBytes g \<le> 2 ^ 61" "presenceBytes g < 2 ^ 61"
proof -
  note s = wf_geometry_sizes [OF assms]
  show "payloadBytes g \<le> 2 ^ 61" unfolding s(6) using s(8) by (simp; linarith)
  have "unat (ChunkEdge (config g)) * unat (ChunkEdge (config g)) \<le> (2 ^ 32 - 1) * (2 ^ 32 - 1)"
    using unat_u32_bound [of "ChunkEdge (config g)"] by (intro mult_mono) simp_all
  then show "presenceBytes g < 2 ^ 61" unfolding s(7,5) by (simp; linarith)
qed

section \<open>Floor division\<close>

lemma sint_word_of_int64: "- (2 ^ 63) \<le> k \<Longrightarrow> k < 2 ^ 63 \<Longrightarrow> sint (word_of_int k :: int64) = k"
  by (simp add: signed_of_int signed_take_bit_int_eq_self)

lemma sdiv_bounds:
  fixes v d :: int
  assumes "- (2 ^ 63) \<le> v" "v < 2 ^ 63" "0 < d"
  shows "- (2 ^ 63) \<le> v sdiv d" "v sdiv d < 2 ^ 63"
proof -
  have "\<bar>v\<bar> div \<bar>d\<bar> \<le> \<bar>v\<bar>" using assms(3) zdiv_mono2 [of "\<bar>v\<bar>" 1 d] by simp
  moreover have "0 \<le> \<bar>v\<bar> div \<bar>d\<bar>" using assms(3) by (simp add: pos_imp_zdiv_nonneg_iff)
  ultimately show "- (2 ^ 63) \<le> v sdiv d" "v sdiv d < 2 ^ 63"
    using assms by (auto simp: signed_divide_int_def sgn_if)
qed

lemma smod_bounds:
  fixes v d :: int
  assumes "0 < d"
  shows "- d < v smod d" "v smod d < d"
proof -
  have "0 \<le> \<bar>v\<bar> mod d" "\<bar>v\<bar> mod d < d" using assms by simp_all
  moreover have "v smod d = \<bar>v\<bar> mod d \<or> v smod d = - (\<bar>v\<bar> mod d) \<or> v smod d = 0"
    using assms by (simp add: signed_modulo_int_def sgn_if)
  ultimately show "- d < v smod d" "v smod d < d" using assms by linarith+
qed

lemma div_bounds:
  fixes v d :: int
  assumes "- (2 ^ 63) \<le> v" "v < 2 ^ 63" "0 < d"
  shows "- (2 ^ 63) \<le> v div d" "v div d < 2 ^ 63"
proof -
  have "- (2 ^ 63) div 1 \<le> - (2 ^ 63) div d" using assms(3) by (intro zdiv_mono2_neg) auto
  also have "\<dots> \<le> v div d" using assms by (intro zdiv_mono1) auto
  finally show "- (2 ^ 63) \<le> v div d" by simp
  have "v div d \<le> (2 ^ 63 - 1) div d" using assms by (intro zdiv_mono1) auto
  also have "\<dots> \<le> (2 ^ 63 - 1) div 1" using assms(3) by (intro zdiv_mono2) auto
  finally show "v div d < 2 ^ 63" by simp
qed

lemma floor_of_trunc:
  fixes v d :: int
  assumes "0 < d"
  shows "v smod d < 0 \<Longrightarrow> v div d = v sdiv d - 1 \<and> v mod d = v smod d + d"
    and "\<not> v smod d < 0 \<Longrightarrow> v div d = v sdiv d \<and> v mod d = v smod d"
proof -
  have e: "v = v sdiv d * d + v smod d" by (simp add: sdiv_mult_smod_eq)
  note b = smod_bounds [OF assms, of v]
  have u: "v div d = q \<and> v mod d = r" if "v = q * d + r" "0 \<le> r" "r < d" for q r
    using that by (intro conjI) (auto simp: div_mult_self3 div_pos_pos_trivial)
  show "v div d = v sdiv d - 1 \<and> v mod d = v smod d + d" if "v smod d < 0"
    by (rule u) (use e that b in \<open>auto simp: algebra_simps\<close>)
  show "v div d = v sdiv d \<and> v mod d = v smod d" if "\<not> v smod d < 0"
    by (rule u) (use e that b in auto)
qed

text \<open>\<open>floorDiv\<close> is mathematical floor division for every dividend and every positive divisor.\<close>

lemma floorDiv_correct:
  assumes "0 < sint d"
  shows "sint (fst (floorDiv v d)) = sint v div sint d" "sint (snd (floorDiv v d)) = sint v mod sint d"
proof -
  note bv = sint_bounds64 [of v] and bd = sint_bounds64 [of d]
  note q = sdiv_bounds [OF bv assms] and r = smod_bounds [OF assms, of "sint v"]
  have sr: "sint (word_of_int (sint v smod sint d) :: int64) = sint v smod sint d"
    using r bd by (intro sint_word_of_int64) linarith+
  have sq: "sint (word_of_int (sint v sdiv sint d) :: int64) = sint v sdiv sint d"
    using q by (rule sint_word_of_int64)
  have "sint (fst (floorDiv v d)) = sint v div sint d \<and> sint (snd (floorDiv v d)) = sint v mod sint d"
  proof (cases "sint v smod sint d < 0")
    case True
    note f = floor_of_trunc(1) [OF assms True]
    have "sint (word_of_int (sint v div sint d) :: int64) = sint v div sint d"
      using div_bounds [OF bv assms] by (rule sint_word_of_int64)
    moreover have "sint (word_of_int (sint v mod sint d) :: int64) = sint v mod sint d"
      using pos_mod_sign [OF assms, of "sint v"] pos_mod_bound [OF assms, of "sint v"] bd
      by (intro sint_word_of_int64) linarith+
    ultimately show ?thesis using True f sr
      by (simp add: floorDiv_def Let_def)
  next
    case False
    note f = floor_of_trunc(2) [OF assms False]
    then show ?thesis using False sr sq by (simp add: floorDiv_def Let_def)
  qed
  then show "sint (fst (floorDiv v d)) = sint v div sint d" "sint (snd (floorDiv v d)) = sint v mod sint d"
    by auto
qed

section \<open>The coordinate mappings\<close>

lemma sint_nonneg_unat:
  assumes "0 \<le> sint (r :: int64)"
  shows "int (unat r) = sint r"
proof -
  have "uint r = take_bit 64 (sint r)" 
    by (simp add: sint_uint take_bit_signed_take_bit bintr_uint)
  also have "\<dots> = sint r" using assms sint_bounds64 [of r]
    by (intro take_bit_int_eq_self) simp_all
  finally show ?thesis by simp
qed

lemma sint_ucast_32: "sint (ucast (e :: uint32) :: int64) = int (unat e)"
proof -
  have w: "(ucast e :: int64) = word_of_int (int (unat e))" by simp
  have "int (unat e) < int (2 ^ 32)" unfolding of_nat_less_iff by (rule unat_u32_bound)
  also have "\<dots> < 2 ^ 63" by simp
  finally have u: "int (unat e) < 2 ^ 63" .
  have "- (2 ^ 63) \<le> (0 :: int)" by simp
  then have "- (2 ^ 63) \<le> int (unat e)" using of_nat_0_le_iff by (rule order_trans)
  from this u show ?thesis unfolding w by (rule sint_word_of_int64)
qed

lemma floorDiv_edge:
  assumes "0 < unat (e :: uint32)"
  shows "sint (fst (floorDiv v (ucast e))) = sint v div int (unat e)"
    and "int (unat (ucast (snd (floorDiv v (ucast e))) :: uint32)) = sint v mod int (unat e)"
proof -
  have e: "0 < int (unat e)" using assms by linarith
  then have d: "0 < sint (ucast e :: int64)" by (simp only: sint_ucast_32)
  note f = floorDiv_correct [OF d, of v, unfolded sint_ucast_32]
  show "sint (fst (floorDiv v (ucast e))) = sint v div int (unat e)" by (rule f(1))
  let ?r = "snd (floorDiv v (ucast e))"
  have r: "0 \<le> sint v mod int (unat e)" "sint v mod int (unat e) < int (unat e)"
    by (rule pos_mod_sign [OF e], rule pos_mod_bound [OF e])
  then have u: "int (unat ?r) = sint v mod int (unat e)" using f(2) sint_nonneg_unat [of ?r] by linarith
  with r have "unat ?r < 2 ^ 32" using unat_u32_bound [of e] by linarith
  then have "unat (ucast ?r :: uint32) = unat ?r" by (simp add: unsigned_ucast_eq take_bit_nat_eq_self)
  with u show "int (unat (ucast ?r :: uint32)) = sint v mod int (unat e)" by simp
qed

lemma BlockToChunk_coords:
  assumes "0 < unat (ChunkEdge (config g))"
  shows "sint (coord_X (map_Chunk (BlockToChunk g b))) = sint (coord_X b) div int (unat (ChunkEdge (config g)))"
    and "sint (coord_Y (map_Chunk (BlockToChunk g b))) = sint (coord_Y b) div int (unat (ChunkEdge (config g)))"
    and "int (unat (offset_X (map_Offset (BlockToChunk g b)))) = sint (coord_X b) mod int (unat (ChunkEdge (config g)))"
    and "int (unat (offset_Y (map_Offset (BlockToChunk g b)))) = sint (coord_Y b) mod int (unat (ChunkEdge (config g)))"
  using floorDiv_edge [OF assms(1)] by (simp_all add: BlockToChunk_def case_prod_unfold Let_def)

lemma ChunkToLargeChunk_coords:
  assumes "0 < unat (LargeChunkEdge (config g))"
  shows "sint (coord_X (map_LargeChunk (ChunkToLargeChunk g b))) = sint (coord_X b) div int (unat (LargeChunkEdge (config g)))"
    and "sint (coord_Y (map_LargeChunk (ChunkToLargeChunk g b))) = sint (coord_Y b) div int (unat (LargeChunkEdge (config g)))"
    and "int (unat (offset_X (map_ChunkOffset (ChunkToLargeChunk g b)))) = sint (coord_X b) mod int (unat (LargeChunkEdge (config g)))"
    and "int (unat (offset_Y (map_ChunkOffset (ChunkToLargeChunk g b)))) = sint (coord_Y b) mod int (unat (LargeChunkEdge (config g)))"
  using floorDiv_edge [OF assms(1)] by (simp_all add: ChunkToLargeChunk_def case_prod_unfold Let_def)

lemma coord_eqI: "sint (coord_X a) = sint (coord_X b) \<Longrightarrow> sint (coord_Y a) = sint (coord_Y b) \<Longrightarrow> a = b"
  by (cases a; cases b) (auto intro: signed_word_eqI)

lemma ChunkToLargeChunk_offset_less:
  assumes "0 < unat (LargeChunkEdge (config g))"
  shows "offset_X (map_ChunkOffset (ChunkToLargeChunk g b)) < LargeChunkEdge (config g)"
    and "offset_Y (map_ChunkOffset (ChunkToLargeChunk g b)) < LargeChunkEdge (config g)"
proof -
  note c = ChunkToLargeChunk_coords [OF assms, of b]
  have "sint (coord_X b) mod int (unat (LargeChunkEdge (config g))) < int (unat (LargeChunkEdge (config g)))"
    "sint (coord_Y b) mod int (unat (LargeChunkEdge (config g))) < int (unat (LargeChunkEdge (config g)))"
    using assms by (intro pos_mod_bound; linarith)+
  with c(3,4) show "offset_X (map_ChunkOffset (ChunkToLargeChunk g b)) < LargeChunkEdge (config g)"
    and "offset_Y (map_ChunkOffset (ChunkToLargeChunk g b)) < LargeChunkEdge (config g)" by (simp_all add: word_less_def)
qed

lemma BlockToChunk_offset_less:
  assumes "0 < unat (ChunkEdge (config g))"
  shows "offset_X (map_Offset (BlockToChunk g b)) < ChunkEdge (config g)"
    and "offset_Y (map_Offset (BlockToChunk g b)) < ChunkEdge (config g)"
proof -
  note c = BlockToChunk_coords [OF assms, of b]
  have "sint (coord_X b) mod int (unat (ChunkEdge (config g))) < int (unat (ChunkEdge (config g)))"
    "sint (coord_Y b) mod int (unat (ChunkEdge (config g))) < int (unat (ChunkEdge (config g)))"
    using assms by (intro pos_mod_bound; linarith)+
  with c(3,4) show "offset_X (map_Offset (BlockToChunk g b)) < ChunkEdge (config g)"
    "offset_Y (map_Offset (BlockToChunk g b)) < ChunkEdge (config g)"
    unfolding word_less_nat_alt by linarith+
qed

lemma BlockToChunk_inject:
  assumes "0 < unat (ChunkEdge (config g))" "BlockToChunk g b = BlockToChunk g b'"
  shows "b = b'"
  using BlockToChunk_coords [OF assms(1), of b] BlockToChunk_coords [OF assms(1), of b'] assms(2)
  by (intro coord_eqI) (metis div_mult_mod_eq)+

lemma ChunkToLargeChunk_inject:
  assumes "0 < unat (LargeChunkEdge (config g))" "ChunkToLargeChunk g b = ChunkToLargeChunk g b'"
  shows "b = b'"
  using ChunkToLargeChunk_coords [OF assms(1), of b] ChunkToLargeChunk_coords [OF assms(1), of b'] assms(2)
  by (intro coord_eqI) (metis div_mult_mod_eq)+

section \<open>The properties of the geometry\<close>

text \<open>
  (C14) \<^verbatim>\<open>geometry.New\<close> accepts a configuration exactly when both edges are positive, the block width
  is between 1 and 64 bits and the payload bit count \<open>edge\<^sup>2 * bits\<close> fits in 64 bits; the sizes of an
  accepted geometry are the exact ones, rounded up to whole bytes.
\<close>

theorem geometry_New_exact:
  "geometry_New cfg =
     (let e = unat (ChunkEdge cfg); b = unat (BlockBits cfg)
      in if e = 0 \<or> unat (LargeChunkEdge cfg) = 0 \<or> b = 0 \<or> 64 < b \<or> 2 ^ 64 \<le> e * e * b
         then Inl [ErrInvalid]
         else Inr \<lparr>config = cfg, blockCount = of_nat (e * e),
                   payloadBytes = (e * e * b + 7) div 8, presenceBytes = (e * e + 7) div 8\<rparr>)"
  by (rule geometry_New_eq)

text \<open>
  \<^verbatim>\<open>floorDiv\<close> is floor division with a non-negative remainder for every 64-bit dividend,
  negative ones included, and every positive divisor; no intermediate step overflows.
\<close>

theorem floorDiv_floors:
  assumes "0 < sint d"
  shows "sint (fst (floorDiv v d)) = sint v div sint d \<and> sint (snd (floorDiv v d)) = sint v mod sint d"
  using floorDiv_correct [OF assms] by blast

theorem floorDiv_floors_witness:
  "sint (fst (floorDiv (- 7) 16)) = - 1 \<and> sint (snd (floorDiv (- 7) 16)) = 9"
  using floorDiv_floors [of 16 "- 7"] by simp

text \<open>
  (C15) On a valid geometry \<^verbatim>\<open>BlockToChunk\<close> and \<^verbatim>\<open>ChunkToLargeChunk\<close> name every block by exactly one chunk and offset,
  respectively every chunk by exactly one large chunk and offset.  For both mappings and on each axis, the offset lies inside the
  edge and the coordinate is \<open>edge * quotient + offset\<close> in exact integers, negative coordinates included; so two different
  blocks or chunks never share a cell.
\<close>

theorem coordinate_mappings_exact:
  assumes "geometry_New cfg = Inr g"
  shows "(let m = BlockToChunk g b; e = ChunkEdge cfg
          in offset_X (map_Offset m) < e \<and> offset_Y (map_Offset m) < e \<and>
             sint (coord_X b) = int (unat e) * sint (coord_X (map_Chunk m)) + int (unat (offset_X (map_Offset m))) \<and>
             sint (coord_Y b) = int (unat e) * sint (coord_Y (map_Chunk m)) + int (unat (offset_Y (map_Offset m)))) \<and>
         (let m = ChunkToLargeChunk g b; e = LargeChunkEdge cfg
          in offset_X (map_ChunkOffset m) < e \<and> offset_Y (map_ChunkOffset m) < e \<and>
             sint (coord_X b) = int (unat e) * sint (coord_X (map_LargeChunk m)) + int (unat (offset_X (map_ChunkOffset m))) \<and>
             sint (coord_Y b) = int (unat e) * sint (coord_Y (map_LargeChunk m)) + int (unat (offset_Y (map_ChunkOffset m)))) \<and>
         (BlockToChunk g b = BlockToChunk g b' \<longleftrightarrow> b = b') \<and>
         (ChunkToLargeChunk g b = ChunkToLargeChunk g b' \<longleftrightarrow> b = b')"
proof -
  note n = geometry_New_sizes [OF assms]
  have e: "0 < unat (ChunkEdge (config g))" and l: "0 < unat (LargeChunkEdge (config g))" using n by simp_all
  show ?thesis
    using BlockToChunk_coords [OF e, of b] BlockToChunk_offset_less [OF e, of b] ChunkToLargeChunk_coords [OF l, of b]
      ChunkToLargeChunk_offset_less [OF l, of b] BlockToChunk_inject [OF e, of b b'] ChunkToLargeChunk_inject [OF l, of b b'] n(1)
    unfolding Let_def by (auto simp: mult.commute)
qed

theorem coordinate_mappings_exact_witness:
  "geometry_New \<lparr>ChunkEdge = 16, LargeChunkEdge = 8, BlockBits = 4\<rparr> =
     Inr \<lparr>config = \<lparr>ChunkEdge = 16, LargeChunkEdge = 8, BlockBits = 4\<rparr>, blockCount = 256,
          payloadBytes = 128, presenceBytes = 32\<rparr> \<and>
   BlockToChunk \<lparr>config = \<lparr>ChunkEdge = 16, LargeChunkEdge = 8, BlockBits = 4\<rparr>, blockCount = 256,
          payloadBytes = 128, presenceBytes = 32\<rparr> (Coord 3 (- 1)) \<noteq>
   BlockToChunk \<lparr>config = \<lparr>ChunkEdge = 16, LargeChunkEdge = 8, BlockBits = 4\<rparr>, blockCount = 256,
          payloadBytes = 128, presenceBytes = 32\<rparr> (Coord 3 15)"
proof -
  let ?cfg = "\<lparr>ChunkEdge = 16, LargeChunkEdge = 8, BlockBits = 4\<rparr>"
  have new: "geometry_New ?cfg = Inr \<lparr>config = ?cfg, blockCount = 256, payloadBytes = 128, presenceBytes = 32\<rparr>"
    by (simp add: geometry_New_eq)
  show ?thesis using new coordinate_mappings_exact [OF new, of "Coord 3 (- 1)" "Coord 3 15"] by simp
qed

end
