(* ===== verification/Zrle.thy ===== *)
theory Zrle
  imports Prelude
begin

text \<open>
  Zero run-length coding of chunk payloads (\<^verbatim>\<open>internal/storage/zrle.go\<close>).  The encoder walks the
  source by runs; the decoder walks the stream by control bytes.  A slice with its read position is
  the list of the bytes from that position on, so \<^verbatim>\<open>start = end\<close> and \<^verbatim>\<open>offset += run\<close> are drops.
\<close>

section \<open>The code\<close>

definition zrleRunLimit :: nat where
  "zrleRunLimit = 128"

text \<open>The inner loops: the run length reached from \<open>n\<close> over the bytes behind the run so far.\<close>

fun zrle_run :: "bool \<Rightarrow> nat \<Rightarrow> bytes \<Rightarrow> nat" where
  "zrle_run zero n [] = n"
| "zrle_run zero n (b # rest) =
     (if (b = 0) = zero \<and> n < zrleRunLimit then zrle_run zero (n + 1) rest else n)"

lemma zrle_run_ge: "n \<le> zrle_run zero n bs"
  by (induction zero n bs rule: zrle_run.induct) auto

function EncodeZRLE :: "bytes \<Rightarrow> bytes" where
  "EncodeZRLE [] = []"
| "EncodeZRLE (b # rest) =
     (let run = zrle_run (b = 0) 1 rest
      in (if b = 0 then [0x80 OR of_nat (run - 1)] else of_nat (run - 1) # take run (b # rest))
         @ EncodeZRLE (drop run (b # rest)))"
  by pat_completeness auto
termination
proof (relation "measure length", goal_cases)
  case (2 b rest run)
  then show ?case using zrle_run_ge [of 1 "b = 0" rest] by simp
qed simp

text \<open>
  The decoding loop.  \<^verbatim>\<open>decoded\<close> is allocated with capacity \<open>size\<close> and zeroed, and only ever grows,
  so the reslice of a zero run exposes zero bytes.
\<close>

function zrle_decode_loop :: "int \<Rightarrow> bytes \<Rightarrow> bytes \<Rightarrow> bytes result" where
  "zrle_decode_loop sz decoded [] =
     (if int (length decoded) \<noteq> sz then Inl [ErrInvalidZRLE] else Inr decoded)"
| "zrle_decode_loop sz decoded (control # rest) =
     (let run = unat (control AND 0x7f) + 1
      in if int run > sz - int (length decoded) then Inl [ErrInvalidZRLE]
         else if control AND 0x80 \<noteq> 0 then zrle_decode_loop sz (decoded @ replicate run 0) rest
         else if run > length rest then Inl [ErrInvalidZRLE]
         else zrle_decode_loop sz (decoded @ take run rest) (drop run rest))"
  by pat_completeness auto
termination by (relation "measure (\<lambda>(_, _, encoded). length encoded)") auto

definition DecodeZRLE :: "bytes \<Rightarrow> int \<Rightarrow> bytes result" where
  "DecodeZRLE encoded sz =
     (if sz < 0 then Inl [ErrInvalidZRLE] else zrle_decode_loop sz [] encoded)"

section \<open>Runs\<close>

lemma zrle_run_le: "zrle_run zero n bs \<le> n + length bs"
  by (induction zero n bs rule: zrle_run.induct) auto

lemma zrle_run_limit: "n \<le> 128 \<Longrightarrow> zrle_run zero n bs \<le> 128"
  by (induction zero n bs rule: zrle_run.induct) (auto simp: zrleRunLimit_def)

lemma zrle_run_zeros: "zrle_run True n bs = n + k \<Longrightarrow> take k bs = replicate k 0"
proof (induction bs arbitrary: n k)
  case (Cons b bs)
  show ?case
  proof (cases "b = 0 \<and> n < zrleRunLimit")
    case True
    then have r: "zrle_run True (n + 1) bs = n + k" using Cons.prems by simp
    then obtain m where k: "k = Suc m" using zrle_run_ge [of "n + 1" True bs] by (cases k) auto
    then show ?thesis using Cons.IH [of "n + 1" m] r True by simp
  next
    case False
    then show ?thesis using Cons.prems by auto
  qed
qed simp

text \<open>The control byte of a run of \<open>n\<close> bytes.\<close>

lemma zrle_control:
  assumes "0 < n" "n \<le> 128"
  shows "unat ((of_nat (n - 1) :: byte) AND 0x7f) + 1 = n"
    and "(of_nat (n - 1) :: byte) AND 0x80 = 0"
    and "unat ((0x80 OR of_nat (n - 1) :: byte) AND 0x7f) + 1 = n"
    and "(0x80 OR of_nat (n - 1) :: byte) AND 0x80 \<noteq> 0"
proof -
  have all: "\<forall>k\<in>set [0..<128]. unat ((of_nat k :: byte) AND 0x7f) = k \<and> (of_nat k :: byte) AND 0x80 = 0 \<and>
      unat ((0x80 OR of_nat k :: byte) AND 0x7f) = k \<and> (0x80 OR of_nat k :: byte) AND 0x80 \<noteq> 0"
    by code_simp
  have "n - 1 \<in> set [0..<128]" using assms by auto
  note k = bspec [OF all this]
  show "unat ((of_nat (n - 1) :: byte) AND 0x7f) + 1 = n" "(of_nat (n - 1) :: byte) AND 0x80 = 0"
    "unat ((0x80 OR of_nat (n - 1) :: byte) AND 0x7f) + 1 = n" "(0x80 OR of_nat (n - 1) :: byte) AND 0x80 \<noteq> 0"
    using k assms(1) by simp_all
qed

section \<open>Round trip and sizes\<close>

lemma zrle_decode_zero_run:
  assumes "0 < n" "n \<le> 128" "int (length decoded + n) \<le> sz"
  shows "zrle_decode_loop sz decoded ((0x80 OR of_nat (n - 1)) # rest) =
         zrle_decode_loop sz (decoded @ replicate n 0) rest"
  unfolding zrle_decode_loop.simps Let_def zrle_control(3) [OF assms(1,2)]
  using zrle_control(4) [OF assms(1,2)] assms(3) by simp

lemma zrle_decode_literal_run:
  assumes "0 < n" "n \<le> 128" "int (length decoded + n) \<le> sz" "length lit = n"
  shows "zrle_decode_loop sz decoded (of_nat (n - 1) # lit @ rest) = zrle_decode_loop sz (decoded @ lit) rest"
  unfolding zrle_decode_loop.simps Let_def zrle_control(1) [OF assms(1,2)]
  using zrle_control(2) [OF assms(1,2)] assms(3,4) by simp

lemma EncodeZRLE_run:
  fixes b rest
  defines "n \<equiv> zrle_run (b = 0) 1 rest"
  shows "EncodeZRLE (b # rest) =
      (if b = 0 then [0x80 OR of_nat (n - 1)] else of_nat (n - 1) # take n (b # rest)) @ EncodeZRLE (drop n (b # rest))"
    and "0 < n" and "n \<le> 128" and "n \<le> length (b # rest)"
    and "b = 0 \<Longrightarrow> take n (b # rest) = replicate n 0"
proof -
  show n: "0 < n" "n \<le> 128" "n \<le> length (b # rest)"
    using zrle_run_ge [of 1 "b = 0" rest] zrle_run_limit [of 1 "b = 0" rest] zrle_run_le [of "b = 0" 1 rest]
    by (simp_all add: n_def)
  show "EncodeZRLE (b # rest) =
      (if b = 0 then [0x80 OR of_nat (n - 1)] else of_nat (n - 1) # take n (b # rest)) @ EncodeZRLE (drop n (b # rest))"
    unfolding n_def EncodeZRLE.simps(2) Let_def ..
  obtain m where m: "n = Suc m" using n(1) by (cases n) auto
  show "take n (b # rest) = replicate n 0" if "b = 0"
    using zrle_run_zeros [of 1 rest m] that m by (simp add: n_def)
qed

lemma zrle_decode_loop_Encode:
  assumes "int (length decoded + length source) = sz"
  shows "zrle_decode_loop sz decoded (EncodeZRLE source) = Inr (decoded @ source)"
  using assms
proof (induction source arbitrary: decoded rule: EncodeZRLE.induct)
  case (2 b rest)
  define n where "n = zrle_run (b = 0) 1 rest"
  note e = EncodeZRLE_run [of b rest, folded n_def]
  have "zrle_decode_loop sz decoded (EncodeZRLE (b # rest))
      = zrle_decode_loop sz (decoded @ take n (b # rest)) (EncodeZRLE (drop n (b # rest)))"
  proof (cases "b = 0")
    case True
    then show ?thesis using e zrle_decode_zero_run [of n decoded sz] 2(2) by simp
  next
    case False
    have l: "length (take n (b # rest)) = n" using e(4) by simp
    show ?thesis using False e zrle_decode_literal_run [OF e(2,3) _ l, of decoded sz] 2(2) by simp
  qed
  also have "\<dots> = Inr ((decoded @ take n (b # rest)) @ drop n (b # rest))"
    by (rule 2(1)) (use 2(2) e(4) in \<open>simp_all add: n_def\<close>)
  finally show ?case by (simp only: append_assoc append_take_drop_id)
qed simp

lemma zrle_decode_loop_length:
  "zrle_decode_loop sz decoded encoded = Inr out \<Longrightarrow> int (length out) = sz"
  by (induction sz decoded encoded rule: zrle_decode_loop.induct) (auto simp: Let_def split: if_splits)

lemma zrle_decode_loop_Inl: "zrle_decode_loop sz decoded encoded = Inl e \<Longrightarrow> e = [ErrInvalidZRLE]"
  by (induction sz decoded encoded rule: zrle_decode_loop.induct) (auto simp: Let_def split: if_splits)

text \<open>Nothing can follow a complete stream, so no accepted stream is a proper prefix of another.\<close>

lemma zrle_decode_loop_full:
  assumes "int (length decoded) = sz"
  shows "zrle_decode_loop sz decoded encoded = (if encoded = [] then Inr decoded else Inl [ErrInvalidZRLE])"
  using assms by (cases encoded) (simp_all add: Let_def)

lemma zrle_decode_loop_append:
  "zrle_decode_loop sz decoded encoded = Inr out \<Longrightarrow>
   zrle_decode_loop sz decoded (encoded @ extra) = zrle_decode_loop sz out extra"
  by (induction sz decoded encoded rule: zrle_decode_loop.induct) (auto simp: Let_def split: if_splits)

lemma length_EncodeZRLE: "length (EncodeZRLE source) \<le> 2 * length source"
proof (induction source rule: EncodeZRLE.induct)
  case (2 b rest)
  define n where "n = zrle_run (b = 0) 1 rest"
  note e = EncodeZRLE_run [of b rest, folded n_def]
  have "length (EncodeZRLE (drop n (b # rest))) \<le> 2 * length (drop n (b # rest))"
    using 2 by (simp add: n_def)
  then show ?case unfolding e(1) using e(2,4) by (auto simp del: drop_Suc_Cons take_Suc_Cons)
qed simp

lemma DecodeZRLE_EncodeZRLE [go_codec]: "DecodeZRLE (EncodeZRLE source) (int (length source)) = Inr source"
  using zrle_decode_loop_Encode [of "[]" source] by (simp add: DecodeZRLE_def)

lemma DecodeZRLE_length: "DecodeZRLE encoded sz = Inr out \<Longrightarrow> int (length out) = sz"
  by (auto simp: DecodeZRLE_def zrle_decode_loop_length split: if_splits)

lemma EncodeZRLE_inject:
  assumes "length a = length b" "EncodeZRLE a = EncodeZRLE b"
  shows "a = b"
proof -
  have "Inr a = DecodeZRLE (EncodeZRLE b) (int (length b))"
    unfolding assms [symmetric] by (rule DecodeZRLE_EncodeZRLE [symmetric])
  also have "\<dots> = Inr b" by (rule DecodeZRLE_EncodeZRLE)
  finally show ?thesis by simp
qed

section \<open>The properties of the coding\<close>

text \<open>
  (C16) Decoding the encoding of any byte string at its own length gives the byte string back, and the
  encoding is at most twice as long as its source.
\<close>

theorem zrle_roundtrip:
  "DecodeZRLE (EncodeZRLE source) (int (length source)) = Inr source \<and>
   length (EncodeZRLE source) \<le> 2 * length source"
  using DecodeZRLE_EncodeZRLE length_EncodeZRLE by blast

text \<open>
  (C17) The decoder never returns anything but exactly the requested number of bytes or
  \<^verbatim>\<open>ErrInvalidZRLE\<close>, and an accepted stream stops being accepted as soon as a byte is appended to it
  or cut from its end: truncated and trailing input is rejected.
\<close>

theorem zrle_decode_exact:
  "(case DecodeZRLE encoded sz of Inl e \<Rightarrow> e = [ErrInvalidZRLE] | Inr out \<Rightarrow> int (length out) = sz) \<and>
   (\<forall>out out'. DecodeZRLE encoded sz = Inr out \<and> DecodeZRLE (encoded @ extra) sz = Inr out' \<longrightarrow> extra = [])"
proof (intro conjI allI impI)
  show "case DecodeZRLE encoded sz of Inl e \<Rightarrow> e = [ErrInvalidZRLE] | Inr out \<Rightarrow> int (length out) = sz"
    by (auto simp: DecodeZRLE_def dest: zrle_decode_loop_Inl zrle_decode_loop_length split: sum.split)
  fix out out'
  assume d: "DecodeZRLE encoded sz = Inr out \<and> DecodeZRLE (encoded @ extra) sz = Inr out'"
  then have "zrle_decode_loop sz [] (encoded @ extra) = zrle_decode_loop sz out extra"
    by (auto simp: DecodeZRLE_def zrle_decode_loop_append split: if_splits)
  moreover have "int (length out) = sz" using d DecodeZRLE_length by blast
  ultimately show "extra = []" using d by (auto simp: DecodeZRLE_def zrle_decode_loop_full split: if_splits)
qed

theorem zrle_decode_exact_witness:
  "DecodeZRLE [0x81, 0, 7] 3 = Inr [0, 0, 7] \<and> \<not> (\<exists>out. DecodeZRLE [0x81, 0, 7, 0x80] 3 = Inr out)"
proof -
  have "DecodeZRLE [0x81, 0, 7] 3 = Inr [0, 0, 7]" by code_simp
  then show ?thesis using zrle_decode_exact [where encoded = "[0x81, 0, 7]" and sz = 3 and extra = "[0x80]"] by auto
qed

end
