(* ===== verification/Chunk.thy ===== *)
theory Chunk
  imports Bitcodec Geometry
begin

text \<open>
  A chunk in memory (\<^verbatim>\<open>internal/storage/chunk.go\<close>): the packed block payload and the presence bitmap
  over a geometry, with the block operations.  Methods that mutate the receiver return the new chunk.
  The locale \<open>block_cells\<close> states the contract the command engine relies on; its laws are discharged
  for the model below.
\<close>

section \<open>The code\<close>

record Chunk =
  chunk_geometry :: Geometry
  chunk_codec :: Codec
  chunk_payload :: bytes
  chunk_presence :: bytes

record ConditionalMutation =
  mut_Coord :: Coord
  mut_ExpectedVersion :: uint64
  mut_Chunk :: "Chunk option"

definition NewChunk :: "Geometry \<Rightarrow> Chunk result" where
  "NewChunk g =
     (case codec_New (BlockBits (config g)) LSBFirst of
        Inl e \<Rightarrow> Inl e
      | Inr codec \<Rightarrow> Inr \<lparr>chunk_geometry = g, chunk_codec = codec,
                         chunk_payload = replicate (payloadBytes g) 0,
                         chunk_presence = replicate (presenceBytes g) 0\<rparr>)"

text \<open>\<^verbatim>\<open>bits[index/8] |= byte(1 << (index % 8))\<close> and its inverse \<^verbatim>\<open>&^=\<close>.\<close>

definition presence_set :: "bytes \<Rightarrow> uint64 \<Rightarrow> bytes" where
  "presence_set bits index =
     (let i = unat (index div 8) in bits[i := bits ! i OR push_bit (unat (index mod 8)) 1])"

definition presence_clear :: "bytes \<Rightarrow> uint64 \<Rightarrow> bytes" where
  "presence_clear bits index =
     (let i = unat (index div 8) in bits[i := bits ! i AND NOT (push_bit (unat (index mod 8)) 1)])"

definition setPresent :: "Chunk \<Rightarrow> uint64 \<Rightarrow> Chunk" where
  "setPresent c index = c\<lparr>chunk_presence := presence_set (chunk_presence c) index\<rparr>"

definition ChunkFromState :: "Geometry \<Rightarrow> bytes \<Rightarrow> bytes \<Rightarrow> Chunk result" where
  "ChunkFromState g payload presence =
     (if length payload \<noteq> payloadBytes g then Inl [ErrPayloadSize]
      else if length presence \<noteq> presenceBytes g then Inl [ErrPresenceSize]
      else case NewChunk g of
        Inl e \<Rightarrow> Inl e
      | Inr chunk \<Rightarrow>
          let chunk = chunk\<lparr>chunk_payload := payload, chunk_presence := presence\<rparr>;
              unused = (of_nat (presenceBytes g * 8) :: uint64) - blockCount g
          in if unused \<noteq> 0 \<and>
                chunk_presence chunk ! (length (chunk_presence chunk) - 1) AND NOT (drop_bit (unat unused) 0xff) \<noteq> 0
             then Inl [ErrPresenceSize]
             else Inr chunk)"

definition ChunkFromBytes :: "Geometry \<Rightarrow> bytes \<Rightarrow> Chunk result" where
  "ChunkFromBytes g payload =
     (let presence = foldl (\<lambda>bits index. presence_set bits (of_nat index))
                       (replicate (presenceBytes g) 0) [0..<unat (blockCount g)]
      in ChunkFromState g payload presence)"

fun legacy_loop :: "nat list \<Rightarrow> Chunk \<Rightarrow> Chunk result" where
  "legacy_loop [] chunk = Inr chunk"
| "legacy_loop (index # rest) chunk =
     (case codec_Get (chunk_codec chunk) (chunk_payload chunk) (of_nat index) of
        Inl e \<Rightarrow> Inl e
      | Inr v \<Rightarrow> legacy_loop rest (if v \<noteq> 0 then setPresent chunk (of_nat index) else chunk))"

definition ChunkFromLegacyBytes :: "Geometry \<Rightarrow> bytes \<Rightarrow> Chunk result" where
  "ChunkFromLegacyBytes g payload =
     (if length payload \<noteq> payloadBytes g then Inl [ErrPayloadSize]
      else case NewChunk g of
        Inl e \<Rightarrow> Inl e
      | Inr chunk \<Rightarrow> legacy_loop [0..<unat (blockCount g)] (chunk\<lparr>chunk_payload := payload\<rparr>))"

definition chunk_index :: "Chunk \<Rightarrow> Offset \<Rightarrow> uint64 result" where
  "chunk_index c off =
     (let edge = ChunkEdge (config (chunk_geometry c))
      in if offset_X off \<ge> edge \<or> offset_Y off \<ge> edge then Inl [ErrBlockOutOfRange]
         else Inr (ucast (offset_Y off) * ucast edge + ucast (offset_X off)))"

definition chunk_Get :: "Chunk \<Rightarrow> Offset \<Rightarrow> uint64 result" where
  "chunk_Get c off =
     (case chunk_index c off of
        Inl e \<Rightarrow> Inl e
      | Inr index \<Rightarrow> codec_Get (chunk_codec c) (chunk_payload c) index)"

definition chunk_Set :: "Chunk \<Rightarrow> Offset \<Rightarrow> uint64 \<Rightarrow> Chunk result" where
  "chunk_Set c off v =
     (case chunk_index c off of
        Inl e \<Rightarrow> Inl e
      | Inr index \<Rightarrow>
          (case codec_Set (chunk_codec c) (chunk_payload c) index v of
             Inl e \<Rightarrow> Inl e
           | Inr payload \<Rightarrow> Inr (setPresent (c\<lparr>chunk_payload := payload\<rparr>) index)))"

definition chunk_Unset :: "Chunk \<Rightarrow> Offset \<Rightarrow> Chunk result" where
  "chunk_Unset c off =
     (case chunk_index c off of
        Inl e \<Rightarrow> Inl e
      | Inr index \<Rightarrow>
          (case codec_Set (chunk_codec c) (chunk_payload c) index 0 of
             Inl e \<Rightarrow> Inl e
           | Inr payload \<Rightarrow> Inr (c\<lparr>chunk_payload := payload,
                                   chunk_presence := presence_clear (chunk_presence c) index\<rparr>)))"

definition chunk_Exists :: "Chunk \<Rightarrow> Offset \<Rightarrow> bool result" where
  "chunk_Exists c off =
     (case chunk_index c off of
        Inl e \<Rightarrow> Inl e
      | Inr index \<Rightarrow>
          Inr (chunk_presence c ! unat (index div 8) AND push_bit (unat (index mod 8)) 1 \<noteq> 0))"

section \<open>Presence bitmaps\<close>

definition presence_bit :: "bytes \<Rightarrow> nat \<Rightarrow> bool" where
  "presence_bit bits k = bit (bits ! (k div 8)) (k mod 8)"

lemma presence_index: "unat ((index :: uint64) div 8) = unat index div 8" "unat ((index :: uint64) mod 8) = unat index mod 8"
  by (simp_all add: unat_div unat_mod)

lemma length_presence_set [simp, go_len]: "length (presence_set bits index) = length bits"
  by (simp add: presence_set_def Let_def)

lemma length_presence_clear [simp, go_len]: "length (presence_clear bits index) = length bits"
  by (simp add: presence_clear_def Let_def)

lemma div_mod_8_eq: "k div 8 = m div 8 \<Longrightarrow> k mod 8 = m mod 8 \<longleftrightarrow> k = (m :: nat)"
  by (metis div_mult_mod_eq)

lemma presence_set_bit [go_bits]:
  "unat index < 8 * length bits \<Longrightarrow>
   presence_bit (presence_set bits index) k \<longleftrightarrow> k = unat index \<or> presence_bit bits k"
  by (cases "k div 8 = unat index div 8")
    (auto simp: presence_set_def presence_index presence_bit_def Let_def nth_list_update
      bit_mask_update div_mod_8_eq dest: div_mod_8_eq)

lemma presence_clear_bit [go_bits]:
  "unat index < 8 * length bits \<Longrightarrow>
   presence_bit (presence_clear bits index) k \<longleftrightarrow> k \<noteq> unat index \<and> presence_bit bits k"
  by (cases "k div 8 = unat index div 8")
    (auto simp: presence_clear_def presence_index presence_bit_def Let_def nth_list_update
      bit_mask_update div_mod_8_eq dest: div_mod_8_eq)

section \<open>The invariant\<close>

definition wf_chunk :: "Chunk \<Rightarrow> bool" where
  "wf_chunk c \<longleftrightarrow>
     (let g = chunk_geometry c
      in wf_geometry g \<and> chunk_codec c = \<lparr>codec_width = BlockBits (config g), codec_order = LSBFirst\<rparr> \<and>
         length (chunk_payload c) = payloadBytes g \<and> length (chunk_presence c) = presenceBytes g \<and>
         (\<forall>k\<in>{unat (blockCount g)..<8 * presenceBytes g}. \<not> presence_bit (chunk_presence c) k))"

lemma wf_chunk_codec:
  assumes "wf_chunk c"
  shows "wf_codec (chunk_codec c)" "codec_width (chunk_codec c) = BlockBits (config (chunk_geometry c))"
proof -
  have g: "wf_geometry (chunk_geometry c)"
    and c: "chunk_codec c = \<lparr>codec_width = BlockBits (config (chunk_geometry c)), codec_order = LSBFirst\<rparr>"
    using assms by (simp_all add: wf_chunk_def Let_def)
  show "codec_width (chunk_codec c) = BlockBits (config (chunk_geometry c))" using c by simp
  show "wf_codec (chunk_codec c)" using wf_geometry_sizes(3,4) [OF g] c
    by (simp add: wf_codec_def word_less_nat_alt word_le_nat_alt)
qed

lemma chunk_codec_New:
  "wf_geometry g \<Longrightarrow> codec_New (BlockBits (config g)) LSBFirst = Inr \<lparr>codec_width = BlockBits (config g), codec_order = LSBFirst\<rparr>"
  using wf_geometry_sizes(3,4) [of g]
  by (auto simp: codec_New_def word_less_nat_alt unat_gt_0)

lemma NewChunk_eq:
  "wf_geometry g \<Longrightarrow> NewChunk g = Inr \<lparr>chunk_geometry = g,
     chunk_codec = \<lparr>codec_width = BlockBits (config g), codec_order = LSBFirst\<rparr>,
     chunk_payload = replicate (payloadBytes g) 0, chunk_presence = replicate (presenceBytes g) 0\<rparr>"
  by (simp add: NewChunk_def chunk_codec_New)

lemma presence_bit_replicate [simp]: "k < 8 * n \<Longrightarrow> \<not> presence_bit (replicate n 0) k"
  by (simp add: presence_bit_def less_mult_imp_div_less)

lemma NewChunk_wf: "wf_geometry g \<Longrightarrow> NewChunk g = Inr c \<Longrightarrow> wf_chunk c"
  by (auto simp: NewChunk_eq wf_chunk_def)

text \<open>The block index of an offset inside the edge is exact, in range and determines the offset.\<close>

lemma row_major_less: "x < e \<Longrightarrow> y < e \<Longrightarrow> y * e + x < e * (e :: nat)"
proof -
  assume "x < e" "y < e"
  then have "y * e + x < (y + 1) * e" by simp
  also have "\<dots> \<le> e * e" using \<open>y < e\<close> by (intro mult_right_mono) simp_all
  finally show ?thesis .
qed

lemma row_major_inject:
  assumes "x < e" "x' < e" "y * e + x = y' * e + (x' :: nat)"
  shows "x = x'" "y = y'"
proof -
  have "(y * e + x) mod e = x" "(y' * e + x') mod e = x'" "(y * e + x) div e = y" "(y' * e + x') div e = y'"
    using assms(1,2) by (simp_all add: div_add1_eq)
  with assms(3) show "x = x'" "y = y'" by metis+
qed

lemma chunk_index_exact:
  assumes "wf_geometry (chunk_geometry c)" "chunk_index c off = Inr i"
  shows "unat i = unat (offset_Y off) * unat (ChunkEdge (config (chunk_geometry c))) + unat (offset_X off)"
    and "unat i < unat (blockCount (chunk_geometry c))"
    and "unat (offset_X off) < unat (ChunkEdge (config (chunk_geometry c)))"
proof -
  let ?e = "ChunkEdge (config (chunk_geometry c))" and ?x = "offset_X off" and ?y = "offset_Y off"
  note s = wf_geometry_sizes [OF assms(1)]
  have b: "unat ?x < unat ?e" "unat ?y < unat ?e" and i: "i = ucast ?y * ucast ?e + ucast ?x"
    using assms(2) by (auto simp: chunk_index_def Let_def word_le_nat_alt split: if_splits)
  note r = less_trans [OF row_major_less [OF b] square_fits]
  have "unat (ucast ?y * ucast ?e :: uint64) = unat (ucast ?y :: uint64) * unat (ucast ?e :: uint64)"
    by (rule unat_mul_fits) (use add_lessD1 [OF r] in \<open>simp only: unat_ucast_32_64\<close>)
  then have m: "unat (ucast ?y * ucast ?e :: uint64) = unat ?y * unat ?e" by (simp only: unat_ucast_32_64)
  have "unat i = unat (ucast ?y * ucast ?e :: uint64) + unat (ucast ?x :: uint64)"
    unfolding i by (rule unat_add_fits) (use r in \<open>simp only: m unat_ucast_32_64\<close>)
  then show u: "unat i = unat ?y * unat ?e + unat ?x" by (simp only: m unat_ucast_32_64)
  show "unat i < unat (blockCount (chunk_geometry c))" using u row_major_less [OF b] s(5) by simp
  show "unat ?x < unat ?e" by (rule b(1))
qed

lemma chunk_index_inject:
  assumes "wf_geometry (chunk_geometry c)" "chunk_index c off = Inr i" "chunk_index c off' = Inr i"
  shows "off = off'"
proof -
  note e = chunk_index_exact [OF assms(1,2)] and e' = chunk_index_exact [OF assms(1,3)]
  note r = row_major_inject [OF e(3) e'(3) trans [OF e(1) [symmetric] e'(1)]]
  from r have "offset_X off = offset_X off'" "offset_Y off = offset_Y off'" by (simp_all add: word_unat_eq_iff)
  then show ?thesis by (rule Offset.equality) simp
qed

text \<open>The bit of a block lies in the presence bitmap, and its field in the payload.\<close>

lemma wf_chunk_index_bounds:
  assumes "wf_chunk c" "unat i < unat (blockCount (chunk_geometry c))"
  shows "unat i < 8 * length (chunk_presence c)"
    and "\<exists>start. codec_fieldStart (chunk_codec c) (chunk_payload c) i = Inr start"
proof -
  have g: "wf_geometry (chunk_geometry c)" and p: "length (chunk_presence c) = presenceBytes (chunk_geometry c)"
    and l: "length (chunk_payload c) = payloadBytes (chunk_geometry c)"
    using assms(1) by (simp_all add: wf_chunk_def Let_def)
  note s = wf_geometry_sizes [OF g] and w = wf_chunk_codec [OF assms(1)]
  show "unat i < 8 * length (chunk_presence c)" using assms(2) unfolding p s(7) by linarith
  let ?w = "unat (BlockBits (config (chunk_geometry c)))"
  have "unat i * ?w + ?w \<le> unat (blockCount (chunk_geometry c)) * ?w"
    using assms(2) mult_right_mono [of "unat i + 1" "unat (blockCount (chunk_geometry c))" ?w] by simp
  then have "unat i * ?w + ?w < 2 ^ 64" "\<not> length (chunk_payload c) < (unat i * ?w + ?w + 7) div 8"
    using s(8) unfolding l s(6) by (linarith, simp add: div_le_mono not_less)
  then show "\<exists>start. codec_fieldStart (chunk_codec c) (chunk_payload c) i = Inr start"
    by (simp add: codec_fieldStart_eq [OF w(1)] w(2) Let_def)
qed

section \<open>The block operations\<close>

lemma chunk_index_cong: "chunk_geometry c' = chunk_geometry c \<Longrightarrow> chunk_index c' = chunk_index c"
  by (rule ext) (simp add: chunk_index_def)

lemma chunk_Exists_eq:
  "chunk_Exists c off = (case chunk_index c off of Inl e \<Rightarrow> Inl e | Inr i \<Rightarrow> Inr (presence_bit (chunk_presence c) (unat i)))"
  by (simp add: chunk_Exists_def presence_bit_def presence_index and_bit_mask_eq_0 split: sum.split)

text \<open>One edit of a block: its new payload field and its new presence bit, everything else kept.\<close>

lemma chunk_edit:
  assumes wf: "wf_chunk c" and ix: "chunk_index c off = Inr i"
    and set: "codec_Set (chunk_codec c) (chunk_payload c) i v = Inr payload"
    and len: "length presence = length (chunk_presence c)"
    and bits: "\<And>k. presence_bit presence k \<longleftrightarrow> (if k = unat i then b else presence_bit (chunk_presence c) k)"
    and c': "c' = c\<lparr>chunk_payload := payload, chunk_presence := presence\<rparr>"
  shows "wf_chunk c'" and "chunk_geometry c' = chunk_geometry c"
    and "chunk_Get c' p = (if p = off then Inr v else chunk_Get c p)"
    and "chunk_Exists c' p = (if p = off then Inr b else chunk_Exists c p)"
proof -
  have g: "wf_geometry (chunk_geometry c)" using wf by (simp add: wf_chunk_def Let_def)
  note sg = codec_Set_Get [OF wf_chunk_codec(1) [OF wf] set]
  note i = chunk_index_exact(2) [OF g ix]
  show geo: "chunk_geometry c' = chunk_geometry c" by (simp add: c')
  show "wf_chunk c'" using wf sg(1) len i by (auto simp: wf_chunk_def c' Let_def bits)
  note ixc = chunk_index_cong [OF geo]
  have other: "j \<noteq> i" if "chunk_index c p = Inr j" "p \<noteq> off" for j
    using chunk_index_inject [OF g ix] that by auto
  show "chunk_Get c' p = (if p = off then Inr v else chunk_Get c p)"
    using sg(2,3) ix other by (auto simp: chunk_Get_def ixc split: sum.split) (simp_all add: c')
  show "chunk_Exists c' p = (if p = off then Inr b else chunk_Exists c p)"
    using ix other by (auto simp: chunk_Exists_eq ixc split: sum.split) (auto simp: c' bits word_unat_eq_iff)
qed

lemma chunk_Set_Inr:
  assumes "wf_chunk c" "chunk_Set c off v = Inr c'"
  shows "wf_chunk c'" and "chunk_geometry c' = chunk_geometry c"
    and "chunk_Get c' p = (if p = off then Inr v else chunk_Get c p)"
    and "chunk_Exists c' p = (if p = off then Inr True else chunk_Exists c p)"
proof -
  obtain i payload where ix: "chunk_index c off = Inr i"
    and set: "codec_Set (chunk_codec c) (chunk_payload c) i v = Inr payload"
    and c': "c' = c\<lparr>chunk_payload := payload, chunk_presence := presence_set (chunk_presence c) i\<rparr>"
    using assms(2) by (auto simp: chunk_Set_def setPresent_def split: sum.splits)
  have g: "wf_geometry (chunk_geometry c)" using assms(1) by (simp add: wf_chunk_def Let_def)
  note b = wf_chunk_index_bounds(1) [OF assms(1) chunk_index_exact(2) [OF g ix]]
  note e = chunk_edit [OF assms(1) ix set _ _ c', of True]
  show "wf_chunk c'" "chunk_geometry c' = chunk_geometry c"
    "chunk_Get c' p = (if p = off then Inr v else chunk_Get c p)"
    "chunk_Exists c' p = (if p = off then Inr True else chunk_Exists c p)"
    by (rule e; simp add: presence_set_bit [OF b])+
qed

lemma chunk_Unset_Inr:
  assumes "wf_chunk c" "chunk_Unset c off = Inr c'"
  shows "wf_chunk c'" and "chunk_geometry c' = chunk_geometry c"
    and "chunk_Get c' p = (if p = off then Inr 0 else chunk_Get c p)"
    and "chunk_Exists c' p = (if p = off then Inr False else chunk_Exists c p)"
proof -
  obtain i payload where ix: "chunk_index c off = Inr i"
    and set: "codec_Set (chunk_codec c) (chunk_payload c) i 0 = Inr payload"
    and c': "c' = c\<lparr>chunk_payload := payload, chunk_presence := presence_clear (chunk_presence c) i\<rparr>"
    using assms(2) by (auto simp: chunk_Unset_def split: sum.splits)
  have g: "wf_geometry (chunk_geometry c)" using assms(1) by (simp add: wf_chunk_def Let_def)
  note b = wf_chunk_index_bounds(1) [OF assms(1) chunk_index_exact(2) [OF g ix]]
  note e = chunk_edit [OF assms(1) ix set _ _ c', of False]
  show "wf_chunk c'" "chunk_geometry c' = chunk_geometry c"
    "chunk_Get c' p = (if p = off then Inr 0 else chunk_Get c p)"
    "chunk_Exists c' p = (if p = off then Inr False else chunk_Exists c p)"
    by (rule e; simp add: presence_clear_bit [OF b])+
qed

text \<open>Which error an operation returns is decided by the offset and the width of the value alone.\<close>

definition offset_in_range :: "Geometry \<Rightarrow> Offset \<Rightarrow> bool" where
  "offset_in_range g off \<longleftrightarrow> offset_X off < ChunkEdge (config g) \<and> offset_Y off < ChunkEdge (config g)"

lemma chunk_index_cases:
  "chunk_index c off = (if offset_in_range (chunk_geometry c) off
     then Inr (ucast (offset_Y off) * ucast (ChunkEdge (config (chunk_geometry c))) + ucast (offset_X off))
     else Inl [ErrBlockOutOfRange])"
  by (auto simp: chunk_index_def offset_in_range_def Let_def)

lemma wf_chunk_geometry: "wf_chunk c \<Longrightarrow> wf_geometry (chunk_geometry c)"
  by (simp add: wf_chunk_def Let_def)

lemma chunk_field_start:
  assumes "wf_chunk c" "chunk_index c off = Inr i"
  shows "\<exists>start. codec_fieldStart (chunk_codec c) (chunk_payload c) i = Inr start"
  using wf_chunk_index_bounds(2) [OF assms(1) chunk_index_exact(2) [OF wf_chunk_geometry [OF assms(1)] assms(2)]] .

lemma chunk_codec_Set:
  assumes "wf_chunk c" "chunk_index c off = Inr i"
  shows "(\<exists>payload. codec_Set (chunk_codec c) (chunk_payload c) i v = Inr payload) \<and>
           unat v < 2 ^ unat (BlockBits (config (chunk_geometry c))) \<or>
         codec_Set (chunk_codec c) (chunk_payload c) i v = Inl [ErrValueTooWide] \<and>
           \<not> unat v < 2 ^ unat (BlockBits (config (chunk_geometry c)))"
  using chunk_field_start [OF assms] by (auto simp: codec_Set_eq wf_chunk_codec [OF assms(1)])

lemma chunk_Set_outcome:
  assumes "wf_chunk c"
  shows "if \<not> offset_in_range (chunk_geometry c) off then chunk_Set c off v = Inl [ErrBlockOutOfRange]
         else if 2 ^ unat (BlockBits (config (chunk_geometry c))) \<le> unat v then chunk_Set c off v = Inl [ErrValueTooWide]
         else \<exists>c'. chunk_Set c off v = Inr c'"
proof (cases "chunk_index c off")
  case (Inr i)
  then show ?thesis using chunk_codec_Set [OF assms Inr, of v]
    by (auto simp: chunk_Set_def chunk_index_cases split: if_splits)
qed (auto simp: chunk_Set_def chunk_index_cases split: if_splits)

lemma chunk_Unset_outcome:
  assumes "wf_chunk c"
  shows "if \<not> offset_in_range (chunk_geometry c) off then chunk_Unset c off = Inl [ErrBlockOutOfRange]
         else \<exists>c'. chunk_Unset c off = Inr c'"
proof (cases "chunk_index c off")
  case (Inr i)
  then show ?thesis using chunk_codec_Set [OF assms Inr, of 0]
    by (auto simp: chunk_Unset_def chunk_index_cases split: if_splits)
qed (auto simp: chunk_Unset_def chunk_index_cases split: if_splits)

lemma chunk_Get_outcome:
  assumes "wf_chunk c"
  shows "if \<not> offset_in_range (chunk_geometry c) off then chunk_Get c off = Inl [ErrBlockOutOfRange]
         else \<exists>v. chunk_Get c off = Inr v \<and> unat v < 2 ^ unat (BlockBits (config (chunk_geometry c)))"
proof (cases "chunk_index c off")
  case (Inr i)
  then obtain st where "codec_fieldStart (chunk_codec c) (chunk_payload c) i = Inr st"
    using chunk_field_start [OF assms] by blast
  then obtain v where v: "codec_Get (chunk_codec c) (chunk_payload c) i = Inr v"
    using codec_Get_eq [OF wf_chunk_codec(1) [OF assms]] by simp
  then show ?thesis using codec_Get_bound [OF wf_chunk_codec(1) [OF assms] v] Inr wf_chunk_codec(2) [OF assms]
    by (auto simp: chunk_Get_def chunk_index_cases split: if_splits)
qed (auto simp: chunk_Get_def chunk_index_cases split: if_splits)

section \<open>The constructors\<close>

lemma unused_bits_mask:
  assumes "u < 8"
  shows "(b :: byte) AND NOT (drop_bit u 0xff) = 0 \<longleftrightarrow> (\<forall>j\<in>{8 - u..<8}. \<not> bit b j)"
proof -
  have m: "bit (0xff :: byte) j \<longleftrightarrow> j < 8" for j
    using bit_mask_iff [of 8 j, where 'a = byte] by (auto simp: mask_eq_exp_minus_1 dest: bit_imp_le_length)
  have "bit (b AND NOT (drop_bit u 0xff)) j \<longleftrightarrow> bit b j \<and> j \<in> {8 - u..<8}" for j
    using assms m [of "u + j"] by (auto simp: bit_and_iff bit_not_iff bit_drop_bit_eq dest: bit_imp_le_length)
  then show ?thesis by (auto simp: bit_eq_iff dest: bit_imp_le_length)
qed

lemma unused_presence_bits:
  assumes "wf_geometry g" "length presence = presenceBytes g"
  shows "(of_nat (presenceBytes g * 8) - blockCount g \<noteq> 0 \<and>
           presence ! (length presence - 1) AND NOT (drop_bit (unat (of_nat (presenceBytes g * 8) - blockCount g :: uint64)) 0xff) \<noteq> 0)
         \<longleftrightarrow> (\<exists>k\<in>{unat (blockCount g)..<8 * presenceBytes g}. presence_bit presence k)"
proof -
  define n pb where "n = unat (blockCount g)" and "pb = presenceBytes g"
  define u where "u = pb * 8 - n"
  have pb: "pb = (n + 7) div 8" "0 < pb" "pb * 8 < 2 ^ 64"
    using wf_geometry_sizes(7) [OF assms(1)] wf_geometry_pos(3) [OF assms(1)] wf_geometry_bounds(2) [OF assms(1)]
    by (simp_all add: n_def pb_def)
  have n: "n \<le> pb * 8" "u < 8" using pb(1) by (simp_all add: u_def; linarith)+
  have w: "unat (of_nat (pb * 8) :: uint64) = pb * 8" using pb(3) by (subst unat_of_nat) simp
  have "blockCount g \<le> of_nat (pb * 8)" unfolding word_le_nat_alt w using n(1) by (simp add: n_def)
  then have u: "unat (of_nat (pb * 8) - blockCount g :: uint64) = u"
    by (simp only: unat_sub w u_def n_def)
  have z: "of_nat (pb * 8) - blockCount g \<noteq> 0 \<longleftrightarrow> u \<noteq> 0" unfolding u [symmetric] by (simp only: unat_eq_zero)
  have "(\<exists>j\<in>{8 - u..<8}. bit (presence ! (pb - 1)) j) \<longleftrightarrow> (\<exists>k\<in>{n..<8 * pb}. presence_bit presence k)"
  proof
    assume "\<exists>j\<in>{8 - u..<8}. bit (presence ! (pb - 1)) j"
    then obtain j where j: "8 - u \<le> j" "j < 8" "bit (presence ! (pb - 1)) j" by auto
    let ?k = "8 * (pb - 1) + j"
    have "?k div 8 = pb - 1" "?k mod 8 = j" "?k \<in> {n..<8 * pb}"
      using j pb(2) n by (simp_all add: u_def; linarith)+
    with j(3) show "\<exists>k\<in>{n..<8 * pb}. presence_bit presence k" unfolding presence_bit_def by metis
  next
    assume "\<exists>k\<in>{n..<8 * pb}. presence_bit presence k"
    then obtain k where k: "n \<le> k" "k < 8 * pb" "presence_bit presence k" by auto
    have d: "k div 8 = pb - 1" using k(1,2) n pb(1,2) by linarith
    moreover have "8 - u \<le> k mod 8" using k(1) n(1) pb(2) d div_mult_mod_eq [of k 8] unfolding u_def by linarith
    moreover have "k mod 8 < 8" by simp
    ultimately have "presence_bit presence k \<longrightarrow> (\<exists>j\<in>{8 - u..<8}. bit (presence ! (pb - 1)) j)"
      unfolding presence_bit_def by (metis atLeastLessThan_iff)
    with k(3) show "\<exists>j\<in>{8 - u..<8}. bit (presence ! (pb - 1)) j" by blast
  qed
  moreover have "u \<noteq> 0 \<and> presence ! (pb - 1) AND NOT (drop_bit u 0xff) \<noteq> 0 \<longleftrightarrow> (\<exists>j\<in>{8 - u..<8}. bit (presence ! (pb - 1)) j)"
    using unused_bits_mask [OF n(2), of "presence ! (pb - 1)"] by auto
  ultimately show ?thesis unfolding assms(2) pb_def [symmetric] z u n_def [symmetric] by blast
qed

lemma ChunkFromState_eq:
  assumes "wf_geometry g"
  shows "ChunkFromState g payload presence =
    (if length payload \<noteq> payloadBytes g then Inl [ErrPayloadSize]
     else if length presence \<noteq> presenceBytes g then Inl [ErrPresenceSize]
     else if \<exists>k\<in>{unat (blockCount g)..<8 * presenceBytes g}. presence_bit presence k then Inl [ErrPresenceSize]
     else Inr \<lparr>chunk_geometry = g, chunk_codec = \<lparr>codec_width = BlockBits (config g), codec_order = LSBFirst\<rparr>,
               chunk_payload = payload, chunk_presence = presence\<rparr>)"
proof (cases "length presence = presenceBytes g")
  case True
  then show ?thesis unfolding ChunkFromState_def NewChunk_eq [OF assms] Let_def
    using unused_presence_bits [OF assms True] by simp
qed (simp add: ChunkFromState_def)

lemma ChunkFromState_Inr:
  assumes "wf_geometry g" "ChunkFromState g payload presence = Inr c"
  shows "wf_chunk c" "chunk_geometry c = g" "chunk_payload c = payload" "chunk_presence c = presence"
  using assms unfolding ChunkFromState_eq [OF assms(1)] wf_chunk_def Let_def by (auto split: if_splits)

text \<open>The state of a well-formed chunk rebuilds the chunk.\<close>

lemma ChunkFromState_wf_chunk [go_codec]:
  assumes "wf_chunk c"
  shows "ChunkFromState (chunk_geometry c) (chunk_payload c) (chunk_presence c) = Inr c"
  using assms unfolding wf_chunk_def Let_def by (auto simp: ChunkFromState_eq)

lemma presence_fold:
  assumes "n \<le> 8 * length bits" "n < 2 ^ 64"
  shows "length (foldl (\<lambda>bits index. presence_set bits (of_nat index)) bits [0..<n]) = length bits"
    and "presence_bit (foldl (\<lambda>bits index. presence_set bits (of_nat index)) bits [0..<n]) k \<longleftrightarrow> k < n \<or> presence_bit bits k"
proof -
  have "length (foldl (\<lambda>bits index. presence_set bits (of_nat index)) bits [0..<n]) = length bits \<and>
    (\<forall>k. presence_bit (foldl (\<lambda>bits index. presence_set bits (of_nat index)) bits [0..<n]) k \<longleftrightarrow> k < n \<or> presence_bit bits k)"
    using assms
  proof (induction n)
    case (Suc n)
    then have "unat (of_nat n :: uint64) = n" by (subst unat_of_nat) simp
    then show ?case using Suc by (auto simp: presence_set_bit less_Suc_eq)
  qed simp
  then show "length (foldl (\<lambda>bits index. presence_set bits (of_nat index)) bits [0..<n]) = length bits"
    and "presence_bit (foldl (\<lambda>bits index. presence_set bits (of_nat index)) bits [0..<n]) k \<longleftrightarrow> k < n \<or> presence_bit bits k"
    by blast+
qed

text \<open>\<^verbatim>\<open>ChunkFromBytes\<close> marks every block present and checks only the payload length.\<close>

lemma ChunkFromBytes_outcome:
  assumes "wf_geometry g"
  shows "if length payload \<noteq> payloadBytes g then ChunkFromBytes g payload = Inl [ErrPayloadSize]
         else \<exists>c. ChunkFromBytes g payload = Inr c \<and> wf_chunk c \<and> chunk_geometry c = g \<and> chunk_payload c = payload \<and>
                  (\<forall>k < unat (blockCount g). presence_bit (chunk_presence c) k)"
proof -
  let ?p = "foldl (\<lambda>bits index. presence_set bits (of_nat index)) (replicate (presenceBytes g) 0) [0..<unat (blockCount g)]"
  have n: "unat (blockCount g) \<le> 8 * length (replicate (presenceBytes g) (0 :: byte))"
    using wf_geometry_sizes(7) [OF assms] by simp
  note f = presence_fold [OF n unat_u64_bound]
  show ?thesis
  proof (cases "length payload = payloadBytes g")
    case True
    then obtain c where c: "ChunkFromState g payload ?p = Inr c"
      unfolding ChunkFromState_eq [OF assms] using f by auto
    then show ?thesis using ChunkFromState_Inr [OF assms c] f(2) True by (auto simp: ChunkFromBytes_def)
  qed (simp add: ChunkFromBytes_def ChunkFromState_eq [OF assms])
qed

text \<open>\<^verbatim>\<open>ChunkFromLegacyBytes\<close> marks exactly the nonzero blocks present.\<close>

lemma wf_chunk_setPresent:
  assumes "wf_chunk c" "unat i < unat (blockCount (chunk_geometry c))"
  shows "wf_chunk (setPresent c i)"
    and "presence_bit (chunk_presence (setPresent c i)) k \<longleftrightarrow> k = unat i \<or> presence_bit (chunk_presence c) k"
  using assms presence_set_bit [OF wf_chunk_index_bounds(1) [OF assms]]
  by (auto simp: wf_chunk_def setPresent_def Let_def)

lemma legacy_loop_correct:
  assumes "wf_chunk c" "\<forall>k\<in>set ks. k < unat (blockCount (chunk_geometry c))"
  shows "\<exists>c'. legacy_loop ks c = Inr c' \<and> wf_chunk c' \<and> chunk_geometry c' = chunk_geometry c \<and>
    chunk_payload c' = chunk_payload c \<and> chunk_codec c' = chunk_codec c \<and>
    (\<forall>k. presence_bit (chunk_presence c') k \<longleftrightarrow> presence_bit (chunk_presence c) k \<or>
       k \<in> set ks \<and> codec_Get (chunk_codec c) (chunk_payload c) (of_nat k) \<noteq> Inr 0)"
  using assms
proof (induction ks arbitrary: c)
  case (Cons k ks)
  have k: "unat (of_nat k :: uint64) = k" using Cons.prems(2) unat_u64_bound [of "blockCount (chunk_geometry c)"]
    by (subst unat_of_nat) simp
  obtain v where v: "codec_Get (chunk_codec c) (chunk_payload c) (of_nat k) = Inr v"
    using wf_chunk_index_bounds(2) [OF Cons.prems(1), of "of_nat k"] Cons.prems(2) k
      codec_Get_is_loop [OF wf_chunk_codec(1) [OF Cons.prems(1)]] by fastforce
  define d where "d = (if v \<noteq> 0 then setPresent c (of_nat k) else c)"
  have d: "wf_chunk d" "chunk_geometry d = chunk_geometry c" "chunk_payload d = chunk_payload c" "chunk_codec d = chunk_codec c"
    "presence_bit (chunk_presence d) j \<longleftrightarrow> presence_bit (chunk_presence c) j \<or> j = k \<and> v \<noteq> 0" for j
    using Cons.prems wf_chunk_setPresent [OF Cons.prems(1), of "of_nat k"] k by (auto simp: d_def setPresent_def)
  obtain c' where "legacy_loop ks d = Inr c'" "wf_chunk c'" "chunk_geometry c' = chunk_geometry c"
    "chunk_payload c' = chunk_payload c" "chunk_codec c' = chunk_codec c"
    "\<forall>j. presence_bit (chunk_presence c') j \<longleftrightarrow> presence_bit (chunk_presence d) j \<or>
       j \<in> set ks \<and> codec_Get (chunk_codec c) (chunk_payload c) (of_nat j) \<noteq> Inr 0"
    using Cons.IH [OF d(1)] Cons.prems(2) d(2-4) by auto
  then show ?case using v d(5) by (auto simp: d_def)
qed simp

lemma ChunkFromLegacyBytes_outcome:
  assumes "wf_geometry g"
  shows "if length payload \<noteq> payloadBytes g then ChunkFromLegacyBytes g payload = Inl [ErrPayloadSize]
         else \<exists>c. ChunkFromLegacyBytes g payload = Inr c \<and> wf_chunk c \<and> chunk_geometry c = g \<and> chunk_payload c = payload \<and>
           (\<forall>off. offset_in_range g off \<longrightarrow> chunk_Exists c off = Inr (chunk_Get c off \<noteq> Inr 0))"
proof (cases "length payload = payloadBytes g")
  case True
  define c0 where "c0 = \<lparr>chunk_geometry = g, chunk_codec = \<lparr>codec_width = BlockBits (config g), codec_order = LSBFirst\<rparr>,
      chunk_payload = payload, chunk_presence = replicate (presenceBytes g) 0\<rparr>"
  have c0: "wf_chunk c0" using assms True by (auto simp: c0_def wf_chunk_def)
  have geo: "chunk_geometry c0 = g" "chunk_payload c0 = payload" by (simp_all add: c0_def)
  have eq: "ChunkFromLegacyBytes g payload = legacy_loop [0..<unat (blockCount g)] c0"
    using True by (simp add: ChunkFromLegacyBytes_def NewChunk_eq [OF assms] c0_def)
  obtain c where c: "legacy_loop [0..<unat (blockCount g)] c0 = Inr c" "wf_chunk c" "chunk_geometry c = g"
    "chunk_payload c = payload" "chunk_codec c = chunk_codec c0"
    and p: "\<And>k. presence_bit (chunk_presence c) k \<longleftrightarrow> presence_bit (chunk_presence c0) k \<or>
       k < unat (blockCount g) \<and> codec_Get (chunk_codec c0) payload (of_nat k) \<noteq> Inr 0"
    using legacy_loop_correct [OF c0, of "[0..<unat (blockCount g)]"] geo by auto
  have "chunk_Exists c off = Inr (chunk_Get c off \<noteq> Inr 0)" if r: "offset_in_range g off" for off
  proof -
    obtain i where i: "chunk_index c off = Inr i" using r c(3) by (simp add: chunk_index_cases)
    have b: "unat i < unat (blockCount g)" using chunk_index_exact(2) [OF _ i] assms c(3) by simp
    moreover have "\<not> presence_bit (chunk_presence c0) (unat i)"
      using wf_chunk_index_bounds(1) [OF c0, of i] b by (simp add: c0_def)
    ultimately show ?thesis using p [of "unat i"] c(4,5) i by (simp add: chunk_Exists_eq chunk_Get_def)
  qed
  then show ?thesis using True c eq by auto
qed (simp add: ChunkFromLegacyBytes_def)

section \<open>The contract of a block container\<close>

text \<open>
  What the command engine relies on: an edit of one cell succeeds on cells in range, keeps the
  invariant and changes that cell only.  \<open>edit\<close> is one block command, \<open>replay\<close> a sequence of them.
\<close>

locale block_cells =
  fixes inv :: "'c \<Rightarrow> bool"
    and cell :: "'c \<Rightarrow> 'o \<Rightarrow> bool"
    and fits :: "'c \<Rightarrow> 'v \<Rightarrow> bool"
    and get :: "'c \<Rightarrow> 'o \<Rightarrow> 'v result"
    and ex :: "'c \<Rightarrow> 'o \<Rightarrow> bool result"
    and edit :: "'c \<Rightarrow> 'o \<Rightarrow> 'v option \<Rightarrow> 'c result"
    and blank :: 'v
  assumes edit_ok: "inv c \<Longrightarrow> cell c off \<Longrightarrow> pred_option (fits c) w \<Longrightarrow> \<exists>c'. edit c off w = Inr c'"
    and edit_inv: "inv c \<Longrightarrow> edit c off w = Inr c' \<Longrightarrow> inv c'"
    and edit_cell: "inv c \<Longrightarrow> edit c off w = Inr c' \<Longrightarrow> cell c' = cell c \<and> fits c' = fits c"
    and edit_get: "inv c \<Longrightarrow> edit c off w = Inr c' \<Longrightarrow>
      get c' p = (if p = off then Inr (case w of None \<Rightarrow> blank | Some v \<Rightarrow> v) else get c p)"
    and edit_ex: "inv c \<Longrightarrow> edit c off w = Inr c' \<Longrightarrow> ex c' p = (if p = off then Inr (w \<noteq> None) else ex c p)"
begin

fun replay :: "('o \<times> 'v option) list \<Rightarrow> 'c \<Rightarrow> 'c result" where
  "replay [] c = Inr c"
| "replay ((off, w) # es) c = (case edit c off w of Inl e \<Rightarrow> Inl e | Inr c' \<Rightarrow> replay es c')"

lemma replay_total:
  "inv c \<Longrightarrow> \<forall>(off, w)\<in>set es. cell c off \<and> pred_option (fits c) w \<Longrightarrow> \<exists>c'. replay es c = Inr c'"
proof (induction es arbitrary: c)
  case (Cons a es)
  obtain off w where a: "a = (off, w)" by (cases a)
  with Cons.prems obtain c1 where c1: "edit c off w = Inr c1" using edit_ok [of c off w] by auto
  with Cons.prems show ?case
    using Cons.IH [of c1] edit_inv [of c off w c1] edit_cell [of c off w c1] a by auto
qed simp

text \<open>The last edit of a cell decides its value and its presence; untouched cells keep theirs.\<close>

lemma replay_last_wins:
  "inv c \<Longrightarrow> replay es c = Inr c' \<Longrightarrow> inv c' \<and>
   get c' p = (case map_of (rev es) p of None \<Rightarrow> get c p | Some w \<Rightarrow> Inr (case w of None \<Rightarrow> blank | Some v \<Rightarrow> v)) \<and>
   ex c' p = (case map_of (rev es) p of None \<Rightarrow> ex c p | Some w \<Rightarrow> Inr (w \<noteq> None))"
proof (induction es arbitrary: c)
  case (Cons a es)
  obtain off w where a: "a = (off, w)" by (cases a)
  with Cons.prems obtain c1 where c1: "edit c off w = Inr c1" "replay es c1 = Inr c'"
    by (auto split: sum.splits)
  note i = edit_inv [OF Cons.prems(1) c1(1)] and g = edit_get [OF Cons.prems(1) c1(1), of p]
    and x = edit_ex [OF Cons.prems(1) c1(1), of p]
  show ?case using Cons.IH [OF i c1(2)] g x
    by (auto simp: a map_add_def split: option.splits)
qed simp

end

text \<open>One block command on a chunk: \<^verbatim>\<open>SET\<close> a value or \<^verbatim>\<open>UNSET\<close>.\<close>

definition chunk_edit_block :: "Chunk \<Rightarrow> Offset \<Rightarrow> uint64 option \<Rightarrow> Chunk result" where
  "chunk_edit_block c off w = (case w of None \<Rightarrow> chunk_Unset c off | Some v \<Rightarrow> chunk_Set c off v)"

definition value_fits :: "Geometry \<Rightarrow> uint64 \<Rightarrow> bool" where
  "value_fits g v \<longleftrightarrow> unat v < 2 ^ unat (BlockBits (config g))"

interpretation blocks: block_cells wf_chunk "\<lambda>c. offset_in_range (chunk_geometry c)" "\<lambda>c. value_fits (chunk_geometry c)"
  chunk_Get chunk_Exists chunk_edit_block 0
proof
  fix c c' :: Chunk and off p :: Offset and w :: "uint64 option"
  assume wf: "wf_chunk c"
  show "\<exists>c'. chunk_edit_block c off w = Inr c'"
    if "offset_in_range (chunk_geometry c) off" "pred_option (value_fits (chunk_geometry c)) w"
    using chunk_Set_outcome [OF wf, of off] chunk_Unset_outcome [OF wf, of off] that
    by (cases w) (auto simp: chunk_edit_block_def value_fits_def not_le split: if_splits)
  assume e: "chunk_edit_block c off w = Inr c'"
  show "wf_chunk c'" "chunk_Exists c' p = (if p = off then Inr (w \<noteq> None) else chunk_Exists c p)"
    "chunk_Get c' p = (if p = off then Inr (case w of None \<Rightarrow> 0 | Some v \<Rightarrow> v) else chunk_Get c p)"
    "offset_in_range (chunk_geometry c') = offset_in_range (chunk_geometry c) \<and>
       value_fits (chunk_geometry c') = value_fits (chunk_geometry c)"
    using chunk_Set_Inr [OF wf] chunk_Unset_Inr [OF wf] e
    by (cases w; simp add: chunk_edit_block_def)+
qed

section \<open>The properties of chunks\<close>

text \<open>
  (C18) On a well-formed chunk any sequence of block writes and deletions of cells in range, with
  values that fit the block width, succeeds; the result is well-formed, every cell shows the last
  edit made to it, with its presence, and the cells not edited are unchanged.
\<close>

theorem chunk_edits_last_wins:
  assumes "wf_chunk c"
    and "\<forall>(off, w)\<in>set es. offset_in_range (chunk_geometry c) off \<and> pred_option (value_fits (chunk_geometry c)) w"
  shows "\<exists>c'. blocks.replay es c = Inr c' \<and> wf_chunk c' \<and>
    (\<forall>p. chunk_Get c' p = (case map_of (rev es) p of None \<Rightarrow> chunk_Get c p
                          | Some w \<Rightarrow> Inr (case w of None \<Rightarrow> 0 | Some v \<Rightarrow> v)) \<and>
         chunk_Exists c' p = (case map_of (rev es) p of None \<Rightarrow> chunk_Exists c p | Some w \<Rightarrow> Inr (w \<noteq> None)))"
  using blocks.replay_total [OF assms] blocks.replay_last_wins [OF assms(1)] by blast

theorem chunk_edits_last_wins_witness:
  "let g = \<lparr>config = \<lparr>ChunkEdge = 2, LargeChunkEdge = 1, BlockBits = 3\<rparr>, blockCount = 4, payloadBytes = 2, presenceBytes = 1\<rparr>;
       c = \<lparr>chunk_geometry = g, chunk_codec = \<lparr>codec_width = 3, codec_order = LSBFirst\<rparr>,
            chunk_payload = [0, 0], chunk_presence = [0]\<rparr>
   in \<exists>c'. blocks.replay [(\<lparr>offset_X = 1, offset_Y = 0\<rparr>, Some 5), (\<lparr>offset_X = 1, offset_Y = 0\<rparr>, Some 6)] c = Inr c' \<and>
        chunk_Get c' \<lparr>offset_X = 1, offset_Y = 0\<rparr> = Inr 6"
proof -
  let ?g = "\<lparr>config = \<lparr>ChunkEdge = 2, LargeChunkEdge = 1, BlockBits = 3\<rparr>, blockCount = 4, payloadBytes = 2, presenceBytes = 1\<rparr>"
  let ?c = "\<lparr>chunk_geometry = ?g, chunk_codec = \<lparr>codec_width = 3, codec_order = LSBFirst\<rparr>,
            chunk_payload = [0, 0], chunk_presence = [0]\<rparr>"
  have wf: "wf_chunk ?c" by code_simp
  show ?thesis
    using chunk_edits_last_wins [OF wf, of "[(\<lparr>offset_X = 1, offset_Y = 0\<rparr>, Some 5), (\<lparr>offset_X = 1, offset_Y = 0\<rparr>, Some 6)]"]
    by (auto simp: offset_in_range_def value_fits_def)
qed

text \<open>
  (C20) \<^verbatim>\<open>ChunkFromState\<close> accepts exactly the payloads and presence bitmaps of the right length whose
  unused presence bits are zero, keeps both byte for byte and returns a well-formed chunk; the bytes
  of every well-formed chunk are accepted and rebuild that chunk.
\<close>

theorem ChunkFromState_exact:
  assumes "wf_geometry g"
  shows "(\<forall>payload presence. case ChunkFromState g payload presence of
            Inl e \<Rightarrow> (e = [ErrPayloadSize] \<and> length payload \<noteq> payloadBytes g) \<or>
                     (e = [ErrPresenceSize] \<and> (length presence \<noteq> presenceBytes g \<or>
                        (\<exists>k\<in>{unat (blockCount g)..<8 * presenceBytes g}. presence_bit presence k)))
          | Inr c \<Rightarrow> wf_chunk c \<and> chunk_geometry c = g \<and> chunk_payload c = payload \<and> chunk_presence c = presence) \<and>
         (\<forall>c. wf_chunk c \<and> chunk_geometry c = g \<longrightarrow>
            ChunkFromState g (chunk_payload c) (chunk_presence c) = Inr c)"
proof (intro conjI allI impI)
  fix payload presence
  show "case ChunkFromState g payload presence of
            Inl e \<Rightarrow> (e = [ErrPayloadSize] \<and> length payload \<noteq> payloadBytes g) \<or>
                     (e = [ErrPresenceSize] \<and> (length presence \<noteq> presenceBytes g \<or>
                        (\<exists>k\<in>{unat (blockCount g)..<8 * presenceBytes g}. presence_bit presence k)))
          | Inr c \<Rightarrow> wf_chunk c \<and> chunk_geometry c = g \<and> chunk_payload c = payload \<and> chunk_presence c = presence"
  proof (cases "ChunkFromState g payload presence")
    case (Inl e)
    then show ?thesis unfolding ChunkFromState_eq [OF assms] by (auto split: if_splits)
  next
    case (Inr c)
    then show ?thesis using ChunkFromState_Inr [OF assms Inr] by simp
  qed
next
  fix c assume "wf_chunk c \<and> chunk_geometry c = g"
  then show "ChunkFromState g (chunk_payload c) (chunk_presence c) = Inr c" using ChunkFromState_wf_chunk by blast
qed

theorem ChunkFromState_exact_witness:
  "let g = \<lparr>config = \<lparr>ChunkEdge = 2, LargeChunkEdge = 1, BlockBits = 3\<rparr>, blockCount = 4, payloadBytes = 2, presenceBytes = 1\<rparr>
   in wf_geometry g \<and> ChunkFromState g [0, 0] [16] = Inl [ErrPresenceSize] \<and>
      (case ChunkFromState g [7, 0] [1] of Inl _ \<Rightarrow> False | Inr c \<Rightarrow> chunk_payload c = [7, 0])"
proof -
  let ?g = "\<lparr>config = \<lparr>ChunkEdge = 2, LargeChunkEdge = 1, BlockBits = 3\<rparr>, blockCount = 4, payloadBytes = 2, presenceBytes = 1\<rparr>"
  have wf: "wf_geometry ?g" by code_simp
  have bad: "ChunkFromState ?g [0, 0] [16] = Inl [ErrPresenceSize]" by code_simp
  have c: "ChunkFromState ?g [7, 0] [1] = Inr \<lparr>chunk_geometry = ?g,
      chunk_codec = \<lparr>codec_width = 3, codec_order = LSBFirst\<rparr>, chunk_payload = [7, 0], chunk_presence = [1]\<rparr>" by code_simp
  show ?thesis using wf bad c spec [OF spec [OF conjunct1 [OF ChunkFromState_exact [OF wf]], of "[7, 0]"], of "[1]"]
    by simp
qed

end
