(* ===== verification/Frame.thy ===== *)
theory Frame
  imports GoText
begin

text \<open>
  Command frames (\<^verbatim>\<open>internal/protocol/frame.go\<close>): one CRLF-terminated line of printable ASCII, an
  uppercase name and arguments separated by single spaces.  \<open>parseFrame_iff\<close> characterises the parser
  exactly: it accepts the canonical rendering of the well-formed commands and nothing else.
  The \<^verbatim>\<open>scratch\<close> slice of \<^verbatim>\<open>parseFrame\<close> only provides storage for the argument list.
\<close>

section \<open>The code\<close>

record Command =
  Name :: string
  Args :: "string list"

text \<open>The errors of \<^verbatim>\<open>parseFrame\<close>, each \<^verbatim>\<open>ErrInvalidFrame\<close> with the detail the constructor names.\<close>

datatype frame_error =
    MustEndWithCRLF | CommandEmpty | EmbeddedLineBreak | NotPrintableASCII | NotSingleSpaces | NameNotUppercase

definition CR :: byte where "CR = 13"
definition LF :: byte where "LF = 10"
definition SP :: byte where "SP = 32"

fun check_line :: "bytes \<Rightarrow> frame_error option" where
  "check_line [] = None"
| "check_line (character # rest) =
     (if character = CR \<or> character = LF then Some EmbeddedLineBreak
      else if character < 0x20 \<or> character > 0x7e then Some NotPrintableASCII
      else check_line rest)"

text \<open>The argument loop from \<^verbatim>\<open>start\<close> on: \<open>rest\<close> is \<^verbatim>\<open>line[start:]\<close>.\<close>

function parse_args :: "bytes \<Rightarrow> frame_error + string list" where
  "parse_args rest =
     (let token = takeWhile (\<lambda>b. b \<noteq> SP) rest
      in if token = [] then Inl NotSingleSpaces
         else case drop (length token) rest of
                [] \<Rightarrow> Inr [string_of token]
              | _ # rest' \<Rightarrow>
                  (case parse_args rest' of
                     Inl e \<Rightarrow> Inl e
                   | Inr args \<Rightarrow> Inr (string_of token # args)))"
  by pat_completeness auto
termination
proof (relation "measure length", goal_cases)
  case (2 rest token b rest')
  then have "length (b # rest') \<le> length rest" by (metis diff_le_self length_drop)
  then show ?case by simp
qed simp

definition parseFrame :: "bytes \<Rightarrow> frame_error + Command" where
  "parseFrame frame =
     (if length frame < 3 \<or> frame ! (length frame - 2) \<noteq> CR \<or> frame ! (length frame - 1) \<noteq> LF then Inl MustEndWithCRLF
      else let line = take (length frame - 2) frame
      in if length line = 0 then Inl CommandEmpty
      else case check_line line of
        Some e \<Rightarrow> Inl e
      | None \<Rightarrow>
          let nameEnd = length (takeWhile (\<lambda>b. b \<noteq> SP) line)
          in if nameEnd = 0 then Inl NotSingleSpaces
             else if \<exists>character\<in>set (take nameEnd line). character < 65 \<or> character > 90 then Inl NameNotUppercase
             else if nameEnd + 1 \<le> length line
             then (case parse_args (drop (nameEnd + 1) line) of
                     Inl e \<Rightarrow> Inl e
                   | Inr args \<Rightarrow> Inr \<lparr>Name = string_of (take nameEnd line), Args = args\<rparr>)
             else Inr \<lparr>Name = string_of (take nameEnd line), Args = []\<rparr>)"

definition ParseFrame :: "bytes \<Rightarrow> frame_error + Command" where
  "ParseFrame frame = parseFrame frame"

definition SerializeCommand :: "string \<Rightarrow> string list \<Rightarrow> frame_error + bytes" where
  "SerializeCommand name args =
     (let frame = foldl (\<lambda>frame arg. frame @ [SP] @ bytes_of arg) (bytes_of name) args @ [CR, LF]
      in case ParseFrame frame of Inl e \<Rightarrow> Inl e | Inr _ \<Rightarrow> Inr frame)"

section \<open>Well-formed commands and their rendering\<close>

definition printable :: "byte \<Rightarrow> bool" where
  "printable b \<longleftrightarrow> 0x21 \<le> b \<and> b \<le> 0x7e"

definition wf_command :: "Command \<Rightarrow> bool" where
  "wf_command c \<longleftrightarrow> Name c \<noteq> [] \<and> (\<forall>b\<in>set (bytes_of (Name c)). 65 \<le> b \<and> b \<le> 90) \<and>
     (\<forall>a\<in>set (Args c). a \<noteq> [] \<and> (\<forall>b\<in>set (bytes_of a). printable b))"

definition render :: "Command \<Rightarrow> bytes" where
  "render c = bytes_of (Name c) @ concat (map (\<lambda>a. SP # bytes_of a) (Args c)) @ [CR, LF]"

definition join_args :: "string list \<Rightarrow> bytes" where
  "join_args args = concat (map (\<lambda>a. SP # bytes_of a) args)"

lemma foldl_args: "foldl (\<lambda>frame arg. frame @ [SP] @ bytes_of arg) acc args = acc @ join_args args"
  by (induction args arbitrary: acc) (simp_all add: join_args_def)

lemma render_eq: "render c = bytes_of (Name c) @ join_args (Args c) @ [CR, LF]"
  by (simp add: render_def join_args_def)

lemma check_line_None: "check_line line = None \<longleftrightarrow> (\<forall>b\<in>set line. 0x20 \<le> b \<and> b \<le> 0x7e)"
proof (induction line)
  case (Cons b line)
  have "b = CR \<or> b = LF \<Longrightarrow> b < 0x20" by (auto simp: CR_def LF_def)
  with Cons show ?case by (auto simp: not_less)
qed simp

declare parse_args.simps [simp del]

lemma takeWhile_SP: "SP \<notin> set t \<Longrightarrow> takeWhile (\<lambda>b. b \<noteq> SP) (t @ SP # rest) = t"
  "SP \<notin> set t \<Longrightarrow> takeWhile (\<lambda>b. b \<noteq> SP) t = t"
  by (induction t) auto

lemma takeWhile_SP_split:
  obtains "takeWhile (\<lambda>b. b \<noteq> SP) line = line" "SP \<notin> set line"
  | rest where "line = takeWhile (\<lambda>b. b \<noteq> SP) line @ SP # rest"
proof (cases "SP \<in> set line")
  case True
  have "line = takeWhile (\<lambda>b. b \<noteq> SP) line @ dropWhile (\<lambda>b. b \<noteq> SP) line" by simp
  moreover obtain rest where "dropWhile (\<lambda>b. b \<noteq> SP) line = SP # rest"
    using True hd_dropWhile [of "\<lambda>b. b \<noteq> SP" line] by (cases "dropWhile (\<lambda>b. b \<noteq> SP) line") auto
  ultimately show ?thesis using that(2) by metis
next
  case False
  then show ?thesis using that(1) takeWhile_SP(2) by blast
qed

lemma parse_args_single:
  "SP \<notin> set t \<Longrightarrow> parse_args t = (if t = [] then Inl NotSingleSpaces else Inr [string_of t])"
  by (subst parse_args.simps) (simp add: takeWhile_SP)

lemma parse_args_cons:
  "SP \<notin> set t \<Longrightarrow> parse_args (t @ SP # rest) =
     (if t = [] then Inl NotSingleSpaces
      else case parse_args rest of Inl e \<Rightarrow> Inl e | Inr args \<Rightarrow> Inr (string_of t # args))"
  by (subst parse_args.simps) (simp add: takeWhile_SP)

lemma join_args_simps [simp]: "join_args [] = []" "join_args (a # as) = SP # bytes_of a @ join_args as"
  by (simp_all add: join_args_def)

lemma SP_split_unique:
  "SP \<notin> set t \<Longrightarrow> SP \<notin> set u \<Longrightarrow> t @ SP # r = u @ SP # r' \<longleftrightarrow> t = u \<and> r = r'"
  by (metis append_same_eq same_append_eq takeWhile_SP(1) list.inject)

lemma parse_args_sound:
  "parse_args rest = Inr args \<Longrightarrow>
     args \<noteq> [] \<and> SP # rest = join_args args \<and> (\<forall>a\<in>set args. a \<noteq> [] \<and> SP \<notin> set (bytes_of a))"
proof (induction rest arbitrary: args rule: length_induct)
  case (1 rest)
  show ?case
  proof (rule takeWhile_SP_split [of rest])
    assume "takeWhile (\<lambda>b. b \<noteq> SP) rest = rest" and n: "SP \<notin> set rest"
    then show ?thesis using 1(2) parse_args_single [OF n] by (auto split: if_splits)
  next
    fix r assume r: "rest = takeWhile (\<lambda>b. b \<noteq> SP) rest @ SP # r"
    define t where "t = takeWhile (\<lambda>b. b \<noteq> SP) rest"
    have n: "SP \<notin> set t" unfolding t_def using set_takeWhileD by fastforce
    obtain as where as: "parse_args r = Inr as" "args = string_of t # as" "t \<noteq> []"
      using 1(2) parse_args_cons [OF n, of r] r [folded t_def] by (auto split: if_splits sum.splits)
    have "length r < length rest" by (subst r) simp
    with 1(1) as(1) have "SP # r = join_args as" "\<forall>a\<in>set as. a \<noteq> [] \<and> SP \<notin> set (bytes_of a)" by blast+
    then show ?thesis using as(2,3) n r [folded t_def] by auto
  qed
qed

lemma parse_args_join:
  "args \<noteq> [] \<Longrightarrow> \<forall>a\<in>set args. a \<noteq> [] \<and> SP \<notin> set (bytes_of a) \<Longrightarrow> parse_args (tl (join_args args)) = Inr args"
proof (induction args)
  case (Cons a as)
  show ?case
  proof (cases as)
    case Nil
    then show ?thesis using Cons.prems parse_args_single [of "bytes_of a"] by simp
  next
    case (Cons b bs)
    then show ?thesis using Cons.IH Cons.prems parse_args_cons [of "bytes_of a"] by simp
  qed
qed simp

lemma snoc_CRLF:
  "\<not> (length frame < 3 \<or> frame ! (length frame - 2) \<noteq> CR \<or> frame ! (length frame - 1) \<noteq> LF) \<longleftrightarrow>
   (\<exists>line. line \<noteq> [] \<and> frame = line @ [CR, LF])"
proof
  assume a: "\<not> (length frame < 3 \<or> frame ! (length frame - 2) \<noteq> CR \<or> frame ! (length frame - 1) \<noteq> LF)"
  obtain xs l where f: "frame = xs @ [l]" using a by (cases frame rule: rev_cases) auto
  obtain ys k where x: "xs = ys @ [k]" using a f by (cases xs rule: rev_cases) auto
  show "\<exists>line. line \<noteq> [] \<and> frame = line @ [CR, LF]" using a by (auto simp: f x nth_append)
next
  assume "\<exists>line. line \<noteq> [] \<and> frame = line @ [CR, LF]"
  then show "\<not> (length frame < 3 \<or> frame ! (length frame - 2) \<noteq> CR \<or> frame ! (length frame - 1) \<noteq> LF)"
    by (auto simp: nth_append Suc_le_eq)
qed

text \<open>The parser on a line: the three checks, then the tokens.\<close>

lemma parseFrame_line:
  assumes "line \<noteq> []"
  defines "name \<equiv> takeWhile (\<lambda>b. b \<noteq> SP) line"
  shows "parseFrame (line @ [CR, LF]) =
    (case check_line line of
       Some e \<Rightarrow> Inl e
     | None \<Rightarrow>
         if name = [] then Inl NotSingleSpaces
         else if \<exists>b\<in>set name. b < 65 \<or> b > 90 then Inl NameNotUppercase
         else if SP \<in> set line
         then map_sum id (\<lambda>args. \<lparr>Name = string_of name, Args = args\<rparr>) (parse_args (drop (length name + 1) line))
         else Inr \<lparr>Name = string_of name, Args = []\<rparr>)"
proof -
  have ok: "\<not> (length (line @ [CR, LF]) < 3 \<or> (line @ [CR, LF]) ! (length (line @ [CR, LF]) - 2) \<noteq> CR \<or>
      (line @ [CR, LF]) ! (length (line @ [CR, LF]) - 1) \<noteq> LF)"
    using snoc_CRLF [of "line @ [CR, LF]"] assms(1) by blast
  have t: "take (length name) line = name" unfolding name_def by (metis takeWhile_eq_take)
  have n: "Suc (length name) \<le> length line \<longleftrightarrow> SP \<in> set line"
  proof (rule takeWhile_SP_split [of line])
    fix rest assume r: "line = takeWhile (\<lambda>b. b \<noteq> SP) line @ SP # rest"
    have "length line = length name + 1 + length rest" "SP \<in> set line"
      by (subst r [folded name_def], simp)+
    then show ?thesis by simp
  qed (simp add: name_def takeWhile_SP(2))
  show ?thesis unfolding parseFrame_def if_not_P [OF ok] Let_def
    using assms(1) by (auto simp: name_def [symmetric] t n split: option.split sum.split)
qed

lemma upper_not_SP: "\<forall>b\<in>set t. 65 \<le> b \<and> b \<le> (90 :: byte) \<Longrightarrow> SP \<notin> set t"
  by (auto simp: SP_def)

lemma join_args_SP: "SP \<in> set (join_args as) \<longleftrightarrow> as \<noteq> []"
  by (cases as) auto

lemma parseFrame_line_iff:
  assumes "line \<noteq> []" "check_line line = None"
  shows "parseFrame (line @ [CR, LF]) = Inr c \<longleftrightarrow>
    line = bytes_of (Name c) @ join_args (Args c) \<and> Name c \<noteq> [] \<and>
    (\<forall>b\<in>set (bytes_of (Name c)). 65 \<le> b \<and> b \<le> 90) \<and> (\<forall>a\<in>set (Args c). a \<noteq> [] \<and> SP \<notin> set (bytes_of a))"
    (is "_ \<longleftrightarrow> ?R")
proof
  define name where "name = takeWhile (\<lambda>b. b \<noteq> SP) line"
  note p = parseFrame_line [OF assms(1), folded name_def]
  assume i: "parseFrame (line @ [CR, LF]) = Inr c"
  then have n: "name \<noteq> []" "\<forall>b\<in>set name. 65 \<le> b \<and> b \<le> 90" using p assms(2) by (auto split: if_splits simp: not_less)
  show ?R
  proof (rule takeWhile_SP_split [of line])
    assume l: "takeWhile (\<lambda>b. b \<noteq> SP) line = line" and "SP \<notin> set line"
    then have "c = \<lparr>Name = string_of name, Args = []\<rparr>" using i p assms(2) by (auto split: if_splits)
    then show ?R using n l by (simp add: name_def)
  next
    fix rest assume r: "line = takeWhile (\<lambda>b. b \<noteq> SP) line @ SP # rest"
    note r = r [folded name_def]
    have "SP \<in> set line" "drop (length name + 1) line = rest" by (subst r, simp)+
    then obtain args where a: "parse_args rest = Inr args" and c: "c = \<lparr>Name = string_of name, Args = args\<rparr>"
      using i p assms(2) by (cases "parse_args rest") (auto split: if_splits)
    show ?R using parse_args_sound [OF a] n r by (auto simp: c)
  qed
next
  define name where "name = takeWhile (\<lambda>b. b \<noteq> SP) line"
  note p = parseFrame_line [OF assms(1), folded name_def]
  assume r: ?R
  then have sp: "SP \<notin> set (bytes_of (Name c))" using upper_not_SP by blast
  have nm: "name = bytes_of (Name c)"
    using r sp by (cases "Args c") (simp_all add: name_def takeWhile_SP)
  have bad: "\<not> (\<exists>b\<in>set name. b < 65 \<or> b > 90)" and ne: "name \<noteq> []" using r by (simp_all add: nm not_less)
  show "parseFrame (line @ [CR, LF]) = Inr c"
  proof (cases "Args c")
    case Nil
    then have "SP \<notin> set line" using r sp by simp
    then have "parseFrame (line @ [CR, LF]) = Inr \<lparr>Name = string_of name, Args = Args c\<rparr>"
      unfolding p using bad ne assms(2) Nil by (simp only: option.case if_True if_False)
    then show ?thesis by (simp add: nm)
  next
    case (Cons a as)
    have "parse_args (tl (join_args (Args c))) = Inr (Args c)"
      by (rule parse_args_join) (use r Cons in simp_all)
    moreover have "drop (length name + 1) line = tl (join_args (Args c))" using r Cons by (simp add: nm)
    moreover have "SP \<in> set line" using r Cons by simp
    ultimately have "parseFrame (line @ [CR, LF]) = Inr \<lparr>Name = string_of name, Args = Args c\<rparr>"
      unfolding p using bad ne assms(2) by (simp only: option.case if_True if_False map_sum.simps)
    then show ?thesis by (simp add: nm)
  qed
qed

lemma printable_iff: "printable b \<longleftrightarrow> 0x20 \<le> b \<and> b \<le> 0x7e \<and> b \<noteq> SP"
proof -
  have "0x21 \<le> b \<longleftrightarrow> 0x20 \<le> b \<and> b \<noteq> SP"
    by (simp add: word_le_nat_alt SP_def word_unat_eq_iff) linarith
  then show ?thesis by (auto simp: printable_def)
qed

lemma wf_command_line:
  "wf_command c \<longleftrightarrow> check_line (bytes_of (Name c) @ join_args (Args c)) = None \<and> Name c \<noteq> [] \<and>
     (\<forall>b\<in>set (bytes_of (Name c)). 65 \<le> b \<and> b \<le> 90) \<and> (\<forall>a\<in>set (Args c). a \<noteq> [] \<and> SP \<notin> set (bytes_of a))"
proof -
  have sp: "0x20 \<le> SP" "SP \<le> 0x7e" by (simp_all add: SP_def)
  have up: "0x20 \<le> b \<and> b \<le> 0x7e" if "65 \<le> b" "b \<le> 90" for b :: byte
    using that by (simp add: word_le_nat_alt)
  have "(\<forall>b\<in>set (join_args as). 0x20 \<le> b \<and> b \<le> 0x7e) \<and> (\<forall>a\<in>set as. a \<noteq> [] \<and> SP \<notin> set (bytes_of a)) \<longleftrightarrow>
      (\<forall>a\<in>set as. a \<noteq> [] \<and> (\<forall>b\<in>set (bytes_of a). printable b))" for as
    using sp by (induction as) (auto simp: printable_iff)
  note args = this [of "Args c"]
  show ?thesis unfolding wf_command_def check_line_None args [symmetric] set_append ball_Un using up by blast
qed

lemma parseFrame_iff: "parseFrame frame = Inr c \<longleftrightarrow> wf_command c \<and> frame = render c"
proof (cases "\<exists>line. line \<noteq> [] \<and> frame = line @ [CR, LF]")
  case True
  then obtain line where l: "line \<noteq> []" "frame = line @ [CR, LF]" by blast
  show ?thesis
  proof (cases "check_line line")
    case None
    show ?thesis unfolding l(2) parseFrame_line_iff [OF l(1) None] render_eq wf_command_line using None by auto
  next
    case (Some e)
    then show ?thesis unfolding l(2) parseFrame_line [OF l(1)] render_eq wf_command_line by fastforce
  qed
next
  case False
  then have "parseFrame frame = Inl MustEndWithCRLF" unfolding parseFrame_def using snoc_CRLF by metis
  moreover have "\<not> (wf_command c \<and> frame = render c)"
    using False [unfolded not_ex, rule_format, of "bytes_of (Name c) @ join_args (Args c)"]
    unfolding render_eq wf_command_def by auto
  ultimately show ?thesis by auto
qed

lemma SerializeCommand_wf:
  assumes "wf_command \<lparr>Name = name, Args = args\<rparr>"
  shows "SerializeCommand name args = Inr (render \<lparr>Name = name, Args = args\<rparr>)"
proof -
  have "ParseFrame (render \<lparr>Name = name, Args = args\<rparr>) = Inr \<lparr>Name = name, Args = args\<rparr>"
    using parseFrame_iff assms by (simp add: ParseFrame_def)
  then show ?thesis by (simp add: SerializeCommand_def foldl_args [simplified] render_eq Let_def)
qed

section \<open>The properties of frames\<close>

text \<open>
  (C21) The parser accepts a frame exactly when it is the canonical rendering of a well-formed command
  (a nonempty uppercase name and nonempty printable arguments without spaces), and returns that
  command.  So every accepted frame has one reading, and serialising a parsed command gives the same
  bytes back.
\<close>

theorem parse_frame_exact:
  "(ParseFrame frame = Inr c \<longleftrightarrow> wf_command c \<and> frame = render c) \<and>
   (ParseFrame frame = Inr c \<longrightarrow> SerializeCommand (Name c) (Args c) = Inr frame)"
  using parseFrame_iff [of frame c] SerializeCommand_wf [of "Name c" "Args c"] by (cases c) (auto simp: ParseFrame_def)

theorem parse_frame_exact_witness:
  "ParseFrame [71, 69, 84, 32, 49, 32, 45, 50, 13, 10] = Inr \<lparr>Name = ''GET'', Args = [''1'', ''-2'']\<rparr> \<and>
   SerializeCommand ''GET'' [''1'', ''-2''] = Inr [71, 69, 84, 32, 49, 32, 45, 50, 13, 10]"
proof -
  have "ParseFrame [71, 69, 84, 32, 49, 32, 45, 50, 13, 10] = Inr \<lparr>Name = ''GET'', Args = [''1'', ''-2'']\<rparr>"
    by code_simp
  then show ?thesis
    using parse_frame_exact [of "[71, 69, 84, 32, 49, 32, 45, 50, 13, 10]" "\<lparr>Name = ''GET'', Args = [''1'', ''-2'']\<rparr>"]
    by simp
qed

end
