(* ===== verification/Response.thy ===== *)
theory Response
  imports GoText
begin

text \<open>
  Responses (\<^verbatim>\<open>internal/protocol/response.go\<close>): their constructors and their bytes on the wire.
  \<open>response_stream_unique\<close> shows that a stream of responses can be read back in only one way.
\<close>

section \<open>The code\<close>

type_synonym responseKind = uint8

definition responseOK :: responseKind where "responseOK = 0"
definition responseError :: responseKind where "responseError = 1"
definition responseBulk :: responseKind where "responseBulk = 2"
definition responseArray :: responseKind where "responseArray = 3"

record Response =
  resp_kind :: responseKind
  resp_payload :: bytes
  resp_items :: "bytes list"

text \<open>\<^verbatim>\<open>strconv.Itoa\<close> and \<^verbatim>\<open>strconv.AppendInt\<close> of a length.\<close>

definition Itoa :: "nat \<Rightarrow> bytes" where
  "Itoa n = bytes_of (dec_digits n)"

definition CRLF :: bytes where
  "CRLF = [13, 10]"

definition bulk_item :: "bytes \<Rightarrow> bytes" where
  "bulk_item item = bytes_of ''$'' @ Itoa (length item) @ CRLF @ item @ CRLF"

definition response_Bytes :: "Response \<Rightarrow> bytes" where
  "response_Bytes r =
     (if resp_kind r = responseOK then
        bytes_of ''+OK'' @ (if length (resp_payload r) \<noteq> 0 then bytes_of '' '' @ resp_payload r else []) @ CRLF
      else if resp_kind r = responseError then bytes_of ''-ERR '' @ resp_payload r @ CRLF
      else if resp_kind r = responseBulk then bulk_item (resp_payload r)
      else if resp_kind r = responseArray then
        foldl (\<lambda>result item. result @ bulk_item item)
          (bytes_of ''*'' @ Itoa (length (resp_items r)) @ CRLF) (resp_items r)
      else bytes_of ''-ERR INTERNAL invalid response'' @ CRLF)"

definition okResponse :: "string \<Rightarrow> Response" where
  "okResponse detail = \<lparr>resp_kind = responseOK, resp_payload = bytes_of detail, resp_items = []\<rparr>"

definition errorResponse :: "string \<Rightarrow> string \<Rightarrow> Response" where
  "errorResponse code detail =
     \<lparr>resp_kind = responseError,
      resp_payload = bytes_of code @ (if detail \<noteq> [] then bytes_of '' '' @ bytes_of detail else []),
      resp_items = []\<rparr>"

definition bulkResponse :: "bytes \<Rightarrow> Response" where
  "bulkResponse payload = \<lparr>resp_kind = responseBulk, resp_payload = payload, resp_items = []\<rparr>"

definition arrayResponse :: "bytes list \<Rightarrow> Response" where
  "arrayResponse items = \<lparr>resp_kind = responseArray, resp_payload = [], resp_items = items\<rparr>"

section \<open>Reading a response back\<close>

text \<open>
  The constructors leave the unused field empty, and the text of status and error lines comes from
  fixed messages and decimal numbers, so it has no CR.
\<close>

definition wf_response :: "Response \<Rightarrow> bool" where
  "wf_response r \<longleftrightarrow>
     (resp_kind r = responseOK \<or> resp_kind r = responseError) \<and> 13 \<notin> set (resp_payload r) \<and> resp_items r = [] \<or>
     resp_kind r = responseBulk \<and> resp_items r = [] \<or>
     resp_kind r = responseArray \<and> resp_payload r = []"

lemma responseKinds_distinct [simp]:
  "responseOK \<noteq> responseError" "responseOK \<noteq> responseBulk" "responseOK \<noteq> responseArray"
  "responseError \<noteq> responseOK" "responseError \<noteq> responseBulk" "responseError \<noteq> responseArray"
  "responseBulk \<noteq> responseOK" "responseBulk \<noteq> responseError" "responseBulk \<noteq> responseArray"
  "responseArray \<noteq> responseOK" "responseArray \<noteq> responseError" "responseArray \<noteq> responseBulk"
  by (simp_all add: responseOK_def responseError_def responseBulk_def responseArray_def)

lemma CR_split_unique:
  "13 \<notin> set s \<Longrightarrow> 13 \<notin> set t \<Longrightarrow> s @ CRLF @ r = t @ CRLF @ r' \<longleftrightarrow> s = t \<and> r = (r' :: bytes)"
proof (induction s arbitrary: t)
  case Nil
  then show ?case by (cases t) (auto simp: CRLF_def)
next
  case (Cons b s)
  then show ?case by (cases t) (auto simp: CRLF_def)
qed

lemma Itoa_no_CR [simp]: "13 \<notin> set (Itoa n)"
proof
  assume "13 \<in> set (Itoa n)"
  then obtain c where c: "c \<in> set (dec_digits n)" "byte_of_char c = 13" by (auto simp: Itoa_def bytes_of_def)
  from c(2) have "(of_char c :: nat) = 13" using unat_byte_of_char [of c] by simp
  then show False using set_dec_digits [OF c(1)] by simp
qed

lemma Itoa_inject [simp]: "Itoa m = Itoa n \<longleftrightarrow> m = n"
  by (simp add: Itoa_def)

lemma bulk_item_unique: "bulk_item a @ r = bulk_item b @ r' \<longleftrightarrow> a = b \<and> r = r'"
proof
  assume "bulk_item a @ r = bulk_item b @ r'"
  then have "Itoa (length a) @ CRLF @ (a @ CRLF @ r) = Itoa (length b) @ CRLF @ (b @ CRLF @ r')"
    by (simp add: bulk_item_def)
  then have "length a = length b" "a @ CRLF @ r = b @ CRLF @ r'"
    using CR_split_unique [OF Itoa_no_CR Itoa_no_CR] by (metis Itoa_inject)+
  then show "a = b \<and> r = r'" by simp
qed simp

lemma foldl_items: "foldl (\<lambda>result item. result @ bulk_item item) acc items = acc @ concat (map bulk_item items)"
  by (induction items arbitrary: acc) simp_all

lemma items_unique:
  "length as = length bs \<Longrightarrow> concat (map bulk_item as) @ r = concat (map bulk_item bs) @ r' \<Longrightarrow> as = bs \<and> r = r'"
  by (induction as bs rule: list_induct2) (auto simp: bulk_item_unique)

lemma response_Bytes_simps:
  "resp_kind r = responseOK \<Longrightarrow> response_Bytes r =
     bytes_of ''+OK'' @ (if resp_payload r = [] then [] else bytes_of '' '' @ resp_payload r) @ CRLF"
  "resp_kind r = responseError \<Longrightarrow> response_Bytes r = bytes_of ''-ERR '' @ resp_payload r @ CRLF"
  "resp_kind r = responseBulk \<Longrightarrow> response_Bytes r = bulk_item (resp_payload r)"
  "resp_kind r = responseArray \<Longrightarrow> response_Bytes r =
     bytes_of ''*'' @ Itoa (length (resp_items r)) @ CRLF @ concat (map bulk_item (resp_items r))"
  by (simp_all add: response_Bytes_def foldl_items)

text \<open>The first byte tells the kind.\<close>

definition kind_byte :: "responseKind \<Rightarrow> byte" where
  "kind_byte k = (if k = responseOK then 43 else if k = responseError then 45 else if k = responseBulk then 36 else 42)"

lemma response_Bytes_hd:
  "wf_response r \<Longrightarrow> \<exists>tail. response_Bytes r = kind_byte (resp_kind r) # tail"
  by (auto simp: wf_response_def response_Bytes_simps kind_byte_def bulk_item_def bytes_of_def byte_of_char_def)

lemma response_kind_unique:
  assumes "wf_response a" "wf_response b" "response_Bytes a @ r = response_Bytes b @ r'"
  shows "resp_kind a = resp_kind b"
proof -
  have "kind_byte (resp_kind a) = kind_byte (resp_kind b)"
    using response_Bytes_hd [OF assms(1)] response_Bytes_hd [OF assms(2)] assms(3) by auto
  then show ?thesis using assms(1,2) by (auto simp: wf_response_def kind_byte_def)
qed

lemma response_unique:
  assumes "wf_response a" "wf_response b" "response_Bytes a @ r = response_Bytes b @ r'"
  shows "a = b \<and> r = r'"
proof -
  note k = response_kind_unique [OF assms]
  have sp: "13 \<notin> set (bytes_of '' '')" by (simp add: bytes_of_def byte_of_char_def)
  consider (ok) "resp_kind a = responseOK" | (err) "resp_kind a = responseError"
    | (bulk) "resp_kind a = responseBulk" | (arr) "resp_kind a = responseArray"
    using assms(1) by (auto simp: wf_response_def)
  then have "resp_payload a = resp_payload b \<and> resp_items a = resp_items b \<and> r = r'"
  proof cases
    case ok
    let ?t = "\<lambda>p. if p = [] then [] else bytes_of '' '' @ p"
    have n: "13 \<notin> set (resp_payload a)" "13 \<notin> set (resp_payload b)" "resp_items a = resp_items b"
      using assms(1,2) ok k by (auto simp: wf_response_def)
    have "?t (resp_payload a) @ CRLF @ r = ?t (resp_payload b) @ CRLF @ r'"
      using assms(3) ok k by (simp add: response_Bytes_simps split del: if_split)
    moreover have "13 \<notin> set (?t (resp_payload a))" "13 \<notin> set (?t (resp_payload b))" using n sp by auto
    ultimately have "?t (resp_payload a) = ?t (resp_payload b)" "r = r'" using CR_split_unique by blast+
    then show ?thesis using n(3) by (auto split: if_splits)
  next
    case err
    then have "resp_payload a @ CRLF @ r = resp_payload b @ CRLF @ r'" using assms(3) k by (simp add: response_Bytes_simps)
    then show ?thesis using CR_split_unique assms(1,2) err k by (auto simp: wf_response_def)
  next
    case bulk
    then show ?thesis using assms k bulk_item_unique by (auto simp: wf_response_def response_Bytes_simps)
  next
    case arr
    then have "Itoa (length (resp_items a)) @ CRLF @ (concat (map bulk_item (resp_items a)) @ r) =
               Itoa (length (resp_items b)) @ CRLF @ (concat (map bulk_item (resp_items b)) @ r')"
      using assms(3) k by (simp add: response_Bytes_simps)
    then have l: "length (resp_items a) = length (resp_items b)"
      and c: "concat (map bulk_item (resp_items a)) @ r = concat (map bulk_item (resp_items b)) @ r'"
      unfolding CR_split_unique [OF Itoa_no_CR Itoa_no_CR] Itoa_inject by blast+
    have "resp_payload a = []" "resp_payload b = []" using assms(1,2) arr k by (auto simp: wf_response_def)
    then show ?thesis using items_unique [OF l c] by simp
  qed
  then show ?thesis using k by (auto intro: Response.equality)
qed

lemma wf_responses:
  "wf_response (bulkResponse payload)" "wf_response (arrayResponse items)"
  "CHR 0x0D \<notin> set detail \<Longrightarrow> wf_response (okResponse detail)"
  "CHR 0x0D \<notin> set code \<Longrightarrow> CHR 0x0D \<notin> set detail \<Longrightarrow> wf_response (errorResponse code detail)"
proof -
  have cr: "13 \<in> set (bytes_of s) \<Longrightarrow> CHR 0x0D \<in> set s" for s
  proof -
    assume "13 \<in> set (bytes_of s)"
    then obtain c where "c \<in> set s" "byte_of_char c = 13" by (auto simp: bytes_of_def)
    moreover from this(2) have "char_of_byte 13 = c" by (metis char_of_byte_of_char)
    moreover have "char_of_byte 13 = CHR 0x0D" by code_simp
    ultimately show ?thesis by simp
  qed
  show "wf_response (bulkResponse payload)" "wf_response (arrayResponse items)"
    by (simp_all add: wf_response_def bulkResponse_def arrayResponse_def)
  show "CHR 0x0D \<notin> set detail \<Longrightarrow> wf_response (okResponse detail)"
    using cr by (auto simp: wf_response_def okResponse_def)
  have "13 \<notin> set (bytes_of '' '')" by (simp add: bytes_of_def byte_of_char_def)
  then show "CHR 0x0D \<notin> set code \<Longrightarrow> CHR 0x0D \<notin> set detail \<Longrightarrow> wf_response (errorResponse code detail)"
    using cr by (auto simp: wf_response_def errorResponse_def)
qed

section \<open>The properties of responses\<close>

text \<open>
  (C22) Responses are self-delimiting: when two streams of bytes that begin with a response are equal,
  the responses are equal, with their kind, payload and items, and so is the rest of the stream.  So a
  pipelined stream of responses has one reading, whatever bytes the bulk payloads hold.
\<close>

theorem response_stream_unique:
  assumes "wf_response a" "wf_response b" "response_Bytes a @ r = response_Bytes b @ r'"
  shows "a = b \<and> r = r'"
  using assms by (rule response_unique)

theorem response_stream_unique_witness:
  "response_Bytes (bulkResponse [13, 10]) @ [43] =
     response_Bytes \<lparr>resp_kind = 2, resp_payload = [13, 10], resp_items = []\<rparr> @ [43] \<and>
   bulkResponse [13, 10] = \<lparr>resp_kind = 2, resp_payload = [13, 10], resp_items = []\<rparr>"
proof -
  have e: "response_Bytes (bulkResponse [13, 10]) @ [43] =
      response_Bytes \<lparr>resp_kind = 2, resp_payload = [13, 10], resp_items = []\<rparr> @ [43]" by code_simp
  have wf: "wf_response \<lparr>resp_kind = 2, resp_payload = [13, 10], resp_items = []\<rparr>" by code_simp
  show ?thesis using e response_stream_unique [OF wf_responses(1) wf e] by blast
qed

end
