(* ===== verification/Names.thy ===== *)
theory Names
  imports Geometry "HOL-Library.Multiset"
begin

text \<open>
  Where a chunk lives on disk and how a directory scan finds it again
  (\<^verbatim>\<open>fs_split/format.go\<close>: \<^verbatim>\<open>signedName\<close>, \<^verbatim>\<open>chunkPath\<close>; \<^verbatim>\<open>fs_split/scan.go\<close>: the name parsers and the
  bounded candidate set).  A path is the list of its components below the data directory.
  \<open>parseChunkFileName_iff\<close> makes names and coordinates one-to-one; \<open>bounded_coords_spec\<close> shows that
  the candidate set returns the smallest coordinates behind the cursor, whatever the directory order.
\<close>

section \<open>The code\<close>

type_synonym path = "string list"

definition signedName :: "int64 \<Rightarrow> string" where
  "signedName v =
     (if sint v < 0 then ''n'' @ FormatUint (- (v + 1) + 1) else ''p'' @ FormatInt v)"

definition chunkFileName :: "Coord \<Rightarrow> string" where
  "chunkFileName c = ''c_'' @ signedName (coord_X c) @ ''_'' @ signedName (coord_Y c) @ ''.rdb''"

definition largeDirName :: "Coord \<Rightarrow> string" where
  "largeDirName c = ''l_'' @ signedName (coord_X c) @ ''_'' @ signedName (coord_Y c)"

definition chunkPath :: "Geometry \<Rightarrow> Coord \<Rightarrow> path" where
  "chunkPath g coord = [largeDirName (map_LargeChunk (ChunkToLargeChunk g coord)), chunkFileName coord]"

definition versionFileSuffix :: string where
  "versionFileSuffix = ''.ver''"

definition chunkVersionPath :: "Geometry \<Rightarrow> Coord \<Rightarrow> path" where
  "chunkVersionPath g coord =
     [largeDirName (map_LargeChunk (ChunkToLargeChunk g coord)), chunkFileName coord @ versionFileSuffix]"

definition parseSignedName :: "string \<Rightarrow> int64 option" where
  "parseSignedName v =
     (if length v < 2 then None
      else case ParseUint (tl v) of
        None \<Rightarrow> None
      | Some magnitude \<Rightarrow>
          if hd v = CHR ''p'' then (if magnitude > MaxInt64 then None else Some magnitude)
          else if hd v = CHR ''n'' then
            (if magnitude = 0 \<or> magnitude > MaxInt64 + 1 then None
             else if magnitude = MaxInt64 + 1 then Some (- MaxInt64 - 1)
             else Some (- magnitude))
          else None)"

definition parseCoordinateName :: "string \<Rightarrow> string \<Rightarrow> string \<Rightarrow> Coord option" where
  "parseCoordinateName name prefix suffix =
     (if \<not> strings_HasPrefix name prefix \<or> \<not> strings_HasSuffix name suffix then None
      else let coordinates = strings_TrimSuffix (strings_TrimPrefix name prefix) suffix;
               (xText, yText, found) = strings_Cut coordinates (CHR ''_'')
           in if \<not> found \<or> strings_ContainsChar yText (CHR ''_'') then None
              else case parseSignedName xText of
                None \<Rightarrow> None
              | Some x \<Rightarrow> (case parseSignedName yText of None \<Rightarrow> None | Some y \<Rightarrow> Some (Coord x y)))"

definition parseChunkFileName :: "string \<Rightarrow> Coord option" where
  "parseChunkFileName name =
     (case parseCoordinateName name ''c_'' ''.rdb'' of
        None \<Rightarrow> None
      | Some coord \<Rightarrow> if name \<noteq> chunkFileName coord then None else Some coord)"

text \<open>
  The bounded candidate set.  The Go map of coordinates is a list of distinct coordinates in some
  iteration order.
\<close>

record boundedChunkCoords =
  bcc_hasCursor :: bool
  bcc_cursor :: Coord
  bcc_limit :: nat
  bcc_coords :: "Coord list"
  bcc_overflow :: bool

definition newBoundedChunkCoords :: "bool \<Rightarrow> Coord \<Rightarrow> nat \<Rightarrow> boundedChunkCoords" where
  "newBoundedChunkCoords hasCursor cursor limit =
     \<lparr>bcc_hasCursor = hasCursor, bcc_cursor = cursor, bcc_limit = limit, bcc_coords = [], bcc_overflow = False\<rparr>"

fun largest_loop :: "Coord option \<Rightarrow> Coord list \<Rightarrow> Coord option" where
  "largest_loop largest [] = largest"
| "largest_loop largest (candidate # rest) =
     largest_loop (case largest of
                     None \<Rightarrow> Some candidate
                   | Some l \<Rightarrow> if chunkCoordLess l candidate then Some candidate else Some l) rest"

text \<open>With no candidate at all \<^verbatim>\<open>largest\<close> stays the zero coordinate.\<close>

definition bcc_insert :: "boundedChunkCoords \<Rightarrow> Coord \<Rightarrow> boundedChunkCoords" where
  "bcc_insert c coord =
     (if bcc_hasCursor c \<and> \<not> chunkCoordLess (bcc_cursor c) coord then c
      else if coord \<in> set (bcc_coords c) then c
      else if length (bcc_coords c) < bcc_limit c then c\<lparr>bcc_coords := bcc_coords c @ [coord]\<rparr>
      else let largest = (case largest_loop None (bcc_coords c) of None \<Rightarrow> Coord 0 0 | Some l \<Rightarrow> l);
               c = c\<lparr>bcc_overflow := True\<rparr>
           in if \<not> chunkCoordLess coord largest then c
              else c\<lparr>bcc_coords := removeAll largest (bcc_coords c) @ [coord]\<rparr>)"

text \<open>\<^verbatim>\<open>sorted\<close>: insertion sort by adjacent swaps; \<open>sift\<close> is the inner loop.\<close>

primrec sift :: "Coord list \<Rightarrow> nat \<Rightarrow> Coord list" where
  "sift r 0 = r"
| "sift r (Suc k) =
     (if chunkCoordLess (r ! Suc k) (r ! k) then sift (r[Suc k := r ! k, k := r ! Suc k]) k else r)"

definition bcc_sorted :: "boundedChunkCoords \<Rightarrow> Coord list" where
  "bcc_sorted c = foldl sift (bcc_coords c) [1..<length (bcc_coords c)]"

section \<open>Names\<close>

lemma signedName_digits:
  "signedName v = (if sint v < 0 then CHR ''n'' # dec_digits (nat (- sint v)) else CHR ''p'' # dec_digits (nat (sint v)))"
proof (cases "sint v < 0")
  case True
  have e: "- (v + 1) + 1 = - v" by simp
  have "unat (- v) = nat (- sint v)"
  proof -
    have w: "- v = word_of_int (- sint v)" by simp
    have "uint (- v) = - sint v" unfolding w uint_word_of_int
      using True sint_bounds64 [of v] by (intro mod_pos_pos_trivial) simp_all
    then show ?thesis by (metis nat_int unat_eq_nat_uint)
  qed
  then show ?thesis using True by (simp add: signedName_def FormatUint_def e)
qed (simp add: signedName_def FormatInt_def)

lemma no_underscore_digits: "CHR ''_'' \<notin> set (dec_digits n)"
  using set_dec_digits [of "CHR ''_''" n] by auto

lemma no_underscore_signedName [simp]: "CHR ''_'' \<notin> set (signedName v)"
  by (simp add: signedName_digits no_underscore_digits)

lemma parseSignedName_digits:
  assumes "ParseUint (dec_digits n) = Some m"
  shows "parseSignedName (CHR ''n'' # dec_digits n) =
      (if m = 0 \<or> m > MaxInt64 + 1 then None else Some (- m))"
    and "parseSignedName (CHR ''p'' # dec_digits n) = (if m > MaxInt64 then None else Some m)"
proof -
  have "\<not> length (c # dec_digits n) < 2" for c by (cases "dec_digits n") simp_all
  then show "parseSignedName (CHR ''n'' # dec_digits n) = (if m = 0 \<or> m > MaxInt64 + 1 then None else Some (- m))"
    and "parseSignedName (CHR ''p'' # dec_digits n) = (if m > MaxInt64 then None else Some m)"
    by (simp_all only: parseSignedName_def list.sel assms if_False option.case) simp_all
qed

lemma parseSignedName_signedName [go_codec]: "parseSignedName (signedName v) = Some v"
proof (cases "sint v < 0")
  case True
  define n where "n = nat (- sint v)"
  define m where "m = (of_nat n :: uint64)"
  have n: "0 < n" "n \<le> 2 ^ 63" "int n = - sint v" using True sint_bounds64 [of v] by (auto simp: n_def)
  have u: "unat m = n" using n(2) unfolding m_def by (subst unat_of_nat) simp
  have "- m = of_int (- int n)" by (simp add: m_def)
  also have "\<dots> = v" unfolding n(3) by simp
  finally have v: "- m = v" .
  have k: "unat (MaxInt64 + 1) = 2 ^ 63" by (simp add: MaxInt64_def)
  have z: "m \<noteq> 0" using u n(1) by auto
  have g: "\<not> m > MaxInt64 + 1" unfolding word_less_nat_alt u k using n(2) by simp
  have p: "ParseUint (dec_digits n) = Some m" using n(2) by (simp add: ParseUint_dec_digits m_def)
  have s: "signedName v = CHR ''n'' # dec_digits n" unfolding signedName_digits n_def using True by (rule if_P)
  show ?thesis unfolding s parseSignedName_digits(1) [OF p] v using z g by (simp only: simp_thms if_False)
next
  case False
  define n where "n = nat (sint v)"
  define m where "m = (of_nat n :: uint64)"
  have n: "n < 2 ^ 63" "int n = sint v" using False sint_bounds64 [of v] by (auto simp: n_def)
  have u: "unat m = n" using n(1) unfolding m_def by (subst unat_of_nat) simp
  have "m = of_int (int n)" by (simp add: m_def)
  also have "\<dots> = v" unfolding n(2) by simp
  finally have v: "m = v" .
  have g: "\<not> m > MaxInt64" unfolding word_less_nat_alt unat_MaxInt64 u using n(1) by simp
  have p: "ParseUint (dec_digits n) = Some m" using n(1) by (simp add: ParseUint_dec_digits m_def)
  have s: "signedName v = CHR ''p'' # dec_digits n" unfolding signedName_digits n_def using False by (rule if_not_P)
  show ?thesis unfolding s parseSignedName_digits(2) [OF p] using g by (simp only: if_False v)
qed

lemma signedName_inject [simp]: "signedName v = signedName w \<longleftrightarrow> v = w"
  by (metis parseSignedName_signedName option.inject)

lemma parseCoordinateName_name [go_codec]:
  "parseCoordinateName (prefix @ signedName x @ ''_'' @ signedName y @ suffix) prefix suffix = Some (Coord x y)"
proof -
  have "strings_HasSuffix (prefix @ signedName x @ ''_'' @ signedName y @ suffix) suffix"
    using HasSuffix_append [of "prefix @ signedName x @ ''_'' @ signedName y" suffix] by simp
  moreover have "strings_TrimSuffix (signedName x @ ''_'' @ signedName y @ suffix) suffix = signedName x @ ''_'' @ signedName y"
    using TrimSuffix_append [of "signedName x @ ''_'' @ signedName y" suffix] by simp
  ultimately show ?thesis
    by (simp add: parseCoordinateName_def strings_ContainsChar_def parseSignedName_signedName)
qed

lemma parseChunkFileName_iff: "parseChunkFileName name = Some c \<longleftrightarrow> name = chunkFileName c"
proof
  show "parseChunkFileName name = Some c \<Longrightarrow> name = chunkFileName c"
    by (auto simp: parseChunkFileName_def split: option.splits if_splits)
  have "parseCoordinateName (chunkFileName c) ''c_'' ''.rdb'' = Some c"
    using parseCoordinateName_name [of "''c_''" "coord_X c" "coord_Y c" "''.rdb''"] by (simp add: chunkFileName_def)
  then show "name = chunkFileName c \<Longrightarrow> parseChunkFileName name = Some c" by (simp add: parseChunkFileName_def)
qed

lemma chunkFileName_inject [simp]: "chunkFileName a = chunkFileName b \<longleftrightarrow> a = b"
  by (metis parseChunkFileName_iff option.inject)

lemma largeDirName_inject [simp]: "largeDirName a = largeDirName b \<longleftrightarrow> a = b"
proof -
  have "parseCoordinateName (largeDirName c) ''l_'' [] = Some c" for c
    using parseCoordinateName_name [of "''l_''" "coord_X c" "coord_Y c" "[]"] by (simp add: largeDirName_def)
  then show ?thesis by (metis option.inject)
qed

lemma chunkPath_inject [simp]: "chunkPath g a = chunkPath g b \<longleftrightarrow> a = b"
  by (auto simp: chunkPath_def)

lemma chunkVersionPath_inject [simp]: "chunkVersionPath g a = chunkVersionPath g b \<longleftrightarrow> a = b"
  by (auto simp: chunkVersionPath_def)

lemma chunk_version_paths_differ [simp]: "chunkPath g a \<noteq> chunkVersionPath g b" "chunkVersionPath g b \<noteq> chunkPath g a"
proof -
  have "last (chunkFileName a) = CHR ''b''" "last (chunkFileName b @ versionFileSuffix) = CHR ''r''"
    by (simp_all add: chunkFileName_def versionFileSuffix_def)
  then have "chunkFileName a \<noteq> chunkFileName b @ versionFileSuffix" by auto
  then show "chunkPath g a \<noteq> chunkVersionPath g b" "chunkVersionPath g b \<noteq> chunkPath g a"
    by (auto simp: chunkPath_def chunkVersionPath_def)
qed

section \<open>The bounded candidate set\<close>

lemma chunkCoordLess_iff: "chunkCoordLess a b \<longleftrightarrow> a < b"
  by (simp add: less_Coord_def)

lemma largest_loop_Max: "largest_loop (Some l) xs = Some (Max (insert l (set xs)))"
proof (induction xs arbitrary: l)
  case (Cons x xs)
  have "Max (insert l (insert x (set xs))) = Max (insert (max l x) (set xs))"
    by (cases "set xs = {}") (simp_all add: Max_insert max.assoc)
  moreover have "(if l < x then x else l) = max l x" by (auto simp: max_def)
  ultimately show ?case using Cons by (simp add: chunkCoordLess_iff if_distrib [of Some, symmetric])
qed simp

lemma largest_loop_None: "xs \<noteq> [] \<Longrightarrow> largest_loop None xs = Some (Max (set xs))"
  by (cases xs) (simp_all add: largest_loop_Max)

lemma sift_insert:
  "\<exists>ws. sift (ys @ x # zs) (length ys) = ws @ zs \<and> mset ws = mset (x # ys) \<and> (sorted ys \<longrightarrow> sorted ws)"
proof (induction ys arbitrary: zs rule: rev_induct)
  case (snoc y ys)
  show ?case
  proof (cases "x < y")
    case True
    have "sift ((ys @ [y]) @ x # zs) (length (ys @ [y])) = sift (ys @ x # y # zs) (length ys)"
      using True by (simp add: chunkCoordLess_iff nth_append list_update_append)
    moreover obtain ws where ws: "sift (ys @ x # y # zs) (length ys) = ws @ y # zs" "mset ws = mset (x # ys)"
      "sorted ys \<longrightarrow> sorted ws" using snoc.IH [of "y # zs"] by auto
    moreover have "sorted (ws @ [y])" if "sorted (ys @ [y])"
      using that ws(2,3) True mset_eq_setD [OF ws(2)] by (auto simp: sorted_append)
    ultimately show ?thesis by (intro exI [of _ "ws @ [y]"]) simp
  next
    case False
    then have "sift ((ys @ [y]) @ x # zs) (length (ys @ [y])) = (ys @ [y]) @ x # zs"
      by (simp add: chunkCoordLess_iff nth_append)
    moreover have "sorted (ys @ [y, x])" if "sorted (ys @ [y])" using that False by (force simp: sorted_append)
    ultimately show ?thesis by (intro exI [of _ "ys @ [y, x]"]) simp
  qed
qed simp

lemma sift_loop:
  "n \<le> length xs \<Longrightarrow> \<exists>ws. foldl sift xs [1..<n] = ws @ drop n xs \<and> mset ws = mset (take n xs) \<and> sorted ws"
proof (induction n)
  case (Suc n)
  then obtain ws where ws: "foldl sift xs [1..<n] = ws @ drop n xs" "mset ws = mset (take n xs)" "sorted ws" by auto
  show ?case
  proof (cases n)
    case 0
    then show ?thesis using Suc by (intro exI [of _ "take 1 xs"]) (cases xs, auto)
  next
    case (Suc m)
    have n: "n < length xs" using Suc.prems by simp
    have l: "length ws = n" using mset_eq_length [OF ws(2)] n by simp
    have "foldl sift xs [1..<Suc n] = sift (ws @ xs ! n # drop (Suc n) xs) (length ws)"
      using ws(1) n l Suc by (simp add: Cons_nth_drop_Suc)
    then show ?thesis using sift_insert [of ws "xs ! n" "drop (Suc n) xs"] ws(2,3) n
      by (auto simp: take_Suc_conv_app_nth)
  qed
qed simp

lemma bcc_sorted_eq:
  assumes "distinct (bcc_coords c)"
  shows "bcc_sorted c = sorted_list_of_set (set (bcc_coords c))"
proof -
  obtain ws where ws: "bcc_sorted c = ws" "mset ws = mset (bcc_coords c)" "sorted ws"
    using sift_loop [of "length (bcc_coords c)" "bcc_coords c"] by (auto simp: bcc_sorted_def)
  have "distinct ws" "set ws = set (bcc_coords c)"
    using assms ws(2) mset_eq_imp_distinct_iff mset_eq_setD by metis+
  with ws show ?thesis by (metis sorted_list_of_set.idem_if_sorted_distinct)
qed

text \<open>The candidates are a lower part of the admissible coordinates seen so far, at most \<open>limit\<close> of them.\<close>

definition admissible :: "boundedChunkCoords \<Rightarrow> Coord \<Rightarrow> bool" where
  "admissible c x \<longleftrightarrow> (bcc_hasCursor c \<longrightarrow> bcc_cursor c < x)"

definition bcc_inv :: "boundedChunkCoords \<Rightarrow> Coord set \<Rightarrow> bool" where
  "bcc_inv c A \<longleftrightarrow> finite A \<and> distinct (bcc_coords c) \<and> set (bcc_coords c) \<subseteq> A \<and>
     length (bcc_coords c) = min (bcc_limit c) (card A) \<and>
     (\<forall>a\<in>A - set (bcc_coords c). \<forall>s\<in>set (bcc_coords c). s < a) \<and> (bcc_overflow c \<longleftrightarrow> bcc_limit c < card A)"

lemma bcc_insert_params:
  "bcc_limit (bcc_insert c x) = bcc_limit c" "admissible (bcc_insert c x) = admissible c"
  by (auto simp: bcc_insert_def Let_def admissible_def fun_eq_iff)

lemma bcc_insert_full:
  assumes "bcc_inv c A" "0 < bcc_limit c" "x \<notin> set (bcc_coords c)" "length (bcc_coords c) = bcc_limit c" "admissible c x"
  shows "bcc_inv (bcc_insert c x) (insert x A)"
proof -
  let ?S = "set (bcc_coords c)" and ?m = "Max (set (bcc_coords c))"
  have i: "finite A" "distinct (bcc_coords c)" "?S \<subseteq> A" "\<And>a s. a \<in> A - ?S \<Longrightarrow> s \<in> ?S \<Longrightarrow> s < a"
    using assms(1) by (auto simp: bcc_inv_def)
  have ne: "bcc_coords c \<noteq> []" using assms(2,4) by auto
  then have m: "?m \<in> ?S" "\<And>s. s \<in> ?S \<Longrightarrow> s \<le> ?m" by simp_all
  have card: "bcc_limit c < card (insert x A)"
  proof -
    have "Suc (bcc_limit c) = card (insert x ?S)" using assms(3,4) i(2) by (simp add: distinct_card)
    also have "\<dots> \<le> card (insert x A)" using i by (intro card_mono) auto
    finally show ?thesis by simp
  qed
  have eq: "bcc_insert c x = (let c = c\<lparr>bcc_overflow := True\<rparr> in
      if x < ?m then c\<lparr>bcc_coords := removeAll ?m (bcc_coords c) @ [x]\<rparr> else c)"
    using assms(3-5) ne by (auto simp: bcc_insert_def admissible_def chunkCoordLess_iff largest_loop_None Let_def)
  show ?thesis
  proof (cases "x < ?m")
    case True
    have len: "length (removeAll ?m (bcc_coords c)) = length (bcc_coords c) - 1"
      using i(2) m(1) by (simp add: distinct_remove1_removeAll [symmetric] length_remove1)
    have "s < a" if "a \<in> insert x A - insert x (?S - {?m})" "s \<in> insert x (?S - {?m})" for a s
    proof -
      have "a = ?m \<or> a \<in> A - ?S" using that(1) by auto
      moreover have "s \<le> ?m \<and> s \<noteq> ?m" using that(2) True m(2) by auto
      ultimately show ?thesis using i(4) [OF _ m(1), of a] by auto
    qed
    then show ?thesis using True eq i len card assms(2,3,4) by (auto simp: bcc_inv_def Let_def distinct_removeAll)
  next
    case False
    have "s < x" if "s \<in> ?S" for s using that m(2) False assms(3) by (metis order_le_imp_less_or_eq order_less_le_trans not_le)
    then show ?thesis using False eq i card assms(3,4) by (auto simp: bcc_inv_def Let_def)
  qed
qed

lemma bcc_insert_inv:
  assumes "bcc_inv c A" "0 < bcc_limit c"
  shows "bcc_inv (bcc_insert c x) (if admissible c x then insert x A else A)"
proof -
  let ?S = "set (bcc_coords c)"
  consider (skip) "\<not> admissible c x" | (old) "admissible c x" "x \<in> ?S"
    | (room) "admissible c x" "x \<notin> ?S" "length (bcc_coords c) < bcc_limit c"
    | (full) "admissible c x" "x \<notin> ?S" "length (bcc_coords c) = bcc_limit c"
    using assms(1) by (force simp: bcc_inv_def)
  then show ?thesis
  proof cases
    case room
    then have "card A = length (bcc_coords c)" using assms(1) by (simp add: bcc_inv_def min_def split: if_splits)
    moreover have "finite A" "?S \<subseteq> A" "card ?S = length (bcc_coords c)"
      using assms(1) by (simp_all add: bcc_inv_def distinct_card)
    ultimately have S: "?S = A" by (metis card_subset_eq)
    have "bcc_insert c x = c\<lparr>bcc_coords := bcc_coords c @ [x]\<rparr>"
      using room by (auto simp: bcc_insert_def admissible_def chunkCoordLess_iff)
    then show ?thesis using room assms(1) S by (auto simp: bcc_inv_def)
  next
    case full
    then show ?thesis using bcc_insert_full [OF assms full(2,3,1)] by simp
  next
    case old
    then have "insert x A = A" using assms(1) by (auto simp: bcc_inv_def)
    then show ?thesis using old assms(1) by (simp add: bcc_insert_def)
  next
    case skip
    then show ?thesis using assms(1) by (auto simp: bcc_insert_def admissible_def chunkCoordLess_iff)
  qed
qed

lemma bcc_fold_inv:
  assumes "bcc_inv c A" "0 < bcc_limit c"
  shows "bcc_inv (foldl bcc_insert c xs) (A \<union> {x \<in> set xs. admissible c x})"
    and "bcc_limit (foldl bcc_insert c xs) = bcc_limit c"
proof -
  have "bcc_inv (foldl bcc_insert c xs) (A \<union> {x \<in> set xs. admissible c x}) \<and> bcc_limit (foldl bcc_insert c xs) = bcc_limit c"
    using assms
  proof (induction xs arbitrary: c A)
    case (Cons x xs)
    have "A \<union> {y \<in> set (x # xs). admissible c y} = (if admissible c x then insert x A else A) \<union> {y \<in> set xs. admissible c y}"
      by auto
    then show ?case using Cons.IH [OF bcc_insert_inv [OF Cons.prems, of x]] Cons.prems(2) by (simp add: bcc_insert_params)
  qed simp
  then show "bcc_inv (foldl bcc_insert c xs) (A \<union> {x \<in> set xs. admissible c x})"
    and "bcc_limit (foldl bcc_insert c xs) = bcc_limit c" by blast+
qed

lemma sorted_list_of_lower_part:
  assumes "finite A" "S \<subseteq> A" "\<And>a s. a \<in> A - S \<Longrightarrow> s \<in> S \<Longrightarrow> s < (a :: Coord)"
  shows "sorted_list_of_set A = sorted_list_of_set S @ sorted_list_of_set (A - S)"
proof -
  have f: "finite S" using assms finite_subset by blast
  show ?thesis
    by (rule sorted_distinct_set_unique) (use assms f in \<open>auto simp: sorted_append less_imp_le\<close>)
qed

lemma bounded_coords_spec:
  fixes xs hasCursor cursor limit
  assumes "0 < limit"
  defines "A \<equiv> {x \<in> set xs. hasCursor \<longrightarrow> cursor < x}"
    and "c \<equiv> foldl bcc_insert (newBoundedChunkCoords hasCursor cursor limit) xs"
  shows "bcc_sorted c = take limit (sorted_list_of_set A)" and "bcc_overflow c \<longleftrightarrow> limit < card A"
proof -
  let ?n = "newBoundedChunkCoords hasCursor cursor limit"
  have "bcc_inv ?n {}" by (simp add: bcc_inv_def newBoundedChunkCoords_def)
  moreover have a: "admissible ?n x \<longleftrightarrow> (hasCursor \<longrightarrow> cursor < x)" "bcc_limit ?n = limit" for x
    by (simp_all add: admissible_def newBoundedChunkCoords_def)
  ultimately have i: "bcc_inv c A" and l: "bcc_limit c = limit"
    using bcc_fold_inv [of ?n "{}" xs] assms(1) by (simp_all add: A_def c_def)
  then show "bcc_overflow c \<longleftrightarrow> limit < card A" by (simp add: bcc_inv_def)
  have d: "distinct (bcc_coords c)" using i by (simp add: bcc_inv_def)
  have p: "sorted_list_of_set A = sorted_list_of_set (set (bcc_coords c)) @ sorted_list_of_set (A - set (bcc_coords c))"
    by (rule sorted_list_of_lower_part) (use i in \<open>auto simp: bcc_inv_def\<close>)
  have k: "length (sorted_list_of_set (set (bcc_coords c))) = min limit (card A)"
    using i d l by (simp add: bcc_inv_def distinct_card)
  show "bcc_sorted c = take limit (sorted_list_of_set A)"
  proof (cases "limit \<le> card A")
    case True
    then show ?thesis unfolding bcc_sorted_eq [OF d] p using k by simp
  next
    case False
    then have "set (bcc_coords c) = A" using i d l card_subset_eq [of A "set (bcc_coords c)"]
      by (simp add: bcc_inv_def distinct_card)
    then show ?thesis using bcc_sorted_eq [OF d] k False by simp
  qed
qed

section \<open>The properties of names and scans\<close>

text \<open>
  (C23) Chunk names and coordinates correspond one to one over the whole 64-bit range, negative
  coordinates and the smallest one included: a file name is accepted by the scan exactly when it is the
  canonical name of the coordinate it is read as, distinct chunks never share a chunk or version
  file, and no chunk file is another chunk's version file.
\<close>

theorem chunk_names_exact:
  "(parseChunkFileName name = Some c \<longleftrightarrow> name = chunkFileName c) \<and>
   (chunkPath g a = chunkPath g b \<longleftrightarrow> a = b) \<and>
   (chunkVersionPath g a = chunkVersionPath g b \<longleftrightarrow> a = b) \<and>
   chunkPath g a \<noteq> chunkVersionPath g b"
  by (simp add: parseChunkFileName_iff)

text \<open>
  (C24) Inserting any sequence of coordinates, in any order and with repetitions, into the bounded
  candidate set with a positive limit leaves exactly the \<open>limit\<close> smallest distinct coordinates
  strictly behind the cursor; they are returned in ascending order, and the overflow flag tells
  exactly whether further ones were seen.
\<close>

theorem scan_candidates_exact:
  assumes "0 < limit"
  shows "let c = foldl bcc_insert (newBoundedChunkCoords hasCursor cursor limit) xs;
             A = {x \<in> set xs. hasCursor \<longrightarrow> chunkCoordLess cursor x}
         in bcc_sorted c = take limit (sorted_list_of_set A) \<and> (bcc_overflow c \<longleftrightarrow> limit < card A)"
  using bounded_coords_spec [OF assms, where xs = xs and hasCursor = hasCursor and cursor = cursor]
  by (simp add: Let_def chunkCoordLess_iff)

theorem scan_candidates_exact_witness:
  "let c = foldl bcc_insert (newBoundedChunkCoords True (Coord 0 0) 2) [Coord 5 0, Coord 1 1, Coord 0 0, Coord 1 (- 3)]
   in bcc_sorted c = [Coord 1 (- 3), Coord 1 1] \<and> bcc_overflow c \<and>
      take 2 (sorted_list_of_set {x \<in> set [Coord 5 0, Coord 1 1, Coord 0 0, Coord 1 (- 3)]. chunkCoordLess (Coord 0 0) x})
        = [Coord 1 (- 3), Coord 1 1]"
proof -
  let ?c = "foldl bcc_insert (newBoundedChunkCoords True (Coord 0 0) 2) [Coord 5 0, Coord 1 1, Coord 0 0, Coord 1 (- 3)]"
  have r: "bcc_sorted ?c = [Coord 1 (- 3), Coord 1 1]" "bcc_overflow ?c" by code_simp+
  show ?thesis
    using r scan_candidates_exact [of 2 True "Coord 0 0" "[Coord 5 0, Coord 1 1, Coord 0 0, Coord 1 (- 3)]"]
    unfolding Let_def by simp
qed

end
