(* ===== verification/Checksum.thy ===== *)
theory Checksum
  imports Prelude
begin

text \<open>
  What the IEEE CRC-32 that seals every file of the store detects: two byte strings of the same
  length that differ in exactly one byte have different checksums, so \<open>sealed_change_detected\<close>:
  changing one byte of a sealed record, in its body or in its checksum, always breaks the seal.
\<close>

section \<open>The checksum step is injective\<close>

definition crc_bit :: "uint32 \<Rightarrow> uint32" where
  "crc_bit c = (if bit c 0 then 0xEDB88320 XOR drop_bit 1 c else drop_bit 1 c)"

lemma crc_shift_crc_bit: "crc_shift (Suc n) c = crc_shift n (crc_bit c)"
  by (simp add: crc_bit_def)

lemma bit_crc_bit: "bit (crc_bit c) n \<longleftrightarrow> (bit c (Suc n) \<noteq> (bit c 0 \<and> bit (0xEDB88320 :: uint32) n))"
  by (auto simp: crc_bit_def bit_xor_iff bit_drop_bit_eq)

lemma crc_bit_inject: "crc_bit x = crc_bit y \<Longrightarrow> x = y"
proof -
  assume e: "crc_bit x = crc_bit y"
  have top: "bit (0xEDB88320 :: uint32) 31" by code_simp
  have "\<not> bit x 32" "\<not> bit y 32" by (auto dest: bit_imp_le_length)
  then have zero: "bit x 0 \<longleftrightarrow> bit y 0"
    using bit_crc_bit [of x 31] bit_crc_bit [of y 31] e top by simp
  show "x = y"
  proof (rule bit_word_eqI)
    fix n
    show "bit x n \<longleftrightarrow> bit y n"
      using bit_crc_bit [of x "n - 1"] bit_crc_bit [of y "n - 1"] e zero by (cases n) auto
  qed
qed

lemma crc_shift_inject: "crc_shift n x = crc_shift n y \<longleftrightarrow> x = y"
  by (induction n arbitrary: x y) (auto simp: crc_shift_crc_bit simp del: crc_shift.simps(2) dest: crc_bit_inject)

lemma ucast_byte_inject: "(ucast (a :: byte) :: uint32) = ucast b \<longleftrightarrow> a = b"
proof -
  have "unat (ucast x :: uint32) = unat x" for x :: byte
    using unat_byte_bound [of x] by (simp add: unsigned_ucast_eq take_bit_nat_eq_self)
  then show ?thesis by (metis word_unat_eq_iff)
qed

lemma crc_step_inject: "crc_step c a = crc_step d b \<longleftrightarrow> c XOR ucast a = d XOR ucast b"
  by (simp add: crc_step_def crc_shift_inject del: crc_shift.simps)

lemma word_xor_cancel: "(c :: 'a::len word) XOR x = d XOR x \<longleftrightarrow> c = d" "(x :: 'a::len word) XOR c = x XOR d \<longleftrightarrow> c = d"
  by (auto simp: bit_eq_iff bit_xor_iff)

lemma foldl_crc_inject: "foldl crc_step c bs = foldl crc_step d bs \<longleftrightarrow> c = d"
  by (induction bs arbitrary: c d) (simp_all add: crc_step_inject word_xor_cancel)

text \<open>One changed byte changes the checksum.\<close>

lemma ChecksumIEEE_change:
  assumes "i < length bs" "b \<noteq> bs ! i"
  shows "ChecksumIEEE (bs[i := b]) \<noteq> ChecksumIEEE bs"
proof -
  have s: "bs[i := b] = take i bs @ b # drop (Suc i) bs" "bs = take i bs @ bs ! i # drop (Suc i) bs"
    using assms(1) by (simp_all add: upd_conv_take_nth_drop id_take_nth_drop)
  have "foldl crc_step c (take i bs @ b # drop (Suc i) bs) \<noteq> foldl crc_step c (take i bs @ bs ! i # drop (Suc i) bs)" for c
    using assms(2) by (simp add: foldl_crc_inject crc_step_inject word_xor_cancel ucast_byte_inject)
  then show ?thesis using s unfolding ChecksumIEEE_def by (metis bit.double_compl)
qed

section \<open>Sealed records\<close>

text \<open>A record sealed by the little-endian checksum of what precedes it.\<close>

definition seal :: "bytes \<Rightarrow> bytes" where
  "seal body = body @ le_bytes 4 (ChecksumIEEE body)"

definition sealed :: "bytes \<Rightarrow> bool" where
  "sealed enc \<longleftrightarrow> 4 \<le> length enc \<and>
     ChecksumIEEE (take (length enc - 4) enc) = le_word (drop (length enc - 4) enc)"

lemma length_seal [simp, go_len]: "length (seal body) = length body + 4"
  by (simp add: seal_def)

lemma sealed_seal [simp]: "sealed (seal body)"
  using le_word_le_bytes [of 4 "ChecksumIEEE body"] by (simp add: sealed_def seal_def)

lemma sealed_iff: "sealed enc \<longleftrightarrow> (\<exists>body. enc = seal body)"
proof
  assume s: "sealed enc"
  let ?n = "length enc - 4"
  have "le_bytes 4 (le_word (drop ?n enc) :: uint32) = drop ?n enc"
    using s by (intro le_bytes_le_word) (auto simp: sealed_def)
  then have "enc = seal (take ?n enc)" using s unfolding seal_def sealed_def by (metis append_take_drop_id)
  then show "\<exists>body. enc = seal body" ..
qed auto

lemma sealed_change_detected:
  assumes "sealed enc" "i < length enc" "b \<noteq> enc ! i"
  shows "\<not> sealed (enc[i := b])"
proof
  assume "sealed (enc[i := b])"
  then obtain body' where b': "enc[i := b] = seal body'" using sealed_iff by blast
  obtain body where e: "enc = seal body" using assms(1) sealed_iff by blast
  have len: "length body' = length body" using arg_cong [OF b', of length] by (simp add: e)
  show False
  proof (cases "i < length body")
    case True
    have "enc[i := b] = body[i := b] @ le_bytes 4 (ChecksumIEEE body)"
      using True by (simp add: e seal_def list_update_append)
    then have "body' = body[i := b] \<and> le_bytes 4 (ChecksumIEEE body') = le_bytes 4 (ChecksumIEEE body)"
      using b' [unfolded seal_def] len by (metis append_eq_append_conv length_list_update)
    then have "ChecksumIEEE (body[i := b]) = ChecksumIEEE body" using le_bytes_inject [of 4 "ChecksumIEEE body'"] by auto
    moreover have "b \<noteq> body ! i" using assms(3) True by (simp add: e seal_def nth_append)
    ultimately show False using ChecksumIEEE_change True by blast
  next
    case False
    have "enc[i := b] = body @ (le_bytes 4 (ChecksumIEEE body))[i - length body := b]"
      using False by (simp add: e seal_def list_update_append)
    then have "body' = body" using b' len unfolding seal_def by (simp add: append_eq_append_conv)
    then have "enc[i := b] = enc" using b' e by simp
    then show False using assms(2,3) by (metis nth_list_update_eq)
  qed
qed

end
