(* ===== verification/Format.thy ===== *)
theory Format
  imports Chunk Zrle Names Checksum
begin

text \<open>
  The chunk image formats (\<^verbatim>\<open>fs_split/format.go\<close>): the v1, v2 and v3 images, all sealed by a CRC-32,
  with the optional zero run-length compression of v3.  \<open>decode_encodeState\<close> and
  \<open>decode_encodeCheckpointState\<close> are the round trips; \<open>decode_sealed\<close> and
  \<open>decode_Inr\<close> say what an accepted image guarantees.
\<close>

section \<open>The code\<close>

text \<open>\<^verbatim>\<open>xs[a:b]\<close>\<close>

definition go_slice :: "nat \<Rightarrow> nat \<Rightarrow> 'a list \<Rightarrow> 'a list" where
  "go_slice a b xs = take (b - a) (drop a xs)"

text \<open>\<^verbatim>\<open>if err != nil { return fmt.Errorf(...) }\<close> with a new sentinel that hides the inner one.\<close>

definition on_err :: "error \<Rightarrow> 'a result \<Rightarrow> ('a \<Rightarrow> 'b result) \<Rightarrow> 'b result" where
  "on_err e r k = (case r of Inl _ \<Rightarrow> Inl e | Inr v \<Rightarrow> k v)"

datatype CheckpointCompression = CheckpointCompressionNone | CheckpointCompressionZRLE

definition fileMagic :: bytes where "fileMagic = bytes_of ''RGDBSPL3''"
definition v2FileMagic :: bytes where "v2FileMagic = bytes_of ''RGDBSPL2''"
definition legacyFileMagic :: bytes where "legacyFileMagic = bytes_of ''RGDBSPL1''"
definition headerBytes :: nat where "headerBytes = 44"
definition checksumSize :: nat where "checksumSize = 4"
definition imageCodecNone :: byte where "imageCodecNone = 0"
definition imageCodecZRLE :: byte where "imageCodecZRLE = 1"

definition encodeImage :: "Geometry \<Rightarrow> Coord \<Rightarrow> bytes \<Rightarrow> bytes \<Rightarrow> bytes \<Rightarrow> byte \<Rightarrow> bytes" where
  "encodeImage g coord payload presence magic codec =
     (let cfg = config g;
          encoded = magic;
          encoded = codec_AppendUint32 encoded (ChunkEdge cfg);
          encoded = codec_AppendUint32 encoded (LargeChunkEdge cfg);
          encoded = encoded @ [BlockBits cfg, codec, 0, 0];
          encoded = codec_AppendUint64 encoded (coord_X coord);
          encoded = codec_AppendUint64 encoded (coord_Y coord);
          encoded = codec_AppendUint64 encoded (of_nat (payloadBytes g));
          encoded = encoded @ payload;
          encoded = encoded @ presence
      in codec_AppendUint32 encoded (ChecksumIEEE encoded))"

definition encodeState :: "Geometry \<Rightarrow> Coord \<Rightarrow> bytes \<Rightarrow> bytes \<Rightarrow> bytes" where
  "encodeState g coord payload presence = encodeImage g coord payload presence v2FileMagic imageCodecNone"

definition encodeCheckpointState :: "CheckpointCompression \<Rightarrow> Geometry \<Rightarrow> Coord \<Rightarrow> bytes \<Rightarrow> bytes \<Rightarrow> bytes" where
  "encodeCheckpointState compression g coord payload presence =
     (let state = payload @ presence; compressed = EncodeZRLE state
      in if compression = CheckpointCompressionZRLE \<and> length compressed < length state
         then encodeImage g coord compressed [] fileMagic imageCodecZRLE
         else encodeImage g coord payload presence fileMagic imageCodecNone)"

text \<open>The last part of \<^verbatim>\<open>decode\<close>: the \<^verbatim>\<open>switch magic\<close>.\<close>

definition decode_payload :: "Geometry \<Rightarrow> bytes \<Rightarrow> byte \<Rightarrow> bytes \<Rightarrow> Chunk result" where
  "decode_payload g magic codec encoded =
     (if magic = legacyFileMagic then
        let payloadEnd = headerBytes + payloadBytes g
        in if length encoded \<noteq> payloadEnd + checksumSize then Inl [ErrCorrupt]
           else on_err [ErrCorrupt] (ChunkFromLegacyBytes g (go_slice headerBytes payloadEnd encoded)) Inr
      else if magic = v2FileMagic then
        let payloadEnd = headerBytes + payloadBytes g
        in if length encoded \<noteq> payloadEnd + presenceBytes g + checksumSize then Inl [ErrCorrupt]
           else on_err [ErrCorrupt]
                  (ChunkFromState g (go_slice headerBytes payloadEnd encoded)
                     (go_slice payloadEnd (length encoded - checksumSize) encoded)) Inr
      else
        let stateSize = payloadBytes g + presenceBytes g;
            state = go_slice headerBytes (length encoded - checksumSize) encoded;
            build = (\<lambda>state. on_err [ErrCorrupt]
                       (ChunkFromState g (take (payloadBytes g) state) (drop (payloadBytes g) state)) Inr)
        in if codec = imageCodecNone
           then (if length state \<noteq> stateSize then Inl [ErrCorrupt] else build state)
           else on_err [ErrCorrupt] (DecodeZRLE state (int stateSize)) build)"

definition decode :: "Geometry \<Rightarrow> Coord \<Rightarrow> bytes \<Rightarrow> Chunk result" where
  "decode g coord encoded =
     (if length encoded < headerBytes + checksumSize then Inl [ErrCorrupt]
      else let magic = take (length fileMagic) encoded
      in if magic \<noteq> fileMagic \<and> magic \<noteq> v2FileMagic \<and> magic \<noteq> legacyFileMagic then Inl [ErrCorrupt]
      else on_err [ErrCorrupt] (codec_Uint32 (drop (length encoded - checksumSize) encoded)) (\<lambda>storedChecksum.
      if ChecksumIEEE (take (length encoded - checksumSize) encoded) \<noteq> storedChecksum then Inl [ErrCorrupt]
      else on_err [ErrCorrupt] (codec_Uint32 (go_slice 8 12 encoded)) (\<lambda>chunkEdge.
      on_err [ErrCorrupt] (codec_Uint32 (go_slice 12 16 encoded)) (\<lambda>largeChunkEdge.
      if go_slice 18 20 encoded \<noteq> [0, 0] then Inl [ErrCorrupt]
      else let codec = encoded ! 17
      in if magic \<noteq> fileMagic \<and> codec \<noteq> imageCodecNone then Inl [ErrCorrupt]
      else if magic = fileMagic \<and> codec \<noteq> imageCodecNone \<and> codec \<noteq> imageCodecZRLE then Inl [ErrCorrupt]
      else on_err [ErrCorrupt] (codec_Uint64 (go_slice 20 28 encoded)) (\<lambda>storedX.
      on_err [ErrCorrupt] (codec_Uint64 (go_slice 28 36 encoded)) (\<lambda>storedY.
      on_err [ErrCorrupt] (codec_Uint64 (go_slice 36 44 encoded)) (\<lambda>payloadSize.
      let cfg = config g
      in if chunkEdge \<noteq> ChunkEdge cfg \<or> largeChunkEdge \<noteq> LargeChunkEdge cfg \<or> encoded ! 16 \<noteq> BlockBits cfg
         then Inl [ErrCorrupt, ErrGeometryMismatch]
         else if storedX \<noteq> coord_X coord \<or> storedY \<noteq> coord_Y coord then Inl [ErrCorrupt]
         else if payloadSize \<noteq> of_nat (payloadBytes g) then Inl [ErrCorrupt]
         else decode_payload g magic codec encoded)))))))"

section \<open>Slices\<close>

lemma slice_skip: "length p \<le> a \<Longrightarrow> go_slice a b (p @ xs) = go_slice (a - length p) (b - length p) xs"
  by (cases "b \<le> a") (simp_all add: go_slice_def)

lemma slice_hit: "length p = b \<Longrightarrow> go_slice 0 b (p @ xs) = p" "length p = b \<Longrightarrow> go_slice 0 b p = p"
  by (simp_all add: go_slice_def)

lemma length_slice: "b \<le> length xs \<Longrightarrow> length (go_slice a b xs) = b - a"
  by (simp add: go_slice_def)

lemma slice_glue: "a \<le> b \<Longrightarrow> b \<le> c \<Longrightarrow> go_slice a b xs @ go_slice b c xs = go_slice a c xs"
proof -
  assume ab: "a \<le> b" and bc: "b \<le> c"
  then have "c - a = (b - a) + (c - b)" "drop b xs = drop (b - a) (drop a xs)" by simp_all
  then show ?thesis by (simp add: go_slice_def take_add)
qed

lemma on_err_Inr_iff: "on_err e r k = Inr v \<longleftrightarrow> (\<exists>w. r = Inr w \<and> k w = Inr v)"
  by (cases r) (simp_all add: on_err_def)

lemma on_err_Inr [simp]: "on_err e (Inr w) k = k w"
  by (simp add: on_err_def)

lemma on_err_Inl [simp]: "on_err e (Inl x) k = Inl e"
  by (simp add: on_err_def)

lemma magic_lengths [simp, go_len]:
  "length fileMagic = 8" "length v2FileMagic = 8" "length legacyFileMagic = 8"
  by (simp_all add: fileMagic_def v2FileMagic_def legacyFileMagic_def)

lemma magics_distinct [simp]:
  "fileMagic \<noteq> v2FileMagic" "v2FileMagic \<noteq> fileMagic" "fileMagic \<noteq> legacyFileMagic"
  "legacyFileMagic \<noteq> fileMagic" "v2FileMagic \<noteq> legacyFileMagic" "legacyFileMagic \<noteq> v2FileMagic"
  by (simp_all add: fileMagic_def v2FileMagic_def legacyFileMagic_def)

section \<open>Round trips\<close>

definition image_header :: "Geometry \<Rightarrow> Coord \<Rightarrow> bytes \<Rightarrow> byte \<Rightarrow> bytes" where
  "image_header g coord magic codec =
     magic @ le_bytes 4 (ChunkEdge (config g)) @ le_bytes 4 (LargeChunkEdge (config g)) @
     [BlockBits (config g), codec, 0, 0] @ le_bytes 8 (coord_X coord) @ le_bytes 8 (coord_Y coord) @
     le_bytes 8 (of_nat (payloadBytes g) :: uint64)"

lemma encodeImage_eq: "encodeImage g coord payload presence magic codec = seal (image_header g coord magic codec @ payload @ presence)"
  by (simp add: encodeImage_def image_header_def seal_def codec_AppendUint32_def codec_AppendUint64_def Let_def)

lemma length_image_header: "length magic = 8 \<Longrightarrow> length (image_header g coord magic codec) = 44"
  by (simp add: image_header_def)

lemma codec_Uint_le [go_codec, simp]:
  "codec_Uint32 (le_bytes 4 v) = Inr v" "codec_Uint64 (le_bytes 8 w) = Inr w"
  using codec_Uint32_append [of v "[]"] codec_Uint64_append [of w "[]"] by simp_all

lemma header_slices:
  assumes "length magic = 8"
  shows "take 8 (image_header g coord magic codec @ rest) = magic"
    and "go_slice 8 12 (image_header g coord magic codec @ rest) = le_bytes 4 (ChunkEdge (config g))"
    and "go_slice 12 16 (image_header g coord magic codec @ rest) = le_bytes 4 (LargeChunkEdge (config g))"
    and "(image_header g coord magic codec @ rest) ! 16 = BlockBits (config g)"
    and "(image_header g coord magic codec @ rest) ! 17 = codec"
    and "go_slice 18 20 (image_header g coord magic codec @ rest) = [0, 0]"
    and "go_slice 20 28 (image_header g coord magic codec @ rest) = le_bytes 8 (coord_X coord)"
    and "go_slice 28 36 (image_header g coord magic codec @ rest) = le_bytes 8 (coord_Y coord)"
    and "go_slice 36 44 (image_header g coord magic codec @ rest) = le_bytes 8 (of_nat (payloadBytes g) :: uint64)"
  using assms by (simp_all add: image_header_def slice_skip slice_hit nth_append)
    (simp_all add: go_slice_def numeral_2_eq_2)

lemma decode_encodeImage:
  assumes "length magic = 8" "magic = fileMagic \<or> magic = v2FileMagic \<or> magic = legacyFileMagic"
    and "codec = imageCodecNone \<or> magic = fileMagic \<and> codec = imageCodecZRLE"
  shows "decode g coord (encodeImage g coord payload presence magic codec) =
         decode_payload g magic codec (encodeImage g coord payload presence magic codec)"
proof -
  define body where "body = image_header g coord magic codec @ payload @ presence"
  have e: "encodeImage g coord payload presence magic codec = body @ le_bytes 4 (ChecksumIEEE body)"
    by (simp add: encodeImage_eq body_def seal_def)
  have l: "44 \<le> length body" using assms(1) by (simp add: body_def length_image_header)
  have h: "take 8 (body @ c) = magic" "go_slice 8 12 (body @ c) = le_bytes 4 (ChunkEdge (config g))"
    "go_slice 12 16 (body @ c) = le_bytes 4 (LargeChunkEdge (config g))" "(body @ c) ! 16 = BlockBits (config g)"
    "(body @ c) ! 17 = codec" "go_slice 18 20 (body @ c) = [0, 0]" "go_slice 20 28 (body @ c) = le_bytes 8 (coord_X coord)"
    "go_slice 28 36 (body @ c) = le_bytes 8 (coord_Y coord)" "go_slice 36 44 (body @ c) = le_bytes 8 (of_nat (payloadBytes g) :: uint64)" for c
    using header_slices [OF assms(1), of g coord codec "payload @ presence @ c"] by (simp_all add: body_def)
  have n: "imageCodecNone \<noteq> imageCodecZRLE" by (simp add: imageCodecNone_def imageCodecZRLE_def)
  show ?thesis unfolding e decode_def headerBytes_def checksumSize_def magic_lengths h
    using l assms(2,3) n by (auto simp: Let_def)
qed

lemma encodeImage_parts:
  assumes "length magic = 8"
  shows "length (encodeImage g coord payload presence magic codec) = 44 + length payload + length presence + 4"
    and "go_slice 44 (44 + length payload) (encodeImage g coord payload presence magic codec) = payload"
    and "go_slice (44 + length payload) (44 + length payload + length presence) (encodeImage g coord payload presence magic codec) = presence"
    and "go_slice 44 (44 + length payload + length presence) (encodeImage g coord payload presence magic codec) = payload @ presence"
proof -
  note l = length_image_header [OF assms, of g coord codec]
  have e: "encodeImage g coord payload presence magic codec =
      image_header g coord magic codec @ payload @ presence @ le_bytes 4 (ChecksumIEEE (image_header g coord magic codec @ payload @ presence))"
    by (simp add: encodeImage_eq seal_def)
  show "length (encodeImage g coord payload presence magic codec) = 44 + length payload + length presence + 4"
    by (simp add: encodeImage_eq l)
  show a: "go_slice 44 (44 + length payload) (encodeImage g coord payload presence magic codec) = payload"
    unfolding e by (simp add: slice_skip l slice_hit)
  show b: "go_slice (44 + length payload) (44 + length payload + length presence) (encodeImage g coord payload presence magic codec) = presence"
    unfolding e by (simp add: slice_skip l slice_hit)
  show "go_slice 44 (44 + length payload + length presence) (encodeImage g coord payload presence magic codec) = payload @ presence"
    using slice_glue [of 44 "44 + length payload" "44 + length payload + length presence"
      "encodeImage g coord payload presence magic codec"] a b by simp
qed

lemma wf_chunk_lengths:
  "wf_chunk c \<Longrightarrow> length (chunk_payload c) = payloadBytes (chunk_geometry c)"
  "wf_chunk c \<Longrightarrow> length (chunk_presence c) = presenceBytes (chunk_geometry c)"
  by (simp_all add: wf_chunk_def Let_def)

lemma decode_encodeState [go_codec]:
  assumes "wf_chunk c"
  shows "decode (chunk_geometry c) coord (encodeState (chunk_geometry c) coord (chunk_payload c) (chunk_presence c)) = Inr c"
proof -
  let ?g = "chunk_geometry c"
  let ?e = "encodeImage ?g coord (chunk_payload c) (chunk_presence c) v2FileMagic imageCodecNone"
  note p = encodeImage_parts [where magic = v2FileMagic and g = ?g and coord = coord and payload = "chunk_payload c" and
      presence = "chunk_presence c" and codec = imageCodecNone, OF magic_lengths(2), unfolded wf_chunk_lengths [OF assms]]
  have "decode_payload ?g v2FileMagic imageCodecNone ?e = Inr c"
    using p ChunkFromState_wf_chunk [OF assms]
    by (simp add: decode_payload_def headerBytes_def checksumSize_def Let_def add.assoc)
  then show ?thesis using decode_encodeImage [of v2FileMagic imageCodecNone ?g coord] by (simp add: encodeState_def)
qed

lemma decode_encodeCheckpointState [go_codec]:
  assumes "wf_chunk c"
  shows "decode (chunk_geometry c) coord
    (encodeCheckpointState compression (chunk_geometry c) coord (chunk_payload c) (chunk_presence c)) = Inr c"
proof -
  let ?g = "chunk_geometry c" and ?s = "chunk_payload c @ chunk_presence c"
  note l = wf_chunk_lengths [OF assms] and st = ChunkFromState_wf_chunk [OF assms]
  have n: "imageCodecZRLE \<noteq> imageCodecNone" by (simp add: imageCodecNone_def imageCodecZRLE_def)
  note z = encodeImage_parts [where magic = fileMagic and g = ?g and coord = coord and payload = "EncodeZRLE ?s" and
      presence = "[]" and codec = imageCodecZRLE, simplified]
  have "decode_payload ?g fileMagic imageCodecZRLE (encodeImage ?g coord (EncodeZRLE ?s) [] fileMagic imageCodecZRLE) = Inr c"
    using z(1,2) st l n DecodeZRLE_EncodeZRLE [of ?s]
    by (simp add: decode_payload_def headerBytes_def checksumSize_def Let_def add.assoc)
  moreover note u = encodeImage_parts [where magic = fileMagic and g = ?g and coord = coord and payload = "chunk_payload c" and
      presence = "chunk_presence c" and codec = imageCodecNone, unfolded l, OF magic_lengths(1)]
  have "decode_payload ?g fileMagic imageCodecNone
      (encodeImage ?g coord (chunk_payload c) (chunk_presence c) fileMagic imageCodecNone) = Inr c"
    using u(1,4) st l by (simp add: decode_payload_def headerBytes_def checksumSize_def Let_def add.assoc)
  ultimately show ?thesis by (simp add: encodeCheckpointState_def decode_encodeImage Let_def)
qed

section \<open>What an accepted image guarantees\<close>

lemma codec_Uint_exact:
  "length src = 4 \<Longrightarrow> codec_Uint32 src = Inr v \<longleftrightarrow> src = le_bytes 4 v"
  "length src = 8 \<Longrightarrow> codec_Uint64 src = Inr w \<longleftrightarrow> src = le_bytes 8 w"
  using le_bytes_le_word [of src 4, where 'a = 32] le_bytes_le_word [of src 8, where 'a = 64]
  by (auto simp: codec_Uint32_def codec_Uint64_def le_word_le_bytes)

lemma slice_two: "a + 1 < length xs \<Longrightarrow> go_slice a (a + 2) xs = [xs ! a, xs ! (a + 1)]"
  by (simp add: go_slice_def take_Suc_conv_app_nth numeral_2_eq_2 Cons_nth_drop_Suc [symmetric])

lemma decode_Inr:
  assumes "decode g coord encoded = Inr c"
  shows "\<exists>magic codec body. encoded = seal (image_header g coord magic codec @ body) \<and>
    (magic = fileMagic \<or> magic = v2FileMagic \<or> magic = legacyFileMagic) \<and>
    (codec = imageCodecNone \<or> magic = fileMagic \<and> codec = imageCodecZRLE) \<and>
    decode_payload g magic codec encoded = Inr c"
proof -
  let ?n = "length encoded - 4"
  have len: "48 \<le> length encoded" using assms by (auto simp: decode_def headerBytes_def checksumSize_def split: if_splits)
  have ls: "length (go_slice 8 12 encoded) = 4" "length (go_slice 12 16 encoded) = 4" "length (go_slice 20 28 encoded) = 8"
    "length (go_slice 28 36 encoded) = 8" "length (go_slice 36 44 encoded) = 8" "length (drop ?n encoded) = 4"
    using len by (simp_all add: length_slice)
  define magic codec where "magic = take 8 encoded" and "codec = encoded ! 17"
  note d = assms [unfolded decode_def, folded magic_def codec_def]
  have m: "magic = fileMagic \<or> magic = v2FileMagic \<or> magic = legacyFileMagic"
    and k: "codec = imageCodecNone \<or> magic = fileMagic \<and> codec = imageCodecZRLE"
    and crc: "codec_Uint32 (drop ?n encoded) = Inr (ChecksumIEEE (take ?n encoded))"
    and f: "codec_Uint32 (go_slice 8 12 encoded) = Inr (ChunkEdge (config g))"
      "codec_Uint32 (go_slice 12 16 encoded) = Inr (LargeChunkEdge (config g))"
      "encoded ! 16 = BlockBits (config g)" "go_slice 18 20 encoded = [0, 0]"
      "codec_Uint64 (go_slice 20 28 encoded) = Inr (coord_X coord)" "codec_Uint64 (go_slice 28 36 encoded) = Inr (coord_Y coord)"
      "codec_Uint64 (go_slice 36 44 encoded) = Inr (of_nat (payloadBytes g))"
    and p: "decode_payload g magic codec encoded = Inr c"
    using assms unfolding decode_def
    by (auto simp: on_err_Inr_iff Let_def checksumSize_def magic_def codec_def split: if_splits)
  note f = f(1) [unfolded codec_Uint_exact(1) [OF ls(1)]] f(2) [unfolded codec_Uint_exact(1) [OF ls(2)]] f(3,4)
    f(5) [unfolded codec_Uint_exact(2) [OF ls(3)]] f(6) [unfolded codec_Uint_exact(2) [OF ls(4)]] f(7) [unfolded codec_Uint_exact(2) [OF ls(5)]]
  have "take 44 encoded = go_slice 0 8 encoded @ go_slice 8 12 encoded @ go_slice 12 16 encoded @ go_slice 16 18 encoded @
      go_slice 18 20 encoded @ go_slice 20 28 encoded @ go_slice 28 36 encoded @ go_slice 36 44 encoded"
    by (simp add: slice_glue) (simp add: go_slice_def)
  moreover have "go_slice 16 18 encoded = [BlockBits (config g), codec]" using slice_two [of 16 encoded] len f(3) by (simp add: codec_def)
  moreover have "go_slice 0 8 encoded = magic" by (simp add: go_slice_def magic_def)
  ultimately have h: "take 44 encoded = image_header g coord magic codec" using f by (simp add: image_header_def)
  have "encoded = take ?n encoded @ le_bytes 4 (ChecksumIEEE (take ?n encoded))"
    using crc [unfolded codec_Uint_exact(1) [OF ls(6)]] by (metis append_take_drop_id)
  moreover have "take 44 (take ?n encoded) = take 44 encoded" using len by simp
  then have "take ?n encoded = image_header g coord magic codec @ drop 44 (take ?n encoded)"
    unfolding h [symmetric] by (metis append_take_drop_id)
  ultimately have "encoded = seal (image_header g coord magic codec @ drop 44 (take ?n encoded))" unfolding seal_def by metis
  then show ?thesis using m k p by blast
qed

lemma decode_sealed: "decode g coord encoded = Inr c \<Longrightarrow> sealed encoded"
  using decode_Inr sealed_seal by metis

lemma on_err_cases: "on_err e r k = Inl x \<Longrightarrow> x = e \<or> (\<exists>v. r = Inr v \<and> k v = Inl x)"
  by (cases r) (simp_all add: on_err_def)

lemma decode_payload_Inl: "decode_payload g magic codec encoded = Inl e \<Longrightarrow> e = [ErrCorrupt]"
  by (auto simp: decode_payload_def Let_def on_err_def split: if_splits sum.splits)

lemma decode_Inl: "decode g coord encoded = Inl e \<Longrightarrow> errors_is e ErrCorrupt"
  by (auto simp: decode_def Let_def on_err_def errors_is_def split: if_splits sum.splits dest: decode_payload_Inl)

lemma decode_payload_wf:
  assumes "wf_geometry g" "decode_payload g magic codec encoded = Inr c"
  shows "wf_chunk c" "chunk_geometry c = g"
proof -
  have st: "wf_chunk c \<and> chunk_geometry c = g" if "ChunkFromState g p q = Inr c" for p q
    using ChunkFromState_Inr [OF assms(1) that] by simp
  have lg: "wf_chunk c \<and> chunk_geometry c = g" if "ChunkFromLegacyBytes g p = Inr c" for p
    using ChunkFromLegacyBytes_outcome [OF assms(1), of p] that by (auto split: if_splits)
  have "wf_chunk c \<and> chunk_geometry c = g"
    using assms(2) st lg by (auto simp: decode_payload_def Let_def on_err_Inr_iff split: if_splits)
  then show "wf_chunk c" "chunk_geometry c = g" by simp_all
qed

lemma decode_wf:
  assumes "wf_geometry g" "decode g coord encoded = Inr c"
  shows "wf_chunk c" "chunk_geometry c = g"
  using decode_Inr [OF assms(2)] decode_payload_wf [OF assms(1)] by blast+

lemma seal_inject: "seal a = seal b \<longleftrightarrow> a = b"
  by (metis append_eq_append_conv length_append length_le_bytes add_right_cancel seal_def)

lemma decode_v2_exact:
  assumes "wf_geometry g" "decode g coord encoded = Inr c" "take 8 encoded = v2FileMagic"
  shows "encoded = encodeState g coord (chunk_payload c) (chunk_presence c)"
proof -
  obtain magic codec body where e: "encoded = seal (image_header g coord magic codec @ body)"
    and m: "magic = fileMagic \<or> magic = v2FileMagic \<or> magic = legacyFileMagic"
    and k: "codec = imageCodecNone \<or> magic = fileMagic \<and> codec = imageCodecZRLE"
    and p: "decode_payload g magic codec encoded = Inr c" using decode_Inr [OF assms(2)] by blast
  have lm: "length magic = 8" using m by auto
  have "take 8 encoded = magic" unfolding e seal_def append_assoc by (rule header_slices(1) [OF lm])
  then have m: "magic = v2FileMagic" using assms(3) by simp
  then have k: "codec = imageCodecNone" using k by auto
  let ?pe = "44 + payloadBytes g"
  have l: "length encoded = ?pe + presenceBytes g + 4"
    and s: "ChunkFromState g (go_slice 44 ?pe encoded) (go_slice ?pe (length encoded - 4) encoded) = Inr c"
    using p by (auto simp: decode_payload_def m headerBytes_def checksumSize_def Let_def on_err_Inr_iff split: if_splits)
  have "go_slice 44 ?pe encoded @ go_slice ?pe (length encoded - 4) encoded = go_slice 44 (length encoded - 4) encoded"
    using l by (intro slice_glue) simp_all
  also have "\<dots> = body"
    using lm unfolding e by (simp add: seal_def slice_skip length_image_header slice_hit)
  finally have "body = chunk_payload c @ chunk_presence c" using ChunkFromState_Inr(3,4) [OF assms(1) s] by simp
  then show ?thesis by (simp add: e encodeState_def encodeImage_eq m k)
qed

lemma length_encodeCheckpointState:
  "length (encodeCheckpointState compression g coord payload presence) \<le> headerBytes + 2 * (length payload + length presence) + checksumSize"
  by (auto simp: encodeCheckpointState_def Let_def encodeImage_eq length_image_header headerBytes_def checksumSize_def)

section \<open>The properties of images\<close>

text \<open>
  (C25) Every image the store writes for a well-formed chunk, the plain v2 image and the v3
  checkpoint image with or without compression, decodes at the same coordinate to exactly that chunk,
  and a checkpoint image stays within the size bound that the reader enforces.
\<close>

theorem image_roundtrip:
  assumes "wf_chunk c"
  shows "decode (chunk_geometry c) coord (encodeState (chunk_geometry c) coord (chunk_payload c) (chunk_presence c)) = Inr c \<and>
         decode (chunk_geometry c) coord
           (encodeCheckpointState compression (chunk_geometry c) coord (chunk_payload c) (chunk_presence c)) = Inr c \<and>
         length (encodeCheckpointState compression (chunk_geometry c) coord (chunk_payload c) (chunk_presence c))
           \<le> headerBytes + 2 * (payloadBytes (chunk_geometry c) + presenceBytes (chunk_geometry c)) + checksumSize"
  using decode_encodeState [OF assms] decode_encodeCheckpointState [OF assms]
    length_encodeCheckpointState [of compression "chunk_geometry c" coord "chunk_payload c" "chunk_presence c"]
    wf_chunk_lengths [OF assms] by simp

theorem image_roundtrip_witness:
  "let g = \<lparr>config = \<lparr>ChunkEdge = 2, LargeChunkEdge = 1, BlockBits = 3\<rparr>, blockCount = 4, payloadBytes = 2, presenceBytes = 1\<rparr>;
       c = \<lparr>chunk_geometry = g, chunk_codec = \<lparr>codec_width = 3, codec_order = LSBFirst\<rparr>,
            chunk_payload = [5, 0], chunk_presence = [1]\<rparr>
   in wf_chunk c \<and> decode g (Coord (- 1) 7) (encodeCheckpointState CheckpointCompressionZRLE g (Coord (- 1) 7) [5, 0] [1]) = Inr c"
proof -
  let ?g = "\<lparr>config = \<lparr>ChunkEdge = 2, LargeChunkEdge = 1, BlockBits = 3\<rparr>, blockCount = 4, payloadBytes = 2, presenceBytes = 1\<rparr>"
  let ?c = "\<lparr>chunk_geometry = ?g, chunk_codec = \<lparr>codec_width = 3, codec_order = LSBFirst\<rparr>,
            chunk_payload = [5, 0], chunk_presence = [1]\<rparr>"
  have wf: "wf_chunk ?c" by code_simp
  show ?thesis using wf image_roundtrip [OF wf, of "Coord (- 1) 7" CheckpointCompressionZRLE] by simp
qed

text \<open>
  (C26) An accepted image is trustworthy: it holds a well-formed chunk of the store's geometry, a v2
  image is byte for byte the canonical encoding of that chunk, and changing any single byte of an
  accepted image, wherever it lies, makes the decoder reject it as corrupt.
\<close>

theorem image_corruption_detected:
  assumes "wf_geometry g" "decode g coord encoded = Inr c"
  shows "wf_chunk c \<and> chunk_geometry c = g \<and>
         (take 8 encoded = v2FileMagic \<longrightarrow> encoded = encodeState g coord (chunk_payload c) (chunk_presence c)) \<and>
         (\<forall>i b. i < length encoded \<and> b \<noteq> encoded ! i \<longrightarrow>
            (\<exists>e. decode g coord (encoded[i := b]) = Inl e \<and> errors_is e ErrCorrupt))"
proof (intro conjI allI impI)
  show "wf_chunk c" "chunk_geometry c = g" using decode_wf [OF assms] by simp_all
  show "encoded = encodeState g coord (chunk_payload c) (chunk_presence c)" if "take 8 encoded = v2FileMagic"
    using decode_v2_exact [OF assms that] .
  fix i b assume i: "i < length encoded \<and> b \<noteq> encoded ! i"
  have "\<not> sealed (encoded[i := b])" using sealed_change_detected [OF decode_sealed [OF assms(2)]] i by blast
  then show "\<exists>e. decode g coord (encoded[i := b]) = Inl e \<and> errors_is e ErrCorrupt"
    using decode_sealed [of g coord "encoded[i := b]"] decode_Inl [of g coord "encoded[i := b]"]
    by (cases "decode g coord (encoded[i := b])") auto
qed

theorem image_corruption_detected_witness:
  "let g = \<lparr>config = \<lparr>ChunkEdge = 2, LargeChunkEdge = 1, BlockBits = 3\<rparr>, blockCount = 4, payloadBytes = 2, presenceBytes = 1\<rparr>;
       enc = encodeState g (Coord 0 0) [5, 0] [1]
   in \<exists>e. decode g (Coord 0 0) (enc[44 := 4]) = Inl e \<and> errors_is e ErrCorrupt"
proof -
  let ?g = "\<lparr>config = \<lparr>ChunkEdge = 2, LargeChunkEdge = 1, BlockBits = 3\<rparr>, blockCount = 4, payloadBytes = 2, presenceBytes = 1\<rparr>"
  let ?c = "\<lparr>chunk_geometry = ?g, chunk_codec = \<lparr>codec_width = 3, codec_order = LSBFirst\<rparr>,
            chunk_payload = [5, 0], chunk_presence = [1]\<rparr>"
  let ?e = "encodeState ?g (Coord 0 0) [5, 0] [1]"
  have g: "wf_geometry ?g" by code_simp
  have wf: "wf_chunk ?c" by code_simp
  have d: "decode ?g (Coord 0 0) ?e = Inr ?c" using decode_encodeState [OF wf, of "Coord 0 0"] by simp
  have i: "44 < length ?e \<and> 4 \<noteq> ?e ! 44"
    by (simp add: encodeState_def encodeImage_eq length_image_header) (simp add: seal_def nth_append length_image_header)
  show ?thesis using image_corruption_detected [OF g d] i unfolding Let_def by blast
qed

section \<open>Typing\<close>

text \<open>The chunks that the program can come by: made empty, from bytes or from a file, and edited.\<close>

inductive built :: "Geometry \<Rightarrow> Chunk \<Rightarrow> bool" for g where
  new: "NewChunk g = Inr c \<Longrightarrow> built g c"
| state: "ChunkFromState g payload presence = Inr c \<Longrightarrow> built g c"
| bytes: "ChunkFromBytes g payload = Inr c \<Longrightarrow> built g c"
| legacy: "ChunkFromLegacyBytes g payload = Inr c \<Longrightarrow> built g c"
| image: "decode g coord encoded = Inr c \<Longrightarrow> built g c"
| set: "built g c \<Longrightarrow> chunk_Set c off v = Inr c' \<Longrightarrow> built g c'"
| unset: "built g c \<Longrightarrow> chunk_Unset c off = Inr c' \<Longrightarrow> built g c'"

lemma built_wf:
  assumes "wf_geometry g" "built g c"
  shows "wf_chunk c \<and> chunk_geometry c = g"
  using assms(2)
proof induction
  case (new c)
  then show ?case using NewChunk_wf [OF assms(1)] by (auto simp: NewChunk_eq [OF assms(1)])
next
  case (state payload presence c)
  then show ?case using ChunkFromState_Inr [OF assms(1)] by blast
next
  case (bytes payload c)
  then show ?case using ChunkFromState_Inr [OF assms(1)] by (auto simp: ChunkFromBytes_def split: if_splits sum.splits)
next
  case (legacy payload c)
  then show ?case using ChunkFromLegacyBytes_outcome [OF assms(1), of payload] by (auto split: if_splits)
next
  case (image coord encoded c)
  then show ?case using decode_wf [OF assms(1)] by blast
next
  case (set c off v c')
  then show ?case using chunk_Set_Inr(1,2) [of c off v c'] by simp
next
  case (unset c off c')
  then show ?case using chunk_Unset_Inr(1,2) [of c off c'] by simp
qed

text \<open>
  (C19) Chunks are well typed.  Whatever constructor or decoder a chunk comes from and however it was edited since,
  its payload and presence have exactly the sizes of its geometry and no bit beyond the blocks is present; and inside
  the edge every operation is defined: a read returns a value of the block width, the presence is known, a
  block can be removed, and a write succeeds exactly for the values that fit.
\<close>

theorem chunks_well_typed:
  assumes "geometry_New cfg = Inr g" "built g c" "offset_in_range g off"
  shows "wf_chunk c \<and> chunk_geometry c = g \<and>
    (\<exists>v. chunk_Get c off = Inr v \<and> value_fits g v) \<and> (\<exists>b. chunk_Exists c off = Inr b) \<and>
    (\<exists>c'. chunk_Unset c off = Inr c' \<and> built g c') \<and>
    (\<forall>v. if value_fits g v then \<exists>c'. chunk_Set c off v = Inr c' \<and> built g c' else chunk_Set c off v = Inl [ErrValueTooWide])"
proof -
  have "wf_geometry g" using assms(1) by (rule geometry_New_wf)
  then have wf: "wf_chunk c" and g: "chunk_geometry c = g" using built_wf assms(2) by blast+
  have "\<exists>b. chunk_Exists c off = Inr b" using assms(3) g by (simp add: chunk_Exists_eq chunk_index_cases)
  moreover have "\<exists>v. chunk_Get c off = Inr v \<and> value_fits g v" using chunk_Get_outcome [OF wf, of off] assms(3) g by (simp add: value_fits_def)
  moreover have "\<exists>c'. chunk_Unset c off = Inr c' \<and> built g c'" using chunk_Unset_outcome [OF wf, of off] assms(2,3) g built.unset by auto
  moreover have "if value_fits g v then \<exists>c'. chunk_Set c off v = Inr c' \<and> built g c' else chunk_Set c off v = Inl [ErrValueTooWide]" for v
    using chunk_Set_outcome [OF wf, of off v] assms(2,3) g built.set by (auto simp: value_fits_def not_le split: if_splits)
  ultimately show ?thesis using wf g by blast
qed

theorem chunks_well_typed_witness:
  "\<exists>g c v. geometry_New \<lparr>ChunkEdge = 2, LargeChunkEdge = 1, BlockBits = 3\<rparr> = Inr g \<and> ChunkFromState g [5, 0] [1] = Inr c \<and>
     chunk_Get c \<lparr>offset_X = 1, offset_Y = 1\<rparr> = Inr v \<and> value_fits g v"
proof -
  let ?g = "\<lparr>config = \<lparr>ChunkEdge = 2, LargeChunkEdge = 1, BlockBits = 3\<rparr>, blockCount = 4, payloadBytes = 2, presenceBytes = 1\<rparr>"
  let ?c = "\<lparr>chunk_geometry = ?g, chunk_codec = \<lparr>codec_width = 3, codec_order = LSBFirst\<rparr>, chunk_payload = [5, 0], chunk_presence = [1]\<rparr>"
  have g: "geometry_New \<lparr>ChunkEdge = 2, LargeChunkEdge = 1, BlockBits = 3\<rparr> = Inr ?g" by code_simp
  have c: "ChunkFromState ?g [5, 0] [1] = Inr ?c" by code_simp
  show ?thesis using g c chunks_well_typed [OF g built.state [OF c], of "\<lparr>offset_X = 1, offset_Y = 1\<rparr>"] by (auto simp: offset_in_range_def)
qed

end
