(* ===== verification/Records.thy ===== *)
theory Records
  imports Format
begin

text \<open>
  The sealed records beside the chunk images: WAL records and the WAL scan (\<^verbatim>\<open>fs_split/wal.go\<close>), chunk
  versions and the version clock (\<^verbatim>\<open>version.go\<close>), commit intents (\<^verbatim>\<open>conditional_intent.go\<close>) and the
  snapshot generation (\<^verbatim>\<open>snapshot_generation.go\<close>).  \<open>scan_records_append\<close> is the fact recovery
  rests on: scanning a WAL of whole records followed by a torn tail gives back exactly the records.
\<close>

section \<open>WAL records\<close>

definition walMagic :: bytes where "walMagic = bytes_of ''RGDBWAL2''"
definition legacyWALMagic :: bytes where "legacyWALMagic = bytes_of ''RGDBWAL1''"
definition walHeaderBytes :: nat where "walHeaderBytes = 36"

record walRecord =
  wal_coord :: Coord
  wal_payload :: bytes
  wal_presence :: bytes

text \<open>
  A Go slice is its bytes with its capacity.  An append that does not fit reallocates; \<open>grow\<close> is the
  runtime's choice of the new capacity from the old one and the length needed.
\<close>

record go_buffer =
  buf_bytes :: bytes
  buf_cap :: nat

definition buf_append :: "(nat \<Rightarrow> nat \<Rightarrow> nat) \<Rightarrow> go_buffer \<Rightarrow> bytes \<Rightarrow> go_buffer" where
  "buf_append grow b xs =
     (let n = length (buf_bytes b) + length xs
      in \<lparr>buf_bytes = buf_bytes b @ xs, buf_cap = (if n \<le> buf_cap b then buf_cap b else grow (buf_cap b) n)\<rparr>)"

definition wal_header :: "Geometry \<Rightarrow> Coord \<Rightarrow> bytes" where
  "wal_header g coord =
     walMagic @ le_bytes 4 (ChunkEdge (config g)) @ le_bytes 4 (LargeChunkEdge (config g)) @
     [BlockBits (config g), 0, 0, 0] @ le_bytes 8 (coord_X coord) @ le_bytes 8 (coord_Y coord)"

text \<open>
  \<^verbatim>\<open>appendWALRecord\<close>: a buffer whose capacity is below one record is replaced by a fresh one, with
  whatever it held.
\<close>

definition appendWALRecord ::
    "(nat \<Rightarrow> nat \<Rightarrow> nat) \<Rightarrow> Geometry \<Rightarrow> go_buffer \<Rightarrow> Coord \<Rightarrow> bytes \<Rightarrow> bytes \<Rightarrow> go_buffer" where
  "appendWALRecord grow g encoded coord payload presence =
     (let recordBytes = walHeaderBytes + length payload + length presence + checksumSize;
          encoded = (if buf_cap encoded < recordBytes then \<lparr>buf_bytes = [], buf_cap = recordBytes\<rparr> else encoded);
          recordStart = length (buf_bytes encoded);
          encoded = foldl (buf_append grow) encoded
            [walMagic, le_bytes 4 (ChunkEdge (config g)), le_bytes 4 (LargeChunkEdge (config g)),
             [BlockBits (config g), 0, 0, 0], le_bytes 8 (coord_X coord), le_bytes 8 (coord_Y coord),
             payload, presence]
      in buf_append grow encoded (le_bytes 4 (ChecksumIEEE (drop recordStart (buf_bytes encoded)))))"

definition wal_record :: "Geometry \<Rightarrow> walRecord \<Rightarrow> bytes" where
  "wal_record g r = seal (wal_header g (wal_coord r) @ wal_payload r @ wal_presence r)"

definition decodeWALRecord :: "Geometry \<Rightarrow> bytes \<Rightarrow> walRecord result" where
  "decodeWALRecord g encoded =
     (let magic = take (length walMagic) encoded
      in if magic \<noteq> walMagic \<and> magic \<noteq> legacyWALMagic then Inl [ErrCorruptWAL]
      else on_err [ErrCorruptWAL] (codec_Uint32 (drop (length encoded - checksumSize) encoded)) (\<lambda>storedChecksum.
      if ChecksumIEEE (take (length encoded - checksumSize) encoded) \<noteq> storedChecksum then Inl [ErrCorruptWAL]
      else on_err [ErrCorruptWAL] (codec_Uint32 (go_slice 8 12 encoded)) (\<lambda>chunkEdge.
      on_err [ErrCorruptWAL] (codec_Uint32 (go_slice 12 16 encoded)) (\<lambda>largeChunkEdge.
      if go_slice 17 20 encoded \<noteq> [0, 0, 0] then Inl [ErrCorruptWAL]
      else let cfg = config g
      in if chunkEdge \<noteq> ChunkEdge cfg \<or> largeChunkEdge \<noteq> LargeChunkEdge cfg \<or> encoded ! 16 \<noteq> BlockBits cfg
         then Inl [ErrCorruptWAL, ErrGeometryMismatch]
      else on_err [ErrCorruptWAL] (codec_Uint64 (go_slice 20 28 encoded)) (\<lambda>x.
      on_err [ErrCorruptWAL] (codec_Uint64 (go_slice 28 36 encoded)) (\<lambda>y.
      let payloadEnd = walHeaderBytes + payloadBytes g;
          payload = go_slice walHeaderBytes payloadEnd encoded
      in if magic = legacyWALMagic
         then on_err [ErrCorruptWAL] (ChunkFromLegacyBytes g payload)
                (\<lambda>chunk. Inr \<lparr>wal_coord = Coord x y, wal_payload = payload, wal_presence = chunk_presence chunk\<rparr>)
         else let presence = go_slice payloadEnd (length encoded - checksumSize) encoded
              in on_err [ErrCorruptWAL] (ChunkFromState g payload presence)
                   (\<lambda>_. Inr \<lparr>wal_coord = Coord x y, wal_payload = payload, wal_presence = presence\<rparr>)))))))"

text \<open>
  \<^verbatim>\<open>scanWAL\<close> on the bytes of the log: the complete bytes and the records visited in order, or the
  error of the first record that does not decode together with the records visited before it.
\<close>

fun scan_records :: "Geometry \<Rightarrow> nat \<Rightarrow> nat \<Rightarrow> bytes \<Rightarrow> walRecord list \<times> error option" where
  "scan_records g recordBytes 0 wal = ([], None)"
| "scan_records g recordBytes (Suc n) wal =
     (case decodeWALRecord g (take recordBytes wal) of
        Inl e \<Rightarrow> ([], Some e)
      | Inr r \<Rightarrow> let (rs, e) = scan_records g recordBytes n (drop recordBytes wal) in (r # rs, e))"

definition scanWAL :: "Geometry \<Rightarrow> bytes \<Rightarrow> nat \<times> walRecord list \<times> error option" where
  "scanWAL g wal =
     (let legacyRecordBytes = walHeaderBytes + payloadBytes g + checksumSize;
          recordBytes = legacyRecordBytes + presenceBytes g;
          magic = take (length walMagic) wal;
          scan = (\<lambda>recordBytes. let n = length wal div recordBytes; (rs, e) = scan_records g recordBytes n wal
                                in (n * recordBytes, rs, e))
      in if length wal \<ge> length walMagic then
           (if magic = walMagic then scan recordBytes
            else if magic = legacyWALMagic then scan legacyRecordBytes
            else if length wal < legacyRecordBytes then (0, [], None)
            else (0, [], Some [ErrCorruptWAL]))
         else scan recordBytes)"

section \<open>Version, intent and snapshot records\<close>

definition versionClockMagic :: bytes where "versionClockMagic = bytes_of ''RGDBVER1''"
definition versionFileMagic :: bytes where "versionFileMagic = bytes_of ''RGDBCVR1''"
definition intentRollbackMagic :: bytes where "intentRollbackMagic = bytes_of ''RGDBIRB1''"
definition intentCommittedMagic :: bytes where "intentCommittedMagic = bytes_of ''RGDBICM1''"
definition snapshotMagic :: bytes where "snapshotMagic = bytes_of ''RGDBSNP1''"

definition mustUint64 :: "bytes \<Rightarrow> uint64" where
  "mustUint64 encoded = (case codec_Uint64 encoded of Inl _ \<Rightarrow> 0 | Inr v \<Rightarrow> v)"

definition mustUint32 :: "bytes \<Rightarrow> uint32" where
  "mustUint32 encoded = (case codec_Uint32 encoded of Inl _ \<Rightarrow> 0 | Inr v \<Rightarrow> v)"

text \<open>The encodings in \<^verbatim>\<open>persistChunkVersion\<close> and \<^verbatim>\<open>persistVersionClock\<close>.\<close>

definition encodeChunkVersion :: "Coord \<Rightarrow> uint64 \<Rightarrow> bytes" where
  "encodeChunkVersion coord version =
     (let encoded = versionFileMagic;
          encoded = codec_AppendUint64 encoded (coord_X coord);
          encoded = codec_AppendUint64 encoded (coord_Y coord);
          encoded = codec_AppendUint64 encoded version
      in codec_AppendUint32 encoded (ChecksumIEEE encoded))"

definition decodeChunkVersion :: "Coord \<Rightarrow> bytes \<Rightarrow> uint64 result" where
  "decodeChunkVersion coord encoded =
     (if length encoded \<noteq> 36 \<or> take 8 encoded \<noteq> versionFileMagic then Inl [ErrCorruptVersion]
      else if ChecksumIEEE (take (length encoded - checksumSize) encoded) \<noteq>
              mustUint32 (drop (length encoded - checksumSize) encoded) then Inl [ErrCorruptVersion]
      else if mustUint64 (go_slice 8 16 encoded) \<noteq> coord_X coord \<or> mustUint64 (go_slice 16 24 encoded) \<noteq> coord_Y coord
      then Inl [ErrCorruptVersion]
      else Inr (mustUint64 (go_slice 24 32 encoded)))"

definition encodeVersionClock :: "uint64 \<Rightarrow> bytes" where
  "encodeVersionClock version =
     (let encoded = codec_AppendUint64 versionClockMagic version in codec_AppendUint32 encoded (ChecksumIEEE encoded))"

definition decodeVersionClock :: "bytes \<Rightarrow> uint64 result" where
  "decodeVersionClock encoded =
     (if length encoded \<noteq> 20 \<or> take 8 encoded \<noteq> versionClockMagic then Inl [ErrCorruptVersion]
      else if ChecksumIEEE (take 16 encoded) \<noteq> mustUint32 (drop 16 encoded) then Inl [ErrCorruptVersion]
      else Inr (mustUint64 (go_slice 8 16 encoded)))"

datatype intentState = intentRollback | intentCommitted

definition encodeIntent :: "intentState \<Rightarrow> uint64 \<Rightarrow> bytes" where
  "encodeIntent state walBoundary =
     (let magic = (if state = intentCommitted then intentCommittedMagic else intentRollbackMagic);
          encoded = codec_AppendUint64 magic walBoundary
      in codec_AppendUint32 encoded (ChecksumIEEE encoded))"

definition decodeIntent :: "bytes \<Rightarrow> (intentState \<times> uint64) result" where
  "decodeIntent encoded =
     (if length encoded \<noteq> 20 \<or> ChecksumIEEE (take 16 encoded) \<noteq> mustUint32 (drop 16 encoded) then Inl [ErrCorruptIntent]
      else if take 8 encoded = intentRollbackMagic then Inr (intentRollback, mustUint64 (go_slice 8 16 encoded))
      else if take 8 encoded = intentCommittedMagic then Inr (intentCommitted, mustUint64 (go_slice 8 16 encoded))
      else Inl [ErrCorruptIntent])"

definition encodeSnapshotGeneration :: "uint64 \<Rightarrow> bytes" where
  "encodeSnapshotGeneration generation =
     (let encoded = codec_AppendUint64 snapshotMagic generation in codec_AppendUint32 encoded (ChecksumIEEE encoded))"

definition decodeSnapshotGeneration :: "bytes \<Rightarrow> uint64 result" where
  "decodeSnapshotGeneration encoded =
     (if length encoded \<noteq> 20 \<or> take 8 encoded \<noteq> snapshotMagic \<or>
         ChecksumIEEE (take 16 encoded) \<noteq> mustUint32 (drop 16 encoded) then Inl [ErrCorruptSnapshot]
      else Inr (mustUint64 (go_slice 8 16 encoded)))"

section \<open>The WAL\<close>

definition recordBytes :: "Geometry \<Rightarrow> nat" where
  "recordBytes g = walHeaderBytes + payloadBytes g + checksumSize + presenceBytes g"

text \<open>A record whose payload and presence make a chunk of the geometry.\<close>

definition wf_record :: "Geometry \<Rightarrow> walRecord \<Rightarrow> bool" where
  "wf_record g r \<longleftrightarrow> (\<exists>c. ChunkFromState g (wal_payload r) (wal_presence r) = Inr c)"

lemma wal_magic_lengths [simp, go_len]: "length walMagic = 8" "length legacyWALMagic = 8"
  by (simp_all add: walMagic_def legacyWALMagic_def)

lemma wal_magics_distinct [simp]: "walMagic \<noteq> legacyWALMagic" "legacyWALMagic \<noteq> walMagic"
  by (simp_all add: walMagic_def legacyWALMagic_def)

lemma length_wal_header [simp, go_len]: "length (wal_header g coord) = 36"
  by (simp add: wal_header_def)

lemma wf_record_lengths:
  "wf_record g r \<Longrightarrow> length (wal_payload r) = payloadBytes g" "wf_record g r \<Longrightarrow> length (wal_presence r) = presenceBytes g"
  by (auto simp: wf_record_def ChunkFromState_def split: if_splits)

lemma length_wal_record: "wf_record g r \<Longrightarrow> length (wal_record g r) = recordBytes g"
  using wf_record_lengths [of g r] by (simp add: wal_record_def recordBytes_def walHeaderBytes_def checksumSize_def)

text \<open>What the Go runtime promises of \<^verbatim>\<open>append\<close>: the new capacity holds the new length.\<close>

definition grow_enough :: "(nat \<Rightarrow> nat \<Rightarrow> nat) \<Rightarrow> bool" where
  "grow_enough grow \<longleftrightarrow> (\<forall>cap n. n \<le> grow cap n)"

lemma buf_bytes_append [simp]: "buf_bytes (buf_append grow b xs) = buf_bytes b @ xs"
  by (simp add: buf_append_def Let_def)

lemma buf_cap_append: "grow_enough grow \<Longrightarrow> buf_cap b \<le> buf_cap (buf_append grow b xs)"
proof -
  assume "grow_enough grow"
  then have "n \<le> grow (buf_cap b) n" for n by (simp add: grow_enough_def)
  then show ?thesis by (auto simp: buf_append_def Let_def not_le intro: order_trans [OF less_imp_le])
qed

lemma appendWALRecord_bytes:
  "buf_bytes (appendWALRecord grow g b coord payload presence) =
     (if buf_cap b < walHeaderBytes + length payload + length presence + checksumSize then [] else buf_bytes b)
     @ wal_record g \<lparr>wal_coord = coord, wal_payload = payload, wal_presence = presence\<rparr>"
  by (simp add: appendWALRecord_def wal_record_def wal_header_def seal_def Let_def)

lemma appendWALRecord_cap:
  assumes "grow_enough grow"
  shows "walHeaderBytes + length payload + length presence + checksumSize \<le>
         buf_cap (appendWALRecord grow g b coord payload presence)"
proof -
  have "buf_cap b \<le> buf_cap (foldl (buf_append grow) b xss)" for b xss
    by (induction xss arbitrary: b) (auto intro: order_trans [OF buf_cap_append [OF assms]])
  note mono = order_trans [OF this buf_cap_append [OF assms]]
  show ?thesis unfolding appendWALRecord_def Let_def by (rule order_trans [OF _ mono]) simp
qed

text \<open>
  Records of one store have one size, so the buffer of a batch never drops a record: it is reset only
  while it is still empty.
\<close>

lemma appendWALRecord_batch:
  assumes "grow_enough grow" "\<forall>r\<in>set rs. wf_record g r" "buf_bytes b = [] \<or> recordBytes g \<le> buf_cap b"
  shows "buf_bytes (foldl (\<lambda>b r. appendWALRecord grow g b (wal_coord r) (wal_payload r) (wal_presence r)) b rs) =
         buf_bytes b @ concat (map (wal_record g) rs)"
  using assms(2,3)
proof (induction rs arbitrary: b)
  case (Cons r rs)
  let ?b = "appendWALRecord grow g b (wal_coord r) (wal_payload r) (wal_presence r)"
  have sz: "walHeaderBytes + length (wal_payload r) + length (wal_presence r) + checksumSize = recordBytes g"
    using wf_record_lengths [of g r] Cons.prems(1) by (simp add: recordBytes_def)
  have "recordBytes g \<le> buf_cap ?b" using appendWALRecord_cap [OF assms(1)] sz by metis
  then have "buf_bytes (foldl (\<lambda>b r. appendWALRecord grow g b (wal_coord r) (wal_payload r) (wal_presence r)) ?b rs) =
      buf_bytes ?b @ concat (map (wal_record g) rs)" using Cons.IH Cons.prems(1) by simp
  moreover have "buf_bytes ?b = buf_bytes b @ wal_record g r"
    using Cons.prems(2) sz by (cases r) (auto simp: appendWALRecord_bytes)
  ultimately show ?case by simp
qed simp

lemma wal_slices:
  "take 8 (wal_header g coord @ rest) = walMagic"
  "go_slice 8 12 (wal_header g coord @ rest) = le_bytes 4 (ChunkEdge (config g))"
  "go_slice 12 16 (wal_header g coord @ rest) = le_bytes 4 (LargeChunkEdge (config g))"
  "(wal_header g coord @ rest) ! 16 = BlockBits (config g)"
  "go_slice 17 20 (wal_header g coord @ rest) = [0, 0, 0]"
  "go_slice 20 28 (wal_header g coord @ rest) = le_bytes 8 (coord_X coord)"
  "go_slice 28 36 (wal_header g coord @ rest) = le_bytes 8 (coord_Y coord)"
  by (simp_all add: wal_header_def slice_skip slice_hit nth_append) (simp_all add: go_slice_def numeral_3_eq_3)

lemma decodeWALRecord_record [go_codec]:
  assumes "wf_record g r"
  shows "decodeWALRecord g (wal_record g r) = Inr r"
proof -
  note l = wf_record_lengths [OF assms]
  obtain c where c: "ChunkFromState g (wal_payload r) (wal_presence r) = Inr c" using assms by (auto simp: wf_record_def)
  define body where "body = wal_header g (wal_coord r) @ wal_payload r @ wal_presence r"
  define enc where "enc = body @ le_bytes 4 (ChecksumIEEE body)"
  have e: "wal_record g r = enc" by (simp add: wal_record_def seal_def body_def enc_def)
  have h: "take 8 enc = walMagic" "go_slice 8 12 enc = le_bytes 4 (ChunkEdge (config g))"
    "go_slice 12 16 enc = le_bytes 4 (LargeChunkEdge (config g))" "enc ! 16 = BlockBits (config g)"
    "go_slice 17 20 enc = [0, 0, 0]" "go_slice 20 28 enc = le_bytes 8 (coord_X (wal_coord r))"
    "go_slice 28 36 enc = le_bytes 8 (coord_Y (wal_coord r))"
    unfolding enc_def body_def append_assoc by (rule wal_slices)+
  have n: "length enc = 36 + payloadBytes g + presenceBytes g + 4" by (simp add: enc_def body_def l)
  have p: "go_slice 36 (36 + payloadBytes g) enc = wal_payload r"
    "go_slice (36 + payloadBytes g) (length enc - 4) enc = wal_presence r"
    unfolding n by (simp_all add: enc_def body_def slice_skip slice_hit l)
  have s: "take (length enc - 4) enc = body" "drop (length enc - 4) enc = le_bytes 4 (ChecksumIEEE body)"
    by (simp_all add: enc_def)
  show ?thesis unfolding e decodeWALRecord_def wal_magic_lengths checksumSize_def walHeaderBytes_def h s p Let_def
    using c by simp
qed

lemma scan_records_append:
  assumes "\<forall>r\<in>set rs. wf_record g r"
  shows "scan_records g (recordBytes g) (length rs) (concat (map (wal_record g) rs) @ tail) = (rs, None)"
  using assms by (induction rs) (simp_all add: length_wal_record decodeWALRecord_record)

lemma take_wal_record: "take 8 (wal_record g r @ rest) = walMagic"
  unfolding wal_record_def seal_def append_assoc by (rule wal_slices)

lemma wf_record_size: "wf_record g r \<Longrightarrow> 40 \<le> recordBytes g"
  by (simp add: recordBytes_def walHeaderBytes_def checksumSize_def)

text \<open>Whole records followed by a proper prefix of another record: the prefix is ignored.\<close>

lemma scanWAL_records:
  assumes "\<forall>r\<in>set rs. wf_record g r" "wf_record g r'" "k < recordBytes g"
  shows "scanWAL g (concat (map (wal_record g) rs) @ take k (wal_record g r')) =
         (length rs * recordBytes g, rs, None)"
proof -
  let ?w = "concat (map (wal_record g) rs) @ take k (wal_record g r')"
  have "length (concat (map (wal_record g) rs)) = length rs * recordBytes g"
    using assms(1) by (induction rs) (simp_all add: length_wal_record)
  then have l: "length ?w = length rs * recordBytes g + k"
    using assms(3) length_wal_record [OF assms(2)] by simp
  then have n: "length ?w div recordBytes g = length rs" using assms(3) by simp
  have m: "take 8 ?w = walMagic" if "8 \<le> length ?w"
  proof (cases rs)
    case Nil
    then have "8 \<le> k" using that l by simp
    then show ?thesis using take_wal_record [of g r' "[]"] Nil by (simp add: min_def)
  next
    case (Cons r rs')
    then show ?thesis using take_wal_record [of g r "concat (map (wal_record g) rs') @ take k (wal_record g r')"] by simp
  qed
  note sc = scan_records_append [OF assms(1), of "take k (wal_record g r')"]
  have rb: "walHeaderBytes + payloadBytes g + checksumSize + presenceBytes g = recordBytes g" by (simp add: recordBytes_def)
  show ?thesis unfolding scanWAL_def wal_magic_lengths Let_def rb n sc using m by simp
qed

lemma scanWAL_whole:
  assumes "\<forall>r\<in>set rs. wf_record g r"
  shows "scanWAL g (concat (map (wal_record g) rs)) = (length rs * recordBytes g, rs, None)"
proof (cases rs)
  case Nil
  then show ?thesis by (simp add: scanWAL_def Let_def)
next
  case (Cons r rs')
  then show ?thesis using scanWAL_records [OF assms, of r 0] assms wf_record_size [of g r] by simp
qed

section \<open>Short sealed records\<close>

lemma mustUint_le [simp]: "mustUint32 (le_bytes 4 v) = v" "mustUint64 (le_bytes 8 w) = w"
  by (simp_all add: mustUint32_def mustUint64_def)

lemma mustUint_exact:
  "length src = 4 \<Longrightarrow> mustUint32 src = v \<longleftrightarrow> src = le_bytes 4 v" "length src = 8 \<Longrightarrow> mustUint64 src = w \<longleftrightarrow> src = le_bytes 8 w"
  using codec_Uint_exact [of src] by (auto simp: mustUint32_def mustUint64_def codec_Uint32_def codec_Uint64_def split: sum.splits)

text \<open>A record of a magic and one 64-bit value.\<close>

lemma short_record_iff:
  assumes "length magic = 8"
  shows "length enc = 20 \<and> take 8 enc = magic \<and> ChecksumIEEE (take 16 enc) = mustUint32 (drop 16 enc) \<and>
         mustUint64 (go_slice 8 16 enc) = v \<longleftrightarrow> enc = seal (magic @ le_bytes 8 v)"
proof
  assume a: "length enc = 20 \<and> take 8 enc = magic \<and> ChecksumIEEE (take 16 enc) = mustUint32 (drop 16 enc) \<and>
         mustUint64 (go_slice 8 16 enc) = v"
  then have s: "go_slice 8 16 enc = le_bytes 8 v" by (subst mustUint_exact(2) [symmetric]) (simp_all add: length_slice)
  have c: "drop 16 enc = le_bytes 4 (ChecksumIEEE (take 16 enc))" using a by (subst mustUint_exact(1) [symmetric]) simp_all
  have "take 16 enc = go_slice 0 8 enc @ go_slice 8 16 enc" by (simp add: slice_glue) (simp add: go_slice_def)
  then have "take 16 enc = magic @ le_bytes 8 v" using a s by (simp add: go_slice_def)
  then show "enc = seal (magic @ le_bytes 8 v)" unfolding seal_def using c by (metis append_take_drop_id)
next
  assume "enc = seal (magic @ le_bytes 8 v)"
  then show "length enc = 20 \<and> take 8 enc = magic \<and> ChecksumIEEE (take 16 enc) = mustUint32 (drop 16 enc) \<and>
         mustUint64 (go_slice 8 16 enc) = v"
    using assms by (simp add: seal_def slice_skip slice_hit)
qed

lemma record_magic_lengths [simp, go_len]:
  "length versionClockMagic = 8" "length versionFileMagic = 8" "length intentRollbackMagic = 8"
  "length intentCommittedMagic = 8" "length snapshotMagic = 8"
  by (simp_all add: versionClockMagic_def versionFileMagic_def intentRollbackMagic_def intentCommittedMagic_def snapshotMagic_def)

lemma intent_magics_distinct [simp]: "intentRollbackMagic \<noteq> intentCommittedMagic" "intentCommittedMagic \<noteq> intentRollbackMagic"
  by (simp_all add: intentRollbackMagic_def intentCommittedMagic_def)

lemma encode_short_records:
  "encodeVersionClock v = seal (versionClockMagic @ le_bytes 8 v)"
  "encodeSnapshotGeneration v = seal (snapshotMagic @ le_bytes 8 v)"
  "encodeIntent st v = seal ((if st = intentCommitted then intentCommittedMagic else intentRollbackMagic) @ le_bytes 8 v)"
  by (simp_all add: encodeVersionClock_def encodeSnapshotGeneration_def encodeIntent_def seal_def
      codec_AppendUint32_def codec_AppendUint64_def Let_def)

lemma decodeVersionClock_iff: "decodeVersionClock enc = Inr v \<longleftrightarrow> enc = encodeVersionClock v"
  unfolding encode_short_records short_record_iff [OF record_magic_lengths(1), symmetric]
  by (auto simp: decodeVersionClock_def)

lemma decodeSnapshotGeneration_iff: "decodeSnapshotGeneration enc = Inr v \<longleftrightarrow> enc = encodeSnapshotGeneration v"
  unfolding encode_short_records short_record_iff [OF record_magic_lengths(5), symmetric]
  by (auto simp: decodeSnapshotGeneration_def)

lemma decodeIntent_iff: "decodeIntent enc = Inr (st, v) \<longleftrightarrow> enc = encodeIntent st v"
  unfolding encode_short_records
  by (cases st; simp add: short_record_iff [OF record_magic_lengths(3), symmetric] short_record_iff [OF record_magic_lengths(4), symmetric])
    (auto simp: decodeIntent_def)

lemma encodeChunkVersion_eq:
  "encodeChunkVersion coord v = seal (versionFileMagic @ le_bytes 8 (coord_X coord) @ le_bytes 8 (coord_Y coord) @ le_bytes 8 v)"
  by (simp add: encodeChunkVersion_def seal_def codec_AppendUint32_def codec_AppendUint64_def Let_def)

lemma decodeChunkVersion_iff: "decodeChunkVersion coord enc = Inr v \<longleftrightarrow> enc = encodeChunkVersion coord v"
proof
  assume d: "decodeChunkVersion coord enc = Inr v"
  then have l: "length enc = 36" and m: "take 8 enc = versionFileMagic"
    and f: "mustUint64 (go_slice 8 16 enc) = coord_X coord" "mustUint64 (go_slice 16 24 enc) = coord_Y coord"
      "mustUint64 (go_slice 24 32 enc) = v" and c: "mustUint32 (drop 32 enc) = ChecksumIEEE (take 32 enc)"
    by (auto simp: decodeChunkVersion_def checksumSize_def split: if_splits)
  note f = f [unfolded mustUint_exact(2) [OF length_slice [of 16 enc 8, simplified l, simplified]]
      mustUint_exact(2) [OF length_slice [of 24 enc 16, simplified l, simplified]]
      mustUint_exact(2) [OF length_slice [of 32 enc 24, simplified l, simplified]]]
  have "take 32 enc = go_slice 0 8 enc @ go_slice 8 16 enc @ go_slice 16 24 enc @ go_slice 24 32 enc"
    by (simp add: slice_glue) (simp add: go_slice_def)
  then have "take 32 enc = versionFileMagic @ le_bytes 8 (coord_X coord) @ le_bytes 8 (coord_Y coord) @ le_bytes 8 v"
    using f m by (simp add: go_slice_def)
  moreover have "drop 32 enc = le_bytes 4 (ChecksumIEEE (take 32 enc))" using c l by (subst mustUint_exact(1) [symmetric]) simp_all
  ultimately show "enc = encodeChunkVersion coord v" unfolding encodeChunkVersion_eq seal_def by (metis append_take_drop_id)
next
  assume "enc = encodeChunkVersion coord v"
  then show "decodeChunkVersion coord enc = Inr v"
    unfolding encodeChunkVersion_eq seal_def decodeChunkVersion_def checksumSize_def by (simp add: slice_skip slice_hit)
qed

section \<open>Corrupted logs\<close>

lemma decodeWALRecord_sealed: "4 \<le> length enc \<Longrightarrow> decodeWALRecord g enc = Inr r \<Longrightarrow> sealed enc"
  using codec_Uint_exact(1) [of "drop (length enc - 4) enc"]
  by (auto simp: decodeWALRecord_def Let_def on_err_Inr_iff checksumSize_def sealed_def le_word_le_bytes split: if_splits)

lemma decodeWALRecord_Inl: "decodeWALRecord g enc = Inl e \<Longrightarrow> errors_is e ErrCorruptWAL"
  by (auto simp: decodeWALRecord_def Let_def on_err_def errors_is_def split: if_splits sum.splits)

lemma decodeWALRecord_changed:
  assumes "wf_record g r" "i < recordBytes g" "b \<noteq> wal_record g r ! i"
  shows "\<exists>e. decodeWALRecord g ((wal_record g r)[i := b]) = Inl e \<and> errors_is e ErrCorruptWAL"
proof -
  note l = length_wal_record [OF assms(1)]
  have "\<not> sealed ((wal_record g r)[i := b])"
    using sealed_change_detected [of "wal_record g r" i b] assms(2,3) l by (simp add: wal_record_def)
  then show ?thesis
    using decodeWALRecord_sealed [of "(wal_record g r)[i := b]" g] wf_record_size [OF assms(1)] l
      decodeWALRecord_Inl [of g "(wal_record g r)[i := b]"]
    by (cases "decodeWALRecord g ((wal_record g r)[i := b])") auto
qed

lemma concat_update:
  assumes "\<forall>x\<in>set xs. length (f x) = n" "i < length xs * n"
  shows "(concat (map f xs))[i := b] =
    concat (map f (take (i div n) xs)) @ (f (xs ! (i div n)))[i mod n := b] @ concat (map f (drop (Suc (i div n)) xs))"
    and "concat (map f xs) ! i = f (xs ! (i div n)) ! (i mod n)" and "i div n < length xs"
proof -
  have "(concat (map f xs))[i := b] =
      concat (map f (take (i div n) xs)) @ (f (xs ! (i div n)))[i mod n := b] @ concat (map f (drop (Suc (i div n)) xs)) \<and>
      concat (map f xs) ! i = f (xs ! (i div n)) ! (i mod n) \<and> i div n < length xs"
    using assms
  proof (induction xs arbitrary: i)
    case (Cons x xs)
    have n: "0 < n" using Cons.prems(2) by (cases n) auto
    show ?case
    proof (cases "i < n")
      case True
      then show ?thesis using Cons.prems(1) by (simp add: list_update_append nth_append)
    next
      case False
      have "i - n < length xs * n" using Cons.prems(2) False by simp
      note ih = Cons.IH [OF _ this]
      have d: "i div n = Suc ((i - n) div n)" "i mod n = (i - n) mod n"
        using False n by (simp_all add: le_div_geq le_mod_geq)
      show ?thesis using ih Cons.prems(1) False by (simp add: d list_update_append nth_append)
    qed
  qed simp
  then show "(concat (map f xs))[i := b] =
    concat (map f (take (i div n) xs)) @ (f (xs ! (i div n)))[i mod n := b] @ concat (map f (drop (Suc (i div n)) xs))"
    and "concat (map f xs) ! i = f (xs ! (i div n)) ! (i mod n)" and "i div n < length xs" by blast+
qed

lemma scan_records_stop:
  assumes "\<forall>r\<in>set rs. wf_record g r" "decodeWALRecord g bad = Inl e" "length bad = recordBytes g"
  shows "scan_records g (recordBytes g) (length rs + Suc n) (concat (map (wal_record g) rs) @ bad @ tail) = (rs, Some e)"
  using assms(1)
proof (induction rs)
  case Nil
  then show ?case using assms(2,3) by simp
next
  case (Cons r rs)
  then show ?case by (simp add: length_wal_record decodeWALRecord_record)
qed

lemma scanWAL_changed:
  assumes "\<forall>r\<in>set rs. wf_record g r" "i < length rs * recordBytes g" "\<not> (i = 7 \<and> b = legacyWALMagic ! 7)"
    and "b \<noteq> concat (map (wal_record g) rs) ! i"
  shows "\<exists>n visited e. scanWAL g ((concat (map (wal_record g) rs))[i := b]) = (n, visited, Some e) \<and>
    errors_is e ErrCorruptWAL \<and> visited = take (i div recordBytes g) rs"
proof -
  let ?n = "recordBytes g" and ?w = "(concat (map (wal_record g) rs))[i := b]"
  let ?j = "i div ?n"
  have lens: "\<forall>r\<in>set rs. length (wal_record g r) = ?n" using assms(1) by (simp add: length_wal_record)
  note u = concat_update [OF lens assms(2)]
  obtain r0 rs' where rs: "rs = r0 # rs'" using assms(2) by (cases rs) auto
  have sz: "40 \<le> ?n" using wf_record_size [of g r0] assms(1) rs by simp
  have lw: "length ?w = length rs * ?n" using lens by (induction rs) simp_all
  have big: "?n \<le> length ?w" using lw rs by simp
  have t: "take 8 (concat (map (wal_record g) rs)) = walMagic" using take_wal_record rs by simp
  have lb: "walHeaderBytes + payloadBytes g + checksumSize \<le> ?n" "walHeaderBytes + payloadBytes g + checksumSize + presenceBytes g = ?n"
    by (simp_all add: recordBytes_def)
  show ?thesis
  proof (cases "i < 8")
    case True
    then have i: "?j = 0" using sz by simp
    have m: "take 8 ?w = walMagic[i := b]" using t True by (simp add: take_update_swap)
    have v: "walMagic ! i = concat (map (wal_record g) rs) ! i" using t True by (metis nth_take)
    have "walMagic[i := b] \<noteq> walMagic"
    proof
      assume "walMagic[i := b] = walMagic"
      then have "walMagic[i := b] ! i = walMagic ! i" by simp
      then show False using assms(4) v True by simp
    qed
    moreover have "walMagic[i := b] \<noteq> legacyWALMagic"
    proof
      assume l: "walMagic[i := b] = legacyWALMagic"
      have "walMagic ! 7 \<noteq> legacyWALMagic ! 7" "length walMagic = 8" by code_simp+
      then have "i = 7" using l by (metis nth_list_update_neq)
      moreover have "walMagic[7 := b] ! 7 = b" using \<open>length walMagic = 8\<close> by simp
      ultimately show False using l assms(3) by metis
    qed
    ultimately have "scanWAL g ?w = (0, [], Some [ErrCorruptWAL])"
      unfolding scanWAL_def wal_magic_lengths Let_def m using big sz lb by simp
    then show ?thesis using i by (simp add: errors_is_def)
  next
    case False
    obtain e where e: "decodeWALRecord g ((wal_record g (rs ! ?j))[i mod ?n := b]) = Inl e" "errors_is e ErrCorruptWAL"
      using decodeWALRecord_changed [of g "rs ! ?j" "i mod ?n" b] assms(1,4) u(2,3) sz by force
    have "length rs = length (take ?j rs) + Suc (length rs - Suc ?j)" using u(3) by simp
    moreover have "\<forall>r\<in>set (take ?j rs). wf_record g r" using assms(1) by (auto dest: in_set_takeD)
    moreover have "length ((wal_record g (rs ! ?j))[i mod ?n := b]) = ?n" using lens u(3) by simp
    ultimately have sc: "scan_records g ?n (length rs) ?w = (take ?j rs, Some e)"
      unfolding u(1) using scan_records_stop e(1) by metis
    have m: "take 8 ?w = walMagic" using t False by (simp add: take_update_swap list_update_beyond)
    have "scanWAL g ?w = (length rs * ?n, take ?j rs, Some e)"
      unfolding scanWAL_def wal_magic_lengths Let_def m lb(2) using big sz lw sc by simp
    then show ?thesis using e(2) by blast
  qed
qed

section \<open>The properties of records\<close>

text \<open>A small geometry and records for concrete instances of the properties.\<close>

definition sample_geometry :: Geometry where
  "sample_geometry = \<lparr>config = \<lparr>ChunkEdge = 2, LargeChunkEdge = 1, BlockBits = 3\<rparr>, blockCount = 4,
     payloadBytes = 2, presenceBytes = 1\<rparr>"

definition sample_record :: "int64 \<Rightarrow> walRecord" where
  "sample_record y = \<lparr>wal_coord = Coord 0 y, wal_payload = [5, 0], wal_presence = [1]\<rparr>"

lemma wf_sample_geometry: "wf_geometry sample_geometry"
  by code_simp

lemma wf_sample_record: "wf_record sample_geometry (sample_record y)"
proof -
  have "ChunkFromState sample_geometry [5, 0] [1] = Inr \<lparr>chunk_geometry = sample_geometry,
      chunk_codec = \<lparr>codec_width = 3, codec_order = LSBFirst\<rparr>, chunk_payload = [5, 0], chunk_presence = [1]\<rparr>" by code_simp
  then show ?thesis by (simp add: wf_record_def sample_record_def)
qed

lemma sample_recordBytes: "recordBytes sample_geometry = 43"
  by (simp add: recordBytes_def sample_geometry_def walHeaderBytes_def checksumSize_def)

text \<open>
  The WAL buffer of a batch holds exactly the records of the batch, in order: although
  \<^verbatim>\<open>appendWALRecord\<close> discards a buffer that is too small for one record, no record is ever lost,
  whatever capacities the runtime's \<^verbatim>\<open>append\<close> chooses.
\<close>

theorem wal_batch_complete:
  assumes "grow_enough grow" "\<forall>r\<in>set rs. wf_record g r"
  shows "buf_bytes (foldl (\<lambda>b r. appendWALRecord grow g b (wal_coord r) (wal_payload r) (wal_presence r))
           \<lparr>buf_bytes = [], buf_cap = 0\<rparr> rs) = concat (map (wal_record g) rs)"
  using appendWALRecord_batch [OF assms, of "\<lparr>buf_bytes = [], buf_cap = 0\<rparr>"] by simp

theorem wal_batch_complete_witness:
  "buf_bytes (foldl (\<lambda>b r. appendWALRecord (\<lambda>cap n. n) sample_geometry b (wal_coord r) (wal_payload r) (wal_presence r))
           \<lparr>buf_bytes = [], buf_cap = 0\<rparr> [sample_record 1, sample_record 2]) =
   wal_record sample_geometry (sample_record 1) @ wal_record sample_geometry (sample_record 2)"
  using wal_batch_complete [of "\<lambda>cap n. n" "[sample_record 1, sample_record 2]" sample_geometry] wf_sample_record
  by (simp add: grow_enough_def)

text \<open>
  (C27) Scanning a log of complete records followed by a torn append (a proper prefix of one more
  record, of any length) returns exactly the complete records, in order, and the offset where the
  torn tail starts, without an error.
\<close>

theorem wal_scan_ignores_torn_tail:
  assumes "\<forall>r\<in>set rs. wf_record g r" "wf_record g r'" "k < recordBytes g"
  shows "scanWAL g (concat (map (wal_record g) rs) @ take k (wal_record g r')) = (length rs * recordBytes g, rs, None)"
  using assms by (rule scanWAL_records)

theorem wal_scan_ignores_torn_tail_witness:
  "scanWAL sample_geometry (wal_record sample_geometry (sample_record 1) @ take 17 (wal_record sample_geometry (sample_record 2))) =
     (43, [sample_record 1], None)"
  using wal_scan_ignores_torn_tail [of "[sample_record 1]" sample_geometry "sample_record 2" 17] wf_sample_record
  by (simp add: sample_recordBytes)

text \<open>
  (C28) Changing any single byte of a log of complete records is detected: the scan fails with \<^verbatim>\<open>ErrCorruptWAL\<close> and has visited
  exactly the records that precede the damaged one.  One change is excepted, the format digit of the first record becoming that of
  the legacy format, which makes the scan read the whole log with the shorter legacy records.
\<close>

theorem wal_scan_detects_corruption:
  assumes "\<forall>r\<in>set rs. wf_record g r" "i < length rs * recordBytes g" "\<not> (i = 7 \<and> b = legacyWALMagic ! 7)"
    and "b \<noteq> concat (map (wal_record g) rs) ! i"
  shows "\<exists>n visited e. scanWAL g ((concat (map (wal_record g) rs))[i := b]) = (n, visited, Some e) \<and>
    errors_is e ErrCorruptWAL \<and> visited = take (i div recordBytes g) rs"
  using assms by (rule scanWAL_changed)

theorem wal_scan_detects_corruption_witness:
  "\<exists>n visited e. scanWAL sample_geometry ((wal_record sample_geometry (sample_record 1))[36 := 4]) = (n, visited, Some e) \<and>
     errors_is e ErrCorruptWAL \<and> visited = []"
proof -
  have "wal_record sample_geometry (sample_record 1) ! 36 = 5" by (simp add: wal_record_def seal_def nth_append sample_record_def)
  then show ?thesis
    using wal_scan_detects_corruption [of "[sample_record 1]" sample_geometry 36 4] wf_sample_record by (simp add: sample_recordBytes)
qed

text \<open>
  (C29) Version clock, chunk version, commit intent and snapshot generation files are read back
  exactly: a decoder returns a value precisely for the one byte string the encoder writes for it, so
  anything torn, corrupted or belonging to another chunk is rejected.
\<close>

theorem metadata_codecs_exact:
  "(decodeVersionClock enc = Inr v \<longleftrightarrow> enc = encodeVersionClock v) \<and>
   (decodeChunkVersion coord enc = Inr v \<longleftrightarrow> enc = encodeChunkVersion coord v) \<and>
   (decodeIntent enc = Inr (st, v) \<longleftrightarrow> enc = encodeIntent st v) \<and>
   (decodeSnapshotGeneration enc = Inr v \<longleftrightarrow> enc = encodeSnapshotGeneration v)"
  by (simp only: decodeVersionClock_iff decodeChunkVersion_iff decodeIntent_iff decodeSnapshotGeneration_iff)

end
