(* ===== verification/Cache.thy ===== *)
theory Cache
  imports Records Chunk "HOL-Library.AList" "HOL-Library.Multiset"
begin

text \<open>
  The chunk cache (\<^verbatim>\<open>fs_split/cache.go\<close>, \<^verbatim>\<open>cache_eviction.go\<close>, \<^verbatim>\<open>cache_maintenance.go\<close>): a bounded map from
  coordinates to entries with second-chance eviction.  Entries are objects on an explicit heap, the
  eviction ring is the doubly linked list the code maintains by pointer updates, and the buffers of
  evicted entries are recycled through the maintenance queue and the free list.  The ring operations
  refine list operations (\<open>ring_rep_pushFront\<close>, \<open>ring_rep_remove\<close>, \<open>ring_rep_moveToFront\<close>); the cache
  operations refine a bounded map (\<open>chunk_cache\<close> below).
\<close>

section \<open>The code\<close>

type_synonym addr = nat

record cacheEntry =
  ce_coord :: Coord
  ce_payload :: bytes
  ce_presence :: bytes
  ce_recentlyUsed :: bool
  ce_previous :: "addr option"
  ce_next :: "addr option"

record evictionRing =
  ring_front :: "addr option"
  ring_back :: "addr option"
  ring_length :: nat

type_synonym heap = "addr \<Rightarrow> cacheEntry"
type_synonym evictionTask = "addr option \<times> Coord"

definition set_previous :: "addr \<Rightarrow> addr option \<Rightarrow> heap \<Rightarrow> heap" where
  "set_previous a p h = h(a := (h a)\<lparr>ce_previous := p\<rparr>)"

definition set_next :: "addr \<Rightarrow> addr option \<Rightarrow> heap \<Rightarrow> heap" where
  "set_next a n h = h(a := (h a)\<lparr>ce_next := n\<rparr>)"

definition pushFront :: "addr \<Rightarrow> heap \<times> evictionRing \<Rightarrow> heap \<times> evictionRing" where
  "pushFront entry s =
     (let (h, ring) = s;
          h = set_previous entry None h;
          h = set_next entry (ring_front ring) h;
          (h, ring) = (case ring_front ring of
                         None \<Rightarrow> (h, ring\<lparr>ring_back := Some entry\<rparr>)
                       | Some f \<Rightarrow> (set_previous f (Some entry) h, ring))
      in (h, ring\<lparr>ring_front := Some entry, ring_length := ring_length ring + 1\<rparr>))"

definition ring_remove :: "addr \<Rightarrow> heap \<times> evictionRing \<Rightarrow> heap \<times> evictionRing" where
  "ring_remove entry s =
     (let (h, ring) = s;
          (h, ring) = (case ce_previous (h entry) of
                         None \<Rightarrow> (h, ring\<lparr>ring_front := ce_next (h entry)\<rparr>)
                       | Some p \<Rightarrow> (set_next p (ce_next (h entry)) h, ring));
          (h, ring) = (case ce_next (h entry) of
                         None \<Rightarrow> (h, ring\<lparr>ring_back := ce_previous (h entry)\<rparr>)
                       | Some n \<Rightarrow> (set_previous n (ce_previous (h entry)) h, ring));
          h = set_previous entry None h;
          h = set_next entry None h
      in (h, ring\<lparr>ring_length := ring_length ring - 1\<rparr>))"

definition moveToFront :: "addr \<Rightarrow> heap \<times> evictionRing \<Rightarrow> heap \<times> evictionRing" where
  "moveToFront entry s = (if ring_front (snd s) = Some entry then s else pushFront entry (ring_remove entry s))"

text \<open>
  The cache.  The map of entries is an association list, the allocator is a counter, the channel of
  the maintenance worker is a bounded queue, and \<open>cc_inflight\<close> is the task the worker has received and
  not yet finished.
\<close>

record chunkCache =
  cc_geometry :: Geometry
  cc_max :: nat
  cc_heap :: heap
  cc_fresh :: addr
  cc_entries :: "(Coord \<times> addr) list"
  cc_ring :: evictionRing
  cc_free :: "addr list"
  cc_queue :: "evictionTask list"
  cc_inflight :: "evictionTask option"
  cc_started :: bool
  cc_closed :: bool
  cc_loaded :: int
  cc_hits :: uint64
  cc_misses :: uint64
  cc_evictions :: uint64
  cc_evictionRuns :: uint64

definition cacheMaintenanceQueueSize :: nat where
  "cacheMaintenanceQueueSize = 16"

definition zero_entry :: cacheEntry where
  "zero_entry = \<lparr>ce_coord = Coord 0 0, ce_payload = [], ce_presence = [], ce_recentlyUsed = False,
                 ce_previous = None, ce_next = None\<rparr>"

definition newChunkCache :: "Geometry \<Rightarrow> nat \<Rightarrow> chunkCache" where
  "newChunkCache g mx =
     \<lparr>cc_geometry = g, cc_max = mx, cc_heap = (\<lambda>_. zero_entry), cc_fresh = 0, cc_entries = [],
      cc_ring = \<lparr>ring_front = None, ring_back = None, ring_length = 0\<rparr>, cc_free = [], cc_queue = [], cc_inflight = None,
      cc_started = False, cc_closed = False, cc_loaded = 0, cc_hits = 0, cc_misses = 0, cc_evictions = 0,
      cc_evictionRuns = 0\<rparr>"

definition startMaintenance :: "chunkCache \<Rightarrow> chunkCache" where
  "startMaintenance c = (if cc_started c \<or> cc_closed c then c else c\<lparr>cc_started := True\<rparr>)"

definition cache_on_ring :: "(heap \<times> evictionRing \<Rightarrow> heap \<times> evictionRing) \<Rightarrow> chunkCache \<Rightarrow> chunkCache" where
  "cache_on_ring f c = (let (h, r) = f (cc_heap c, cc_ring c) in c\<lparr>cc_heap := h, cc_ring := r\<rparr>)"

definition touch :: "addr \<Rightarrow> bool \<Rightarrow> chunkCache \<Rightarrow> chunkCache" where
  "touch a used c = c\<lparr>cc_heap := (cc_heap c)(a := (cc_heap c a)\<lparr>ce_recentlyUsed := used\<rparr>)\<rparr>"

definition cache_get :: "Coord \<Rightarrow> chunkCache \<Rightarrow> Chunk option result \<times> chunkCache" where
  "cache_get coord c =
     (case map_of (cc_entries c) coord of
        None \<Rightarrow> (Inr None, c\<lparr>cc_misses := cc_misses c + 1\<rparr>)
      | Some element \<Rightarrow>
          let c = c\<lparr>cc_hits := cc_hits c + 1\<rparr>;
              c = touch element True c;
              c = cache_on_ring (moveToFront element) c
          in case ChunkFromState (cc_geometry c) (ce_payload (cc_heap c element)) (ce_presence (cc_heap c element)) of
               Inl e \<Rightarrow> (Inl e, c)
             | Inr chunk \<Rightarrow> (Inr (Some chunk), c))"

text \<open>\<^verbatim>\<open>copy(dst, src)\<close> overwrites the common prefix.\<close>

definition go_copy :: "bytes \<Rightarrow> bytes \<Rightarrow> bytes" where
  "go_copy dst src = take (length dst) src @ drop (length src) dst"

definition takeFreeEntry :: "chunkCache \<Rightarrow> addr \<times> chunkCache" where
  "takeFreeEntry c =
     (if cc_free c \<noteq> [] then (last (cc_free c), c\<lparr>cc_free := butlast (cc_free c)\<rparr>)
      else let a = cc_fresh c
           in (a, c\<lparr>cc_fresh := a + 1,
                    cc_heap := (cc_heap c)(a := zero_entry\<lparr>ce_payload := replicate (payloadBytes (cc_geometry c)) 0,
                                                          ce_presence := replicate (presenceBytes (cc_geometry c)) 0\<rparr>)\<rparr>))"

definition admit :: "addr \<Rightarrow> Coord \<Rightarrow> bytes \<Rightarrow> bytes \<Rightarrow> chunkCache \<Rightarrow> chunkCache" where
  "admit entry coord payload presence c =
     (let e = cc_heap c entry;
          e = e\<lparr>ce_coord := coord, ce_recentlyUsed := False, ce_payload := go_copy (ce_payload e) payload,
                ce_presence := go_copy (ce_presence e) presence\<rparr>;
          c = c\<lparr>cc_heap := (cc_heap c)(entry := e)\<rparr>;
          c = cache_on_ring (pushFront entry) c
      in c\<lparr>cc_entries := AList.update coord entry (cc_entries c)\<rparr>)"

fun candidate_loop :: "nat \<Rightarrow> chunkCache \<Rightarrow> addr \<times> chunkCache" where
  "candidate_loop 0 c = (the (ring_back (cc_ring c)), c)"
| "candidate_loop (Suc n) c =
     (let candidate = the (ring_back (cc_ring c))
      in if \<not> ce_recentlyUsed (cc_heap c candidate) then (candidate, c)
         else candidate_loop n (cache_on_ring (moveToFront candidate) (touch candidate False c)))"

definition evictionCandidate :: "chunkCache \<Rightarrow> addr \<times> chunkCache" where
  "evictionCandidate c = candidate_loop (ring_length (cc_ring c)) c"

definition scheduleMaintenance :: "evictionTask \<Rightarrow> chunkCache \<Rightarrow> bool \<times> chunkCache" where
  "scheduleMaintenance task c =
     (if \<not> cc_started c \<or> cc_closed c then (False, c)
      else if length (cc_queue c) < cacheMaintenanceQueueSize then (True, c\<lparr>cc_queue := cc_queue c @ [task]\<rparr>)
      else (False, c))"

text \<open>The maintenance hook only reports; what changes the cache is the return of the buffer.\<close>

definition finish_task :: "evictionTask \<Rightarrow> chunkCache \<Rightarrow> chunkCache" where
  "finish_task task c = (case fst task of None \<Rightarrow> c | Some entry \<Rightarrow> c\<lparr>cc_free := cc_free c @ [entry]\<rparr>)"

definition putState :: "Coord \<Rightarrow> bytes \<Rightarrow> bytes \<Rightarrow> chunkCache \<Rightarrow> unit result \<times> chunkCache" where
  "putState coord payload presence c =
     (if length payload \<noteq> payloadBytes (cc_geometry c) then (Inl [ErrPayloadSize], c)
      else if length presence \<noteq> presenceBytes (cc_geometry c) then (Inl [ErrPresenceSize], c)
      else if cc_closed c then (Inl [], c)
      else case map_of (cc_entries c) coord of
        Some element \<Rightarrow>
          let e = cc_heap c element;
              e = e\<lparr>ce_payload := go_copy (ce_payload e) payload, ce_presence := go_copy (ce_presence e) presence,
                    ce_recentlyUsed := True\<rparr>;
              c = c\<lparr>cc_heap := (cc_heap c)(element := e)\<rparr>
          in (Inr (), cache_on_ring (moveToFront element) c)
      | None \<Rightarrow>
          if length (cc_entries c) = cc_max c then
            let (candidate, c) = evictionCandidate c;
                victim = ce_coord (cc_heap c candidate);
                c = c\<lparr>cc_entries := AList.delete victim (cc_entries c)\<rparr>;
                c = cache_on_ring (ring_remove candidate) c;
                (scheduled, c) = scheduleMaintenance (Some candidate, victim) c;
                (entry, c) = (if scheduled then takeFreeEntry c else (candidate, c));
                c = admit entry coord payload presence c;
                c = c\<lparr>cc_evictions := cc_evictions c + 1, cc_evictionRuns := cc_evictionRuns c + 1\<rparr>
            in (Inr (), if scheduled then c else finish_task (None, victim) c)
          else
            let (entry, c) = takeFreeEntry c;
                c = admit entry coord payload presence c
            in (Inr (), c\<lparr>cc_loaded := cc_loaded c + 1\<rparr>))"

text \<open>
  \<^verbatim>\<open>remove\<close> locks the cache twice when the maintenance queue does not take the task: it unlinks the entry, and
  \<^verbatim>\<open>runInlineMaintenance\<close> gives the buffer back.  \<open>cache_unlink\<close> is the first section and returns the task that is left to the caller.
\<close>

definition cache_unlink :: "Coord \<Rightarrow> chunkCache \<Rightarrow> evictionTask option \<times> chunkCache" where
  "cache_unlink coord c =
     (case map_of (cc_entries c) coord of
        None \<Rightarrow> (None, c)
      | Some element \<Rightarrow>
          let c = c\<lparr>cc_entries := AList.delete coord (cc_entries c)\<rparr>;
              c = cache_on_ring (ring_remove element) c;
              task = (Some element, ce_coord (cc_heap c element));
              (scheduled, c) = scheduleMaintenance task c;
              c = c\<lparr>cc_loaded := cc_loaded c - 1\<rparr>
          in (if scheduled then None else Some task, c))"

definition cache_remove :: "Coord \<Rightarrow> chunkCache \<Rightarrow> chunkCache" where
  "cache_remove coord c =
     (case cache_unlink coord c of
        (None, c) \<Rightarrow> c
      | (Some task, c) \<Rightarrow> finish_task task c)"

text \<open>The worker: receive a task, finish it.  Closing stops new tasks; the worker drains the queue.\<close>

definition worker_receive :: "chunkCache \<Rightarrow> chunkCache" where
  "worker_receive c =
     (case (cc_inflight c, cc_queue c) of
        (None, task # rest) \<Rightarrow> c\<lparr>cc_queue := rest, cc_inflight := Some task\<rparr>
      | _ \<Rightarrow> c)"

definition worker_finish :: "chunkCache \<Rightarrow> chunkCache" where
  "worker_finish c =
     (case cc_inflight c of None \<Rightarrow> c | Some task \<Rightarrow> finish_task task (c\<lparr>cc_inflight := None\<rparr>))"

definition cache_close :: "chunkCache \<Rightarrow> chunkCache" where
  "cache_close c = c\<lparr>cc_closed := True\<rparr>"

section \<open>The eviction ring as a list\<close>

definition hd_opt :: "'a list \<Rightarrow> 'a option" where
  "hd_opt xs = (case xs of [] \<Rightarrow> None | x # _ \<Rightarrow> Some x)"

definition last_opt :: "'a list \<Rightarrow> 'a option" where
  "last_opt xs = (if xs = [] then None else Some (last xs))"

definition or_else :: "'a option \<Rightarrow> 'a option \<Rightarrow> 'a option" where
  "or_else a b = (case a of None \<Rightarrow> b | Some _ \<Rightarrow> a)"

primrec dll :: "heap \<Rightarrow> addr option \<Rightarrow> addr list \<Rightarrow> addr option \<Rightarrow> bool" where
  "dll h p [] n \<longleftrightarrow> True"
| "dll h p (x # xs) n \<longleftrightarrow>
     ce_previous (h x) = p \<and> ce_next (h x) = or_else (hd_opt xs) n \<and> dll h (Some x) xs n"

definition ring_rep :: "heap \<Rightarrow> evictionRing \<Rightarrow> addr list \<Rightarrow> bool" where
  "ring_rep h r xs \<longleftrightarrow> distinct xs \<and> dll h None xs None \<and>
     ring_front r = hd_opt xs \<and> ring_back r = last_opt xs \<and> ring_length r = length xs"

lemma opt_simps [simp]:
  "hd_opt [] = None" "hd_opt (x # xs) = Some x" "last_opt [] = None" "last_opt (xs @ [x]) = Some x"
  "last_opt (x # xs) = or_else (last_opt xs) (Some x)" "or_else None b = b" "or_else (Some x) b = Some x" "or_else b None = b"
  by (simp_all add: hd_opt_def last_opt_def or_else_def split: option.split)

lemma or_else_assoc [simp]: "or_else (or_else a b) c = or_else a (or_else b c)"
  by (simp add: or_else_def split: option.split)

lemma hd_opt_append [simp]: "hd_opt (xs @ ys) = or_else (hd_opt xs) (hd_opt ys)"
  by (cases xs) simp_all

lemma last_opt_append [simp]: "last_opt (xs @ ys) = or_else (last_opt ys) (last_opt xs)"
  by (simp add: last_opt_def or_else_def)

lemma dll_append: "dll h p (xs @ ys) n \<longleftrightarrow> dll h p xs (or_else (hd_opt ys) n) \<and> dll h (or_else (last_opt xs) p) ys n"
  by (induction xs arbitrary: p) auto

lemma dll_cong:
  "(\<And>x. x \<in> set xs \<Longrightarrow> ce_previous (h' x) = ce_previous (h x) \<and> ce_next (h' x) = ce_next (h x)) \<Longrightarrow>
   dll h' p xs n \<longleftrightarrow> dll h p xs n"
  by (induction xs arbitrary: p) auto

lemma dll_set_next_last:
  assumes "dll h p xs n" "distinct xs" "last_opt xs = Some a"
  shows "dll (set_next a n' h) p xs n'"
proof -
  obtain ys where xs: "xs = ys @ [a]" using assms(3) by (cases xs rule: rev_cases) auto
  then have "dll (set_next a n' h) p ys (Some a) \<longleftrightarrow> dll h p ys (Some a)"
    using assms(2) by (intro dll_cong) (auto simp: set_next_def)
  then show ?thesis using assms(1) by (simp add: xs dll_append set_next_def)
qed

lemma dll_set_previous_hd:
  assumes "dll h p xs n" "distinct xs" "hd_opt xs = Some a"
  shows "dll (set_previous a p' h) p' xs n"
proof -
  obtain ys where xs: "xs = a # ys" using assms(3) by (cases xs) auto
  then have "dll (set_previous a p' h) (Some a) ys n \<longleftrightarrow> dll h (Some a) ys n"
    using assms(2) by (intro dll_cong) (auto simp: set_previous_def)
  then show ?thesis using assms(1) by (simp add: xs set_previous_def)
qed

lemma dll_frame: "a \<notin> set xs \<Longrightarrow> dll (set_next a v h) p xs n = dll h p xs n" "a \<notin> set xs \<Longrightarrow> dll (set_previous a v h) p xs n = dll h p xs n"
  by (rule dll_cong; auto simp: set_next_def set_previous_def)+

lemma ring_rep_pushFront:
  assumes "ring_rep h r xs" "a \<notin> set xs"
  shows "ring_rep (fst (pushFront a (h, r))) (snd (pushFront a (h, r))) (a # xs)"
proof (cases xs)
  case Nil
  then show ?thesis using assms by (simp add: ring_rep_def pushFront_def Let_def set_next_def set_previous_def)
next
  case (Cons f ys)
  have f: "a \<noteq> f" "ring_front r = Some f" using assms Cons by (auto simp: ring_rep_def)
  have d: "dll h None xs None" "distinct xs" using assms(1) by (simp_all add: ring_rep_def)
  have "dll (set_next a (Some f) (set_previous a None h)) None xs None" using d assms(2) by (simp add: dll_frame)
  from dll_set_previous_hd [OF this d(2), of f "Some a"]
  have "dll (set_previous f (Some a) (set_next a (Some f) (set_previous a None h))) (Some a) xs None" using Cons by simp
  then show ?thesis using assms f Cons
    by (simp add: ring_rep_def pushFront_def Let_def) (simp add: set_next_def set_previous_def)
qed

lemma ring_rep_remove:
  assumes "ring_rep h r (as @ e # bs)"
  shows "ring_rep (fst (ring_remove e (h, r))) (snd (ring_remove e (h, r))) (as @ bs)"
proof -
  have dist: "distinct (as @ e # bs)" and d: "dll h None as (Some e)" "dll h (Some e) bs None"
    and fields: "ce_previous (h e) = last_opt as" "ce_next (h e) = hd_opt bs"
    and r: "ring_front r = or_else (hd_opt as) (Some e)" "ring_back r = or_else (last_opt bs) (Some e)"
      "ring_length r = length as + length bs + 1"
    using assms by (simp_all add: ring_rep_def dll_append)
  define h1 where "h1 = (case last_opt as of None \<Rightarrow> h | Some p \<Rightarrow> set_next p (hd_opt bs) h)"
  define h2 where "h2 = (case hd_opt bs of None \<Rightarrow> h1 | Some n \<Rightarrow> set_previous n (last_opt as) h1)"
  define h3 where "h3 = set_next e None (set_previous e None h2)"
  have la: "p \<noteq> e \<and> p \<notin> set bs" if "last_opt as = Some p" for p
    using that dist by (auto simp: last_opt_def split: if_splits) (metis disjoint_iff last_in_set)
  have hb: "n \<noteq> e \<and> n \<notin> set as" if "hd_opt bs = Some n" for n using that dist by (cases bs) auto
  have "dll h1 None as (hd_opt bs)"
    using dll_set_next_last [OF d(1)] dist by (cases "last_opt as") (auto simp: h1_def last_opt_def split: if_splits)
  moreover have "dll h1 (Some e) bs None"
    using d(2) dist la by (auto simp: h1_def dll_frame split: option.split)
  ultimately have "dll h2 None as (hd_opt bs)" "dll h2 (last_opt as) bs None"
    using dll_set_previous_hd [of h1 "Some e" bs None] dist hb
    by (auto simp: h2_def dll_frame split: option.split) (cases bs, simp_all)
  then have dll: "dll h3 None (as @ bs) None"
    using dist by (simp add: h3_def dll_append dll_frame)
  have n1: "ce_next (h1 e) = hd_opt bs" "ce_previous (h1 e) = last_opt as"
    using fields dist la by (auto simp: h1_def set_next_def split: option.split)
  have "ring_remove e (h, r) = (h3, r\<lparr>ring_front := or_else (hd_opt as) (hd_opt bs),
      ring_back := or_else (last_opt bs) (last_opt as), ring_length := length as + length bs\<rparr>)"
    using r fields n1 unfolding ring_remove_def Let_def h3_def h2_def
    by (cases "last_opt as"; cases "hd_opt bs")
      (auto simp: h1_def last_opt_def hd_opt_def or_else_def split: if_splits list.splits)
  then show ?thesis using dll dist by (simp add: ring_rep_def)
qed

lemma ring_rep_moveToFront:
  assumes "ring_rep h r (as @ e # bs)"
  shows "ring_rep (fst (moveToFront e (h, r))) (snd (moveToFront e (h, r))) (e # as @ bs)"
proof (cases "ring_front r = Some e")
  case True
  then have "as = []" using assms by (cases as) (auto simp: ring_rep_def)
  then show ?thesis using True assms by (simp add: moveToFront_def)
next
  case False
  have "e \<notin> set (as @ bs)" using assms by (auto simp: ring_rep_def)
  with ring_rep_pushFront [OF ring_rep_remove [OF assms] this] False show ?thesis by (simp add: moveToFront_def)
qed

text \<open>The ring operations move links only.\<close>

definition same_data :: "heap \<Rightarrow> heap \<Rightarrow> bool" where
  "same_data h h' \<longleftrightarrow> (\<forall>a. ce_coord (h' a) = ce_coord (h a) \<and> ce_payload (h' a) = ce_payload (h a) \<and>
     ce_presence (h' a) = ce_presence (h a) \<and> ce_recentlyUsed (h' a) = ce_recentlyUsed (h a))"

lemma same_data_trans: "same_data h h' \<Longrightarrow> same_data h' h'' \<Longrightarrow> same_data h h''"
  by (simp add: same_data_def)

lemma same_data_ops:
  "same_data h (fst (pushFront a (h, r)))" "same_data h (fst (ring_remove a (h, r)))" "same_data h (fst (moveToFront a (h, r)))"
proof -
  show p: "same_data h (fst (pushFront a (h, r)))" for h r
    by (auto simp: same_data_def pushFront_def Let_def set_previous_def set_next_def split: option.split)
  show q: "same_data h (fst (ring_remove a (h, r)))" for h r
    by (auto simp: same_data_def ring_remove_def Let_def set_previous_def set_next_def split: option.split)
  show "same_data h (fst (moveToFront a (h, r)))"
    using same_data_trans [OF q [of h r] p [of "fst (ring_remove a (h, r))" "snd (ring_remove a (h, r))"]]
    by (simp add: moveToFront_def) (simp add: same_data_def)
qed

section \<open>The invariant of the cache\<close>

definition task_addrs :: "evictionTask list \<Rightarrow> addr list" where
  "task_addrs ts = concat (map (\<lambda>t. case fst t of None \<Rightarrow> [] | Some a \<Rightarrow> [a]) ts)"

definition inflight_tasks :: "chunkCache \<Rightarrow> evictionTask list" where
  "inflight_tasks c = (case cc_inflight c of None \<Rightarrow> [] | Some t \<Rightarrow> [t])"

text \<open>
  Every entry ever allocated is in exactly one place: in the ring \<open>xs\<close>, in the free list, with the
  maintenance queue or its worker, or detached (\<open>det\<close>) in the middle of an operation.
\<close>

definition owned :: "chunkCache \<Rightarrow> addr list \<Rightarrow> addr list \<Rightarrow> addr list" where
  "owned c xs det = xs @ cc_free c @ task_addrs (cc_queue c) @ task_addrs (inflight_tasks c) @ det"

definition buffers_ok :: "chunkCache \<Rightarrow> addr \<Rightarrow> bool" where
  "buffers_ok c a \<longleftrightarrow> length (ce_payload (cc_heap c a)) = payloadBytes (cc_geometry c) \<and>
     length (ce_presence (cc_heap c a)) = presenceBytes (cc_geometry c)"

definition cinv :: "chunkCache \<Rightarrow> addr list \<Rightarrow> addr list \<Rightarrow> bool" where
  "cinv c xs det \<longleftrightarrow>
     ring_rep (cc_heap c) (cc_ring c) xs \<and> distinct (map fst (cc_entries c)) \<and> mset (map snd (cc_entries c)) = mset xs \<and>
     (\<forall>(k, a)\<in>set (cc_entries c). ce_coord (cc_heap c a) = k) \<and>
     distinct (owned c xs det) \<and> length (owned c xs det) = cc_fresh c \<and>
     (\<forall>a\<in>set (owned c xs det). a < cc_fresh c \<and> buffers_ok c a) \<and>
     length (cc_queue c) \<le> cacheMaintenanceQueueSize \<and> length xs \<le> cc_max c"

definition cache_inv :: "chunkCache \<Rightarrow> bool" where
  "cache_inv c \<longleftrightarrow> (\<exists>xs. cinv c xs []) \<and> cc_fresh c \<le> cc_max c + cacheMaintenanceQueueSize + 1 \<and>
     cc_loaded c = int (length (cc_entries c))"

definition cache_content :: "chunkCache \<Rightarrow> Coord \<Rightarrow> (bytes \<times> bytes) option" where
  "cache_content c k = map_option (\<lambda>a. (ce_payload (cc_heap c a), ce_presence (cc_heap c a))) (map_of (cc_entries c) k)"

lemma cinv_length: "cinv c xs det \<Longrightarrow> length (cc_entries c) = length xs"
  by (metis cinv_def length_map size_mset)

lemma cinv_entry:
  assumes "cinv c xs det" "map_of (cc_entries c) k = Some a"
  shows "a \<in> set xs" "ce_coord (cc_heap c a) = k" "a < cc_fresh c" "buffers_ok c a"
proof -
  have m: "(k, a) \<in> set (cc_entries c)" using assms(2) by (rule map_of_SomeD)
  then show x: "a \<in> set xs" using assms(1) unfolding cinv_def by (metis image_eqI list.set_map mset_eq_setD snd_conv)
  show "ce_coord (cc_heap c a) = k" using m assms(1) by (auto simp: cinv_def)
  show "a < cc_fresh c" "buffers_ok c a" using x assms(1) by (auto simp: cinv_def owned_def)
qed

lemma cinv_ring_entry:
  assumes "cinv c xs det" "a \<in> set xs"
  shows "map_of (cc_entries c) (ce_coord (cc_heap c a)) = Some a"
proof -
  have "a \<in> set (map snd (cc_entries c))" using assms unfolding cinv_def by (metis mset_eq_setD)
  then obtain k where k: "(k, a) \<in> set (cc_entries c)" by auto
  then have "ce_coord (cc_heap c a) = k" using assms(1) by (auto simp: cinv_def)
  then show ?thesis using k assms(1) by (auto simp: cinv_def)
qed

lemma cache_on_ring_fields [simp]:
  "cc_geometry (cache_on_ring f c) = cc_geometry c" "cc_max (cache_on_ring f c) = cc_max c"
  "cc_fresh (cache_on_ring f c) = cc_fresh c" "cc_entries (cache_on_ring f c) = cc_entries c"
  "cc_free (cache_on_ring f c) = cc_free c" "cc_queue (cache_on_ring f c) = cc_queue c"
  "cc_inflight (cache_on_ring f c) = cc_inflight c" "cc_started (cache_on_ring f c) = cc_started c"
  "cc_closed (cache_on_ring f c) = cc_closed c" "cc_loaded (cache_on_ring f c) = cc_loaded c"
  "cc_heap (cache_on_ring f c) = fst (f (cc_heap c, cc_ring c))" "cc_ring (cache_on_ring f c) = snd (f (cc_heap c, cc_ring c))"
  by (simp_all add: cache_on_ring_def split_def Let_def)

lemma touch_fields [simp]:
  "cc_geometry (touch a u c) = cc_geometry c" "cc_max (touch a u c) = cc_max c" "cc_fresh (touch a u c) = cc_fresh c"
  "cc_entries (touch a u c) = cc_entries c" "cc_free (touch a u c) = cc_free c" "cc_queue (touch a u c) = cc_queue c"
  "cc_inflight (touch a u c) = cc_inflight c" "cc_started (touch a u c) = cc_started c" "cc_closed (touch a u c) = cc_closed c"
  "cc_loaded (touch a u c) = cc_loaded c" "cc_ring (touch a u c) = cc_ring c"
  by (simp_all add: touch_def)

lemma owned_cong:
  "cc_free c' = cc_free c \<Longrightarrow> cc_queue c' = cc_queue c \<Longrightarrow> cc_inflight c' = cc_inflight c \<Longrightarrow> owned c' xs det = owned c xs det"
  by (simp add: owned_def inflight_tasks_def)

text \<open>Only the links of the heap change: the invariant follows for any rearranged ring.\<close>

lemma cinv_relink:
  assumes "cinv c xs det" "ring_rep (cc_heap c') (cc_ring c') ys" "mset ys = mset xs"
    and "\<And>a. ce_coord (cc_heap c' a) = ce_coord (cc_heap c a) \<and> length (ce_payload (cc_heap c' a)) = length (ce_payload (cc_heap c a)) \<and>
      length (ce_presence (cc_heap c' a)) = length (ce_presence (cc_heap c a))"
    and "cc_geometry c' = cc_geometry c" "cc_max c' = cc_max c" "cc_fresh c' = cc_fresh c" "cc_entries c' = cc_entries c"
      "cc_free c' = cc_free c" "cc_queue c' = cc_queue c" "cc_inflight c' = cc_inflight c"
  shows "cinv c' ys det"
proof -
  have o: "mset (owned c' ys det) = mset (owned c xs det)" using assms(3,9-11) by (simp add: owned_def inflight_tasks_def)
  have "distinct (owned c' ys det)" "length (owned c' ys det) = length (owned c xs det)" "set (owned c' ys det) = set (owned c xs det)"
    using o assms(1) mset_eq_imp_distinct_iff mset_eq_length mset_eq_setD unfolding cinv_def by metis+
  moreover have "length ys = length xs" using assms(3) by (metis mset_eq_length)
  ultimately show ?thesis using assms unfolding cinv_def buffers_ok_def by simp
qed

lemma cinv_use:
  fixes u
  assumes "cinv c (as @ e # bs) det"
  defines "c' \<equiv> cache_on_ring (moveToFront e) (touch e u c)"
  shows "cinv c' (e # as @ bs) det" "cache_content c' = cache_content c"
    and "ce_coord (cc_heap c' x) = ce_coord (cc_heap c x)"
    and "ce_recentlyUsed (cc_heap c' x) = (if x = e then u else ce_recentlyUsed (cc_heap c x))"
proof -
  let ?h = "cc_heap (touch e u c)"
  have "ring_rep ?h (cc_ring c) (as @ e # bs) \<longleftrightarrow> ring_rep (cc_heap c) (cc_ring c) (as @ e # bs)"
    unfolding ring_rep_def by (subst dll_cong [of _ ?h "cc_heap c"]) (auto simp: touch_def)
  then have "ring_rep ?h (cc_ring c) (as @ e # bs)" using assms(1) by (simp add: cinv_def)
  note r = ring_rep_moveToFront [OF this] and d = same_data_ops(3) [of ?h e "cc_ring c"]
  show "cinv c' (e # as @ bs) det"
    by (rule cinv_relink [OF assms(1)]) (use r d in \<open>auto simp: c'_def same_data_def touch_def\<close>)
  have t: "ce_payload (?h a) = ce_payload (cc_heap c a)" "ce_presence (?h a) = ce_presence (cc_heap c a)"
    "ce_coord (?h a) = ce_coord (cc_heap c a)" "ce_recentlyUsed (?h a) = (if a = e then u else ce_recentlyUsed (cc_heap c a))" for a
    by (simp_all add: touch_def)
  show "cache_content c' = cache_content c" "ce_coord (cc_heap c' x) = ce_coord (cc_heap c x)"
    "ce_recentlyUsed (cc_heap c' x) = (if x = e then u else ce_recentlyUsed (cc_heap c x))"
    using d t by (simp_all add: fun_eq_iff cache_content_def c'_def same_data_def)
qed

text \<open>The fields no ring operation changes.\<close>

definition same_fields :: "chunkCache \<Rightarrow> chunkCache \<Rightarrow> bool" where
  "same_fields c c' \<longleftrightarrow> cc_geometry c' = cc_geometry c \<and> cc_max c' = cc_max c \<and> cc_fresh c' = cc_fresh c \<and>
     cc_entries c' = cc_entries c \<and> cc_free c' = cc_free c \<and> cc_queue c' = cc_queue c \<and> cc_inflight c' = cc_inflight c \<and>
     cc_started c' = cc_started c \<and> cc_closed c' = cc_closed c \<and> cc_loaded c' = cc_loaded c \<and>
     cache_content c' = cache_content c \<and> (\<forall>x. ce_coord (cc_heap c' x) = ce_coord (cc_heap c x))"

text \<open>
  Second chance: the loop passes over a suffix of used entries, clearing their mark and moving them to
  the front.
\<close>

lemma candidate_loop_pass:
  assumes "cinv c (as @ zs) det" "\<forall>z\<in>set zs. ce_recentlyUsed (cc_heap c z)"
  shows "\<exists>c'. candidate_loop (length zs + m) c = candidate_loop m c' \<and> cinv c' (zs @ as) det \<and> same_fields c c' \<and>
    (\<forall>x. ce_recentlyUsed (cc_heap c' x) \<longleftrightarrow> ce_recentlyUsed (cc_heap c x) \<and> x \<notin> set zs)"
  using assms
proof (induction zs arbitrary: c as rule: rev_induct)
  case Nil
  then show ?case by (intro exI [of _ c]) (simp add: same_fields_def)
next
  case (snoc z zs)
  let ?c = "cache_on_ring (moveToFront z) (touch z False c)"
  have i: "cinv c ((as @ zs) @ z # []) det" using snoc.prems(1) by simp
  note u = cinv_use [OF i, of False]
  have b: "ring_back (cc_ring c) = Some z" using i by (simp add: cinv_def ring_rep_def)
  have st: "candidate_loop (length (zs @ [z]) + m) c = candidate_loop (length zs + m) ?c"
    using b snoc.prems(2) by (simp add: Let_def)
  have di: "z \<notin> set zs" using i by (auto simp: cinv_def ring_rep_def)
  have "cinv ?c ((z # as) @ zs) det" using u(1) by simp
  moreover have "\<forall>x\<in>set zs. ce_recentlyUsed (cc_heap ?c x)" using snoc.prems(2) u(4) di by auto
  ultimately obtain c' where c': "candidate_loop (length zs + m) ?c = candidate_loop m c'" "cinv c' (zs @ z # as) det"
    "same_fields ?c c'" "\<forall>x. ce_recentlyUsed (cc_heap c' x) \<longleftrightarrow> ce_recentlyUsed (cc_heap ?c x) \<and> x \<notin> set zs"
    using snoc.IH [of ?c "z # as"] by auto
  moreover have "same_fields c ?c" using u(2,3) by (simp add: same_fields_def)
  ultimately show ?case using st u(4) by (intro exI [of _ c']) (auto simp: same_fields_def)
qed

lemma evictionCandidate_spec:
  assumes "cinv c xs det" "xs \<noteq> []" "evictionCandidate c = (cand, c')"
  shows "\<exists>ys. cinv c' ys det \<and> mset ys = mset xs" and "same_fields c c'" and "cand \<in> set xs"
    and "cand = (case filter (\<lambda>x. \<not> ce_recentlyUsed (cc_heap c x)) xs of [] \<Rightarrow> last xs | u # us \<Rightarrow> last (u # us))"
proof -
  have n: "ring_length (cc_ring c) = length xs" using assms(1) by (simp add: cinv_def ring_rep_def)
  let ?P = "\<lambda>x. \<not> ce_recentlyUsed (cc_heap c x)"
  have "(\<exists>ys. cinv c' ys det \<and> mset ys = mset xs) \<and> same_fields c c' \<and> cand \<in> set xs \<and>
    cand = (case filter ?P xs of [] \<Rightarrow> last xs | u # us \<Rightarrow> last (u # us))"
  proof (cases "filter ?P xs = []")
    case True
    then have "\<forall>z\<in>set xs. ce_recentlyUsed (cc_heap c z)" by (simp add: filter_empty_conv)
    then obtain d where d: "candidate_loop (length xs + 0) c = candidate_loop 0 d" "cinv d (xs @ []) det" "same_fields c d"
      using candidate_loop_pass [of c "[]" xs det 0] assms(1) by auto
    have "ring_back (cc_ring d) = Some (last xs)" using d(2) assms(2) by (auto simp: cinv_def ring_rep_def last_opt_def)
    then have e: "cand = last xs" "c' = d" using d(1) n assms(3) by (auto simp: evictionCandidate_def)
    have f: "filter ?P xs = []" by (rule True)
    show ?thesis using d(2,3) assms(2) unfolding f by (auto simp: e)
  next
    case False
    then obtain as u zs where xs: "xs = as @ u # zs" "\<not> ce_recentlyUsed (cc_heap c u)" "\<forall>z\<in>set zs. ce_recentlyUsed (cc_heap c z)"
      using split_list_last_prop [of xs ?P] by (auto simp: filter_empty_conv)
    then obtain d where d: "candidate_loop (length zs + (length as + 1)) c = candidate_loop (length as + 1) d"
      "cinv d (zs @ as @ [u]) det" "same_fields c d" "\<forall>x. ce_recentlyUsed (cc_heap d x) \<longleftrightarrow> ce_recentlyUsed (cc_heap c x) \<and> x \<notin> set zs"
      using candidate_loop_pass [of c "as @ [u]" zs det "length as + 1"] assms(1) by auto
    have "ring_back (cc_ring d) = Some u" using d(2) by (simp add: cinv_def ring_rep_def)
    then have e: "cand = u" "c' = d" using d(1,4) n assms(3) xs by (auto simp: evictionCandidate_def Let_def add.commute)
    have "filter ?P zs = []" using xs(3) by (simp add: filter_empty_conv)
    then have f: "filter ?P xs = filter ?P as @ [u]" using xs by simp
    have "(case filter ?P xs of [] \<Rightarrow> last xs | v # us \<Rightarrow> last (v # us)) = u"
      unfolding f by (cases "filter ?P as") simp_all
    then show ?thesis using d(2,3) by (auto simp: e xs intro!: exI [of _ "zs @ as @ [u]"])
  qed
  then show "\<exists>ys. cinv c' ys det \<and> mset ys = mset xs" and "same_fields c c'" and "cand \<in> set xs"
    and "cand = (case filter (\<lambda>x. \<not> ce_recentlyUsed (cc_heap c x)) xs of [] \<Rightarrow> last xs | u # us \<Rightarrow> last (u # us))" by blast+
qed

text \<open>Taking a buffer detaches one entry; finishing or scheduling a task takes it back.\<close>

lemma cinv_takeFree:
  assumes "cinv c xs det" "takeFreeEntry c = (a, c')"
  shows "cinv c' xs (a # det)" and "cc_entries c' = cc_entries c" and "cache_content c' = cache_content c"
    and "cc_fresh c' = (if cc_free c = [] then cc_fresh c + 1 else cc_fresh c)"
    and "cc_max c' = cc_max c" "cc_geometry c' = cc_geometry c" "cc_closed c' = cc_closed c"
proof -
  have "cinv c' xs (a # det) \<and> cc_entries c' = cc_entries c \<and> cache_content c' = cache_content c \<and>
     cc_fresh c' = (if cc_free c = [] then cc_fresh c + 1 else cc_fresh c) \<and> cc_max c' = cc_max c \<and>
     cc_geometry c' = cc_geometry c \<and> cc_closed c' = cc_closed c"
  proof (cases "cc_free c = []")
    case False
    then obtain fs where f: "cc_free c = fs @ [a]" and c': "c' = c\<lparr>cc_free := fs\<rparr>"
      using assms(2) by (auto simp: takeFreeEntry_def intro: append_butlast_last_id [symmetric])
    have m: "mset (owned c' xs (a # det)) = mset (owned c xs det)" by (simp add: owned_def inflight_tasks_def c' f)
    have "distinct (owned c' xs (a # det))" "length (owned c' xs (a # det)) = length (owned c xs det)"
      "set (owned c' xs (a # det)) = set (owned c xs det)"
      using m assms(1) mset_eq_imp_distinct_iff mset_eq_length mset_eq_setD unfolding cinv_def by metis+
    then have "cinv c' xs (a # det)" using assms(1) by (simp add: cinv_def c' buffers_ok_def)
    then show ?thesis using False by (simp add: c' cache_content_def fun_eq_iff)
  next
    case True
    then have a: "a = cc_fresh c" and c': "c' = c\<lparr>cc_fresh := cc_fresh c + 1, cc_heap := (cc_heap c)(a :=
        zero_entry\<lparr>ce_payload := replicate (payloadBytes (cc_geometry c)) 0, ce_presence := replicate (presenceBytes (cc_geometry c)) 0\<rparr>)\<rparr>"
      using assms(2) by (auto simp: takeFreeEntry_def Let_def)
    have o: "owned c' xs (a # det) = xs @ cc_free c @ task_addrs (cc_queue c) @ task_addrs (inflight_tasks c) @ a # det"
      by (simp add: owned_def inflight_tasks_def c')
    have fresh: "\<forall>x\<in>set (owned c xs det). x < a \<and> buffers_ok c x" using assms(1) by (simp add: cinv_def a)
    have ne: "x \<noteq> a" if "x \<in> set (owned c xs det)" for x using fresh that by auto
    have "ring_rep (cc_heap c') (cc_ring c') xs"
      using assms(1) ne unfolding cinv_def ring_rep_def
      by (subst dll_cong [of xs "cc_heap c'" "cc_heap c"]) (auto simp: c' owned_def)
    moreover have "\<forall>x\<in>set (owned c' xs (a # det)). x < cc_fresh c' \<and> buffers_ok c' x"
    proof -
      have "set (owned c' xs (a # det)) = insert a (set (owned c xs det))" unfolding o by (auto simp: owned_def)
      moreover have "a < cc_fresh c' \<and> buffers_ok c' a" by (simp add: c' a buffers_ok_def)
      moreover have "x < cc_fresh c' \<and> buffers_ok c' x" if "x \<in> set (owned c xs det)" for x
        using fresh ne [OF that] that by (auto simp: c' a buffers_ok_def less_Suc_eq)
      ultimately show ?thesis by auto
    qed
    moreover have "distinct (owned c' xs (a # det))" "length (owned c' xs (a # det)) = cc_fresh c'"
      using assms(1) ne unfolding o by (auto simp: c' cinv_def owned_def)
    moreover have en: "x \<noteq> a" if "(k, x) \<in> set (cc_entries c)" for k x
      using that cinv_entry(3) [OF assms(1), of k x] assms(1) by (auto simp: a cinv_def)
    ultimately have "cinv c' xs (a # det)" using assms(1) by (auto simp: cinv_def c' dest: en)
    moreover have "cache_content c' = cache_content c"
      using en by (auto simp: fun_eq_iff cache_content_def c' dest: map_of_SomeD intro!: option.map_cong)
    ultimately show ?thesis using True by (simp add: c')
  qed
  then show "cinv c' xs (a # det)" and "cc_entries c' = cc_entries c" and "cache_content c' = cache_content c"
    and "cc_fresh c' = (if cc_free c = [] then cc_fresh c + 1 else cc_fresh c)"
    and "cc_max c' = cc_max c" "cc_geometry c' = cc_geometry c" "cc_closed c' = cc_closed c" by blast+
qed

lemma task_addrs_simps [simp]:
  "task_addrs [] = []" "task_addrs (t # ts) = (case fst t of None \<Rightarrow> [] | Some a \<Rightarrow> [a]) @ task_addrs ts"
  "task_addrs (ts @ us) = task_addrs ts @ task_addrs us"
  by (simp_all add: task_addrs_def)

lemma cinv_repartition:
  assumes "cinv c xs det" "mset (owned c' xs det') = mset (owned c xs det)"
    and "cc_heap c' = cc_heap c" "cc_ring c' = cc_ring c" "cc_geometry c' = cc_geometry c" "cc_max c' = cc_max c"
      "cc_fresh c' = cc_fresh c" "cc_entries c' = cc_entries c"
      "length (cc_queue c') \<le> cacheMaintenanceQueueSize"
  shows "cinv c' xs det'"
proof -
  have "distinct (owned c' xs det')" "length (owned c' xs det') = length (owned c xs det)" "set (owned c' xs det') = set (owned c xs det)"
    using assms(1,2) mset_eq_imp_distinct_iff mset_eq_length mset_eq_setD unfolding cinv_def by metis+
  then show ?thesis using assms unfolding cinv_def buffers_ok_def by simp
qed

lemma cinv_schedule:
  assumes "cinv c xs (a # det)" "scheduleMaintenance (Some a, k) c = (ok, c')"
  shows "if ok then cinv c' xs det else c' = c"
    and "cc_entries c' = cc_entries c" "cc_heap c' = cc_heap c" "cc_fresh c' = cc_fresh c" "cc_max c' = cc_max c"
      "cc_geometry c' = cc_geometry c" "cc_closed c' = cc_closed c" "cc_free c' = cc_free c"
proof -
  show "if ok then cinv c' xs det else c' = c"
  proof (cases ok)
    case True
    then have c': "c' = c\<lparr>cc_queue := cc_queue c @ [(Some a, k)]\<rparr>" and q: "length (cc_queue c) < cacheMaintenanceQueueSize"
      using assms(2) by (auto simp: scheduleMaintenance_def split: if_splits)
    show ?thesis using True
      by (simp, intro cinv_repartition [OF assms(1)]) (use q in \<open>simp_all add: c' owned_def inflight_tasks_def\<close>)
  next
    case False
    then show ?thesis using assms(2) by (auto simp: scheduleMaintenance_def split: if_splits)
  qed
  show "cc_entries c' = cc_entries c" "cc_heap c' = cc_heap c" "cc_fresh c' = cc_fresh c" "cc_max c' = cc_max c"
      "cc_geometry c' = cc_geometry c" "cc_closed c' = cc_closed c" "cc_free c' = cc_free c"
    using assms(2) by (auto simp: scheduleMaintenance_def split: if_splits)
qed

lemma cinv_finish:
  assumes "cinv c xs (a # det)"
  shows "cinv (finish_task (Some a, k) c) xs det"
  by (rule cinv_repartition [OF assms]) (use assms in \<open>simp_all add: finish_task_def owned_def inflight_tasks_def cinv_def\<close>)

text \<open>Unlinking an entry and dropping it from the map detaches it.\<close>

lemma AList_delete_filter: "AList.delete k al = filter (\<lambda>(k', _). k \<noteq> k') al"
  by (simp add: AList.delete_eq)

lemma mset_filter_key:
  assumes "distinct (map fst al)" "(k, a) \<in> set al"
  shows "mset (map snd al) = add_mset a (mset (map snd (AList.delete k al)))"
  using assms
proof (induction al)
  case (Cons x al)
  show ?case
  proof (cases "fst x = k")
    case True
    then have "k \<notin> fst ` set al" using Cons.prems(1) by auto
    then have "AList.delete k (x # al) = al" using True by (cases x) simp
    moreover have "x = (k, a)" using True Cons.prems by (cases x) (auto simp: rev_image_eqI)
    ultimately show ?thesis by simp
  next
    case False
    then show ?thesis using Cons by (cases x) (auto simp: AList.delete_eq)
  qed
qed simp

lemma cinv_detach:
  assumes "cinv c xs det" "e \<in> set xs" "k = ce_coord (cc_heap c e)"
  defines "c' \<equiv> cache_on_ring (ring_remove e) (c\<lparr>cc_entries := AList.delete k (cc_entries c)\<rparr>)"
  shows "\<exists>ys. cinv c' ys (e # det) \<and> length ys + 1 = length xs"
    and "cache_content c' = (cache_content c)(k := None)"
    and "cc_entries c' = AList.delete k (cc_entries c)" "ce_coord (cc_heap c' e) = k"
proof -
  obtain as bs where xs: "xs = as @ e # bs" using assms(2) split_list by metis
  have m: "map_of (cc_entries c) k = Some e" using cinv_ring_entry [OF assms(1,2)] assms(3) by simp
  have r: "ring_rep (cc_heap c) (cc_ring c) (as @ e # bs)" using assms(1) by (simp add: cinv_def xs)
  note rr = ring_rep_remove [OF r] and d = same_data_ops(2) [of "cc_heap c" e "cc_ring c"]
  have dk: "distinct (map fst (cc_entries c))" using assms(1) by (simp add: cinv_def)
  have ms: "mset (map snd (AList.delete k (cc_entries c))) = mset (as @ bs)"
    using mset_filter_key [OF dk map_of_SomeD [OF m]] assms(1) by (simp add: cinv_def xs)
  have o: "mset (owned c' (as @ bs) (e # det)) = mset (owned c xs det)"
    by (simp add: owned_def inflight_tasks_def c'_def xs)
  have ow: "distinct (owned c' (as @ bs) (e # det))" "length (owned c' (as @ bs) (e # det)) = length (owned c xs det)"
    "set (owned c' (as @ bs) (e # det)) = set (owned c xs det)"
    using o assms(1) mset_eq_imp_distinct_iff mset_eq_length mset_eq_setD unfolding cinv_def by metis+
  have "cinv c' (as @ bs) (e # det)"
    unfolding cinv_def
  proof (intro conjI)
    show "\<forall>(j, x)\<in>set (cc_entries c'). ce_coord (cc_heap c' x) = j"
      using assms(1) d by (auto simp: c'_def same_data_def cinv_def AList.delete_eq)
    show "\<forall>x\<in>set (owned c' (as @ bs) (e # det)). x < cc_fresh c' \<and> buffers_ok c' x"
      using assms(1) d ow(3) by (simp add: c'_def buffers_ok_def cinv_def same_data_def)
    show "distinct (map fst (cc_entries c'))"
      using distinct_delete [OF dk] by (simp add: c'_def)
  qed (use assms(1) rr ms ow(1,2) in \<open>auto simp: c'_def xs cinv_def\<close>)
  then show "\<exists>ys. cinv c' ys (e # det) \<and> length ys + 1 = length xs"
    by (intro exI [of _ "as @ bs"]) (simp add: xs)
  show "cache_content c' = (cache_content c)(k := None)"
    using d by (auto simp: fun_eq_iff cache_content_def c'_def same_data_def AList.delete_conv)
  show "cc_entries c' = AList.delete k (cc_entries c)" "ce_coord (cc_heap c' e) = k"
    using d assms(3) by (simp_all add: c'_def same_data_def)
qed

lemma update_new: "k \<notin> fst ` set al \<Longrightarrow> AList.update k v al = al @ [(k, v)]"
  by (induction al) auto

lemma go_copy_same: "length dst = length src \<Longrightarrow> go_copy dst src = src"
  by (simp add: go_copy_def)

text \<open>Admitting a detached entry under a new coordinate.\<close>

lemma cinv_admit:
  assumes "cinv c xs (a # det)" "map_of (cc_entries c) k = None" "length xs < cc_max c"
    and "length p = payloadBytes (cc_geometry c)" "length q = presenceBytes (cc_geometry c)"
  defines "c' \<equiv> admit a k p q c"
  shows "cinv c' (a # xs) det"
    and "cache_content c' = (cache_content c)(k \<mapsto> (p, q))"
    and "cc_fresh c' = cc_fresh c" "cc_max c' = cc_max c" "cc_geometry c' = cc_geometry c" "cc_closed c' = cc_closed c"
      "cc_loaded c' = cc_loaded c"
proof -
  have a: "a \<notin> set xs" "buffers_ok c a" and dist: "distinct (owned c xs (a # det))"
    using assms(1) by (auto simp: cinv_def owned_def)
  define e where "e = (cc_heap c a)\<lparr>ce_coord := k, ce_recentlyUsed := False, ce_payload := p, ce_presence := q\<rparr>"
  define h where "h = (cc_heap c)(a := e)"
  have cp: "go_copy (ce_payload (cc_heap c a)) p = p" "go_copy (ce_presence (cc_heap c a)) q = q"
    using a(2) assms(4,5) by (simp_all add: buffers_ok_def go_copy_same)
  define h' r' where "h' = fst (pushFront a (h, cc_ring c))" and "r' = snd (pushFront a (h, cc_ring c))"
  have c': "c' = c\<lparr>cc_heap := h', cc_ring := r', cc_entries := AList.update k a (cc_entries c)\<rparr>"
    by (simp add: c'_def admit_def Let_def cp e_def h_def h'_def r'_def cache_on_ring_def split_def)
  have en: "k \<notin> fst ` set (cc_entries c)" using assms(2) by (simp add: map_of_eq_None_iff)
  note up = update_new [OF en, of a]
  have "ring_rep h (cc_ring c) xs \<longleftrightarrow> ring_rep (cc_heap c) (cc_ring c) xs"
    unfolding ring_rep_def by (subst dll_cong [of xs h "cc_heap c"]) (use a in \<open>auto simp: h_def\<close>)
  then have "ring_rep h (cc_ring c) xs" using assms(1) by (simp add: cinv_def)
  from ring_rep_pushFront [OF this a(1)] have r: "ring_rep h' r' (a # xs)" by (simp add: h'_def r'_def)
  have ne: "x \<noteq> a" if "(j, x) \<in> set (cc_entries c)" for j x
    using that cinv_entry(1) [OF assms(1), of j x] a(1) assms(1) by (auto simp: cinv_def)
  have dat: "ce_coord (h' x) = (if x = a then k else ce_coord (cc_heap c x))"
    "ce_payload (h' x) = (if x = a then p else ce_payload (cc_heap c x))"
    "ce_presence (h' x) = (if x = a then q else ce_presence (cc_heap c x))" for x
    using same_data_ops(1) [of h a "cc_ring c"] by (simp_all add: same_data_def h'_def h_def e_def)
  have o: "mset (owned c' (a # xs) det) = mset (owned c xs (a # det))" by (simp add: owned_def inflight_tasks_def c')
  have ow: "distinct (owned c' (a # xs) det)" "length (owned c' (a # xs) det) = length (owned c xs (a # det))"
    "set (owned c' (a # xs) det) = set (owned c xs (a # det))"
    using o assms(1) mset_eq_imp_distinct_iff mset_eq_length mset_eq_setD unfolding cinv_def by metis+
  have bo: "\<forall>x\<in>set (owned c xs (a # det)). x < cc_fresh c \<and> buffers_ok c' x"
    using assms(1,4,5) by (auto simp: cinv_def buffers_ok_def c' dat)
  have co: "\<forall>(j, x)\<in>set (cc_entries c'). ce_coord (h' x) = j"
    using assms(1) ne by (auto simp: c' up dat cinv_def)
  show "cinv c' (a # xs) det"
    unfolding cinv_def
  proof (intro conjI)
    show "\<forall>x\<in>set (owned c' (a # xs) det). x < cc_fresh c' \<and> buffers_ok c' x"
      using bo ow(3) by (simp add: c' buffers_ok_def)
  qed (use assms(1,3) r ow(1,2) co en in \<open>auto simp: c' up cinv_def\<close>)
  show "cache_content c' = (cache_content c)(k \<mapsto> (p, q))"
  proof
    fix j
    show "cache_content c' j = ((cache_content c)(k \<mapsto> (p, q))) j"
      using ne [OF map_of_SomeD, of j] by (cases "map_of (cc_entries c) j") (auto simp: cache_content_def c' update_conv dat)
  qed
  show "cc_fresh c' = cc_fresh c" "cc_max c' = cc_max c" "cc_geometry c' = cc_geometry c" "cc_closed c' = cc_closed c"
    "cc_loaded c' = cc_loaded c" by (simp_all add: c')
qed

section \<open>The operations\<close>

lemma cinv_counters [simp]:
  "cinv (c\<lparr>cc_hits := n\<rparr>) xs det = cinv c xs det" "cinv (c\<lparr>cc_misses := n\<rparr>) xs det = cinv c xs det"
  "cinv (c\<lparr>cc_evictions := n\<rparr>) xs det = cinv c xs det" "cinv (c\<lparr>cc_evictionRuns := n\<rparr>) xs det = cinv c xs det"
  "cinv (c\<lparr>cc_loaded := i\<rparr>) xs det = cinv c xs det" "cinv (c\<lparr>cc_closed := b\<rparr>) xs det = cinv c xs det" "cinv (c\<lparr>cc_started := b\<rparr>) xs det = cinv c xs det"
  by (simp_all add: cinv_def owned_def inflight_tasks_def buffers_ok_def)

lemma content_counters [simp]:
  "cache_content (c\<lparr>cc_hits := n\<rparr>) = cache_content c" "cache_content (c\<lparr>cc_misses := n\<rparr>) = cache_content c"
  "cache_content (c\<lparr>cc_evictions := n\<rparr>) = cache_content c" "cache_content (c\<lparr>cc_evictionRuns := n\<rparr>) = cache_content c"
  "cache_content (c\<lparr>cc_loaded := i\<rparr>) = cache_content c" "cache_content (c\<lparr>cc_closed := b\<rparr>) = cache_content c"
  by (simp_all add: cache_content_def fun_eq_iff)

lemma cache_get_part:
  assumes "cinv c xs det" "cache_get k c = (r, c')"
  shows "(\<exists>ys. cinv c' ys det) \<and> cache_content c' = cache_content c \<and>
    r = (case cache_content c k of None \<Rightarrow> Inr None
              | Some (p, q) \<Rightarrow> (case ChunkFromState (cc_geometry c) p q of Inl e \<Rightarrow> Inl e | Inr chunk \<Rightarrow> Inr (Some chunk))) \<and>
    cc_geometry c' = cc_geometry c \<and> cc_max c' = cc_max c \<and> cc_closed c' = cc_closed c \<and> cc_fresh c' = cc_fresh c \<and>
    cc_loaded c' = cc_loaded c \<and> cc_entries c' = cc_entries c"
proof (cases "map_of (cc_entries c) k")
  case None
  then show ?thesis using assms by (auto simp: cache_get_def cache_content_def fun_eq_iff)
next
  case (Some e)
  then obtain as bs where split: "xs = as @ e # bs" using cinv_entry(1) [OF assms(1)] split_list by metis
  define d where "d = c\<lparr>cc_hits := cc_hits c + 1\<rparr>"
  let ?c = "cache_on_ring (moveToFront e) (touch e True d)"
  have di: "cinv d (as @ e # bs) det" using assms(1) split by (simp add: d_def)
  note u = cinv_use [OF di, of True]
  have c': "c' = ?c" and r: "r = (case ChunkFromState (cc_geometry c) (ce_payload (cc_heap ?c e)) (ce_presence (cc_heap ?c e)) of
      Inl x \<Rightarrow> Inl x | Inr chunk \<Rightarrow> Inr (Some chunk))"
    using assms(2) Some by (auto simp: cache_get_def Let_def d_def split: sum.splits)
  have co: "cache_content ?c = cache_content c" using u(2) by (simp add: d_def)
  have "cache_content ?c k = Some (ce_payload (cc_heap ?c e), ce_presence (cc_heap ?c e))"
    using Some by (simp add: cache_content_def d_def)
  then have "cache_content c k = Some (ce_payload (cc_heap ?c e), ce_presence (cc_heap ?c e))" using co by simp
  then show ?thesis using co u(1) by (auto simp: r c' d_def)
qed

lemma cache_get_spec:
  assumes "cache_inv c" "cache_get k c = (r, c')"
  shows "cache_inv c'" and "cache_content c' = cache_content c"
    and "r = (case cache_content c k of None \<Rightarrow> Inr None
              | Some (p, q) \<Rightarrow> (case ChunkFromState (cc_geometry c) p q of Inl e \<Rightarrow> Inl e | Inr chunk \<Rightarrow> Inr (Some chunk)))"
    and "cc_geometry c' = cc_geometry c" "cc_max c' = cc_max c" "cc_closed c' = cc_closed c"
proof -
  obtain xs where xs: "cinv c xs []" using assms(1) by (auto simp: cache_inv_def)
  note G = cache_get_part [OF xs assms(2)]
  show "cache_inv c'" using G assms(1) by (simp add: cache_inv_def)
  show "cache_content c' = cache_content c"
    and "r = (case cache_content c k of None \<Rightarrow> Inr None
              | Some (p, q) \<Rightarrow> (case ChunkFromState (cc_geometry c) p q of Inl e \<Rightarrow> Inl e | Inr chunk \<Rightarrow> Inr (Some chunk)))"
    and "cc_geometry c' = cc_geometry c" "cc_max c' = cc_max c" "cc_closed c' = cc_closed c" using G by blast+
qed

lemma owned_free_bound:
  assumes "cinv c xs det" "cc_free c = []" "length xs + length det < cc_max c"
  shows "cc_fresh c + 1 \<le> cc_max c + cacheMaintenanceQueueSize + 1"
proof -
  have t: "length (task_addrs ts) \<le> length ts" for ts by (induction ts) (auto split: option.split)
  have "length (task_addrs (inflight_tasks c)) \<le> 1" by (auto simp: inflight_tasks_def split: option.split)
  moreover have "length (task_addrs (cc_queue c)) \<le> cacheMaintenanceQueueSize" using t [of "cc_queue c"] assms(1) by (simp add: cinv_def)
  ultimately show ?thesis using assms by (simp add: cinv_def owned_def)
qed

text \<open>Overwriting a resident entry.\<close>

lemma cinv_overwrite:
  assumes "cinv c xs []" "map_of (cc_entries c) k = Some e"
    and "length p = payloadBytes (cc_geometry c)" "length q = presenceBytes (cc_geometry c)"
  defines "d \<equiv> c\<lparr>cc_heap := (cc_heap c)(e := (cc_heap c e)\<lparr>ce_payload := p, ce_presence := q, ce_recentlyUsed := True\<rparr>)\<rparr>"
  shows "cinv d xs []" "cache_content d = (cache_content c)(k \<mapsto> (p, q))"
proof -
  have "ring_rep (cc_heap d) (cc_ring d) xs"
    using assms(1) unfolding cinv_def ring_rep_def by (subst dll_cong [of xs "cc_heap d" "cc_heap c"]) (auto simp: d_def)
  then show "cinv d xs []"
    using assms(1,3,4) by (auto simp: cinv_def owned_def inflight_tasks_def buffers_ok_def d_def)
  show "cache_content d = (cache_content c)(k \<mapsto> (p, q))"
  proof
    fix j
    have "j = k" if "map_of (cc_entries c) j = Some e" using cinv_entry(2) [OF assms(1)] that assms(2) by metis
    then show "cache_content d j = ((cache_content c)(k \<mapsto> (p, q))) j"
      using assms(2) by (cases "map_of (cc_entries c) j") (auto simp: cache_content_def d_def)
  qed
qed

lemma length_delete_entry:
  assumes "cinv c xs det" "map_of (cc_entries c) k = Some e"
  shows "length (AList.delete k (cc_entries c)) + 1 = length (cc_entries c)"
proof -
  have "distinct (map fst (cc_entries c))" using assms(1) by (simp add: cinv_def)
  from arg_cong [OF mset_filter_key [OF this map_of_SomeD [OF assms(2)]], of size] show ?thesis by simp
qed

text \<open>The three cases of \<^verbatim>\<open>putState\<close>: the entry is resident, there is room, or one entry leaves.\<close>

definition put_effect :: "Coord \<Rightarrow> bytes \<Rightarrow> bytes \<Rightarrow> chunkCache \<Rightarrow> unit result \<Rightarrow> chunkCache \<Rightarrow> bool" where
  "put_effect k p q c r c' \<longleftrightarrow> r = Inr () \<and> cache_inv c' \<and>
     (\<exists>v. cache_content c' = (cache_content c)(v := None, k \<mapsto> (p, q)) \<and>
        (v \<noteq> k \<longrightarrow> cache_content c k = None \<and> length (cc_entries c) = cc_max c)) \<and>
     cc_geometry c' = cc_geometry c \<and> cc_max c' = cc_max c \<and> cc_closed c' = cc_closed c"

lemma putState_resident:
  assumes inv: "cache_inv c" "\<not> cc_closed c"
    and len: "length p = payloadBytes (cc_geometry c)" "length q = presenceBytes (cc_geometry c)"
    and e: "map_of (cc_entries c) k = Some e"
  shows "put_effect k p q c (fst (putState k p q c)) (snd (putState k p q c))"
proof -
  obtain xs where xs: "cinv c xs []" using inv(1) by (auto simp: cache_inv_def)
  obtain as bs where split: "xs = as @ e # bs" using cinv_entry(1) [OF xs e] split_list by metis
  define d where "d = c\<lparr>cc_heap := (cc_heap c)(e := (cc_heap c e)\<lparr>ce_payload := p, ce_presence := q, ce_recentlyUsed := True\<rparr>)\<rparr>"
  note o = cinv_overwrite [OF xs e len, folded d_def]
  have cp: "go_copy (ce_payload (cc_heap c e)) p = p" "go_copy (ce_presence (cc_heap c e)) q = q"
    using cinv_entry(4) [OF xs e] len by (simp_all add: buffers_ok_def go_copy_same)
  have "touch e True d = d" by (simp add: touch_def d_def)
  with cinv_use [OF o(1) [unfolded split], of True]
  have u: "cinv (cache_on_ring (moveToFront e) d) (e # as @ bs) []" "cache_content (cache_on_ring (moveToFront e) d) = cache_content d" by simp_all
  have "putState k p q c = (Inr (), cache_on_ring (moveToFront e) d)"
    using inv(2) len e by (simp add: putState_def Let_def cp d_def)
  moreover have "cache_content d = (cache_content c)(k := None, k \<mapsto> (p, q))" using o(2) by simp
  ultimately show ?thesis using u inv(1) by (auto simp: put_effect_def cache_inv_def d_def intro!: exI [of _ k])
qed

lemma putState_room:
  assumes inv: "cache_inv c" "\<not> cc_closed c"
    and len: "length p = payloadBytes (cc_geometry c)" "length q = presenceBytes (cc_geometry c)"
    and new: "map_of (cc_entries c) k = None" and room: "length (cc_entries c) \<noteq> cc_max c"
  shows "put_effect k p q c (fst (putState k p q c)) (snd (putState k p q c))"
proof -
  obtain xs where xs: "cinv c xs []" and f: "cc_fresh c \<le> cc_max c + cacheMaintenanceQueueSize + 1"
    and l: "cc_loaded c = int (length (cc_entries c))" using inv(1) by (auto simp: cache_inv_def)
  have lt: "length xs < cc_max c" using cinv_length [OF xs] room xs by (simp add: cinv_def)
  obtain a d where tf: "takeFreeEntry c = (a, d)" by fastforce
  note t = cinv_takeFree [OF xs tf]
  have ad: "map_of (cc_entries d) k = None" "length xs < cc_max d" "length p = payloadBytes (cc_geometry d)"
    "length q = presenceBytes (cc_geometry d)" using new lt len t by simp_all
  note A = cinv_admit [OF t(1) ad]
  have "putState k p q c = (Inr (), (admit a k p q d)\<lparr>cc_loaded := cc_loaded (admit a k p q d) + 1\<rparr>)"
    using inv(2) len new room tf by (simp add: putState_def Let_def)
  moreover have "cc_fresh d \<le> cc_max c + cacheMaintenanceQueueSize + 1"
    using t(4) f owned_free_bound [OF xs] lt by (auto split: if_splits)
  moreover have "length (cc_entries (admit a k p q d)) = length (cc_entries c) + 1" using cinv_length [OF A(1)] cinv_length [OF xs] by simp
  moreover have "cc_loaded d = cc_loaded c" using tf by (auto simp: takeFreeEntry_def Let_def split: if_splits)
  moreover have "cache_content (admit a k p q d) = (cache_content c)(k := None, k \<mapsto> (p, q))" using A(2) t(3) by simp
  ultimately show ?thesis using A t(5-7) l by (auto simp: put_effect_def cache_inv_def intro!: exI [of _ k])
qed

text \<open>The entry a full cache admits into: a recycled buffer when the victim went to the worker, else the victim's own.\<close>

lemma recycle_entry:
  assumes i: "cinv c zs [cand]" and lz: "length zs < cc_max c" and f: "cc_fresh c \<le> cc_max c + cacheMaintenanceQueueSize + 1"
    and sm: "scheduleMaintenance (Some cand, v) c = (ok, c3)"
    and ta: "(if ok then takeFreeEntry c3 else (cand, c3)) = (a, c4)"
  shows "cinv c4 zs [a]" "cc_entries c4 = cc_entries c" "cache_content c4 = cache_content c"
    "cc_fresh c4 \<le> cc_max c + cacheMaintenanceQueueSize + 1" "cc_max c4 = cc_max c" "cc_geometry c4 = cc_geometry c"
    "cc_closed c4 = cc_closed c" "cc_loaded c4 = cc_loaded c"
proof -
  note S = cinv_schedule [OF i sm]
  have l3: "cc_loaded c3 = cc_loaded c" using sm by (auto simp: scheduleMaintenance_def split: if_splits)
  have c3: "cache_content c3 = cache_content c" using S(2,3) by (simp add: cache_content_def fun_eq_iff)
  have "cinv c4 zs [a] \<and> cc_entries c4 = cc_entries c \<and> cache_content c4 = cache_content c \<and>
    cc_fresh c4 \<le> cc_max c + cacheMaintenanceQueueSize + 1 \<and> cc_max c4 = cc_max c \<and> cc_geometry c4 = cc_geometry c \<and>
    cc_closed c4 = cc_closed c \<and> cc_loaded c4 = cc_loaded c"
  proof (cases ok)
    case True
    then have tf: "takeFreeEntry c3 = (a, c4)" and i3: "cinv c3 zs []" using ta S(1) by simp_all
    note t = cinv_takeFree [OF i3 tf]
    have "cc_fresh c4 \<le> cc_max c + cacheMaintenanceQueueSize + 1"
      using t(4) f owned_free_bound [OF i3] lz S by (auto split: if_splits)
    moreover have "cc_loaded c4 = cc_loaded c3" using tf by (auto simp: takeFreeEntry_def Let_def split: if_splits)
    ultimately show ?thesis using t S l3 c3 by simp
  next
    case False
    then show ?thesis using ta S(1) i f by (auto split: if_splits)
  qed
  then show "cinv c4 zs [a]" "cc_entries c4 = cc_entries c" "cache_content c4 = cache_content c"
    "cc_fresh c4 \<le> cc_max c + cacheMaintenanceQueueSize + 1" "cc_max c4 = cc_max c" "cc_geometry c4 = cc_geometry c"
    "cc_closed c4 = cc_closed c" "cc_loaded c4 = cc_loaded c" by blast+
qed

lemma putState_evict:
  assumes inv: "cache_inv c" "0 < cc_max c" "\<not> cc_closed c"
    and len: "length p = payloadBytes (cc_geometry c)" "length q = presenceBytes (cc_geometry c)"
    and new: "map_of (cc_entries c) k = None" and full: "length (cc_entries c) = cc_max c"
  shows "put_effect k p q c (fst (putState k p q c)) (snd (putState k p q c))"
proof -
  obtain xs where xs: "cinv c xs []" and f: "cc_fresh c \<le> cc_max c + cacheMaintenanceQueueSize + 1"
    and l: "cc_loaded c = int (length (cc_entries c))" using inv(1) by (auto simp: cache_inv_def)
  have ne: "xs \<noteq> []" using inv(2) cinv_length [OF xs] full by auto
  obtain cand c1 where ec: "evictionCandidate c = (cand, c1)" by fastforce
  note E = evictionCandidate_spec [OF xs ne ec]
  obtain ys where ys: "cinv c1 ys []" "mset ys = mset xs" using E(1) by blast
  have sf: "cc_geometry c1 = cc_geometry c" "cc_max c1 = cc_max c" "cc_fresh c1 = cc_fresh c" "cc_entries c1 = cc_entries c"
    "cc_closed c1 = cc_closed c" "cc_loaded c1 = cc_loaded c" "cache_content c1 = cache_content c"
    using E(2) by (simp_all add: same_fields_def)
  define v where "v = ce_coord (cc_heap c1 cand)"
  define c2 where "c2 = cache_on_ring (ring_remove cand) (c1\<lparr>cc_entries := AList.delete v (cc_entries c1)\<rparr>)"
  have "cand \<in> set ys" using E(3) ys(2) by (metis mset_eq_setD)
  note D = cinv_detach [OF ys(1) this v_def, folded c2_def]
  obtain zs where zs: "cinv c2 zs [cand]" "length zs + 1 = length ys" using D(1) by blast
  have c2: "cc_geometry c2 = cc_geometry c" "cc_max c2 = cc_max c" "cc_fresh c2 = cc_fresh c" "cc_closed c2 = cc_closed c"
    "cc_loaded c2 = cc_loaded c" using sf by (simp_all add: c2_def)
  have lz: "length zs < cc_max c2" using zs(2) ys xs c2 by (metis Suc_eq_plus1 Suc_le_lessD cinv_def mset_eq_length)
  obtain ok c3 where sm: "scheduleMaintenance (Some cand, v) c2 = (ok, c3)" by fastforce
  obtain a c4 where ta: "(if ok then takeFreeEntry c3 else (cand, c3)) = (a, c4)" by fastforce
  have f2: "cc_fresh c2 \<le> cc_max c2 + cacheMaintenanceQueueSize + 1" using f c2 by simp
  note F = recycle_entry [OF zs(1) lz f2 sm ta]
  have ad: "map_of (cc_entries c4) k = None" "length zs < cc_max c4" "length p = payloadBytes (cc_geometry c4)"
    "length q = presenceBytes (cc_geometry c4)" using lz F c2 len D(3) new sf by (simp_all add: AList.delete_conv)
  note A = cinv_admit [OF F(1) ad]
  have "putState k p q c = (Inr (), (admit a k p q c4)\<lparr>cc_evictions := cc_evictions (admit a k p q c4) + 1,
      cc_evictionRuns := cc_evictionRuns (admit a k p q c4) + 1\<rparr>)"
    using inv(3) len new full ec sm ta
    by (auto simp: putState_def Let_def v_def [symmetric] c2_def [symmetric] finish_task_def split: if_splits)
  moreover have "length (cc_entries (admit a k p q c4)) = length (cc_entries c)"
    using cinv_length [OF A(1)] zs(2) cinv_length [OF xs] ys(2) mset_eq_length by fastforce
  moreover have "cache_content (admit a k p q c4) = (cache_content c)(v := None, k \<mapsto> (p, q))" using A(2) F D(2) sf by simp
  ultimately show ?thesis using A F c2 l new full
    by (auto simp: put_effect_def cache_inv_def cache_content_def intro!: exI [of _ v])
qed

lemma putState_spec:
  assumes "cache_inv c" "0 < cc_max c" "\<not> cc_closed c"
    and "length p = payloadBytes (cc_geometry c)" "length q = presenceBytes (cc_geometry c)"
  shows "put_effect k p q c (fst (putState k p q c)) (snd (putState k p q c))"
  using putState_resident [OF assms(1,3,4,5)] putState_room [OF assms(1,3,4,5)] putState_evict [OF assms]
  by (cases "map_of (cc_entries c) k") blast+

text \<open>The cache while a removed entry is with the thread that removed it.\<close>

definition cache_part :: "chunkCache \<Rightarrow> evictionTask option \<Rightarrow> bool" where
  "cache_part c t \<longleftrightarrow> (\<exists>xs. cinv c xs (case t of None \<Rightarrow> [] | Some task \<Rightarrow> task_addrs [task])) \<and>
     cc_fresh c \<le> cc_max c + cacheMaintenanceQueueSize + 1 \<and> cc_loaded c = int (length (cc_entries c))"

lemma cache_part_None: "cache_part c None = cache_inv c"
  by (simp add: cache_part_def cache_inv_def)

lemma cache_unlink_spec:
  assumes "cache_inv c" "cache_unlink k c = (t, c')"
  shows "cache_part c' t" "cache_content c' = (cache_content c)(k := None)"
    and "cc_geometry c' = cc_geometry c" "cc_max c' = cc_max c" "cc_closed c' = cc_closed c"
proof -
  obtain xs where xs: "cinv c xs []" and f: "cc_fresh c \<le> cc_max c + cacheMaintenanceQueueSize + 1"
    and l: "cc_loaded c = int (length (cc_entries c))" using assms(1) by (auto simp: cache_inv_def)
  have "cache_part c' t \<and> cache_content c' = (cache_content c)(k := None) \<and>
    cc_geometry c' = cc_geometry c \<and> cc_max c' = cc_max c \<and> cc_closed c' = cc_closed c"
  proof (cases "map_of (cc_entries c) k")
    case None
    then show ?thesis using assms by (auto simp: cache_unlink_def cache_content_def cache_part_None)
  next
    case (Some e)
    note en = cinv_entry [OF xs Some]
    define c2 where "c2 = cache_on_ring (ring_remove e) (c\<lparr>cc_entries := AList.delete k (cc_entries c)\<rparr>)"
    note D = cinv_detach [OF xs en(1) en(2) [symmetric], folded c2_def]
    obtain zs where zs: "cinv c2 zs [e]" using D(1) by blast
    obtain ok c3 where sm: "scheduleMaintenance (Some e, k) c2 = (ok, c3)" by fastforce
    note S = cinv_schedule [OF zs sm]
    have l3: "cc_loaded c3 = cc_loaded c" using sm by (auto simp: scheduleMaintenance_def c2_def split: if_splits)
    have c3: "cache_content c3 = (cache_content c)(k := None)" using S(2,3) D(2) by (simp add: cache_content_def fun_eq_iff)
    have u: "t = (if ok then None else Some (Some e, k))" "c' = c3\<lparr>cc_loaded := cc_loaded c3 - 1\<rparr>"
      using assms(2) [unfolded cache_unlink_def Some option.case Let_def, folded c2_def, unfolded D(4) sm prod.case] by auto
    have "cinv c' zs (case t of None \<Rightarrow> [] | Some task \<Rightarrow> task_addrs [task])"
      using S(1) zs by (auto simp: u task_addrs_def split: if_splits)
    moreover have "int (length (cc_entries c3)) = cc_loaded c - 1"
      using length_delete_entry [OF xs Some] S(2) D(3) l by simp
    ultimately show ?thesis using c3 f l3 S(2-7) by (auto simp: u cache_part_def cache_content_def fun_eq_iff c2_def)
  qed
  then show "cache_part c' t" "cache_content c' = (cache_content c)(k := None)"
    and "cc_geometry c' = cc_geometry c" "cc_max c' = cc_max c" "cc_closed c' = cc_closed c" by blast+
qed

lemma finish_task_fields [simp]:
  "cache_content (finish_task task c) = cache_content c" "cc_geometry (finish_task task c) = cc_geometry c"
  "cc_max (finish_task task c) = cc_max c" "cc_closed (finish_task task c) = cc_closed c"
  by (simp_all add: finish_task_def cache_content_def fun_eq_iff split: option.split)

lemma finish_task_part:
  assumes "cache_part c (Some task)"
  shows "cache_inv (finish_task task c)"
proof -
  obtain xs where xs: "cinv c xs (task_addrs [task])" using assms by (auto simp: cache_part_def)
  have "cinv (finish_task task c) xs []"
    by (rule cinv_repartition [OF xs])
      (use xs in \<open>auto simp: finish_task_def owned_def inflight_tasks_def cinv_def task_addrs_def split: option.splits\<close>)
  then show ?thesis using assms by (auto simp: cache_part_def cache_inv_def finish_task_def split: option.splits)
qed

lemma cache_remove_spec:
  assumes "cache_inv c"
  shows "cache_inv (cache_remove k c)" "cache_content (cache_remove k c) = (cache_content c)(k := None)"
    and "cc_geometry (cache_remove k c) = cc_geometry c" "cc_max (cache_remove k c) = cc_max c"
      "cc_closed (cache_remove k c) = cc_closed c"
proof -
  obtain t c' where u: "cache_unlink k c = (t, c')" by fastforce
  note U = cache_unlink_spec [OF assms u]
  show "cache_inv (cache_remove k c)" "cache_content (cache_remove k c) = (cache_content c)(k := None)"
    and "cc_geometry (cache_remove k c) = cc_geometry c" "cc_max (cache_remove k c) = cc_max c"
      "cc_closed (cache_remove k c) = cc_closed c"
    using U finish_task_part [of c'] by (auto simp: cache_remove_def u cache_part_None split: option.split)
qed

lemma worker_spec:
  assumes "cache_part c t"
  shows "cache_part (worker_receive c) t" "cache_part (worker_finish c) t"
    and "cache_content (worker_receive c) = cache_content c" "cache_content (worker_finish c) = cache_content c"
proof -
  let ?det = "case t of None \<Rightarrow> [] | Some task \<Rightarrow> task_addrs [task]"
  obtain xs where xs: "cinv c xs ?det" using assms by (auto simp: cache_part_def)
  have "cinv (worker_receive c) xs ?det"
    by (rule cinv_repartition [OF xs])
      (use xs in \<open>auto simp: worker_receive_def owned_def inflight_tasks_def cinv_def split: option.splits list.splits\<close>)
  then show "cache_part (worker_receive c) t"
    using assms by (auto simp: cache_part_def worker_receive_def split: option.splits list.splits)
  have "cinv (worker_finish c) xs ?det"
    by (rule cinv_repartition [OF xs])
      (use xs in \<open>auto simp: worker_finish_def finish_task_def owned_def inflight_tasks_def cinv_def split: option.splits\<close>)
  then show "cache_part (worker_finish c) t"
    using assms by (auto simp: cache_part_def worker_finish_def finish_task_def split: option.splits)
  show "cache_content (worker_receive c) = cache_content c" "cache_content (worker_finish c) = cache_content c"
    by (auto simp: worker_receive_def worker_finish_def finish_task_def cache_content_def fun_eq_iff split: option.splits list.splits)
qed

lemma newChunkCache_inv: "cache_inv (newChunkCache g mx)" "cache_content (newChunkCache g mx) = (\<lambda>_. None)"
  by (auto simp: cache_inv_def cinv_def newChunkCache_def ring_rep_def owned_def inflight_tasks_def cache_content_def)

section \<open>The contract of a cache\<close>

text \<open>
  What the store relies on: whatever a cache holds for a key is the last value stored under that key.
  \<open>holds\<close> is the cache's content; a cache may forget any key at any time.
\<close>

locale bounded_cache =
  fixes inv :: "'c \<Rightarrow> bool"
    and fits :: "'c \<Rightarrow> 'v \<Rightarrow> bool"
    and holds :: "'c \<Rightarrow> 'k \<Rightarrow> 'v option"
    and look :: "'k \<Rightarrow> 'c \<Rightarrow> 'c"
    and put :: "'k \<Rightarrow> 'v \<Rightarrow> 'c \<Rightarrow> 'c"
    and forget :: "'k \<Rightarrow> 'c \<Rightarrow> 'c"
  assumes look_inv: "inv c \<Longrightarrow> inv (look k c)" and look_holds: "inv c \<Longrightarrow> holds (look k c) = holds c"
    and put_inv: "inv c \<Longrightarrow> fits c v \<Longrightarrow> inv (put k v c)"
    and put_holds: "inv c \<Longrightarrow> fits c v \<Longrightarrow> holds (put k v c) k = Some v"
    and put_others: "inv c \<Longrightarrow> fits c v \<Longrightarrow> j \<noteq> k \<Longrightarrow> holds (put k v c) j = Some w \<Longrightarrow> holds c j = Some w"
    and forget_inv: "inv c \<Longrightarrow> inv (forget k c)"
    and forget_holds: "inv c \<Longrightarrow> holds (forget k c) = (holds c)(k := None)"
begin

definition coherent :: "('k \<Rightarrow> 'v option) \<Rightarrow> 'c \<Rightarrow> bool" where
  "coherent m c \<longleftrightarrow> inv c \<and> (\<forall>k v. holds c k = Some v \<longrightarrow> m k = Some v)"

lemma coherent_look: "coherent m c \<Longrightarrow> coherent m (look k c)"
  by (simp add: coherent_def look_inv look_holds)

lemma coherent_put: "coherent m c \<Longrightarrow> fits c v \<Longrightarrow> coherent (m(k \<mapsto> v)) (put k v c)"
  unfolding coherent_def using put_inv put_holds put_others by (metis fun_upd_apply option.inject)

lemma coherent_forget: "coherent m c \<Longrightarrow> (\<And>j. j \<noteq> k \<Longrightarrow> m' j = m j) \<Longrightarrow> coherent m' (forget k c)"
  by (auto simp: coherent_def forget_inv forget_holds split: if_splits)

lemma coherent_hit: "coherent m c \<Longrightarrow> holds c k = Some v \<Longrightarrow> m k = Some v"
  by (simp add: coherent_def)

end

definition cache_ok :: "chunkCache \<Rightarrow> bool" where
  "cache_ok c \<longleftrightarrow> cache_inv c \<and> 0 < cc_max c"

definition state_fits :: "chunkCache \<Rightarrow> bytes \<times> bytes \<Rightarrow> bool" where
  "state_fits c v \<longleftrightarrow> \<not> cc_closed c \<and> length (fst v) = payloadBytes (cc_geometry c) \<and> length (snd v) = presenceBytes (cc_geometry c)"

interpretation chunk_cache: bounded_cache cache_ok state_fits cache_content "\<lambda>k c. snd (cache_get k c)"
  "\<lambda>k v c. snd (putState k (fst v) (snd v) c)" cache_remove
proof
  fix c k j v w
  assume ok: "cache_ok c"
  then have i: "cache_inv c" and m: "0 < cc_max c" by (simp_all add: cache_ok_def)
  show "cache_ok (snd (cache_get k c))" "cache_content (snd (cache_get k c)) = cache_content c"
    using cache_get_spec [OF i prod.collapse [symmetric]] m by (simp_all add: cache_ok_def)
  show "cache_ok (cache_remove k c)" "cache_content (cache_remove k c) = (cache_content c)(k := None)"
    using cache_remove_spec [OF i, of k] m by (simp_all add: cache_ok_def)
  assume "state_fits c v"
  then have e: "put_effect k (fst v) (snd v) c (fst (putState k (fst v) (snd v) c)) (snd (putState k (fst v) (snd v) c))"
    using putState_spec [OF i m] by (simp add: state_fits_def)
  then show "cache_ok (snd (putState k (fst v) (snd v) c))" "cache_content (snd (putState k (fst v) (snd v) c)) k = Some v"
    using m by (auto simp: put_effect_def cache_ok_def)
  assume "j \<noteq> k" "cache_content (snd (putState k (fst v) (snd v) c)) j = Some w"
  then show "cache_content c j = Some w" using e by (auto simp: put_effect_def split: if_splits)
qed

section \<open>Runs of the cache\<close>

text \<open>
  The states a cache reaches from its creation, by any interleaving of the store's calls with the steps of the maintenance
  worker, together with the last value put for each coordinate.  \<open>t\<close> is the task of a removal that is between its two sections:
  the store removes entries under its exclusive lock, so that only the worker runs in between.
\<close>

inductive cache_thread :: "Geometry \<Rightarrow> nat \<Rightarrow> chunkCache \<Rightarrow> evictionTask option \<Rightarrow> (Coord \<Rightarrow> (bytes \<times> bytes) option) \<Rightarrow> bool" for g mx where
  run_new: "cache_thread g mx (newChunkCache g mx) None (\<lambda>_. None)"
| run_start: "cache_thread g mx c None m \<Longrightarrow> cache_thread g mx (startMaintenance c) None m"
| run_get: "cache_thread g mx c None m \<Longrightarrow> cache_thread g mx (snd (cache_get k c)) None m"
| run_put: "cache_thread g mx c None m \<Longrightarrow> putState k p q c = (Inr (), c') \<Longrightarrow> cache_thread g mx c' None (m(k \<mapsto> (p, q)))"
| run_put_rejected: "cache_thread g mx c None m \<Longrightarrow> putState k p q c = (Inl e, c') \<Longrightarrow> cache_thread g mx c' None m"
| run_unlink: "cache_thread g mx c None m \<Longrightarrow> cache_unlink k c = (t, c') \<Longrightarrow> cache_thread g mx c' t (m(k := None))"
| run_inline: "cache_thread g mx c (Some task) m \<Longrightarrow> cache_thread g mx (finish_task task c) None m"
| run_receive: "cache_thread g mx c t m \<Longrightarrow> cache_thread g mx (worker_receive c) t m"
| run_finish: "cache_thread g mx c t m \<Longrightarrow> cache_thread g mx (worker_finish c) t m"
| run_close: "cache_thread g mx c None m \<Longrightarrow> cache_thread g mx (cache_close c) None m"

definition cache_run :: "Geometry \<Rightarrow> nat \<Rightarrow> chunkCache \<Rightarrow> (Coord \<Rightarrow> (bytes \<times> bytes) option) \<Rightarrow> bool" where
  "cache_run g mx c m \<longleftrightarrow> (\<exists>t. cache_thread g mx c t m)"

lemma putState_fits:
  assumes "putState k p q c = (Inr (), c')"
  shows "state_fits c (p, q)"
  using assms by (auto simp: putState_def state_fits_def split: if_splits)

lemma putState_rejected:
  assumes "putState k p q c = (Inl e, c')"
  shows "c' = c"
  using assms by (auto simp: putState_def Let_def split: if_splits option.splits prod.splits)

lemma cache_inv_flags:
  "cache_inv (c\<lparr>cc_started := b\<rparr>) = cache_inv c" "cache_inv (c\<lparr>cc_closed := b\<rparr>) = cache_inv c"
  "cache_content (c\<lparr>cc_started := b\<rparr>) = cache_content c"
  by (simp_all add: cache_inv_def cache_content_def fun_eq_iff)

lemma coherent_iff:
  "chunk_cache.coherent m c \<longleftrightarrow> cache_inv c \<and> 0 < cc_max c \<and> (\<forall>k v. cache_content c k = Some v \<longrightarrow> m k = Some v)"
  by (simp only: chunk_cache.coherent_def) (simp add: cache_ok_def)

text \<open>What holds of every state of a run: the invariant, the limit, the geometry, and that the content is the last stored.\<close>

definition thread_ok :: "Geometry \<Rightarrow> nat \<Rightarrow> chunkCache \<Rightarrow> evictionTask option \<Rightarrow> (Coord \<Rightarrow> (bytes \<times> bytes) option) \<Rightarrow> bool" where
  "thread_ok g mx c t m \<longleftrightarrow> cache_part c t \<and> cc_max c = mx \<and> cc_geometry c = g \<and> (\<forall>k v. cache_content c k = Some v \<longrightarrow> m k = Some v)"

lemma thread_ok_None: "0 < mx \<Longrightarrow> thread_ok g mx c None m \<longleftrightarrow> chunk_cache.coherent m c \<and> cc_max c = mx \<and> cc_geometry c = g"
  by (auto simp: thread_ok_def coherent_iff cache_part_None)

lemma worker_fields [simp]: "cc_max (worker_receive c) = cc_max c" "cc_max (worker_finish c) = cc_max c"
  "cc_geometry (worker_receive c) = cc_geometry c" "cc_geometry (worker_finish c) = cc_geometry c"
  by (auto simp: worker_receive_def worker_finish_def split: option.split list.split)

lemma cache_thread_ok:
  assumes "cache_thread g mx c t m" "0 < mx"
  shows "thread_ok g mx c t m"
  using assms(1)
proof induction
  case run_new
  have "cc_max (newChunkCache g mx) = mx" "cc_geometry (newChunkCache g mx) = g" by (simp_all add: newChunkCache_def)
  then show ?case using newChunkCache_inv [of g mx] assms(2) by (simp add: thread_ok_None coherent_iff)
next
  case (run_start c m)
  then show ?case using assms(2) by (simp add: thread_ok_None coherent_iff startMaintenance_def cache_inv_flags)
next
  case (run_get c m k)
  then have "cache_inv c" by (simp add: thread_ok_def cache_part_None)
  from cache_get_spec [OF this prod.collapse [symmetric], of k] run_get.IH show ?case
    by (simp add: thread_ok_def cache_part_None)
next
  case (run_put c m k p q c')
  then have i: "cache_inv c" "0 < cc_max c" using assms(2) by (simp_all add: thread_ok_def cache_part_None)
  have f: "state_fits c (p, q)" using putState_fits [OF run_put.hyps(2)] .
  then have "cc_max c' = cc_max c" "cc_geometry c' = cc_geometry c"
    using putState_spec [OF i, of p q k] run_put.hyps(2) by (simp_all add: state_fits_def put_effect_def)
  then show ?case using chunk_cache.coherent_put [OF _ f, of m k] run_put assms(2) by (simp add: thread_ok_None fun_upd_def)
next
  case (run_put_rejected c m k p q e c')
  then show ?case using putState_rejected [OF run_put_rejected.hyps(2)] by simp
next
  case (run_unlink c m k t c')
  then have "cache_inv c" by (simp add: thread_ok_def cache_part_None)
  from cache_unlink_spec [OF this run_unlink.hyps(2)] run_unlink.IH show ?case by (simp add: thread_ok_def)
next
  case (run_inline c task m)
  then show ?case using finish_task_part [of c task] by (simp add: thread_ok_def cache_part_None)
next
  case (run_receive c t m)
  then show ?case using worker_spec [of c t] by (simp add: thread_ok_def)
next
  case (run_finish c t m)
  then show ?case using worker_spec [of c t] by (simp add: thread_ok_def)
next
  case (run_close c m)
  then show ?case using assms(2) by (simp add: thread_ok_None coherent_iff cache_close_def cache_inv_flags)
qed

section \<open>The properties of the cache\<close>

lemma cache_get_last:
  assumes "thread_ok g mx c t m" "wf_geometry g"
  shows "case fst (cache_get k c) of
           Inr None \<Rightarrow> cache_content c k = None
         | Inr (Some ch) \<Rightarrow> wf_chunk ch \<and> chunk_geometry ch = g \<and> m k = Some (chunk_payload ch, chunk_presence ch)
         | Inl e \<Rightarrow> e = [ErrPresenceSize] \<and> (\<exists>p q. m k = Some (p, q) \<and> (\<exists>i\<in>{unat (blockCount g)..<8 * presenceBytes g}. presence_bit q i))"
proof -
  obtain xs det where xs: "cinv c xs det" using assms(1) by (auto simp: thread_ok_def cache_part_def)
  note G = cache_get_part [OF xs prod.collapse [symmetric], of k]
  show ?thesis
  proof (cases "cache_content c k")
    case None
    then show ?thesis using G by simp
  next
    case (Some v)
    obtain p q where v: "v = (p, q)" by (cases v)
    obtain a where a: "map_of (cc_entries c) k = Some a" "p = ce_payload (cc_heap c a)" "q = ce_presence (cc_heap c a)"
      using Some v by (auto simp: cache_content_def)
    have "length p = payloadBytes g" "length q = presenceBytes g"
      using cinv_entry(4) [OF xs a(1)] a(2,3) assms(1) by (simp_all add: buffers_ok_def thread_ok_def)
    moreover have "m k = Some (p, q)" "cc_geometry c = g" using assms(1) Some v by (simp_all add: thread_ok_def)
    moreover have "fst (cache_get k c) = (case ChunkFromState g p q of Inl e \<Rightarrow> Inl e | Inr chunk \<Rightarrow> Inr (Some chunk))"
      using G Some v calculation(4) by simp
    ultimately show ?thesis using ChunkFromState_Inr [OF assms(2), of p q]
      by (auto simp: ChunkFromState_eq [OF assms(2)] split: if_splits sum.splits)
  qed
qed

text \<open>
  (C30) Whatever the interleaving of reads, writes, removals and maintenance-worker steps, the cache never holds more than its
  limit of chunks, never allocates more than that limit plus the maintenance backlog, and reports its size exactly.  What a lookup
  returns is the last state stored for the coordinate and not removed since: a hit is a well-formed chunk with exactly that
  payload and presence, the only error is for a stored state whose presence marks blocks past the last one, and a miss is reported
  only for a coordinate the cache does not hold.  A state is held right after it was stored.
\<close>

theorem cache_bounded_coherent:
  assumes "cache_run g mx c m" "0 < mx" "wf_geometry g"
  shows "length (cc_entries c) \<le> mx \<and> cc_fresh c \<le> mx + cacheMaintenanceQueueSize + 1 \<and>
         cc_loaded c = int (length (cc_entries c)) \<and>
         (\<forall>k v. cache_content c k = Some v \<longrightarrow> m k = Some v) \<and>
         (\<forall>k. case fst (cache_get k c) of
                Inr None \<Rightarrow> cache_content c k = None
              | Inr (Some ch) \<Rightarrow> wf_chunk ch \<and> chunk_geometry ch = g \<and> m k = Some (chunk_payload ch, chunk_presence ch)
              | Inl e \<Rightarrow> e = [ErrPresenceSize] \<and>
                  (\<exists>p q. m k = Some (p, q) \<and> (\<exists>i\<in>{unat (blockCount g)..<8 * presenceBytes g}. presence_bit q i))) \<and>
         (\<forall>k p q c'. cache_thread g mx c None m \<and> putState k p q c = (Inr (), c') \<longrightarrow> cache_content c' k = Some (p, q))"
proof -
  obtain t where "cache_thread g mx c t m" using assms(1) by (auto simp: cache_run_def)
  then have T: "thread_ok g mx c t m" by (rule cache_thread_ok [OF _ assms(2)])
  then obtain xs where xs: "cinv c xs (case t of None \<Rightarrow> [] | Some task \<Rightarrow> task_addrs [task])"
    by (auto simp: thread_ok_def cache_part_def)
  have "length (cc_entries c) \<le> mx" using xs cinv_length [OF xs] T by (simp add: cinv_def thread_ok_def)
  moreover have "cache_content c' k = Some (p, q)" if "cache_thread g mx c None m" "putState k p q c = (Inr (), c')" for k p q c'
  proof -
    have "cache_ok c" using cache_thread_ok [OF that(1) assms(2)] assms(2) by (simp add: thread_ok_def cache_part_None cache_ok_def)
    from chunk_cache.put_holds [OF this putState_fits [OF that(2)], of k] show ?thesis using that(2) by simp
  qed
  moreover have "cc_fresh c \<le> mx + cacheMaintenanceQueueSize + 1" "cc_loaded c = int (length (cc_entries c))"
    "\<forall>k v. cache_content c k = Some v \<longrightarrow> m k = Some v" using T by (simp_all add: thread_ok_def cache_part_def)
  ultimately show ?thesis using cache_get_last [OF T assms(3)] by blast
qed

definition ring_victim :: "heap \<Rightarrow> addr list \<Rightarrow> addr" where
  "ring_victim h xs = (case filter (\<lambda>x. \<not> ce_recentlyUsed (h x)) xs of [] \<Rightarrow> last xs | u # us \<Rightarrow> last (u # us))"

text \<open>
  (C31) The clock gives every recently used chunk a second chance: in every reachable cache the pointer
  ring is a doubly linked list of exactly the cached entries, and the entry chosen for eviction is the
  one nearest the back that was not used since it was last passed over, or the back entry when all were.
\<close>

theorem eviction_second_chance:
  assumes "cache_run g mx c m" "0 < mx" "cc_entries c \<noteq> []"
  shows "\<exists>xs. ring_rep (cc_heap c) (cc_ring c) xs \<and> set xs = snd ` set (cc_entries c) \<and>
           fst (evictionCandidate c) = ring_victim (cc_heap c) xs \<and> ring_victim (cc_heap c) xs \<in> set xs \<and>
           cache_content (snd (evictionCandidate c)) = cache_content c"
proof -
  obtain t where "cache_thread g mx c t m" using assms(1) by (auto simp: cache_run_def)
  then have "thread_ok g mx c t m" by (rule cache_thread_ok [OF _ assms(2)])
  then obtain xs det where xs: "cinv c xs det" by (auto simp: thread_ok_def cache_part_def)
  then have ne: "xs \<noteq> []" using cinv_length [OF xs] assms(3) by auto
  note E = evictionCandidate_spec [OF xs ne prod.collapse [symmetric]]
  have m: "image_mset snd (mset (cc_entries c)) = mset xs" using xs by (simp add: cinv_def)
  have "set xs = snd ` set (cc_entries c)" using arg_cong [OF m, of set_mset] by simp
  moreover have "ring_rep (cc_heap c) (cc_ring c) xs" using xs by (simp add: cinv_def)
  moreover have "fst (evictionCandidate c) = ring_victim (cc_heap c) xs" using E(4) by (simp only: ring_victim_def)
  ultimately show ?thesis using E(2,3) by (auto simp: same_fields_def)
qed

section \<open>A sample run\<close>

definition sample_cache :: chunkCache where
  "sample_cache = snd (putState (Coord 1 2) [5, 0] [1] (newChunkCache sample_geometry 1))"

definition sample_cache2 :: chunkCache where
  "sample_cache2 = snd (putState (Coord 3 4) [0, 1] [8] sample_cache)"

lemmas cache_compute = sample_cache_def sample_cache2_def putState_def newChunkCache_def sample_geometry_def Let_def
  takeFreeEntry_def admit_def cache_on_ring_def pushFront_def set_previous_def set_next_def go_copy_def zero_entry_def
  evictionCandidate_def scheduleMaintenance_def ring_remove_def finish_task_def cacheMaintenanceQueueSize_def

lemma sample_run:
  "cache_run sample_geometry 1 sample_cache ((\<lambda>_. None)(Coord 1 2 \<mapsto> ([5, 0], [1])))"
  "cache_run sample_geometry 1 sample_cache2 ((\<lambda>_. None)(Coord 1 2 \<mapsto> ([5, 0], [1]), Coord 3 4 \<mapsto> ([0, 1], [8])))"
proof -
  have "putState (Coord 1 2) [5, 0] [1] (newChunkCache sample_geometry 1) = (Inr (), sample_cache)"
    by (simp add: cache_compute)
  from cache_thread.run_put [OF cache_thread.run_new this]
  have r: "cache_thread sample_geometry 1 sample_cache None ((\<lambda>_. None)(Coord 1 2 \<mapsto> ([5, 0], [1])))" .
  have "putState (Coord 3 4) [0, 1] [8] sample_cache = (Inr (), sample_cache2)"
    by (simp add: cache_compute)
  from r cache_thread.run_put [OF r this]
  show "cache_run sample_geometry 1 sample_cache ((\<lambda>_. None)(Coord 1 2 \<mapsto> ([5, 0], [1])))"
    "cache_run sample_geometry 1 sample_cache2 ((\<lambda>_. None)(Coord 1 2 \<mapsto> ([5, 0], [1]), Coord 3 4 \<mapsto> ([0, 1], [8])))"
    unfolding cache_run_def by blast+
qed

theorem cache_bounded_coherent_witness:
  "length (cc_entries sample_cache2) \<le> 1 \<and> cc_loaded sample_cache2 = 1 \<and>
   cache_content sample_cache2 (Coord 3 4) = Some ([0, 1], [8]) \<and> cache_content sample_cache2 (Coord 1 2) = None"
  using cache_bounded_coherent [OF sample_run(2) _ wf_sample_geometry] by (simp add: cache_compute cache_content_def)

theorem eviction_second_chance_witness:
  "\<exists>xs. ring_rep (cc_heap sample_cache) (cc_ring sample_cache) xs \<and> fst (evictionCandidate sample_cache) \<in> set xs"
proof -
  have "cc_entries sample_cache \<noteq> []" by (simp add: cache_compute)
  from eviction_second_chance [OF sample_run(1) _ this] show ?thesis by auto
qed

end
