(* ===== verification/FileSystem.thy ===== *)
theory FileSystem
  imports Names "HOL-Library.AList" "HOL-Library.Char_ord" "HOL-Library.List_Lexorder"
begin

text \<open>
  The file system as the store sees it, with its failures, and the atomic file replacement that every
  other file of the store is written with (\<^verbatim>\<open>fs_split/atomic_write.go\<close>, \<^verbatim>\<open>replace.go\<close>,
  \<^verbatim>\<open>sync_directory.go\<close>, \<^verbatim>\<open>sync_file.go\<close>, \<^verbatim>\<open>temporary_file.go\<close>; Unix build).

  A world holds the files and directories below the data directory, and an oracle that decides for each
  system call whether it works, fails (a failing write may have transferred a prefix), or is the last
  one the process reaches.  After such a halt no call has an effect any more, so the final world of a
  run with a halt is what a crash at that point leaves behind; theorems that hold for every oracle
  cover every crash point.  Renames are atomic and a failed call other than a write has no effect,
  which POSIX promises.  File contents survive the crash of the process; what survives a loss of power is
  not described.

  \<open>triple\<close> is the Hoare triple the store proofs compose; \<open>writeAtomic_triple\<close> is the law of the atomic
  replacement: whatever fails, every other file keeps its contents and the destination holds either
  its old contents or all of the new ones.
\<close>

section \<open>Operations that fail\<close>

text \<open>A Go function over the state \<open>'s\<close> that returns a value or an error.\<close>

type_synonym ('s, 'a) op = "'s \<Rightarrow> 'a result \<times> 's"

definition ret :: "'a \<Rightarrow> ('s, 'a) op" where
  "ret x s = (Inr x, s)"

definition raise :: "error \<Rightarrow> ('s, 'a) op" where
  "raise e s = (Inl e, s)"

text \<open>\<^verbatim>\<open>x, err := m(); if err != nil { return h(err) }; return f(x)\<close>\<close>

definition catch :: "('s, 'a) op \<Rightarrow> (error \<Rightarrow> ('s, 'b) op) \<Rightarrow> ('a \<Rightarrow> ('s, 'b) op) \<Rightarrow> ('s, 'b) op" where
  "catch m h f s = (case m s of (Inl e, s') \<Rightarrow> h e s' | (Inr x, s') \<Rightarrow> f x s')"

definition andThen :: "('s, 'a) op \<Rightarrow> ('a \<Rightarrow> ('s, 'b) op) \<Rightarrow> ('s, 'b) op" where
  "andThen m f = catch m raise f"

definition state_of :: "('s \<Rightarrow> 'a) \<Rightarrow> ('s, 'a) op" where
  "state_of f s = (Inr (f s), s)"

definition update :: "('s \<Rightarrow> 's) \<Rightarrow> ('s, unit) op" where
  "update f s = (Inr (), f s)"

text \<open>\<^verbatim>\<open>_ = m()\<close>\<close>

definition ignore :: "('s, 'a) op \<Rightarrow> ('s, unit) op" where
  "ignore m = catch m (\<lambda>_. ret ()) (\<lambda>_. ret ())"

text \<open>A loop over a slice that returns at the first error.\<close>

primrec for_each :: "'b list \<Rightarrow> ('b \<Rightarrow> ('s, unit) op) \<Rightarrow> ('s, unit) op" where
  "for_each [] f = ret ()"
| "for_each (x # xs) f = andThen (f x) (\<lambda>_. for_each xs f)"

definition triple :: "('s \<Rightarrow> bool) \<Rightarrow> ('s, 'a) op \<Rightarrow> ('a result \<Rightarrow> 's \<Rightarrow> bool) \<Rightarrow> bool" where
  "triple P m Q \<longleftrightarrow> (\<forall>s. P s \<longrightarrow> Q (fst (m s)) (snd (m s)))"

lemma tripleD: "triple P m Q \<Longrightarrow> P s \<Longrightarrow> m s = (r, s') \<Longrightarrow> Q r s'"
  unfolding triple_def by (metis fst_conv snd_conv)

lemma tripleI: "(\<And>s r s'. P s \<Longrightarrow> m s = (r, s') \<Longrightarrow> Q r s') \<Longrightarrow> triple P m Q"
  by (simp add: triple_def)

lemma triple_conseq:
  assumes "triple P m Q" "\<And>s. P' s \<Longrightarrow> P s" "\<And>r s. Q r s \<Longrightarrow> Q' r s"
  shows "triple P' m Q'"
  using assms by (auto simp: triple_def)

lemma triple_catch:
  assumes "triple P m R" "\<And>e. triple (R (Inl e)) (h e) Q" "\<And>x. triple (R (Inr x)) (f x) Q"
  shows "triple P (catch m h f) Q"
proof (rule tripleI)
  fix s r s' assume P: "P s" and c: "catch m h f s = (r, s')"
  obtain a t where m: "m s = (a, t)" by fastforce
  show "Q r s'"
    using tripleD [OF assms(1) P m] c m tripleD [OF assms(2)] tripleD [OF assms(3)]
    by (cases a) (auto simp: catch_def)
qed

lemma triple_ret: "triple (Q (Inr x)) (ret x) Q"
  by (simp add: triple_def ret_def)

lemma triple_raise: "triple (Q (Inl e)) (raise e) Q"
  by (simp add: triple_def raise_def)

lemma triple_update: "triple (\<lambda>s. Q (Inr ()) (f s)) (update f) Q"
  by (simp add: triple_def update_def)

lemma triple_state_of: "triple (\<lambda>s. Q (Inr (f s)) s) (state_of f) Q"
  by (simp add: triple_def state_of_def)

lemma triple_andThen:
  assumes "triple P m R" "\<And>x. triple (R (Inr x)) (f x) Q" "\<And>e s. R (Inl e) s \<Longrightarrow> Q (Inl e) s"
  shows "triple P (andThen m f) Q"
  unfolding andThen_def
proof (rule triple_catch [OF assms(1) _ assms(2)])
  show "triple (R (Inl e)) (raise e) Q" for e using assms(3) by (simp add: triple_def raise_def)
qed

lemma triple_ignore: "triple P m (\<lambda>_. Q (Inr ())) \<Longrightarrow> triple P (ignore m) Q"
  unfolding ignore_def by (rule triple_catch) (auto simp: triple_def ret_def)

text \<open>A loop whose body keeps an invariant on every outcome.\<close>

lemma triple_for_each:
  assumes "\<And>x. x \<in> set xs \<Longrightarrow> triple I (f x) (\<lambda>_. I)"
  shows "triple I (for_each xs f) (\<lambda>_. I)"
  using assms
proof (induction xs)
  case (Cons x xs)
  then show ?case by (auto intro!: triple_andThen [where R = "\<lambda>_. I"])
qed (simp add: triple_def ret_def)

lemma triple_pre: "(\<And>s. P s \<Longrightarrow> triple ((=) s) m Q) \<Longrightarrow> triple P m Q"
  by (simp add: triple_def)

section \<open>The world\<close>

datatype fault = NoFault | Fail nat | Unsupported | Halt nat

datatype oscall =
    OsStat path | OsRead path | OsReadDir path | OsRandom | OsCreate path | OsChmod path | OsWrite path | OsSync path
  | OsSyncDir path | OsClose path | OsRename path path | OsRemove path | OsMkdir path | OsTruncate path | OsOpen path
  | OsSeek path | OsLock

record world =
  w_files :: "(path \<times> bytes) list"
  w_dirs :: "path list"
  w_oracle :: "nat \<Rightarrow> oscall \<Rightarrow> fault"
  w_random :: "nat \<Rightarrow> string"
  w_order :: "nat \<Rightarrow> Coord \<Rightarrow> nat"
  w_clock :: nat
  w_halted :: bool

definition content :: "world \<Rightarrow> path \<Rightarrow> bytes option" where
  "content w = map_of (w_files w)"

definition is_dir :: "world \<Rightarrow> path \<Rightarrow> bool" where
  "is_dir w p \<longleftrightarrow> p = [] \<or> p \<in> set (w_dirs w)"

definition put_file :: "path \<Rightarrow> bytes \<Rightarrow> world \<Rightarrow> world" where
  "put_file p d w = w\<lparr>w_files := AList.update p d (w_files w)\<rparr>"

definition drop_file :: "path \<Rightarrow> world \<Rightarrow> world" where
  "drop_file p w = w\<lparr>w_files := AList.delete p (w_files w)\<rparr>"

text \<open>
  Ranging over a Go map visits its entries in an order of the runtime's choice, another one each time: \<open>w_order\<close> ranks the
  keys, at every moment in any way.
\<close>

definition range_over :: "world \<Rightarrow> (Coord \<times> 'a) list \<Rightarrow> (Coord \<times> 'a) list" where
  "range_over w = sort_key (\<lambda>entry. w_order w (w_clock w) (fst entry))"

lemma set_range_over [simp]: "set (range_over w m) = set m" and length_range_over [simp]: "length (range_over w m) = length m"
  by (simp_all add: range_over_def)

lemma distinct_range_over [simp]: "distinct (map fst (range_over w m)) \<longleftrightarrow> distinct (map fst m)"
proof -
  have "mset (map fst (range_over w m)) = mset (map fst m)" by (simp add: range_over_def)
  then show ?thesis by (rule mset_eq_imp_distinct_iff)
qed

lemma map_of_range_over: "distinct (map fst m) \<Longrightarrow> map_of (range_over w m) = map_of m"
  by (simp add: map_of_inject_set)

lemma range_over_Nil [simp]: "range_over w [] = []"
  by (simp add: range_over_def)

text \<open>One system call: \<open>part n\<close> is what a failing call has done after \<open>n\<close> bytes.\<close>

definition os_call :: "oscall \<Rightarrow> (nat \<Rightarrow> world \<Rightarrow> world) \<Rightarrow> (world, 'a) op \<Rightarrow> (world, 'a) op" where
  "os_call c part act w =
     (if w_halted w then (Inl [], w)
      else let w1 = w\<lparr>w_clock := w_clock w + 1\<rparr>
           in case w_oracle w (w_clock w) c of
                NoFault \<Rightarrow> act w1
              | Fail n \<Rightarrow> (Inl [], part n w1)
              | Unsupported \<Rightarrow> (Inl (case c of OsSyncDir _ \<Rightarrow> [ErrDirectorySyncUnsupported] | _ \<Rightarrow> []), w1)
              | Halt n \<Rightarrow> (Inl [], (part n w1)\<lparr>w_halted := True\<rparr>))"

abbreviation untouched :: "nat \<Rightarrow> world \<Rightarrow> world" where
  "untouched \<equiv> \<lambda>_ w. w"

definition os_stat :: "path \<Rightarrow> (world, unit) op" where
  "os_stat p = os_call (OsStat p) untouched (\<lambda>w. if content w p = None \<and> \<not> is_dir w p then (Inl [ErrNotExist], w) else (Inr (), w))"

definition os_read :: "path \<Rightarrow> (world, bytes) op" where
  "os_read p = os_call (OsRead p) untouched
     (\<lambda>w. case content w p of None \<Rightarrow> (Inl (if is_dir w p then [] else [ErrNotExist]), w) | Some d \<Rightarrow> (Inr d, w))"

definition os_create :: "path \<Rightarrow> (world, unit) op" where
  "os_create p = os_call (OsCreate p) untouched
     (\<lambda>w. if \<not> is_dir w (butlast p) then (Inl [ErrNotExist], w)
          else if content w p \<noteq> None \<or> is_dir w p then (Inl [ErrExist], w)
          else (Inr (), put_file p [] w))"

text \<open>A file offset is an \<^verbatim>\<open>int64\<close>: a write past its range fails.\<close>

definition fits_file :: "bytes \<Rightarrow> bytes \<Rightarrow> bool" where
  "fits_file old d \<longleftrightarrow> int (length old) + int (length d) < 9223372036854775808"

definition append_file :: "path \<Rightarrow> bytes \<Rightarrow> world \<Rightarrow> world" where
  "append_file p d w =
     (case content w p of None \<Rightarrow> w | Some old \<Rightarrow> if fits_file old d then put_file p (old @ d) w else w)"

definition os_write :: "path \<Rightarrow> bytes \<Rightarrow> (world, unit) op" where
  "os_write p d = os_call (OsWrite p) (\<lambda>n. append_file p (take n d))
     (\<lambda>w. case content w p of
            None \<Rightarrow> (Inl [], w)
          | Some old \<Rightarrow> if fits_file old d then (Inr (), append_file p d w) else (Inl [], w))"

definition os_size :: "path \<Rightarrow> (world, nat) op" where
  "os_size p = os_call (OsStat p) untouched (\<lambda>w. case content w p of None \<Rightarrow> (Inl [], w) | Some d \<Rightarrow> (Inr (length d), w))"

definition os_noop :: "oscall \<Rightarrow> (world, unit) op" where
  "os_noop c = os_call c untouched (\<lambda>w. (Inr (), w))"

definition os_rename :: "path \<Rightarrow> path \<Rightarrow> (world, unit) op" where
  "os_rename old new = os_call (OsRename old new) untouched
     (\<lambda>w. case content w old of
            None \<Rightarrow> (Inl [ErrNotExist], w)
          | Some d \<Rightarrow> if \<not> is_dir w (butlast new) then (Inl [ErrNotExist], w)
                      else if is_dir w new then (Inl [], w)
                      else (Inr (), put_file new d (drop_file old w)))"

definition os_remove :: "path \<Rightarrow> (world, unit) op" where
  "os_remove p = os_call (OsRemove p) untouched
     (\<lambda>w. if content w p = None then (Inl [ErrNotExist], w) else (Inr (), drop_file p w))"

definition os_truncate :: "path \<Rightarrow> nat \<Rightarrow> (world, unit) op" where
  "os_truncate p n = os_call (OsTruncate p) untouched
     (\<lambda>w. case content w p of
            None \<Rightarrow> (Inl [ErrNotExist], w)
          | Some d \<Rightarrow> (Inr (), put_file p (take n d @ replicate (n - length d) 0) w))"

definition os_mkdir :: "path \<Rightarrow> (world, unit) op" where
  "os_mkdir p = os_call (OsMkdir p) untouched
     (\<lambda>w. if is_dir w p \<or> content w p \<noteq> None then (Inl [ErrExist], w) else (Inr (), w\<lparr>w_dirs := p # w_dirs w\<rparr>))"

text \<open>\<^verbatim>\<open>MkdirAll\<close> of a directory one level below the data directory, which exists.\<close>

definition os_mkdir_all :: "path \<Rightarrow> (world, unit) op" where
  "os_mkdir_all p = os_call (OsMkdir p) untouched
     (\<lambda>w. if is_dir w p then (Inr (), w) else if content w p \<noteq> None then (Inl [], w)
          else (Inr (), w\<lparr>w_dirs := p # w_dirs w\<rparr>))"

definition os_read_dir :: "path \<Rightarrow> (world, string list) op" where
  "os_read_dir p = os_call (OsReadDir p) untouched
     (\<lambda>w. if \<not> is_dir w p then (Inl (if content w p \<noteq> None then [] else [ErrNotExist]), w)
          else (Inr (sort (remdups (map last (filter (\<lambda>q. q \<noteq> [] \<and> butlast q = p) (map fst (w_files w) @ w_dirs w))))), w))"

definition os_open :: "path \<Rightarrow> (world, unit) op" where
  "os_open p = os_call (OsOpen p) untouched (\<lambda>w. if content w p = None \<and> \<not> is_dir w p then (Inl [ErrNotExist], w) else (Inr (), w))"

section \<open>Synchronisation and replacement\<close>

definition replaceCommitsDirectoryEntry :: bool where
  "replaceCommitsDirectoryEntry = False"

definition syncParentDirectory :: "path \<Rightarrow> (world, unit) op" where
  "syncParentDirectory p =
     andThen (os_open p) (\<lambda>_.
     catch (os_noop (OsSyncDir p))
       (\<lambda>err. catch (os_noop (OsClose p)) (\<lambda>_. raise err) (\<lambda>_. raise err))
       (\<lambda>_. os_noop (OsClose p)))"

definition commitDirectoryEntry :: "unit result \<Rightarrow> bool \<Rightarrow> unit result" where
  "commitDirectoryEntry syncErr replaceCommitsEntry =
     (case syncErr of
        Inr _ \<Rightarrow> Inr ()
      | Inl e \<Rightarrow> if \<not> errors_is e ErrDirectorySyncUnsupported then Inl e
                 else if replaceCommitsEntry then Inr ()
                 else Inl [ErrDurabilityUnsupported])"

text \<open>\<^verbatim>\<open>commitDirectoryEntry(syncParentDirectory(p), replaceCommitsDirectoryEntry)\<close>\<close>

definition commit_directory :: "path \<Rightarrow> (world, unit) op" where
  "commit_directory p w =
     (let (r, w) = syncParentDirectory p w in (commitDirectoryEntry r replaceCommitsDirectoryEntry, w))"

definition isUnsupportedFileSyncError :: "error \<Rightarrow> bool" where
  "isUnsupportedFileSyncError e = False"

definition classifyFileSyncError :: "unit result \<Rightarrow> unit result" where
  "classifyFileSyncError r =
     (case r of Inr _ \<Rightarrow> Inr () | Inl e \<Rightarrow> if isUnsupportedFileSyncError e then Inl [ErrDurabilityUnsupported] else Inl e)"

definition syncFile :: "path \<Rightarrow> (world, unit) op" where
  "syncFile p w = (let (r, w) = os_noop (OsSync p) w in (classifyFileSyncError r, w))"

primrec replaceFileWithRetry :: "nat list \<Rightarrow> (world, unit) op \<Rightarrow> (error \<Rightarrow> bool) \<Rightarrow> (world, unit) op" where
  "replaceFileWithRetry [] replace transient = replace"
| "replaceFileWithRetry (delay # delays) replace transient =
     catch replace (\<lambda>err. if \<not> transient err then raise err else replaceFileWithRetry delays replace transient) ret"

definition replaceRetryDelays :: "nat list" where
  "replaceRetryDelays = [5, 10, 20, 40, 80, 160]"

definition isTransientReplaceError :: "error \<Rightarrow> bool" where
  "isTransientReplaceError e = False"

definition replaceFile :: "path \<Rightarrow> path \<Rightarrow> (world, unit) op" where
  "replaceFile oldPath newPath = replaceFileWithRetry replaceRetryDelays (os_rename oldPath newPath) isTransientReplaceError"

section \<open>Temporary files\<close>

definition chunkTemporaryPrefix :: string where
  "chunkTemporaryPrefix = ''.regiondb-chunk-''"

definition temporaryAttempts :: nat where
  "temporaryAttempts = 100"

primrec temporary_loop :: "nat \<Rightarrow> path \<Rightarrow> string \<Rightarrow> (world, path) op" where
  "temporary_loop 0 directory prefix = raise []"
| "temporary_loop (Suc n) directory prefix =
     andThen (os_noop OsRandom) (\<lambda>_.
     andThen (state_of (\<lambda>w. directory @ [prefix @ w_random w (w_clock w)])) (\<lambda>path.
     catch (os_create path)
       (\<lambda>err. if errors_is err ErrExist then temporary_loop n directory prefix else raise err)
       (\<lambda>_. ret path)))"

definition createTemporaryFile :: "path \<Rightarrow> string \<Rightarrow> (world, path) op" where
  "createTemporaryFile directory prefix =
     (if prefix = [] \<or> prefix = ''.'' \<or> prefix = ''..'' \<or> CHR ''/'' \<in> set prefix \<or> CHR 0x5C \<in> set prefix then raise []
      else temporary_loop temporaryAttempts directory prefix)"

definition temporary :: "path \<Rightarrow> bool" where
  "temporary p \<longleftrightarrow> p \<noteq> [] \<and> strings_HasPrefix (last p) chunkTemporaryPrefix"

section \<open>Atomic replacement\<close>

text \<open>
  The body of \<^verbatim>\<open>writeAtomic\<close> up to its return, with the two flags its deferred cleanup reads:
  whether the temporary file was closed and whether it was renamed.
\<close>

definition or_return :: "(world, unit) op \<Rightarrow> bool \<times> bool \<Rightarrow> (world \<Rightarrow> unit result \<times> (bool \<times> bool) \<times> world) \<Rightarrow>
    world \<Rightarrow> unit result \<times> (bool \<times> bool) \<times> world" where
  "or_return m flags k w = (case m w of (Inl e, w) \<Rightarrow> (Inl e, flags, w) | (Inr _, w) \<Rightarrow> k w)"

definition atomic_body :: "path \<Rightarrow> path \<Rightarrow> bytes \<Rightarrow> bool \<Rightarrow> world \<Rightarrow> unit result \<times> (bool \<times> bool) \<times> world" where
  "atomic_body temporaryPath path data syncData =
     or_return (os_noop (OsChmod temporaryPath)) (False, False) (
     or_return (os_write temporaryPath data) (False, False) (
     or_return (if syncData then syncFile temporaryPath else ret ()) (False, False) (
     or_return (os_noop (OsClose temporaryPath)) (False, False) (
     or_return (replaceFile temporaryPath path) (True, False) (
     or_return (if syncData then commit_directory (butlast path) else ret ()) (True, True) (
     \<lambda>w. (Inr (), (True, True), w)))))))"

text \<open>The error of a cleanup step is returned only when there was none before.\<close>

definition first_error :: "unit result \<Rightarrow> unit result \<Rightarrow> unit result" where
  "first_error r r' = (case r of Inl e \<Rightarrow> Inl e | Inr _ \<Rightarrow> r')"

definition atomic_cleanup :: "path \<Rightarrow> bool \<times> bool \<Rightarrow> unit result \<Rightarrow> (world, unit) op" where
  "atomic_cleanup temporaryPath flags r w =
     (let (closed, renamed) = flags;
          (r, w) = (if closed then (r, w) else let (c, w) = os_noop (OsClose temporaryPath) w in (first_error r c, w))
      in if renamed then (r, w)
         else let (c, w) = os_remove temporaryPath w
              in (case c of
                    Inl e \<Rightarrow> if errors_is e ErrNotExist then r else first_error r (Inl e)
                  | Inr _ \<Rightarrow> r, w))"

definition writeAtomic :: "path \<Rightarrow> bytes \<Rightarrow> bool \<Rightarrow> (world, unit) op" where
  "writeAtomic path data syncData =
     andThen (createTemporaryFile (butlast path) chunkTemporaryPrefix) (\<lambda>temporaryPath w.
       let (r, flags, w) = atomic_body temporaryPath path data syncData w
       in atomic_cleanup temporaryPath flags r w)"

section \<open>Laws of the world\<close>

lemma content_put [simp]: "content (put_file p d w) = (content w)(p \<mapsto> d)"
  by (simp add: content_def put_file_def update_conv')

lemma content_drop [simp]: "content (drop_file p w) = (content w)(p := None)"
  by (simp add: content_def drop_file_def delete_conv')

lemma world_clock_simps [simp]:
  "content (w\<lparr>w_clock := n\<rparr>) = content w" "content (w\<lparr>w_halted := b\<rparr>) = content w" "content (w\<lparr>w_dirs := ds\<rparr>) = content w"
  by (simp_all add: content_def)

lemma put_file_simps [simp]:
  "w_dirs (put_file p d w) = w_dirs w" "w_oracle (put_file p d w) = w_oracle w" "w_halted (put_file p d w) = w_halted w"
  "w_dirs (drop_file p w) = w_dirs w" "w_oracle (drop_file p w) = w_oracle w" "w_halted (drop_file p w) = w_halted w"
  by (simp_all add: put_file_def drop_file_def)

lemma append_file_simps [simp]:
  "w_dirs (append_file p d w) = w_dirs w" "w_oracle (append_file p d w) = w_oracle w" "w_halted (append_file p d w) = w_halted w"
  by (simp_all add: append_file_def split: option.split)

lemma append_file_content:
  "content w p = Some old \<Longrightarrow> fits_file old d \<Longrightarrow> content (append_file p d w) = (content w)(p \<mapsto> old @ d)"
  by (simp add: append_file_def)

section \<open>What an operation leaves alone\<close>

lemma is_dir_simps [simp]:
  "is_dir (w\<lparr>w_clock := n\<rparr>) p = is_dir w p" "is_dir (w\<lparr>w_halted := b\<rparr>) p = is_dir w p"
  "is_dir (put_file q d w) p = is_dir w p" "is_dir (drop_file q w) p = is_dir w p"
  by (simp_all add: is_dir_def)

text \<open>A file is not a directory and lies in one.\<close>

definition wf_world :: "world \<Rightarrow> bool" where
  "wf_world w \<longleftrightarrow> (\<forall>p. content w p \<noteq> None \<longrightarrow> \<not> is_dir w p \<and> is_dir w (butlast p))"

text \<open>
  \<open>frame X w w'\<close>: the step from \<open>w\<close> to \<open>w'\<close> changes no files but temporary ones and those in \<open>X\<close>, removes
  no directory, keeps the world well-formed, and does nothing at all once the process has halted.
\<close>

definition frame :: "path set \<Rightarrow> world \<Rightarrow> world \<Rightarrow> bool" where
  "frame X w w' \<longleftrightarrow> (\<forall>p. p \<notin> X \<and> \<not> temporary p \<longrightarrow> content w' p = content w p) \<and> w_oracle w' = w_oracle w \<and>
     (\<forall>p. is_dir w p \<longrightarrow> is_dir w' p) \<and> (wf_world w \<longrightarrow> wf_world w') \<and> (w_halted w \<longrightarrow> w' = w)"

definition harmless :: "path set \<Rightarrow> (world, 'a) op \<Rightarrow> bool" where
  "harmless X m \<longleftrightarrow> (\<forall>w r w'. m w = (r, w') \<longrightarrow> frame X w w')"

named_theorems frames \<open>operations that keep to their frame\<close>

lemma frame_refl [simp]: "frame X w w"
  by (simp add: frame_def)

lemma frame_trans: "frame X w w1 \<Longrightarrow> frame X w1 w2 \<Longrightarrow> frame X w w2"
  unfolding frame_def by metis

lemma frame_mono: "frame X w w' \<Longrightarrow> X \<subseteq> Y \<Longrightarrow> frame Y w w'"
  unfolding frame_def by blast

lemma frame_content: "frame X w w' \<Longrightarrow> p \<notin> X \<Longrightarrow> \<not> temporary p \<Longrightarrow> content w' p = content w p"
  by (simp add: frame_def)

lemma harmlessD: "harmless X m \<Longrightarrow> m w = (r, w') \<Longrightarrow> frame X w w'"
  by (simp add: harmless_def)

lemma harmless_mono: "harmless X m \<Longrightarrow> X \<subseteq> Y \<Longrightarrow> harmless Y m"
  unfolding harmless_def using frame_mono by blast

lemma harmless_ret [frames]: "harmless X (ret x)" and harmless_raise [frames]: "harmless X (raise e)"
  and harmless_state_of [frames]: "harmless X (state_of f)"
  by (simp_all add: harmless_def ret_def raise_def state_of_def)

lemma harmless_catch [frames]:
  "harmless X m \<Longrightarrow> (\<And>e. harmless X (h e)) \<Longrightarrow> (\<And>x. harmless X (f x)) \<Longrightarrow> harmless X (catch m h f)"
  unfolding harmless_def catch_def by (fastforce intro: frame_trans split: prod.splits sum.splits)

lemma harmless_andThen [frames]:
  "harmless X m \<Longrightarrow> (\<And>x. harmless X (f x)) \<Longrightarrow> harmless X (andThen m f)"
  unfolding andThen_def by (intro frames)

lemma harmless_ignore [frames]: "harmless X m \<Longrightarrow> harmless X (ignore m)"
  unfolding ignore_def by (intro frames)

lemma harmless_if [frames]: "(b \<Longrightarrow> harmless X m) \<Longrightarrow> (\<not> b \<Longrightarrow> harmless X n) \<Longrightarrow> harmless X (if b then m else n)"
  by simp

lemma harmless_os_call:
  assumes "\<And>n w. \<not> w_halted w \<Longrightarrow> frame X w (part n w)" "\<And>w r w'. \<not> w_halted w \<Longrightarrow> act w = (r, w') \<Longrightarrow> frame X w w'"
  shows "harmless X (os_call c part act)"
  unfolding harmless_def
proof (intro allI impI)
  fix w r w'
  assume c: "os_call c part act w = (r, w')"
  show "frame X w w'"
  proof (cases "w_halted w")
    case True
    then show ?thesis using c by (simp add: os_call_def)
  next
    case False
    let ?w = "w\<lparr>w_clock := w_clock w + 1\<rparr>"
    have 1: "frame X w ?w" using False by (simp add: frame_def wf_world_def)
    have 2: "frame X u (u\<lparr>w_halted := True\<rparr>)" for u
      by (cases "w_halted u") (simp_all add: frame_def wf_world_def)
    have 3: "frame X ?w (part n ?w)" for n using assms(1) False by simp
    have "frame X w (part n ?w)" "frame X w ((part n ?w)\<lparr>w_halted := True\<rparr>)" for n
      using frame_trans [OF 1 3] frame_trans [OF frame_trans [OF 1 3] 2] by blast+
    moreover have "act ?w = (r, w') \<Longrightarrow> frame X w w'" using frame_trans [OF 1] assms(2) [of ?w] False by simp
    ultimately show ?thesis using c 1 False
      by (auto simp: os_call_def Let_def split: fault.splits)
  qed
qed

lemma harmless_os_reads [frames]:
  "harmless X (os_stat p)" "harmless X (os_read p)" "harmless X (os_noop c)" "harmless X (os_open p)" "harmless X (os_read_dir p)"
  "harmless X (os_size p)"
  unfolding os_size_def os_stat_def os_read_def os_noop_def os_open_def os_read_dir_def
  by (rule harmless_os_call; auto split: if_splits option.splits)+

lemma harmless_os_dirs [frames]: "harmless X (os_mkdir p)" "harmless X (os_mkdir_all p)"
  unfolding os_mkdir_def os_mkdir_all_def
  by (rule harmless_os_call; auto simp: frame_def is_dir_def wf_world_def split: if_splits)+

text \<open>A place a file can be put: an existing file, or a free name in a directory.\<close>

definition file_place :: "world \<Rightarrow> path \<Rightarrow> bool" where
  "file_place w p \<longleftrightarrow> content w p \<noteq> None \<or> \<not> is_dir w p \<and> is_dir w (butlast p)"

lemma frame_put: "\<not> w_halted w \<Longrightarrow> p \<in> X \<or> temporary p \<Longrightarrow> file_place w p \<Longrightarrow> frame X w (put_file p d w)"
  by (auto simp: frame_def wf_world_def file_place_def)

lemma frame_drop: "\<not> w_halted w \<Longrightarrow> p \<in> X \<or> temporary p \<Longrightarrow> frame X w (drop_file p w)"
  by (auto simp: frame_def wf_world_def)

lemma frame_append: "\<not> w_halted w \<Longrightarrow> p \<in> X \<or> temporary p \<Longrightarrow> frame X w (append_file p d w)"
  by (auto simp: append_file_def frame_put file_place_def split: option.split)

lemma harmless_os_writes:
  "p \<in> X \<or> temporary p \<Longrightarrow> harmless X (os_create p)" "p \<in> X \<or> temporary p \<Longrightarrow> harmless X (os_write p d)"
  "p \<in> X \<or> temporary p \<Longrightarrow> harmless X (os_remove p)" "p \<in> X \<or> temporary p \<Longrightarrow> harmless X (os_truncate p n)"
  unfolding os_create_def os_write_def os_remove_def os_truncate_def
  by (rule harmless_os_call; auto intro: frame_put frame_drop frame_append simp: file_place_def split: if_splits option.splits)+

lemma harmless_os_rename:
  "p \<in> X \<or> temporary p \<Longrightarrow> q \<in> X \<or> temporary q \<Longrightarrow> harmless X (os_rename p q)"
  unfolding os_rename_def
  by (rule harmless_os_call) (auto intro!: frame_trans [OF frame_drop frame_put] simp: file_place_def split: if_splits option.splits)

lemma harmless_map_result:
  assumes "harmless X m" "m' = (\<lambda>w. let (r, w) = m w in (f r, w))"
  shows "harmless X m'"
  using assms by (auto simp: harmless_def split: prod.splits)

lemma harmless_sync [frames]: "harmless X (syncParentDirectory p)" "harmless X (commit_directory p)" "harmless X (syncFile p)"
proof -
  show s: "harmless X (syncParentDirectory p)" unfolding syncParentDirectory_def by (intro frames)
  show "harmless X (commit_directory p)"
    by (rule harmless_map_result [OF s, where f = "\<lambda>r. commitDirectoryEntry r replaceCommitsDirectoryEntry"]) (simp add: fun_eq_iff commit_directory_def)
  show "harmless X (syncFile p)"
    by (rule harmless_map_result [OF harmless_os_reads(3) [of X "OsSync p"], where f = classifyFileSyncError]) (simp add: fun_eq_iff syncFile_def)
qed

lemma replaceFile_eq: "replaceFile a b = os_rename a b"
proof -
  have "catch m raise ret = m" for m :: "(world, unit) op"
    by (rule ext) (simp add: catch_def raise_def ret_def split: prod.split sum.split)
  then show ?thesis by (simp add: replaceFile_def replaceRetryDelays_def isTransientReplaceError_def raise_def [abs_def])
qed

lemma temporary_loop_eff:
  "temporary_loop n directory (chunkTemporaryPrefix @ kind) w = (r, w') \<Longrightarrow>
     frame {} w w' \<and> (\<forall>t. r = Inr t \<longrightarrow> temporary t \<and> content w' t = Some [])"
proof (induction n arbitrary: w)
  case 0
  then show ?case by (auto simp: raise_def)
next
  case (Suc n)
  let ?t = "\<lambda>w. directory @ [(chunkTemporaryPrefix @ kind) @ w_random w (w_clock w)]"
  have temp: "temporary (?t u)" for u by (simp add: temporary_def strings_HasPrefix_def)
  obtain r1 w1 where 1: "os_noop OsRandom w = (r1, w1)" by fastforce
  note f1 = harmlessD [OF harmless_os_reads(3) [of "{}"] 1]
  obtain r2 w2 where 2: "os_create (?t w1) w1 = (r2, w2)" by fastforce
  have f2: "frame {} w1 w2" using harmlessD [OF harmless_os_writes(1) 2] temp by blast
  show ?case
  proof (cases r1)
    case (Inl e)
    then show ?thesis using Suc.prems 1 f1 by (auto simp: andThen_def catch_def raise_def)
  next
    case (Inr x)
    show ?thesis
    proof (cases r2)
      case e: (Inl e)
      then have "(if errors_is e ErrExist then temporary_loop n directory (chunkTemporaryPrefix @ kind) else raise e) w2 = (r, w')"
        using Suc.prems 1 2 Inr by (simp add: andThen_def catch_def state_of_def)
      then have "frame {} w2 w' \<and> (\<forall>t. r = Inr t \<longrightarrow> temporary t \<and> content w' t = Some [])"
        using Suc.IH [of w2] by (auto simp: raise_def split: if_splits)
      then show ?thesis using frame_trans [OF frame_trans [OF f1 f2]] by blast
    next
      case y: (Inr y)
      have "content w2 (?t w1) = Some []"
        using 2 y by (auto simp: os_create_def os_call_def Let_def split: if_splits fault.splits)
      then show ?thesis using Suc.prems 1 2 Inr y temp frame_trans [OF f1 f2]
        by (auto simp: andThen_def catch_def state_of_def ret_def)
    qed
  qed
qed

lemma createTemporaryFile_eff:
  "createTemporaryFile directory (chunkTemporaryPrefix @ kind) w = (r, w') \<Longrightarrow>
     frame {} w w' \<and> (\<forall>t. r = Inr t \<longrightarrow> temporary t \<and> content w' t = Some [])"
  by (auto simp: createTemporaryFile_def raise_def dest: temporary_loop_eff split: if_splits)

lemma os_noop_content: "os_noop c w = (r, w') \<Longrightarrow> content w' = content w"
  by (auto simp: os_noop_def os_call_def Let_def split: if_splits fault.splits)

lemma syncFile_content: "syncFile p w = (r, w') \<Longrightarrow> content w' = content w"
  by (auto simp: syncFile_def dest: os_noop_content split: prod.splits)

text \<open>What the body has done to the destination, for whatever outcome.\<close>

definition atomic_post :: "path \<Rightarrow> bytes \<Rightarrow> world \<Rightarrow> bool \<Rightarrow> unit result \<Rightarrow> world \<Rightarrow> bool" where
  "atomic_post path d w renamed r w' \<longleftrightarrow>
     frame {path} w w' \<and> (content w' path = content w path \<or> content w' path = Some d) \<and>
     (r = Inr () \<longrightarrow> renamed \<and> content w' path = Some d)"

lemma atomic_post_stop: "frame {path} w w' \<Longrightarrow> content w' path = content w path \<Longrightarrow> atomic_post path d w b (Inl e) w'"
  by (simp add: atomic_post_def)

lemma or_return_cases:
  assumes "or_return m fl k w = (r, flags, w')"
  obtains (stop) e where "m w = (Inl e, w')" "r = Inl e" "flags = fl"
  | (go) w1 where "m w = (Inr (), w1)" "k w1 = (r, flags, w')"
  using assms by (auto simp: or_return_def split: prod.splits sum.splits)

lemma os_write_content:
  assumes "os_write p d w = (Inr (), w')" "content w p = Some []"
  shows "content w' p = Some d"
  using assms by (auto simp: os_write_def os_call_def Let_def append_file_content split: if_splits fault.splits)

lemma os_rename_content:
  assumes "os_rename a b w = (r, w')"
  shows "r = Inr () \<Longrightarrow> content w' = (content w)(a := None, b := content w a)" "r = Inl e \<Longrightarrow> content w' = content w"
  using assms by (auto simp: os_rename_def os_call_def Let_def split: if_splits fault.splits option.splits)

text \<open>A step of the body before the rename: it stops with the destination untouched, or goes on.\<close>

definition before_rename :: "path \<Rightarrow> bytes \<Rightarrow> world \<Rightarrow> world \<Rightarrow> bool" where
  "before_rename t d w u \<longleftrightarrow> frame {} w u \<and> content u t = Some d"

lemma atomic_stage:
  assumes "or_return m fl k u = (r, flags, w')" "before_rename t d w u" "\<not> temporary path"
    and "\<And>r u'. m u = (r, u') \<Longrightarrow> frame {} u u'" "\<And>u'. m u = (Inr (), u') \<Longrightarrow> content u' t = Some d'"
    and "\<And>u'. before_rename t d' w u' \<Longrightarrow> k u' = (r, flags, w') \<Longrightarrow> atomic_post path b w (snd flags) r w' \<and> (r = Inr () \<longrightarrow> fst flags)"
  shows "atomic_post path b w (snd flags) r w' \<and> (r = Inr () \<longrightarrow> fst flags)"
  using assms(1)
proof (cases rule: or_return_cases)
  case (stop e)
  then have "frame {} w w'" using assms(2,4) frame_trans unfolding before_rename_def by blast
  then show ?thesis using stop(2) frame_mono [of "{}" w w' "{path}"] frame_content [of "{}" w w' path] assms(3)
    by (simp add: atomic_post_def)
next
  case (go u')
  then have "before_rename t d' w u'" using assms(2,4,5) frame_trans unfolding before_rename_def by blast
  from assms(6) [OF this go(2)] show ?thesis .
qed

lemma atomic_finish:
  assumes "before_rename t d w u" "temporary t" "\<not> temporary path"
    and "or_return (os_rename t path) (True, False) (or_return (if sync then commit_directory (butlast path) else ret ()) (True, True)
           (\<lambda>w. (Inr (), (True, True), w))) u = (r, flags, w')"
  shows "atomic_post path d w (snd flags) r w' \<and> (r = Inr () \<longrightarrow> fst flags)"
  using assms(4)
proof (cases rule: or_return_cases)
  case (stop e)
  have "frame {path} u w'" using harmlessD [OF harmless_os_rename stop(1)] assms(2) by blast
  moreover have "content w' path = content u path" using os_rename_content(2) [OF stop(1)] by simp
  ultimately show ?thesis using stop(2) assms(1,3) frame_mono [of "{}" w u "{path}"] frame_content [of "{}" w u path]
    by (auto simp: atomic_post_def before_rename_def intro: frame_trans)
next
  case (go v)
  have "frame {path} u v" using harmlessD [OF harmless_os_rename go(1)] assms(2) by blast
  moreover have v: "content v path = Some d"
    using os_rename_content(1) [OF go(1)] assms(1-3) by (auto simp: before_rename_def)
  ultimately have f: "frame {path} w v" using assms(1) frame_mono [of "{}" w u "{path}"] by (auto simp: before_rename_def intro: frame_trans)
  have "harmless {} (if sync then commit_directory (butlast path) else ret ())" by (intro frames)
  then have g: "frame {} v x" if "(if sync then commit_directory (butlast path) else ret ()) v = (y, x)" for y x
    using that harmlessD by blast
  have "content w' path = Some d \<and> frame {path} w w' \<and> (r = Inr () \<longrightarrow> fst flags \<and> snd flags)"
    using go(2)
  proof (cases rule: or_return_cases)
    case (stop e)
    then show ?thesis using g [OF stop(1)] f v assms(3) frame_content [of "{}" v w' path] frame_mono [of "{}" v w' "{path}"]
      by (auto intro: frame_trans)
  next
    case (go w2)
    then show ?thesis using g [OF go(1)] f v assms(3) frame_content [of "{}" v w' path] frame_mono [of "{}" v w' "{path}"]
      by (auto intro: frame_trans)
  qed
  then show ?thesis by (simp add: atomic_post_def)
qed

lemma atomic_body_eff:
  assumes t: "temporary t" and path: "\<not> temporary path" and start: "content w t = Some []"
    and body: "atomic_body t path d sync w = (r, flags, w')"
  shows "atomic_post path d w (snd flags) r w' \<and> (r = Inr () \<longrightarrow> fst flags)"
proof -
  have noop: "frame {} u u'" "content u' = content u" if "os_noop c u = (x, u')" for c u x u'
    using harmlessD [OF harmless_os_reads(3) that] os_noop_content [OF that] .
  have sync: "frame {} u u'" "content u' = content u" if "(if sync then syncFile t else ret ()) u = (x, u')" for u x u'
    using that harmlessD [OF harmless_sync(3), of t u] syncFile_content [of t u] by (auto simp: ret_def split: if_splits)
  have wr: "frame {} u u'" if "os_write t d u = (x, u')" for u x u'
    using harmlessD [OF harmless_os_writes(2) that] t by blast
  have b0: "before_rename t [] w w" using start by (simp add: before_rename_def)
  show ?thesis
  proof (rule atomic_stage [OF body [unfolded atomic_body_def replaceFile_eq] b0 path, where d' = "[]"])
    fix u1 assume 1: "before_rename t [] w u1"
      and k: "or_return (os_write t d) (False, False) (or_return (if sync then syncFile t else ret ()) (False, False)
        (or_return (os_noop (OsClose t)) (False, False) (or_return (os_rename t path) (True, False)
        (or_return (if sync then commit_directory (butlast path) else ret ()) (True, True) (\<lambda>w. (Inr (), (True, True), w))))))
        u1 = (r, flags, w')"
    show "atomic_post path d w (snd flags) r w' \<and> (r = Inr () \<longrightarrow> fst flags)"
    proof (rule atomic_stage [OF k 1 path, where d' = d])
      fix u2 assume 2: "before_rename t d w u2"
        and k: "or_return (if sync then syncFile t else ret ()) (False, False)
        (or_return (os_noop (OsClose t)) (False, False) (or_return (os_rename t path) (True, False)
        (or_return (if sync then commit_directory (butlast path) else ret ()) (True, True) (\<lambda>w. (Inr (), (True, True), w)))))
        u2 = (r, flags, w')"
      show "atomic_post path d w (snd flags) r w' \<and> (r = Inr () \<longrightarrow> fst flags)"
      proof (rule atomic_stage [OF k 2 path, where d' = d])
        fix u3 assume 3: "before_rename t d w u3"
          and k: "or_return (os_noop (OsClose t)) (False, False) (or_return (os_rename t path) (True, False)
            (or_return (if sync then commit_directory (butlast path) else ret ()) (True, True) (\<lambda>w. (Inr (), (True, True), w)))) u3 = (r, flags, w')"
        show "atomic_post path d w (snd flags) r w' \<and> (r = Inr () \<longrightarrow> fst flags)"
          by (rule atomic_stage [OF k 3 path, where d' = d])
            (use noop 3 atomic_finish [OF _ t path] in \<open>auto simp: before_rename_def\<close>)
      qed (use sync 2 in \<open>auto simp: before_rename_def\<close>)
    qed (use wr 1 os_write_content in \<open>auto simp: before_rename_def\<close>)
  qed (use noop start in auto)
qed

lemma atomic_cleanup_eff:
  assumes "temporary t" "atomic_cleanup t (closed, renamed) r w = (r', w')"
  shows "frame {} w w'" "r = Inl e \<Longrightarrow> r' = Inl e" "closed \<Longrightarrow> renamed \<Longrightarrow> (r', w') = (r, w)"
proof -
  have n: "frame {} u u'" if "os_noop c u = (x, u')" for c u x u' using harmlessD [OF harmless_os_reads(3) that] .
  have m: "frame {} u u'" if "os_remove t u = (x, u')" for u x u' using harmlessD [OF harmless_os_writes(3) that] assms(1) by blast
  show "frame {} w w'" using assms(2) n m
    by (auto simp: atomic_cleanup_def Let_def split: if_splits prod.splits) (blast intro: frame_trans)+
  show "r' = Inl e" if "r = Inl e"
    using assms(2) that by (auto simp: atomic_cleanup_def first_error_def Let_def split: if_splits prod.splits sum.splits)
  show "(r', w') = (r, w)" if closed renamed using assms(2) that by (simp add: atomic_cleanup_def)
qed

lemma writeAtomic_eff:
  assumes "\<not> temporary path" "writeAtomic path d sync w = (r, w')"
  shows "frame {path} w w'" "content w' path = content w path \<or> content w' path = Some d" "r = Inr () \<Longrightarrow> content w' path = Some d"
proof -
  obtain r1 w1 where c: "createTemporaryFile (butlast path) chunkTemporaryPrefix w = (r1, w1)" by fastforce
  note C = createTemporaryFile_eff [of _ "[]", simplified, OF c]
  have C1: "frame {path} w w1" "content w1 path = content w path"
    using C frame_mono [of "{}" w w1 "{path}"] frame_content [of "{}" w w1 path] assms(1) by auto
  have "frame {path} w w' \<and> (content w' path = content w path \<or> content w' path = Some d) \<and> (r = Inr () \<longrightarrow> content w' path = Some d)"
  proof (cases r1)
    case (Inl e)
    then show ?thesis using assms(2) c C1 by (auto simp: writeAtomic_def andThen_def catch_def raise_def)
  next
    case (Inr t)
    obtain r2 closed renamed w2 where b: "atomic_body t path d sync w1 = (r2, (closed, renamed), w2)"
      by (metis prod.collapse)
    have t: "temporary t" "content w1 t = Some []" using C Inr by auto
    note B = atomic_body_eff [OF t(1) assms(1) t(2) b]
    have k: "atomic_cleanup t (closed, renamed) r2 w2 = (r, w')"
      using assms(2) c Inr b by (simp add: writeAtomic_def andThen_def catch_def)
    note K = atomic_cleanup_eff [OF t(1) k]
    have f: "frame {path} w2 w'" "content w' path = content w2 path"
      using K(1) frame_mono [of "{}" w2 w' "{path}"] frame_content [of "{}" w2 w' path] assms(1) by auto
    moreover have "r = Inr () \<Longrightarrow> content w2 path = Some d" using B K(2) by (cases r2) (auto simp: atomic_post_def)
    ultimately show ?thesis using B C1 by (auto simp: atomic_post_def intro: frame_trans)
  qed
  then show "frame {path} w w'" "content w' path = content w path \<or> content w' path = Some d" "r = Inr () \<Longrightarrow> content w' path = Some d"
    by auto
qed

lemma writeAtomic_harmless [frames]: "\<not> temporary path \<Longrightarrow> path \<in> X \<Longrightarrow> harmless X (writeAtomic path d sync)"
  unfolding harmless_def using writeAtomic_eff(1) frame_mono [of "{path}" _ _ X] by blast

section \<open>A calm world\<close>

text \<open>A world in which no call fails and no temporary file is left over.\<close>

definition calm :: "world \<Rightarrow> bool" where
  "calm w \<longleftrightarrow> w_oracle w = (\<lambda>_ _. NoFault) \<and> \<not> w_halted w \<and> (\<forall>p. temporary p \<longrightarrow> content w p = None \<and> \<not> is_dir w p)"

lemma calm_call: "calm w \<Longrightarrow> os_call c part act w = act (w\<lparr>w_clock := w_clock w + 1\<rparr>)"
  by (simp add: calm_def os_call_def)

lemma calm_clock: "calm w \<Longrightarrow> calm (w\<lparr>w_clock := n\<rparr>)"
  by (simp add: calm_def is_dir_def)

lemma calm_put: "calm w \<Longrightarrow> \<not> temporary p \<Longrightarrow> calm (put_file p d w)"
  by (auto simp: calm_def is_dir_def)

lemma calm_drop: "calm w \<Longrightarrow> calm (drop_file p w)"
  by (auto simp: calm_def is_dir_def)

text \<open>Nothing fails and \<open>m\<close> returns \<open>x\<close> with the files \<open>f\<close> in the directories of before.\<close>

definition calmly :: "(world, 'a) op \<Rightarrow> world \<Rightarrow> 'a result \<Rightarrow> (path \<Rightarrow> bytes option) \<Rightarrow> bool" where
  "calmly m w r f \<longleftrightarrow> (\<exists>w'. m w = (r, w') \<and> content w' = f \<and> calm w' \<and> w_dirs w' = w_dirs w)"

text \<open>The oracle of a world in which a call works, with the directories kept.\<close>

definition faultless :: "world \<Rightarrow> bool" where
  "faultless w \<longleftrightarrow> w_oracle w = (\<lambda>_ _. NoFault) \<and> \<not> w_halted w"

lemma faultless_call: "faultless w \<Longrightarrow> os_call c part act w = act (w\<lparr>w_clock := w_clock w + 1\<rparr>)"
  by (simp add: faultless_def os_call_def)

lemma faultless_simps [simp]:
  "faultless (w\<lparr>w_clock := n\<rparr>) = faultless w" "faultless (put_file p d w) = faultless w" "faultless (drop_file p w) = faultless w"
  by (simp_all add: faultless_def)

lemma faultless_noop: "faultless w \<Longrightarrow> os_noop c w = (Inr (), w\<lparr>w_clock := w_clock w + 1\<rparr>)"
  by (simp add: os_noop_def faultless_call)

lemma faultless_sync:
  "faultless w \<Longrightarrow> syncFile p w = (Inr (), w\<lparr>w_clock := w_clock w + 1\<rparr>)"
  "faultless w \<Longrightarrow> is_dir w p \<Longrightarrow> commit_directory p w = (Inr (), w\<lparr>w_clock := w_clock w + 3\<rparr>)"
  by (simp_all add: syncFile_def faultless_noop classifyFileSyncError_def commit_directory_def syncParentDirectory_def
      andThen_def catch_def os_open_def faultless_call commitDirectoryEntry_def)

lemma writeAtomic_calm:
  assumes "calm w" "\<not> temporary path" "is_dir w (butlast path)" "\<not> is_dir w path" "fits_file [] d"
  shows "calmly (writeAtomic path d sync) w (Inr ()) ((content w)(path \<mapsto> d))"
proof -
  have f: "faultless w" using assms(1) by (simp add: calm_def faultless_def)
  have attempts: "temporaryAttempts = Suc 99" by (simp add: temporaryAttempts_def)
  define t where "t = butlast path @ [chunkTemporaryPrefix @ w_random w (Suc (w_clock w))]"
  have t: "temporary t" "butlast t = butlast path" by (simp_all add: t_def temporary_def strings_HasPrefix_def)
  then have fresh: "content w t = None" "\<not> is_dir w t" "t \<noteq> path" using assms(1,2) by (auto simp: calm_def)
  define w1 where "w1 = put_file t [] (w\<lparr>w_clock := w_clock w + 2\<rparr>)"
  have "temporary_loop (Suc n) (butlast path) chunkTemporaryPrefix w = (Inr t, w1)" for n
    using f assms(3) fresh t(2)
    by (simp add: andThen_def catch_def faultless_noop state_of_def os_create_def faultless_call ret_def w1_def flip: t_def)
  then have "temporary_loop temporaryAttempts (butlast path) chunkTemporaryPrefix w = (Inr t, w1)" unfolding attempts .
  then have c: "createTemporaryFile (butlast path) chunkTemporaryPrefix w = (Inr t, w1)"
    by (simp add: createTemporaryFile_def chunkTemporaryPrefix_def del: temporary_loop.simps)
  have f1: "faultless w1" "content w1 t = Some []" "is_dir w1 (butlast path)" "w_dirs w1 = w_dirs w" "is_dir w1 = is_dir w"
    "(content w1)(t := None) = content w" using f fresh assms(3) by (auto simp: w1_def)
  then obtain w2 where b: "atomic_body t path d sync w1 = (Inr (), (True, True), w2)" "content w2 = (content w)(path \<mapsto> d)"
    "faultless w2" "w_dirs w2 = w_dirs w"
    using fresh(3) assms(4,5)
    by (cases sync) (auto simp: atomic_body_def or_return_def faultless_noop os_write_def faultless_call append_file_def
        faultless_sync ret_def replaceFile_eq os_rename_def fun_upd_twist)
  have "writeAtomic path d sync w = (Inr (), w2)"
    using c b(1) by (simp add: writeAtomic_def andThen_def catch_def atomic_cleanup_def)
  moreover have "calm w2" using b assms(1,2) by (auto simp: calm_def faultless_def is_dir_def)
  ultimately show ?thesis using b by (auto simp: calmly_def)
qed

section \<open>The law of atomic replacement\<close>

text \<open>
  (C32) Atomic file replacement is all or nothing under every pattern of failures and for a crash at every
  point: every file other than the destination and temporary ones keeps its contents, the destination holds its old
  contents or exactly the new ones, and it holds the new ones when the call reports success.
\<close>

theorem write_atomic_all_or_nothing:
  assumes "\<not> temporary path" "writeAtomic path d sync w = (r, w')"
  shows "(content w' path = content w path \<or> content w' path = Some d) \<and>
         (r = Inr () \<longrightarrow> content w' path = Some d) \<and>
         (\<forall>p. p \<noteq> path \<and> \<not> temporary p \<longrightarrow> content w' p = content w p) \<and>
         (w_halted w \<longrightarrow> r \<noteq> Inr () \<and> w' = w)"
proof -
  note W = writeAtomic_eff [OF assms]
  have "r \<noteq> Inr ()" if "w_halted w"
  proof -
    have "temporary_loop n dir pre w = (x, y) \<Longrightarrow> \<exists>e. x = Inl e" for n dir pre x y
      using that by (cases n) (auto simp: raise_def andThen_def catch_def os_noop_def os_call_def)
    then have "createTemporaryFile dir pre w = (x, y) \<Longrightarrow> \<exists>e. x = Inl e" for dir pre x y
      by (auto simp: createTemporaryFile_def raise_def split: if_splits)
    then show ?thesis using assms(2) by (auto simp: writeAtomic_def andThen_def catch_def raise_def split: prod.splits sum.splits)
  qed
  then show ?thesis using W by (auto simp: frame_def)
qed

text \<open>A world with a full disk: the first write of a temporary file transfers one byte and fails.\<close>

definition sample_world :: "(nat \<Rightarrow> oscall \<Rightarrow> fault) \<Rightarrow> world" where
  "sample_world faults = \<lparr>w_files = [([''a''], [1, 2])], w_dirs = [], w_oracle = faults, w_random = (\<lambda>_. ''0f''), w_order = (\<lambda>_ _. 0),
     w_clock = 0, w_halted = False\<rparr>"

theorem write_atomic_all_or_nothing_witness:
  "content (snd (writeAtomic [''a''] [3, 4] True (sample_world (\<lambda>_ c. if c = OsWrite [''.regiondb-chunk-0f''] then Fail 1 else NoFault)))) [''a''] = Some [1, 2] \<and>
   content (snd (writeAtomic [''a''] [3, 4] True (sample_world (\<lambda>_ _. NoFault)))) [''a''] = Some [3, 4]"
proof -
  let ?f = "\<lambda>_ c. if c = OsWrite [''.regiondb-chunk-0f''] then Fail 1 else NoFault"
  have t: "\<not> temporary [''a'']" by (simp add: temporary_def chunkTemporaryPrefix_def strings_HasPrefix_def)
  have 0: "content (sample_world f) [''a''] = Some [1, 2]" for f by (simp add: content_def sample_world_def)
  have "calm (sample_world (\<lambda>_ _. NoFault))"
    using t by (auto simp: calm_def sample_world_def content_def is_dir_def temporary_def)
  from writeAtomic_calm [OF this t _ _, of "[3, 4]" True] obtain w where
    "writeAtomic [''a''] [3, 4] True (sample_world (\<lambda>_ _. NoFault)) = (Inr (), w)" by (auto simp: calmly_def is_dir_def fits_file_def sample_world_def)
  from this write_atomic_all_or_nothing [OF t this]
  have "content (snd (writeAtomic [''a''] [3, 4] True (sample_world (\<lambda>_ _. NoFault)))) [''a''] = Some [3, 4]" by simp
  moreover have "content (snd (writeAtomic [''a''] [3, 4] True (sample_world ?f))) [''a''] = Some [1, 2]"
    by code_simp
  ultimately show ?thesis by simp
qed

end
