(* ===== verification/Options.thy ===== *)
theory Options
  imports Format
begin

text \<open>
  The options of a store and the limits derived from them (\<^verbatim>\<open>fs_split/options.go\<close>,
  \<^verbatim>\<open>descriptor_budget.go\<close>, \<^verbatim>\<open>descriptor_budget_unix.go\<close>, \<^verbatim>\<open>internal/defaults\<close>) and the checkpoint
  triggers (\<^verbatim>\<open>checkpoint.go\<close>).  The \<^verbatim>\<open>RLIMIT_NOFILE\<close> of the process is the argument \<open>rlimit\<close>, with \<open>None\<close> for
  a failing \<^verbatim>\<open>Getrlimit\<close>.
\<close>

section \<open>The code\<close>

definition DurabilityRelaxed :: string where "DurabilityRelaxed = ''relaxed''"
definition DurabilityFsyncWAL :: string where "DurabilityFsyncWAL = ''fsync-wal''"
definition DurabilityFsyncCheckpoint :: string where "DurabilityFsyncCheckpoint = ''fsync-checkpoint''"
definition compressionNone :: string where "compressionNone = ''none''"
definition compressionZRLE :: string where "compressionZRLE = ''zrle''"

record Options =
  o_ReadOnly :: bool
  o_Durability :: string
  o_CheckpointCompression :: string
  o_CheckpointRecords :: uint64
  o_CheckpointBytes :: int64
  o_MaxLoadedChunks :: int
  o_MaxOpenWALHandles :: int
  o_DescriptorReserve :: int
  o_WALGroupCommitUpdates :: uint64

definition descriptorReserve :: uint64 where
  "descriptorReserve = 32"

definition DefaultMaxOpenWALHandles :: int where
  "DefaultMaxOpenWALHandles = 2"

definition walDescriptorBudget :: "uint64 option \<Rightarrow> int \<Rightarrow> int" where
  "walDescriptorBudget rlimit additionalReserve =
     (case rlimit of
        None \<Rightarrow> DefaultMaxOpenWALHandles
      | Some cur \<Rightarrow>
          let reserve = descriptorReserve + word_of_int additionalReserve
          in if reserve < descriptorReserve \<or> cur \<le> reserve then 0
             else let available = cur - reserve
                  in if available > maxInt then uint maxInt else uint available)"

definition clampWALStreamLimit :: "int \<Rightarrow> int \<Rightarrow> int" where
  "clampWALStreamLimit requested descriptorBudget =
     (let descriptorBudget = (if descriptorBudget < 1 then 1 else descriptorBudget)
      in if requested > descriptorBudget then descriptorBudget else requested)"

definition EffectiveWALHandleLimit :: "uint64 option \<Rightarrow> int \<Rightarrow> int \<Rightarrow> int result" where
  "EffectiveWALHandleLimit rlimit requested reserve =
     (if requested \<le> 0 then Inl []
      else if reserve < 0 then Inl []
      else Inr (clampWALStreamLimit requested (walDescriptorBudget rlimit reserve)))"

definition AvailableWALDescriptors :: "uint64 option \<Rightarrow> int \<Rightarrow> int result" where
  "AvailableWALDescriptors rlimit reserve = (if reserve < 0 then Inl [] else Inr (walDescriptorBudget rlimit reserve))"

definition validated :: "uint64 option \<Rightarrow> Options \<Rightarrow> Options result" where
  "validated rlimit o1 =
     (let o1 = (if o_Durability o1 = [] then o1\<lparr>o_Durability := DurabilityRelaxed\<rparr> else o1)
      in if o_Durability o1 \<notin> {DurabilityRelaxed, DurabilityFsyncWAL, DurabilityFsyncCheckpoint} then Inl []
      else let o1 = (if o_CheckpointCompression o1 = [] then o1\<lparr>o_CheckpointCompression := compressionNone\<rparr> else o1)
      in if o_CheckpointCompression o1 \<notin> {compressionNone, compressionZRLE} then Inl []
      else let o1 = (if o_CheckpointRecords o1 = 0 then o1\<lparr>o_CheckpointRecords := 1024\<rparr> else o1);
               o1 = (if o_CheckpointBytes o1 = 0 then o1\<lparr>o_CheckpointBytes := 67108864\<rparr> else o1)
      in if sint (o_CheckpointBytes o1) < 0 then Inl []
      else let o1 = (if o_MaxLoadedChunks o1 = 0 then o1\<lparr>o_MaxLoadedChunks := 1024\<rparr> else o1)
      in if o_MaxLoadedChunks o1 < 0 then Inl []
      else let o1 = (if o_MaxOpenWALHandles o1 = 0 then o1\<lparr>o_MaxOpenWALHandles := DefaultMaxOpenWALHandles\<rparr> else o1)
      in case EffectiveWALHandleLimit rlimit (o_MaxOpenWALHandles o1) (o_DescriptorReserve o1) of
           Inl e \<Rightarrow> Inl e
         | Inr effective \<Rightarrow>
             let o1 = o1\<lparr>o_MaxOpenWALHandles := effective\<rparr>
             in Inr (if o_WALGroupCommitUpdates o1 = 0 then o1\<lparr>o_WALGroupCommitUpdates := 1\<rparr> else o1))"

definition checkpointRecordTrigger :: "uint64 \<Rightarrow> uint64" where
  "checkpointRecordTrigger lowerBound =
     (if lowerBound \<le> 1 then lowerBound
      else let extra = max 1 (lowerBound div 2)
           in if lowerBound > MaxUint64 - extra then MaxUint64 else lowerBound + extra)"

definition checkpointByteTrigger :: "int64 \<Rightarrow> int64" where
  "checkpointByteTrigger lowerBound =
     (if sint lowerBound \<le> 1 then lowerBound
      else let half = word_of_int (sint lowerBound sdiv 2);
               extra = (if sint half < 1 then 1 else half)
           in if sint lowerBound > sint (MaxInt64 - extra) then MaxInt64 else lowerBound + extra)"

section \<open>The options of an open store\<close>

definition valid_options :: "Options \<Rightarrow> bool" where
  "valid_options opts \<longleftrightarrow> o_Durability opts \<in> {DurabilityRelaxed, DurabilityFsyncWAL, DurabilityFsyncCheckpoint} \<and>
     o_CheckpointCompression opts \<in> {compressionNone, compressionZRLE} \<and>
     o_CheckpointRecords opts \<noteq> 0 \<and> sint (o_CheckpointBytes opts) > 0 \<and> o_MaxLoadedChunks opts > 0 \<and>
     o_MaxOpenWALHandles opts > 0 \<and> o_WALGroupCommitUpdates opts \<noteq> 0"

lemma clamp_bounds: "0 < requested \<Longrightarrow> 0 < clampWALStreamLimit requested budget \<and> clampWALStreamLimit requested budget \<le> requested"
  by (simp add: clampWALStreamLimit_def Let_def)

lemma valid_modes_nonempty [simp]:
  "[] \<noteq> DurabilityRelaxed" "[] \<noteq> DurabilityFsyncWAL" "[] \<noteq> DurabilityFsyncCheckpoint" "[] \<noteq> compressionNone" "[] \<noteq> compressionZRLE"
  by (simp_all add: DurabilityRelaxed_def DurabilityFsyncWAL_def DurabilityFsyncCheckpoint_def compressionNone_def compressionZRLE_def)

lemma durability_modes_distinct [simp]:
  "DurabilityRelaxed \<noteq> DurabilityFsyncWAL" "DurabilityRelaxed \<noteq> DurabilityFsyncCheckpoint" "DurabilityFsyncWAL \<noteq> DurabilityFsyncCheckpoint"
  by (simp_all add: DurabilityRelaxed_def DurabilityFsyncWAL_def DurabilityFsyncCheckpoint_def)

text \<open>The options that are accepted, and what they become.\<close>

definition acceptable :: "Options \<Rightarrow> bool" where
  "acceptable opts \<longleftrightarrow> o_Durability opts \<in> {[], DurabilityRelaxed, DurabilityFsyncWAL, DurabilityFsyncCheckpoint} \<and>
     o_CheckpointCompression opts \<in> {[], compressionNone, compressionZRLE} \<and>
     sint (o_CheckpointBytes opts) \<ge> 0 \<and> o_MaxLoadedChunks opts \<ge> 0 \<and> o_MaxOpenWALHandles opts \<ge> 0 \<and> o_DescriptorReserve opts \<ge> 0"

definition completed :: "uint64 option \<Rightarrow> Options \<Rightarrow> Options" where
  "completed rlimit opts =
     opts\<lparr>o_Durability := if o_Durability opts = [] then DurabilityRelaxed else o_Durability opts,
          o_CheckpointCompression := if o_CheckpointCompression opts = [] then compressionNone else o_CheckpointCompression opts,
          o_CheckpointRecords := if o_CheckpointRecords opts = 0 then 1024 else o_CheckpointRecords opts,
          o_CheckpointBytes := if o_CheckpointBytes opts = 0 then 67108864 else o_CheckpointBytes opts,
          o_MaxLoadedChunks := if o_MaxLoadedChunks opts = 0 then 1024 else o_MaxLoadedChunks opts,
          o_MaxOpenWALHandles := clampWALStreamLimit
            (if o_MaxOpenWALHandles opts = 0 then DefaultMaxOpenWALHandles else o_MaxOpenWALHandles opts)
            (walDescriptorBudget rlimit (o_DescriptorReserve opts)),
          o_WALGroupCommitUpdates := if o_WALGroupCommitUpdates opts = 0 then 1 else o_WALGroupCommitUpdates opts\<rparr>"

text \<open>A conditional update sets the field in either case.\<close>

lemma set_if:
  "(if c then opts\<lparr>o_Durability := d\<rparr> else opts) = opts\<lparr>o_Durability := if c then d else o_Durability opts\<rparr>"
  "(if c then opts\<lparr>o_CheckpointCompression := d\<rparr> else opts) = opts\<lparr>o_CheckpointCompression := if c then d else o_CheckpointCompression opts\<rparr>"
  "(if c then opts\<lparr>o_CheckpointRecords := r\<rparr> else opts) = opts\<lparr>o_CheckpointRecords := if c then r else o_CheckpointRecords opts\<rparr>"
  "(if c then opts\<lparr>o_CheckpointBytes := r\<rparr> else opts) = opts\<lparr>o_CheckpointBytes := if c then r else o_CheckpointBytes opts\<rparr>"
  "(if c then opts\<lparr>o_MaxLoadedChunks := m\<rparr> else opts) = opts\<lparr>o_MaxLoadedChunks := if c then m else o_MaxLoadedChunks opts\<rparr>"
  "(if c then opts\<lparr>o_MaxOpenWALHandles := m\<rparr> else opts) = opts\<lparr>o_MaxOpenWALHandles := if c then m else o_MaxOpenWALHandles opts\<rparr>"
  "(if c then opts\<lparr>o_WALGroupCommitUpdates := r\<rparr> else opts) = opts\<lparr>o_WALGroupCommitUpdates := if c then r else o_WALGroupCommitUpdates opts\<rparr>"
  by simp_all

lemma validated_eq: "validated rlimit opts = (if acceptable opts then Inr (completed rlimit opts) else Inl [])"
proof -
  have neg: "sint (if v = 0 then 67108864 else v :: int64) < 0 \<longleftrightarrow> sint v < 0" for v by simp
  have m: "(if d = [] then DurabilityRelaxed else d) \<in> {DurabilityRelaxed, DurabilityFsyncWAL, DurabilityFsyncCheckpoint} \<longleftrightarrow>
      d = [] \<or> d \<in> {DurabilityRelaxed, DurabilityFsyncWAL, DurabilityFsyncCheckpoint}"
    "(if d = [] then compressionNone else d) \<in> {compressionNone, compressionZRLE} \<longleftrightarrow> d = [] \<or> d \<in> {compressionNone, compressionZRLE}"
    for d by auto
  have k: "(if (v :: int) = 0 then d else v) < 0 \<longleftrightarrow> v < 0" "(if v = 0 then d else v) \<le> 0 \<longleftrightarrow> v < 0" if "0 < d" for v d using that by auto
  have d: "0 < DefaultMaxOpenWALHandles" by (simp add: DefaultMaxOpenWALHandles_def)
  have r: "(case if a then Inl [] else if b then Inl [] else Inr x of Inl e \<Rightarrow> Inl e | Inr y \<Rightarrow> f y) =
      (if a then Inl [] else if b then Inl [] else f x)" for a b and x :: int and f :: "int \<Rightarrow> Options result" by simp
  have shape: "(if \<not> a then Inl [] else if \<not> b then Inl [] else if c then Inl [] else if x then Inl [] else if y then Inl []
      else if z then Inl [] else R) = (if a \<and> b \<and> \<not> c \<and> \<not> x \<and> \<not> y \<and> \<not> z then R else Inl [])"
    for a b c x y z and R :: "Options result" by simp
  have acc: "acceptable opts \<longleftrightarrow> (o_Durability opts = [] \<or> o_Durability opts \<in> {DurabilityRelaxed, DurabilityFsyncWAL, DurabilityFsyncCheckpoint}) \<and>
      (o_CheckpointCompression opts = [] \<or> o_CheckpointCompression opts \<in> {compressionNone, compressionZRLE}) \<and>
      \<not> sint (o_CheckpointBytes opts) < 0 \<and> \<not> o_MaxLoadedChunks opts < 0 \<and> \<not> o_MaxOpenWALHandles opts < 0 \<and> \<not> o_DescriptorReserve opts < 0"
    by (simp add: acceptable_def not_less)
  show ?thesis
    unfolding validated_def Let_def set_if EffectiveWALHandleLimit_def r acc completed_def shape [symmetric]
    by (simp add: m neg k d cong: if_cong split del: if_split del: insert_iff)
qed

text \<open>The descriptors that are left for the log, in exact integers.\<close>

lemma walDescriptorBudget_eq:
  assumes "0 \<le> r" "r \<le> 9223372036854775807"
  shows "walDescriptorBudget rlimit r = (case rlimit of None \<Rightarrow> 2 | Some cur \<Rightarrow> min 9223372036854775807 (max 0 (uint cur - 32 - r)))"
proof (cases rlimit)
  case (Some cur)
  have w: "uint (word_of_int r :: uint64) = r" using assms by (simp add: uint_word_of_int)
  have u: "uint (descriptorReserve + word_of_int r) = 32 + r"
    using assms w by (simp add: descriptorReserve_def uint_plus_if_size word_size)
  have m: "uint (maxInt :: uint64) = 9223372036854775807" by (simp add: maxInt_def mask_eq_exp_minus_1)
  have "uint cur < 2 ^ 64" using uint_lt2p [of cur] by simp
  moreover have "uint (cur - (descriptorReserve + word_of_int r)) = uint cur - (32 + r)" if "32 + r < uint cur"
    using that u by (simp add: uint_minus_simple_iff [THEN iffD1] word_le_def uint_sub_lem [THEN iffD1])
  moreover have "\<not> descriptorReserve + word_of_int r < descriptorReserve"
    using u assms by (simp add: word_less_def) (simp add: descriptorReserve_def)
  ultimately show ?thesis using Some u m
    by (auto simp: walDescriptorBudget_def Let_def word_le_def word_less_def)
qed (simp add: walDescriptorBudget_def DefaultMaxOpenWALHandles_def)

text \<open>
  (C33) Options are checked and completed: exactly the options with a known mode and compression, no negative limit and no
  negative reserve are accepted.  An accepted store gets the default for every setting left at zero and keeps every setting that
  was made.  The number of log handles is what was asked for, 2 by default, cut down to what the descriptor limit of the process
  leaves after 32 and the given reserve of descriptors, to 2 where that limit cannot be read, and never to less than one; computed in exact integers, for every
  limit and every reserve the machine can represent.
\<close>

theorem validated_options:
  assumes "o_DescriptorReserve opts \<le> 9223372036854775807"
  shows "case validated rlimit opts of
      Inl e \<Rightarrow> \<not> acceptable opts
    | Inr r \<Rightarrow> acceptable opts \<and> valid_options r \<and> o_ReadOnly r = o_ReadOnly opts \<and> o_DescriptorReserve r = o_DescriptorReserve opts \<and>
        o_Durability r = (if o_Durability opts = [] then ''relaxed'' else o_Durability opts) \<and>
        o_CheckpointCompression r = (if o_CheckpointCompression opts = [] then ''none'' else o_CheckpointCompression opts) \<and>
        o_CheckpointRecords r = (if o_CheckpointRecords opts = 0 then 1024 else o_CheckpointRecords opts) \<and>
        o_CheckpointBytes r = (if o_CheckpointBytes opts = 0 then 64 * 1024 * 1024 else o_CheckpointBytes opts) \<and>
        o_MaxLoadedChunks r = (if o_MaxLoadedChunks opts = 0 then 1024 else o_MaxLoadedChunks opts) \<and>
        o_WALGroupCommitUpdates r = (if o_WALGroupCommitUpdates opts = 0 then 1 else o_WALGroupCommitUpdates opts) \<and>
        o_MaxOpenWALHandles r = min (if o_MaxOpenWALHandles opts = 0 then 2 else o_MaxOpenWALHandles opts)
          (case rlimit of
             None \<Rightarrow> 2
           | Some cur \<Rightarrow> max 1 (min 9223372036854775807 (uint cur - 32 - o_DescriptorReserve opts)))"
proof (cases "acceptable opts")
  case True
  have z: "sint (o_CheckpointBytes opts) \<ge> 0 \<Longrightarrow> o_CheckpointBytes opts \<noteq> 0 \<Longrightarrow> sint (o_CheckpointBytes opts) > 0"
    by (metis antisym_conv2 sint_0 signed_word_eqI)
  have d: "DefaultMaxOpenWALHandles = 2" by (simp add: DefaultMaxOpenWALHandles_def)
  have c: "clampWALStreamLimit asked budget = min asked (max 1 budget)" for asked budget
    by (simp add: clampWALStreamLimit_def Let_def min_def max_def)
  have n: "0 \<le> o_DescriptorReserve opts" using True by (simp add: acceptable_def)
  have "valid_options (completed rlimit opts)"
    using True z clamp_bounds by (auto simp: valid_options_def acceptable_def completed_def d)
  then show ?thesis using True walDescriptorBudget_eq [OF n assms, of rlimit]
    by (auto simp: validated_eq completed_def c d DurabilityRelaxed_def compressionNone_def split: option.split)
next
  case False
  then show ?thesis by (simp add: validated_eq)
qed

definition sample_options :: Options where
  "sample_options = \<lparr>o_ReadOnly = False, o_Durability = [], o_CheckpointCompression = compressionZRLE, o_CheckpointRecords = 2,
     o_CheckpointBytes = 0, o_MaxLoadedChunks = 1, o_MaxOpenWALHandles = 0, o_DescriptorReserve = 0, o_WALGroupCommitUpdates = 0\<rparr>"

theorem validated_options_witness:
  "\<exists>r. validated (Some 33) sample_options = Inr r \<and> valid_options r \<and> o_MaxOpenWALHandles r = 1 \<and> o_MaxLoadedChunks r = 1 \<and>
     o_CheckpointBytes r = 67108864"
proof -
  have "acceptable sample_options" by (simp add: acceptable_def sample_options_def)
  then obtain r where "validated (Some 33) sample_options = Inr r" by (simp add: validated_eq)
  then show ?thesis using validated_options [of sample_options "Some 33"] by (simp add: sample_options_def)
qed

text \<open>
  A checkpoint threshold of n triggers at n plus half of n, rounded down, and never wraps around: at the largest
  thresholds the trigger saturates.  A trigger is never below its threshold.
\<close>

theorem checkpoint_triggers_exact:
  "unat (checkpointRecordTrigger n) = (if n \<le> 1 then unat n else min (2 ^ 64 - 1) (unat n + unat n div 2)) \<and>
   sint (checkpointByteTrigger b) = (if sint b \<le> 1 then sint b else min (2 ^ 63 - 1) (sint b + sint b div 2))"
proof
  have h: "1 \<le> n div 2" if "\<not> n \<le> 1" for n :: uint64
    using that by (simp add: word_le_nat_alt unat_div)
  show "unat (checkpointRecordTrigger n) = (if n \<le> 1 then unat n else min (2 ^ 64 - 1) (unat n + unat n div 2))"
  proof (cases "n \<le> 1")
    case False
    have u: "unat (n div 2) = unat n div 2" by (simp add: unat_div)
    have f: "n > MaxUint64 - n div 2 \<longleftrightarrow> \<not> unat n + unat n div 2 < 2 ^ 64"
      using add_fits_iff [of n "n div 2"] unfolding u by (metis add.commute linorder_not_le)
    have "unat (n + n div 2) = unat n + unat n div 2" if "unat n + unat n div 2 < 2 ^ 64"
      using that by (simp only: unat_word_ariths u) simp
    then show ?thesis using False h f by (auto simp: checkpointRecordTrigger_def Let_def max_def)
  qed (simp add: checkpointRecordTrigger_def)
next
  show "sint (checkpointByteTrigger b) = (if sint b \<le> 1 then sint b else min (2 ^ 63 - 1) (sint b + sint b div 2))"
  proof (cases "sint b \<le> 1")
    case True
    then show ?thesis by (simp add: checkpointByteTrigger_def)
  next
    case False
    define h where "h = sint b div 2"
    have b: "sint b < 2 ^ 63" using sint_bounds64 [of b] by simp
    have h: "1 \<le> h" "h < 2 ^ 62" using False b by (auto simp: h_def)
    have q: "sint b sdiv 2 = h" using False by (simp add: signed_divide_int_def h_def)
    have sh: "sint (word_of_int h :: int64) = h" using h by (intro sint_word_of_int64) auto
    have sm: "sint (MaxInt64 - word_of_int h) = 2 ^ 63 - 1 - h"
    proof -
      have "MaxInt64 - word_of_int h = (word_of_int (2 ^ 63 - 1 - h) :: int64)" by (simp add: MaxInt64_def)
      then show ?thesis using h sint_word_of_int64 [of "2 ^ 63 - 1 - h"] by simp
    qed
    have sp: "sint (b + word_of_int h) = sint b + h" if "sint b + h < 2 ^ 63"
    proof -
      have "b + word_of_int h = (word_of_int (sint b + h) :: int64)" by simp
      then show ?thesis using that h False sint_word_of_int64 [of "sint b + h"] by simp
    qed
    have "sint MaxInt64 = 2 ^ 63 - 1" using sint_word_of_int64 [of "2 ^ 63 - 1"] by (simp add: MaxInt64_def)
    then show ?thesis using False h sh sm sp
      by (auto simp: checkpointByteTrigger_def Let_def q h_def [symmetric] not_less)
  qed
qed

end
