(* ===== verification/StoreModel.thy ===== *)
theory StoreModel
  imports Cache FileSystem Options
begin

text \<open>
  The fs_split store over the file-system model: its state and every operation that changes it, in the order of
  the sources.  \<^verbatim>\<open>wal.go\<close> (append, sync, scan), \<^verbatim>\<open>conditional_intent.go\<close> (the commit intent beside the log),
  \<^verbatim>\<open>version.go\<close> (chunk versions and the version clock), \<^verbatim>\<open>snapshot_generation.go\<close> (the seqlock of read-only
  readers), \<^verbatim>\<open>format.go\<close> (chunk files and the collection of empty chunks), \<^verbatim>\<open>checkpoint.go\<close>,
  \<^verbatim>\<open>durability.go\<close> (the flush barrier), \<^verbatim>\<open>store.go\<close> and \<^verbatim>\<open>conditional.go\<close> (writes and reads).

  A method of \<^verbatim>\<open>*Store\<close> is an operation on the record \<open>Store\<close>.  Taking a handle from the WAL pool and checking the
  writer lock are calls that may fail.  A Go map is a list with distinct keys in some iteration order.
  Failpoints and read points, which only tests set, are not modelled; the report of a post-commit failure is
  appended to \<open>st_events\<close>.
\<close>

section \<open>State\<close>

record pendingPublication =
  pp_payload :: bytes
  pp_presence :: bytes
  pp_version :: uint64

record durabilitySyncSet =
  ds_paths :: "path list"
  ds_overflow :: bool

record Store =
  st_geometry :: Geometry
  st_options :: Options
  st_grow :: "nat \<Rightarrow> nat \<Rightarrow> nat"
  st_cache :: chunkCache
  st_walRecords :: uint64
  st_walBytes :: int64
  st_walUnsyncedUpdates :: uint64
  st_walRecordBuffer :: go_buffer
  st_versionClock :: uint64
  st_pending :: "(Coord \<times> pendingPublication) list"
  st_pendingSync :: durabilitySyncSet
  st_snapshotGeneration :: uint64
  st_poisoned :: "error option"
  st_walForegroundFlushes :: uint64
  st_walGroupFlushes :: uint64
  st_walCheckpointFlushes :: uint64
  st_checkpointCount :: uint64
  st_closed :: bool
  st_events :: "string list"
  st_world :: world

type_synonym 'a sop = "(Store, 'a) op"

definition on_world :: "(world, 'a) op \<Rightarrow> 'a sop" where
  "on_world m s = (let (r, w) = m (st_world s) in (r, s\<lparr>st_world := w\<rparr>))"

definition walPath :: path where "walPath = [''.regiondb.wal'']"
definition versionClockPath :: path where "versionClockPath = [''.regiondb.version'']"
definition snapshotPath :: path where "snapshotPath = [''.regiondb.snapshot'']"
definition intentDirectoryName :: string where "intentDirectoryName = ''.regiondb.intents''"
definition intentFileName :: string where "intentFileName = ''wal.rollback''"
definition intentDirectory :: path where "intentDirectory = [intentDirectoryName]"
definition intentPath :: path where "intentPath = [intentDirectoryName, intentFileName]"

definition poisonDurability :: "error \<Rightarrow> unit sop" where
  "poisonDurability e = update (\<lambda>s. if st_poisoned s = None then s\<lparr>st_poisoned := Some e\<rparr> else s)"

definition checkDurabilityHealthy :: "unit sop" where
  "checkDurabilityHealthy s = (case st_poisoned s of None \<Rightarrow> (Inr (), s) | Some e \<Rightarrow> (Inl e, s))"

definition reportPostCommitFailure :: "string \<Rightarrow> unit sop" where
  "reportPostCommitFailure event = update (\<lambda>s. s\<lparr>st_events := st_events s @ [event]\<rparr>)"

text \<open>\<^verbatim>\<open>errors.Join(err, s.checkDurabilityHealthy())\<close>\<close>

definition raise_joined :: "error \<Rightarrow> 'a sop" where
  "raise_joined e = catch checkDurabilityHealthy (\<lambda>h. raise (e @ h)) (\<lambda>_. raise e)"

definition writerLock_checkHealthy :: "unit sop" where
  "writerLock_checkHealthy = on_world (os_noop OsLock)"

section \<open>The write-ahead log\<close>

datatype walFlushKind = walForegroundFlush | walGroupFlush | walCheckpointFlush

definition recordWALFlush :: "walFlushKind \<Rightarrow> unit sop" where
  "recordWALFlush kind = update (\<lambda>s. case kind of
       walForegroundFlush \<Rightarrow> s\<lparr>st_walForegroundFlushes := st_walForegroundFlushes s + 1\<rparr>
     | walGroupFlush \<Rightarrow> s\<lparr>st_walGroupFlushes := st_walGroupFlushes s + 1\<rparr>
     | walCheckpointFlush \<Rightarrow> s\<lparr>st_walCheckpointFlushes := st_walCheckpointFlushes s + 1\<rparr>)"

definition acquire_wal :: "unit sop" where
  "acquire_wal = on_world (os_open walPath)"

definition syncWAL :: "walFlushKind \<Rightarrow> unit sop" where
  "syncWAL kind =
     andThen acquire_wal (\<lambda>_.
     andThen (on_world (syncFile walPath)) (\<lambda>_.
     andThen (recordWALFlush kind) (\<lambda>_.
     update (\<lambda>s. s\<lparr>st_walUnsyncedUpdates := 0\<rparr>))))"

definition appendWAL :: "bytes \<Rightarrow> unit sop" where
  "appendWAL rec =
     andThen acquire_wal (\<lambda>_.
     andThen (on_world (os_write walPath rec)) (\<lambda>_.
     andThen (state_of st_options) (\<lambda>opts.
       if o_Durability opts = DurabilityFsyncWAL then
         andThen (update (\<lambda>s. s\<lparr>st_walUnsyncedUpdates := st_walUnsyncedUpdates s + 1\<rparr>)) (\<lambda>_.
         andThen (state_of st_walUnsyncedUpdates) (\<lambda>unsynced.
           if unsynced \<ge> o_WALGroupCommitUpdates opts then
             syncWAL (if o_WALGroupCommitUpdates opts = 1 then walForegroundFlush else walGroupFlush)
           else ret ()))
       else ret ())))"

definition walSize :: "uint64 sop" where
  "walSize = andThen acquire_wal (\<lambda>_. andThen (on_world (os_size walPath)) (\<lambda>n. ret (of_nat n)))"

text \<open>
  \<^verbatim>\<open>scanWAL(visit)\<close>: the records of the log as it is when the scan starts, each read and then visited.  The records
  are returned in place of their number.
\<close>

definition scan_wal :: "(walRecord \<Rightarrow> unit sop) \<Rightarrow> (nat \<times> walRecord list) sop" where
  "scan_wal visit =
     andThen acquire_wal (\<lambda>_.
     andThen (on_world (os_noop (OsSeek walPath))) (\<lambda>_.
     andThen (on_world (os_read walPath)) (\<lambda>wal.
     andThen (state_of st_geometry) (\<lambda>g.
       let (completeBytes, records, err) = scanWAL g wal
       in andThen (for_each records (\<lambda>record. andThen (on_world (os_noop (OsRead walPath))) (\<lambda>_. visit record))) (\<lambda>_.
          case err of Some e \<Rightarrow> raise e | None \<Rightarrow> ret (completeBytes, records))))))"

section \<open>The commit intent\<close>

text \<open>
  \<^verbatim>\<open>containedControlPath\<close> below a clean root.  A component that passes the grammar is a single name, so joining and
  relativising it can no longer leave the root.
\<close>

definition control_character :: "char \<Rightarrow> bool" where
  "control_character c \<longleftrightarrow> (CHR ''a'' \<le> c \<and> c \<le> CHR ''z'') \<or> (CHR ''0'' \<le> c \<and> c \<le> CHR ''9'') \<or>
     c = CHR ''.'' \<or> c = CHR ''-'' \<or> c = CHR ''_''"

definition containedControlPath :: "path \<Rightarrow> string \<Rightarrow> path result" where
  "containedControlPath root component =
     (if component = [] \<or> component = ''.'' \<or> component = ''..'' \<or> CHR ''/'' \<in> set component \<or> CHR 0x5C \<in> set component
      then Inl []
      else if list_ex (\<lambda>c. \<not> control_character c) component then Inl []
      else Inr (root @ [component]))"

definition safeIntentPaths :: "(path \<times> path) result" where
  "safeIntentPaths =
     on_err [ErrCorruptIntent] (containedControlPath [] intentDirectoryName) (\<lambda>directory.
     on_err [ErrCorruptIntent] (containedControlPath directory intentFileName) (\<lambda>path. Inr (directory, path)))"

definition lift_result :: "'a result \<Rightarrow> 'a sop" where
  "lift_result r s = (r, s)"

definition inspectIntentDirectory :: "bool \<Rightarrow> (path \<times> path \<times> bool) sop" where
  "inspectIntentDirectory create =
     andThen (lift_result safeIntentPaths) (\<lambda>(directory, path).
     catch (on_world (os_stat directory))
       (\<lambda>err. if errors_is err ErrNotExist then
                (if \<not> create then ret (directory, path, False)
                 else andThen (on_world (os_mkdir directory)) (\<lambda>_. ret (directory, path, True)))
              else raise err)
       (\<lambda>_. andThen (state_of (\<lambda>s. is_dir (st_world s) directory)) (\<lambda>isDir.
              if \<not> isDir then raise [ErrCorruptIntent] else ret (directory, path, False))))"

definition intentExists :: "bool sop" where
  "intentExists =
     andThen (inspectIntentDirectory False) (\<lambda>(_, path, _).
     catch (on_world (os_stat path))
       (\<lambda>err. if errors_is err ErrNotExist then ret False else raise err)
       (\<lambda>_. andThen (state_of (\<lambda>s. is_dir (st_world s) path)) (\<lambda>isDir.
              if isDir then raise [ErrCorruptIntent] else ret True)))"

definition publishIntent :: "intentState \<Rightarrow> uint64 \<Rightarrow> unit sop" where
  "publishIntent state walBoundary =
     andThen (inspectIntentDirectory True) (\<lambda>(_, path, created).
     andThen (if created then on_world (commit_directory []) else ret ()) (\<lambda>_.
     on_world (writeAtomic path (encodeIntent state walBoundary) True)))"

definition syncIntentDirectory :: "unit sop" where
  "syncIntentDirectory = andThen (inspectIntentDirectory False) (\<lambda>(directory, _, _). on_world (commit_directory directory))"

definition clearIntent :: "unit sop" where
  "clearIntent =
     andThen (inspectIntentDirectory False) (\<lambda>(_, path, _).
     andThen (on_world (os_remove path)) (\<lambda>_. syncIntentDirectory))"

definition readIntent :: "(intentState \<times> uint64) sop" where
  "readIntent =
     andThen intentExists (\<lambda>exists.
       if \<not> exists then raise [ErrNotExist]
       else andThen (lift_result safeIntentPaths) (\<lambda>(_, path).
            andThen (on_world (os_read path)) (\<lambda>encoded. lift_result (decodeIntent encoded))))"

definition rollbackWAL :: "uint64 \<Rightarrow> unit sop" where
  "rollbackWAL boundary =
     andThen acquire_wal (\<lambda>_.
     andThen (on_world (os_size walPath)) (\<lambda>n.
       if (of_nat n :: uint64) < boundary then raise [ErrCorruptIntent]
       else andThen (on_world (os_truncate walPath (unat boundary))) (\<lambda>_.
            andThen (on_world (os_noop (OsSeek walPath))) (\<lambda>_.
            on_world (syncFile walPath)))))"

definition recoverConditionalIntent :: "unit sop" where
  "recoverConditionalIntent =
     andThen (inspectIntentDirectory False) (\<lambda>(directory, _, _).
     catch (on_world (os_read_dir directory))
       (\<lambda>err. if errors_is err ErrNotExist then ret () else raise err)
       (\<lambda>entries. andThen (state_of st_world) (\<lambda>w.
          if list_ex (\<lambda>name. name \<noteq> intentFileName \<or> is_dir w (directory @ [name])) entries then raise [ErrCorruptIntent]
          else if entries = [] then ret ()
          else andThen readIntent (\<lambda>(state, boundary).
               andThen (if state = intentRollback then rollbackWAL boundary else ret ()) (\<lambda>_. clearIntent)))))"

definition rollbackRejectedWrite :: "uint64 \<Rightarrow> uint64 \<Rightarrow> error \<Rightarrow> 'a sop" where
  "rollbackRejectedWrite boundary unsyncedBefore cause =
     catch (rollbackWAL boundary) (\<lambda>err. andThen (poisonDurability err) (\<lambda>_. raise_joined cause)) (\<lambda>_.
     andThen (update (\<lambda>s. s\<lparr>st_walUnsyncedUpdates := unsyncedBefore\<rparr>)) (\<lambda>_.
     catch clearIntent (\<lambda>err. andThen (poisonDurability err) (\<lambda>_. raise_joined cause)) (\<lambda>_. raise cause)))"

section \<open>Versions\<close>

definition maxPendingSyncPaths :: nat where "maxPendingSyncPaths = 4096"

definition newDurabilitySyncSet :: durabilitySyncSet where
  "newDurabilitySyncSet = \<lparr>ds_paths = [], ds_overflow = False\<rparr>"

definition syncSet_add :: "path \<Rightarrow> durabilitySyncSet \<Rightarrow> durabilitySyncSet" where
  "syncSet_add p ds =
     (if ds_overflow ds then ds
      else if length (ds_paths ds) = maxPendingSyncPaths then \<lparr>ds_paths = [], ds_overflow = True\<rparr>
      else ds\<lparr>ds_paths := List.insert p (ds_paths ds)\<rparr>)"

definition syncSet_clear :: "durabilitySyncSet \<Rightarrow> durabilitySyncSet" where
  "syncSet_clear ds = \<lparr>ds_paths = [], ds_overflow = False\<rparr>"

definition pendingSync_add :: "path \<Rightarrow> unit sop" where
  "pendingSync_add p = update (\<lambda>s. s\<lparr>st_pendingSync := syncSet_add p (st_pendingSync s)\<rparr>)"

definition readChunkVersion :: "Coord \<Rightarrow> uint64 sop" where
  "readChunkVersion coord =
     andThen (state_of st_geometry) (\<lambda>g.
     catch (on_world (os_read (chunkVersionPath g coord)))
       (\<lambda>err. if errors_is err ErrNotExist then ret 0 else raise err)
       (\<lambda>encoded. lift_result (decodeChunkVersion coord encoded)))"

definition persistChunkVersion :: "Coord \<Rightarrow> uint64 \<Rightarrow> bool \<Rightarrow> unit sop" where
  "persistChunkVersion coord version syncData =
     andThen (state_of (\<lambda>s. chunkVersionPath (st_geometry s) coord)) (\<lambda>path.
     andThen (on_world (os_mkdir_all (butlast path))) (\<lambda>_.
     andThen (on_world (writeAtomic path (encodeChunkVersion coord version) syncData)) (\<lambda>_.
     if \<not> syncData then pendingSync_add path else ret ())))"

definition persistVersionClock :: "uint64 \<Rightarrow> unit sop" where
  "persistVersionClock version = on_world (writeAtomic versionClockPath (encodeVersionClock version) True)"

text \<open>
  \<^verbatim>\<open>filepath.WalkDir\<close> over the data directory: the root is examined and read, the entries are visited in lexical order, and each
  directory is read after it was visited, so that the walk can fail in its middle.
\<close>

definition walk_root :: "(world, path list) op" where
  "walk_root =
     andThen (os_stat []) (\<lambda>_. os_call (OsReadDir []) untouched (\<lambda>w. (Inr (sort (map fst (w_files w) @ w_dirs w)), w)))"

definition enter_directory :: "path \<Rightarrow> (world, unit) op" where
  "enter_directory p =
     andThen (state_of (\<lambda>w. is_dir w p)) (\<lambda>isDir. if isDir then os_noop (OsReadDir p) else ret ())"

text \<open>The walk of \<^verbatim>\<open>highestPersistedChunkVersion\<close>: every version file below the data directory, coordinates unchecked.\<close>

definition is_version_name :: "string \<Rightarrow> bool" where
  "is_version_name name \<longleftrightarrow> strings_HasPrefix name ''c_'' \<and> strings_HasSuffix name (''.rdb'' @ versionFileSuffix)"

definition decodeAnyChunkVersion :: "bytes \<Rightarrow> uint64 result" where
  "decodeAnyChunkVersion encoded =
     (if length encoded \<noteq> 36 \<or> take 8 encoded \<noteq> versionFileMagic \<or>
         ChecksumIEEE (take (length encoded - checksumSize) encoded) \<noteq> mustUint32 (drop (length encoded - checksumSize) encoded)
      then Inl [ErrCorruptVersion]
      else Inr (mustUint64 (go_slice 24 32 encoded)))"

primrec highest_loop :: "path list \<Rightarrow> uint64 \<Rightarrow> uint64 sop" where
  "highest_loop [] highest = ret highest"
| "highest_loop (p # ps) highest =
     andThen (state_of (\<lambda>s. is_dir (st_world s) p)) (\<lambda>isDir.
     if isDir \<or> p = [] \<or> \<not> is_version_name (last p) then andThen (on_world (enter_directory p)) (\<lambda>_. highest_loop ps highest)
     else andThen (on_world (os_read p)) (\<lambda>encoded.
          andThen (lift_result (decodeAnyChunkVersion encoded)) (\<lambda>v. highest_loop ps (max highest v))))"

definition highestPersistedChunkVersion :: "uint64 sop" where
  "highestPersistedChunkVersion = andThen (on_world walk_root) (\<lambda>paths. highest_loop paths 0)"

definition loadVersionClock :: "unit sop" where
  "loadVersionClock =
     catch (on_world (os_read versionClockPath))
       (\<lambda>err. if errors_is err ErrNotExist then
                andThen highestPersistedChunkVersion (\<lambda>version.
                andThen (persistVersionClock version) (\<lambda>_.
                update (\<lambda>s. s\<lparr>st_versionClock := version\<rparr>)))
              else raise err)
       (\<lambda>encoded. andThen (lift_result (decodeVersionClock encoded)) (\<lambda>version.
          update (\<lambda>s. s\<lparr>st_versionClock := version\<rparr>)))"

section \<open>Snapshot generations\<close>

definition readSnapshotGeneration :: "uint64 sop" where
  "readSnapshotGeneration =
     catch (on_world (os_read snapshotPath))
       (\<lambda>err. if errors_is err ErrNotExist then ret 0 else raise err)
       (\<lambda>encoded. lift_result (decodeSnapshotGeneration encoded))"

definition persistSnapshotGeneration :: "uint64 \<Rightarrow> bool \<Rightarrow> unit sop" where
  "persistSnapshotGeneration generation syncData =
     andThen (on_world (writeAtomic snapshotPath (encodeSnapshotGeneration generation) syncData)) (\<lambda>_.
     update (\<lambda>s. s\<lparr>st_snapshotGeneration := generation\<rparr>))"

definition beginWriteSnapshot :: "unit sop" where
  "beginWriteSnapshot =
     andThen (state_of st_snapshotGeneration) (\<lambda>generation.
       if generation mod 2 = 1 then ret ()
       else if generation > MaxUint64 - 2 then raise [ErrSnapshotOverflow]
       else persistSnapshotGeneration (generation + 1) True)"

definition beginWriterSnapshot :: "unit sop" where
  "beginWriterSnapshot =
     andThen readSnapshotGeneration (\<lambda>generation.
     andThen (update (\<lambda>s. s\<lparr>st_snapshotGeneration := generation\<rparr>)) (\<lambda>_.
       if generation mod 2 = 1 then (if generation = MaxUint64 then raise [ErrSnapshotOverflow] else ret ())
       else beginWriteSnapshot))"

definition finishWriterSnapshot :: "bool \<Rightarrow> unit sop" where
  "finishWriterSnapshot syncData =
     andThen (state_of st_snapshotGeneration) (\<lambda>generation.
       if generation mod 2 = 0 then persistSnapshotGeneration generation syncData
       else if generation = MaxUint64 then raise [ErrSnapshotOverflow]
       else persistSnapshotGeneration (generation + 1) syncData)"

definition finishRejectedSnapshot :: "unit sop" where
  "finishRejectedSnapshot =
     andThen (state_of (\<lambda>s. st_poisoned s \<noteq> None \<or> st_pending s \<noteq> [])) (\<lambda>skip.
       if skip then ret () else catch (finishWriterSnapshot False) poisonDurability ret)"

definition finishCommittedSnapshot :: "unit sop" where
  "finishCommittedSnapshot =
     andThen (state_of (\<lambda>s. st_pending s \<noteq> [])) (\<lambda>skip.
       if skip then ret ()
       else catch (finishWriterSnapshot False)
              (\<lambda>err. andThen (poisonDurability err) (\<lambda>_. reportPostCommitFailure ''committed_snapshot_publication_failed'')) ret)"

definition beginReadOnlySnapshot :: "uint64 sop" where
  "beginReadOnlySnapshot =
     andThen (state_of (\<lambda>s. o_ReadOnly (st_options s))) (\<lambda>readOnly.
       if \<not> readOnly then ret 0
       else andThen readSnapshotGeneration (\<lambda>generation.
            if generation mod 2 = 1 then raise [ErrSnapshotUnstable] else ret generation))"

definition finishReadOnlySnapshot :: "uint64 \<Rightarrow> unit sop" where
  "finishReadOnlySnapshot expected =
     andThen (state_of (\<lambda>s. o_ReadOnly (st_options s))) (\<lambda>readOnly.
       if \<not> readOnly then ret ()
       else andThen readSnapshotGeneration (\<lambda>generation.
            if generation mod 2 = 1 then raise [ErrSnapshotUnstable]
            else if generation \<noteq> expected then raise [ErrSnapshotChanged] else ret ()))"

section \<open>Chunk files\<close>

definition compression_of :: "string \<Rightarrow> CheckpointCompression" where
  "compression_of c = (if c = compressionZRLE then CheckpointCompressionZRLE else CheckpointCompressionNone)"

definition persistChunk :: "Coord \<Rightarrow> bytes \<Rightarrow> bytes \<Rightarrow> bool \<Rightarrow> unit sop" where
  "persistChunk coord payload presence syncData =
     andThen (state_of st_geometry) (\<lambda>g. let path = chunkPath g coord in
     andThen (on_world (os_mkdir_all (butlast path))) (\<lambda>_.
     andThen (on_world (writeAtomic path (encodeState g coord payload presence) syncData)) (\<lambda>_.
     if \<not> syncData then pendingSync_add path else ret ())))"

definition emptyPresence :: "bytes \<Rightarrow> bool" where
  "emptyPresence presence \<longleftrightarrow> list_all (\<lambda>v. v = 0) presence"

definition cache_forget :: "Coord \<Rightarrow> unit sop" where
  "cache_forget coord = update (\<lambda>s. s\<lparr>st_cache := cache_remove coord (st_cache s)\<rparr>)"

definition pendingSync_delete :: "path \<Rightarrow> unit sop" where
  "pendingSync_delete p = update (\<lambda>s. s\<lparr>st_pendingSync := (st_pendingSync s)\<lparr>ds_paths := removeAll p (ds_paths (st_pendingSync s))\<rparr>\<rparr>)"

definition collectEmptyChunk :: "Coord \<Rightarrow> unit sop" where
  "collectEmptyChunk coord =
     andThen (state_of (\<lambda>s. chunkPath (st_geometry s) coord)) (\<lambda>path. let directory = butlast path in
     catch (on_world (os_stat path))
       (\<lambda>err. if errors_is err ErrNotExist then
                andThen (on_world (commit_directory directory)) (\<lambda>_.
                andThen (pendingSync_delete path) (\<lambda>_. cache_forget coord))
              else raise err)
       (\<lambda>_.
     andThen (on_world (createTemporaryFile directory (chunkTemporaryPrefix @ ''gc-''))) (\<lambda>tombstonePath.
     catch (on_world (os_noop (OsClose tombstonePath)))
       (\<lambda>err. andThen (ignore (on_world (os_remove tombstonePath))) (\<lambda>_. raise err)) (\<lambda>_.
     catch (on_world (replaceFile path tombstonePath))
       (\<lambda>err. andThen (ignore (on_world (os_remove tombstonePath))) (\<lambda>_. raise err)) (\<lambda>_.
     andThen (pendingSync_delete path) (\<lambda>_.
     andThen (on_world (commit_directory directory)) (\<lambda>_.
     andThen (cache_forget coord) (\<lambda>_.
     catch (on_world (os_remove tombstonePath))
       (\<lambda>err. if errors_is err ErrNotExist then ret () else raise err) ret))))))))"

definition persistCheckpointChunk :: "Coord \<Rightarrow> bytes \<Rightarrow> bytes \<Rightarrow> bool \<Rightarrow> unit sop" where
  "persistCheckpointChunk coord payload presence syncData =
     (if emptyPresence presence then collectEmptyChunk coord
      else andThen (state_of (\<lambda>s. (st_geometry s, st_options s))) (\<lambda>(g, opts). let path = chunkPath g coord in
           andThen (on_world (os_mkdir_all (butlast path))) (\<lambda>_.
           andThen (on_world (writeAtomic path
             (encodeCheckpointState (compression_of (o_CheckpointCompression opts)) g coord payload presence) syncData)) (\<lambda>_.
           if \<not> syncData then pendingSync_add path else ret ()))))"

definition cache_put :: "Coord \<Rightarrow> bytes \<Rightarrow> bytes \<Rightarrow> unit sop" where
  "cache_put coord payload presence s =
     (let (r, c) = putState coord payload presence (st_cache s) in (r, s\<lparr>st_cache := c\<rparr>))"

definition cache_look :: "Coord \<Rightarrow> Chunk option sop" where
  "cache_look coord s = (let (r, c) = cache_get coord (st_cache s) in (r, s\<lparr>st_cache := c\<rparr>))"

definition chunk_file_size_ok :: "Geometry \<Rightarrow> nat \<Rightarrow> bool" where
  "chunk_file_size_ok g n \<longleftrightarrow>
     (let legacySize = headerBytes + payloadBytes g + checksumSize;
          stateSize = payloadBytes g + presenceBytes g;
          expectedSize = headerBytes + stateSize + checksumSize;
          maxV3Size = headerBytes + stateSize * 2 + checksumSize
      in \<not> (n \<noteq> legacySize \<and> n \<noteq> expectedSize \<and> (n < headerBytes + checksumSize \<or> n > maxV3Size)))"

definition readChunkFile_body :: "path \<Rightarrow> Coord \<Rightarrow> Chunk sop" where
  "readChunkFile_body path coord =
     andThen (state_of (\<lambda>s. (st_geometry s, st_options s))) (\<lambda>(g, opts).
     andThen (on_world (os_size path)) (\<lambda>fileSize.
     if \<not> chunk_file_size_ok g fileSize then raise [ErrCorrupt]
     else catch (on_world (os_read path)) (\<lambda>_. raise [ErrCorrupt]) (\<lambda>encoded.
     andThen (lift_result (decode g coord encoded)) (\<lambda>chunk.
     if \<not> o_ReadOnly opts then andThen (cache_put coord (chunk_payload chunk) (chunk_presence chunk)) (\<lambda>_. ret chunk)
     else ret chunk))))"

definition readChunkFile :: "Coord \<Rightarrow> Chunk sop" where
  "readChunkFile coord =
     andThen (state_of (\<lambda>s. chunkPath (st_geometry s) coord)) (\<lambda>path.
     andThen (on_world (os_open path)) (\<lambda>_.
     catch (readChunkFile_body path coord)
       (\<lambda>err. andThen (ignore (on_world (os_noop (OsClose path)))) (\<lambda>_. raise err))
       (\<lambda>chunk. andThen (on_world (os_noop (OsClose path))) (\<lambda>_. ret chunk))))"

section \<open>Checkpoints\<close>

definition checkpointDue :: "Store \<Rightarrow> bool" where
  "checkpointDue s \<longleftrightarrow>
     st_walRecords s \<ge> checkpointRecordTrigger (o_CheckpointRecords (st_options s)) \<or>
     sint (st_walBytes s) \<ge> sint (checkpointByteTrigger (o_CheckpointBytes (st_options s)))"

definition clearWAL :: "bool \<Rightarrow> unit sop" where
  "clearWAL syncData =
     andThen acquire_wal (\<lambda>_.
     andThen (on_world (os_truncate walPath 0)) (\<lambda>_.
     andThen (on_world (os_noop (OsSeek walPath))) (\<lambda>_.
     andThen (if syncData then andThen (on_world (syncFile walPath)) (\<lambda>_. recordWALFlush walCheckpointFlush) else ret ()) (\<lambda>_.
     update (\<lambda>s. s\<lparr>st_walUnsyncedUpdates := 0\<rparr>)))))"

definition syncs_data :: "Store \<Rightarrow> bool" where
  "syncs_data s \<longleftrightarrow> o_Durability (st_options s) \<noteq> DurabilityRelaxed"

definition checkpointWAL :: "unit sop" where
  "checkpointWAL =
     andThen (state_of syncs_data) (\<lambda>syncData.
     andThen (scan_wal (\<lambda>r. persistCheckpointChunk (wal_coord r) (wal_payload r) (wal_presence r) syncData)) (\<lambda>_.
     andThen (clearWAL syncData) (\<lambda>_.
     update (\<lambda>s. s\<lparr>st_walRecords := 0, st_walBytes := 0, st_checkpointCount := st_checkpointCount s + 1\<rparr>))))"

section \<open>Publication\<close>

text \<open>The pending publications are a Go map: the loop over them is in the order the runtime chooses at its start.\<close>

primrec publish_loop :: "bool \<Rightarrow> (Coord \<times> pendingPublication) list \<Rightarrow> unit sop" where
  "publish_loop syncCheckpoint [] = ret ()"
| "publish_loop syncCheckpoint (entry # rest) =
     (let (coord, pending) = entry in
      catch (persistChunkVersion coord (pp_version pending) syncCheckpoint)
        (\<lambda>err. andThen (reportPostCommitFailure ''committed_version_publication_failed'') (\<lambda>_. raise err)) (\<lambda>_.
      catch (persistChunk coord (pp_payload pending) (pp_presence pending) syncCheckpoint)
        (\<lambda>err. andThen (reportPostCommitFailure ''committed_chunk_publication_failed'') (\<lambda>_. raise err)) (\<lambda>_.
      andThen (update (\<lambda>s. s\<lparr>st_pending := AList.delete coord (st_pending s)\<rparr>)) (\<lambda>_.
      publish_loop syncCheckpoint rest))))"

definition retryPendingPublications :: "unit sop" where
  "retryPendingPublications =
     andThen (update (\<lambda>s. s\<lparr>st_pending := range_over (st_world s) (st_pending s)\<rparr>)) (\<lambda>_.
     andThen (state_of (\<lambda>s. (o_Durability (st_options s) = DurabilityFsyncCheckpoint, st_pending s))) (\<lambda>(syncCheckpoint, pending).
     andThen (publish_loop syncCheckpoint pending) (\<lambda>_.
     andThen (state_of checkpointDue) (\<lambda>due.
       if due then catch checkpointWAL
         (\<lambda>err. andThen (reportPostCommitFailure ''committed_checkpoint_failed'') (\<lambda>_. raise err)) ret
       else ret ()))))"

definition ensureWALCommit :: "bool \<Rightarrow> unit sop" where
  "ensureWALCommit forceGrouped =
     andThen (state_of (\<lambda>s. (o_Durability (st_options s), st_walUnsyncedUpdates s))) (\<lambda>(durability, unsynced).
       if durability = DurabilityFsyncCheckpoint then syncWAL walForegroundFlush
       else if durability = DurabilityFsyncWAL \<and> forceGrouped \<and> unsynced \<noteq> 0 then syncWAL walForegroundFlush
       else ret ())"

section \<open>Writes\<close>

text \<open>A failed publication of the rollback intent: nothing was appended yet, so the intent is taken back.\<close>

definition abandon_rollback_intent :: "error \<Rightarrow> 'a sop" where
  "abandon_rollback_intent err =
     catch intentExists (\<lambda>_. raise err) (\<lambda>exists.
       if exists then
         catch clearIntent (\<lambda>clearErr. andThen (poisonDurability clearErr) (\<lambda>_. raise_joined err)) (\<lambda>_. raise err)
       else raise err)"

text \<open>The remainder of a commit, after the log holds the records and the intent says so.\<close>

definition finish_commit :: "unit sop" where
  "finish_commit =
     andThen (catch clearIntent
       (\<lambda>_. andThen (reportPostCommitFailure ''committed_intent_cleanup_failed'') (\<lambda>_.
            catch syncIntentDirectory poisonDurability ret)) ret) (\<lambda>_.
     ignore retryPendingPublications)"

definition publish_in_memory :: "Coord \<Rightarrow> bytes \<Rightarrow> bytes \<Rightarrow> uint64 \<Rightarrow> unit sop" where
  "publish_in_memory coord payload presence version =
     andThen (update (\<lambda>s. s\<lparr>st_pending := AList.update coord
       \<lparr>pp_payload = payload, pp_presence = presence, pp_version = version\<rparr> (st_pending s)\<rparr>)) (\<lambda>_.
     catch (cache_put coord payload presence)
       (\<lambda>err. andThen (poisonDurability err) (\<lambda>_. reportPostCommitFailure ''committed_write_publication_failed'')) ret)"

text \<open>
  The decision after a failed publication of the commit intent: look which intent is there.  \<open>k\<close> continues a commit
  that took place after all.
\<close>

definition inspect_commit :: "error \<Rightarrow> uint64 \<Rightarrow> uint64 \<Rightarrow> 'a sop \<Rightarrow> 'a sop" where
  "inspect_commit commitErr boundary unsyncedBefore k =
     catch readIntent (\<lambda>inspectErr. andThen (poisonDurability inspectErr) (\<lambda>_. raise_joined commitErr)) (\<lambda>(state, _).
       if state \<noteq> intentCommitted then rollbackRejectedWrite boundary unsyncedBefore commitErr
       else andThen (reportPostCommitFailure ''committed_intent_sync_failed'') (\<lambda>_. k))"

definition commit_ordinary_tail :: "Coord \<Rightarrow> Chunk \<Rightarrow> uint64 \<Rightarrow> go_buffer \<Rightarrow> unit sop" where
  "commit_ordinary_tail coord chunk version record =
     andThen (update (\<lambda>s. s\<lparr>st_walRecordBuffer := record\<lparr>buf_bytes := []\<rparr>, st_walRecords := st_walRecords s + 1,
       st_walBytes := st_walBytes s + of_nat (length (buf_bytes record))\<rparr>)) (\<lambda>_.
     andThen (publish_in_memory coord (chunk_payload chunk) (chunk_presence chunk) version) (\<lambda>_.
     finish_commit))"

definition commitOrdinaryChunk :: "Coord \<Rightarrow> Chunk \<Rightarrow> uint64 \<Rightarrow> unit sop" where
  "commitOrdinaryChunk coord chunk version =
     andThen (state_of (\<lambda>s. appendWALRecord (st_grow s) (st_geometry s) ((st_walRecordBuffer s)\<lparr>buf_bytes := []\<rparr>) coord
       (chunk_payload chunk) (chunk_presence chunk))) (\<lambda>record.
     andThen walSize (\<lambda>boundary.
     catch (publishIntent intentRollback boundary) abandon_rollback_intent (\<lambda>_.
     andThen (state_of st_walUnsyncedUpdates) (\<lambda>unsyncedBefore.
     catch (appendWAL (buf_bytes record)) (rollbackRejectedWrite boundary unsyncedBefore) (\<lambda>_.
     catch (ensureWALCommit False) (rollbackRejectedWrite boundary unsyncedBefore) (\<lambda>_.
     catch (publishIntent intentCommitted boundary)
       (\<lambda>commitErr. inspect_commit commitErr boundary unsyncedBefore (commit_ordinary_tail coord chunk version record))
       (\<lambda>_. commit_ordinary_tail coord chunk version record)))))))"

text \<open>\<^verbatim>\<open>s.finishRejectedSnapshot(); return err\<close>\<close>

definition reject :: "error \<Rightarrow> 'a sop" where
  "reject err = andThen finishRejectedSnapshot (\<lambda>_. raise err)"

definition WriteChunk :: "Coord \<Rightarrow> Chunk option \<Rightarrow> unit sop" where
  "WriteChunk coord chunk_opt =
     (case chunk_opt of None \<Rightarrow> raise [] | Some chunk \<Rightarrow>
     andThen (state_of (\<lambda>s. (st_geometry s, st_closed s, o_ReadOnly (st_options s)))) (\<lambda>(g, closed, readOnly).
     if chunk_geometry chunk \<noteq> g then raise [ErrGeometryMismatch]
     else if closed then raise []
     else if readOnly then raise [ErrReadOnly]
     else andThen writerLock_checkHealthy (\<lambda>_.
     andThen checkDurabilityHealthy (\<lambda>_.
     andThen (ignore retryPendingPublications) (\<lambda>_.
     andThen beginWriteSnapshot (\<lambda>_.
     andThen (state_of st_versionClock) (\<lambda>clock.
     if clock = MaxUint64 then reject [ErrVersionOverflow]
     else let version = clock + 1 in
     catch (persistVersionClock version) reject (\<lambda>_.
     andThen (update (\<lambda>s. s\<lparr>st_versionClock := version\<rparr>)) (\<lambda>_.
     catch (commitOrdinaryChunk coord chunk version) reject (\<lambda>_.
     finishCommittedSnapshot))))))))))"

definition currentChunkVersion :: "Coord \<Rightarrow> uint64 sop" where
  "currentChunkVersion coord =
     andThen (state_of (\<lambda>s. map_of (st_pending s) coord)) (\<lambda>found.
       case found of Some pending \<Rightarrow> ret (pp_version pending) | None \<Rightarrow> readChunkVersion coord)"

text \<open>The checks of a conditional batch, one mutation after the other.\<close>

primrec check_mutations :: "Coord list \<Rightarrow> ConditionalMutation list \<Rightarrow> unit sop" where
  "check_mutations seen [] = ret ()"
| "check_mutations seen (m # ms) =
     (case mut_Chunk m of None \<Rightarrow> reject [] | Some chunk \<Rightarrow>
      andThen (state_of (\<lambda>s. (st_geometry s, st_versionClock s))) (\<lambda>(g, clock).
      if chunk_geometry chunk \<noteq> g then reject [ErrGeometryMismatch]
      else if mut_Coord m \<in> set seen then reject []
      else catch (currentChunkVersion (mut_Coord m)) reject (\<lambda>current.
      if current > clock then reject [ErrCorruptVersion]
      else if current \<noteq> mut_ExpectedVersion m then reject [ErrVersionMismatch]
      else check_mutations (mut_Coord m # seen) ms)))"

definition mutation_chunk :: "ConditionalMutation \<Rightarrow> Chunk" where
  "mutation_chunk m = the (mut_Chunk m)"

definition batch_buffer :: "(nat \<Rightarrow> nat \<Rightarrow> nat) \<Rightarrow> Geometry \<Rightarrow> ConditionalMutation list \<Rightarrow> go_buffer" where
  "batch_buffer grow g mutations =
     foldl (\<lambda>b m. appendWALRecord grow g b (mut_Coord m) (chunk_payload (mutation_chunk m)) (chunk_presence (mutation_chunk m)))
       \<lparr>buf_bytes = [], buf_cap = 0\<rparr> mutations"

definition batch_versions :: "uint64 \<Rightarrow> nat \<Rightarrow> uint64 list" where
  "batch_versions finalVersion n = map (\<lambda>index. finalVersion - of_nat (n - index - 1)) [0..<n]"

primrec publish_mutations :: "(ConditionalMutation \<times> uint64) list \<Rightarrow> unit sop" where
  "publish_mutations [] = ret ()"
| "publish_mutations (entry # rest) =
     (let (m, version) = entry in
      andThen (publish_in_memory (mut_Coord m) (chunk_payload (mutation_chunk m)) (chunk_presence (mutation_chunk m)) version) (\<lambda>_.
      publish_mutations rest))"

definition commit_batch_tail :: "ConditionalMutation list \<Rightarrow> uint64 list \<Rightarrow> bytes \<Rightarrow> uint64 list sop" where
  "commit_batch_tail mutations versions records =
     andThen (update (\<lambda>s. s\<lparr>st_walRecords := st_walRecords s + of_nat (length mutations),
       st_walBytes := st_walBytes s + of_nat (length records)\<rparr>)) (\<lambda>_.
     andThen (publish_mutations (zip mutations versions)) (\<lambda>_.
     andThen finish_commit (\<lambda>_.
     andThen finishCommittedSnapshot (\<lambda>_. ret versions))))"

text \<open>
  The commit of a checked batch.  Every error ends the rejected snapshot; it does nothing when the store was poisoned,
  so the one return that skips it is no exception.
\<close>

definition commit_batch_records :: "ConditionalMutation list \<Rightarrow> uint64 list \<Rightarrow> uint64 \<Rightarrow> bytes \<Rightarrow> uint64 \<Rightarrow> uint64 list sop" where
  "commit_batch_records mutations versions boundary records unsyncedBefore =
     catch (appendWAL records) (\<lambda>err. catch (rollbackRejectedWrite boundary unsyncedBefore err) reject ret) (\<lambda>_.
     catch (ensureWALCommit True) (\<lambda>err. catch (rollbackRejectedWrite boundary unsyncedBefore err) reject ret) (\<lambda>_.
     catch (publishIntent intentCommitted boundary)
       (\<lambda>commitErr. catch readIntent
          (\<lambda>inspectErr. andThen (poisonDurability inspectErr) (\<lambda>_. raise_joined commitErr)) (\<lambda>(state, _).
          if state \<noteq> intentCommitted then catch (rollbackRejectedWrite boundary unsyncedBefore commitErr) reject ret
          else andThen (reportPostCommitFailure ''committed_intent_sync_failed'') (\<lambda>_. commit_batch_tail mutations versions records)))
       (\<lambda>_. commit_batch_tail mutations versions records)))"

definition commit_batch :: "ConditionalMutation list \<Rightarrow> uint64 \<Rightarrow> uint64 list sop" where
  "commit_batch mutations finalVersion =
     catch walSize reject (\<lambda>boundary.
     catch (publishIntent intentRollback boundary) (\<lambda>err. catch (abandon_rollback_intent err) reject ret) (\<lambda>_.
     andThen (state_of (\<lambda>s. (buf_bytes (batch_buffer (st_grow s) (st_geometry s) mutations), st_walUnsyncedUpdates s)))
       (\<lambda>(records, unsyncedBefore).
          commit_batch_records mutations (batch_versions finalVersion (length mutations)) boundary records unsyncedBefore)))"

definition ConditionalWriteChunks :: "ConditionalMutation list \<Rightarrow> uint64 list sop" where
  "ConditionalWriteChunks mutations =
     (if mutations = [] then raise [] else
     andThen (state_of (\<lambda>s. (st_closed s, o_ReadOnly (st_options s)))) (\<lambda>(closed, readOnly).
     if closed then raise []
     else if readOnly then raise [ErrReadOnly]
     else andThen writerLock_checkHealthy (\<lambda>_.
     andThen checkDurabilityHealthy (\<lambda>_.
     andThen (ignore retryPendingPublications) (\<lambda>_.
     andThen beginWriteSnapshot (\<lambda>_.
     andThen (check_mutations [] mutations) (\<lambda>_.
     andThen (state_of st_versionClock) (\<lambda>clock.
     if of_nat (length mutations) > MaxUint64 - clock then reject [ErrVersionOverflow]
     else let finalVersion = clock + of_nat (length mutations) in
     catch (persistVersionClock finalVersion) reject (\<lambda>_.
     andThen (update (\<lambda>s. s\<lparr>st_versionClock := finalVersion\<rparr>)) (\<lambda>_.
     commit_batch mutations finalVersion))))))))))"

definition CompareAndSwapChunk :: "Coord \<Rightarrow> uint64 \<Rightarrow> Chunk option \<Rightarrow> uint64 sop" where
  "CompareAndSwapChunk coord expected chunk =
     andThen (ConditionalWriteChunks [\<lparr>mut_Coord = coord, mut_ExpectedVersion = expected, mut_Chunk = chunk\<rparr>])
       (\<lambda>versions. ret (versions ! 0))"

section \<open>Reads\<close>

definition ReadChunk :: "Coord \<Rightarrow> Chunk sop" where
  "ReadChunk coord =
     andThen (state_of id) (\<lambda>s.
     if st_closed s then raise []
     else case map_of (st_pending s) coord of
       Some pending \<Rightarrow> lift_result (ChunkFromState (st_geometry s) (pp_payload pending) (pp_presence pending))
     | None \<Rightarrow>
         andThen (if \<not> o_ReadOnly (st_options s) then cache_look coord else ret None) (\<lambda>found.
         case found of Some chunk \<Rightarrow> ret chunk
         | None \<Rightarrow>
             andThen beginReadOnlySnapshot (\<lambda>generation.
             catch (readChunkFile coord)
               (\<lambda>err. andThen (finishReadOnlySnapshot generation) (\<lambda>_. raise err))
               (\<lambda>chunk. andThen (finishReadOnlySnapshot generation) (\<lambda>_. ret chunk)))))"

definition ChunkVersion :: "Coord \<Rightarrow> uint64 sop" where
  "ChunkVersion coord =
     andThen (state_of id) (\<lambda>s.
     if st_closed s then raise []
     else case map_of (st_pending s) coord of
       Some pending \<Rightarrow> ret (pp_version pending)
     | None \<Rightarrow>
         andThen beginReadOnlySnapshot (\<lambda>generation.
         catch (readChunkVersion coord)
           (\<lambda>err. andThen (finishReadOnlySnapshot generation) (\<lambda>_. raise err))
           (\<lambda>version. andThen (finishReadOnlySnapshot generation) (\<lambda>_. ret version))))"

definition maxScanChunkCandidates :: int where "maxScanChunkCandidates = 257"

primrec scan_directories :: "string list \<Rightarrow> boundedChunkCoords \<Rightarrow> boundedChunkCoords sop" where
  "scan_directories [] candidates = ret candidates"
| "scan_directories (name # names) candidates =
     andThen (state_of (\<lambda>s. is_dir (st_world s) [name])) (\<lambda>isDir.
     case (if isDir then parseCoordinateName name ''l_'' [] else None) of
       None \<Rightarrow> scan_directories names candidates
     | Some largeCoord \<Rightarrow>
         if name \<noteq> largeDirName largeCoord then scan_directories names candidates
         else andThen (on_world (os_read_dir [name])) (\<lambda>files.
              andThen (state_of st_world) (\<lambda>w.
              scan_directories names
                (foldl bcc_insert candidates (List.map_filter parseChunkFileName (filter (\<lambda>f. \<not> is_dir w [name, f]) files))))))"

definition ScanChunkCoords :: "bool \<Rightarrow> Coord \<Rightarrow> int \<Rightarrow> (Coord list \<times> bool) sop" where
  "ScanChunkCoords hasCursor cursor limit =
     (if limit \<le> 0 \<or> limit > maxScanChunkCandidates then raise [] else
     andThen (state_of st_closed) (\<lambda>closed.
     if closed then raise [] else
     andThen beginReadOnlySnapshot (\<lambda>generation.
     andThen (on_world (os_read_dir [])) (\<lambda>directories.
     andThen (scan_directories directories (newBoundedChunkCoords hasCursor cursor (nat limit))) (\<lambda>candidates.
     andThen (finishReadOnlySnapshot generation) (\<lambda>_.
     ret (bcc_sorted candidates, bcc_overflow candidates)))))))"

section \<open>The flush barrier\<close>

definition path_string :: "path \<Rightarrow> string" where
  "path_string p = concat (map (\<lambda>c. CHR ''/'' # c) p)"

definition syncDurabilityPath :: "bool \<Rightarrow> path \<Rightarrow> unit sop" where
  "syncDurabilityPath directory path =
     (if directory then on_world (commit_directory path)
      else andThen (on_world (os_open path)) (\<lambda>_.
           catch (on_world (syncFile path))
             (\<lambda>syncErr. andThen (ignore (on_world (os_noop (OsClose path)))) (\<lambda>_. raise syncErr))
             (\<lambda>_. on_world (os_noop (OsClose path)))))"

definition sync_walk :: "bool \<Rightarrow> unit sop" where
  "sync_walk directories =
     andThen (on_world walk_root) (\<lambda>paths.
     for_each paths (\<lambda>p.
       andThen (state_of (\<lambda>s. if directories then is_dir (st_world s) p \<and> p \<noteq> [] else content (st_world s) p \<noteq> None)) (\<lambda>wanted.
       andThen (if wanted then syncDurabilityPath directories p else ret ()) (\<lambda>_. on_world (enter_directory p)))))"

definition syncDataTree :: "unit sop" where
  "syncDataTree =
     andThen (sync_walk False) (\<lambda>_.
     andThen (sync_walk True) (\<lambda>_.
     syncDurabilityPath True []))"

definition parent_directories :: "path list \<Rightarrow> path list" where
  "parent_directories paths = remdups ([] # concat (map (\<lambda>p. map (\<lambda>n. take n p) [1..<length p]) paths))"

text \<open>Deepest directories first, then by name; \<^const>\<open>sort_key\<close> is stable.\<close>

definition sorted_directories :: "path list \<Rightarrow> path list" where
  "sorted_directories ds = sort_key (\<lambda>p. - int (length p)) (sort_key path_string ds)"

definition syncPendingPublications :: "unit sop" where
  "syncPendingPublications =
     andThen (state_of st_pendingSync) (\<lambda>pending.
     if ds_overflow pending then syncDataTree
     else let paths = sort_key path_string (ds_paths pending) in
       andThen (for_each paths (syncDurabilityPath False)) (\<lambda>_.
       for_each (sorted_directories (parent_directories paths)) (syncDurabilityPath True)))"

definition FlushWAL :: "unit sop" where
  "FlushWAL =
     andThen (state_of (\<lambda>s. (st_closed s, o_ReadOnly (st_options s)))) (\<lambda>(closed, readOnly).
     if closed then raise []
     else if readOnly then raise [ErrReadOnly]
     else andThen writerLock_checkHealthy (\<lambda>_.
     andThen checkDurabilityHealthy (\<lambda>_.
     andThen retryPendingPublications (\<lambda>_.
     andThen (state_of st_pending) (\<lambda>pending.
     if pending \<noteq> [] then raise []
     else andThen (syncWAL walForegroundFlush) (\<lambda>_.
     andThen syncPendingPublications (\<lambda>_.
     andThen (finishWriterSnapshot True) (\<lambda>_.
     update (\<lambda>s. s\<lparr>st_pendingSync := syncSet_clear (st_pendingSync s)\<rparr>))))))))) "

section \<open>Closing\<close>

text \<open>Every step runs; the errors are joined.\<close>

primrec join_all :: "unit sop list \<Rightarrow> unit sop" where
  "join_all [] = ret ()"
| "join_all (m # ms) = catch m (\<lambda>e. catch (join_all ms) (\<lambda>e'. raise (e @ e')) (\<lambda>_. raise e)) (\<lambda>_. join_all ms)"

definition store_Close :: "unit sop" where
  "store_Close =
     andThen (state_of id) (\<lambda>s0.
     if st_closed s0 then ret ()
     else andThen (update (\<lambda>s. s\<lparr>st_closed := True, st_cache := cache_close (st_cache s)\<rparr>)) (\<lambda>_.
     if o_ReadOnly (st_options s0) then ret ()
     else join_all
       [if o_Durability (st_options s0) = DurabilityFsyncWAL \<and> st_walUnsyncedUpdates s0 \<noteq> 0 then syncWAL walGroupFlush else ret (),
        on_world (os_noop (OsClose walPath)),
        on_world (os_noop OsLock)]))"

section \<open>Recovery\<close>

primrec final_records :: "walRecord list \<Rightarrow> (Coord \<times> walRecord) list \<Rightarrow> (Coord \<times> walRecord) list" where
  "final_records [] final = final"
| "final_records (r # rs) final = final_records rs (AList.update (wal_coord r) r final)"

primrec changed_coords :: "(Coord \<times> walRecord) list \<Rightarrow> Coord list \<Rightarrow> Coord list sop" where
  "changed_coords [] changed = ret changed"
| "changed_coords (entry # rest) changed =
     (let (coord, record) = entry in
      andThen (state_of st_geometry) (\<lambda>g.
      catch (on_world (os_read (chunkPath g coord)))
        (\<lambda>err. if errors_is err ErrNotExist then changed_coords rest (changed @ [coord]) else raise err)
        (\<lambda>encoded. case decode g coord encoded of
            Inl _ \<Rightarrow> changed_coords rest (changed @ [coord])
          | Inr chunk \<Rightarrow>
              if chunk_payload chunk \<noteq> wal_payload record \<or> chunk_presence chunk \<noteq> wal_presence record
              then changed_coords rest (changed @ [coord])
              else andThen (readChunkVersion coord) (\<lambda>version.
                   if version = 0 then changed_coords rest (changed @ [coord]) else changed_coords rest changed))))"

definition reserveRecoveryVersions :: "walRecord list \<Rightarrow> (Coord \<times> uint64) list sop" where
  "reserveRecoveryVersions records =
     andThen (state_of (\<lambda>s. range_over (st_world s) (final_records records []))) (\<lambda>final.
     andThen (changed_coords final []) (\<lambda>changed.
     andThen (state_of st_versionClock) (\<lambda>clock.
     if of_nat (length changed) > MaxUint64 - clock then raise [ErrVersionOverflow]
     else if changed = [] then ret []
     else let versions = zip (sort changed) (map (\<lambda>i. clock + of_nat (i + 1)) [0..<length changed]);
              final = clock + of_nat (length changed) in
       andThen (update (\<lambda>s. s\<lparr>st_versionClock := final\<rparr>)) (\<lambda>_.
       andThen (persistVersionClock final) (\<lambda>_. ret versions)))))"

definition replaceWALAfterReplay :: "bool \<Rightarrow> unit sop" where
  "replaceWALAfterReplay syncData =
     andThen (on_world (os_noop (OsClose walPath))) (\<lambda>_.
     andThen (on_world (writeAtomic walPath [] syncData)) (\<lambda>_.
     andThen acquire_wal (\<lambda>_.
     andThen (update (\<lambda>s. s\<lparr>st_walUnsyncedUpdates := 0\<rparr>)) (\<lambda>_.
     if syncData then recordWALFlush walCheckpointFlush else ret ()))))"

definition recoverWAL :: "unit sop" where
  "recoverWAL =
     andThen (scan_wal (\<lambda>_. ret ())) (\<lambda>(completeBytes, records).
     andThen (reserveRecoveryVersions records) (\<lambda>recoveryVersions.
     andThen (state_of syncs_data) (\<lambda>syncData.
     andThen (state_of (\<lambda>s. range_over (st_world s) recoveryVersions)) (\<lambda>versions.
     andThen (for_each versions (\<lambda>(coord, version). persistChunkVersion coord version syncData)) (\<lambda>_.
     andThen (for_each records (\<lambda>r. andThen (persistChunk (wal_coord r) (wal_payload r) (wal_presence r) syncData)
       (\<lambda>_. cache_forget (wal_coord r)))) (\<lambda>_.
     andThen acquire_wal (\<lambda>_.
     andThen (on_world (os_size walPath)) (\<lambda>sourceBytes.
     if length records \<noteq> 0 \<or> completeBytes \<noteq> sourceBytes then replaceWALAfterReplay syncData else ret ()))))))))"

section \<open>Opening\<close>

definition openWAL :: "(world, unit) op" where
  "openWAL =
     catch (os_open walPath)
       (\<lambda>err. if \<not> errors_is err ErrNotExist then raise err
              else andThen (writeAtomic walPath [] True) (\<lambda>_. os_open walPath)) ret"

definition StartupScanEntryLimit :: nat where "StartupScanEntryLimit = 100000"

definition reclaim_entry :: "path \<Rightarrow> (world, unit) op" where
  "reclaim_entry path =
     andThen (state_of (\<lambda>w. is_dir w path)) (\<lambda>isDir.
     if isDir \<or> \<not> temporary path then ret ()
     else catch (os_remove path) (\<lambda>err. if errors_is err ErrNotExist then ret () else raise err) ret)"

definition reclaimStaleChunkTemporaryFiles :: "nat \<Rightarrow> (world, bool) op" where
  "reclaimStaleChunkTemporaryFiles limit =
     andThen walk_root (\<lambda>paths.
     andThen (for_each (take limit paths) (\<lambda>p. andThen (reclaim_entry p) (\<lambda>_. enter_directory p))) (\<lambda>_. ret (length paths > limit)))"

definition new_store :: "Geometry \<Rightarrow> Options \<Rightarrow> (nat \<Rightarrow> nat \<Rightarrow> nat) \<Rightarrow> world \<Rightarrow> Store" where
  "new_store g opts grow w =
     \<lparr>st_geometry = g, st_options = opts, st_grow = grow, st_cache = newChunkCache g (nat (o_MaxLoadedChunks opts)),
      st_walRecords = 0, st_walBytes = 0, st_walUnsyncedUpdates = 0, st_walRecordBuffer = \<lparr>buf_bytes = [], buf_cap = 0\<rparr>,
      st_versionClock = 0, st_pending = [], st_pendingSync = newDurabilitySyncSet, st_snapshotGeneration = 0,
      st_poisoned = None, st_walForegroundFlushes = 0, st_walGroupFlushes = 0, st_walCheckpointFlushes = 0,
      st_checkpointCount = 0, st_closed = False, st_events = [], st_world = w\<rparr>"

definition start_maintenance :: "unit sop" where
  "start_maintenance = update (\<lambda>s. s\<lparr>st_cache := startMaintenance (st_cache s)\<rparr>)"

definition open_writer :: "unit sop" where
  "open_writer =
     andThen (on_world (os_mkdir_all [])) (\<lambda>_.
     andThen (on_world (os_noop OsLock)) (\<lambda>_.
     andThen (on_world (reclaimStaleChunkTemporaryFiles StartupScanEntryLimit)) (\<lambda>_.
     andThen (on_world openWAL) (\<lambda>_.
     andThen beginWriterSnapshot (\<lambda>_.
     andThen loadVersionClock (\<lambda>_.
     andThen recoverConditionalIntent (\<lambda>_.
     andThen recoverWAL (\<lambda>_.
     andThen (finishWriterSnapshot True) (\<lambda>_.
     start_maintenance)))))))))"

definition open_reader :: "unit sop" where
  "open_reader = andThen (on_world (os_stat [])) (\<lambda>_. start_maintenance)"

definition openStore :: "uint64 option \<Rightarrow> (nat \<Rightarrow> nat \<Rightarrow> nat) \<Rightarrow> string \<Rightarrow> Geometry \<Rightarrow> Options \<Rightarrow> world \<Rightarrow> Store result \<times> world" where
  "openStore rlimit grow root g options w =
     (if root = [] then (Inl [], w)
      else if geometry_New (config g) \<noteq> Inr g then (Inl [ErrInvalid], w)
      else case validated rlimit options of
        Inl e \<Rightarrow> (Inl e, w)
      | Inr opts \<Rightarrow>
          (case (if o_ReadOnly opts then open_reader else open_writer) (new_store g opts grow w) of
             (Inl e, s) \<Rightarrow> (Inl e, st_world s)
           | (Inr _, s) \<Rightarrow> (Inr s, st_world s)))"

end
