(* ===== verification/StoreFrames.thy ===== *)
theory StoreFrames
  imports StoreModel
begin

text \<open>
  Which files each operation of the store may change.  \<open>tame g X m\<close> says that \<open>m\<close>, run on a store of geometry \<open>g\<close>,
  changes no files outside \<open>X\<close> (temporary files apart), leaves the pending publications and the configuration alone and
  never heals a poisoned store.  The collection \<open>tames\<close> composes the rule along the code.
\<close>

section \<open>Paths\<close>

lemma not_temporary_chunk [simp]: "\<not> temporary (chunkPath g c)" "\<not> temporary (chunkVersionPath g c)"
  by (simp_all add: temporary_def chunkPath_def chunkVersionPath_def chunkFileName_def chunkTemporaryPrefix_def strings_HasPrefix_def)

lemma not_temporary_control [simp]:
  "\<not> temporary walPath" "\<not> temporary intentPath" "\<not> temporary versionClockPath" "\<not> temporary snapshotPath" "\<not> temporary intentDirectory"
  by (simp_all add: temporary_def walPath_def intentPath_def versionClockPath_def snapshotPath_def intentDirectory_def
      intentFileName_def intentDirectoryName_def chunkTemporaryPrefix_def strings_HasPrefix_def)

lemma control_paths_distinct [simp]:
  "walPath \<noteq> intentPath" "intentPath \<noteq> walPath" "walPath \<noteq> versionClockPath" "versionClockPath \<noteq> walPath" "walPath \<noteq> snapshotPath"
  "snapshotPath \<noteq> walPath" "intentPath \<noteq> versionClockPath" "versionClockPath \<noteq> intentPath" "intentPath \<noteq> snapshotPath" "snapshotPath \<noteq> intentPath"
  "versionClockPath \<noteq> snapshotPath" "snapshotPath \<noteq> versionClockPath"
  by (simp_all add: walPath_def intentPath_def versionClockPath_def snapshotPath_def)

lemma chunk_control_distinct [simp]:
  "chunkPath g c \<noteq> walPath" "walPath \<noteq> chunkPath g c" "chunkPath g c \<noteq> intentPath" "intentPath \<noteq> chunkPath g c"
  "chunkPath g c \<noteq> versionClockPath" "versionClockPath \<noteq> chunkPath g c" "chunkPath g c \<noteq> snapshotPath" "snapshotPath \<noteq> chunkPath g c"
  "chunkVersionPath g c \<noteq> walPath" "walPath \<noteq> chunkVersionPath g c" "chunkVersionPath g c \<noteq> intentPath" "intentPath \<noteq> chunkVersionPath g c"
  "chunkVersionPath g c \<noteq> versionClockPath" "versionClockPath \<noteq> chunkVersionPath g c"
  "chunkVersionPath g c \<noteq> snapshotPath" "snapshotPath \<noteq> chunkVersionPath g c"
  by (simp_all add: chunkPath_def chunkVersionPath_def walPath_def intentPath_def versionClockPath_def snapshotPath_def
      intentDirectoryName_def largeDirName_def)

lemma safeIntentPaths_eq: "safeIntentPaths = Inr (intentDirectory, intentPath)"
  by (simp add: safeIntentPaths_def containedControlPath_def intentDirectoryName_def intentFileName_def control_character_def
      intentDirectory_def intentPath_def less_eq_char_def)

section \<open>Operations that keep to their files\<close>

definition sframe :: "path set \<Rightarrow> Store \<Rightarrow> Store \<Rightarrow> bool" where
  "sframe X s s' \<longleftrightarrow> frame X (st_world s) (st_world s') \<and> st_geometry s' = st_geometry s \<and> st_options s' = st_options s \<and>
     st_grow s' = st_grow s \<and> st_closed s' = st_closed s \<and> st_pending s' = st_pending s \<and>
     (st_poisoned s \<noteq> None \<longrightarrow> st_poisoned s' \<noteq> None)"

definition tame :: "Geometry \<Rightarrow> path set \<Rightarrow> 'a sop \<Rightarrow> bool" where
  "tame g X m \<longleftrightarrow> (\<forall>s r s'. st_geometry s = g \<longrightarrow> m s = (r, s') \<longrightarrow> sframe X s s')"

named_theorems tames \<open>store operations that keep to their files\<close>

lemma sframe_refl [simp]: "sframe X s s"
  by (simp add: sframe_def)

lemma sframe_trans: "sframe X s t \<Longrightarrow> sframe X t u \<Longrightarrow> sframe X s u"
  by (auto simp: sframe_def intro: frame_trans)

lemma sframe_mono: "sframe X s s' \<Longrightarrow> X \<subseteq> Y \<Longrightarrow> sframe Y s s'"
  by (auto simp: sframe_def intro: frame_mono)

lemma tameD: "tame g X m \<Longrightarrow> st_geometry s = g \<Longrightarrow> m s = (r, s') \<Longrightarrow> sframe X s s'"
  by (simp add: tame_def)

lemma tame_mono: "tame g X m \<Longrightarrow> X \<subseteq> Y \<Longrightarrow> tame g Y m"
  unfolding tame_def using sframe_mono by blast

lemma tame_ret [tames]: "tame g X (ret x)" and tame_raise [tames]: "tame g X (raise e)"
  and tame_state_of [tames]: "tame g X (state_of f)" and tame_lift_result [tames]: "tame g X (lift_result r)"
  by (simp_all add: tame_def ret_def raise_def state_of_def lift_result_def)

lemma tame_catch [tames]:
  assumes "tame g X m" "\<And>e. tame g X (h e)" "\<And>x. tame g X (f x)"
  shows "tame g X (catch m h f)"
  unfolding tame_def
proof (intro allI impI)
  fix s r s' assume g: "st_geometry s = g" and c: "catch m h f s = (r, s')"
  obtain a t where m: "m s = (a, t)" by fastforce
  have t: "sframe X s t" using tameD [OF assms(1) g m] .
  then have "st_geometry t = g" using g by (simp add: sframe_def)
  then have "sframe X t s'" using c m tameD [OF assms(2)] tameD [OF assms(3)] by (cases a) (auto simp: catch_def)
  with t show "sframe X s s'" by (rule sframe_trans)
qed

lemma tame_andThen [tames]: "tame g X m \<Longrightarrow> (\<And>x. tame g X (f x)) \<Longrightarrow> tame g X (andThen m f)"
  unfolding andThen_def by (intro tames)

text \<open>A value read off the store is one of a store of geometry \<open>g\<close>.\<close>

lemma tame_andThen_state:
  assumes "\<And>s. st_geometry s = g \<Longrightarrow> tame g X (f (h s))"
  shows "tame g X (andThen (state_of h) f)"
  using assms by (simp add: tame_def andThen_def catch_def state_of_def)

lemma tame_ignore [tames]: "tame g X m \<Longrightarrow> tame g X (ignore m)"
  unfolding ignore_def by (intro tames)

lemma tame_if [tames]: "(b \<Longrightarrow> tame g X m) \<Longrightarrow> (\<not> b \<Longrightarrow> tame g X n) \<Longrightarrow> tame g X (if b then m else n)"
  by simp

lemma tame_case_prod [tames]: "(\<And>a b. tame g X (f a b)) \<Longrightarrow> tame g X (case x of (a, b) \<Rightarrow> f a b)"
  by (cases x) simp

lemma tame_case_option [tames]: "tame g X m \<Longrightarrow> (\<And>a. tame g X (f a)) \<Longrightarrow> tame g X (case x of None \<Rightarrow> m | Some a \<Rightarrow> f a)"
  by (cases x) simp_all

lemma tame_for_each: "(\<And>x. x \<in> set xs \<Longrightarrow> tame g X (f x)) \<Longrightarrow> tame g X (for_each xs f)"
  by (induction xs) (auto intro!: tames)

lemma tame_on_world: "harmless X m \<Longrightarrow> tame g X (on_world m)"
  by (auto simp: tame_def on_world_def sframe_def dest: harmlessD split: prod.splits)

lemma tame_update:
  "(\<And>s. st_world (f s) = st_world s \<and> st_geometry (f s) = st_geometry s \<and> st_options (f s) = st_options s \<and> st_grow (f s) = st_grow s \<and>
      st_closed (f s) = st_closed s \<and> st_pending (f s) = st_pending s \<and> (st_poisoned s \<noteq> None \<longrightarrow> st_poisoned (f s) \<noteq> None)) \<Longrightarrow>
   tame g X (update f)"
  by (simp add: tame_def update_def sframe_def)

lemma tame_bookkeeping [tames]:
  "tame g X (poisonDurability e)" "tame g X (reportPostCommitFailure ev)" "tame g X (recordWALFlush k)" "tame g X checkDurabilityHealthy"
  "tame g X (raise_joined e)" "tame g X (pendingSync_add p)" "tame g X (pendingSync_delete p)" "tame g X (cache_forget c)"
  "tame g X (cache_put c a b)" "tame g X (cache_look c)"
proof -
  show h: "tame g X checkDurabilityHealthy" by (auto simp: tame_def checkDurabilityHealthy_def split: option.splits)
  show "tame g X (raise_joined e)" unfolding raise_joined_def by (intro tames h)
qed (auto simp: tame_def update_def sframe_def poisonDurability_def reportPostCommitFailure_def recordWALFlush_def pendingSync_add_def
     pendingSync_delete_def cache_forget_def cache_put_def cache_look_def split: walFlushKind.splits prod.splits)

lemma tame_set_unsynced [tames]: "tame g X (update (\<lambda>s. s\<lparr>st_walUnsyncedUpdates := f s\<rparr>))"
  by (rule tame_update) simp

lemma tame_set_clock [tames]: "tame g X (update (\<lambda>s. s\<lparr>st_versionClock := v\<rparr>))"
  by (rule tame_update) simp

lemma tame_reads [tames]:
  "tame g X (on_world (os_stat p))" "tame g X (on_world (os_read p))" "tame g X (on_world (os_noop c))" "tame g X (on_world (os_open p))"
  "tame g X (on_world (os_read_dir p))" "tame g X (on_world (os_size p))" "tame g X (on_world (os_mkdir p))"
  "tame g X (on_world (os_mkdir_all p))" "tame g X (on_world (syncFile p))" "tame g X (on_world (commit_directory p))"
  "tame g X acquire_wal" "tame g X writerLock_checkHealthy"
  unfolding acquire_wal_def writerLock_checkHealthy_def by (intro tame_on_world frames)+

lemma tame_writeAtomic: "\<not> temporary p \<Longrightarrow> p \<in> X \<Longrightarrow> tame g X (on_world (writeAtomic p d b))"
  by (intro tame_on_world frames)

section \<open>The operations of the store\<close>

definition meta_paths :: "Geometry \<Rightarrow> path set" where
  "meta_paths g = {versionClockPath, snapshotPath} \<union> range (chunkVersionPath g)"

lemma tame_syncWAL [tames]: "tame g X (syncWAL k)"
  unfolding syncWAL_def by (intro tames)

lemma tame_ensureWALCommit [tames]: "tame g X (ensureWALCommit b)"
  unfolding ensureWALCommit_def by (intro tames)

lemma tame_walSize [tames]: "tame g X walSize"
  unfolding walSize_def by (intro tames)

lemma tame_inspectIntentDirectory [tames]: "tame g X (inspectIntentDirectory b)"
  unfolding inspectIntentDirectory_def by (intro tames)

lemma tame_intentExists [tames]: "tame g X intentExists"
  unfolding intentExists_def by (intro tames)

lemma tame_readIntent [tames]: "tame g X readIntent"
  unfolding readIntent_def by (intro tames)

lemma tame_syncIntentDirectory [tames]: "tame g X syncIntentDirectory"
  unfolding syncIntentDirectory_def by (intro tames)

lemma tame_persistChunkVersion [tames]: "tame g (meta_paths g) (persistChunkVersion c v b)"
  unfolding persistChunkVersion_def
  by (rule tame_andThen_state) (intro tames tame_writeAtomic | simp add: meta_paths_def)+

lemma tame_persistVersionClock [tames]: "tame g (meta_paths g) (persistVersionClock v)"
  unfolding persistVersionClock_def by (rule tame_writeAtomic) (simp_all add: meta_paths_def)

lemma tame_persistSnapshotGeneration [tames]: "tame g (meta_paths g) (persistSnapshotGeneration n b)"
  unfolding persistSnapshotGeneration_def
  by (intro tames tame_writeAtomic tame_update) (simp_all add: meta_paths_def)

lemma tame_beginWriteSnapshot [tames]: "tame g (meta_paths g) beginWriteSnapshot"
  unfolding beginWriteSnapshot_def by (intro tames)

lemma tame_finishWriterSnapshot [tames]: "tame g (meta_paths g) (finishWriterSnapshot b)"
  unfolding finishWriterSnapshot_def by (intro tames)

lemma tame_finishSnapshots [tames]: "tame g (meta_paths g) finishRejectedSnapshot" "tame g (meta_paths g) finishCommittedSnapshot"
  unfolding finishRejectedSnapshot_def finishCommittedSnapshot_def by (intro tames)+

lemma tame_reject [tames]: "tame g (meta_paths g) (reject e)"
  unfolding reject_def by (intro tames)

lemma tame_readChunkVersion [tames]: "tame g X (readChunkVersion c)"
  unfolding readChunkVersion_def by (intro tames)

lemma tame_currentChunkVersion [tames]: "tame g X (currentChunkVersion c)"
  unfolding currentChunkVersion_def by (intro tames)

lemma tame_check_mutations [tames]: "tame g (meta_paths g) (check_mutations seen ms)"
proof (induction ms arbitrary: seen)
  case (Cons m ms)
  then show ?case by (cases "mut_Chunk m") (auto intro!: tames)
qed (simp add: tames)

end
