(* ===== verification/StoreDisk.thy ===== *)
theory StoreDisk
  imports StoreFrames
begin

text \<open>
  What a data directory means.  \<open>disk_state g w\<close> is the abstract contents of the directory of \<open>w\<close>: for each chunk the
  state that recovery would make visible, read off the commit intent, the log and the chunk files.  The phases
  \<open>Quiet\<close> and \<open>Armed\<close> describe the directory between writes and during a write; in both the abstract contents are
  determined by the complete records of the log and the chunk files, so that a step that only moves between phases,
  or only rewrites files the log covers, changes nothing that can be observed after a crash.
\<close>

section \<open>Abstract contents\<close>

type_synonym chunk_state = "bytes \<times> bytes"
type_synonym chunk_view = "chunk_state option result"

definition wal_bytes :: "Geometry \<Rightarrow> walRecord list \<Rightarrow> bytes" where
  "wal_bytes g recs = concat (map (wal_record g) recs)"

definition record_state :: "walRecord \<Rightarrow> chunk_state" where
  "record_state r = (wal_payload r, wal_presence r)"

definition last_state :: "walRecord list \<Rightarrow> Coord \<Rightarrow> chunk_state option" where
  "last_state recs = map_of (rev (map (\<lambda>r. (wal_coord r, record_state r)) recs))"

text \<open>A chunk without any block is the same as no chunk: a checkpoint removes its file.\<close>

definition visible :: "chunk_state \<Rightarrow> chunk_state option" where
  "visible v = (if emptyPresence (snd v) then None else Some v)"

definition file_state :: "Geometry \<Rightarrow> (Coord \<Rightarrow> bytes option) \<Rightarrow> Coord \<Rightarrow> chunk_view" where
  "file_state g files c =
     (case files c of
        None \<Rightarrow> Inr None
      | Some encoded \<Rightarrow>
          (case decode g c encoded of
             Inl e \<Rightarrow> Inl e
           | Inr chunk \<Rightarrow> Inr (visible (chunk_payload chunk, chunk_presence chunk))))"

definition disk_view :: "Geometry \<Rightarrow> walRecord list \<Rightarrow> (Coord \<Rightarrow> bytes option) \<Rightarrow> Coord \<Rightarrow> chunk_view" where
  "disk_view g recs files c = (case last_state recs c of Some v \<Rightarrow> Inr (visible v) | None \<Rightarrow> file_state g files c)"

definition wal_content :: "world \<Rightarrow> bytes" where
  "wal_content w = (case content w walPath of None \<Rightarrow> [] | Some d \<Rightarrow> d)"

definition effective_wal :: "world \<Rightarrow> bytes" where
  "effective_wal w =
     (case content w intentPath of
        None \<Rightarrow> wal_content w
      | Some encoded \<Rightarrow>
          (case decodeIntent encoded of
             Inr (intentRollback, boundary) \<Rightarrow> take (unat boundary) (wal_content w)
           | _ \<Rightarrow> wal_content w))"

definition chunk_files :: "Geometry \<Rightarrow> world \<Rightarrow> Coord \<Rightarrow> bytes option" where
  "chunk_files g w c = content w (chunkPath g c)"

definition disk_state :: "Geometry \<Rightarrow> world \<Rightarrow> Coord \<Rightarrow> chunk_view" where
  "disk_state g w = disk_view g (fst (snd (scanWAL g (effective_wal w)))) (chunk_files g w)"

text \<open>A directory that recovery accepts: the log scans, and a rollback does not reach beyond the end of it.\<close>

definition sound_disk :: "Geometry \<Rightarrow> world \<Rightarrow> bool" where
  "sound_disk g w \<longleftrightarrow> snd (snd (scanWAL g (effective_wal w))) = None \<and>
     (case content w intentPath of
        None \<Rightarrow> True
      | Some encoded \<Rightarrow>
          (case decodeIntent encoded of
             Inl _ \<Rightarrow> False
           | Inr (state, boundary) \<Rightarrow> state = intentRollback \<longrightarrow> unat boundary \<le> length (wal_content w)))"

lemma last_state_Nil [simp]: "last_state [] c = None"
  by (simp add: last_state_def)

lemma last_state_append: "last_state (a @ b) c = (case last_state b c of None \<Rightarrow> last_state a c | Some v \<Rightarrow> Some v)"
  unfolding last_state_def by (simp add: map_add_def)

lemma last_state_snoc [simp]: "last_state (a @ [r]) c = (if c = wal_coord r then Some (record_state r) else last_state a c)"
  by (simp add: last_state_def)

lemma last_state_None_iff: "last_state recs c = None \<longleftrightarrow> c \<notin> wal_coord ` set recs"
  by (auto simp: last_state_def map_of_eq_None_iff image_image)

lemma last_state_in: "last_state recs c = Some v \<Longrightarrow> \<exists>r\<in>set recs. wal_coord r = c \<and> record_state r = v"
  unfolding last_state_def by (drule map_of_SomeD) auto

section \<open>Phases of the directory\<close>

definition wf_records :: "Geometry \<Rightarrow> walRecord list \<Rightarrow> bool" where
  "wf_records g recs \<longleftrightarrow> (\<forall>r\<in>set recs. wf_record g r)"

definition small :: "bytes \<Rightarrow> bool" where
  "small d \<longleftrightarrow> int (length d) < 9223372036854775808"

definition quiet :: "Geometry \<Rightarrow> walRecord list \<Rightarrow> world \<Rightarrow> bool" where
  "quiet g recs w \<longleftrightarrow> wf_records g recs \<and> content w walPath = Some (wal_bytes g recs) \<and> small (wal_bytes g recs) \<and>
     (content w intentPath = None \<or> (\<exists>b. content w intentPath = Some (encodeIntent intentCommitted b)))"

definition rollback_mark :: "Geometry \<Rightarrow> walRecord list \<Rightarrow> bytes" where
  "rollback_mark g recs = encodeIntent intentRollback (of_nat (length (wal_bytes g recs)))"

definition armed :: "Geometry \<Rightarrow> walRecord list \<Rightarrow> bytes \<Rightarrow> world \<Rightarrow> bool" where
  "armed g recs tail w \<longleftrightarrow> wf_records g recs \<and> content w walPath = Some (wal_bytes g recs @ tail) \<and> small (wal_bytes g recs @ tail) \<and>
     content w intentPath = Some (rollback_mark g recs)"

definition agree :: "Geometry \<Rightarrow> walRecord list \<Rightarrow> (Coord \<Rightarrow> bytes option) \<Rightarrow> world \<Rightarrow> bool" where
  "agree g recs F w \<longleftrightarrow> (\<forall>c. last_state recs c = None \<longrightarrow> content w (chunkPath g c) = F c)"

lemma small_unat: "small d \<Longrightarrow> n \<le> length d \<Longrightarrow> unat (of_nat n :: uint64) = n"
  by (simp add: small_def unat_of_nat)

lemma small_append: "small (a @ b) \<Longrightarrow> small a"
  by (simp add: small_def)

lemma scan_wal_bytes: "wf_records g recs \<Longrightarrow> scanWAL g (wal_bytes g recs) = (length recs * recordBytes g, recs, None)"
  by (simp add: wf_records_def wal_bytes_def scanWAL_whole)

lemma agree_view: "agree g recs F w \<Longrightarrow> disk_view g recs (chunk_files g w) = disk_view g recs F"
  by (auto simp: fun_eq_iff disk_view_def agree_def chunk_files_def file_state_def split: option.split)

lemma decode_encodeIntent [simp]: "decodeIntent (encodeIntent st b) = Inr (st, b)"
  by (simp add: decodeIntent_iff)

lemma quiet_disk:
  assumes "quiet g recs w"
  shows "disk_state g w = disk_view g recs (chunk_files g w)" "sound_disk g w"
proof -
  have e: "effective_wal w = wal_bytes g recs"
    using assms by (auto simp: quiet_def effective_wal_def wal_content_def)
  then show "disk_state g w = disk_view g recs (chunk_files g w)"
    using assms by (simp add: disk_state_def quiet_def scan_wal_bytes)
  show "sound_disk g w"
    using assms e by (auto simp: sound_disk_def quiet_def scan_wal_bytes)
qed

lemma armed_disk:
  assumes "armed g recs tail w"
  shows "disk_state g w = disk_view g recs (chunk_files g w)" "sound_disk g w"
proof -
  have d: "decodeIntent (rollback_mark g recs) = Inr (intentRollback, of_nat (length (wal_bytes g recs)))"
    by (simp add: decodeIntent_iff rollback_mark_def)
  have u: "unat (of_nat (length (wal_bytes g recs)) :: uint64) = length (wal_bytes g recs)"
    using assms by (intro small_unat [of "wal_bytes g recs @ tail"]) (simp_all add: armed_def)
  have e: "effective_wal w = wal_bytes g recs"
    using assms d u by (simp add: armed_def effective_wal_def wal_content_def)
  then show "disk_state g w = disk_view g recs (chunk_files g w)"
    using assms by (simp add: disk_state_def armed_def scan_wal_bytes)
  show "sound_disk g w"
    using assms e d u by (simp add: sound_disk_def armed_def scan_wal_bytes wal_content_def)
qed

section \<open>Phases of the store\<close>

text \<open>
  No \<^verbatim>\<open>Lstat\<close> of the intent directory or of the intent file fails from here on, unless the process halts in it.  This is not
  assumed of any store: the store ignores the error of such a call when a write is given up, and the predicate tells that outcome
  from the others.
\<close>

definition stat_ok :: "world \<Rightarrow> bool" where
  "stat_ok w \<longleftrightarrow> (\<forall>n. \<forall>p\<in>{intentDirectory, intentPath}. w_oracle w n (OsStat p) = NoFault \<or> (\<exists>k. w_oracle w n (OsStat p) = Halt k))"

definition base :: "Geometry \<Rightarrow> Store \<Rightarrow> bool" where
  "base g s \<longleftrightarrow> st_geometry s = g \<and> wf_geometry g \<and> grow_enough (st_grow s) \<and> wf_world (st_world s)"

definition Quiet :: "Geometry \<Rightarrow> walRecord list \<Rightarrow> (Coord \<Rightarrow> bytes option) \<Rightarrow> Store \<Rightarrow> bool" where
  "Quiet g recs F s \<longleftrightarrow> base g s \<and> quiet g recs (st_world s) \<and> agree g recs F (st_world s)"

definition Armed :: "Geometry \<Rightarrow> walRecord list \<Rightarrow> bytes \<Rightarrow> (Coord \<Rightarrow> bytes option) \<Rightarrow> Store \<Rightarrow> bool" where
  "Armed g recs tail F s \<longleftrightarrow> base g s \<and> armed g recs tail (st_world s) \<and> agree g recs F (st_world s)"

text \<open>The pending publications are the latest records of their chunks.\<close>

definition pend_ok :: "walRecord list \<Rightarrow> (Coord \<times> pendingPublication) list \<Rightarrow> bool" where
  "pend_ok recs ps \<longleftrightarrow> distinct (map fst ps) \<and> (\<forall>(c, p)\<in>set ps. last_state recs c = Some (pp_payload p, pp_presence p))"

text \<open>The disk holds the contents \<open>D\<close>; \<open>inv D\<close> adds that the store is between two writes.\<close>

definition disk_holds :: "Geometry \<Rightarrow> (Coord \<Rightarrow> chunk_view) \<Rightarrow> Store \<Rightarrow> bool" where
  "disk_holds g D s \<longleftrightarrow> (\<exists>recs F. (Quiet g recs F s \<or> (\<exists>tail. Armed g recs tail F s)) \<and> disk_view g recs F = D)"

definition inv :: "Geometry \<Rightarrow> (Coord \<Rightarrow> chunk_view) \<Rightarrow> Store \<Rightarrow> bool" where
  "inv g D s \<longleftrightarrow> (\<exists>recs F. Quiet g recs F s \<and> pend_ok recs (st_pending s) \<and> disk_view g recs F = D)"

text \<open>The directory holds \<open>D\<close>, and a rollback intent that takes nothing back was left behind.\<close>

definition stale :: "Geometry \<Rightarrow> (Coord \<Rightarrow> chunk_view) \<Rightarrow> Store \<Rightarrow> bool" where
  "stale g D s \<longleftrightarrow> (\<exists>recs F. Armed g recs [] F s \<and> pend_ok recs (st_pending s) \<and> disk_view g recs F = D)"

lemma stale_holds: "stale g D s \<Longrightarrow> disk_holds g D s"
  by (auto simp: stale_def disk_holds_def)

lemma inv_holds: "inv g D s \<Longrightarrow> disk_holds g D s"
  by (auto simp: inv_def disk_holds_def)

lemma disk_holds_state:
  assumes "disk_holds g D s"
  shows "disk_state g (st_world s) = D" "sound_disk g (st_world s)"
  using assms quiet_disk armed_disk agree_view
  by (auto simp: disk_holds_def Quiet_def Armed_def)

section \<open>Steps that do not touch the log, the intent or a chunk\<close>

text \<open>Two stores with the same log, intent and chunk files.\<close>

definition same_core :: "Geometry \<Rightarrow> Store \<Rightarrow> Store \<Rightarrow> bool" where
  "same_core g s s' \<longleftrightarrow> (\<forall>p. p = walPath \<or> p = intentPath \<or> (\<exists>c. p = chunkPath g c) \<longrightarrow> content (st_world s') p = content (st_world s) p) \<and>
     st_geometry s' = st_geometry s \<and> st_grow s' = st_grow s \<and> stat_ok (st_world s') = stat_ok (st_world s) \<and>
     (wf_world (st_world s) \<longrightarrow> wf_world (st_world s'))"

lemma sframe_base: "sframe X s s' \<Longrightarrow> base g s \<Longrightarrow> base g s'"
  by (simp add: sframe_def base_def frame_def stat_ok_def)

lemma sframe_content: "sframe X s s' \<Longrightarrow> p \<notin> X \<Longrightarrow> \<not> temporary p \<Longrightarrow> content (st_world s') p = content (st_world s) p"
  by (auto simp: sframe_def dest: frame_content)

lemma sframe_core:
  assumes "sframe X s s'" "\<And>p. p \<in> X \<Longrightarrow> p = walPath \<or> p = intentPath \<or> (\<exists>c. p = chunkPath g c) \<Longrightarrow> content (st_world s') p = content (st_world s) p"
  shows "same_core g s s'"
proof -
  have "content (st_world s') p = content (st_world s) p" if "p = walPath \<or> p = intentPath \<or> (\<exists>c. p = chunkPath g c)" for p
    using that assms(2) [of p] sframe_content [OF assms(1), of p] by (cases "p \<in> X") auto
  then show ?thesis using assms(1) by (simp add: same_core_def sframe_def frame_def stat_ok_def)
qed

lemma meta_core_paths: "p \<in> meta_paths g \<Longrightarrow> \<not> (p = walPath \<or> p = intentPath \<or> (\<exists>c. p = chunkPath g c))"
  by (auto simp: meta_paths_def)

lemma sframe_meta_core: "sframe (meta_paths g) s s' \<Longrightarrow> same_core g s s'"
  by (rule sframe_core) (auto dest: meta_core_paths)

lemma core_Quiet: "same_core g s s' \<Longrightarrow> Quiet g recs F s \<Longrightarrow> Quiet g recs F s'"
  by (auto simp: same_core_def Quiet_def base_def quiet_def agree_def)

lemma core_Armed: "same_core g s s' \<Longrightarrow> Armed g recs tail F s \<Longrightarrow> Armed g recs tail F s'"
  by (auto simp: same_core_def Armed_def base_def armed_def agree_def)

text \<open>Predicates that steps on other files keep.\<close>

definition meta_stable :: "Geometry \<Rightarrow> (Store \<Rightarrow> bool) \<Rightarrow> bool" where
  "meta_stable g P \<longleftrightarrow> (\<forall>s. P s \<longrightarrow> st_geometry s = g) \<and> (\<forall>s s'. P s \<longrightarrow> sframe (meta_paths g) s s' \<longrightarrow> P s')"

lemma triple_meta: "meta_stable g P \<Longrightarrow> tame g (meta_paths g) m \<Longrightarrow> triple P m (\<lambda>_. P)"
  unfolding meta_stable_def by (rule tripleI) (blast dest: tameD)

definition dead :: "Store \<Rightarrow> bool" where
  "dead s \<longleftrightarrow> st_poisoned s \<noteq> None \<or> w_halted (st_world s)"

lemma dead_sframe: "dead s \<Longrightarrow> sframe X s s' \<Longrightarrow> dead s'"
  by (auto simp: dead_def sframe_def frame_def)

text \<open>The store accepts no further write, or it may miss an intent that is there.\<close>

definition lost :: "Store \<Rightarrow> bool" where
  "lost s \<longleftrightarrow> dead s \<or> \<not> stat_ok (st_world s)"

lemma sframe_stat_ok: "sframe X s s' \<Longrightarrow> stat_ok (st_world s') = stat_ok (st_world s)"
  by (simp add: sframe_def frame_def stat_ok_def)

lemma meta_stableI: "(\<And>s. P s \<Longrightarrow> st_geometry s = g) \<Longrightarrow> (\<And>s s'. P s \<Longrightarrow> same_core g s s' \<Longrightarrow> P s') \<Longrightarrow> meta_stable g P"
  unfolding meta_stable_def using sframe_meta_core by blast

lemma Quiet_geometry: "Quiet g recs F s \<Longrightarrow> st_geometry s = g"
  by (simp add: Quiet_def base_def)

lemma Armed_geometry: "Armed g recs tail F s \<Longrightarrow> st_geometry s = g"
  by (simp add: Armed_def base_def)

lemma meta_stable_phases: "meta_stable g (Quiet g recs F)" "meta_stable g (Armed g recs tail F)"
  by (rule meta_stableI, erule Quiet_geometry, erule core_Quiet, assumption)
    (rule meta_stableI, erule Armed_geometry, erule core_Armed, assumption)

lemma sframe_pending: "sframe X s s' \<Longrightarrow> st_pending s' = st_pending s"
  by (simp add: sframe_def)

lemma meta_stable_pending: "meta_stable g P \<Longrightarrow> meta_stable g (\<lambda>s. P s \<and> Q (st_pending s))"
  unfolding meta_stable_def by (metis sframe_pending)

lemma meta_stable_dead: "meta_stable g P \<Longrightarrow> meta_stable g (\<lambda>s. P s \<and> dead s)"
  unfolding meta_stable_def using dead_sframe by blast

lemma meta_stable_unstat: "meta_stable g P \<Longrightarrow> meta_stable g (\<lambda>s. P s \<and> \<not> stat_ok (st_world s))"
  unfolding meta_stable_def using sframe_stat_ok by blast

lemma meta_stable_lost: "meta_stable g P \<Longrightarrow> meta_stable g (\<lambda>s. P s \<and> lost s)"
  unfolding meta_stable_def lost_def using dead_sframe sframe_stat_ok by metis

lemma meta_stable_or: "meta_stable g P \<Longrightarrow> meta_stable g R \<Longrightarrow> meta_stable g (\<lambda>s. P s \<or> R s)"
  unfolding meta_stable_def by blast

lemma meta_stable_ex: "(\<And>x. meta_stable g (S x)) \<Longrightarrow> meta_stable g (\<lambda>s. \<exists>x. S x s)"
  unfolding meta_stable_def by blast

lemma meta_stable_pure: "meta_stable g P \<Longrightarrow> meta_stable g (\<lambda>s. P s \<and> b)"
  unfolding meta_stable_def by blast

lemmas meta_stable_intros = meta_stable_phases meta_stable_pending meta_stable_dead meta_stable_unstat meta_stable_lost meta_stable_or meta_stable_ex meta_stable_pure

lemma meta_stable_inv: "meta_stable g (inv g D)"
  unfolding inv_def conj_assoc [symmetric] by (intro meta_stable_ex meta_stable_pure meta_stable_pending meta_stable_phases)

lemma meta_stable_stale: "meta_stable g (stale g D)"
  unfolding stale_def conj_assoc [symmetric] by (intro meta_stable_ex meta_stable_pure meta_stable_pending meta_stable_phases)

lemma meta_stable_holds: "meta_stable g (disk_holds g D)"
  unfolding disk_holds_def by (intro meta_stable_ex meta_stable_pure meta_stable_or meta_stable_phases)

end
