(* ===== verification/StoreCommit.thy ===== *)
theory StoreCommit
  imports StoreDisk
begin

text \<open>
  The commit protocol, step by step: publishing and clearing the intent, appending to the log, and taking a
  rejected write back.  Every step is a Hoare triple over the phases of the directory that holds for every pattern
  of failures and for a crash inside the step.
\<close>

section \<open>The intent file\<close>

lemma on_world_def2: "on_world m s = (fst (m (st_world s)), s\<lparr>st_world := snd (m (st_world s))\<rparr>)"
  by (simp add: on_world_def split: prod.split)

lemma inspect_paths: "inspectIntentDirectory b s = (Inr (d, p, c), s') \<Longrightarrow> d = intentDirectory \<and> p = intentPath"
  by (auto simp: inspectIntentDirectory_def safeIntentPaths_eq andThen_def catch_def lift_result_def raise_def ret_def state_of_def
      split: prod.splits sum.splits if_splits)

text \<open>The rule for what follows an inspection of the intent directory.\<close>

lemma triple_inspect:
  assumes "meta_stable g P" "\<And>c. triple P (f intentDirectory intentPath c) Q" "\<And>e s. P s \<Longrightarrow> Q (Inl e) s"
  shows "triple P (andThen (inspectIntentDirectory b) (\<lambda>(d, p, c). f d p c)) Q"
proof (rule triple_andThen [where R = "\<lambda>r s. P s \<and> (\<forall>d p c. r = Inr (d, p, c) \<longrightarrow> d = intentDirectory \<and> p = intentPath)"])
  show "triple P (inspectIntentDirectory b) (\<lambda>r s. P s \<and> (\<forall>d p c. r = Inr (d, p, c) \<longrightarrow> d = intentDirectory \<and> p = intentPath))"
  proof (rule tripleI)
    fix s r s' assume P: "P s" and i: "inspectIntentDirectory b s = (r, s')"
    have "P s'" using tripleD [OF triple_meta [OF assms(1) tame_inspectIntentDirectory] P i] .
    then show "P s' \<and> (\<forall>d p c. r = Inr (d, p, c) \<longrightarrow> d = intentDirectory \<and> p = intentPath)" using i inspect_paths by blast
  qed
  show "triple (\<lambda>s. P s \<and> (\<forall>d p c. Inr x = Inr (d, p, c) \<longrightarrow> d = intentDirectory \<and> p = intentPath)) (case x of (d, p, c) \<Rightarrow> f d p c) Q" for x
    using assms(2) by (cases x) (auto simp: triple_def)
qed (use assms(3) in auto)

lemma meta_stable_intent_is: "meta_stable (st_geometry s0) (\<lambda>s. sframe ({intentPath} \<union> meta_paths (st_geometry s0)) s0 s \<and> content (st_world s) intentPath = v)"
  unfolding meta_stable_def
proof (intro conjI allI impI)
  fix s s'
  assume s: "sframe ({intentPath} \<union> meta_paths (st_geometry s0)) s0 s \<and> content (st_world s) intentPath = v"
    and m: "sframe (meta_paths (st_geometry s0)) s s'"
  show "sframe ({intentPath} \<union> meta_paths (st_geometry s0)) s0 s'"
    using s sframe_mono [OF m, of "{intentPath} \<union> meta_paths (st_geometry s0)"] sframe_trans by blast
  show "content (st_world s') intentPath = v"
    using s sframe_content [OF m, of intentPath] meta_core_paths [of intentPath] by auto
qed (simp add: sframe_def)

text \<open>\<open>near g s0 v s\<close>: only the intent file and metadata may differ from \<open>s0\<close>, and the intent file holds \<open>v\<close>.\<close>

definition near :: "Geometry \<Rightarrow> Store \<Rightarrow> bytes option \<Rightarrow> Store \<Rightarrow> bool" where
  "near g s0 v s \<longleftrightarrow> st_geometry s0 = g \<and> sframe ({intentPath} \<union> meta_paths g) s0 s \<and> content (st_world s) intentPath = v"

lemma meta_stable_near: "meta_stable g (near g s0 v)"
  using meta_stable_intent_is [of s0 v] unfolding meta_stable_def near_def by blast

lemma near_refl: "st_geometry s = g \<Longrightarrow> near g s (content (st_world s) intentPath) s"
  by (simp add: near_def)

lemma near_step:
  assumes "near g s0 v s" "sframe {intentPath} s s'" "content (st_world s') intentPath = v'"
  shows "near g s0 v' s'"
proof -
  have "sframe ({intentPath} \<union> meta_paths g) s s'" using assms(2) by (rule sframe_mono) simp
  then have "sframe ({intentPath} \<union> meta_paths g) s0 s'" using assms(1) sframe_trans by (auto simp: near_def)
  then show ?thesis using assms(1,3) by (simp add: near_def)
qed

lemma near_write_intent:
  "triple (near g s0 v) (on_world (writeAtomic intentPath d b)) (\<lambda>r s. (near g s0 v s \<and> r \<noteq> Inr ()) \<or> near g s0 (Some d) s)"
proof (rule tripleI)
  fix s r s' assume n: "near g s0 v s" and e: "on_world (writeAtomic intentPath d b) s = (r, s')"
  obtain w' where w: "writeAtomic intentPath d b (st_world s) = (r, w')" "s' = s\<lparr>st_world := w'\<rparr>"
    using e by (auto simp: on_world_def split: prod.splits)
  note W = writeAtomic_eff [OF not_temporary_control(2) w(1)]
  have f: "sframe {intentPath} s s'" using W(1) w(2) by (simp add: sframe_def)
  have "content (st_world s') intentPath = v \<and> r \<noteq> Inr () \<or> content (st_world s') intentPath = Some d"
    using n W(2,3) w(2) by (auto simp: near_def)
  then show "(near g s0 v s' \<and> r \<noteq> Inr ()) \<or> near g s0 (Some d) s'" using near_step [OF n f] by blast
qed

lemma publishIntent_near:
  "triple (near g s0 v) (publishIntent st b) (\<lambda>r s. (near g s0 v s \<and> r \<noteq> Inr ()) \<or> near g s0 (Some (encodeIntent st b)) s)"
  unfolding publishIntent_def
proof (rule triple_inspect [OF meta_stable_near])
  fix c
  show "triple (near g s0 v) (andThen (if c then on_world (commit_directory []) else ret ())
      (\<lambda>_. on_world (writeAtomic intentPath (encodeIntent st b) True)))
    (\<lambda>r s. (near g s0 v s \<and> r \<noteq> Inr ()) \<or> near g s0 (Some (encodeIntent st b)) s)"
  proof (rule triple_andThen [where R = "\<lambda>_. near g s0 v"])
    show "triple (near g s0 v) (if c then on_world (commit_directory []) else ret ()) (\<lambda>_. near g s0 v)"
      by (rule triple_meta [OF meta_stable_near]) (intro tames)
  qed (use near_write_intent in auto)
qed simp

lemma near_remove_intent:
  "triple (near g s0 v) (on_world (os_remove intentPath)) (\<lambda>r s. (near g s0 v s \<and> r \<noteq> Inr ()) \<or> near g s0 None s)"
proof (rule tripleI)
  fix s r s' assume n: "near g s0 v s" and e: "on_world (os_remove intentPath) s = (r, s')"
  obtain w' where w: "os_remove intentPath (st_world s) = (r, w')" "s' = s\<lparr>st_world := w'\<rparr>"
    using e by (auto simp: on_world_def split: prod.splits)
  have "frame {intentPath} (st_world s) w'" using harmlessD [OF harmless_os_writes(3) w(1)] by blast
  then have f: "sframe {intentPath} s s'" using w(2) by (simp add: sframe_def)
  have "content w' intentPath = content (st_world s) intentPath \<and> r \<noteq> Inr () \<or> content w' intentPath = None"
    using w(1) by (auto simp: os_remove_def os_call_def Let_def split: if_splits fault.splits)
  moreover have "content (st_world s) intentPath = v" "st_world s' = w'" using n w(2) by (simp_all add: near_def)
  ultimately show "(near g s0 v s' \<and> r \<noteq> Inr ()) \<or> near g s0 None s'" using near_step [OF n f] by metis
qed

lemma clearIntent_near:
  "triple (near g s0 v) clearIntent (\<lambda>r s. (near g s0 v s \<and> r \<noteq> Inr ()) \<or> near g s0 None s)"
  unfolding clearIntent_def
proof (rule triple_inspect [OF meta_stable_near])
  show "triple (near g s0 v) (andThen (on_world (os_remove intentPath)) (\<lambda>_. syncIntentDirectory))
      (\<lambda>r s. (near g s0 v s \<and> r \<noteq> Inr ()) \<or> near g s0 None s)"
  proof (rule triple_andThen [OF near_remove_intent])
    have "triple (near g s0 None) syncIntentDirectory (\<lambda>_. near g s0 None)"
      by (rule triple_meta [OF meta_stable_near]) (intro tames)
    then show "triple (\<lambda>s. (near g s0 v s \<and> Inr x \<noteq> Inr ()) \<or> near g s0 None s) syncIntentDirectory
        (\<lambda>r s. (near g s0 v s \<and> r \<noteq> Inr ()) \<or> near g s0 None s)" for x
      by (auto simp: triple_def)
  qed auto
qed simp

section \<open>Phases and the intent file\<close>

lemma near_core: "near g s0 v s \<Longrightarrow> p = walPath \<or> (\<exists>c. p = chunkPath g c) \<Longrightarrow> content (st_world s) p = content (st_world s0) p"
proof -
  assume n: "near g s0 v s" and p: "p = walPath \<or> (\<exists>c. p = chunkPath g c)"
  then have "p \<notin> {intentPath} \<union> meta_paths g" "\<not> temporary p" by (auto dest: meta_core_paths)
  then show ?thesis using n sframe_content [of "{intentPath} \<union> meta_paths g" s0 s p] by (simp add: near_def)
qed

lemma near_base: "near g s0 v s \<Longrightarrow> base g s0 \<Longrightarrow> base g s"
  by (auto simp: near_def intro: sframe_base)

lemma near_agree: "near g s0 v s \<Longrightarrow> agree g recs F (st_world s0) \<Longrightarrow> agree g recs F (st_world s)"
  using near_core by (auto simp: agree_def)

text \<open>What the phases become when only the intent file changes.\<close>

lemma near_Quiet_mark: "Quiet g recs F s0 \<Longrightarrow> near g s0 (Some (rollback_mark g recs)) s \<Longrightarrow> Armed g recs [] F s"
  using near_core [of g s0 "Some (rollback_mark g recs)" s walPath] near_base near_agree
  by (auto simp: Quiet_def Armed_def quiet_def armed_def near_def)

lemma near_Quiet_same: "Quiet g recs F s0 \<Longrightarrow> near g s0 (content (st_world s0) intentPath) s \<Longrightarrow> Quiet g recs F s"
  using near_core [of g s0 "content (st_world s0) intentPath" s walPath] near_base near_agree
  by (auto simp: Quiet_def quiet_def near_def)

lemma near_Quiet_None: "Quiet g recs F s0 \<Longrightarrow> near g s0 None s \<Longrightarrow> Quiet g recs F s"
  using near_core [of g s0 None s walPath] near_base near_agree by (auto simp: Quiet_def quiet_def near_def)

lemma near_Armed_same: "Armed g recs tail F s0 \<Longrightarrow> near g s0 (content (st_world s0) intentPath) s \<Longrightarrow> Armed g recs tail F s"
  using near_core [of g s0 "content (st_world s0) intentPath" s walPath] near_base near_agree
  by (auto simp: Armed_def armed_def near_def)

lemma near_Armed_None: "Armed g recs [] F s0 \<Longrightarrow> near g s0 None s \<Longrightarrow> Quiet g recs F s"
  using near_core [of g s0 None s walPath] near_base near_agree by (auto simp: Quiet_def quiet_def Armed_def armed_def near_def)

lemma wal_bytes_append: "wal_bytes g (a @ b) = wal_bytes g a @ wal_bytes g b"
  by (simp add: wal_bytes_def)

lemma agree_more: "agree g recs F w \<Longrightarrow> agree g (recs @ new) F w"
  by (simp add: agree_def last_state_append split: option.split)

lemma near_Armed_committed:
  assumes "Armed g recs (wal_bytes g new) F s0" "wf_records g new" "near g s0 (Some (encodeIntent intentCommitted b)) s"
  shows "Quiet g (recs @ new) F s"
  using assms near_core [OF assms(3), of walPath] near_base [OF assms(3)] near_agree [OF assms(3)]
  by (auto simp: Quiet_def quiet_def Armed_def armed_def near_def wal_bytes_append wf_records_def agree_more)

lemma triple_from_near:
  assumes "\<And>s0. P s0 \<Longrightarrow> st_geometry s0 = g"
    and "\<And>s0. triple (near g s0 (content (st_world s0) intentPath)) m (R s0)"
    and "\<And>s0 r s. P s0 \<Longrightarrow> R s0 r s \<Longrightarrow> Q r s"
  shows "triple P m Q"
proof (rule tripleI)
  fix s r s' assume P: "P s" and m: "m s = (r, s')"
  from assms(3) [OF P tripleD [OF assms(2) near_refl [OF assms(1) [OF P]] m]] show "Q r s'" .
qed

lemma publish_rollback:
  "triple (Quiet g recs F) (publishIntent intentRollback (of_nat (length (wal_bytes g recs))))
     (\<lambda>r s. (Quiet g recs F s \<and> r \<noteq> Inr ()) \<or> Armed g recs [] F s)"
  by (rule triple_from_near [OF Quiet_geometry publishIntent_near])
    (auto simp: rollback_mark_def [symmetric] dest: near_Quiet_same near_Quiet_mark)

lemma publish_committed:
  assumes "wf_records g new"
  shows "triple (Armed g recs (wal_bytes g new) F) (publishIntent intentCommitted b)
     (\<lambda>r s. (Armed g recs (wal_bytes g new) F s \<and> r \<noteq> Inr ()) \<or> Quiet g (recs @ new) F s)"
  by (rule triple_from_near [OF Armed_geometry publishIntent_near])
    (auto dest: near_Armed_same near_Armed_committed [OF _ assms])

lemma clear_armed:
  "triple (Armed g recs [] F) clearIntent (\<lambda>r s. (Armed g recs [] F s \<and> r \<noteq> Inr ()) \<or> Quiet g recs F s)"
  by (rule triple_from_near [OF Armed_geometry clearIntent_near]) (auto dest: near_Armed_same near_Armed_None)

lemma clear_quiet: "triple (Quiet g recs F) clearIntent (\<lambda>_. Quiet g recs F)"
  by (rule triple_from_near [OF Quiet_geometry clearIntent_near]) (auto dest: near_Quiet_same near_Quiet_None)

section \<open>The log\<close>

text \<open>A step on the log alone: from a log \<open>wal\<close> to a log that is one of \<open>W\<close> in outcome \<open>r\<close>.\<close>

lemma wal_step:
  assumes "Armed g recs tail F s" "frame {walPath} (st_world s) w'"
    and "content w' walPath = Some (wal_bytes g recs @ tail')" "small (wal_bytes g recs @ tail')"
  shows "Armed g recs tail' F (s\<lparr>st_world := w'\<rparr>)"
proof -
  have "sframe {walPath} s (s\<lparr>st_world := w'\<rparr>)" using assms(2) by (simp add: sframe_def)
  then have "base g (s\<lparr>st_world := w'\<rparr>)" using sframe_base assms(1) by (auto simp: Armed_def)
  then show ?thesis using assms frame_content [OF assms(2)] by (auto simp: Armed_def armed_def agree_def)
qed

lemma os_write_eff:
  assumes "os_write p d w = (r, w')" "content w p = Some old" "small old"
  shows "\<exists>n. content w' p = Some (old @ take n d) \<and> small (old @ take n d) \<and> (r = Inr () \<longrightarrow> take n d = d)"
proof -
  have 0: "\<exists>n. content (append_file p (take k d) v) p = Some (old @ take n d) \<and> small (old @ take n d)"
    if "content v p = Some old" for v k
  proof (cases "fits_file old (take k d)")
    case True
    then show ?thesis using that by (auto simp: append_file_content fits_file_def small_def)
  next
    case False
    then have "content (append_file p (take k d) v) p = Some (old @ take 0 d) \<and> small (old @ take 0 d)"
      using that assms(3) by (simp add: append_file_def)
    then show ?thesis by blast
  qed
  have 1: "\<exists>n. old = old @ take n d \<and> small (old @ take n d)" using assms(3) by (intro exI [of _ 0]) simp
  have 2: "fits_file old d \<Longrightarrow> content v p = Some old \<Longrightarrow> content (append_file p d v) p = Some (old @ take (length d) d) \<and> small (old @ take (length d) d)" for v
    by (simp add: append_file_content fits_file_def small_def)
  have stop: ?thesis if "content w' p = Some old" "r \<noteq> Inr ()" using that assms(3) by (intro exI [of _ 0]) simp
  show ?thesis
    using assms(1,2) 0 [of "w\<lparr>w_clock := Suc (w_clock w)\<rparr>"] 2 [of "w\<lparr>w_clock := Suc (w_clock w)\<rparr>"] stop
    by (auto simp: os_write_def os_call_def Let_def split: if_splits fault.splits) (metis take_all_iff order_refl)
qed

lemma append_armed:
  "triple (Armed g recs [] F) (on_world (os_write walPath d))
     (\<lambda>r s. \<exists>tail. Armed g recs tail F s \<and> (r = Inr () \<longrightarrow> tail = d))"
proof (rule tripleI)
  fix s r s' assume a: "Armed g recs [] F s" and e: "on_world (os_write walPath d) s = (r, s')"
  obtain w' where w: "os_write walPath d (st_world s) = (r, w')" "s' = s\<lparr>st_world := w'\<rparr>"
    using e by (auto simp: on_world_def split: prod.splits)
  have f: "frame {walPath} (st_world s) w'" using harmlessD [OF harmless_os_writes(2) w(1)] by blast
  have c: "content (st_world s) walPath = Some (wal_bytes g recs)" "small (wal_bytes g recs)"
    using a by (simp_all add: Armed_def armed_def)
  from os_write_eff [OF w(1) c] obtain n where n: "content w' walPath = Some (wal_bytes g recs @ take n d)"
    "small (wal_bytes g recs @ take n d)" "r = Inr () \<longrightarrow> take n d = d" by blast
  from wal_step [OF a f n(1,2)] n(3) w(2)
  show "\<exists>tail. Armed g recs tail F s' \<and> (r = Inr () \<longrightarrow> tail = d)" by blast
qed

lemma triple_tame_seq:
  assumes "meta_stable g P" "tame g (meta_paths g) m" "\<And>x. triple P (f x) Q" "\<And>e s. P s \<Longrightarrow> Q (Inl e) s"
  shows "triple P (andThen m f) Q"
  by (rule triple_andThen [OF triple_meta [OF assms(1,2)]]) (use assms(3,4) in auto)

lemma appendWAL_armed:
  "triple (Armed g recs [] F) (appendWAL d) (\<lambda>r s. \<exists>tail. Armed g recs tail F s \<and> (r = Inr () \<longrightarrow> tail = d))"
  unfolding appendWAL_def
proof (rule triple_tame_seq [OF meta_stable_phases(2)])
  let ?k = "\<lambda>opts. if o_Durability opts = DurabilityFsyncWAL then
         andThen (update (\<lambda>s. s\<lparr>st_walUnsyncedUpdates := st_walUnsyncedUpdates s + 1\<rparr>)) (\<lambda>_.
         andThen (state_of st_walUnsyncedUpdates) (\<lambda>unsynced.
           if unsynced \<ge> o_WALGroupCommitUpdates opts then
             syncWAL (if o_WALGroupCommitUpdates opts = 1 then walForegroundFlush else walGroupFlush)
           else ret ()))
       else ret ()"
  have t: "tame g (meta_paths g) (andThen (state_of st_options) ?k)" by (intro tames)
  show "triple (Armed g recs [] F) (andThen (on_world (os_write walPath d)) (\<lambda>_. andThen (state_of st_options) ?k))
      (\<lambda>r s. \<exists>tail. Armed g recs tail F s \<and> (r = Inr () \<longrightarrow> tail = d))"
  proof (rule triple_andThen [OF append_armed])
    show "triple (\<lambda>s. \<exists>tail. Armed g recs tail F s \<and> (Inr x = Inr () \<longrightarrow> tail = d)) (andThen (state_of st_options) ?k)
      (\<lambda>r s. \<exists>tail. Armed g recs tail F s \<and> (r = Inr () \<longrightarrow> tail = d))" for x
      by (rule triple_conseq [OF triple_meta [OF meta_stable_phases(2) [of g recs d F] t]]) auto
  qed auto
qed (auto intro!: tames)

lemma rollback_armed:
  "triple (Armed g recs tail F) (rollbackWAL (of_nat (length (wal_bytes g recs))))
     (\<lambda>r s. \<exists>tail. Armed g recs tail F s \<and> (r = Inr () \<longrightarrow> tail = []))"
proof -
  let ?b = "of_nat (length (wal_bytes g recs)) :: uint64" and ?Q = "\<lambda>r s. \<exists>tail. Armed g recs tail F s \<and> (r = Inr () \<longrightarrow> tail = [])"
  have trunc: "triple (Armed g recs tail F) (on_world (os_truncate walPath (unat ?b))) ?Q"
  proof (rule tripleI)
    fix s r s' assume a: "Armed g recs tail F s" and e: "on_world (os_truncate walPath (unat ?b)) s = (r, s')"
    obtain w' where w: "os_truncate walPath (unat ?b) (st_world s) = (r, w')" "s' = s\<lparr>st_world := w'\<rparr>"
      using e by (auto simp: on_world_def split: prod.splits)
    have f: "frame {walPath} (st_world s) w'" using harmlessD [OF harmless_os_writes(4) w(1)] by blast
    have c: "content (st_world s) walPath = Some (wal_bytes g recs @ tail)" "small (wal_bytes g recs @ tail)"
      using a by (simp_all add: Armed_def armed_def)
    then have u: "unat ?b = length (wal_bytes g recs)" by (intro small_unat [of "wal_bytes g recs @ tail"]) simp_all
    have "content w' walPath = Some (wal_bytes g recs @ tail) \<and> r \<noteq> Inr () \<or> content w' walPath = Some (wal_bytes g recs @ [])"
      using w(1) c(1) unfolding u by (auto simp: os_truncate_def os_call_def Let_def split: if_splits fault.splits option.splits)
    then show "?Q r s'" using wal_step [OF a f] c(2) small_append w(2) by force
  qed
  have after: "triple (Armed g recs [] F) (andThen (on_world (os_noop (OsSeek walPath))) (\<lambda>_. on_world (syncFile walPath))) ?Q"
    by (rule triple_conseq [OF triple_meta [OF meta_stable_phases(2)]]) (auto intro!: tames)
  have step: "triple (Armed g recs tail F) (andThen (on_world (os_truncate walPath (unat ?b)))
      (\<lambda>_. andThen (on_world (os_noop (OsSeek walPath))) (\<lambda>_. on_world (syncFile walPath)))) ?Q"
    by (rule triple_andThen [OF trunc]) (use after in \<open>auto simp: triple_def\<close>)
  show ?thesis unfolding rollbackWAL_def
    by (intro triple_tame_seq [OF meta_stable_phases(2)] tames) (use step in \<open>auto simp: triple_def raise_def\<close>)
qed

section \<open>Reading the intent\<close>

lemma os_stat_reliable:
  assumes "stat_ok w" "p \<in> {intentDirectory, intentPath}" "content w p \<noteq> None \<or> is_dir w p" "os_stat p w = (r, w')"
  shows "r = Inr () \<or> w_halted w'"
proof -
  have "w_oracle w (w_clock w) (OsStat p) = NoFault \<or> (\<exists>k. w_oracle w (w_clock w) (OsStat p) = Halt k)"
    using assms(1,2) by (auto simp: stat_ok_def)
  then show ?thesis using assms(3,4) by (auto simp: os_stat_def os_call_def Let_def split: if_splits)
qed

lemma Armed_dirs:
  assumes "Armed g recs tail F s"
  shows "is_dir (st_world s) intentDirectory" "\<not> is_dir (st_world s) intentPath" "content (st_world s) intentPath \<noteq> None"
  using assms by (auto simp: Armed_def base_def wf_world_def armed_def intentPath_def intentDirectory_def)

text \<open>While an intent is published, asking for it says so, unless the process has halted or such a call can fail.\<close>

lemma stat_armed:
  assumes "p \<in> {intentDirectory, intentPath}"
  shows "triple (Armed g recs tail F) (on_world (os_stat p)) (\<lambda>r s. Armed g recs tail F s \<and> (r = Inr () \<or> lost s))"
proof (rule tripleI)
  fix s r s' assume a: "Armed g recs tail F s" and e: "on_world (os_stat p) s = (r, s')"
  have "Armed g recs tail F s'" using tripleD [OF triple_meta [OF meta_stable_phases(2) tame_reads(1)] a e] .
  moreover have "stat_ok (st_world s') = stat_ok (st_world s)"
    by (rule sframe_stat_ok [OF tameD [OF tame_reads(1) Armed_geometry [OF a] e]])
  then have "r = Inr () \<or> lost s'"
    using os_stat_reliable [of "st_world s" p r "st_world s'"] e assms Armed_dirs [OF a]
    by (auto simp: on_world_def lost_def dead_def split: prod.splits)
  ultimately show "Armed g recs tail F s' \<and> (r = Inr () \<or> lost s')" by blast
qed

lemma andThen_lift [simp]: "andThen (lift_result (Inr x)) f = f x"
  by (simp add: fun_eq_iff andThen_def catch_def lift_result_def)

lemma lost_armed: "tame g (meta_paths g) m \<Longrightarrow> triple (\<lambda>s. Armed g recs tail F s \<and> lost s) m (\<lambda>_ s. Armed g recs tail F s \<and> lost s)"
  by (rule triple_meta [OF meta_stable_lost [OF meta_stable_phases(2)]])

lemma inspect_armed:
  "triple (Armed g recs tail F) (inspectIntentDirectory False)
     (\<lambda>r s. Armed g recs tail F s \<and> (r = Inr (intentDirectory, intentPath, False) \<or> lost s))"
  unfolding inspectIntentDirectory_def safeIntentPaths_eq andThen_lift prod.case
proof (rule triple_catch [OF stat_armed])
  let ?Q = "\<lambda>r s. Armed g recs tail F s \<and> (r = Inr (intentDirectory, intentPath, False) \<or> lost s)"
  show "triple (\<lambda>s. Armed g recs tail F s \<and> (Inl e = Inr () \<or> lost s)) (if errors_is e ErrNotExist then
          (if \<not> False then ret (intentDirectory, intentPath, False)
           else andThen (on_world (os_mkdir intentDirectory)) (\<lambda>_. ret (intentDirectory, intentPath, True))) else raise e) ?Q" for e
    by (rule triple_conseq [OF lost_armed]) (auto intro!: tames)
  show "triple (\<lambda>s. Armed g recs tail F s \<and> (Inr x = Inr () \<or> lost s)) (andThen (state_of (\<lambda>s. is_dir (st_world s) intentDirectory))
          (\<lambda>isDir. if \<not> isDir then raise [ErrCorruptIntent] else ret (intentDirectory, intentPath, False))) ?Q" for x
    using Armed_dirs(1) by (auto simp: triple_def andThen_def catch_def state_of_def ret_def raise_def)
qed simp

lemma intentExists_armed:
  "triple (Armed g recs tail F) intentExists (\<lambda>r s. Armed g recs tail F s \<and> (r = Inr True \<or> lost s))"
  unfolding intentExists_def
proof (rule triple_andThen [OF inspect_armed])
  let ?k = "\<lambda>path. catch (on_world (os_stat path)) (\<lambda>err. if errors_is err ErrNotExist then ret False else raise err)
       (\<lambda>_. andThen (state_of (\<lambda>s. is_dir (st_world s) path)) (\<lambda>isDir. if isDir then raise [ErrCorruptIntent] else ret True))"
  let ?Q = "\<lambda>r s. Armed g recs tail F s \<and> (r = Inr True \<or> lost s)"
  have t: "tame g (meta_paths g) (case x of (_, path, _) \<Rightarrow> ?k path)" for x :: "path \<times> path \<times> bool" by (intro tames)
  have live: "triple (Armed g recs tail F) (?k intentPath) ?Q"
  proof (rule triple_catch [OF stat_armed])
    show "triple (\<lambda>s. Armed g recs tail F s \<and> (Inl e = Inr () \<or> lost s)) (if errors_is e ErrNotExist then ret False else raise e) ?Q" for e
      by (rule triple_conseq [OF lost_armed]) (auto intro!: tames)
    show "triple (\<lambda>s. Armed g recs tail F s \<and> (Inr x = Inr () \<or> lost s)) (andThen (state_of (\<lambda>s. is_dir (st_world s) intentPath))
        (\<lambda>isDir. if isDir then raise [ErrCorruptIntent] else ret True)) ?Q" for x
      using Armed_dirs(2) by (auto simp: triple_def andThen_def catch_def state_of_def ret_def raise_def)
  qed simp
  show "triple (\<lambda>s. Armed g recs tail F s \<and> (Inr x = Inr (intentDirectory, intentPath, False) \<or> lost s)) (case x of (_, path, _) \<Rightarrow> ?k path) ?Q" for x
  proof (cases "x = (intentDirectory, intentPath, False)")
    case True
    then show ?thesis using live by (auto simp: triple_def)
  next
    case False
    then show ?thesis by (intro triple_conseq [OF lost_armed [OF t [of x]]]) auto
  qed
qed auto

text \<open>What the intent file says decides what \<^verbatim>\<open>readIntent\<close> returns.\<close>

lemma os_read_content: "os_read p w = (Inr d, w') \<Longrightarrow> content w p = Some d"
  by (auto simp: os_read_def os_call_def Let_def split: if_splits fault.splits option.splits)

lemma readIntent_Inr:
  assumes "readIntent s = (Inr (st, b), s')" "st_geometry s = g"
  shows "content (st_world s) intentPath = Some (encodeIntent st b)"
proof -
  obtain x t where e: "intentExists s = (x, t)" by fastforce
  have "sframe {} s t" using tameD [OF tame_intentExists assms(2) e] .
  then have c: "content (st_world t) intentPath = content (st_world s) intentPath" using sframe_content [of "{}" s t intentPath] by simp
  obtain d t' where "x = Inr True" "on_world (os_read intentPath) t = (Inr d, t')" "decodeIntent d = Inr (st, b)"
    using assms(1) e by (auto simp: readIntent_def safeIntentPaths_eq andThen_def catch_def lift_result_def raise_def
        split: sum.splits prod.splits if_splits)
  then show ?thesis using c os_read_content [of intentPath "st_world t" d] by (auto simp: on_world_def decodeIntent_iff split: prod.splits)
qed

lemma encodeIntent_inject: "encodeIntent st b = encodeIntent st' b' \<longleftrightarrow> st = st' \<and> b = b'"
  by (metis decode_encodeIntent prod.inject sum.inject(2))

lemma readIntent_armed:
  "triple (Armed g recs tail F) readIntent (\<lambda>r s. Armed g recs tail F s \<and> (\<forall>st b. r = Inr (st, b) \<longrightarrow> st = intentRollback))"
proof (rule tripleI)
  fix s r s' assume a: "Armed g recs tail F s" and e: "readIntent s = (r, s')"
  have "Armed g recs tail F s'" using tripleD [OF triple_meta [OF meta_stable_phases(2) tame_readIntent] a e] .
  then show "Armed g recs tail F s' \<and> (\<forall>st b. r = Inr (st, b) \<longrightarrow> st = intentRollback)"
    using readIntent_Inr [of s _ _ s' g] e a by (auto simp: Armed_def armed_def rollback_mark_def encodeIntent_inject base_def)
qed

lemma readIntent_quiet:
  "triple (Quiet g recs F) readIntent (\<lambda>r s. Quiet g recs F s \<and> (\<forall>st b. r = Inr (st, b) \<longrightarrow> st = intentCommitted))"
proof (rule tripleI)
  fix s r s' assume a: "Quiet g recs F s" and e: "readIntent s = (r, s')"
  have "Quiet g recs F s'" using tripleD [OF triple_meta [OF meta_stable_phases(1) tame_readIntent] a e] .
  then show "Quiet g recs F s' \<and> (\<forall>st b. r = Inr (st, b) \<longrightarrow> st = intentCommitted)"
    using readIntent_Inr [of s _ _ s' g] e a by (auto simp: Quiet_def quiet_def encodeIntent_inject base_def)
qed

section \<open>Rejected writes\<close>

text \<open>
  A write was taken back: the directory is quiet again, or still armed and the store accepts no further write, or armed at the
  end of the log because a failing \<^verbatim>\<open>Lstat\<close> hid the intent.
\<close>

definition Down :: "Geometry \<Rightarrow> walRecord list \<Rightarrow> (Coord \<Rightarrow> bytes option) \<Rightarrow> Store \<Rightarrow> bool" where
  "Down g recs F s \<longleftrightarrow> Quiet g recs F s \<or> (\<exists>tail. Armed g recs tail F s \<and> dead s) \<or> (Armed g recs [] F s \<and> \<not> stat_ok (st_world s))"

lemma meta_stable_Down: "meta_stable g (Down g recs F)"
  unfolding Down_def by (intro meta_stable_or meta_stable_ex meta_stable_dead meta_stable_unstat meta_stable_phases)

definition refused :: "Geometry \<Rightarrow> walRecord list \<Rightarrow> (Coord \<Rightarrow> bytes option) \<Rightarrow> 'a result \<Rightarrow> Store \<Rightarrow> bool" where
  "refused g recs F r s \<longleftrightarrow> Down g recs F s \<and> (\<exists>e. r = Inl e)"

lemma raise_refused: "(\<And>s. P s \<Longrightarrow> Down g recs F s) \<Longrightarrow> triple P (raise e) (refused g recs F)"
  by (auto simp: triple_def raise_def refused_def)

lemma poison_dead:
  assumes "\<And>s. P s \<Longrightarrow> Quiet g recs F s \<or> (\<exists>tail. Armed g recs tail F s)"
  shows "triple P (andThen (poisonDurability e) (\<lambda>_. raise_joined c)) (refused g recs F)"
proof (rule tripleI)
  fix s r s' assume P: "P s" and m: "andThen (poisonDurability e) (\<lambda>_. raise_joined c) s = (r, s')"
  let ?t = "if st_poisoned s = None then s\<lparr>st_poisoned := Some e\<rparr> else s"
  have p: "poisonDurability e s = (Inr (), ?t)" by (simp add: poisonDurability_def update_def)
  then have m': "raise_joined c ?t = (r, s')" using m by (simp add: andThen_def catch_def)
  then have s': "s' = ?t" "\<exists>e. r = Inl e"
    by (auto simp: raise_joined_def catch_def checkDurabilityHealthy_def raise_def split: option.splits prod.splits sum.splits if_splits)
  have core: "same_core g s ?t" by (simp add: same_core_def)
  have "dead ?t" by (simp add: dead_def)
  then show "refused g recs F r s'"
    using assms [OF P] core_Quiet [OF core] core_Armed [OF core] s' unfolding refused_def Down_def by metis
qed

lemma rollbackRejected_armed:
  "triple (\<lambda>s. \<exists>tail. Armed g recs tail F s) (rollbackRejectedWrite (of_nat (length (wal_bytes g recs))) u cause) (refused g recs F)"
  unfolding rollbackRejectedWrite_def
proof (rule triple_catch [where R = "\<lambda>r s. \<exists>tail. Armed g recs tail F s \<and> (r = Inr () \<longrightarrow> tail = [])"])
  show "triple (\<lambda>s. \<exists>tail. Armed g recs tail F s) (rollbackWAL (of_nat (length (wal_bytes g recs))))
      (\<lambda>r s. \<exists>tail. Armed g recs tail F s \<and> (r = Inr () \<longrightarrow> tail = []))"
    using rollback_armed by (fastforce simp: triple_def)
  show "triple (\<lambda>s. \<exists>tail. Armed g recs tail F s \<and> (Inl e = Inr () \<longrightarrow> tail = [])) (andThen (poisonDurability e) (\<lambda>_. raise_joined cause)) (refused g recs F)" for e
    by (rule poison_dead) auto
  have upd: "triple (Armed g recs [] F) (update (\<lambda>s. s\<lparr>st_walUnsyncedUpdates := u\<rparr>)) (\<lambda>r s. Armed g recs [] F s \<and> r = Inr ())"
    using triple_meta [OF meta_stable_phases(2) [of g recs "[]" F] tame_set_unsynced [where f = "\<lambda>_. u"]] by (auto simp: triple_def update_def)
  have clr: "triple (Armed g recs [] F) (catch clearIntent (\<lambda>err. andThen (poisonDurability err) (\<lambda>_. raise_joined cause)) (\<lambda>_. raise cause)) (refused g recs F)"
    by (rule triple_catch [OF clear_armed]) (auto intro!: poison_dead raise_refused simp: Down_def)
  show "triple (\<lambda>s. \<exists>tail. Armed g recs tail F s \<and> (Inr x = Inr () \<longrightarrow> tail = []))
      (andThen (update (\<lambda>s. s\<lparr>st_walUnsyncedUpdates := u\<rparr>)) (\<lambda>_. catch clearIntent
        (\<lambda>err. andThen (poisonDurability err) (\<lambda>_. raise_joined cause)) (\<lambda>_. raise cause))) (refused g recs F)" for x
    by (rule triple_conseq [OF triple_andThen [OF upd]]) (use clr in \<open>auto simp: triple_def\<close>)
qed

lemma abandon_refused:
  "triple (\<lambda>s. Quiet g recs F s \<or> Armed g recs [] F s) (abandon_rollback_intent err) (refused g recs F)"
  unfolding abandon_rollback_intent_def
proof (rule triple_catch [where R = "\<lambda>r s. Quiet g recs F s \<or> Armed g recs [] F s \<and> (r = Inr True \<or> lost s)"])
  have "triple (Quiet g recs F) intentExists (\<lambda>_. Quiet g recs F)" by (rule triple_meta [OF meta_stable_phases(1)]) (intro tames)
  then show "triple (\<lambda>s. Quiet g recs F s \<or> Armed g recs [] F s) intentExists
      (\<lambda>r s. Quiet g recs F s \<or> Armed g recs [] F s \<and> (r = Inr True \<or> lost s))"
    using intentExists_armed [of g recs "[]" F] by (auto simp: triple_def)
  let ?c = "catch clearIntent (\<lambda>clearErr. andThen (poisonDurability clearErr) (\<lambda>_. raise_joined err)) (\<lambda>_. raise err) :: 'a sop"
  have "triple (Quiet g recs F) ?c (refused g recs F)"
    by (rule triple_catch [OF clear_quiet]) (auto intro!: poison_dead raise_refused simp: Down_def)
  moreover have "triple (Armed g recs [] F) ?c (refused g recs F)"
    by (rule triple_catch [OF clear_armed]) (auto intro!: poison_dead raise_refused simp: Down_def)
  ultimately show "triple (\<lambda>s. Quiet g recs F s \<or> Armed g recs [] F s \<and> (Inr x = Inr True \<or> lost s)) (if x then ?c else raise err) (refused g recs F)" for x
    by (cases x) (auto simp: triple_def raise_def refused_def Down_def lost_def)
qed (auto simp: triple_def raise_def refused_def Down_def lost_def)

end
