(* ===== verification/StorePublish.thy ===== *)
theory StorePublish
  imports StoreCommit
begin

text \<open>
  Publication of committed chunks to their files, and checkpoints.  Both rewrite chunk files that the log still covers;
  a checkpoint truncates the log only after every record has reached its file.  Whatever fails, the abstract contents of the
  directory stay what they were (\<open>retry_inv\<close>).
\<close>

section \<open>Chunk files the log covers\<close>

lemma Quiet_covered:
  assumes "Quiet g recs F s" "sframe ({chunkPath g c} \<union> meta_paths g) s s'" "last_state recs c \<noteq> None"
  shows "Quiet g recs F s'"
proof -
  have k: "content (st_world s') p = content (st_world s) p"
    if "p = walPath \<or> p = intentPath \<or> (\<exists>d. p = chunkPath g d \<and> d \<noteq> c)" for p
    using that by (intro sframe_content [OF assms(2)]) (auto dest: meta_core_paths)
  have "content (st_world s') (chunkPath g d) = content (st_world s) (chunkPath g d)" if "last_state recs d = None" for d
    using that assms(3) by (intro k) auto
  then show ?thesis using assms(1) sframe_base [OF assms(2)] k [of walPath] k [of intentPath]
    by (simp add: Quiet_def quiet_def agree_def)
qed

lemma tame_persistChunk: "tame g ({chunkPath g c} \<union> meta_paths g) (persistChunk c p q b)"
  unfolding persistChunk_def Let_def
  by (rule tame_andThen_state) (intro tames tame_writeAtomic | simp)+

lemma triple_covered:
  assumes "tame g ({chunkPath g c} \<union> meta_paths g) m" "last_state recs c \<noteq> None"
  shows "triple (\<lambda>s. Quiet g recs F s \<and> Q (st_pending s)) m (\<lambda>_ s. Quiet g recs F s \<and> Q (st_pending s))"
proof (rule tripleI)
  fix s r s' assume q: "Quiet g recs F s \<and> Q (st_pending s)" and m: "m s = (r, s')"
  have "sframe ({chunkPath g c} \<union> meta_paths g) s s'" using tameD [OF assms(1) _ m] q Quiet_geometry by blast
  then show "Quiet g recs F s' \<and> Q (st_pending s')" using Quiet_covered q assms(2) sframe_pending by metis
qed

section \<open>Publication\<close>

lemma pend_ok_Cons: "pend_ok recs ((c, p) # rest) \<Longrightarrow> pend_ok recs rest \<and> last_state recs c = Some (pp_payload p, pp_presence p) \<and> AList.delete c ((c, p) # rest) = rest"
proof -
  assume a: "pend_ok recs ((c, p) # rest)"
  then have "c \<notin> fst ` set rest" by (simp add: pend_ok_def)
  then have "AList.delete c rest = rest" by (rule AList.delete_id)
  then show ?thesis using a by (simp add: pend_ok_def)
qed

lemma publish_loop_quiet:
  "triple (\<lambda>s. Quiet g recs F s \<and> pend_ok recs (st_pending s) \<and> st_pending s = ps) (publish_loop b ps)
     (\<lambda>r s. Quiet g recs F s \<and> pend_ok recs (st_pending s) \<and> (r = Inr () \<longrightarrow> st_pending s = []))"
proof (induction ps)
  case Nil
  show ?case by (auto simp: triple_def ret_def)
next
  case (Cons e rest)
  obtain c p where e: "e = (c, p)" by fastforce
  let ?P = "\<lambda>s. Quiet g recs F s \<and> pend_ok recs (st_pending s) \<and> st_pending s = e # rest"
  let ?Q = "\<lambda>r s. Quiet g recs F s \<and> pend_ok recs (st_pending s) \<and> (r = Inr () \<longrightarrow> st_pending s = [])"
  show ?case
  proof (cases "pend_ok recs (e # rest)")
    case False
    then show ?thesis by (auto simp: triple_def)
  next
    case True
    note ok = pend_ok_Cons [OF True [unfolded e]]
    have rep: "triple ?P (andThen (reportPostCommitFailure ev) (\<lambda>_. raise err)) ?Q" for ev err
      using triple_meta [OF meta_stable_pending [OF meta_stable_phases(1) [of g recs F], where Q = "\<lambda>ps. pend_ok recs ps \<and> ps = e # rest"]]
      by (auto simp: triple_def andThen_def catch_def reportPostCommitFailure_def update_def raise_def Quiet_def base_def)
    have upd: "triple ?P (update (\<lambda>s. s\<lparr>st_pending := AList.delete c (st_pending s)\<rparr>))
        (\<lambda>r s. Quiet g recs F s \<and> pend_ok recs (st_pending s) \<and> st_pending s = rest \<and> r = Inr ())"
      using ok e by (auto simp: triple_def update_def Quiet_def base_def)
    have fin: "triple ?P (andThen (update (\<lambda>s. s\<lparr>st_pending := AList.delete c (st_pending s)\<rparr>)) (\<lambda>_. publish_loop b rest)) ?Q"
      by (rule triple_andThen [OF upd]) (use Cons.IH in \<open>auto simp: triple_def\<close>)
    have chunk: "triple ?P (persistChunk c (pp_payload p) (pp_presence p) b) (\<lambda>_. ?P)"
      using triple_covered [OF tame_persistChunk, where recs = recs and F = F and Q = "\<lambda>ps. pend_ok recs ps \<and> ps = e # rest"] ok by simp
    have ver: "triple ?P (persistChunkVersion c (pp_version p) b) (\<lambda>_. ?P)"
      using triple_meta [OF meta_stable_pending [OF meta_stable_phases(1) [of g recs F], where Q = "\<lambda>ps. pend_ok recs ps \<and> ps = e # rest"]
          tame_persistChunkVersion] by simp
    show ?thesis unfolding publish_loop.simps e prod.case Let_def
      using triple_catch [OF ver rep triple_catch [OF chunk rep fin]] e by simp
  qed
qed

section \<open>Empty chunks\<close>

lemma tame_andThen_res:
  assumes "tame g X m" "\<And>x s s'. st_geometry s = g \<Longrightarrow> m s = (Inr x, s') \<Longrightarrow> tame g X (f x)"
  shows "tame g X (andThen m f)"
  unfolding tame_def
proof (intro allI impI)
  fix s r s' assume g: "st_geometry s = g" and c: "andThen m f s = (r, s')"
  obtain a t where m: "m s = (a, t)" by fastforce
  have t: "sframe X s t" using tameD [OF assms(1) g m] .
  have gt: "st_geometry t = g" using t g by (simp add: sframe_def)
  show "sframe X s s'"
  proof (cases a)
    case (Inl e)
    then show ?thesis using c m t by (simp add: andThen_def catch_def raise_def)
  next
    case (Inr x)
    then have "f x t = (r, s')" using c m by (simp add: andThen_def catch_def)
    from tameD [OF assms(2) [OF g m [unfolded Inr]] gt this] t show ?thesis using sframe_trans by blast
  qed
qed

lemma on_world_temporary:
  assumes "on_world (createTemporaryFile d (chunkTemporaryPrefix @ kind)) s = (Inr t, s')"
  shows "temporary t"
proof -
  obtain w' where "createTemporaryFile d (chunkTemporaryPrefix @ kind) (st_world s) = (Inr t, w')"
    using assms by (auto simp: on_world_def split: prod.splits)
  from createTemporaryFile_eff [OF this] show ?thesis by blast
qed

lemma tame_createTemporaryFile: "tame g X (on_world (createTemporaryFile d (chunkTemporaryPrefix @ kind)))"
proof (rule tame_on_world)
  show "harmless X (createTemporaryFile d (chunkTemporaryPrefix @ kind))"
    unfolding harmless_def using createTemporaryFile_eff frame_mono by blast
qed

text \<open>The part of \<^verbatim>\<open>collectEmptyChunk\<close> after the tombstone was made.\<close>

definition bury :: "Coord \<Rightarrow> path \<Rightarrow> path \<Rightarrow> unit sop" where
  "bury coord path t =
     andThen (pendingSync_delete path) (\<lambda>_.
     andThen (on_world (commit_directory (butlast path))) (\<lambda>_.
     andThen (cache_forget coord) (\<lambda>_.
     catch (on_world (os_remove t)) (\<lambda>err. if errors_is err ErrNotExist then ret () else raise err) ret)))"

lemma tame_bury: "temporary t \<Longrightarrow> tame g X (bury c p t)"
  unfolding bury_def by (intro tames tame_on_world harmless_os_writes) simp_all

definition tombstone :: "Coord \<Rightarrow> path \<Rightarrow> path \<Rightarrow> unit sop" where
  "tombstone coord path t =
     catch (on_world (os_noop (OsClose t))) (\<lambda>err. andThen (ignore (on_world (os_remove t))) (\<lambda>_. raise err)) (\<lambda>_.
     catch (on_world (replaceFile path t)) (\<lambda>err. andThen (ignore (on_world (os_remove t))) (\<lambda>_. raise err)) (\<lambda>_.
     bury coord path t))"

lemma tame_tombstone: "temporary t \<Longrightarrow> p \<in> X \<Longrightarrow> tame g X (tombstone c p t)"
  unfolding tombstone_def replaceFile_eq
  by (intro tames tame_on_world harmless_os_writes harmless_os_rename frames tame_bury) simp_all

lemma collectEmptyChunk_eq:
  "collectEmptyChunk coord = andThen (state_of (\<lambda>s. chunkPath (st_geometry s) coord)) (\<lambda>path.
     catch (on_world (os_stat path))
       (\<lambda>err. if errors_is err ErrNotExist then
                andThen (on_world (commit_directory (butlast path))) (\<lambda>_.
                andThen (pendingSync_delete path) (\<lambda>_. cache_forget coord))
              else raise err)
       (\<lambda>_. andThen (on_world (createTemporaryFile (butlast path) (chunkTemporaryPrefix @ ''gc-''))) (tombstone coord path)))"
  by (simp add: collectEmptyChunk_def Let_def tombstone_def [abs_def] bury_def)

lemma tame_collectEmptyChunk: "tame g ({chunkPath g c} \<union> meta_paths g) (collectEmptyChunk c)"
  unfolding collectEmptyChunk_eq
proof (rule tame_andThen_state)
  fix s assume "st_geometry s = g"
  then show "tame g ({chunkPath g c} \<union> meta_paths g) (catch (on_world (os_stat (chunkPath (st_geometry s) c)))
       (\<lambda>err. if errors_is err ErrNotExist then
                andThen (on_world (commit_directory (butlast (chunkPath (st_geometry s) c)))) (\<lambda>_.
                andThen (pendingSync_delete (chunkPath (st_geometry s) c)) (\<lambda>_. cache_forget c))
              else raise err)
       (\<lambda>_. andThen (on_world (createTemporaryFile (butlast (chunkPath (st_geometry s) c)) (chunkTemporaryPrefix @ ''gc-'')))
          (tombstone c (chunkPath (st_geometry s) c))))"
    by (intro tames tame_andThen_res [OF tame_createTemporaryFile] tame_tombstone) (auto dest: on_world_temporary)
qed

text \<open>After a successful collection the chunk has no file.\<close>

definition absent :: "path \<Rightarrow> Store \<Rightarrow> bool" where
  "absent p s \<longleftrightarrow> content (st_world s) p = None"

lemma tame_absent:
  assumes "tame g {} m" "\<not> temporary p"
  shows "triple (\<lambda>s. st_geometry s = g \<and> absent p s) m (\<lambda>_ s. st_geometry s = g \<and> absent p s)"
proof (rule tripleI)
  fix s r s' assume a: "st_geometry s = g \<and> absent p s" and m: "m s = (r, s')"
  have f: "sframe {} s s'" using tameD [OF assms(1) _ m] a by blast
  then show "st_geometry s' = g \<and> absent p s'" using a sframe_content [OF f _ assms(2)] by (simp add: sframe_def absent_def)
qed

lemma stat_absent:
  assumes "on_world (os_stat p) s = (r, s')"
  shows "r = Inl e \<Longrightarrow> errors_is e ErrNotExist \<Longrightarrow> absent p s'"
  using assms
  by (auto simp: on_world_def absent_def os_stat_def os_call_def Let_def errors_is_def split: prod.splits if_splits fault.splits)

lemma rename_absent:
  assumes "on_world (os_rename p t) s = (Inr (), s')" "p \<noteq> t"
  shows "absent p s'"
  using assms os_rename_content(1) [of p t "st_world s" "Inr ()" "st_world s'"]
  by (auto simp: on_world_def absent_def split: prod.splits)

lemma tombstone_absent:
  assumes "temporary t" "\<not> temporary p"
  shows "triple (\<lambda>s. st_geometry s = g) (tombstone c p t) (\<lambda>r s. r = Inr () \<longrightarrow> absent p s)"
proof -
  have ne: "p \<noteq> t" using assms by blast
  have keep: "triple (\<lambda>s. st_geometry s = g) m (\<lambda>_ s. st_geometry s = g)" if "tame g X m" for X and m :: "unit sop"
  proof (rule tripleI)
    fix s r s' assume "st_geometry s = g" "m s = (r, s')"
    with tameD [OF that this] show "st_geometry s' = g" by (simp add: sframe_def)
  qed
  have ren: "triple (\<lambda>s. st_geometry s = g) (on_world (os_rename p t)) (\<lambda>r s. st_geometry s = g \<and> (r = Inr () \<longrightarrow> absent p s))"
  proof (rule tripleI)
    fix s r s' assume "st_geometry s = g" and m: "on_world (os_rename p t) s = (r, s')"
    moreover have "st_geometry s' = st_geometry s" using m by (auto simp: on_world_def2)
    ultimately show "st_geometry s' = g \<and> (r = Inr () \<longrightarrow> absent p s')" using rename_absent [OF _ ne] by blast
  qed
  have err: "triple P (andThen m (\<lambda>_. raise e)) (\<lambda>r s. r = Inr () \<longrightarrow> absent p s)" for m :: "unit sop" and e P
    by (auto simp: triple_def andThen_def catch_def raise_def split: prod.splits sum.splits)
  have bur: "triple (\<lambda>s. st_geometry s = g \<and> (Inr x = Inr () \<longrightarrow> absent p s)) (bury c p t) (\<lambda>r s. r = Inr () \<longrightarrow> absent p s)" for x
    using tame_absent [OF tame_bury [OF assms(1)] assms(2), of g c p] by (auto simp: triple_def)
  show ?thesis unfolding tombstone_def replaceFile_eq
    by (rule triple_catch [OF keep [OF tame_reads(3)] err triple_catch [OF ren err bur]])
qed

lemma collectEmptyChunk_absent:
  assumes "collectEmptyChunk c s = (Inr (), s')" "st_geometry s = g"
  shows "absent (chunkPath g c) s'"
proof -
  let ?p = "chunkPath g c"
  obtain r1 s1 where 1: "on_world (os_stat ?p) s = (r1, s1)" by fastforce
  have g1: "st_geometry s1 = g" using tameD [OF tame_reads(1) assms(2) 1] assms(2) by (simp add: sframe_def)
  show ?thesis
  proof (cases r1)
    case (Inl e)
    let ?m = "andThen (on_world (commit_directory (butlast ?p))) (\<lambda>_. andThen (pendingSync_delete ?p) (\<lambda>_. cache_forget c))"
    have k: "errors_is e ErrNotExist" "?m s1 = (Inr (), s')"
      using assms 1 Inl by (auto simp: collectEmptyChunk_eq andThen_def catch_def state_of_def raise_def split: if_splits)
    have "tame g {} ?m" by (intro tames)
    from tripleD [OF tame_absent [OF this not_temporary_chunk(1) [of g c]] _ k(2)] stat_absent [OF 1 Inl k(1)] g1
    show ?thesis by blast
  next
    case (Inr u)
    let ?c = "on_world (createTemporaryFile (butlast ?p) (chunkTemporaryPrefix @ ''gc-''))"
    obtain r2 s2 where 2: "?c s1 = (r2, s2)" by fastforce
    obtain t where t: "r2 = Inr t" "tombstone c ?p t s2 = (Inr (), s')"
      using assms 1 Inr 2 by (cases r2) (auto simp: collectEmptyChunk_eq andThen_def catch_def state_of_def raise_def)
    have g2: "st_geometry s2 = g" using tameD [OF tame_createTemporaryFile g1 2] g1 by (simp add: sframe_def)
    from tripleD [OF tombstone_absent [OF on_world_temporary [OF 2 [unfolded t(1)]] not_temporary_chunk(1)] g2 t(2)]
    show ?thesis by simp
  qed
qed

section \<open>One record of a checkpoint\<close>

lemma tame_persistCheckpointChunk: "tame g ({chunkPath g c} \<union> meta_paths g) (persistCheckpointChunk c p q b)"
proof (cases "emptyPresence q")
  case True
  then show ?thesis using tame_collectEmptyChunk by (simp add: persistCheckpointChunk_def)
next
  case False
  then show ?thesis unfolding persistCheckpointChunk_def Let_def
    by (auto intro!: tame_andThen_state tames tame_writeAtomic)
qed

lemma wf_record_chunk:
  assumes "wf_geometry g" "wf_record g r"
  obtains ch where "wf_chunk ch" "chunk_geometry ch = g" "chunk_payload ch = wal_payload r" "chunk_presence ch = wal_presence r"
  using assms ChunkFromState_Inr unfolding wf_record_def by metis

lemma on_world_writeAtomic_Inr:
  "on_world (writeAtomic p d b) s = (Inr (), s') \<Longrightarrow> \<not> temporary p \<Longrightarrow> content (st_world s') p = Some d"
  using writeAtomic_eff(3) [of p d b "st_world s" "Inr ()" "st_world s'"] by (auto simp: on_world_def split: prod.splits)

lemma andThen_Inr: "andThen m f s = (Inr y, s') \<longleftrightarrow> (\<exists>x t. m s = (Inr x, t) \<and> f x t = (Inr y, s'))"
  by (auto simp: andThen_def catch_def raise_def split: prod.splits sum.splits)

text \<open>A chunk file that holds the state \<open>v\<close>.\<close>

definition filed :: "Geometry \<Rightarrow> Coord \<Rightarrow> chunk_state \<Rightarrow> Store \<Rightarrow> bool" where
  "filed g c v s \<longleftrightarrow> file_state g (chunk_files g (st_world s)) c = Inr (visible v)"

lemma filed_keep: "filed g c v s \<Longrightarrow> content (st_world s') (chunkPath g c) = content (st_world s) (chunkPath g c) \<Longrightarrow> filed g c v s'"
  by (simp add: filed_def file_state_def chunk_files_def)

lemma checkpoint_chunk_filed:
  assumes "persistCheckpointChunk (wal_coord r) (wal_payload r) (wal_presence r) b s = (Inr (), s')" "st_geometry s = g"
    and wf: "wf_geometry g" "wf_record g r"
  shows "filed g (wal_coord r) (record_state r) s'"
proof (cases "emptyPresence (wal_presence r)")
  case True
  then have "absent (chunkPath g (wal_coord r)) s'"
    using collectEmptyChunk_absent assms(1,2) by (simp add: persistCheckpointChunk_def)
  then show ?thesis using True by (simp add: filed_def absent_def file_state_def chunk_files_def visible_def record_state_def)
next
  case False
  obtain ch where ch: "wf_chunk ch" "chunk_geometry ch = g" "chunk_payload ch = wal_payload r" "chunk_presence ch = wal_presence r"
    using wf_record_chunk [OF wf] .
  define e where "e = encodeCheckpointState (compression_of (o_CheckpointCompression (st_options s))) g (wal_coord r) (wal_payload r) (wal_presence r)"
  let ?p = "chunkPath g (wal_coord r)"
  obtain t1 t2 where t: "on_world (writeAtomic ?p e b) t1 = (Inr (), t2)" "(if \<not> b then pendingSync_add ?p else ret ()) t2 = (Inr (), s')"
    using assms(1,2) False
    by (auto simp: persistCheckpointChunk_def andThen_Inr state_of_def Let_def e_def)
  have "content (st_world t2) ?p = Some e" using on_world_writeAtomic_Inr [OF t(1)] by simp
  then have "content (st_world s') ?p = Some e"
    using t(2) by (auto simp: pendingSync_add_def update_def ret_def split: if_splits)
  moreover have "decode g (wal_coord r) e = Inr ch"
    using decode_encodeCheckpointState [OF ch(1), of "wal_coord r"] ch by (simp add: e_def)
  ultimately show ?thesis using ch by (simp add: filed_def file_state_def chunk_files_def record_state_def)
qed

section \<open>Checkpoints\<close>

text \<open>The records \<open>dn\<close> of the log have reached their files.\<close>

definition replayed :: "Geometry \<Rightarrow> walRecord list \<Rightarrow> (Coord \<Rightarrow> bytes option) \<Rightarrow> walRecord list \<Rightarrow> Store \<Rightarrow> bool" where
  "replayed g recs F dn s \<longleftrightarrow> Quiet g recs F s \<and> st_pending s = [] \<and> (\<forall>c v. last_state dn c = Some v \<longrightarrow> filed g c v s)"

text \<open>An operation that brings a record to its chunk file.\<close>

definition files_record :: "Geometry \<Rightarrow> (walRecord \<Rightarrow> unit sop) \<Rightarrow> bool" where
  "files_record g visit \<longleftrightarrow> (\<forall>r. tame g ({chunkPath g (wal_coord r)} \<union> meta_paths g) (visit r)) \<and>
     (\<forall>r s s'. visit r s = (Inr (), s') \<longrightarrow> st_geometry s = g \<longrightarrow> wf_geometry g \<longrightarrow> wf_record g r \<longrightarrow> filed g (wal_coord r) (record_state r) s')"

lemma files_record_read:
  assumes "files_record g visit" "\<And>r. tame g (meta_paths g) (m r)"
  shows "files_record g (\<lambda>r. andThen (m r) (\<lambda>_. visit r))"
  unfolding files_record_def
proof (intro conjI allI impI)
  fix r
  show "tame g ({chunkPath g (wal_coord r)} \<union> meta_paths g) (andThen (m r) (\<lambda>_. visit r))"
    by (intro tame_andThen tame_mono [OF assms(2)]) (use assms(1) in \<open>auto simp: files_record_def\<close>)
  fix s s' assume a: "andThen (m r) (\<lambda>_. visit r) s = (Inr (), s')" "st_geometry s = g" and wf: "wf_geometry g" "wf_record g r"
  obtain x t where t: "m r s = (Inr x, t)" "visit r t = (Inr (), s')" using a(1) by (auto simp: andThen_Inr)
  have "st_geometry t = g" using tameD [OF assms(2) a(2) t(1)] a(2) by (simp add: sframe_def)
  then show "filed g (wal_coord r) (record_state r) s'" using assms(1) t(2) wf unfolding files_record_def by blast
qed

lemma files_record_checkpoint: "files_record g (\<lambda>r. persistCheckpointChunk (wal_coord r) (wal_payload r) (wal_presence r) b)"
  unfolding files_record_def using tame_persistCheckpointChunk checkpoint_chunk_filed by blast

lemma replay_step:
  assumes visit: "files_record g visit" and "wf_record g r" "r \<in> set recs"
  shows "triple (replayed g recs F dn) (visit r)
     (\<lambda>x s. Quiet g recs F s \<and> st_pending s = [] \<and> (x = Inr () \<longrightarrow> replayed g recs F (dn @ [r]) s))"
proof (rule tripleI)
  fix s x s'
  assume rep: "replayed g recs F dn s" and m: "visit r s = (x, s')"
  have q: "Quiet g recs F s" and g: "st_geometry s = g" and p: "st_pending s = []" and wg: "wf_geometry g"
    using rep by (simp_all add: replayed_def Quiet_def base_def)
  have f: "sframe ({chunkPath g (wal_coord r)} \<union> meta_paths g) s s'" using visit g m unfolding files_record_def tame_def by blast
  have cov: "last_state recs (wal_coord r) \<noteq> None" using assms(3) by (auto simp: last_state_None_iff)
  have q': "Quiet g recs F s'" "st_pending s' = []" using Quiet_covered [OF q f cov] sframe_pending [OF f] p by simp_all
  have "replayed g recs F (dn @ [r]) s'" if "x = Inr ()"
  proof -
    have "filed g c v s'" if "last_state (dn @ [r]) c = Some v" for c v
    proof (cases "c = wal_coord r")
      case True
      have "filed g (wal_coord r) (record_state r) s'" using visit m \<open>x = Inr ()\<close> g wg assms(2) unfolding files_record_def by blast
      then show ?thesis using that True by simp
    next
      case False
      then have "content (st_world s') (chunkPath g c) = content (st_world s) (chunkPath g c)"
        using meta_core_paths [of "chunkPath g c" g] by (intro sframe_content [OF f]) auto
      moreover have "filed g c v s" using rep that False unfolding replayed_def by (metis last_state_snoc)
      ultimately show ?thesis by (rule filed_keep [rotated])
    qed
    then show ?thesis using q' by (simp add: replayed_def)
  qed
  then show "Quiet g recs F s' \<and> st_pending s' = [] \<and> (x = Inr () \<longrightarrow> replayed g recs F (dn @ [r]) s')" using q' by blast
qed

lemma meta_stable_replayed: "meta_stable g (replayed g recs F dn)"
  unfolding meta_stable_def
proof (intro conjI allI impI)
  fix s s' assume r: "replayed g recs F dn s" and f: "sframe (meta_paths g) s s'"
  have "content (st_world s') (chunkPath g c) = content (st_world s) (chunkPath g c)" for c
    using meta_core_paths [of "chunkPath g c" g] by (intro sframe_content [OF f]) auto
  then show "replayed g recs F dn s'"
    using r core_Quiet [OF sframe_meta_core [OF f]] sframe_pending [OF f] filed_keep by (simp add: replayed_def) blast
qed (simp add: replayed_def Quiet_def base_def)

lemma replay_loop:
  assumes "files_record g visit" "\<forall>r\<in>set rs. wf_record g r" "set rs \<subseteq> set recs"
  shows "triple (replayed g recs F dn) (for_each rs visit)
     (\<lambda>x s. Quiet g recs F s \<and> st_pending s = [] \<and> (x = Inr () \<longrightarrow> replayed g recs F (dn @ rs) s))"
  using assms(2,3)
proof (induction rs arbitrary: dn)
  case Nil
  show ?case by (auto simp: triple_def ret_def replayed_def)
next
  case (Cons r rs)
  show ?case unfolding for_each.simps
    by (rule triple_andThen [OF replay_step [OF assms(1)]]) (use Cons.IH [of "dn @ [r]"] Cons.prems in \<open>auto simp: triple_def\<close>)
qed

lemma replayed_view:
  assumes "replayed g recs F recs s"
  shows "disk_view g [] (chunk_files g (st_world s)) = disk_view g recs F"
proof
  fix c
  show "disk_view g [] (chunk_files g (st_world s)) c = disk_view g recs F c"
  proof (cases "last_state recs c")
    case None
    then show ?thesis using assms by (simp add: replayed_def Quiet_def agree_def disk_view_def file_state_def chunk_files_def)
  next
    case (Some v)
    then have "filed g c v s" using assms unfolding replayed_def by metis
    then show ?thesis using Some by (simp add: filed_def disk_view_def)
  qed
qed

text \<open>Dropping the records of a replayed log.\<close>

lemma replayed_inv: "Quiet g recs F s \<Longrightarrow> st_pending s = [] \<Longrightarrow> inv g (disk_view g recs F) s"
  by (auto simp: inv_def pend_ok_def)

lemma drop_replayed:
  assumes m: "harmless {walPath} m" "\<And>w r w'. m w = (r, w') \<Longrightarrow> content w' walPath = content w walPath \<or> content w' walPath = Some []"
  shows "triple (replayed g recs F recs) (on_world m) (\<lambda>_. inv g (disk_view g recs F))"
proof (rule tripleI)
  fix s r s' assume rep: "replayed g recs F recs s" and e: "on_world m s = (r, s')"
  obtain w' where w: "m (st_world s) = (r, w')" "s' = s\<lparr>st_world := w'\<rparr>"
    using e by (auto simp: on_world_def split: prod.splits)
  have q: "Quiet g recs F s" "st_pending s = []" using rep by (simp_all add: replayed_def)
  have f: "sframe {walPath} s s'" using harmlessD [OF m(1) w(1)] w(2) by (simp add: sframe_def)
  have b: "base g s'" using sframe_base [OF f] q(1) by (simp add: Quiet_def)
  have same: "content w' p = content (st_world s) p" if "p \<noteq> walPath" "\<not> temporary p" for p
    using sframe_content [OF f] that w(2) by simp
  from m(2) [OF w(1)] show "inv g (disk_view g recs F) s'"
  proof
    assume k: "content w' walPath = content (st_world s) walPath"
    have "same_core g s s'" by (rule sframe_core [OF f]) (use k w(2) in auto)
    from replayed_inv [OF core_Quiet [OF this q(1)]] show ?thesis using sframe_pending [OF f] q(2) by simp
  next
    assume k: "content w' walPath = Some []"
    have "quiet g [] w'" using q(1) k same [of intentPath] by (auto simp: Quiet_def quiet_def wf_records_def wal_bytes_def small_def)
    moreover have "agree g [] (chunk_files g (st_world s)) w'" using same by (simp add: agree_def chunk_files_def)
    ultimately have "Quiet g [] (chunk_files g (st_world s)) s'" using b w(2) by (simp add: Quiet_def)
    moreover have "pend_ok [] (st_pending s')" using sframe_pending [OF f] q(2) by (simp add: pend_ok_def)
    ultimately show ?thesis using replayed_view [OF rep] unfolding inv_def by blast
  qed
qed

lemma truncate_replayed:
  "triple (replayed g recs F recs) (on_world (os_truncate walPath 0)) (\<lambda>_. inv g (disk_view g recs F))"
  by (rule drop_replayed [OF harmless_os_writes(4)])
    (auto simp: os_truncate_def os_call_def Let_def split: if_splits fault.splits option.splits)

lemma clearWAL_inv: "triple (replayed g recs F recs) (clearWAL b) (\<lambda>_. inv g (disk_view g recs F))"
proof -
  let ?I = "inv g (disk_view g recs F)"
  have "triple ?I (andThen (on_world (os_noop (OsSeek walPath))) (\<lambda>_.
     andThen (if b then andThen (on_world (syncFile walPath)) (\<lambda>_. recordWALFlush walCheckpointFlush) else ret ()) (\<lambda>_.
     update (\<lambda>s. s\<lparr>st_walUnsyncedUpdates := 0\<rparr>)))) (\<lambda>_. ?I)"
    by (rule triple_meta [OF meta_stable_inv]) (intro tames)
  then show ?thesis unfolding clearWAL_def
    by (intro triple_tame_seq [OF meta_stable_replayed tame_reads(11)] triple_andThen [OF truncate_replayed])
      (auto simp: replayed_def intro: replayed_inv)
qed

lemma scan_quiet_wal:
  assumes "Quiet g recs F s" "on_world (os_read walPath) s = (Inr d, s')"
  shows "scanWAL g d = (length recs * recordBytes g, recs, None)"
proof -
  have "content (st_world s) walPath = Some d" using assms(2) os_read_content by (auto simp: on_world_def split: prod.splits)
  then show ?thesis using assms(1) scan_wal_bytes by (simp add: Quiet_def quiet_def)
qed

text \<open>A scan of a quiet log visits its records.\<close>

lemma scan_quiet:
  assumes "triple (\<lambda>s. Quiet g recs F s \<and> st_pending s = []) (for_each recs (\<lambda>r. andThen (on_world (os_noop (OsRead walPath))) (\<lambda>_. visit r))) Q"
    and "\<And>e s. Quiet g recs F s \<Longrightarrow> st_pending s = [] \<Longrightarrow> Q (Inl e) s"
    and "\<And>r s. Q r s \<Longrightarrow> Q' (map_sum id (\<lambda>_. (length recs * recordBytes g, recs)) r) s"
  shows "triple (\<lambda>s. Quiet g recs F s \<and> st_pending s = []) (scan_wal visit) Q'"
proof -
  let ?P = "\<lambda>s. Quiet g recs F s \<and> st_pending s = []"
  have P: "meta_stable g ?P" by (rule meta_stable_pending [OF meta_stable_phases(1)])
  have stop: "Q' (Inl e) s" if "?P s" for e s using assms(3) [OF assms(2) [of s e]] that by simp
  have rd: "triple ?P (on_world (os_read walPath)) (\<lambda>x s. ?P s \<and> (\<forall>d. x = Inr d \<longrightarrow> scanWAL g d = (length recs * recordBytes g, recs, None)))"
    using triple_meta [OF P tame_reads(2)] scan_quiet_wal by (fastforce intro!: tripleI dest: tripleD)
  let ?k = "\<lambda>wal. andThen (state_of st_geometry) (\<lambda>g. let (completeBytes, records, err) = scanWAL g wal
       in andThen (for_each records (\<lambda>record. andThen (on_world (os_noop (OsRead walPath))) (\<lambda>_. visit record))) (\<lambda>_.
          case err of Some e \<Rightarrow> raise e | None \<Rightarrow> ret (completeBytes, records)))"
  have "triple (\<lambda>s. ?P s \<and> (\<forall>d. Inr wal = Inr d \<longrightarrow> scanWAL g d = (length recs * recordBytes g, recs, None))) (?k wal) Q'" for wal
  proof (rule tripleI)
    fix s r s' assume p: "?P s \<and> (\<forall>d. Inr wal = Inr d \<longrightarrow> scanWAL g d = (length recs * recordBytes g, recs, None))"
      and m: "?k wal s = (r, s')"
    obtain x t where x: "for_each recs (\<lambda>r. andThen (on_world (os_noop (OsRead walPath))) (\<lambda>_. visit r)) s = (x, t)" by fastforce
    have "st_geometry s = g" using p Quiet_geometry by blast
    then have "r = map_sum id (\<lambda>_. (length recs * recordBytes g, recs)) x \<and> s' = t"
      using m p x by (cases x) (auto simp: andThen_def catch_def state_of_def raise_def ret_def)
    then show "Q' r s'" using assms(3) [OF tripleD [OF assms(1) _ x]] p by simp
  qed
  then show ?thesis unfolding scan_wal_def
    by (intro triple_tame_seq [OF P] tames triple_andThen [OF rd]) (use stop in auto)
qed

lemma checkpoint_scan:
  "triple (\<lambda>s. Quiet g recs F s \<and> st_pending s = []) (scan_wal (\<lambda>r. persistCheckpointChunk (wal_coord r) (wal_payload r) (wal_presence r) b))
     (\<lambda>x s. (Quiet g recs F s \<and> st_pending s = []) \<and> ((\<exists>y. x = Inr y) \<longrightarrow> replayed g recs F recs s))" (is "triple ?P _ _")
proof (cases "wf_records g recs")
  case True
  have "replayed g recs F [] = ?P" by (simp add: fun_eq_iff replayed_def)
  then have "triple ?P (for_each recs (\<lambda>r. andThen (on_world (os_noop (OsRead walPath))) (\<lambda>_. persistCheckpointChunk (wal_coord r) (wal_payload r) (wal_presence r) b)))
      (\<lambda>x s. ?P s \<and> (x = Inr () \<longrightarrow> replayed g recs F recs s))"
    using replay_loop [OF files_record_read [OF files_record_checkpoint [of g b], where m = "\<lambda>_. on_world (os_noop (OsRead walPath))", OF tame_reads(3)], where rs = recs and recs = recs and F = F and dn = "[]"] True by (simp add: wf_records_def conj_assoc)
  from scan_quiet [OF this, where Q' = "\<lambda>x s. ?P s \<and> ((\<exists>y. x = Inr y) \<longrightarrow> replayed g recs F recs s)"] show ?thesis
    by (auto simp: map_sum_def split: sum.splits)
qed (auto simp: triple_def Quiet_def quiet_def)

lemma checkpointWAL_inv:
  "triple (\<lambda>s. Quiet g recs F s \<and> st_pending s = []) checkpointWAL (\<lambda>_. inv g (disk_view g recs F))"
proof -
  let ?P = "\<lambda>s. Quiet g recs F s \<and> st_pending s = []" and ?I = "inv g (disk_view g recs F)"
  have P: "meta_stable g ?P" by (rule meta_stable_pending [OF meta_stable_phases(1)])
  have fin: "triple (replayed g recs F recs) (andThen (clearWAL b) (\<lambda>_. update (\<lambda>s. s\<lparr>st_walRecords := 0, st_walBytes := 0,
      st_checkpointCount := st_checkpointCount s + 1\<rparr>))) (\<lambda>_. ?I)" for b
  proof (rule triple_andThen [OF clearWAL_inv])
    show "triple ?I (update (\<lambda>s. s\<lparr>st_walRecords := 0, st_walBytes := 0, st_checkpointCount := st_checkpointCount s + 1\<rparr>)) (\<lambda>_. ?I)"
      by (rule triple_meta [OF meta_stable_inv]) (rule tame_update, simp)
  qed auto
  show ?thesis unfolding checkpointWAL_def
  proof (rule triple_tame_seq [OF P tame_state_of triple_andThen [OF checkpoint_scan]])
    show "triple (\<lambda>s. ?P s \<and> ((\<exists>y. Inr x = Inr y) \<longrightarrow> replayed g recs F recs s)) (andThen (clearWAL b) (\<lambda>_. update (\<lambda>s. s\<lparr>st_walRecords := 0,
        st_walBytes := 0, st_checkpointCount := st_checkpointCount s + 1\<rparr>))) (\<lambda>_. ?I)" for x :: "nat \<times> walRecord list" and b
      by (rule triple_conseq [OF fin]) auto
  qed (auto intro: replayed_inv)
qed

section \<open>The retry of publications\<close>

text \<open>The store after the runtime has chosen the order of the pending publications: as a map they are the same.\<close>

definition ranged :: "Store \<Rightarrow> Store" where
  "ranged s = s\<lparr>st_pending := range_over (st_world s) (st_pending s)\<rparr>"

lemma pend_ok_ranged: "pend_ok recs (range_over w ps) = pend_ok recs ps"
  by (simp add: pend_ok_def)

lemma inv_ranged: "inv g D s \<Longrightarrow> inv g D (ranged s)"
  using core_Quiet [of g s "ranged s"] by (auto simp: inv_def ranged_def pend_ok_ranged same_core_def)

lemma retry_ranged:
  "retryPendingPublications s =
     andThen (publish_loop (o_Durability (st_options (ranged s)) = DurabilityFsyncCheckpoint) (st_pending (ranged s))) (\<lambda>_.
     andThen (state_of checkpointDue) (\<lambda>due. if due then catch checkpointWAL
         (\<lambda>err. andThen (reportPostCommitFailure ''committed_checkpoint_failed'') (\<lambda>_. raise err)) ret else ret ())) (ranged s)"
  by (simp add: retryPendingPublications_def andThen_def catch_def state_of_def update_def ranged_def)

lemma retry_inv: "triple (inv g D) retryPendingPublications (\<lambda>_. inv g D)"
proof (rule tripleI)
  fix s0 r s' assume i0: "inv g D s0" and m: "retryPendingPublications s0 = (r, s')"
  define s where "s = ranged s0"
  have i: "inv g D s" using inv_ranged [OF i0] by (simp add: s_def)
  obtain recs F where q: "Quiet g recs F s" "pend_ok recs (st_pending s)" "disk_view g recs F = D" using i by (auto simp: inv_def)
  let ?b = "o_Durability (st_options s) = DurabilityFsyncCheckpoint"
  let ?c = "andThen (state_of checkpointDue) (\<lambda>due. if due then catch checkpointWAL
         (\<lambda>err. andThen (reportPostCommitFailure ''committed_checkpoint_failed'') (\<lambda>_. raise err)) ret else ret ())"
  have m': "andThen (publish_loop ?b (st_pending s)) (\<lambda>_. ?c) s = (r, s')"
    using m unfolding retry_ranged s_def .
  have rep: "triple (inv g D) (andThen (reportPostCommitFailure ev) (\<lambda>_. raise err)) (\<lambda>_. inv g D)" for ev err
    by (rule triple_meta [OF meta_stable_inv]) (intro tames)
  have I: "triple (inv g D) (ret x) (\<lambda>_. inv g D)" for x :: unit by (simp add: triple_def ret_def)
  have ck: "triple (\<lambda>s. Quiet g recs F s \<and> st_pending s = []) (catch checkpointWAL
         (\<lambda>err. andThen (reportPostCommitFailure ''committed_checkpoint_failed'') (\<lambda>_. raise err)) ret) (\<lambda>_. inv g D)"
    by (rule triple_catch [OF checkpointWAL_inv [of g recs F, unfolded q(3)] rep I])
  have fin: "triple (\<lambda>s. Quiet g recs F s \<and> st_pending s = []) ?c (\<lambda>_. inv g D)"
  proof (rule triple_tame_seq [OF meta_stable_pending [OF meta_stable_phases(1)] tame_state_of])
    show "triple (\<lambda>s. Quiet g recs F s \<and> st_pending s = []) (if x then catch checkpointWAL
         (\<lambda>err. andThen (reportPostCommitFailure ''committed_checkpoint_failed'') (\<lambda>_. raise err)) ret else ret ()) (\<lambda>_. inv g D)" for x
      using ck q(3) by (cases x) (auto simp: triple_def ret_def replayed_inv)
  qed (use replayed_inv q(3) in auto)
  have "triple (\<lambda>t. Quiet g recs F t \<and> pend_ok recs (st_pending t) \<and> st_pending t = st_pending s)
      (andThen (publish_loop ?b (st_pending s)) (\<lambda>_. ?c)) (\<lambda>_. inv g D)"
    by (rule triple_andThen [OF publish_loop_quiet]) (use fin q(3) in \<open>auto simp: triple_def inv_def\<close>)
  from tripleD [OF this _ m'] q show "inv g D s'" by simp
qed

end
