(* ===== verification/StoreWrite.thy ===== *)
theory StoreWrite
  imports StorePublish
begin

text \<open>
  The commit protocol of \<^verbatim>\<open>store.go\<close> and \<^verbatim>\<open>conditional.go\<close> as a whole.  \<open>outcome\<close> is what a commit leaves behind
  under every failure and every crash point: the batch is on disk as a whole, or not at all, and the store knows
  which of the two unless it accepts no further write.
\<close>

section \<open>Operations that leave the pending publications alone\<close>

lemma tame_inspect:
  assumes "\<And>c. tame g X (f (intentDirectory, intentPath, c))"
  shows "tame g X (andThen (inspectIntentDirectory b) f)"
proof (rule tame_andThen_res [OF tame_inspectIntentDirectory])
  show "tame g X (f x)" if "inspectIntentDirectory b s = (Inr x, s')" for x s s'
    using inspect_paths [of b s "fst x" "fst (snd x)" "snd (snd x)" s'] that assms [of "snd (snd x)"] by (cases x) auto
qed

lemma tame_publishIntent [tames]: "intentPath \<in> X \<Longrightarrow> tame g X (publishIntent st b)"
  unfolding publishIntent_def by (intro tame_inspect) (simp only: prod.case, intro tames tame_writeAtomic, simp_all)

lemma tame_os_remove: "p \<in> X \<Longrightarrow> tame g X (on_world (os_remove p))"
  by (intro tame_on_world harmless_os_writes) simp

lemma tame_os_truncate: "p \<in> X \<Longrightarrow> tame g X (on_world (os_truncate p n))"
  by (intro tame_on_world harmless_os_writes) simp

lemma tame_os_write: "p \<in> X \<Longrightarrow> tame g X (on_world (os_write p d))"
  by (intro tame_on_world harmless_os_writes) simp

lemma tame_clearIntent [tames]: "intentPath \<in> X \<Longrightarrow> tame g X clearIntent"
  unfolding clearIntent_def by (intro tame_inspect) (simp only: prod.case, intro tames tame_os_remove)

lemma tame_rollbackWAL [tames]: "walPath \<in> X \<Longrightarrow> tame g X (rollbackWAL b)"
  unfolding rollbackWAL_def by (intro tames tame_os_truncate)

lemma tame_appendWAL [tames]: "walPath \<in> X \<Longrightarrow> tame g X (appendWAL d)"
  unfolding appendWAL_def by (intro tames tame_os_write)

lemma tame_rollbackRejectedWrite [tames]: "intentPath \<in> X \<Longrightarrow> walPath \<in> X \<Longrightarrow> tame g X (rollbackRejectedWrite b u e)"
  unfolding rollbackRejectedWrite_def by (intro tames)

lemma tame_abandon [tames]: "intentPath \<in> X \<Longrightarrow> tame g X (abandon_rollback_intent e)"
  unfolding abandon_rollback_intent_def by (intro tames)

text \<open>The frame rule for the pending publications.\<close>

lemma triple_keep:
  assumes "triple P m Q" "tame g X m" "\<And>s. P s \<Longrightarrow> st_geometry s = g"
  shows "triple (\<lambda>s. P s \<and> st_pending s = ps) m (\<lambda>r s. Q r s \<and> st_pending s = ps)"
proof (rule tripleI)
  fix s r s' assume P: "P s \<and> st_pending s = ps" and m: "m s = (r, s')"
  have "sframe X s s'" using tameD [OF assms(2,3) m] P by blast
  then show "Q r s' \<and> st_pending s' = ps" using tripleD [OF assms(1) _ m] P sframe_pending by metis
qed

section \<open>Outcomes\<close>

text \<open>Contents after a list of records was committed.\<close>

definition overlay :: "walRecord list \<Rightarrow> (Coord \<Rightarrow> chunk_view) \<Rightarrow> Coord \<Rightarrow> chunk_view" where
  "overlay new D c = (case last_state new c of Some v \<Rightarrow> Inr (visible v) | None \<Rightarrow> D c)"

lemma disk_view_append: "disk_view g (recs @ new) F = overlay new (disk_view g recs F)"
  by (auto simp: fun_eq_iff overlay_def disk_view_def last_state_append split: option.split)

definition rejected :: "Geometry \<Rightarrow> walRecord list \<Rightarrow> walRecord list \<Rightarrow> (Coord \<Rightarrow> bytes option) \<Rightarrow>
    (Coord \<times> pendingPublication) list \<Rightarrow> Store \<Rightarrow> bool" where
  "rejected g recs new F ps s \<longleftrightarrow> (Down g recs F s \<and> st_pending s = ps) \<or> (Quiet g (recs @ new) F s \<and> dead s)"

text \<open>\<open>R\<close> is what the caller needs to know of a success; after a whole commit it is the invariant.\<close>

definition outcome_of :: "(Store \<Rightarrow> bool) \<Rightarrow> Geometry \<Rightarrow> walRecord list \<Rightarrow> walRecord list \<Rightarrow> (Coord \<Rightarrow> bytes option) \<Rightarrow>
    (Coord \<times> pendingPublication) list \<Rightarrow> 'a result \<Rightarrow> Store \<Rightarrow> bool" where
  "outcome_of R g recs new F ps r s \<longleftrightarrow> (case r of Inr _ \<Rightarrow> R s | Inl _ \<Rightarrow> rejected g recs new F ps s)"

abbreviation outcome :: "Geometry \<Rightarrow> walRecord list \<Rightarrow> walRecord list \<Rightarrow> (Coord \<Rightarrow> bytes option) \<Rightarrow>
    (Coord \<times> pendingPublication) list \<Rightarrow> 'a result \<Rightarrow> Store \<Rightarrow> bool" where
  "outcome g recs new F \<equiv> outcome_of (inv g (disk_view g (recs @ new) F)) g recs new F"

lemma meta_stable_rejected: "meta_stable g (rejected g recs new F ps)"
  unfolding rejected_def by (intro meta_stable_or meta_stable_pending meta_stable_Down meta_stable_dead meta_stable_phases)

lemma refused_rejected: "refused g recs F r s \<Longrightarrow> st_pending s = ps \<Longrightarrow> rejected g recs new F ps s \<and> (\<exists>e. r = Inl e)"
  by (simp add: refused_def rejected_def)

lemma Down_geometry: "Down g recs F s \<Longrightarrow> st_geometry s = g"
  by (auto simp: Down_def dest: Quiet_geometry Armed_geometry)

section \<open>After the commit\<close>

definition pend_part :: "Coord set \<Rightarrow> walRecord list \<Rightarrow> (Coord \<times> pendingPublication) list \<Rightarrow> bool" where
  "pend_part T recs ps \<longleftrightarrow> distinct (map fst ps) \<and>
     (\<forall>(c, p)\<in>set ps. c \<in> T \<or> last_state recs c = Some (pp_payload p, pp_presence p))"

lemma pend_part_empty: "pend_part {} = pend_ok"
  by (simp add: fun_eq_iff pend_part_def pend_ok_def)

lemma pend_part_start: "pend_ok recs ps \<Longrightarrow> pend_part (wal_coord ` set new) (recs @ new) ps"
  unfolding pend_part_def pend_ok_def
proof (intro conjI ballI, blast, clarify)
  fix c p assume a: "distinct (map fst ps)" "\<forall>(c, p)\<in>set ps. last_state recs c = Some (pp_payload p, pp_presence p)"
    and m: "(c, p) \<in> set ps" and n: "last_state (recs @ new) c \<noteq> Some (pp_payload p, pp_presence p)"
  then have "last_state recs c = Some (pp_payload p, pp_presence p)" by blast
  with n have "last_state new c \<noteq> None" by (metis last_state_append option.simps(4))
  then show "c \<in> wal_coord ` set new" by (simp only: last_state_None_iff not_not)
qed

lemma pend_part_update:
  assumes "pend_part T recs ps" "last_state recs c = Some (a, b)"
  shows "pend_part (T - {c}) recs (AList.update c \<lparr>pp_payload = a, pp_presence = b, pp_version = v\<rparr> ps)"
proof -
  have d: "distinct (map fst ps)" using assms(1) by (simp add: pend_part_def)
  have "q = \<lparr>pp_payload = a, pp_presence = b, pp_version = v\<rparr> \<and> k = c \<or> k \<noteq> c \<and> (k, q) \<in> set ps"
    if "(k, q) \<in> set (AList.update c \<lparr>pp_payload = a, pp_presence = b, pp_version = v\<rparr> ps)" for k q
    using that d
  proof -
    have "map_of (AList.update c \<lparr>pp_payload = a, pp_presence = b, pp_version = v\<rparr> ps) k = Some q"
      using that distinct_update [OF d] by (simp add: map_of_eq_Some_iff)
    then show ?thesis using d by (auto simp: update_conv' split: if_splits dest: map_of_SomeD)
  qed
  then show ?thesis using assms distinct_update [OF d] by (fastforce simp: pend_part_def)
qed

lemma core_pending: "same_core g s (s\<lparr>st_pending := ps\<rparr>)"
  by (simp add: same_core_def)

lemma publish_in_memory_quiet:
  assumes "last_state recs c = Some (a, b)"
  shows "triple (\<lambda>s. Quiet g recs F s \<and> pend_part T recs (st_pending s)) (publish_in_memory c a b v)
    (\<lambda>_ s. Quiet g recs F s \<and> pend_part (T - {c}) recs (st_pending s))"
  unfolding publish_in_memory_def
proof (rule triple_andThen [where R = "\<lambda>_ s. Quiet g recs F s \<and> pend_part (T - {c}) recs (st_pending s)"])
  show "triple (\<lambda>s. Quiet g recs F s \<and> pend_part T recs (st_pending s)) (update (\<lambda>s. s\<lparr>st_pending := AList.update c
      \<lparr>pp_payload = a, pp_presence = b, pp_version = v\<rparr> (st_pending s)\<rparr>)) (\<lambda>_ s. Quiet g recs F s \<and> pend_part (T - {c}) recs (st_pending s))"
    using core_Quiet [OF core_pending] pend_part_update [OF _ assms] by (auto simp: triple_def update_def)
  show "triple (\<lambda>s. Quiet g recs F s \<and> pend_part (T - {c}) recs (st_pending s)) (catch (cache_put c a b)
      (\<lambda>err. andThen (poisonDurability err) (\<lambda>_. reportPostCommitFailure ''committed_write_publication_failed'')) ret)
      (\<lambda>_ s. Quiet g recs F s \<and> pend_part (T - {c}) recs (st_pending s))"
    by (rule triple_meta [OF meta_stable_pending [OF meta_stable_phases(1)]]) (intro tames)
qed

text \<open>Operations that cannot fail.\<close>

definition total :: "'a sop \<Rightarrow> bool" where
  "total m \<longleftrightarrow> (\<forall>s. \<exists>x. fst (m s) = Inr x)"

named_theorems totals \<open>operations that cannot fail\<close>

lemma total_basic [totals]: "total (ret x)" "total (update f)" "total (state_of h)" "total (ignore m)"
  by (auto simp: total_def ret_def update_def state_of_def ignore_def catch_def split: prod.split sum.split)

lemma total_catch [totals]:
  assumes "\<And>e. total (h e)" "\<And>x. total (f x)"
  shows "total (catch m h f)"
  unfolding total_def catch_def
proof
  fix s
  show "\<exists>x. fst (case m s of (Inl e, s) \<Rightarrow> h e s | (Inr x, s) \<Rightarrow> f x s) = Inr x"
    using assms by (cases "m s"; cases "fst (m s)") (auto simp: total_def)
qed

lemma total_andThen [totals]: "total m \<Longrightarrow> (\<And>x. total (f x)) \<Longrightarrow> total (andThen m f)"
  unfolding total_def andThen_def catch_def by (metis (no_types, lifting) case_prod_conv old.sum.simps(6) prod.collapse)

lemma total_if [totals]: "(b \<Longrightarrow> total m) \<Longrightarrow> (\<not> b \<Longrightarrow> total n) \<Longrightarrow> total (if b then m else n)"
  by simp

lemma total_bookkeeping [totals]: "total (poisonDurability e)" "total (reportPostCommitFailure ev)"
  unfolding poisonDurability_def reportPostCommitFailure_def by (rule totals)+

lemma total_publish_in_memory [totals]: "total (publish_in_memory c a b v)"
  unfolding publish_in_memory_def by (intro totals)

lemma total_finish [totals]: "total finish_commit" "total finishCommittedSnapshot" "total finishRejectedSnapshot"
  unfolding finish_commit_def finishCommittedSnapshot_def finishRejectedSnapshot_def by (intro totals)+

lemma totalD: "total m \<Longrightarrow> m s = (r, s') \<Longrightarrow> \<exists>x. r = Inr x"
  unfolding total_def by (metis fst_conv)

lemma triple_total: "total m \<Longrightarrow> triple P m Q \<Longrightarrow> triple P m (\<lambda>r s. Q r s \<and> (\<exists>x. r = Inr x))"
  by (auto simp: triple_def total_def)

lemma triple_total_seq:
  assumes "meta_stable g P" "tame g (meta_paths g) m" "total m" "\<And>x. triple P (f x) Q"
  shows "triple P (andThen m f) Q"
  by (rule triple_andThen [OF triple_total [OF assms(3) triple_meta [OF assms(1,2)]]]) (use assms(4) in auto)

text \<open>The intent of a commit is removed.\<close>

definition settle_intent :: "unit sop" where
  "settle_intent = catch clearIntent (\<lambda>_. andThen (reportPostCommitFailure ''committed_intent_cleanup_failed'')
      (\<lambda>_. catch syncIntentDirectory poisonDurability ret)) ret"

lemma finish_commit_eq: "finish_commit = andThen settle_intent (\<lambda>_. ignore retryPendingPublications)"
  by (simp add: finish_commit_def settle_intent_def)

lemma settle_intent_inv: "triple (inv g D) settle_intent (\<lambda>_. inv g D)"
proof -
  have clr: "triple (inv g D) clearIntent (\<lambda>_. inv g D)"
  proof (rule tripleI)
    fix s r s' assume i: "inv g D s" and m: "clearIntent s = (r, s')"
    obtain recs F where q: "Quiet g recs F s" "pend_ok recs (st_pending s)" "disk_view g recs F = D" using i by (auto simp: inv_def)
    have "triple (\<lambda>t. Quiet g recs F t \<and> st_pending t = st_pending s) clearIntent (\<lambda>_ t. Quiet g recs F t \<and> st_pending t = st_pending s)"
      by (rule triple_keep [OF clear_quiet tame_clearIntent [of "{intentPath}" g]]) (auto dest: Quiet_geometry)
    from tripleD [OF this _ m] q
    show "inv g D s'" by (auto simp: inv_def)
  qed
  show ?thesis unfolding settle_intent_def
    by (rule triple_catch [OF clr]) (rule triple_meta [OF meta_stable_inv], intro tames)+
qed

lemma finish_commit_inv: "triple (inv g D) finish_commit (\<lambda>_. inv g D)"
  unfolding finish_commit_eq by (rule triple_andThen [OF settle_intent_inv triple_ignore [OF retry_inv]]) simp

section \<open>The commit\<close>

text \<open>
  A commit of the records \<open>new\<close>: \<open>reject\<close> stands for what the caller does with an error and \<open>tail\<close> for what it does
  after the commit point.  The ordinary write and the conditional batch are both of this shape.
\<close>

definition guarded :: "Geometry \<Rightarrow> walRecord list \<Rightarrow> walRecord list \<Rightarrow> (Coord \<Rightarrow> bytes option) \<Rightarrow>
    (Coord \<times> pendingPublication) list \<Rightarrow> (error \<Rightarrow> 'a sop) \<Rightarrow> bool" where
  "guarded g recs new F ps h \<longleftrightarrow>
     (\<forall>e. triple (rejected g recs new F ps) (h e) (\<lambda>r s. rejected g recs new F ps s \<and> (\<exists>e. r = Inl e)))"

lemma guarded_raise: "guarded g recs new F ps raise"
  by (simp add: guarded_def triple_def raise_def)

lemma guarded_reject: "guarded g recs new F ps reject"
  unfolding guarded_def
proof
  fix e
  have 1: "triple (rejected g recs new F ps) (reject e :: 'a sop) (\<lambda>_. rejected g recs new F ps)"
    by (rule triple_meta [OF meta_stable_rejected tame_reject])
  have "\<exists>x. fst ((reject e :: 'a sop) s) = Inl x" for s
    using totalD [OF total_finish(3)] by (auto simp: reject_def andThen_def catch_def raise_def split: prod.splits sum.splits)
  with 1 show "triple (rejected g recs new F ps) (reject e :: 'a sop) (\<lambda>r s. rejected g recs new F ps s \<and> (\<exists>e. r = Inl e))"
    by (auto simp: triple_def)
qed

lemma guarded_triple:
  assumes "guarded g recs new F ps h" "\<And>s. P s \<Longrightarrow> rejected g recs new F ps s"
  shows "triple P (h e) (outcome_of R g recs new F ps)"
proof (rule triple_conseq)
  show "triple (rejected g recs new F ps) (h e) (\<lambda>r s. rejected g recs new F ps s \<and> (\<exists>e. r = Inl e))"
    using assms(1) unfolding guarded_def by blast
qed (use assms(2) in \<open>auto simp: outcome_of_def\<close>)

lemma guarded_catch:
  assumes "guarded g recs new F ps h" "triple P m (\<lambda>r s. refused g recs F r s \<and> st_pending s = ps)"
  shows "triple P (catch m h ret) (outcome_of R g recs new F ps)"
  by (rule triple_catch [OF assms(2) guarded_triple [OF assms(1)]]) (auto simp: rejected_def triple_def refused_def)

lemma walSize_quiet:
  "triple (Quiet g recs F) walSize (\<lambda>r s. Quiet g recs F s \<and> (\<forall>b. r = Inr b \<longrightarrow> b = of_nat (length (wal_bytes g recs))))"
  unfolding walSize_def
proof (rule triple_tame_seq [OF meta_stable_phases(1)])
  show "triple (Quiet g recs F) (andThen (on_world (os_size walPath)) (\<lambda>n. ret (of_nat n :: uint64)))
      (\<lambda>r s. Quiet g recs F s \<and> (\<forall>b. r = Inr b \<longrightarrow> b = of_nat (length (wal_bytes g recs))))"
  proof (rule tripleI)
    fix s r s' assume q: "Quiet g recs F s" and m: "andThen (on_world (os_size walPath)) (\<lambda>n. ret (of_nat n :: uint64)) s = (r, s')"
    have "tame g (meta_paths g) (andThen (on_world (os_size walPath)) (\<lambda>n. ret (of_nat n :: uint64)))" by (intro tames)
    from tripleD [OF triple_meta [OF meta_stable_phases(1) this] q m] have "Quiet g recs F s'" .
    moreover have "b = of_nat (length (wal_bytes g recs))" if rb: "r = Inr b" for b
    proof -
      obtain n t where n: "on_world (os_size walPath) s = (Inr n, t)" "b = of_nat n" using m rb by (auto simp: andThen_Inr ret_def)
      then have "n = length (wal_bytes g recs)" using q
        by (auto simp: on_world_def os_size_def os_call_def Quiet_def quiet_def Let_def split: prod.splits if_splits fault.splits option.splits)
      then show ?thesis using n by simp
    qed
    ultimately show "Quiet g recs F s' \<and> (\<forall>b. r = Inr b \<longrightarrow> b = of_nat (length (wal_bytes g recs)))" by blast
  qed
qed (auto intro: tames)

lemma triple_poison:
  assumes "meta_stable g P"
  shows "triple P (andThen (poisonDurability e) (\<lambda>_. raise_joined c)) (\<lambda>r s. P s \<and> dead s \<and> (\<exists>x. r = Inl x))"
proof (rule tripleI)
  fix s r s' assume P: "P s" and m: "andThen (poisonDurability e) (\<lambda>_. raise_joined c :: 'a sop) s = (r, s')"
  have t: "tame g (meta_paths g) (andThen (poisonDurability e) (\<lambda>_. raise_joined c :: 'a sop))" by (intro tames)
  have "P s'" using tripleD [OF triple_meta [OF assms t] P m] .
  moreover have "st_poisoned s' \<noteq> None \<and> (\<exists>x. r = Inl x)" using m
    by (auto simp: andThen_def poisonDurability_def update_def raise_joined_def catch_def checkDurabilityHealthy_def raise_def
        split: option.splits prod.splits sum.splits if_splits)
  ultimately show "P s' \<and> dead s' \<and> (\<exists>x. r = Inl x)" by (simp add: dead_def)
qed

text \<open>The protocol from the rollback intent to the commit intent, for records \<open>new\<close>.\<close>

lemma publish_committed_outcome:
  assumes new: "wf_records g new"
    and k: "triple (\<lambda>s. Quiet g (recs @ new) F s \<and> st_pending s = ps) k (outcome_of R g recs new F ps)"
    and rd: "\<And>e. triple (\<lambda>s. (\<exists>tail. Armed g recs tail F s) \<and> st_pending s = ps)
        (h' e) (outcome_of R g recs new F ps)"
  shows "triple (\<lambda>s. Armed g recs (wal_bytes g new) F s \<and> st_pending s = ps)
     (catch (publishIntent intentCommitted b)
       (\<lambda>commitErr. catch readIntent (\<lambda>inspectErr. andThen (poisonDurability inspectErr) (\<lambda>_. raise_joined commitErr)) (\<lambda>(state, _).
          if state \<noteq> intentCommitted then h' commitErr
          else andThen (reportPostCommitFailure ''committed_intent_sync_failed'') (\<lambda>_. k)))
       (\<lambda>_. k)) (outcome_of R g recs new F ps)" (is "triple ?A _ ?O")
proof -
  let ?A' = "\<lambda>s. Armed g recs (wal_bytes g new) F s \<and> st_pending s = ps" and ?Q = "\<lambda>s. Quiet g (recs @ new) F s \<and> st_pending s = ps"
  have pub: "triple ?A (publishIntent intentCommitted b) (\<lambda>r s. (?A' s \<and> r \<noteq> Inr ()) \<or> ?Q s)"
    by (rule triple_conseq [OF triple_keep [OF publish_committed [OF new] tame_publishIntent [of "{intentPath}" g]]])
      (auto dest: Armed_geometry)
  have ra: "triple ?A' readIntent (\<lambda>r s. ?A' s \<and> (\<forall>st b. r = Inr (st, b) \<longrightarrow> st = intentRollback))"
    by (rule triple_conseq [OF triple_keep [OF readIntent_armed tame_readIntent [of g "{}"]]]) (auto dest: Armed_geometry)
  have rq: "triple ?Q readIntent (\<lambda>r s. ?Q s \<and> (\<forall>st b. r = Inr (st, b) \<longrightarrow> st = intentCommitted))"
    by (rule triple_conseq [OF triple_keep [OF readIntent_quiet tame_readIntent [of g "{}"]]]) (auto dest: Quiet_geometry)
  have rdi: "triple (\<lambda>s. ?A' s \<or> ?Q s) readIntent (\<lambda>r s. (?A' s \<and> (\<forall>st b. r = Inr (st, b) \<longrightarrow> st = intentRollback)) \<or>
      (?Q s \<and> (\<forall>st b. r = Inr (st, b) \<longrightarrow> st = intentCommitted)))"
    using ra rq by (auto simp: triple_def)
  have st: "meta_stable g (\<lambda>s. ?A' s \<or> ?Q s)" "meta_stable g ?Q"
    by (intro meta_stable_or meta_stable_pending meta_stable_phases)+
  have poi: "triple (\<lambda>s. ?A' s \<or> ?Q s) (andThen (poisonDurability i) (\<lambda>_. raise_joined c)) ?O" for i c
    by (rule triple_conseq [OF triple_poison [OF st(1)]]) (auto simp: outcome_of_def rejected_def Down_def)
  have rep: "triple ?Q (andThen (reportPostCommitFailure ev) (\<lambda>_. k)) ?O" for ev
    by (rule triple_andThen [OF triple_total [OF total_bookkeeping(2) triple_meta [OF st(2) tame_bookkeeping(2)]]])
      (use k in \<open>auto simp: triple_def\<close>)
  have insp: "triple (\<lambda>s. ?A' s \<or> ?Q s) (catch readIntent (\<lambda>inspectErr. andThen (poisonDurability inspectErr) (\<lambda>_. raise_joined e)) (\<lambda>(state, _).
          if state \<noteq> intentCommitted then h' e
          else andThen (reportPostCommitFailure ''committed_intent_sync_failed'') (\<lambda>_. k))) ?O" for e
  proof (rule triple_catch [OF rdi])
    show "triple (\<lambda>s. (?A' s \<and> (\<forall>st b. Inr x = Inr (st, b) \<longrightarrow> st = intentRollback)) \<or> (?Q s \<and> (\<forall>st b. Inr x = Inr (st, b) \<longrightarrow> st = intentCommitted)))
        (case x of (state, _) \<Rightarrow> if state \<noteq> intentCommitted then h' e
          else andThen (reportPostCommitFailure ''committed_intent_sync_failed'') (\<lambda>_. k)) ?O" for x :: "intentState \<times> uint64"
      using rd [of e] rep by (cases x; cases "fst x") (auto simp: triple_def)
  qed (rule triple_conseq [OF poi], auto)
  show ?thesis
    by (rule triple_catch [OF pub]) (rule triple_conseq [OF insp], auto, rule triple_conseq [OF k], auto)
qed

section \<open>Appending\<close>

lemma append_outcome:
  assumes h: "\<And>e. triple (\<lambda>s. (\<exists>tail. Armed g recs tail F s) \<and> st_pending s = ps) (h' e) (outcome_of R g recs new F ps)"
    and k: "triple (\<lambda>s. Armed g recs (wal_bytes g new) F s \<and> st_pending s = ps) k (outcome_of R g recs new F ps)"
  shows "triple (\<lambda>s. Armed g recs [] F s \<and> st_pending s = ps)
     (catch (appendWAL (wal_bytes g new)) h' (\<lambda>_. catch (ensureWALCommit b) h' (\<lambda>_. k))) (outcome_of R g recs new F ps)"
proof (rule triple_catch)
  show "triple (\<lambda>s. Armed g recs [] F s \<and> st_pending s = ps) (appendWAL (wal_bytes g new))
      (\<lambda>r s. (\<exists>tail. Armed g recs tail F s \<and> (r = Inr () \<longrightarrow> tail = wal_bytes g new)) \<and> st_pending s = ps)"
    by (rule triple_keep [OF appendWAL_armed tame_appendWAL [of "{walPath}" g]]) (auto dest: Armed_geometry)
  show "triple (\<lambda>s. (\<exists>tail. Armed g recs tail F s \<and> (Inl e = Inr () \<longrightarrow> tail = wal_bytes g new)) \<and> st_pending s = ps) (h' e) (outcome_of R g recs new F ps)" for e
    by (rule triple_conseq [OF h]) auto
  have en: "triple (\<lambda>s. Armed g recs (wal_bytes g new) F s \<and> st_pending s = ps) (catch (ensureWALCommit b) h' (\<lambda>_. k)) (outcome_of R g recs new F ps)"
    by (rule triple_catch [OF triple_meta [OF meta_stable_pending [OF meta_stable_phases(2)] tame_ensureWALCommit] _ k])
      (rule triple_conseq [OF h], auto)
  show "triple (\<lambda>s. (\<exists>tail. Armed g recs tail F s \<and> (Inr x = Inr () \<longrightarrow> tail = wal_bytes g new)) \<and> st_pending s = ps)
      (catch (ensureWALCommit b) h' (\<lambda>_. k)) (outcome_of R g recs new F ps)" for x
    by (rule triple_conseq [OF en]) auto
qed

text \<open>The whole of a commit after the size of the log was taken: arming, then append, sync and the commit intent.\<close>

lemma arm_outcome:
  assumes h: "guarded g recs new F ps h"
    and k: "triple (\<lambda>s. Armed g recs [] F s \<and> st_pending s = ps) k (outcome_of R g recs new F ps)"
    and b: "boundary = of_nat (length (wal_bytes g recs))"
  shows "triple (\<lambda>s. Quiet g recs F s \<and> st_pending s = ps)
     (catch (publishIntent intentRollback boundary) (\<lambda>err. catch (abandon_rollback_intent err) h ret) (\<lambda>_. k)) (outcome_of R g recs new F ps)"
    (is "triple ?P _ ?O")
proof (rule triple_catch)
  show "triple ?P (publishIntent intentRollback boundary) (\<lambda>r s. ((Quiet g recs F s \<and> r \<noteq> Inr ()) \<or> Armed g recs [] F s) \<and> st_pending s = ps)"
    unfolding b by (rule triple_keep [OF publish_rollback tame_publishIntent [of UNIV g]]) (auto dest: Quiet_geometry)
  have ab: "triple (\<lambda>s. (Quiet g recs F s \<or> Armed g recs [] F s) \<and> st_pending s = ps) (catch (abandon_rollback_intent e) h ret) ?O" for e
    by (rule guarded_catch [OF h triple_keep [OF abandon_refused tame_abandon [of UNIV g]]]) (auto dest: Armed_geometry Quiet_geometry)
  show "triple (\<lambda>s. ((Quiet g recs F s \<and> Inl e \<noteq> Inr ()) \<or> Armed g recs [] F s) \<and> st_pending s = ps) (catch (abandon_rollback_intent e) h ret) ?O" for e
    by (rule triple_conseq [OF ab]) auto
  show "triple (\<lambda>s. ((Quiet g recs F s \<and> Inr x \<noteq> Inr ()) \<or> Armed g recs [] F s) \<and> st_pending s = ps) k ?O" for x
    by (rule triple_conseq [OF k]) auto
qed

lemma commit_outcome:
  assumes new: "wf_records g new" and h: "guarded g recs new F ps h"
    and k: "triple (\<lambda>s. Quiet g (recs @ new) F s \<and> st_pending s = ps) k (outcome_of R g recs new F ps)"
    and b: "boundary = of_nat (length (wal_bytes g recs))"
  shows "triple (\<lambda>s. Armed g recs [] F s \<and> st_pending s = ps)
     (catch (appendWAL (wal_bytes g new)) (\<lambda>err. catch (rollbackRejectedWrite boundary u err) h ret) (\<lambda>_.
      catch (ensureWALCommit grouped) (\<lambda>err. catch (rollbackRejectedWrite boundary u err) h ret) (\<lambda>_.
      catch (publishIntent intentCommitted boundary)
       (\<lambda>commitErr. catch readIntent (\<lambda>inspectErr. andThen (poisonDurability inspectErr) (\<lambda>_. raise_joined commitErr)) (\<lambda>(state, _).
          if state \<noteq> intentCommitted then catch (rollbackRejectedWrite boundary u commitErr) h ret
          else andThen (reportPostCommitFailure ''committed_intent_sync_failed'') (\<lambda>_. k)))
       (\<lambda>_. k)))) (outcome_of R g recs new F ps)" (is "triple _ _ ?O")
proof -
  have undone: "triple (\<lambda>s. (\<exists>tail. Armed g recs tail F s) \<and> st_pending s = ps) (catch (rollbackRejectedWrite boundary u e) h ret) ?O" for e
    unfolding b by (rule guarded_catch [OF h triple_keep [OF rollbackRejected_armed tame_rollbackRejectedWrite [of UNIV g]]])
      (auto dest: Armed_geometry)
  show ?thesis by (rule append_outcome [OF undone publish_committed_outcome [OF new k undone]])
qed

section \<open>The ordinary write\<close>

lemma andThen_state_of: "andThen (state_of h) f s = f (h s) s"
  by (simp add: andThen_def catch_def state_of_def)

lemma triple_observe: "(\<And>s. P s \<Longrightarrow> triple P (f (h s)) Q) \<Longrightarrow> triple P (andThen (state_of h) f) Q"
  by (simp add: triple_def andThen_state_of)

definition chunk_record :: "Coord \<Rightarrow> Chunk \<Rightarrow> walRecord" where
  "chunk_record c ch = \<lparr>wal_coord = c, wal_payload = chunk_payload ch, wal_presence = chunk_presence ch\<rparr>"

lemma chunk_record_simps [simp]: "wal_coord (chunk_record c ch) = c" "record_state (chunk_record c ch) = (chunk_payload ch, chunk_presence ch)"
  by (simp_all add: chunk_record_def record_state_def)

lemma wf_chunk_record: "wf_chunk ch \<Longrightarrow> chunk_geometry ch = g \<Longrightarrow> wf_record g (chunk_record c ch)"
  using ChunkFromState_wf_chunk [of ch] by (simp add: wf_record_def chunk_record_def)

lemma set_counters_tame: "tame g X (update (\<lambda>s. s\<lparr>st_walRecordBuffer := f s, st_walRecords := a s, st_walBytes := b s\<rparr>))"
  by (rule tame_update) simp

lemma commit_ordinary_tail_inv:
  assumes "pend_ok recs ps"
  shows "triple (\<lambda>s. Quiet g (recs @ [chunk_record c ch]) F s \<and> st_pending s = ps) (commit_ordinary_tail c ch v buf)
     (outcome g recs [chunk_record c ch] F ps)"
proof -
  let ?new = "[chunk_record c ch]" and ?m = "commit_ordinary_tail c ch v buf"
  let ?P = "\<lambda>T s. Quiet g (recs @ ?new) F s \<and> pend_part T (recs @ ?new) (st_pending s)"
  have st: "last_state (recs @ ?new) c = Some (chunk_payload ch, chunk_presence ch)" by simp
  have "triple (?P {c}) ?m (\<lambda>_. inv g (disk_view g (recs @ ?new) F))"
    unfolding commit_ordinary_tail_def
  proof (rule triple_total_seq [OF meta_stable_pending [OF meta_stable_phases(1)] set_counters_tame total_basic(2)])
    show "triple (?P {c}) (andThen (publish_in_memory c (chunk_payload ch) (chunk_presence ch) v) (\<lambda>_. finish_commit))
       (\<lambda>_. inv g (disk_view g (recs @ ?new) F))"
      by (rule triple_andThen [OF triple_total [OF total_publish_in_memory publish_in_memory_quiet [OF st]]])
        (rule triple_conseq [OF finish_commit_inv [of g "disk_view g (recs @ ?new) F"]], auto simp: inv_def pend_part_empty)
  qed
  moreover have "total ?m" unfolding commit_ordinary_tail_def by (intro totals)
  ultimately have "triple (?P {c}) ?m (\<lambda>r s. inv g (disk_view g (recs @ ?new) F) s \<and> (\<exists>x. r = Inr x))" by (rule triple_total [rotated])
  then show ?thesis
    by (rule triple_conseq) (use pend_part_start [OF assms, of ?new] in \<open>auto simp: outcome_of_def\<close>)
qed

lemma catch_raise_ret: "catch m raise ret = m"
  by (auto simp: fun_eq_iff catch_def raise_def ret_def split: prod.split sum.split)

lemma record_buffer: "buf_bytes (appendWALRecord grow g (buf\<lparr>buf_bytes := []\<rparr>) c (chunk_payload ch) (chunk_presence ch)) = wal_bytes g [chunk_record c ch]"
  by (simp add: appendWALRecord_bytes wal_bytes_def chunk_record_def)

lemma commitOrdinaryChunk_outcome:
  assumes "wf_chunk ch" "chunk_geometry ch = g" "pend_ok recs ps"
  shows "triple (\<lambda>s. Quiet g recs F s \<and> st_pending s = ps) (commitOrdinaryChunk c ch v) (outcome g recs [chunk_record c ch] F ps)"
proof (rule tripleI)
  fix s r s' assume P: "Quiet g recs F s \<and> st_pending s = ps" and m: "commitOrdinaryChunk c ch v s = (r, s')"
  let ?new = "[chunk_record c ch]" and ?O = "outcome g recs [chunk_record c ch] F ps :: unit result \<Rightarrow> Store \<Rightarrow> bool"
  define buf where "buf = appendWALRecord (st_grow s) (st_geometry s) ((st_walRecordBuffer s)\<lparr>buf_bytes := []\<rparr>) c (chunk_payload ch) (chunk_presence ch)"
  have buf: "buf_bytes buf = wal_bytes g ?new" using P Quiet_geometry record_buffer unfolding buf_def by blast
  have new: "wf_records g ?new" using wf_chunk_record [OF assms(1,2)] by (simp add: wf_records_def)
  define k where "k = (\<lambda>boundary. catch (publishIntent intentRollback boundary) abandon_rollback_intent (\<lambda>_.
     andThen (state_of st_walUnsyncedUpdates) (\<lambda>u.
     catch (appendWAL (wal_bytes g ?new)) (rollbackRejectedWrite boundary u) (\<lambda>_.
     catch (ensureWALCommit False) (rollbackRejectedWrite boundary u) (\<lambda>_.
     catch (publishIntent intentCommitted boundary)
       (\<lambda>commitErr. inspect_commit commitErr boundary u (commit_ordinary_tail c ch v buf))
       (\<lambda>_. commit_ordinary_tail c ch v buf))))))"
  have k: "triple (\<lambda>s. Quiet g recs F s \<and> st_pending s = ps) (k (of_nat (length (wal_bytes g recs)))) ?O"
    using arm_outcome [OF guarded_raise triple_observe [where h = st_walUnsyncedUpdates, OF commit_outcome [where grouped = False and k = "commit_ordinary_tail c ch v buf",
      OF new guarded_raise commit_ordinary_tail_inv [OF assms(3)] refl]] refl]
    unfolding k_def inspect_commit_def catch_raise_ret .
  have "triple (\<lambda>s. Quiet g recs F s \<and> st_pending s = ps) (andThen walSize k) ?O"
  proof (rule triple_andThen [OF triple_keep [OF walSize_quiet tame_walSize [of g "{}"]]])
    show "triple (\<lambda>s. (Quiet g recs F s \<and> (\<forall>b. Inr x = Inr b \<longrightarrow> b = of_nat (length (wal_bytes g recs)))) \<and> st_pending s = ps) (k x) ?O" for x
      using k by (cases "x = of_nat (length (wal_bytes g recs))") (auto simp: triple_def)
  qed (auto simp: outcome_of_def rejected_def Down_def dest: Quiet_geometry)
  moreover have "commitOrdinaryChunk c ch v s = andThen walSize k s"
    unfolding commitOrdinaryChunk_def andThen_state_of [where s = s] buf_def [symmetric] buf k_def ..
  ultimately show "?O r s'" using tripleD [of _ "andThen walSize k" ?O s r s'] P m by simp
qed

section \<open>What the caller observes\<close>

text \<open>
  The result of an operation that was to turn the contents \<open>D\<close> into \<open>D'\<close>: it succeeded and \<open>D'\<close> is there; or it failed
  and \<open>D\<close> is there; or the store accepts no further write and the directory holds \<open>D\<close> or \<open>D'\<close>; or it failed, \<open>D\<close> is there and a
  failing \<^verbatim>\<open>Lstat\<close> left the intent of the rejected write behind.
\<close>

definition settled :: "Geometry \<Rightarrow> (Coord \<Rightarrow> chunk_view) \<Rightarrow> (Coord \<Rightarrow> chunk_view) \<Rightarrow> 'a result \<Rightarrow> Store \<Rightarrow> bool" where
  "settled g D D' r s \<longleftrightarrow>
     (case r of
        Inr _ \<Rightarrow> inv g D' s
      | Inl _ \<Rightarrow> inv g D s \<or> ((disk_holds g D s \<or> disk_holds g D' s) \<and> dead s) \<or> (stale g D s \<and> \<not> stat_ok (st_world s)))"

lemma outcome_settled:
  assumes "pend_ok recs ps" "outcome g recs new F ps r s"
  shows "settled g (disk_view g recs F) (overlay new (disk_view g recs F)) r s"
proof (cases r)
  case (Inr x)
  then show ?thesis using assms(2) by (simp add: outcome_of_def settled_def disk_view_append)
next
  case (Inl e)
  have 1: "inv g (disk_view g recs F) s" if "Quiet g recs F s" "st_pending s = ps" using that assms(1) by (auto simp: inv_def)
  have 2: "disk_holds g (overlay new (disk_view g recs F)) s" if "Quiet g (recs @ new) F s"
    unfolding disk_holds_def using that disk_view_append by blast
  have 3: "disk_holds g (disk_view g recs F) s" if "Armed g recs tail F s" for tail
    unfolding disk_holds_def using that by blast
  have 4: "stale g (disk_view g recs F) s" if "Armed g recs [] F s" "st_pending s = ps"
    using that assms(1) by (auto simp: stale_def)
  show ?thesis using assms(2) Inl 1 2 3 4 by (auto simp: outcome_of_def rejected_def Down_def settled_def)
qed

lemma settled_inv: "inv g D s \<Longrightarrow> settled g D D' (Inl e) s"
  by (simp add: settled_def)

lemma meta_stable_settled: "meta_stable g (settled g D D' r)"
  unfolding settled_def
  by (cases r) (auto intro!: meta_stable_inv meta_stable_holds meta_stable_stale meta_stable_or meta_stable_dead meta_stable_unstat)

lemma overlay_chunk: "overlay [chunk_record c ch] D = D(c := Inr (visible (chunk_payload ch, chunk_presence ch)))"
  using last_state_snoc [of "[]" "chunk_record c ch"] by (auto simp: fun_eq_iff overlay_def)

lemma triple_inv_seq:
  assumes "tame g (meta_paths g) m" "\<And>x. triple (inv g D) (f x) (settled g D D')"
  shows "triple (inv g D) (andThen m f) (settled g D D')"
  by (rule triple_tame_seq [OF meta_stable_inv assms]) (rule settled_inv)

lemma triple_retry_seq:
  assumes "\<And>x. triple (inv g D) (f x) (settled g D D')"
  shows "triple (inv g D) (andThen (ignore retryPendingPublications) f) (settled g D D')"
  by (rule triple_andThen [OF triple_ignore [where Q = "\<lambda>_. inv g D", OF retry_inv]]) (use assms in \<open>auto intro: settled_inv\<close>)

definition fails :: "'a sop \<Rightarrow> bool" where
  "fails m \<longleftrightarrow> (\<forall>s. \<exists>e. fst (m s) = Inl e)"

lemma fails_raise: "fails (raise e)" and fails_reject: "fails (reject e)"
proof -
  show "fails (reject e)" unfolding fails_def
  proof
    fix s
    show "\<exists>x. fst (reject e s) = Inl x"
      using totalD [OF total_finish(3), of s] by (cases "finishRejectedSnapshot s") (auto simp: reject_def andThen_def catch_def raise_def)
  qed
qed (simp add: fails_def raise_def)

lemma triple_fails: "fails m \<Longrightarrow> triple P m (\<lambda>_. Q) \<Longrightarrow> triple P m (\<lambda>r s. Q s \<and> (\<exists>e. r = Inl e))"
  by (auto simp: triple_def fails_def)

lemma triple_reject: "triple (inv g D) (reject e) (settled g D D')" "triple (inv g D) (raise e) (settled g D D')"
  by (rule triple_conseq [OF triple_fails [OF fails_reject triple_meta [OF meta_stable_inv tame_reject]]], simp, force intro: settled_inv)
    (rule triple_conseq [OF triple_fails [OF fails_raise triple_meta [OF meta_stable_inv tame_raise]]], simp, force intro: settled_inv)

lemma triple_settled_catch:
  assumes "triple P m (settled g D D')" "\<And>x. tame g (meta_paths g) (f x)" "\<And>x. total (f x)"
  shows "triple P (catch m reject f) (settled g D D')"
proof (rule triple_catch [OF assms(1)])
  let ?S = "settled g D D' (Inl undefined :: unit result)"
  show "triple (settled g D D' (Inl e)) (reject e) (settled g D D')" for e
    by (rule triple_conseq [OF triple_fails [OF fails_reject triple_meta [OF meta_stable_settled [where r = "Inl undefined :: unit result"] tame_reject]]])
      (auto simp: settled_def)
  show "triple (settled g D D' (Inr x)) (f x) (settled g D D')" for x
    by (rule triple_conseq [OF triple_total [OF assms(3) triple_meta [OF meta_stable_inv [of g D'] assms(2)]]]) (auto simp: settled_def)
qed

lemma WriteChunk_settled:
  assumes "\<forall>ch. chunk_opt = Some ch \<longrightarrow> wf_chunk ch"
  shows "triple (inv g D) (WriteChunk c chunk_opt)
    (settled g D (case chunk_opt of None \<Rightarrow> D | Some ch \<Rightarrow> D(c := Inr (visible (chunk_payload ch, chunk_presence ch)))))"
proof (cases chunk_opt)
  case None
  then show ?thesis by (simp add: WriteChunk_def triple_reject)
next
  case (Some ch)
  let ?D' = "D(c := Inr (visible (chunk_payload ch, chunk_presence ch)))"
  have com: "triple (inv g D) (commitOrdinaryChunk c ch v) (settled g D ?D')" if "chunk_geometry ch = g" for v
  proof (rule tripleI)
    fix s r s' assume i: "inv g D s" and m: "commitOrdinaryChunk c ch v s = (r, s')"
    obtain recs F where q: "Quiet g recs F s" "pend_ok recs (st_pending s)" "disk_view g recs F = D" using i by (auto simp: inv_def)
    have "outcome g recs [chunk_record c ch] F (st_pending s) r s'"
      by (rule tripleD [OF commitOrdinaryChunk_outcome [OF _ that q(2)] _ m]) (use q Some assms in auto)
    from outcome_settled [OF q(2) this] q(3) show "settled g D ?D' r s'" by (simp add: overlay_chunk)
  qed
  have fin: "triple (inv g D) (catch (persistVersionClock v) reject (\<lambda>_. andThen (update (\<lambda>s. s\<lparr>st_versionClock := v\<rparr>)) (\<lambda>_.
     catch (commitOrdinaryChunk c ch v) reject (\<lambda>_. finishCommittedSnapshot)))) (settled g D ?D')" if "chunk_geometry ch = g" for v
    by (rule triple_catch [OF triple_meta [OF meta_stable_inv tame_persistVersionClock] triple_reject(1)])
      (intro triple_inv_seq tames triple_settled_catch com that totals)
  let ?m = "andThen writerLock_checkHealthy (\<lambda>_.
     andThen checkDurabilityHealthy (\<lambda>_.
     andThen (ignore retryPendingPublications) (\<lambda>_.
     andThen beginWriteSnapshot (\<lambda>_.
     andThen (state_of st_versionClock) (\<lambda>clock.
     if clock = MaxUint64 then reject [ErrVersionOverflow]
     else let version = clock + 1 in
     catch (persistVersionClock version) reject (\<lambda>_.
     andThen (update (\<lambda>s. s\<lparr>st_versionClock := version\<rparr>)) (\<lambda>_.
     catch (commitOrdinaryChunk c ch version) reject (\<lambda>_. finishCommittedSnapshot))))))))"
  have body: "triple (inv g D) ?m (settled g D ?D')" if "chunk_geometry ch = g"
    unfolding Let_def
    by (intro triple_inv_seq tames triple_retry_seq) (use fin [OF that] triple_reject in auto)
  have "triple (inv g D) (andThen (state_of (\<lambda>s. (st_geometry s, st_closed s, o_ReadOnly (st_options s)))) (\<lambda>(g', closed, readOnly).
     if chunk_geometry ch \<noteq> g' then raise [ErrGeometryMismatch] else if closed then raise [] else if readOnly then raise [ErrReadOnly] else ?m)) (settled g D ?D')"
  proof (rule triple_observe)
    fix s assume "inv g D s"
    then have "st_geometry s = g" using Quiet_geometry by (auto simp: inv_def)
    then show "triple (inv g D) (case (st_geometry s, st_closed s, o_ReadOnly (st_options s)) of (g', closed, readOnly) \<Rightarrow>
      if chunk_geometry ch \<noteq> g' then raise [ErrGeometryMismatch] else if closed then raise [] else if readOnly then raise [ErrReadOnly] else ?m)
      (settled g D ?D')" using body triple_reject(2) by (simp split del: if_split) (auto split: if_split)
  qed
  then show ?thesis unfolding WriteChunk_def Some option.case .
qed

end
