(* ===== verification/StoreBatch.thy ===== *)
theory StoreBatch
  imports StoreWrite
begin

text \<open>
  The conditional batch of \<^verbatim>\<open>conditional.go\<close>: its checks, and that all of its mutations are committed or none.
\<close>

section \<open>The checks\<close>

definition checked :: "Geometry \<Rightarrow> ConditionalMutation list \<Rightarrow> bool" where
  "checked g ms \<longleftrightarrow> (\<forall>m\<in>set ms. \<exists>ch. mut_Chunk m = Some ch \<and> chunk_geometry ch = g) \<and> distinct (map mut_Coord ms)"

definition mutation_record :: "ConditionalMutation \<Rightarrow> walRecord" where
  "mutation_record m = chunk_record (mut_Coord m) (mutation_chunk m)"

lemma mutation_record_simps [simp]:
  "wal_coord (mutation_record m) = mut_Coord m"
  "record_state (mutation_record m) = (chunk_payload (mutation_chunk m), chunk_presence (mutation_chunk m))"
  by (simp_all add: mutation_record_def)

lemma check_mutations_Inr:
  assumes "check_mutations seen ms s = (Inr x, s')" "st_geometry s = g"
  shows "(\<forall>m\<in>set ms. \<exists>ch. mut_Chunk m = Some ch \<and> chunk_geometry ch = g) \<and> distinct (map mut_Coord ms) \<and> mut_Coord ` set ms \<inter> set seen = {}"
  using assms
proof (induction ms arbitrary: seen s)
  case (Cons m ms)
  have no: "reject e s \<noteq> (Inr x, s')" for e s
    using fails_reject [of e] unfolding fails_def by (metis fst_conv sum.distinct(1))
  obtain ch where ch: "mut_Chunk m = Some ch" using Cons.prems(1) no by (cases "mut_Chunk m") auto
  have g: "chunk_geometry ch = g" "mut_Coord m \<notin> set seen"
    using Cons.prems no by (auto simp: ch andThen_state_of split: if_splits)
  obtain r t where cur: "currentChunkVersion (mut_Coord m) s = (r, t)" by fastforce
  have t: "st_geometry t = g" using tameD [OF tame_currentChunkVersion [of g "{}"] Cons.prems(2) cur] Cons.prems(2) by (simp add: sframe_def)
  have "check_mutations (mut_Coord m # seen) ms t = (Inr x, s')"
    using Cons.prems g no cur by (cases r) (auto simp: ch andThen_state_of catch_def split: if_splits)
  from Cons.IH [OF this t] ch g show ?case by auto
qed simp

lemma check_mutations_fine: "triple (inv g D) (check_mutations [] ms) (\<lambda>r s. inv g D s \<and> ((\<exists>x. r = Inr x) \<longrightarrow> checked g ms))"
proof (rule tripleI)
  fix s r s' assume i: "inv g D s" and m: "check_mutations [] ms s = (r, s')"
  have "inv g D s'" by (rule tripleD [OF triple_meta [OF meta_stable_inv tame_check_mutations] i m])
  moreover have "st_geometry s = g" using i Quiet_geometry by (auto simp: inv_def)
  ultimately show "inv g D s' \<and> ((\<exists>x. r = Inr x) \<longrightarrow> checked g ms)"
    using check_mutations_Inr [of "[]" ms s _ s' g] m by (auto simp: checked_def)
qed

section \<open>Publication of a batch\<close>

lemma last_state_batch:
  assumes "distinct (map mut_Coord ms)" "m \<in> set ms"
  shows "last_state (map mutation_record ms) (mut_Coord m) = Some (chunk_payload (mutation_chunk m), chunk_presence (mutation_chunk m))"
  using assms unfolding last_state_def by (intro map_of_is_SomeI) (auto simp: o_def rev_map [symmetric])

lemma publish_mutations_quiet:
  assumes "\<And>m v. (m, v) \<in> set es \<Longrightarrow> last_state recs (mut_Coord m) = Some (chunk_payload (mutation_chunk m), chunk_presence (mutation_chunk m))"
  shows "triple (\<lambda>s. Quiet g recs F s \<and> pend_part T recs (st_pending s)) (publish_mutations es)
    (\<lambda>_ s. Quiet g recs F s \<and> pend_part (T - mut_Coord ` fst ` set es) recs (st_pending s))"
  using assms
proof (induction es arbitrary: T)
  case (Cons e es)
  obtain m v where e: "e = (m, v)" by (cases e)
  have T: "T - {mut_Coord m} - mut_Coord ` fst ` set es = T - mut_Coord ` fst ` set (e # es)" by (auto simp: e)
  have "triple (\<lambda>s. Quiet g recs F s \<and> pend_part (T - {mut_Coord m}) recs (st_pending s)) (publish_mutations es)
      (\<lambda>_ s. Quiet g recs F s \<and> pend_part (T - mut_Coord ` fst ` set (e # es)) recs (st_pending s))"
    unfolding T [symmetric] by (rule Cons.IH) (use Cons.prems in auto)
  then show ?case unfolding e publish_mutations.simps Let_def prod.case
    by (intro triple_andThen [OF triple_total [OF total_publish_in_memory publish_in_memory_quiet]]) (use Cons.prems [of m v] e in auto)
qed (simp add: triple_def ret_def)

lemma total_publish_mutations [totals]: "total (publish_mutations es)"
  by (induction es) (auto intro!: totals)

lemma commit_batch_tail_inv:
  assumes "pend_ok recs ps" "distinct (map mut_Coord ms)" "length versions = length ms"
  shows "triple (\<lambda>s. Quiet g (recs @ map mutation_record ms) F s \<and> st_pending s = ps) (commit_batch_tail ms versions records)
     (outcome g recs (map mutation_record ms) F ps)"
proof -
  let ?new = "map mutation_record ms" and ?m = "commit_batch_tail ms versions records"
  let ?P = "\<lambda>T s. Quiet g (recs @ ?new) F s \<and> pend_part T (recs @ ?new) (st_pending s)" and ?I = "inv g (disk_view g (recs @ ?new) F)"
  have st: "last_state (recs @ ?new) (mut_Coord m) = Some (chunk_payload (mutation_chunk m), chunk_presence (mutation_chunk m))"
    if "(m, v) \<in> set (zip ms versions)" for m v
    using last_state_batch [OF assms(2), of m] set_zip_leftD [OF that] by (simp add: last_state_append)
  have all: "mut_Coord ` set ms - mut_Coord ` fst ` set (zip ms versions) = {}"
    using assms(3) by (simp flip: set_map)
  have fin: "triple ?I (andThen finish_commit (\<lambda>_. andThen finishCommittedSnapshot (\<lambda>_. ret versions))) (\<lambda>_. ?I)"
    by (rule triple_andThen [OF finish_commit_inv]) (rule triple_meta [OF meta_stable_inv], intro tames, simp)
  have "triple (?P (mut_Coord ` set ms)) ?m (\<lambda>_. ?I)"
    unfolding commit_batch_tail_def
  proof (rule triple_total_seq [OF meta_stable_pending [OF meta_stable_phases(1)] tame_update total_basic(2)])
    show "triple (?P (mut_Coord ` set ms)) (andThen (publish_mutations (zip ms versions)) (\<lambda>_.
        andThen finish_commit (\<lambda>_. andThen finishCommittedSnapshot (\<lambda>_. ret versions)))) (\<lambda>_. ?I)"
      by (rule triple_andThen [OF triple_total [OF total_publish_mutations publish_mutations_quiet [OF st]]])
        (assumption, rule triple_conseq [OF fin], auto simp: inv_def pend_part_empty all)
  qed simp
  moreover have "total ?m" unfolding commit_batch_tail_def by (intro totals)
  ultimately have "triple (?P (mut_Coord ` set ms)) ?m (\<lambda>r s. ?I s \<and> (\<exists>x. r = Inr x))" by (rule triple_total [rotated])
  then show ?thesis
    by (rule triple_conseq) (use pend_part_start [OF assms(1), of ?new] in \<open>auto simp: outcome_of_def image_image\<close>)
qed

section \<open>The commit of a batch\<close>

lemma batch_buffer_bytes:
  assumes "grow_enough grow" "wf_records g (map mutation_record ms)"
  shows "buf_bytes (batch_buffer grow g ms) = wal_bytes g (map mutation_record ms)"
proof -
  have "batch_buffer grow g ms = foldl (\<lambda>b r. appendWALRecord grow g b (wal_coord r) (wal_payload r) (wal_presence r))
      \<lparr>buf_bytes = [], buf_cap = 0\<rparr> (map mutation_record ms)"
    by (simp add: batch_buffer_def foldl_map mutation_record_def chunk_record_def)
  then show ?thesis using appendWALRecord_batch [OF assms(1), of "map mutation_record ms" g "\<lparr>buf_bytes = [], buf_cap = 0\<rparr>"] assms(2)
    by (simp add: wf_records_def wal_bytes_def)
qed

lemma wf_batch:
  assumes "checked g ms" "\<forall>m\<in>set ms. \<forall>ch. mut_Chunk m = Some ch \<longrightarrow> wf_chunk ch"
  shows "wf_records g (map mutation_record ms)"
  using assms wf_chunk_record by (fastforce simp: wf_records_def checked_def mutation_record_def mutation_chunk_def)

lemma commit_batch_outcome:
  assumes "checked g ms" "\<forall>m\<in>set ms. \<forall>ch. mut_Chunk m = Some ch \<longrightarrow> wf_chunk ch" "pend_ok recs ps"
  shows "triple (\<lambda>s. Quiet g recs F s \<and> st_pending s = ps) (commit_batch ms v) (outcome g recs (map mutation_record ms) F ps)"
  unfolding commit_batch_def
proof (rule triple_catch [OF triple_keep [OF walSize_quiet tame_walSize [of g "{}"]]])
  let ?new = "map mutation_record ms" and ?vs = "batch_versions v (length ms)"
  let ?O = "outcome g recs ?new F ps :: uint64 list result \<Rightarrow> Store \<Rightarrow> bool"
  let ?b = "of_nat (length (wal_bytes g recs)) :: uint64"
  show "triple (\<lambda>s. (Quiet g recs F s \<and> (\<forall>b. Inl e = Inr b \<longrightarrow> b = ?b)) \<and> st_pending s = ps) (reject e) ?O" for e
    by (rule guarded_triple [OF guarded_reject]) (auto simp: rejected_def Down_def)
  note new = wf_batch [OF assms(1,2)]
  have tail: "triple (\<lambda>s. Quiet g (recs @ ?new) F s \<and> st_pending s = ps) (commit_batch_tail ms ?vs (wal_bytes g ?new)) ?O"
    by (rule commit_batch_tail_inv [OF assms(3)]) (use assms(1) in \<open>auto simp: checked_def batch_versions_def\<close>)
  have K: "triple (\<lambda>s. Armed g recs [] F s \<and> st_pending s = ps) (commit_batch_records ms ?vs ?b (wal_bytes g ?new) u) ?O" for u
    unfolding commit_batch_records_def by (rule commit_outcome [OF new guarded_reject tail refl])
  let ?k = "\<lambda>boundary. catch (publishIntent intentRollback boundary) (\<lambda>err. catch (abandon_rollback_intent err) reject ret) (\<lambda>_.
      andThen (state_of (\<lambda>s. (buf_bytes (batch_buffer (st_grow s) (st_geometry s) ms), st_walUnsyncedUpdates s)))
        (\<lambda>(records, unsyncedBefore). commit_batch_records ms ?vs boundary records unsyncedBefore))"
  have A: "triple (\<lambda>s. Quiet g recs F s \<and> st_pending s = ps) (?k ?b) ?O"
  proof (rule arm_outcome [OF guarded_reject triple_observe refl])
    fix s assume "Armed g recs [] F s \<and> st_pending s = ps"
    then have "buf_bytes (batch_buffer (st_grow s) (st_geometry s) ms) = wal_bytes g ?new"
      using batch_buffer_bytes [OF _ new] by (auto simp: Armed_def base_def)
    then show "triple (\<lambda>s. Armed g recs [] F s \<and> st_pending s = ps)
        (case (buf_bytes (batch_buffer (st_grow s) (st_geometry s) ms), st_walUnsyncedUpdates s) of
          (records, unsyncedBefore) \<Rightarrow> commit_batch_records ms ?vs ?b records unsyncedBefore) ?O" using K by simp
  qed
  show "triple (\<lambda>s. (Quiet g recs F s \<and> (\<forall>b. Inr x = Inr b \<longrightarrow> b = ?b)) \<and> st_pending s = ps) (?k x) ?O" for x
    by (cases "x = ?b") (use A in \<open>auto simp: triple_def\<close>)
qed (auto dest: Quiet_geometry)

lemma triple_if: "(b \<Longrightarrow> triple P m Q) \<Longrightarrow> (\<not> b \<Longrightarrow> triple P n Q) \<Longrightarrow> triple P (if b then m else n) Q"
  by simp

lemma triple_case_prod: "(\<And>a b. triple P (f a b) Q) \<Longrightarrow> triple P (case x of (a, b) \<Rightarrow> f a b) Q"
  by (cases x) simp

lemma ConditionalWriteChunks_settled:
  assumes "\<forall>m\<in>set ms. \<forall>ch. mut_Chunk m = Some ch \<longrightarrow> wf_chunk ch"
  shows "triple (inv g D) (ConditionalWriteChunks ms) (settled g D (overlay (map mutation_record ms) D))"
proof (cases "ms = []")
  case False
  let ?D' = "overlay (map mutation_record ms) D"
  have com: "triple (inv g D) (commit_batch ms v) (settled g D ?D')" if "checked g ms" for v
  proof (rule tripleI)
    fix s r s' assume i: "inv g D s" and m: "commit_batch ms v s = (r, s')"
    obtain recs F where q: "Quiet g recs F s" "pend_ok recs (st_pending s)" "disk_view g recs F = D" using i by (auto simp: inv_def)
    from outcome_settled [OF q(2) tripleD [OF commit_batch_outcome [OF that assms q(2)] conjI [OF q(1) refl] m]] q(3)
    show "settled g D ?D' r s'" by simp
  qed
  have fin: "triple (inv g D) (andThen (state_of st_versionClock) (\<lambda>clock.
     if of_nat (length ms) > MaxUint64 - clock then reject [ErrVersionOverflow]
     else catch (persistVersionClock (clock + of_nat (length ms))) reject (\<lambda>_.
     andThen (update (\<lambda>s. s\<lparr>st_versionClock := clock + of_nat (length ms)\<rparr>)) (\<lambda>_.
     commit_batch ms (clock + of_nat (length ms)))))) (settled g D ?D')" (is "triple _ ?fin _") if "checked g ms"
  proof -
    have "triple (inv g D) (catch (persistVersionClock v) reject (\<lambda>_. andThen (update (\<lambda>s. s\<lparr>st_versionClock := v\<rparr>)) (\<lambda>_. commit_batch ms v)))
        (settled g D ?D')" for v
      by (rule triple_catch [OF triple_meta [OF meta_stable_inv tame_persistVersionClock] triple_reject(1)]) (intro triple_inv_seq tames com that)
    then show ?thesis by (intro triple_inv_seq tames) (simp add: triple_reject(1))
  qed
  have chk: "triple (inv g D) (andThen (check_mutations [] ms) (\<lambda>_. ?fin)) (settled g D ?D')"
    by (rule triple_andThen [OF check_mutations_fine]) (use fin settled_inv in \<open>auto simp: triple_def\<close>)
  show ?thesis unfolding ConditionalWriteChunks_def Let_def if_not_P [OF False]
    by (intro chk triple_if triple_case_prod triple_reject triple_retry_seq triple_inv_seq tames)
qed (simp add: ConditionalWriteChunks_def triple_reject)

end
