(* ===== verification/StoreRecovery.thy ===== *)
theory StoreRecovery
  imports StoreBatch
begin

text \<open>
  Opening a data directory: \<^verbatim>\<open>Open\<close> of \<^verbatim>\<open>store.go\<close> with the recovery of \<^verbatim>\<open>conditional_intent.go\<close> and
  \<^verbatim>\<open>wal_recovery.go\<close>.  Recovery keeps the abstract contents of the directory at every failure and crash point, and
  a store that opened starts in the invariant of the write operations.
\<close>

section \<open>Steps of recovery that touch no chunk\<close>

lemma harmless_walk [frames]: "harmless X walk_root" "harmless X (enter_directory p)"
proof -
  have "harmless X (os_call (OsReadDir []) untouched (\<lambda>w. (Inr (sort (map fst (w_files w) @ w_dirs w)), w)))"
    by (rule harmless_os_call) auto
  then show "harmless X walk_root" unfolding walk_root_def by (intro frames)
  show "harmless X (enter_directory p)" unfolding enter_directory_def by (intro frames)
qed

lemma harmless_for_each: "(\<And>x. harmless X (f x)) \<Longrightarrow> harmless X (for_each xs f)"
  by (induction xs) (auto intro!: frames)

lemma harmless_reclaim [frames]: "harmless X (reclaimStaleChunkTemporaryFiles n)"
proof -
  have "harmless X (reclaim_entry p)" for p
    unfolding reclaim_entry_def by (intro frames harmless_os_writes) auto
  then show ?thesis unfolding reclaimStaleChunkTemporaryFiles_def by (intro frames harmless_for_each)
qed

lemma tame_walks [tames]: "tame g X (on_world walk_root)" "tame g X (on_world (enter_directory p))" "tame g X (on_world (reclaimStaleChunkTemporaryFiles n))"
  by (intro tame_on_world frames)+

lemma tame_highest_loop [tames]: "tame g X (highest_loop ps h)"
  by (induction ps arbitrary: h) (auto intro!: tames)

lemma tame_loadVersionClock [tames]: "tame g (meta_paths g) loadVersionClock"
  unfolding loadVersionClock_def highestPersistedChunkVersion_def by (intro tames)

lemma tame_readSnapshotGeneration [tames]: "tame g X readSnapshotGeneration"
  unfolding readSnapshotGeneration_def by (intro tames)

lemma tame_beginWriterSnapshot [tames]: "tame g (meta_paths g) beginWriterSnapshot"
  unfolding beginWriterSnapshot_def by (intro tames tame_update) simp

lemma tame_changed_coords [tames]: "tame g X (changed_coords es changed)"
  by (induction es arbitrary: changed) (auto intro!: tames split: sum.split)

lemma tame_reserveRecoveryVersions [tames]: "tame g (meta_paths g) (reserveRecoveryVersions recs)"
  unfolding reserveRecoveryVersions_def Let_def by (intro tames)

section \<open>The intent\<close>

text \<open>The directory has the records \<open>recs\<close>, whether or not a write was under way when it was left.\<close>

definition Left :: "Geometry \<Rightarrow> walRecord list \<Rightarrow> (Coord \<Rightarrow> bytes option) \<Rightarrow> Store \<Rightarrow> bool" where
  "Left g recs F s \<longleftrightarrow> (Quiet g recs F s \<or> (\<exists>tail. Armed g recs tail F s)) \<and> st_pending s = []"

lemma meta_stable_Left: "meta_stable g (Left g recs F)"
  unfolding Left_def by (intro meta_stable_pending meta_stable_or meta_stable_ex meta_stable_phases)

lemma Left_holds: "Left g recs F s \<Longrightarrow> disk_holds g (disk_view g recs F) s"
  unfolding Left_def disk_holds_def by blast

lemma Left_log: "Left g recs F s \<Longrightarrow> content (st_world s) walPath \<noteq> None"
  by (auto simp: Left_def Quiet_def quiet_def Armed_def armed_def)

lemma openWAL_present:
  assumes "content w walPath \<noteq> None"
  shows "openWAL w = os_open walPath w"
  using assms by (auto simp: openWAL_def os_open_def os_call_def catch_def ret_def raise_def errors_is_def Let_def split: fault.splits prod.splits sum.splits)

lemma openWAL_Left: "triple (Left g recs F) (on_world openWAL) (\<lambda>_. Left g recs F)"
proof (rule tripleI)
  fix s r s' assume l: "Left g recs F s" and m: "on_world openWAL s = (r, s')"
  have "on_world (os_open walPath) s = (r, s')" using m openWAL_present [OF Left_log [OF l]] by (simp add: on_world_def)
  from tripleD [OF triple_meta [OF meta_stable_Left tame_reads(4)] l this] show "Left g recs F s'" .
qed

lemma readIntent_boundary:
  assumes "Armed g recs tail F s" "readIntent s = (Inr (st, b), s')"
  shows "st = intentRollback \<and> b = of_nat (length (wal_bytes g recs))"
  using readIntent_Inr [OF assms(2)] assms(1) by (auto simp: Armed_def armed_def rollback_mark_def encodeIntent_inject base_def)

lemma armed_resolved:
  "triple (\<lambda>s. Armed g recs tail F s \<and> st_pending s = []) (andThen readIntent (\<lambda>(state, boundary).
       andThen (if state = intentRollback then rollbackWAL boundary else ret ()) (\<lambda>_. clearIntent)))
     (\<lambda>r s. Left g recs F s \<and> (r = Inr () \<longrightarrow> Quiet g recs F s))"
proof (rule triple_andThen [where R = "\<lambda>r s. (Armed g recs tail F s \<and> st_pending s = []) \<and>
     (\<forall>st b. r = Inr (st, b) \<longrightarrow> st = intentRollback \<and> b = of_nat (length (wal_bytes g recs)))"])
  let ?A = "\<lambda>s. Armed g recs tail F s \<and> st_pending s = []" and ?b = "of_nat (length (wal_bytes g recs)) :: uint64"
  let ?Q = "\<lambda>r s. Left g recs F s \<and> (r = Inr () \<longrightarrow> Quiet g recs F s)"
  show "triple ?A readIntent (\<lambda>r s. ?A s \<and> (\<forall>st b. r = Inr (st, b) \<longrightarrow> st = intentRollback \<and> b = ?b))"
  proof (rule tripleI)
    fix s r s' assume a: "?A s" and m: "readIntent s = (r, s')"
    have "triple ?A readIntent (\<lambda>_. ?A)" by (rule triple_meta [OF meta_stable_pending [OF meta_stable_phases(2)] tame_readIntent])
    from tripleD [OF this a m] show "?A s' \<and> (\<forall>st b. r = Inr (st, b) \<longrightarrow> st = intentRollback \<and> b = ?b)" using readIntent_boundary a m by blast
  qed
  have clr: "triple (\<lambda>s. Armed g recs [] F s \<and> st_pending s = []) clearIntent ?Q"
    by (rule triple_conseq [OF triple_keep [OF clear_armed tame_clearIntent [of UNIV g]]]) (auto dest: Armed_geometry simp: Left_def)
  have roll: "triple ?A (andThen (rollbackWAL ?b) (\<lambda>_. clearIntent)) ?Q"
    by (rule triple_andThen [OF triple_keep [OF rollback_armed tame_rollbackWAL [of UNIV g]]])
      (use clr in \<open>auto simp: triple_def Left_def dest: Armed_geometry\<close>)
  show "triple (\<lambda>s. ?A s \<and> (\<forall>st b. Inr x = Inr (st, b) \<longrightarrow> st = intentRollback \<and> b = ?b)) (case x of (state, boundary) \<Rightarrow>
       andThen (if state = intentRollback then rollbackWAL boundary else ret ()) (\<lambda>_. clearIntent)) ?Q" for x
    using roll by (cases x) (auto simp: triple_def)
qed (auto simp: Left_def)

lemma quiet_resolved:
  "triple (\<lambda>s. Quiet g recs F s \<and> st_pending s = []) (andThen readIntent (\<lambda>(state, boundary).
       andThen (if state = intentRollback then rollbackWAL boundary else ret ()) (\<lambda>_. clearIntent)))
     (\<lambda>_ s. Quiet g recs F s \<and> st_pending s = [])"
proof (rule triple_andThen [OF triple_keep [OF readIntent_quiet tame_readIntent [of g "{}"]]])
  have clr: "triple (\<lambda>s. Quiet g recs F s \<and> st_pending s = []) clearIntent (\<lambda>_ s. Quiet g recs F s \<and> st_pending s = [])"
    by (rule triple_keep [OF clear_quiet tame_clearIntent [of UNIV g]]) (auto dest: Quiet_geometry)
  show "triple (\<lambda>s. (Quiet g recs F s \<and> (\<forall>st b. Inr x = Inr (st, b) \<longrightarrow> st = intentCommitted)) \<and> st_pending s = []) (case x of (state, boundary) \<Rightarrow>
       andThen (if state = intentRollback then rollbackWAL boundary else ret ()) (\<lambda>_. clearIntent)) (\<lambda>_ s. Quiet g recs F s \<and> st_pending s = [])" for x
    using clr by (cases x; cases "fst x") (auto simp: triple_def andThen_def catch_def ret_def)
qed (auto dest: Quiet_geometry)

lemma read_dir_armed:
  assumes "Armed g recs tail F s" "on_world (os_read_dir intentDirectory) s = (r, s')"
  shows "case r of Inl e \<Rightarrow> \<not> errors_is e ErrNotExist | Inr entries \<Rightarrow> entries \<noteq> []"
proof -
  have d: "is_dir (st_world s) intentDirectory" "content (st_world s) intentPath \<noteq> None" using Armed_dirs [OF assms(1)] by blast+
  have "intentPath \<in> fst ` set (w_files (st_world s))" using d(2) by (metis content_def map_of_eq_None_iff)
  then have "filter (\<lambda>q. q \<noteq> [] \<and> butlast q = intentDirectory) (map fst (w_files (st_world s)) @ ds) \<noteq> []" for ds
    by (force simp: filter_empty_conv intentPath_def intentDirectory_def)
  moreover have "sort (remdups (map last (xs :: path list))) = [] \<longleftrightarrow> xs = []" for xs
    by (metis Nil_is_map_conv remdups_eq_nil_iff set_empty set_sort)
  ultimately have "sort (remdups (map last (filter (\<lambda>q. q \<noteq> [] \<and> butlast q = intentDirectory) (map fst (w_files (st_world s)) @ ds)))) \<noteq> []" for ds
    by presburger
  then show ?thesis using assms(2) d(1)
    by (auto simp del: filter_append map_append simp: on_world_def os_read_dir_def os_call_def Let_def errors_is_def split: if_splits fault.splits prod.splits sum.splits)
qed

lemma recoverConditionalIntent_Left:
  "triple (Left g recs F) recoverConditionalIntent (\<lambda>r s. Left g recs F s \<and> (r = Inr () \<longrightarrow> Quiet g recs F s))"
  unfolding recoverConditionalIntent_def
proof (rule triple_inspect [OF meta_stable_Left])
  let ?Q = "\<lambda>r s. Left g recs F s \<and> (r = Inr () \<longrightarrow> Quiet g recs F s)"
  let ?A = "\<lambda>s. \<exists>tail. Armed g recs tail F s \<and> st_pending s = []" and ?N = "\<lambda>s. Quiet g recs F s \<and> st_pending s = []"
  let ?R = "\<lambda>r s. (?A s \<and> (case r of Inl e \<Rightarrow> \<not> errors_is e ErrNotExist | Inr entries \<Rightarrow> entries \<noteq> [])) \<or> ?N s"
  let ?k = "andThen readIntent (\<lambda>(state, boundary). andThen (if state = intentRollback then rollbackWAL boundary else ret ()) (\<lambda>_. clearIntent))"
  have k: "triple ?A ?k ?Q" "triple ?N ?k ?Q"
    using armed_resolved [of g recs _ F] quiet_resolved [of g recs F] unfolding triple_def Left_def by blast+
  fix c
  show "triple (Left g recs F) (catch (on_world (os_read_dir intentDirectory))
       (\<lambda>err. if errors_is err ErrNotExist then ret () else raise err)
       (\<lambda>entries. andThen (state_of st_world) (\<lambda>w.
          if list_ex (\<lambda>name. name \<noteq> intentFileName \<or> is_dir w (intentDirectory @ [name])) entries then raise [ErrCorruptIntent]
          else if entries = [] then ret () else ?k))) ?Q"
  proof (rule triple_catch [where R = ?R])
    show "triple (Left g recs F) (on_world (os_read_dir intentDirectory)) ?R"
    proof (rule tripleI)
      fix s r s' assume l: "Left g recs F s" and m: "on_world (os_read_dir intentDirectory) s = (r, s')"
      have f: "same_core g s s'" "st_pending s' = st_pending s"
        using tameD [OF tame_reads(5) [of g "meta_paths g"] _ m] l sframe_meta_core sframe_pending
        by (auto simp: Left_def dest: Quiet_geometry Armed_geometry)
      from l show "?R r s'" unfolding Left_def using read_dir_armed [OF _ m] core_Quiet [OF f(1)] core_Armed [OF f(1)] f(2) by metis
    qed
    show "triple (?R (Inl e)) (if errors_is e ErrNotExist then ret () else raise e) ?Q" for e
      by (auto simp: triple_def ret_def raise_def Left_def)
    show "triple (?R (Inr entries)) (andThen (state_of st_world) (\<lambda>w.
          if list_ex (\<lambda>name. name \<noteq> intentFileName \<or> is_dir w (intentDirectory @ [name])) entries then raise [ErrCorruptIntent]
          else if entries = [] then ret () else ?k)) ?Q" for entries
    proof (rule triple_observe, intro triple_if)
      show "triple (?R (Inr entries)) (raise [ErrCorruptIntent]) ?Q" by (auto simp: triple_def raise_def Left_def)
      show "triple (?R (Inr entries)) (ret ()) ?Q" if "entries = []" using that by (auto simp: triple_def ret_def Left_def)
      show "triple (?R (Inr entries)) ?k ?Q" using k by (auto simp: triple_def)
    qed
  qed
qed simp

section \<open>The log\<close>

lemma persistChunk_filed:
  assumes "persistChunk (wal_coord r) (wal_payload r) (wal_presence r) b s = (Inr (), s')" "st_geometry s = g"
    and wf: "wf_geometry g" "wf_record g r"
  shows "filed g (wal_coord r) (record_state r) s'"
proof -
  obtain ch where ch: "wf_chunk ch" "chunk_geometry ch = g" "chunk_payload ch = wal_payload r" "chunk_presence ch = wal_presence r"
    using wf_record_chunk [OF wf] .
  define e where "e = encodeState g (wal_coord r) (wal_payload r) (wal_presence r)"
  let ?p = "chunkPath g (wal_coord r)"
  obtain t1 t2 where t: "on_world (writeAtomic ?p e b) t1 = (Inr (), t2)" "(if \<not> b then pendingSync_add ?p else ret ()) t2 = (Inr (), s')"
    using assms(1,2) by (auto simp: persistChunk_def andThen_Inr state_of_def Let_def e_def)
  have "content (st_world t2) ?p = Some e" using on_world_writeAtomic_Inr [OF t(1)] by simp
  then have "content (st_world s') ?p = Some e"
    using t(2) by (auto simp: pendingSync_add_def update_def ret_def split: if_splits)
  moreover have "decode g (wal_coord r) e = Inr ch" using decode_encodeState [OF ch(1), of "wal_coord r"] ch by (simp add: e_def)
  ultimately show ?thesis using ch by (simp add: filed_def file_state_def chunk_files_def record_state_def)
qed

lemma files_record_recovery:
  "files_record g (\<lambda>r. andThen (persistChunk (wal_coord r) (wal_payload r) (wal_presence r) b) (\<lambda>_. cache_forget (wal_coord r)))"
  unfolding files_record_def
proof (intro conjI allI impI)
  fix r :: walRecord
  show "tame g ({chunkPath g (wal_coord r)} \<union> meta_paths g) (andThen (persistChunk (wal_coord r) (wal_payload r) (wal_presence r) b) (\<lambda>_. cache_forget (wal_coord r)))"
    by (intro tames tame_persistChunk)
  fix s s' assume a: "andThen (persistChunk (wal_coord r) (wal_payload r) (wal_presence r) b) (\<lambda>_. cache_forget (wal_coord r)) s = (Inr (), s')"
    and g: "st_geometry s = g" and wf: "wf_geometry g" "wf_record g r"
  obtain t where t: "persistChunk (wal_coord r) (wal_payload r) (wal_presence r) b s = (Inr (), t)" "cache_forget (wal_coord r) t = (Inr (), s')"
    using a by (auto simp: andThen_Inr)
  then show "filed g (wal_coord r) (record_state r) s'"
    using persistChunk_filed [OF t(1) g wf] by (auto simp: cache_forget_def update_def filed_def)
qed

lemma replaceWAL_inv: "triple (replayed g recs F recs) (replaceWALAfterReplay b) (\<lambda>_. inv g (disk_view g recs F))"
proof -
  let ?I = "inv g (disk_view g recs F)"
  have w: "triple (replayed g recs F recs) (on_world (writeAtomic walPath [] b)) (\<lambda>_. ?I)"
    by (rule drop_replayed) (intro frames, auto dest: writeAtomic_eff(2) [rotated])
  have "triple ?I (andThen acquire_wal (\<lambda>_. andThen (update (\<lambda>s. s\<lparr>st_walUnsyncedUpdates := 0\<rparr>)) (\<lambda>_.
     if b then recordWALFlush walCheckpointFlush else ret ()))) (\<lambda>_. ?I)"
    by (rule triple_meta [OF meta_stable_inv]) (intro tames)
  then show ?thesis unfolding replaceWALAfterReplay_def
    by (intro triple_tame_seq [OF meta_stable_replayed tame_reads(3)] triple_andThen [OF w]) (auto simp: replayed_def intro: replayed_inv)
qed

lemma triple_known: "triple P (f v) Q \<Longrightarrow> triple (\<lambda>s. P s \<and> (\<forall>y. Inr x = Inr y \<longrightarrow> y = v)) (f x) Q"
  by (cases "x = v") (auto simp: triple_def)

lemma recoverWAL_inv:
  "triple (\<lambda>s. Quiet g recs F s \<and> st_pending s = []) recoverWAL (\<lambda>_. inv g (disk_view g recs F))"
proof -
  let ?P = "\<lambda>s. Quiet g recs F s \<and> st_pending s = []" and ?I = "inv g (disk_view g recs F)"
  have P: "meta_stable g ?P" by (rule meta_stable_pending [OF meta_stable_phases(1)])
  have stop: "?I s" if "?P s" for s using replayed_inv that by blast
  have none: "replayed g recs F [] = ?P" by (simp add: fun_eq_iff replayed_def)
  have scan: "triple ?P (scan_wal (\<lambda>_. ret ())) (\<lambda>r s. ?P s \<and> (\<forall>x. r = Inr x \<longrightarrow> x = (length recs * recordBytes g, recs)))"
    by (rule scan_quiet [where Q = "\<lambda>_. ?P"], rule triple_meta [OF P], intro tame_for_each tames) (auto simp: map_sum_def split: sum.splits)
  have tail: "triple (replayed g recs F recs) (andThen acquire_wal (\<lambda>_. andThen (on_world (os_size walPath)) (\<lambda>sourceBytes.
     if length recs \<noteq> 0 \<or> n \<noteq> sourceBytes then replaceWALAfterReplay b else ret ()))) (\<lambda>_. ?I)" for n b
    by (intro triple_tame_seq [OF meta_stable_replayed] tames triple_if replaceWAL_inv)
      (auto simp: triple_def ret_def replayed_def intro: replayed_inv)
  have loop: "triple ?P (andThen (for_each recs (\<lambda>r. andThen (persistChunk (wal_coord r) (wal_payload r) (wal_presence r) b)
       (\<lambda>_. cache_forget (wal_coord r)))) (\<lambda>_. andThen acquire_wal (\<lambda>_. andThen (on_world (os_size walPath)) (\<lambda>sourceBytes.
     if length recs \<noteq> 0 \<or> n \<noteq> sourceBytes then replaceWALAfterReplay b else ret ())))) (\<lambda>_. ?I)" if "wf_records g recs" for n b
  proof (rule triple_andThen)
    show "triple ?P (for_each recs (\<lambda>r. andThen (persistChunk (wal_coord r) (wal_payload r) (wal_presence r) b) (\<lambda>_. cache_forget (wal_coord r))))
        (\<lambda>x s. Quiet g recs F s \<and> st_pending s = [] \<and> (x = Inr () \<longrightarrow> replayed g recs F recs s))"
      using replay_loop [OF files_record_recovery [of g b], of recs recs F "[]"] that none by (simp add: wf_records_def)
    show "triple (\<lambda>s. Quiet g recs F s \<and> st_pending s = [] \<and> (Inr x = Inr () \<longrightarrow> replayed g recs F recs s)) (andThen acquire_wal (\<lambda>_.
        andThen (on_world (os_size walPath)) (\<lambda>sourceBytes. if length recs \<noteq> 0 \<or> n \<noteq> sourceBytes then replaceWALAfterReplay b else ret ()))) (\<lambda>_. ?I)" for x
      by (rule triple_conseq [OF tail]) auto
  qed (use stop in auto)
  have body: "triple ?P (andThen (reserveRecoveryVersions recs) (\<lambda>recoveryVersions.
     andThen (state_of syncs_data) (\<lambda>syncData.
     andThen (state_of (\<lambda>s. range_over (st_world s) recoveryVersions)) (\<lambda>versions.
     andThen (for_each versions (\<lambda>(coord, version). persistChunkVersion coord version syncData)) (\<lambda>_.
     andThen (for_each recs (\<lambda>r. andThen (persistChunk (wal_coord r) (wal_payload r) (wal_presence r) syncData)
       (\<lambda>_. cache_forget (wal_coord r)))) (\<lambda>_.
     andThen acquire_wal (\<lambda>_.
     andThen (on_world (os_size walPath)) (\<lambda>sourceBytes.
     if length recs \<noteq> 0 \<or> n \<noteq> sourceBytes then replaceWALAfterReplay syncData else ret ())))))))) (\<lambda>_. ?I)" for n
  proof (cases "wf_records g recs")
    case True
    show ?thesis by (intro triple_tame_seq [OF P _ loop [OF True]] triple_tame_seq [OF P] tame_for_each tame_case_prod tames stop)
  qed (auto simp: triple_def Quiet_def quiet_def)
  show ?thesis unfolding recoverWAL_def
    by (rule triple_andThen [OF scan], rule triple_known, simp only: prod.case, rule body) (use stop in auto)
qed

section \<open>Opening\<close>

lemma open_writer_inv:
  "triple (Left g recs F) open_writer (\<lambda>r s. disk_holds g (disk_view g recs F) s \<and> ((\<exists>x. r = Inr x) \<longrightarrow> inv g (disk_view g recs F) s))"
proof -
  let ?I = "inv g (disk_view g recs F)"
  let ?Q = "\<lambda>r s. disk_holds g (disk_view g recs F) s \<and> ((\<exists>x. r = Inr x) \<longrightarrow> ?I s)"
  have stop: "?Q (Inl e) s" if "Left g recs F s" for e :: error and s using Left_holds [OF that] by blast
  have fin: "triple ?I (andThen (finishWriterSnapshot True) (\<lambda>_. start_maintenance)) (\<lambda>_. ?I)"
    unfolding start_maintenance_def by (rule triple_meta [OF meta_stable_inv]) (intro tames tame_update, simp)
  have wal: "triple (\<lambda>s. Quiet g recs F s \<and> st_pending s = []) (andThen recoverWAL (\<lambda>_. andThen (finishWriterSnapshot True) (\<lambda>_. start_maintenance))) ?Q"
    by (rule triple_conseq [OF triple_andThen [OF recoverWAL_inv fin]]) (auto intro: inv_holds)
  have int: "triple (Left g recs F) (andThen recoverConditionalIntent (\<lambda>_. andThen recoverWAL (\<lambda>_. andThen (finishWriterSnapshot True) (\<lambda>_. start_maintenance)))) ?Q"
    by (rule triple_andThen [OF recoverConditionalIntent_Left]) (use wal stop in \<open>auto simp: triple_def Left_def\<close>)
  have wal': "triple (Left g recs F) (andThen (on_world openWAL) f) ?Q" if "\<And>x. triple (Left g recs F) (f x) ?Q" for f :: "unit \<Rightarrow> unit sop"
    by (rule triple_andThen [OF openWAL_Left that stop])
  show ?thesis unfolding open_writer_def
    by (intro int wal' triple_tame_seq [OF meta_stable_Left] tames stop)
qed

end
