(* ===== verification/StoreSafety.thy ===== *)
theory StoreSafety
  imports StoreRecovery
begin

text \<open>
  What a user of the store can rely on: the crash safety of writes and of recovery, stated over the abstract contents
  of the data directory.
\<close>

section \<open>Restarts\<close>

text \<open>
  The process is started again after it stopped: the files are as the system calls left them, the faults that lie ahead are new
  ones.  This is a crash of the process; the loss of data that was written and not yet synchronised is not modelled.
\<close>

definition reboot :: "(nat \<Rightarrow> oscall \<Rightarrow> fault) \<Rightarrow> (nat \<Rightarrow> string) \<Rightarrow> world \<Rightarrow> world" where
  "reboot oracle random w = w\<lparr>w_oracle := oracle, w_random := random, w_halted := False\<rparr>"

lemma reboot_simps [simp]: "content (reboot oracle random w) = content w" "is_dir (reboot oracle random w) = is_dir w"
  by (simp_all add: fun_eq_iff reboot_def content_def is_dir_def)

lemma reboot_disk [simp]:
  "disk_state g (reboot oracle random w) = disk_state g w" "sound_disk g (reboot oracle random w) = sound_disk g w"
proof -
  have "wal_content (reboot oracle random w) = wal_content w" "chunk_files g (reboot oracle random w) = chunk_files g w"
    by (simp_all add: wal_content_def chunk_files_def fun_eq_iff)
  note w = this
  have "effective_wal (reboot oracle random w) = effective_wal w" unfolding effective_wal_def reboot_simps w ..
  then show "disk_state g (reboot oracle random w) = disk_state g w" "sound_disk g (reboot oracle random w) = sound_disk g w"
    unfolding disk_state_def sound_disk_def reboot_simps w by simp_all
qed

lemma reboot_Left:
  assumes "disk_holds g D s" "grow_enough grow"
  obtains recs F where "disk_view g recs F = D" "Left g recs F (new_store g opts grow (reboot oracle random (st_world s)))"
proof -
  obtain recs F where h: "Quiet g recs F s \<or> (\<exists>tail. Armed g recs tail F s)" "disk_view g recs F = D"
    using assms(1) by (auto simp: disk_holds_def)
  let ?s = "new_store g opts grow (reboot oracle random (st_world s))"
  have w: "st_world ?s = reboot oracle random (st_world s)" "st_pending ?s = []" by (simp_all add: new_store_def)
  have b: "base g ?s" using h(1) assms(2)
    by (auto simp: base_def Quiet_def Armed_def new_store_def wf_world_def reboot_def content_def is_dir_def)
  have "Left g recs F ?s" using h(1) b w
    by (auto simp: Left_def Quiet_def Armed_def quiet_def armed_def agree_def)
  then show ?thesis using h(2) that by blast
qed

lemma open_after_crash:
  assumes "disk_holds g D s" "grow_enough grow" "\<not> o_ReadOnly options"
    and "openStore rlimit grow root g options (reboot oracle random (st_world s)) = (r, w')"
  shows "(\<forall>t. r = Inr t \<longrightarrow> inv g D t \<and> st_world t = w') \<and> disk_state g w' = D \<and> sound_disk g w'"
proof -
  have same: "disk_state g (reboot oracle random (st_world s)) = D" "sound_disk g (reboot oracle random (st_world s))"
    using disk_holds_state [OF assms(1)] by simp_all
  show ?thesis
  proof (cases "root = [] \<or> geometry_New (config g) \<noteq> Inr g \<or> (\<exists>e. validated rlimit options = Inl e)")
    case True
    then have "(\<exists>e. r = Inl e) \<and> w' = reboot oracle random (st_world s)" using assms(4) by (auto simp: openStore_def split: if_splits)
    then show ?thesis using same by auto
  next
    case False
    then obtain opts where opts: "validated rlimit options = Inr opts" by (cases "validated rlimit options") auto
    have ro: "\<not> o_ReadOnly opts" using opts assms(3) by (auto simp: validated_eq completed_def split: if_splits)
    obtain recs F where l: "disk_view g recs F = D" "Left g recs F (new_store g opts grow (reboot oracle random (st_world s)))"
      using reboot_Left [OF assms(1,2)] by blast
    obtain x t where x: "open_writer (new_store g opts grow (reboot oracle random (st_world s))) = (x, t)" by fastforce
    from tripleD [OF open_writer_inv l(2) x] l(1) have "disk_holds g D t" "(\<exists>y. x = Inr y) \<longrightarrow> inv g D t" by auto
    moreover have "w' = st_world t" "r = (case x of Inl e \<Rightarrow> Inl e | Inr _ \<Rightarrow> Inr t)"
      using assms(4) False opts ro x by (auto simp: openStore_def split: sum.splits)
    ultimately show ?thesis using disk_holds_state [of g D t] by (auto split: sum.splits)
  qed
qed

section \<open>Writes\<close>

lemma settled_disk:
  assumes "settled g D D' r s"
  shows "disk_state g (st_world s) \<in> {D, D'} \<and> sound_disk g (st_world s) \<and> (\<exists>E\<in>{D, D'}. disk_holds g E s)"
proof -
  have "\<exists>E\<in>{D, D'}. disk_holds g E s" using assms inv_holds stale_holds by (auto simp: settled_def split: sum.splits)
  then show ?thesis using disk_holds_state by blast
qed

text \<open>Stores for concrete instances of the properties: an empty directory on a machine without faults.\<close>

definition sample_world :: world where
  "sample_world = \<lparr>w_files = [(walPath, [])], w_dirs = [], w_oracle = \<lambda>_ _. NoFault, w_random = \<lambda>n. replicate n (CHR ''x''), w_order = \<lambda>_ _. 0,
     w_clock = 0, w_halted = False\<rparr>"

definition sample_store :: Store where
  "sample_store = new_store sample_geometry (completed None sample_options) (\<lambda>cap n. n) sample_world"

definition sample_chunk :: Chunk where
  "sample_chunk = \<lparr>chunk_geometry = sample_geometry, chunk_codec = \<lparr>codec_width = 3, codec_order = LSBFirst\<rparr>,
     chunk_payload = [5, 0], chunk_presence = [1]\<rparr>"

lemma wf_sample_chunk: "wf_chunk sample_chunk"
proof -
  have "ChunkFromState sample_geometry [5, 0] [1] = Inr sample_chunk" by code_simp
  then show ?thesis by (rule ChunkFromState_Inr(1) [OF wf_sample_geometry])
qed

lemma inv_sample_store: "inv sample_geometry (\<lambda>_. Inr None) sample_store"
proof -
  have "base sample_geometry sample_store"
    using wf_sample_geometry by (auto simp: base_def sample_store_def new_store_def grow_enough_def wf_world_def sample_world_def
        content_def is_dir_def walPath_def split: if_splits)
  moreover have "quiet sample_geometry [] (st_world sample_store)"
    by (simp add: quiet_def sample_store_def new_store_def sample_world_def content_def wf_records_def wal_bytes_def small_def)
  moreover have "agree sample_geometry [] (\<lambda>_. None) (st_world sample_store)"
    by (simp add: agree_def sample_store_def new_store_def sample_world_def content_def)
  ultimately have "Quiet sample_geometry [] (\<lambda>_. None) sample_store" by (simp add: Quiet_def)
  moreover have "disk_view sample_geometry [] (\<lambda>_. None) = (\<lambda>_. Inr None)" by (simp add: fun_eq_iff disk_view_def file_state_def)
  moreover have "pend_ok [] (st_pending sample_store)" by (simp add: pend_ok_def sample_store_def new_store_def)
  ultimately show ?thesis unfolding inv_def by blast
qed

text \<open>
  (C1) A write is atomic.  Let the directory hold the contents D and let a well-formed chunk be written, while any system
  call may fail, write only a part, or halt the process.  When the write reports success the directory holds D with that
  chunk replaced and the store keeps its invariant.  When it reports an error, the old contents are still there and the
  store keeps its invariant; or the store accepts no further write; or, and only on a machine that lets some \<^verbatim>\<open>Lstat\<close> of the intent
  fail, the old contents are there and the rollback intent of the rejected write is left behind at the end of the log,
  because the store ignores the error of that call.  In every case, halts included, the directory is one that recovery
  accepts, and it holds exactly the old contents or exactly the new ones.
\<close>

theorem write_chunk_atomic:
  assumes "inv g D s" "wf_chunk ch" "WriteChunk c (Some ch) s = (r, s')"
    and "D' = D(c := Inr (visible (chunk_payload ch, chunk_presence ch)))"
  shows "(case r of Inr _ \<Rightarrow> inv g D' s' \<and> disk_state g (st_world s') = D' | Inl _ \<Rightarrow> inv g D s' \<or> dead s' \<or> (stale g D s' \<and> \<not> stat_ok (st_world s'))) \<and>
     disk_state g (st_world s') \<in> {D, D'} \<and> sound_disk g (st_world s')"
proof -
  have "settled g D D' r s'"
    using tripleD [OF WriteChunk_settled [of "Some ch" g D c] assms(1,3)] assms(2,4) by simp
  then show ?thesis using settled_disk [of g D D' r s'] disk_holds_state(1) [OF inv_holds] by (auto simp: settled_def split: sum.splits)
qed

theorem write_chunk_atomic_witness:
  "disk_state sample_geometry (st_world (snd (WriteChunk (Coord 1 2) (Some sample_chunk) sample_store)))
     \<in> {\<lambda>_. Inr None, (\<lambda>_. Inr None)(Coord 1 2 := Inr (Some ([5, 0], [1])))}"
  using write_chunk_atomic [OF inv_sample_store wf_sample_chunk prod.collapse [symmetric] refl, of "Coord 1 2"]
  by (simp add: sample_chunk_def visible_def emptyPresence_def)

text \<open>
  (C2) A conditional batch is atomic.  Under the same faults, a batch that reports success has replaced every chunk of the
  batch; in every other case either all of its chunks are replaced or none is, and the directory is one that recovery
  accepts.  An error leaves the old contents and a store in its invariant behind, or a store that accepts no further write, or, only on
  a machine that lets some \<^verbatim>\<open>Lstat\<close> of the intent fail, the old contents with the rollback intent of the rejected batch at the end of the log.
\<close>

theorem conditional_batch_atomic:
  assumes "inv g D s" "\<forall>m\<in>set ms. \<forall>ch. mut_Chunk m = Some ch \<longrightarrow> wf_chunk ch" "ConditionalWriteChunks ms s = (r, s')"
    and "D' = overlay (map mutation_record ms) D"
  shows "(case r of Inr _ \<Rightarrow> inv g D' s' \<and> disk_state g (st_world s') = D' | Inl _ \<Rightarrow> inv g D s' \<or> dead s' \<or> (stale g D s' \<and> \<not> stat_ok (st_world s'))) \<and>
     disk_state g (st_world s') \<in> {D, D'} \<and> sound_disk g (st_world s') \<and>
     (\<forall>c. c \<notin> mut_Coord ` set ms \<longrightarrow> D' c = D c) \<and>
     (distinct (map mut_Coord ms) \<longrightarrow> (\<forall>m\<in>set ms. D' (mut_Coord m) =
        Inr (visible (chunk_payload (mutation_chunk m), chunk_presence (mutation_chunk m)))))"
proof -
  have "settled g D D' r s'" using tripleD [OF ConditionalWriteChunks_settled [OF assms(2)] assms(1,3)] assms(4) by simp
  moreover have "D' c = D c" if "c \<notin> mut_Coord ` set ms" for c
    using that assms(4) last_state_None_iff [of "map mutation_record ms" c] by (simp add: overlay_def image_image)
  moreover have "D' (mut_Coord m) = Inr (visible (chunk_payload (mutation_chunk m), chunk_presence (mutation_chunk m)))"
    if "distinct (map mut_Coord ms)" "m \<in> set ms" for m
    using last_state_batch [OF that] assms(4) by (simp add: overlay_def)
  ultimately show ?thesis using settled_disk [of g D D' r s'] disk_holds_state(1) [OF inv_holds] by (auto simp: settled_def split: sum.splits)
qed

definition sample_batch :: "ConditionalMutation list" where
  "sample_batch = map (\<lambda>y. \<lparr>mut_Coord = Coord 1 y, mut_ExpectedVersion = 0, mut_Chunk = Some sample_chunk\<rparr>) [2, 3]"

theorem conditional_batch_atomic_witness:
  "disk_state sample_geometry (st_world (snd (ConditionalWriteChunks sample_batch sample_store)))
     \<in> {\<lambda>_. Inr None, overlay (map mutation_record sample_batch) (\<lambda>_. Inr None)}"
  using conditional_batch_atomic [OF inv_sample_store _ prod.collapse [symmetric] refl, of sample_batch] wf_sample_chunk
  by (simp add: sample_batch_def)

text \<open>
  (C3) Acknowledged writes survive a stop of the process at any system call.  After a write, whatever happened during it, let the process
  be started again and the directory be opened, with new faults during recovery.  An acknowledged write is there: if opening
  succeeds the store holds the new contents.  A write that was not acknowledged is there as a whole or not at all.
  If opening fails or halts, the contents of the directory are still the same, so that opening can be tried again.  The files are
  those the system calls have written; the loss of unsynchronised data in a power failure is not part of the model.
\<close>

theorem acknowledged_write_survives:
  assumes "inv g D s" "wf_chunk ch" "WriteChunk c (Some ch) s = (r, s')" "grow_enough grow" "\<not> o_ReadOnly options"
    and "D' = D(c := Inr (visible (chunk_payload ch, chunk_presence ch)))"
    and "openStore rlimit grow root g options (reboot oracle random (st_world s')) = (opened, w')"
  shows "(case opened of Inr t \<Rightarrow> inv g (disk_state g w') t \<and> st_world t = w' | Inl _ \<Rightarrow> sound_disk g w') \<and>
     (r = Inr () \<longrightarrow> disk_state g w' = D') \<and> disk_state g w' \<in> {D, D'} \<and> disk_state g w' = disk_state g (st_world s')"
proof -
  have s: "settled g D D' r s'"
    using tripleD [OF WriteChunk_settled [of "Some ch" g D c] assms(1,3)] assms(2,6) by simp
  then have "\<exists>E. E \<in> {D, D'} \<and> disk_holds g E s' \<and> (r = Inr () \<longrightarrow> E = D')"
    using inv_holds [of g D s'] inv_holds [of g D' s'] stale_holds [of g D s'] by (cases r) (auto simp: settled_def)
  then obtain E where E: "E \<in> {D, D'}" "disk_holds g E s'" "r = Inr () \<Longrightarrow> E = D'" by blast
  from open_after_crash [OF E(2) assms(4,5,7)] disk_holds_state(1) [OF E(2)] E(1,3)
  show ?thesis by (auto split: sum.splits)
qed

theorem acknowledged_write_survives_witness:
  "let w = st_world (snd (WriteChunk (Coord 1 2) (Some sample_chunk) sample_store));
       w' = snd (openStore None (\<lambda>cap n. n) ''data'' sample_geometry sample_options (reboot (\<lambda>_ _. NoFault) (\<lambda>n. replicate n (CHR ''y'')) w))
   in disk_state sample_geometry w' = disk_state sample_geometry w"
proof -
  have "grow_enough (\<lambda>cap n. n)" "\<not> o_ReadOnly sample_options"
    by (simp_all add: grow_enough_def sample_options_def)
  note facts = this
  show ?thesis unfolding Let_def
    using acknowledged_write_survives [where c = "Coord 1 2", OF inv_sample_store wf_sample_chunk prod.collapse [symmetric] facts refl prod.collapse [symmetric],
      where rlimit = None and root = "''data''" and random = "\<lambda>n. replicate n (CHR ''y'')"] by blast
qed

end
