(* ===== verification/Telemetry.thy ===== *)
theory Telemetry
  imports GoText Complex_Main
begin

text \<open>
  Process metrics (\<^verbatim>\<open>internal/telemetry/metrics.go\<close>) and the counters of a store (\<^verbatim>\<open>internal/storage/stats.go\<close>).
  A \<^verbatim>\<open>float64\<close> is a real number; the arithmetic and the text of floating-point numbers, which the language fixes,
  are the two functions of \<open>float64_arith\<close>: \<open>fl_round\<close> rounds an exact result to a representable one and \<open>fl_format\<close> is
  \<^verbatim>\<open>strconv.AppendFloat(dst, x, 'g', -1, 64)\<close>.  Atomic counters wrap at their width.
\<close>

section \<open>Store counters\<close>

record RuntimeStats =
  rs_ProcessLockMode :: string
  rs_ChunkLockMode :: string
  rs_CacheHits :: uint64
  rs_CacheMisses :: uint64
  rs_LoadedChunks :: uint64
  rs_DirtyChunks :: uint64
  rs_Evictions :: uint64
  rs_EvictionRuns :: uint64
  rs_WALFlushes :: uint64
  rs_WALForegroundFlushes :: uint64
  rs_WALGroupFlushes :: uint64
  rs_WALEvictionFlushes :: uint64
  rs_WALCheckpointFlushes :: uint64
  rs_OpenWALHandles :: uint64
  rs_Checkpoints :: uint64

section \<open>Metrics\<close>

record float64_arith =
  fl_round :: "real \<Rightarrow> real"
  fl_format :: "real \<Rightarrow> string"

definition commandDurationBuckets :: "real list" where
  "commandDurationBuckets = [1 / 10000, 5 / 10000, 1 / 1000, 5 / 1000, 1 / 100, 5 / 100, 1 / 10, 5 / 10, 1, 5]"

text \<open>The literals of the table are rounded like every other constant.\<close>

definition bucket_bounds :: "float64_arith \<Rightarrow> real list" where
  "bucket_bounds fl = map (fl_round fl) commandDurationBuckets"

record histogram =
  h_buckets :: "uint64 list"
  h_count :: uint64
  h_sum :: real

record Metrics =
  m_commands :: uint64
  m_commandErrors :: uint64
  m_authFailures :: uint64
  m_authBans :: uint64
  m_connections :: int64
  m_authSources :: int64
  m_commandSeconds :: histogram

definition zero_metrics :: Metrics where
  "zero_metrics = \<lparr>m_commands = 0, m_commandErrors = 0, m_authFailures = 0, m_authBans = 0, m_connections = 0, m_authSources = 0,
     m_commandSeconds = \<lparr>h_buckets = replicate (length commandDurationBuckets) 0, h_count = 0, h_sum = 0\<rparr>\<rparr>"

text \<open>\<^verbatim>\<open>Duration.Seconds\<close>: whole seconds plus the rounded fraction; a duration is a number of nanoseconds.\<close>

definition Seconds :: "float64_arith \<Rightarrow> int64 \<Rightarrow> real" where
  "Seconds fl d = (let sec = of_int (sint d sdiv 1000000000); nsec = of_int (sint d smod 1000000000)
                   in fl_round fl (sec + fl_round fl (nsec / 1000000000)))"

definition histogram_observe :: "float64_arith \<Rightarrow> real \<Rightarrow> histogram \<Rightarrow> histogram" where
  "histogram_observe fl value h =
     h\<lparr>h_buckets := map (\<lambda>(upperBound, n). if value \<le> upperBound then n + 1 else n) (zip (bucket_bounds fl) (h_buckets h)),
       h_count := h_count h + 1, h_sum := fl_round fl (h_sum h + value)\<rparr>"

definition ObserveCommand :: "float64_arith \<Rightarrow> int64 \<Rightarrow> bool \<Rightarrow> Metrics \<Rightarrow> Metrics" where
  "ObserveCommand fl duration failed m =
     (let m = m\<lparr>m_commands := m_commands m + 1\<rparr>;
          m = (if failed then m\<lparr>m_commandErrors := m_commandErrors m + 1\<rparr> else m)
      in m\<lparr>m_commandSeconds := histogram_observe fl (Seconds fl duration) (m_commandSeconds m)\<rparr>)"

definition AuthFailure :: "Metrics \<Rightarrow> Metrics" where "AuthFailure m = m\<lparr>m_authFailures := m_authFailures m + 1\<rparr>"
definition AuthBan :: "Metrics \<Rightarrow> Metrics" where "AuthBan m = m\<lparr>m_authBans := m_authBans m + 1\<rparr>"
definition ConnectionOpened :: "Metrics \<Rightarrow> Metrics" where "ConnectionOpened m = m\<lparr>m_connections := m_connections m + 1\<rparr>"
definition ConnectionClosed :: "Metrics \<Rightarrow> Metrics" where "ConnectionClosed m = m\<lparr>m_connections := m_connections m - 1\<rparr>"
definition SetAuthSources :: "nat \<Rightarrow> Metrics \<Rightarrow> Metrics" where "SetAuthSources count m = m\<lparr>m_authSources := of_nat count\<rparr>"

section \<open>Rendering\<close>

definition appendCounter :: "bytes \<Rightarrow> string \<Rightarrow> uint64 \<Rightarrow> bytes" where
  "appendCounter dst name v = dst @ bytes_of name @ bytes_of '' '' @ bytes_of (FormatUint v) @ [10]"

definition appendGauge :: "bytes \<Rightarrow> string \<Rightarrow> int64 \<Rightarrow> bytes" where
  "appendGauge dst name v = dst @ bytes_of name @ bytes_of '' '' @ bytes_of (FormatInt v) @ [10]"

definition appendUnsignedGauge :: "bytes \<Rightarrow> string \<Rightarrow> uint64 \<Rightarrow> bytes" where
  "appendUnsignedGauge dst name v = dst @ bytes_of name @ bytes_of '' '' @ bytes_of (FormatUint v) @ [10]"

definition bucket_line :: "float64_arith \<Rightarrow> string \<Rightarrow> bytes \<Rightarrow> real \<times> uint64 \<Rightarrow> bytes" where
  "bucket_line fl name dst entry =
     (let (upperBound, n) = entry
      in dst @ bytes_of name @ bytes_of ''_bucket{le='' @ [34] @ bytes_of (fl_format fl upperBound) @ [34] @ bytes_of ''} '' @
         bytes_of (FormatUint n) @ [10])"

definition histogram_appendPrometheus :: "float64_arith \<Rightarrow> bytes \<Rightarrow> string \<Rightarrow> histogram \<Rightarrow> bytes" where
  "histogram_appendPrometheus fl dst name h =
     (let dst = foldl (bucket_line fl name) dst (zip (bucket_bounds fl) (h_buckets h));
          dst = dst @ bytes_of name @ bytes_of ''_bucket{le='' @ [34] @ bytes_of ''+Inf'' @ [34] @ bytes_of ''} '' @ bytes_of (FormatUint (h_count h)) @ [10];
          dst = dst @ bytes_of name @ bytes_of ''_sum '' @ bytes_of (fl_format fl (h_sum h)) @ [10]
      in dst @ bytes_of name @ bytes_of ''_count '' @ bytes_of (FormatUint (h_count h)) @ [10])"

definition AppendPrometheus :: "float64_arith \<Rightarrow> bytes \<Rightarrow> Metrics \<Rightarrow> RuntimeStats \<Rightarrow> bytes" where
  "AppendPrometheus fl dst m stats =
     (let dst = appendCounter dst ''regiondb_commands_total'' (m_commands m);
          dst = appendCounter dst ''regiondb_command_errors_total'' (m_commandErrors m);
          dst = histogram_appendPrometheus fl dst ''regiondb_command_duration_seconds'' (m_commandSeconds m);
          dst = appendCounter dst ''regiondb_auth_failures_total'' (m_authFailures m);
          dst = appendCounter dst ''regiondb_auth_bans_total'' (m_authBans m);
          dst = appendGauge dst ''regiondb_connections'' (m_connections m);
          dst = appendGauge dst ''regiondb_auth_sources'' (m_authSources m);
          dst = appendCounter dst ''regiondb_cache_hits_total'' (rs_CacheHits stats);
          dst = appendCounter dst ''regiondb_cache_misses_total'' (rs_CacheMisses stats);
          dst = appendUnsignedGauge dst ''regiondb_loaded_chunks'' (rs_LoadedChunks stats);
          dst = appendUnsignedGauge dst ''regiondb_dirty_chunks'' (rs_DirtyChunks stats);
          dst = appendCounter dst ''regiondb_evictions_total'' (rs_Evictions stats);
          dst = appendCounter dst ''regiondb_eviction_runs_total'' (rs_EvictionRuns stats);
          dst = appendCounter dst ''regiondb_wal_flushes_total'' (rs_WALFlushes stats);
          dst = appendCounter dst ''regiondb_wal_foreground_flushes_total'' (rs_WALForegroundFlushes stats);
          dst = appendCounter dst ''regiondb_wal_group_flushes_total'' (rs_WALGroupFlushes stats);
          dst = appendCounter dst ''regiondb_wal_eviction_flushes_total'' (rs_WALEvictionFlushes stats);
          dst = appendCounter dst ''regiondb_wal_checkpoint_flushes_total'' (rs_WALCheckpointFlushes stats);
          dst = appendUnsignedGauge dst ''regiondb_open_wal_handles'' (rs_OpenWALHandles stats)
      in appendCounter dst ''regiondb_checkpoints_total'' (rs_Checkpoints stats))"

section \<open>The histogram\<close>

text \<open>Rounding keeps the order of numbers.\<close>

definition monotone_rounding :: "float64_arith \<Rightarrow> bool" where
  "monotone_rounding fl \<longleftrightarrow> (\<forall>x y. x \<le> y \<longrightarrow> fl_round fl x \<le> fl_round fl y)"

text \<open>The state of a histogram after a run of observations.\<close>

definition observe_all :: "float64_arith \<Rightarrow> real list \<Rightarrow> histogram \<Rightarrow> histogram" where
  "observe_all fl vs h = foldl (\<lambda>h v. histogram_observe fl v h) h vs"

lemma observe_buckets:
  assumes "length (h_buckets h) = length commandDurationBuckets"
  shows "length (h_buckets (histogram_observe fl v h)) = length commandDurationBuckets"
    "i < length commandDurationBuckets \<Longrightarrow>
     h_buckets (histogram_observe fl v h) ! i = h_buckets h ! i + (if v \<le> bucket_bounds fl ! i then 1 else 0)"
  using assms by (simp_all add: histogram_observe_def bucket_bounds_def)

lemma observe_all_count:
  assumes "length (h_buckets h) = length commandDurationBuckets"
  shows "length (h_buckets (observe_all fl vs h)) = length commandDurationBuckets \<and> h_count (observe_all fl vs h) = h_count h + of_nat (length vs) \<and>
     (\<forall>i<length commandDurationBuckets. h_buckets (observe_all fl vs h) ! i =
        h_buckets h ! i + of_nat (length (filter (\<lambda>v. v \<le> bucket_bounds fl ! i) vs)))"
  using assms
proof (induction vs arbitrary: h)
  case (Cons v vs)
  have "observe_all fl (v # vs) h = observe_all fl vs (histogram_observe fl v h)" by (simp add: observe_all_def)
  moreover have "h_count (histogram_observe fl v h) = h_count h + 1" by (simp add: histogram_observe_def)
  ultimately show ?case using Cons.IH [of "histogram_observe fl v h"] observe_buckets [OF Cons.prems] by (auto simp: add_ac)
qed (simp add: observe_all_def)

lemma bounds_sorted: "i \<le> j \<Longrightarrow> j < length commandDurationBuckets \<Longrightarrow> commandDurationBuckets ! i \<le> commandDurationBuckets ! j"
proof -
  assume ij: "i \<le> j" "j < length commandDurationBuckets"
  have "sorted commandDurationBuckets" by (simp add: commandDurationBuckets_def)
  then show ?thesis using ij by (rule sorted_nth_mono)
qed

text \<open>
  The histogram of command durations is a cumulative one, as Prometheus requires.  After any run of fewer than
  \<open>2\<^sup>6\<^sup>4\<close> observations the count is the number of observations, each bucket is the number of observations up to its
  bound, no bucket is larger than a later one, and none is larger than the count.
\<close>

theorem histogram_cumulative:
  assumes "monotone_rounding fl" "int (length vs) < 2 ^ 64" "h = observe_all fl vs (m_commandSeconds zero_metrics)"
    and "i \<le> j" "j < length commandDurationBuckets"
  shows "unat (h_count h) = length vs \<and> unat (h_buckets h ! i) = length (filter (\<lambda>v. v \<le> bucket_bounds fl ! i) vs) \<and>
     h_buckets h ! i \<le> h_buckets h ! j \<and> h_buckets h ! j \<le> h_count h"
proof -
  let ?n = "\<lambda>i. length (filter (\<lambda>v. v \<le> bucket_bounds fl ! i) vs)"
  have z: "length (h_buckets (m_commandSeconds zero_metrics)) = length commandDurationBuckets"
    "h_count (m_commandSeconds zero_metrics) = 0" by (simp_all add: zero_metrics_def)
  have b: "h_buckets h ! k = of_nat (?n k)" if "k < length commandDurationBuckets" for k
    using observe_all_count [OF z(1), of fl vs] that assms(3) by (simp add: zero_metrics_def)
  have c: "h_count h = of_nat (length vs)" using observe_all_count [OF z(1), of fl vs] z(2) assms(3) by simp
  have u: "unat (of_nat m :: uint64) = m" if "m \<le> length vs" for m using that assms(2) by (simp add: unat_of_nat)
  have le: "?n k \<le> length vs" for k by simp
  have "bucket_bounds fl ! i \<le> bucket_bounds fl ! j"
    using assms(1,4,5) bounds_sorted [OF assms(4,5)] by (simp add: bucket_bounds_def monotone_rounding_def)
  then have "set (filter (\<lambda>v. v \<le> bucket_bounds fl ! i) vs) \<subseteq> {v. v \<le> bucket_bounds fl ! j}" by auto
  have mono: "?n i \<le> ?n j" using \<open>bucket_bounds fl ! i \<le> bucket_bounds fl ! j\<close> by (induction vs) auto
  show ?thesis using assms(4,5) b [of i] b [of j] c u [OF le] u [OF order_refl] mono le by (simp add: word_le_nat_alt)
qed

theorem histogram_cumulative_witness:
  "let fl = \<lparr>fl_round = \<lambda>x. x, fl_format = \<lambda>x. ''x''\<rparr>;
       h = observe_all fl [1 / 5000, 2, 7] (m_commandSeconds zero_metrics)
   in unat (h_count h) = 3 \<and> h_buckets h ! 0 \<le> h_buckets h ! 9 \<and> h_buckets h ! 9 \<le> h_count h"
  using histogram_cumulative [of "\<lparr>fl_round = \<lambda>x. x, fl_format = \<lambda>x. ''x''\<rparr>" "[1 / 5000, 2, 7]" _ 0 9]
  by (simp add: monotone_rounding_def commandDurationBuckets_def Let_def)

end
