(* ===== verification/Engine.thy ===== *)
theory Engine
  imports Frame Response Chunk Zrle Telemetry FileSystem
begin

text \<open>
  The command engine (\<^verbatim>\<open>internal/protocol/engine.go\<close> and \<^verbatim>\<open>world_read.go\<close>): sessions, authentication and one
  handler per command, over the interface of a chunk store.

  The store is a dictionary of operations on a state \<open>'s\<close>, the optional interfaces that the engine asks for with a
  type assertion are optional fields.  A handler maps the store to a response and the store after it; a helper that
  returns \<^verbatim>\<open>(value, *Response)\<close> returns a response or a value.  The engine lock makes a handler one step; a batch of
  \<^verbatim>\<open>MGET\<close> or \<^verbatim>\<open>MSET\<close> is a sequence of such steps.  The scan of populated chunks may run forever on a store that never
  ends its candidates, so it is a partial function: \<open>None\<close> is a command that does not return.
\<close>

section \<open>The store\<close>

record 's VersionedChunkStore =
  vs_ChunkVersion :: "Coord \<Rightarrow> ('s, uint64) op"
  vs_CompareAndSwapChunk :: "Coord \<Rightarrow> uint64 \<Rightarrow> Chunk option \<Rightarrow> ('s, uint64) op"
  vs_ConditionalWriteChunks :: "ConditionalMutation list \<Rightarrow> ('s, uint64 list) op"

record 's ChunkStore =
  cs_ReadChunk :: "Coord \<Rightarrow> ('s, Chunk option) op"
  cs_ScanChunkCoords :: "bool \<Rightarrow> Coord \<Rightarrow> int \<Rightarrow> ('s, Coord list \<times> bool) op"
  cs_WriteChunk :: "Coord \<Rightarrow> Chunk option \<Rightarrow> ('s, unit) op"
  cs_RuntimeStats :: "'s \<Rightarrow> RuntimeStats"
  cs_Versioned :: "'s VersionedChunkStore option"
  cs_FlushWAL :: "('s, unit) op option"

record 's Engine =
  en_geometry :: Geometry
  en_store :: "'s ChunkStore"
  en_token :: string
  en_auth :: bool

record Session =
  se_authenticated :: bool
  se_closed :: bool
  se_authFailed :: bool

text \<open>What the sessions of an engine share.\<close>

record 's shared =
  sh_metrics :: Metrics
  sh_store :: 's

definition newEngine :: "Geometry \<Rightarrow> 's ChunkStore option \<Rightarrow> string \<Rightarrow> bool \<Rightarrow> 's Engine result" where
  "newEngine g store token auth =
     (if geometry_New (config g) \<noteq> Inr g then Inl [ErrInvalid]
      else case store of None \<Rightarrow> Inl [] | Some ops \<Rightarrow>
        if auth \<and> token = [] then Inl []
        else if \<exists>character\<in>set (bytes_of token). character < 0x21 \<or> character > 0x7e then Inl []
        else Inr \<lparr>en_geometry = g, en_store = ops, en_token = token, en_auth = auth\<rparr>)"

definition NewEngine :: "Geometry \<Rightarrow> 's ChunkStore option \<Rightarrow> string \<Rightarrow> 's Engine result" where
  "NewEngine g store token = newEngine g store token True"

definition NewEngineWithoutAuth :: "Geometry \<Rightarrow> 's ChunkStore option \<Rightarrow> 's Engine result" where
  "NewEngineWithoutAuth g store = newEngine g store [] False"

definition NewSession :: "'s Engine \<Rightarrow> Session" where
  "NewSession e = \<lparr>se_authenticated = \<not> en_auth e, se_closed = False, se_authFailed = False\<rparr>"

section \<open>Handlers\<close>

type_synonym 's handler = "'s \<Rightarrow> Response \<times> 's"

definition respond :: "Response \<Rightarrow> 's handler" where
  "respond r s = (r, s)"

text \<open>A call of the store; both outcomes go on with the store after the call.\<close>

definition call :: "('s, 'a) op \<Rightarrow> (error \<Rightarrow> 's handler) \<Rightarrow> ('a \<Rightarrow> 's handler) \<Rightarrow> 's handler" where
  "call m h k s = (case m s of (Inl e, s') \<Rightarrow> h e s' | (Inr x, s') \<Rightarrow> k x s')"

definition parsed :: "Response + 'a \<Rightarrow> ('a \<Rightarrow> 's handler) \<Rightarrow> 's handler" where
  "parsed p k = (case p of Inl r \<Rightarrow> respond r | Inr x \<Rightarrow> k x)"

section \<open>Parsing\<close>

definition arityError :: Response where
  "arityError = errorResponse ''ARITY'' ''wrong number of arguments''"

definition requireArity :: "string list \<Rightarrow> nat \<Rightarrow> Response + unit" where
  "requireArity args want = (if length args = want then Inr () else Inl arityError)"

definition validDecimal :: "string \<Rightarrow> bool \<Rightarrow> bool" where
  "validDecimal v allowSign =
     (if v = [] then False
      else if allowSign \<and> v ! 0 = CHR ''-'' then length v \<noteq> 1 \<and> list_all (\<lambda>c. CHR ''0'' \<le> c \<and> c \<le> CHR ''9'') (drop 1 v)
      else list_all (\<lambda>c. CHR ''0'' \<le> c \<and> c \<le> CHR ''9'') v)"

definition parseInt :: "string \<Rightarrow> int64 option" where
  "parseInt v = (if \<not> validDecimal v True then None else ParseInt v)"

definition parseUint :: "string \<Rightarrow> uint64 option" where
  "parseUint v = (if \<not> validDecimal v False then None else ParseUint v)"

definition parseCoord :: "string list \<Rightarrow> Response + Coord" where
  "parseCoord args =
     (let bad = errorResponse ''NUMBER'' ''coordinates must be signed decimal integers''
      in case parseInt (args ! 0) of None \<Rightarrow> Inl bad
         | Some x \<Rightarrow> (case parseInt (args ! 1) of None \<Rightarrow> Inl bad | Some y \<Rightarrow> Inr (Coord x y)))"

definition fitsBits :: "uint64 \<Rightarrow> uint8 \<Rightarrow> bool" where
  "fitsBits v width \<longleftrightarrow> width = 64 \<or> v < push_bit (unat width) 1"

definition tokensEqual :: "string \<Rightarrow> string \<Rightarrow> bool" where
  "tokensEqual left right \<longleftrightarrow> bytes_of left = bytes_of right"

definition maxIntHalf :: nat where
  "maxIntHalf = 4611686018427387903"

definition parseChunkReadMode :: "string list \<Rightarrow> Response + bool" where
  "parseChunkReadMode args =
     (if length args = 2 then Inr False
      else if length args = 3 then
        (if args ! 2 = ''STATE'' then Inr True else Inl (errorResponse ''MODE'' ''chunk mode must be STATE''))
      else Inl arityError)"

text \<open>The loop over the blocks of a state: a block that is not present has its value cleared.\<close>

fun canonicalize_loop :: "uint64 \<Rightarrow> nat list \<Rightarrow> Chunk \<Rightarrow> Response + Chunk" where
  "canonicalize_loop edge [] chunk = Inr chunk"
| "canonicalize_loop edge (index # rest) chunk =
     (let i = (of_nat index :: uint64); offset = \<lparr>offset_X = ucast (i mod edge), offset_Y = ucast (i div edge)\<rparr>;
          bad = errorResponse ''PAYLOAD'' ''packed chunk state is invalid''
      in case chunk_Exists chunk offset of
           Inl _ \<Rightarrow> Inl bad
         | Inr exists \<Rightarrow>
             if exists then canonicalize_loop edge rest chunk
             else (case chunk_Unset chunk offset of Inl _ \<Rightarrow> Inl bad | Inr chunk \<Rightarrow> canonicalize_loop edge rest chunk))"

definition canonicalizeChunkState :: "Geometry \<Rightarrow> Chunk \<Rightarrow> Response + Chunk" where
  "canonicalizeChunkState g chunk = canonicalize_loop (ucast (ChunkEdge (config g))) [0..<unat (blockCount g)] chunk"

definition payloadError :: "string \<Rightarrow> Response + 'a" where
  "payloadError detail = Inl (errorResponse ''PAYLOAD'' detail)"

definition parseChunkStateText :: "Geometry \<Rightarrow> string \<Rightarrow> Response + Chunk" where
  "parseChunkStateText g v =
     (let (payloadText, presenceText, state) = strings_Cut v (CHR ''|'')
      in if payloadBytes g > maxIntHalf \<or> length payloadText \<noteq> hex_EncodedLen (payloadBytes g)
         then payloadError ''packed chunk has an invalid length''
      else case hex_Decode (bytes_of payloadText) of
        None \<Rightarrow> payloadError ''packed chunk must be hexadecimal''
      | Some payload \<Rightarrow>
      if \<not> state then
        (case ChunkFromBytes g payload of Inl _ \<Rightarrow> payloadError ''packed chunk is invalid'' | Inr chunk \<Rightarrow> Inr chunk)
      else if strings_ContainsChar presenceText (CHR ''|'') \<or> length presenceText \<noteq> hex_EncodedLen (presenceBytes g)
        then payloadError ''packed chunk state has an invalid length''
      else case hex_Decode (bytes_of presenceText) of
        None \<Rightarrow> payloadError ''chunk presence bitmap must be hexadecimal''
      | Some presence \<Rightarrow>
      (case ChunkFromState g payload presence of
         Inl _ \<Rightarrow> payloadError ''packed chunk state is invalid''
       | Inr chunk \<Rightarrow> canonicalizeChunkState g chunk))"

definition parseConditionalChunk :: "Geometry \<Rightarrow> string list \<Rightarrow> Response + ConditionalMutation" where
  "parseConditionalChunk g args =
     (case parseCoord (take 2 args) of Inl r \<Rightarrow> Inl r
      | Inr coord \<Rightarrow>
      (case parseUint (args ! 2) of
         None \<Rightarrow> Inl (errorResponse ''NUMBER'' ''version must be an unsigned decimal integer'')
       | Some expected \<Rightarrow>
      (case parseChunkStateText g (args ! 3) of Inl r \<Rightarrow> Inl r
       | Inr chunk \<Rightarrow> Inr \<lparr>mut_Coord = coord, mut_ExpectedVersion = expected, mut_Chunk = Some chunk\<rparr>)))"

section \<open>Reading\<close>

text \<open>\<^verbatim>\<open>readChunk\<close>: no chunk is \<open>None\<close>, which is not an error.\<close>

definition readChunk :: "'s Engine \<Rightarrow> Coord \<Rightarrow> ('s, Chunk option) op" where
  "readChunk e coord =
     catch (cs_ReadChunk (en_store e) coord)
       (\<lambda>err. if errors_is err ErrNotExist then ret None else raise err)
       (\<lambda>chunk. case chunk of None \<Rightarrow> raise [] | Some c \<Rightarrow> ret (Some c))"

definition storageError :: "string \<Rightarrow> 's handler" where
  "storageError detail = respond (errorResponse ''STORAGE'' detail)"

text \<open>\<^verbatim>\<open>readBlock\<close>, with what its caller does with the value and the presence.\<close>

definition readBlock :: "'s Engine \<Rightarrow> Coord \<Rightarrow> (uint64 \<times> bool \<Rightarrow> 's handler) \<Rightarrow> 's handler" where
  "readBlock e block k =
     (let mapping = BlockToChunk (en_geometry e) block in
      call (readChunk e (map_Chunk mapping)) (\<lambda>_. storageError ''read failed'') (\<lambda>found.
      case found of None \<Rightarrow> k (0, False)
      | Some chunk \<Rightarrow>
          (case chunk_Get chunk (map_Offset mapping) of
             Inl _ \<Rightarrow> storageError ''block read failed''
           | Inr v \<Rightarrow>
          (case chunk_Exists chunk (map_Offset mapping) of
             Inl _ \<Rightarrow> storageError ''block presence read failed''
           | Inr exists \<Rightarrow> k (v, exists)))))"

definition cmd_get :: "'s Engine \<Rightarrow> string list \<Rightarrow> 's handler" where
  "cmd_get e args =
     parsed (requireArity args 2) (\<lambda>_.
     parsed (parseCoord args) (\<lambda>block.
     readBlock e block (\<lambda>(v, _). respond (bulkResponse (bytes_of (FormatUint v))))))"

fun mget_loop :: "'s Engine \<Rightarrow> string list \<Rightarrow> bytes list \<Rightarrow> 's handler" where
  "mget_loop e [] items s = (arrayResponse items, s)"
| "mget_loop e args items s =
     (let (response, s) = cmd_get e (take 2 args) s
      in if resp_kind response \<noteq> responseBulk then (response, s)
         else mget_loop e (drop 2 args) (items @ [resp_payload response]) s)"

definition cmd_mget :: "'s Engine \<Rightarrow> string list \<Rightarrow> 's handler" where
  "cmd_mget e args = (if length args = 0 \<or> length args mod 2 \<noteq> 0 then respond arityError else mget_loop e args [])"

definition cmd_exists :: "'s Engine \<Rightarrow> string list \<Rightarrow> 's handler" where
  "cmd_exists e args =
     parsed (requireArity args 2) (\<lambda>_.
     parsed (parseCoord args) (\<lambda>block.
     readBlock e block (\<lambda>(_, exists). respond (okResponse (if \<not> exists then ''0'' else ''1'')))))"

definition readChunkCommand :: "'s Engine \<Rightarrow> string list \<Rightarrow> (Chunk \<Rightarrow> 's handler) \<Rightarrow> 's handler" where
  "readChunkCommand e args k =
     parsed (requireArity args 2) (\<lambda>_.
     parsed (parseCoord args) (\<lambda>coord.
     call (readChunk e coord) (\<lambda>_. storageError ''read failed'') (\<lambda>found.
     case found of None \<Rightarrow> respond (errorResponse ''NOT_FOUND'' ''chunk does not exist'') | Some chunk \<Rightarrow> k chunk)))"

definition cmd_chunk :: "'s Engine \<Rightarrow> string list \<Rightarrow> 's handler" where
  "cmd_chunk e args =
     parsed (parseChunkReadMode args) (\<lambda>state.
     readChunkCommand e (take 2 args) (\<lambda>chunk.
       respond (bulkResponse
         (if state then hex_Encode (chunk_payload chunk) @ bytes_of ''|'' @ hex_Encode (chunk_presence chunk)
          else hex_Encode (chunk_payload chunk)))))"

definition cmd_chunkBinary :: "'s Engine \<Rightarrow> string list \<Rightarrow> 's handler" where
  "cmd_chunkBinary e args =
     parsed (parseChunkReadMode args) (\<lambda>state.
     readChunkCommand e (take 2 args) (\<lambda>chunk.
       respond (bulkResponse (if state then chunk_payload chunk @ chunk_presence chunk else chunk_payload chunk))))"

definition cmd_chunkBinaryCompressed :: "'s Engine \<Rightarrow> string list \<Rightarrow> 's handler" where
  "cmd_chunkBinaryCompressed e args =
     parsed (parseChunkReadMode args) (\<lambda>state.
     readChunkCommand e (take 2 args) (\<lambda>chunk.
       respond (bulkResponse (EncodeZRLE (if state then chunk_payload chunk @ chunk_presence chunk else chunk_payload chunk)))))"

definition cmd_chunkExists :: "'s Engine \<Rightarrow> string list \<Rightarrow> 's handler" where
  "cmd_chunkExists e args =
     parsed (requireArity args 2) (\<lambda>_.
     parsed (parseCoord args) (\<lambda>coord.
     call (readChunk e coord) (\<lambda>_. storageError ''read failed'') (\<lambda>found.
     respond (okResponse (if found = None then ''0'' else ''1'')))))"

section \<open>Writing\<close>

definition write_and_ok :: "'s Engine \<Rightarrow> Coord \<Rightarrow> Chunk \<Rightarrow> 's handler" where
  "write_and_ok e coord chunk =
     call (cs_WriteChunk (en_store e) coord (Some chunk)) (\<lambda>_. storageError ''write failed'') (\<lambda>_. respond (okResponse []))"

definition cmd_set :: "'s Engine \<Rightarrow> string list \<Rightarrow> 's handler" where
  "cmd_set e args =
     parsed (requireArity args 3) (\<lambda>_.
     parsed (parseCoord (take 2 args)) (\<lambda>block.
     case parseUint (args ! 2) of
       None \<Rightarrow> respond (errorResponse ''NUMBER'' ''value must be an unsigned decimal integer'')
     | Some v \<Rightarrow>
     if \<not> fitsBits v (BlockBits (config (en_geometry e))) then
       respond (errorResponse ''BIT_VALUE'' ''value exceeds configured block width'')
     else let mapping = BlockToChunk (en_geometry e) block in
     call (readChunk e (map_Chunk mapping)) (\<lambda>_. storageError ''read failed'') (\<lambda>found.
     case (case found of None \<Rightarrow> NewChunk (en_geometry e) | Some chunk \<Rightarrow> Inr chunk) of
       Inl _ \<Rightarrow> storageError ''chunk allocation failed''
     | Inr chunk \<Rightarrow>
     (case chunk_Set chunk (map_Offset mapping) v of
        Inl err \<Rightarrow> if errors_is err ErrValueTooWide
                   then respond (errorResponse ''BIT_VALUE'' ''value exceeds configured block width'')
                   else storageError ''block update failed''
      | Inr chunk \<Rightarrow> write_and_ok e (map_Chunk mapping) chunk))))"

fun mset_loop :: "'s Engine \<Rightarrow> string list \<Rightarrow> 's handler" where
  "mset_loop e [] s = (okResponse [], s)"
| "mset_loop e args s =
     (let (response, s) = cmd_set e (take 3 args) s
      in if resp_kind response \<noteq> responseOK then (response, s) else mset_loop e (drop 3 args) s)"

definition cmd_mset :: "'s Engine \<Rightarrow> string list \<Rightarrow> 's handler" where
  "cmd_mset e args = (if length args = 0 \<or> length args mod 3 \<noteq> 0 then respond arityError else mset_loop e args)"

definition cmd_unset :: "'s Engine \<Rightarrow> string list \<Rightarrow> 's handler" where
  "cmd_unset e args =
     parsed (requireArity args 2) (\<lambda>_.
     parsed (parseCoord args) (\<lambda>block.
     let mapping = BlockToChunk (en_geometry e) block in
     call (readChunk e (map_Chunk mapping)) (\<lambda>_. storageError ''read failed'') (\<lambda>found.
     case found of None \<Rightarrow> respond (okResponse [])
     | Some chunk \<Rightarrow>
     (case chunk_Unset chunk (map_Offset mapping) of
        Inl _ \<Rightarrow> storageError ''block update failed''
      | Inr chunk \<Rightarrow> write_and_ok e (map_Chunk mapping) chunk))))"

definition writeChunkPayload :: "'s Engine \<Rightarrow> string list \<Rightarrow> 's handler" where
  "writeChunkPayload e args =
     parsed (parseCoord (take 2 args)) (\<lambda>coord.
     let g = en_geometry e in
     if payloadBytes g > maxIntHalf \<or> length (args ! 2) \<noteq> hex_EncodedLen (payloadBytes g)
     then parsed (payloadError ''packed chunk has an invalid length'') (write_and_ok e coord)
     else case hex_Decode (bytes_of (args ! 2)) of
       None \<Rightarrow> parsed (payloadError ''packed chunk must be hexadecimal'') (write_and_ok e coord)
     | Some payload \<Rightarrow>
     (case ChunkFromBytes g payload of
        Inl _ \<Rightarrow> parsed (payloadError ''packed chunk is invalid'') (write_and_ok e coord)
      | Inr chunk \<Rightarrow> write_and_ok e coord chunk))"

definition parseStrictState :: "Geometry \<Rightarrow> string \<Rightarrow> Response + Chunk" where
  "parseStrictState g v =
     (let (payloadText, presenceText, found) = strings_Cut v (CHR ''|'')
      in if \<not> found \<or> strings_ContainsChar presenceText (CHR ''|'')
         then payloadError ''packed chunk state must be payload|presence''
      else if payloadBytes g > maxIntHalf \<or> presenceBytes g > maxIntHalf \<or>
              length payloadText \<noteq> hex_EncodedLen (payloadBytes g) \<or> length presenceText \<noteq> hex_EncodedLen (presenceBytes g)
         then payloadError ''packed chunk state has an invalid length''
      else case hex_Decode (bytes_of payloadText) of
        None \<Rightarrow> payloadError ''packed chunk payload must be hexadecimal''
      | Some payload \<Rightarrow>
      let payloadBits = blockCount g * ucast (BlockBits (config g));
          unused = (of_nat (payloadBytes g) :: uint64) * 8 - payloadBits
      in if unused \<noteq> 0 \<and> payload ! (length payload - 1) AND NOT (drop_bit (unat unused) 0xff) \<noteq> 0
         then payloadError ''packed chunk state is invalid''
      else case hex_Decode (bytes_of presenceText) of
        None \<Rightarrow> payloadError ''chunk presence bitmap must be hexadecimal''
      | Some presence \<Rightarrow>
      (case ChunkFromState g payload presence of
         Inl _ \<Rightarrow> payloadError ''packed chunk state is invalid''
       | Inr chunk \<Rightarrow> canonicalizeChunkState g chunk))"

definition writeChunkState :: "'s Engine \<Rightarrow> string list \<Rightarrow> 's handler" where
  "writeChunkState e args =
     parsed (parseCoord (take 2 args)) (\<lambda>coord.
     parsed (parseStrictState (en_geometry e) (args ! 3)) (write_and_ok e coord))"

definition cmd_chunkSet :: "'s Engine \<Rightarrow> string list \<Rightarrow> 's handler" where
  "cmd_chunkSet e args =
     (if length args = 3 then writeChunkPayload e args
      else if length args = 4 then
        (if args ! 2 \<noteq> ''STATE'' then respond (errorResponse ''MODE'' ''chunk mode must be STATE'') else writeChunkState e args)
      else respond arityError)"

section \<open>Versions\<close>

definition versioned :: "'s Engine \<Rightarrow> ('s VersionedChunkStore \<Rightarrow> 's handler) \<Rightarrow> 's handler" where
  "versioned e k = (case cs_Versioned (en_store e) of None \<Rightarrow> storageError ''version operations unavailable'' | Some v \<Rightarrow> k v)"

definition cmd_chunkVersion :: "'s Engine \<Rightarrow> string list \<Rightarrow> 's handler" where
  "cmd_chunkVersion e args =
     parsed (requireArity args 2) (\<lambda>_.
     parsed (parseCoord args) (\<lambda>coord.
     versioned e (\<lambda>store.
     call (vs_ChunkVersion store coord) (\<lambda>_. storageError ''read version failed'') (\<lambda>version.
     respond (okResponse (FormatUint version))))))"

definition conditional_error :: "string \<Rightarrow> error \<Rightarrow> 's handler" where
  "conditional_error detail err =
     (if errors_is err ErrVersionMismatch then respond (errorResponse ''VERSION_MISMATCH'' ''chunk version changed'')
      else storageError detail)"

definition cmd_chunkCAS :: "'s Engine \<Rightarrow> string list \<Rightarrow> 's handler" where
  "cmd_chunkCAS e args =
     (if length args \<noteq> 4 then respond arityError else
     parsed (parseConditionalChunk (en_geometry e) args) (\<lambda>mutation.
     versioned e (\<lambda>store.
     call (vs_CompareAndSwapChunk store (mut_Coord mutation) (mut_ExpectedVersion mutation) (mut_Chunk mutation))
       (conditional_error ''conditional write failed'') (\<lambda>version. respond (okResponse (FormatUint version))))))"

fun parse_mutations :: "Geometry \<Rightarrow> string list \<Rightarrow> Response + ConditionalMutation list" where
  "parse_mutations g [] = Inr []"
| "parse_mutations g args =
     (case parseConditionalChunk g (take 4 args) of
        Inl r \<Rightarrow> Inl r
      | Inr m \<Rightarrow> (case parse_mutations g (drop 4 args) of Inl r \<Rightarrow> Inl r | Inr ms \<Rightarrow> Inr (m # ms)))"

definition cmd_chunkBatch :: "'s Engine \<Rightarrow> string list \<Rightarrow> 's handler" where
  "cmd_chunkBatch e args =
     (if length args = 0 \<or> length args mod 4 \<noteq> 0 then respond arityError else
     parsed (parse_mutations (en_geometry e) args) (\<lambda>mutations.
     versioned e (\<lambda>store.
     call (vs_ConditionalWriteChunks store mutations) (conditional_error ''conditional batch failed'') (\<lambda>versions.
     respond (arrayResponse (map (\<lambda>v. bytes_of (FormatUint v)) versions))))))"

section \<open>World reads\<close>

definition maxWorldReadChunks :: uint64 where "maxWorldReadChunks = 256"
definition maxWorldReadResponseSize :: uint64 where "maxWorldReadResponseSize = 67108864"

definition chunkPopulated :: "Chunk \<Rightarrow> bool" where
  "chunkPopulated chunk \<longleftrightarrow> list_ex (\<lambda>v. v \<noteq> 0) (chunk_presence chunk)"

definition coord_text :: "Coord \<Rightarrow> bytes" where
  "coord_text coord = bytes_of (FormatInt (coord_X coord)) @ bytes_of '' '' @ bytes_of (FormatInt (coord_Y coord))"

definition chunkScanResponse :: "Coord list \<Rightarrow> bool \<Rightarrow> Response" where
  "chunkScanResponse coords further =
     arrayResponse ((if further \<and> coords \<noteq> [] then bytes_of ''CURSOR '' @ coord_text (last coords) else bytes_of ''END'') # map coord_text coords)"

text \<open>One window of candidates: the coordinates so far, or a response that ends the scan.\<close>

fun scan_window :: "'s Engine \<Rightarrow> nat \<Rightarrow> Coord list \<Rightarrow> Coord list \<Rightarrow> 's \<Rightarrow> (Response + Coord list) \<times> 's" where
  "scan_window e limit [] coords s = (Inr coords, s)"
| "scan_window e limit (candidate # rest) coords s =
     (case readChunk e candidate s of
        (Inl _, s) \<Rightarrow> (Inl (errorResponse ''STORAGE'' ''read failed''), s)
      | (Inr found, s) \<Rightarrow>
          if (case found of None \<Rightarrow> True | Some chunk \<Rightarrow> \<not> chunkPopulated chunk) then scan_window e limit rest coords s
          else if length coords = limit then (Inl (chunkScanResponse coords True), s)
          else scan_window e limit rest (coords @ [candidate]) s)"

partial_function (option) scan_loop :: "'s Engine \<Rightarrow> nat \<Rightarrow> bool \<Rightarrow> Coord \<Rightarrow> Coord list \<Rightarrow> 's \<Rightarrow> (Response \<times> 's) option" where
  "scan_loop e limit hasCursor cursor coords s =
     (if length coords > limit then Some (chunkScanResponse coords False, s)
      else case cs_ScanChunkCoords (en_store e) hasCursor cursor (int (limit + 1 - length coords)) s of
        (Inl _, s) \<Rightarrow> Some (errorResponse ''STORAGE'' ''scan failed'', s)
      | (Inr (candidates, further), s) \<Rightarrow>
          if candidates = [] then Some (chunkScanResponse coords False, s)
          else case scan_window e limit candidates coords s of
            (Inl response, s) \<Rightarrow> Some (response, s)
          | (Inr coords, s) \<Rightarrow>
              if \<not> further then Some (chunkScanResponse coords False, s)
              else scan_loop e limit True (last candidates) coords s)"

definition cmd_chunkScan :: "'s Engine \<Rightarrow> string list \<Rightarrow> 's \<Rightarrow> (Response \<times> 's) option" where
  "cmd_chunkScan e args s =
     (if length args \<noteq> 1 \<and> length args \<noteq> 3 then Some (arityError, s)
      else case parseUint (args ! 0) of
        None \<Rightarrow> Some (errorResponse ''NUMBER'' ''limit must be an unsigned decimal integer'', s)
      | Some limit \<Rightarrow>
          if limit = 0 \<or> limit > maxWorldReadChunks then Some (errorResponse ''INVALID_ARGUMENT'' ''limit must be between 1 and 256'', s)
          else let hasCursor = (length args = 3)
          in case (if hasCursor then parseCoord (drop 1 args) else Inr (Coord 0 0)) of
               Inl response \<Rightarrow> Some (response, s)
             | Inr cursor \<Rightarrow> scan_loop e (unat limit) hasCursor cursor [] s)"

definition decimalUint64Length :: "uint64 \<Rightarrow> uint64" where
  "decimalUint64Length v = of_nat (length (FormatUint v))"

definition arrayHeaderSize :: "nat \<Rightarrow> uint64" where
  "arrayHeaderSize items = 1 + of_nat (length (Itoa items)) + 2"

definition worldChunkWireSize :: "Coord \<Rightarrow> uint64 \<Rightarrow> uint64 \<Rightarrow> uint64 option" where
  "worldChunkWireSize coord payloadSize presenceSize =
     (if payloadSize > maxWorldReadResponseSize div 2 \<or> presenceSize > maxWorldReadResponseSize div 2 then None
      else let itemBytes = of_nat (length (FormatInt (coord_X coord))) + of_nat (length (FormatInt (coord_Y coord))) +
                           3 + 2 * payloadSize + 2 * presenceSize
           in Some (1 + decimalUint64Length itemBytes + 2 + itemBytes + 2))"

definition outOfRange :: Response where
  "outOfRange = errorResponse ''OUT_OF_RANGE'' ''world read response exceeds the 64 MiB limit''"

definition world_item :: "Coord \<Rightarrow> Chunk \<Rightarrow> bytes" where
  "world_item coord chunk = coord_text coord @ bytes_of '' '' @ hex_Encode (chunk_payload chunk) @ bytes_of ''|'' @ hex_Encode (chunk_presence chunk)"

definition appendWorldChunk :: "'s Engine \<Rightarrow> bytes list \<Rightarrow> uint64 \<Rightarrow> Coord \<Rightarrow> 's \<Rightarrow> (Response + bytes list \<times> uint64) \<times> 's" where
  "appendWorldChunk e items wireBytes coord s =
     (case readChunk e coord s of
        (Inl _, s) \<Rightarrow> (Inl (errorResponse ''STORAGE'' ''read failed''), s)
      | (Inr None, s) \<Rightarrow> (Inr (items, wireBytes), s)
      | (Inr (Some chunk), s) \<Rightarrow>
          if \<not> chunkPopulated chunk then (Inr (items, wireBytes), s)
          else (case worldChunkWireSize coord (of_nat (payloadBytes (en_geometry e))) (of_nat (presenceBytes (en_geometry e))) of
                  None \<Rightarrow> (Inl outOfRange, s)
                | Some itemWireBytes \<Rightarrow>
                    let totalBytes = arrayHeaderSize (length items + 1) + wireBytes + itemWireBytes
                    in if totalBytes > maxWorldReadResponseSize then (Inl outOfRange, s)
                       else (Inr (items @ [world_item coord chunk], wireBytes + itemWireBytes), s)))"

fun append_world :: "'s Engine \<Rightarrow> Coord list \<Rightarrow> bytes list \<Rightarrow> uint64 \<Rightarrow> 's handler" where
  "append_world e [] items wireBytes s = (arrayResponse items, s)"
| "append_world e (coord # coords) items wireBytes s =
     (case appendWorldChunk e items wireBytes coord s of
        (Inl failure, s) \<Rightarrow> (failure, s)
      | (Inr (items, wireBytes), s) \<Rightarrow> append_world e coords items wireBytes s)"

text \<open>
  The coordinates the loops of \<^verbatim>\<open>chunkRange\<close> visit: each loop counts up from the first value and stops after the last
  one; \<open>n\<close> is the number of further values.
\<close>

primrec count_up :: "int64 \<Rightarrow> nat \<Rightarrow> int64 list" where
  "count_up x 0 = [x]"
| "count_up x (Suc n) = x # count_up (x + 1) n"

definition range_coords :: "Coord \<Rightarrow> Coord \<Rightarrow> Coord list" where
  "range_coords first final =
     concat (map (\<lambda>x. map (Coord x) (count_up (coord_Y first) (unat (coord_Y final - coord_Y first))))
       (count_up (coord_X first) (unat (coord_X final - coord_X first))))"

definition cmd_chunkRange :: "'s Engine \<Rightarrow> string list \<Rightarrow> 's handler" where
  "cmd_chunkRange e args =
     parsed (requireArity args 4) (\<lambda>_.
     parsed (parseCoord (take 2 args)) (\<lambda>first.
     parsed (parseCoord (drop 2 args)) (\<lambda>final.
     if sint (coord_X first) > sint (coord_X final) \<or> sint (coord_Y first) > sint (coord_Y final)
     then respond (errorResponse ''INVALID_ARGUMENT'' ''chunk range corners must satisfy x0<=x1 and y0<=y1'')
     else let spanX = coord_X final - coord_X first; spanY = coord_Y final - coord_Y first
     in if spanX \<ge> maxWorldReadChunks \<or> spanY \<ge> maxWorldReadChunks \<or> (spanX + 1) * (spanY + 1) > maxWorldReadChunks
        then respond (errorResponse ''INVALID_ARGUMENT'' ''chunk range must cover at most 256 chunks'')
        else append_world e (range_coords first final) [] 0)))"

text \<open>The largest half width of the row at a distance from the centre; it never exceeds the radius.\<close>

fun half_width :: "nat \<Rightarrow> uint64 \<Rightarrow> uint64 \<Rightarrow> int64 \<Rightarrow> int64" where
  "half_width 0 radiusSquared distanceSquared halfWidth = halfWidth"
| "half_width (Suc n) radiusSquared distanceSquared halfWidth =
     (if (halfWidth + 1) * (halfWidth + 1) + distanceSquared \<le> radiusSquared
      then half_width n radiusSquared distanceSquared (halfWidth + 1) else halfWidth)"

definition half_widths :: "int64 \<Rightarrow> int64 list" where
  "half_widths radius =
     map (\<lambda>distance. half_width (unat radius + 1) (radius * radius) (of_nat distance * of_nat distance) 0) [0..<unat radius + 1]"

definition radius_cells :: "int64 list \<Rightarrow> uint64" where
  "radius_cells halfWidths =
     foldl (\<lambda>cells (distance, halfWidth). let rowCells = 2 * halfWidth + 1 in if distance = 0 then cells + rowCells else cells + 2 * rowCells)
       0 (enumerate 0 halfWidths)"

definition MinInt64 :: int64 where "MinInt64 = 0x8000000000000000"

definition checkedAddInt64 :: "int64 \<Rightarrow> int64 \<Rightarrow> int64 option" where
  "checkedAddInt64 left right =
     (if sint right > 0 \<and> sint left > sint (MaxInt64 - right) then None
      else if sint right < 0 \<and> sint left < sint (MinInt64 - right) then None
      else Some (left + right))"

text \<open>The values of \<^verbatim>\<open>for d := -limit; d <= limit; d++\<close>.\<close>

definition symmetric_range :: "int64 \<Rightarrow> int64 list" where
  "symmetric_range limit = map word_of_int [- sint limit..sint limit]"

definition radius_coords :: "Coord \<Rightarrow> int64 \<Rightarrow> int64 list \<Rightarrow> Coord list" where
  "radius_coords center radius halfWidths =
     concat (map (\<lambda>dx.
       case checkedAddInt64 (coord_X center) dx of
         None \<Rightarrow> []
       | Some x \<Rightarrow>
           let absoluteX = (if sint dx < 0 then - dx else dx); yLimit = halfWidths ! unat absoluteX
           in List.map_filter (\<lambda>dy. map_option (Coord x) (checkedAddInt64 (coord_Y center) dy)) (symmetric_range yLimit))
       (symmetric_range radius))"

definition cmd_chunkRadius :: "'s Engine \<Rightarrow> string list \<Rightarrow> 's handler" where
  "cmd_chunkRadius e args =
     parsed (requireArity args 3) (\<lambda>_.
     parsed (parseCoord (take 2 args)) (\<lambda>center.
     case parseInt (args ! 2) of
       None \<Rightarrow> respond (errorResponse ''NUMBER'' ''radius must be a signed decimal integer'')
     | Some radius \<Rightarrow>
     if sint radius < 0 \<or> sint radius \<ge> sint maxWorldReadChunks
     then respond (errorResponse ''INVALID_ARGUMENT'' ''chunk radius must be non-negative and cover at most 256 chunks'')
     else let halfWidths = half_widths radius
     in if radius_cells halfWidths > maxWorldReadChunks
        then respond (errorResponse ''INVALID_ARGUMENT'' ''chunk radius must cover at most 256 chunks'')
        else append_world e (radius_coords center radius halfWidths) [] 0))"

section \<open>Sessions\<close>

definition appendInfoValue :: "bytes \<Rightarrow> string \<Rightarrow> string \<Rightarrow> bytes" where
  "appendInfoValue payload key v = payload @ bytes_of key @ bytes_of ''='' @ bytes_of v @ [10]"

definition appendInfoCounter :: "bytes \<Rightarrow> string \<Rightarrow> uint64 \<Rightarrow> bytes" where
  "appendInfoCounter payload key v = payload @ bytes_of key @ bytes_of ''='' @ bytes_of (FormatUint v) @ [10]"

definition infoPayload :: "RuntimeStats \<Rightarrow> bytes" where
  "infoPayload stats =
     (let payload = bytes_of ''regiondb_version=1'' @ [10];
          payload = appendInfoValue payload ''process_lock_mode'' (rs_ProcessLockMode stats);
          payload = appendInfoValue payload ''chunk_lock_mode'' (rs_ChunkLockMode stats);
          payload = appendInfoCounter payload ''cache_hits'' (rs_CacheHits stats);
          payload = appendInfoCounter payload ''cache_misses'' (rs_CacheMisses stats);
          payload = appendInfoCounter payload ''loaded_chunks'' (rs_LoadedChunks stats);
          payload = appendInfoCounter payload ''dirty_chunks'' (rs_DirtyChunks stats);
          payload = appendInfoCounter payload ''evictions'' (rs_Evictions stats);
          payload = appendInfoCounter payload ''eviction_runs'' (rs_EvictionRuns stats);
          payload = appendInfoCounter payload ''wal_flushes'' (rs_WALFlushes stats);
          payload = appendInfoCounter payload ''wal_foreground_flushes'' (rs_WALForegroundFlushes stats);
          payload = appendInfoCounter payload ''wal_group_flushes'' (rs_WALGroupFlushes stats);
          payload = appendInfoCounter payload ''wal_eviction_flushes'' (rs_WALEvictionFlushes stats);
          payload = appendInfoCounter payload ''wal_checkpoint_flushes'' (rs_WALCheckpointFlushes stats);
          payload = appendInfoCounter payload ''open_wal_handles'' (rs_OpenWALHandles stats)
      in appendInfoCounter payload ''checkpoints'' (rs_Checkpoints stats))"

definition authenticate :: "'s Engine \<Rightarrow> string list \<Rightarrow> Session \<Rightarrow> Response \<times> Session" where
  "authenticate e args se =
     (case requireArity args 1 of
        Inl r \<Rightarrow> (r, se)
      | Inr _ \<Rightarrow>
          if \<not> en_auth e then (okResponse [], se\<lparr>se_authenticated := True\<rparr>)
          else if \<not> tokensEqual (args ! 0) (en_token e)
          then (errorResponse ''AUTH'' ''authentication failed'', se\<lparr>se_authenticated := False, se_authFailed := True\<rparr>)
          else (okResponse [], se\<lparr>se_authenticated := True\<rparr>))"

definition cmd_flush :: "'s Engine \<Rightarrow> string list \<Rightarrow> 's handler" where
  "cmd_flush e args =
     parsed (requireArity args 0) (\<lambda>_.
     case cs_FlushWAL (en_store e) of
       None \<Rightarrow> storageError ''durability barrier unavailable''
     | Some flush \<Rightarrow> call flush (\<lambda>_. storageError ''durability barrier failed'') (\<lambda>_. respond (okResponse [])))"

text \<open>The commands of an authenticated session.\<close>

definition dispatch :: "float64_arith \<Rightarrow> 's Engine \<Rightarrow> Metrics \<Rightarrow> Command \<Rightarrow> 's \<Rightarrow> (Response \<times> 's) option" where
  "dispatch fl e metrics command s =
     (let name = Name command; args = Args command in
      if name = ''PING'' then Some (parsed (requireArity args 0) (\<lambda>_. respond (okResponse ''PONG'')) s)
      else if name = ''INFO'' then
        Some (parsed (requireArity args 0) (\<lambda>_. respond (bulkResponse (infoPayload (cs_RuntimeStats (en_store e) s)))) s)
      else if name = ''METRICS'' then
        Some (parsed (requireArity args 0) (\<lambda>_. respond (bulkResponse (AppendPrometheus fl [] metrics (cs_RuntimeStats (en_store e) s)))) s)
      else if name = ''WALFLUSH'' then Some (cmd_flush e args s)
      else if name = ''GET'' then Some (cmd_get e args s)
      else if name = ''MGET'' then Some (cmd_mget e args s)
      else if name = ''SET'' then Some (cmd_set e args s)
      else if name = ''MSET'' then Some (cmd_mset e args s)
      else if name = ''UNSET'' then Some (cmd_unset e args s)
      else if name = ''EXISTS'' then Some (cmd_exists e args s)
      else if name = ''CHUNK'' then Some (cmd_chunk e args s)
      else if name = ''CHUNKBIN'' then Some (cmd_chunkBinary e args s)
      else if name = ''CHUNKBINC'' then Some (cmd_chunkBinaryCompressed e args s)
      else if name = ''CHUNKEXISTS'' then Some (cmd_chunkExists e args s)
      else if name = ''CHUNKSET'' then Some (cmd_chunkSet e args s)
      else if name = ''CHUNKVER'' then Some (cmd_chunkVersion e args s)
      else if name = ''CHUNKCAS'' then Some (cmd_chunkCAS e args s)
      else if name = ''CHUNKBATCH'' then Some (cmd_chunkBatch e args s)
      else if name = ''CHUNKSCAN'' then cmd_chunkScan e args s
      else if name = ''CHUNKRANGE'' then Some (cmd_chunkRange e args s)
      else if name = ''CHUNKRADIUS'' then Some (cmd_chunkRadius e args s)
      else Some (errorResponse ''COMMAND'' ''unknown command'', s))"

definition execute_body :: "float64_arith \<Rightarrow> 's Engine \<Rightarrow> Command \<Rightarrow> Session \<Rightarrow> 's shared \<Rightarrow> (Response \<times> Session \<times> 's) option" where
  "execute_body fl e command se sh =
     (if se_closed se then Some (errorResponse ''CLOSED'' ''session is closed'', se, sh_store sh)
      else if Name command = ''AUTH'' then
        (let (r, se) = authenticate e (Args command) se in Some (r, se, sh_store sh))
      else if Name command = ''QUIT'' then
        (case requireArity (Args command) 0 of
           Inl r \<Rightarrow> Some (r, se, sh_store sh)
         | Inr _ \<Rightarrow> Some (okResponse [], se\<lparr>se_closed := True\<rparr>, sh_store sh))
      else if \<not> se_authenticated se then Some (errorResponse ''NOAUTH'' ''authentication required'', se, sh_store sh)
      else map_option (\<lambda>(r, s). (r, se, s)) (dispatch fl e (sh_metrics sh) command (sh_store sh)))"

text \<open>\<open>elapsed\<close> is the time the command took.\<close>

definition Execute :: "float64_arith \<Rightarrow> 's Engine \<Rightarrow> int64 \<Rightarrow> Command \<Rightarrow> Session \<Rightarrow> 's shared \<Rightarrow> (Response \<times> Session \<times> 's shared) option" where
  "Execute fl e elapsed command se sh =
     map_option (\<lambda>(r, se, s). (r, se, \<lparr>sh_metrics = ObserveCommand fl elapsed (resp_kind r = responseError) (sh_metrics sh), sh_store = s\<rparr>))
       (execute_body fl e command se sh)"

definition frame_error_text :: "frame_error \<Rightarrow> string" where
  "frame_error_text err = ''invalid command frame: '' @
     (case err of
        MustEndWithCRLF \<Rightarrow> ''command must end with CRLF''
      | CommandEmpty \<Rightarrow> ''command is empty''
      | EmbeddedLineBreak \<Rightarrow> ''embedded line break''
      | NotPrintableASCII \<Rightarrow> ''command must contain printable ASCII''
      | NotSingleSpaces \<Rightarrow> ''tokens must use single spaces''
      | NameNotUppercase \<Rightarrow> ''command name must be uppercase ASCII'')"

definition Handle :: "float64_arith \<Rightarrow> 's Engine \<Rightarrow> int64 \<Rightarrow> bytes \<Rightarrow> Session \<Rightarrow> 's shared \<Rightarrow> (Response \<times> Session \<times> 's shared) option" where
  "Handle fl e elapsed input se sh =
     (let se = se\<lparr>se_authFailed := False\<rparr>
      in if se_closed se then Some (errorResponse ''CLOSED'' ''session is closed'', se, sh)
         else case parseFrame input of
                Inl err \<Rightarrow> Some (errorResponse ''FRAME'' (frame_error_text err), se, sh)
              | Inr command \<Rightarrow> Execute fl e elapsed command se sh)"

section \<open>Authentication\<close>

text \<open>A session that receives frames one after the other, each with the time its command took.\<close>

fun session_run :: "float64_arith \<Rightarrow> 's Engine \<Rightarrow> (int64 \<times> bytes) list \<Rightarrow> Session \<Rightarrow> 's shared \<Rightarrow> (Response list \<times> Session \<times> 's shared) option" where
  "session_run fl e [] se sh = Some ([], se, sh)"
| "session_run fl e ((elapsed, input) # rest) se sh =
     (case Handle fl e elapsed input se sh of
        None \<Rightarrow> None
      | Some (r, se, sh) \<Rightarrow> map_option (\<lambda>(rs, se, sh). (r # rs, se, sh)) (session_run fl e rest se sh))"

definition presents_token :: "'s Engine \<Rightarrow> bytes \<Rightarrow> bool" where
  "presents_token e input \<longleftrightarrow> (case parseFrame input of Inl _ \<Rightarrow> False | Inr c \<Rightarrow> Name c = ''AUTH'' \<and> Args c = [en_token e])"

lemma authenticate_wrong:
  assumes "en_auth e" "args \<noteq> [en_token e]" "\<not> se_authenticated se" "authenticate e args se = (r, se')"
  shows "\<not> se_authenticated se' \<and> se_closed se' = se_closed se \<and> resp_kind r = responseError"
  using assms by (auto simp: authenticate_def requireArity_def tokensEqual_def bytes_of_inject arityError_def errorResponse_def okResponse_def
      length_Suc_conv split: if_splits)

lemma Handle_unauthenticated:
  assumes "en_auth e" "\<not> presents_token e input" "\<not> se_authenticated se"
  shows "\<exists>r se' sh'. Handle fl e elapsed input se sh = Some (r, se', sh') \<and> sh_store sh' = sh_store sh \<and> \<not> se_authenticated se' \<and>
     (resp_kind r = responseError \<or> r = okResponse [] \<and> se_closed se')"
proof (cases "parseFrame input")
  case (Inl err)
  then show ?thesis using assms(3) by (auto simp: Handle_def Let_def errorResponse_def)
next
  case (Inr c)
  let ?se = "se\<lparr>se_authFailed := False\<rparr>"
  have ar: "Name c = ''AUTH'' \<Longrightarrow> Args c \<noteq> [en_token e]" using assms(2) Inr by (auto simp: presents_token_def)
  obtain r se' where a: "authenticate e (Args c) ?se = (r, se')" by fastforce
  have "\<exists>r se'. execute_body fl e c ?se sh = Some (r, se', sh_store sh) \<and> \<not> se_authenticated se' \<and>
      (resp_kind r = responseError \<or> r = okResponse [] \<and> se_closed se')"
  proof (cases "Name c = ''AUTH''")
    case True
    then show ?thesis using authenticate_wrong [OF assms(1) ar _ a] assms(3) a by (auto simp: execute_body_def errorResponse_def)
  next
    case False
    then show ?thesis using assms(3) by (auto simp: execute_body_def errorResponse_def requireArity_def arityError_def)
  qed
  then show ?thesis using Inr assms(3) by (auto simp: Handle_def Execute_def Let_def errorResponse_def)
qed

text \<open>
  Without the token nothing of the store is reached.  When the engine requires authentication and no frame of a
  session presents the token, then whatever the frames are, the session answers every one of them, only with errors and
  the acknowledgement of a quit, it never becomes authenticated, and the store is left exactly as it was.
\<close>

theorem no_access_without_token:
  assumes "en_auth e" "\<forall>(elapsed, input)\<in>set frames. \<not> presents_token e input"
  shows "\<exists>rs se sh'. session_run fl e frames (NewSession e) sh = Some (rs, se, sh') \<and> sh_store sh' = sh_store sh \<and>
     \<not> se_authenticated se \<and> length rs = length frames \<and> (\<forall>r\<in>set rs. resp_kind r = responseError \<or> r = okResponse [])"
proof -
  have "\<exists>rs se' sh'. session_run fl e frames se sh = Some (rs, se', sh') \<and> sh_store sh' = sh_store sh \<and>
     \<not> se_authenticated se' \<and> length rs = length frames \<and> (\<forall>r\<in>set rs. resp_kind r = responseError \<or> r = okResponse [])"
    if "\<not> se_authenticated se" for se
    using assms(2) that
  proof (induction frames arbitrary: se sh)
    case (Cons f frames)
    obtain elapsed input where f: "f = (elapsed, input)" by (cases f)
    obtain r se1 sh1 where h: "Handle fl e elapsed input se sh = Some (r, se1, sh1)" "sh_store sh1 = sh_store sh"
      "\<not> se_authenticated se1" "resp_kind r = responseError \<or> r = okResponse []"
      using Handle_unauthenticated [OF assms(1) _ Cons.prems(2)] Cons.prems(1) f by fastforce
    from Cons.IH [OF _ h(3), of sh1] Cons.prems(1) show ?case using h f by fastforce
  qed simp
  then show ?thesis using assms(1) by (simp add: NewSession_def)
qed

text \<open>An engine over a store whose operations all fail, for concrete instances.\<close>

definition failing_store :: "unit ChunkStore" where
  "failing_store = \<lparr>cs_ReadChunk = \<lambda>_. raise [], cs_ScanChunkCoords = \<lambda>_ _ _. raise [], cs_WriteChunk = \<lambda>_ _. raise [],
     cs_RuntimeStats = \<lambda>_. \<lparr>rs_ProcessLockMode = [], rs_ChunkLockMode = [], rs_CacheHits = 0, rs_CacheMisses = 0, rs_LoadedChunks = 0,
       rs_DirtyChunks = 0, rs_Evictions = 0, rs_EvictionRuns = 0, rs_WALFlushes = 0, rs_WALForegroundFlushes = 0, rs_WALGroupFlushes = 0,
       rs_WALEvictionFlushes = 0, rs_WALCheckpointFlushes = 0, rs_OpenWALHandles = 0, rs_Checkpoints = 0\<rparr>,
     cs_Versioned = None, cs_FlushWAL = None\<rparr>"

definition sample_engine :: "unit Engine" where
  "sample_engine = \<lparr>en_geometry = \<lparr>config = \<lparr>ChunkEdge = 2, LargeChunkEdge = 1, BlockBits = 3\<rparr>, blockCount = 4, payloadBytes = 2, presenceBytes = 1\<rparr>,
     en_store = failing_store, en_token = ''secret'', en_auth = True\<rparr>"

theorem no_access_without_token_witness:
  "\<exists>rs se sh. session_run \<lparr>fl_round = id, fl_format = \<lambda>_. []\<rparr> sample_engine [(5, bytes_of ''PING'' @ CRLF), (7, bytes_of ''AUTH guess'' @ CRLF)]
     (NewSession sample_engine) \<lparr>sh_metrics = zero_metrics, sh_store = ()\<rparr> = Some (rs, se, sh) \<and> \<not> se_authenticated se \<and> length rs = 2"
proof -
  have a: "en_auth sample_engine" by (simp add: sample_engine_def)
  have "\<not> presents_token sample_engine (bytes_of ''PING'' @ CRLF)" "\<not> presents_token sample_engine (bytes_of ''AUTH guess'' @ CRLF)"
    by code_simp+
  then have "\<forall>(elapsed, input)\<in>set [(5 :: int64, bytes_of ''PING'' @ CRLF), (7, bytes_of ''AUTH guess'' @ CRLF)]. \<not> presents_token sample_engine input" by simp
  from no_access_without_token [OF a this, of "\<lparr>fl_round = id, fl_format = \<lambda>_. []\<rparr>" "\<lparr>sh_metrics = zero_metrics, sh_store = ()\<rparr>"]
  show ?thesis by auto
qed

end
