(* ===== verification/WorldRead.thy ===== *)
theory WorldRead
  imports Engine
begin

text \<open>
  The world reads of the engine (\<^verbatim>\<open>internal/protocol/world_read.go\<close>): which chunks a rectangle, a disc and a scan
  visit, and how large a response can get.
\<close>

section \<open>Rectangles\<close>

text \<open>A chunk coordinate as a pair of integers.\<close>

definition ipos :: "Coord \<Rightarrow> int \<times> int" where
  "ipos c = (sint (coord_X c), sint (coord_Y c))"

definition int64_range :: "int set" where
  "int64_range = {- 9223372036854775808..9223372036854775807}"

lemma sint_int64: "sint (x :: int64) \<in> int64_range"
  using sint_ge [of x] sint_lt [of x] by (simp add: int64_range_def)

lemma sint_of_range: "i \<in> int64_range \<Longrightarrow> sint (word_of_int i :: int64) = i"
  by (rule sint_word_of_int64) (simp_all add: int64_range_def)

lemma sint_plus: "sint a + sint b \<in> int64_range \<Longrightarrow> sint (a + b :: int64) = sint a + sint b"
  by (simp add: int64_range_def sint_word_ariths signed_take_bit_int_eq_self)

lemma count_up_ints: "sint a + int n \<in> int64_range \<Longrightarrow> map sint (count_up a n) = [sint a..sint a + int n]"
proof (induction n arbitrary: a)
  case (Suc n)
  have r: "sint a + 1 \<in> int64_range" using Suc.prems sint_int64 [of a] by (auto simp: int64_range_def)
  then have s: "sint (a + 1) = sint a + 1" using sint_plus [of a 1] by simp
  have "map sint (count_up (a + 1) n) = [sint a + 1..sint a + int (Suc n)]" using Suc.IH [of "a + 1"] Suc.prems s by (simp add: add_ac)
  then show ?case using upto_rec1 [of "sint a" "sint a + int (Suc n)"] by simp
qed simp

lemma span: "sint (a :: int64) \<le> sint b \<Longrightarrow> int (unat (b - a)) = sint b - sint a"
proof -
  assume le: "sint a \<le> sint b"
  have w: "b - a = word_of_int (sint b - sint a)" by simp
  have "uint (b - a) = (sint b - sint a) mod 18446744073709551616" unfolding w uint_word_of_int by simp
  also have "\<dots> = sint b - sint a" using le sint_int64 [of a] sint_int64 [of b] by (intro mod_pos_pos_trivial) (auto simp: int64_range_def)
  finally show ?thesis by simp
qed

lemma count_up_span: "sint a \<le> sint b \<Longrightarrow> map sint (count_up a (unat (b - a))) = [sint a..sint b]"
  using count_up_ints [of a "unat (b - a)"] span [of a b] sint_int64 [of b] by simp

lemma range_coords_product:
  assumes "sint (coord_X first) \<le> sint (coord_X final)" "sint (coord_Y first) \<le> sint (coord_Y final)"
  shows "map ipos (range_coords first final) = List.product [sint (coord_X first)..sint (coord_X final)] [sint (coord_Y first)..sint (coord_Y final)]"
proof -
  let ?xs = "count_up (coord_X first) (unat (coord_X final - coord_X first))"
  let ?ys = "count_up (coord_Y first) (unat (coord_Y final - coord_Y first))"
  have "map ipos (range_coords first final) = concat (map (\<lambda>x. map (Pair (sint x)) (map sint ?ys)) ?xs)"
    by (simp add: range_coords_def map_concat o_def ipos_def)
  also have "\<dots> = List.product (map sint ?xs) (map sint ?ys)" by (simp add: product_concat_map o_def)
  finally show ?thesis using count_up_span assms by simp
qed

section \<open>Discs\<close>

lemma checkedAdd_exact:
  "checkedAddInt64 a b = (if sint a + sint b \<in> int64_range then Some (a + b) else None)"
proof -
  have m: "sint MaxInt64 = 9223372036854775807" "sint MinInt64 = - 9223372036854775808" by (simp_all add: MaxInt64_def MinInt64_def)
  have s: "sint (c - b) = sint c - sint b" if "sint c - sint b \<in> int64_range" for c :: int64
    using that by (simp add: int64_range_def sint_word_ariths signed_take_bit_int_eq_self)
  have "sint b > 0 \<Longrightarrow> sint (MaxInt64 - b) = 9223372036854775807 - sint b" using s [of MaxInt64] m sint_int64 [of b] by (simp add: int64_range_def)
  moreover have "sint b < 0 \<Longrightarrow> sint (MinInt64 - b) = - 9223372036854775808 - sint b" using s [of MinInt64] m sint_int64 [of b] by (simp add: int64_range_def)
  ultimately show ?thesis using sint_int64 [of a] sint_int64 [of b] by (auto simp: checkedAddInt64_def int64_range_def)
qed

text \<open>The half width of a row is the largest that stays inside the disc.\<close>

lemma half_width_exact:
  assumes "h * h + d * d \<le> r * r" "r < 256" "r < h + n"
  shows "\<exists>w. half_width n (of_nat (r * r)) (of_nat (d * d)) (of_nat h) = of_nat w \<and> w \<le> r \<and> w * w + d * d \<le> r * r \<and> r * r < (w + 1) * (w + 1) + d * d"
  using assms
proof (induction n arbitrary: h)
  case 0
  then have "r * r < h * h" by (intro mult_strict_mono) auto
  then show ?case using 0 by linarith
next
  case (Suc n)
  have "h * h \<le> r * r" using Suc.prems(1) by linarith
  then have hr: "h \<le> r" by (meson mult_strict_mono not_le zero_le le_less_trans)
  have small: "(h + 1) * (h + 1) + d * d < 2 ^ 64" "r * r < 2 ^ 64"
  proof -
    have "d * d \<le> r * r" using Suc.prems(1) by linarith
    moreover have "r * r \<le> 255 * 255" using Suc.prems(2) by (intro mult_mono) auto
    moreover have "(h + 1) * (h + 1) \<le> 256 * 256" using hr Suc.prems(2) by (intro mult_mono) auto
    ultimately show "(h + 1) * (h + 1) + d * d < 2 ^ 64" "r * r < 2 ^ 64" by simp_all
  qed
  have e: "((of_nat h + 1) * (of_nat h + 1) + of_nat (d * d) :: uint64) = of_nat ((h + 1) * (h + 1) + d * d)" by (simp add: algebra_simps)
  have cond: "((of_nat h + 1) * (of_nat h + 1) + of_nat (d * d) :: uint64) \<le> of_nat (r * r) \<longleftrightarrow> (h + 1) * (h + 1) + d * d \<le> r * r"
    unfolding e using small by (simp only: word_le_nat_alt unat_of_nat take_bit_nat_eq_self_iff len_of_numeral_defs) (simp add: unat_of_nat)
  show ?case
  proof (cases "(h + 1) * (h + 1) + d * d \<le> r * r")
    case True
    then have "half_width (Suc n) (of_nat (r * r)) (of_nat (d * d)) (of_nat h) = half_width n (of_nat (r * r)) (of_nat (d * d)) (of_nat (h + 1))"
      unfolding half_width.simps if_P [OF cond [THEN iffD2, OF True]] by (simp add: add_ac)
    then show ?thesis using Suc.IH [of "h + 1"] Suc.prems True by simp
  next
    case False
    then have "half_width (Suc n) (of_nat (r * r)) (of_nat (d * d)) (of_nat h) = of_nat h"
      unfolding half_width.simps using cond by (simp only: if_False)
    then show ?thesis using Suc.prems(1) False hr by (intro exI [of _ h]) (simp only: not_le)
  qed
qed

definition row_ok :: "nat \<Rightarrow> nat \<Rightarrow> nat \<Rightarrow> bool" where
  "row_ok r d w \<longleftrightarrow> w \<le> r \<and> w * w + d * d \<le> r * r \<and> r * r < (w + 1) * (w + 1) + d * d"

lemma half_widths_exact:
  assumes "0 \<le> sint radius" "sint radius < 256" "r = nat (sint radius)" "d \<le> r"
  shows "\<exists>w. half_widths radius ! d = of_nat w \<and> row_ok r d w"
proof -
  have "radius = word_of_int (sint radius)" by simp
  then have w: "radius = of_nat r" using assms(1,3) by (metis of_int_of_nat_eq of_nat_nat)
  have "r < 256" using assms(1-3) by linarith
  then have u: "unat radius = r" unfolding w unat_of_nat by (simp add: take_bit_nat_eq_self)
  have "d * d \<le> r * r" using assms(4) by (intro mult_mono) auto
  moreover have "r < 256" using assms(1-3) by linarith
  ultimately obtain w where "half_width (r + 1) (of_nat (r * r)) (of_nat (d * d)) (of_nat 0) = of_nat w \<and> row_ok r d w"
    using half_width_exact [of 0 d r "r + 1"] unfolding row_ok_def by auto
  moreover have "half_widths radius ! d = half_width (r + 1) (of_nat (r * r)) (of_nat (d * d)) (of_nat 0)"
    using assms(4) u unfolding half_widths_def w by (simp add: unat_of_nat nth_append)
  ultimately show ?thesis by auto
qed

lemma square_le_iff: "(a :: int) * a \<le> b * b \<longleftrightarrow> \<bar>a\<bar> \<le> \<bar>b\<bar>"
  by (metis abs_le_square_iff power2_eq_square)

text \<open>The row of a disc: the values within the half width are those inside the circle.\<close>

lemma disc_row:
  assumes "row_ok r d w"
  shows "filter (\<lambda>dy. int d * int d + dy * dy \<le> int r * int r) [- int r..int r] = [- int w..int w]"
proof (rule sorted_distinct_set_unique)
  have w: "int w * int w + int d * int d \<le> int r * int r" "int r * int r < (int w + 1) * (int w + 1) + int d * int d" "w \<le> r"
  proof -
    have "int (w * w + d * d) \<le> int (r * r)" "int (r * r) < int ((w + 1) * (w + 1) + d * d)"
      using assms unfolding row_ok_def of_nat_le_iff of_nat_less_iff by blast+
    then show "int w * int w + int d * int d \<le> int r * int r" "int r * int r < (int w + 1) * (int w + 1) + int d * int d"
      by (simp_all add: algebra_simps)
    show "w \<le> r" using assms by (simp add: row_ok_def)
  qed
  have "int d * int d + dy * dy \<le> int r * int r \<longleftrightarrow> \<bar>dy\<bar> \<le> int w" for dy
  proof
    assume "int d * int d + dy * dy \<le> int r * int r"
    then have "dy * dy < (int w + 1) * (int w + 1)" using w(2) by linarith
    then have "\<not> (int w + 1) * (int w + 1) \<le> dy * dy" by simp
    then show "\<bar>dy\<bar> \<le> int w" unfolding square_le_iff by simp
  next
    assume "\<bar>dy\<bar> \<le> int w"
    then have "dy * dy \<le> int w * int w" unfolding square_le_iff by simp
    then show "int d * int d + dy * dy \<le> int r * int r" using w(1) by linarith
  qed
  then have "filter (\<lambda>dy. int d * int d + dy * dy \<le> int r * int r) [- int r..int r] = filter (\<lambda>dy. \<bar>dy\<bar> \<le> int w) [- int r..int r]"
    by simp
  then show "set (filter (\<lambda>dy. int d * int d + dy * dy \<le> int r * int r) [- int r..int r]) = set [- int w..int w]"
    using w(3) by (simp only: set_filter set_upto) (auto simp: abs_le_iff)
qed (simp_all add: sorted_wrt_filter)

definition disc :: "int \<times> int \<Rightarrow> int \<Rightarrow> (int \<times> int) list" where
  "disc center r =
     filter (\<lambda>(x, y). x \<in> int64_range \<and> y \<in> int64_range \<and> (x - fst center) * (x - fst center) + (y - snd center) * (y - snd center) \<le> r * r)
       (List.product [fst center - r..fst center + r] [snd center - r..snd center + r])"

lemma shift_upto: "[(c :: int) - r..c + r] = map ((+) c) [- r..r]"
proof (rule sorted_distinct_set_unique)
  show "set [c - r..c + r] = set (map ((+) c) [- r..r])" by (auto simp: image_iff intro: bexI [of _ "_ - c"])
  show "sorted (map ((+) c) [- r..r])" by (simp add: sorted_map)  
qed (simp_all add: distinct_map)


lemma small_int64: "\<bar>i\<bar> < 256 \<Longrightarrow> sint (word_of_int i :: int64) = i"
  by (rule sint_of_range) (auto simp: int64_range_def)

lemma small_nat64: "w < 256 \<Longrightarrow> sint (of_nat w :: int64) = int w"
  using small_int64 [of "int w"] by simp

text \<open>The offset that the code looks up in the table of half widths.\<close>

lemma unat_absolute:
  assumes "\<bar>dx\<bar> < 256"
  shows "unat (if sint (word_of_int dx :: int64) < 0 then - word_of_int dx else word_of_int dx :: int64) = nat \<bar>dx\<bar>"
proof -
  have "(if sint (word_of_int dx :: int64) < 0 then - word_of_int dx else word_of_int dx :: int64) = word_of_int \<bar>dx\<bar>"
    using small_int64 [OF assms] by simp
  also have "\<dots> = of_nat (nat \<bar>dx\<bar>)" by simp
  finally have e: "(if sint (word_of_int dx :: int64) < 0 then - word_of_int dx else word_of_int dx :: int64) = of_nat (nat \<bar>dx\<bar>)" .
  have "nat \<bar>dx\<bar> < 2 ^ 64" using assms by simp
  then show ?thesis unfolding e unat_of_nat by (simp add: take_bit_nat_eq_self)
qed

lemma disc_rows:
  "disc (cx, cy) r = concat (map (\<lambda>dx. if cx + dx \<in> int64_range
     then map (\<lambda>dy. (cx + dx, cy + dy)) (filter (\<lambda>dy. cy + dy \<in> int64_range) (filter (\<lambda>dy. dx * dx + dy * dy \<le> r * r) [- r..r]))
     else []) [- r..r])"
proof -
  let ?in = "\<lambda>dx. filter (\<lambda>dy. cx + dx \<in> int64_range \<and> cy + dy \<in> int64_range \<and> dx * dx + dy * dy \<le> r * r) [- r..r]"
  have "disc (cx, cy) r = concat (map (\<lambda>dx. map (\<lambda>dy. (cx + dx, cy + dy)) (?in dx)) [- r..r])"
    unfolding disc_def shift_upto fst_conv snd_conv product_concat_map
    by (simp add: filter_concat filter_map o_def)
  also have "\<dots> = concat (map (\<lambda>dx. if cx + dx \<in> int64_range
     then map (\<lambda>dy. (cx + dx, cy + dy)) (filter (\<lambda>dy. cy + dy \<in> int64_range) (filter (\<lambda>dy. dx * dx + dy * dy \<le> r * r) [- r..r]))
     else []) [- r..r])"
    by (intro arg_cong [where f = concat] map_cong refl) (simp add: conj_ac)
  finally show ?thesis .
qed

lemma radius_row:
  assumes "yLimit = of_nat w" "w < 256"
  shows "map ipos (List.map_filter (\<lambda>dy. map_option (Coord x) (checkedAddInt64 (coord_Y center) dy)) (symmetric_range yLimit)) =
    map (\<lambda>dy. (sint x, sint (coord_Y center) + dy)) (filter (\<lambda>dy. sint (coord_Y center) + dy \<in> int64_range) [- int w..int w])"
proof -
  have rows: "map ipos (List.map_filter (\<lambda>dy. map_option (Coord x) (checkedAddInt64 (coord_Y center) dy)) (map word_of_int ds)) =
    map (\<lambda>dy. (sint x, sint (coord_Y center) + dy)) (filter (\<lambda>dy. sint (coord_Y center) + dy \<in> int64_range) ds)"
    if "\<And>dy. dy \<in> set ds \<Longrightarrow> \<bar>dy\<bar> < 256" for ds
    using that
  proof (induction ds)
    case (Cons dy ds)
    have "sint (word_of_int dy :: int64) = dy" using Cons.prems [of dy] by (intro small_int64) simp
    then show ?case using Cons sint_plus [of "coord_Y center" "word_of_int dy"]
      by (simp add: map_filter_simps checkedAdd_exact ipos_def split: option.splits)
  qed (simp add: map_filter_simps)
  show ?thesis unfolding symmetric_range_def assms(1) small_nat64 [OF assms(2)] by (rule rows) (use assms(2) in auto)
qed

lemma radius_coords_disc:
  assumes "0 \<le> sint radius" "sint radius < 256"
  shows "map ipos (radius_coords center radius (half_widths radius)) = disc (ipos center) (sint radius)"
proof -
  let ?r = "nat (sint radius)"
  let ?F = "\<lambda>dx. case checkedAddInt64 (coord_X center) (word_of_int dx :: int64) of None \<Rightarrow> [] | Some x \<Rightarrow>
    let absoluteX = (if sint (word_of_int dx :: int64) < 0 then - word_of_int dx else word_of_int dx :: int64); yLimit = half_widths radius ! unat absoluteX
    in List.map_filter (\<lambda>dy. map_option (Coord x) (checkedAddInt64 (coord_Y center) dy)) (symmetric_range yLimit)"
  have row: "map ipos (?F dx) = (if sint (coord_X center) + dx \<in> int64_range
     then map (\<lambda>dy. (sint (coord_X center) + dx, sint (coord_Y center) + dy))
       (filter (\<lambda>dy. sint (coord_Y center) + dy \<in> int64_range) (filter (\<lambda>dy. dx * dx + dy * dy \<le> sint radius * sint radius) [- sint radius..sint radius]))
     else [])" if "dx \<in> set [- sint radius..sint radius]" for dx
  proof -
    have small: "\<bar>dx\<bar> < 256" and d: "nat \<bar>dx\<bar> \<le> ?r" using that assms by auto
    obtain w where w: "half_widths radius ! nat \<bar>dx\<bar> = of_nat w" "row_ok ?r (nat \<bar>dx\<bar>) w" using half_widths_exact [OF assms refl d] by blast
    have "w < 256" using w(2) assms unfolding row_ok_def by linarith
    have squares: "int (nat \<bar>dx\<bar>) * int (nat \<bar>dx\<bar>) = dx * dx" by simp
    have "filter (\<lambda>dy. dx * dx + dy * dy \<le> sint radius * sint radius) [- sint radius..sint radius] = [- int w..int w]"
      using disc_row [OF w(2)] assms(1) unfolding squares by simp
    moreover have "checkedAddInt64 (coord_X center) (word_of_int dx) =
        (if sint (coord_X center) + dx \<in> int64_range then Some (coord_X center + word_of_int dx) else None)"
      using checkedAdd_exact [of "coord_X center" "word_of_int dx"] unfolding small_int64 [OF small] .
    moreover have "sint (coord_X center) + dx \<in> int64_range \<Longrightarrow> sint (coord_X center + word_of_int dx) = sint (coord_X center) + dx"
      using sint_plus [of "coord_X center" "word_of_int dx"] unfolding small_int64 [OF small] .
    ultimately show ?thesis unfolding Let_def unat_absolute [OF small] w(1)
      using radius_row [OF refl \<open>w < 256\<close>, where center = center and x = "coord_X center + word_of_int dx"]
      by (simp only: option.case if_True if_False list.map split: if_split) simp
  qed
  have "map ipos (radius_coords center radius (half_widths radius)) = concat (map (\<lambda>dx. map ipos (?F dx)) [- sint radius..sint radius])"
    by (simp add: radius_coords_def symmetric_range_def map_concat o_def)
  also have "\<dots> = disc (ipos center) (sint radius)"
    unfolding ipos_def disc_rows by (intro arg_cong [where f = concat] map_cong refl) (rule row [unfolded ipos_def])
  finally show ?thesis .
qed

section \<open>The size of a response\<close>

lemma length_dec_digits: "n < 10 ^ Suc k \<Longrightarrow> length (dec_digits n) \<le> Suc k"
proof (induction k arbitrary: n)
  case 0
  then show ?case by (simp add: dec_digits.simps)
next
  case (Suc k)
  then have "n div 10 < 10 ^ Suc k" by (simp add: less_mult_imp_div_less mult.commute)
  then show ?case using Suc.IH [of "n div 10"] by (subst dec_digits.simps) simp
qed

lemma length_digits64: "n \<le> 2 ^ 64 \<Longrightarrow> length (dec_digits n) \<le> 20"
  using length_dec_digits [of n 19] by simp

lemma length_FormatInt: "length (FormatInt x) \<le> 21"
proof -
  have "nat (sint x) \<le> 2 ^ 64" "nat (- sint x) \<le> 2 ^ 64" using sint_int64 [of x] by (auto simp: int64_range_def)
  from this [THEN length_digits64] show ?thesis by (simp add: FormatInt_def)
qed

lemma length_world_item:
  "length (world_item c chunk) =
     length (FormatInt (coord_X c)) + length (FormatInt (coord_Y c)) + 3 + 2 * length (chunk_payload chunk) + 2 * length (chunk_presence chunk)"
  by (simp add: world_item_def coord_text_def hex_EncodedLen_def)

text \<open>The size that the code computes is the size on the wire.\<close>

lemma unat_small64: "n < 2 ^ 64 \<Longrightarrow> unat (of_nat n :: uint64) = n"
  by (simp add: unat_of_nat take_bit_nat_eq_self)

lemma worldChunkWireSize_exact:
  assumes "worldChunkWireSize c (of_nat (length (chunk_payload chunk))) (of_nat (length (chunk_presence chunk))) = Some n"
    and "length (chunk_payload chunk) < 2 ^ 64" "length (chunk_presence chunk) < 2 ^ 64"
  shows "unat n = length (bulk_item (world_item c chunk))" "length (world_item c chunk) < 2 ^ 28"
proof -
  let ?p = "length (chunk_payload chunk)" and ?q = "length (chunk_presence chunk)" and ?i = "length (world_item c chunk)"
  have "\<not> (of_nat ?p :: uint64) > maxWorldReadResponseSize div 2" "\<not> (of_nat ?q :: uint64) > maxWorldReadResponseSize div 2"
    using assms(1) by (auto simp: worldChunkWireSize_def split: if_splits)
  then have pq: "?p \<le> 33554432" "?q \<le> 33554432"
    unfolding not_less word_le_nat_alt unat_small64 [OF assms(2)] unat_small64 [OF assms(3)] by (simp_all add: maxWorldReadResponseSize_def unat_div)
  then show small: "?i < 2 ^ 28" using length_FormatInt [of "coord_X c"] length_FormatInt [of "coord_Y c"] unfolding length_world_item by simp
  have item: "(of_nat (length (FormatInt (coord_X c))) + of_nat (length (FormatInt (coord_Y c))) + 3 + 2 * of_nat ?p + 2 * of_nat ?q :: uint64) = of_nat ?i"
    unfolding length_world_item by simp
  have "n = 1 + decimalUint64Length (of_nat ?i) + 2 + of_nat ?i + 2"
    using assms(1) unfolding worldChunkWireSize_def Let_def item by (simp split: if_splits)
  also have "\<dots> = of_nat (length (dec_digits ?i) + 5 + ?i)"
    using small by (simp add: decimalUint64Length_def FormatUint_def unat_small64)
  finally have n: "n = of_nat (length (dec_digits ?i) + 5 + ?i)" .
  have "length (dec_digits ?i) \<le> 20" using small by (intro length_digits64) simp
  then have "length (dec_digits ?i) + 5 + ?i < 2 ^ 64" using small by simp
  then show "unat n = length (bulk_item (world_item c chunk))" unfolding n bulk_item_def by (simp add: unat_small64 Itoa_def CRLF_def del: of_nat_add)
qed

definition array_size :: "bytes list \<Rightarrow> nat" where
  "array_size items = length (response_Bytes (arrayResponse items))"

lemma array_size_eq: "array_size items = 3 + length (dec_digits (length items)) + sum_list (map (length \<circ> bulk_item) items)"
  by (simp add: array_size_def arrayResponse_def response_Bytes_simps Itoa_def CRLF_def length_concat o_def)

lemma items_le_wire: "length items \<le> sum_list (map (length \<circ> bulk_item) items)"
  by (induction items) (simp_all add: bulk_item_def)

definition accounted :: "bytes list \<Rightarrow> uint64 \<Rightarrow> bool" where
  "accounted items wireBytes \<longleftrightarrow> unat wireBytes = sum_list (map (length \<circ> bulk_item) items) \<and> array_size items \<le> 67108864"

lemma accounted_item:
  assumes "accounted items w" "worldChunkWireSize c (of_nat (length (chunk_payload chunk))) (of_nat (length (chunk_presence chunk))) = Some n"
    and "length (chunk_payload chunk) < 2 ^ 64" "length (chunk_presence chunk) < 2 ^ 64"
    and "arrayHeaderSize (length items + 1) + w + n \<le> maxWorldReadResponseSize"
  shows "accounted (items @ [world_item c chunk]) (w + n)"
proof -
  let ?h = "length (dec_digits (length items + 1))" and ?s = "sum_list (map (length \<circ> bulk_item) items)"
  have wn: "unat w = ?s" "?s \<le> 67108864" using assms(1) by (auto simp: accounted_def array_size_eq)
  have nn: "unat n = length (bulk_item (world_item c chunk))" "unat n < 2 ^ 29"
  proof -
    note x = worldChunkWireSize_exact [OF assms(2-4)]
    show "unat n = length (bulk_item (world_item c chunk))" by (rule x)
    have "length (dec_digits (length (world_item c chunk))) \<le> 20" using x(2) by (intro length_digits64) simp
    then show "unat n < 2 ^ 29" using x(2) unfolding x(1) by (simp add: bulk_item_def Itoa_def CRLF_def)
  qed
  have h: "?h \<le> 20" using items_le_wire [of items] wn(2) by (intro length_digits64) simp
  have "arrayHeaderSize (length items + 1) + w + n = of_nat (3 + ?h + ?s + unat n)"
    by (simp add: arrayHeaderSize_def Itoa_def wn(1) [symmetric])
  moreover have "3 + ?h + ?s + unat n < 2 ^ 64" using h wn(2) nn(2) by simp
  ultimately have total: "3 + ?h + ?s + unat n \<le> 67108864"
    using assms(5) unfolding word_le_nat_alt by (simp add: unat_small64 maxWorldReadResponseSize_def del: of_nat_add)
  have "unat (w + n) = ?s + unat n" using wn nn(2) by (simp add: unat_plus_if_size word_size)
  then show ?thesis using total nn(1) by (simp add: accounted_def array_size_eq)
qed

lemma length_error_response: "length (response_Bytes (errorResponse code detail)) \<le> 8 + length code + length detail"
  by (simp add: errorResponse_def response_Bytes_simps CRLF_def)

lemma accounted_empty: "accounted [] 0"
  by (simp add: accounted_def array_size_eq dec_digits.simps)

text \<open>
  What a world read relies on: in the states \<open>ok\<close> of the store, which reading keeps, a chunk that is read has the sizes of the
  geometry of the engine.  A handler \<open>fits\<close> when its response is within the limit in every such state.
\<close>

locale sized_store =
  fixes e :: "'s Engine" and ok :: "'s \<Rightarrow> bool"
  assumes sound_geometry: "ok s \<Longrightarrow> wf_geometry (en_geometry e)"
    and read_ok: "ok s \<Longrightarrow> cs_ReadChunk (en_store e) c s = (r, s') \<Longrightarrow> ok s'"
    and read_sizes: "ok s \<Longrightarrow> cs_ReadChunk (en_store e) c s = (Inr (Some chunk), s') \<Longrightarrow>
      length (chunk_payload chunk) = payloadBytes (en_geometry e) \<and> length (chunk_presence chunk) = presenceBytes (en_geometry e)"
begin

lemma readChunk_ok: "ok s \<Longrightarrow> readChunk e c s = (r, s') \<Longrightarrow> ok s'"
  using read_ok by (auto simp: readChunk_def catch_def ret_def raise_def split: sum.splits prod.splits option.splits if_splits)

lemma readChunk_sizes:
  "ok s \<Longrightarrow> readChunk e c s = (Inr (Some chunk), s') \<Longrightarrow>
     length (chunk_payload chunk) = payloadBytes (en_geometry e) \<and> length (chunk_presence chunk) = presenceBytes (en_geometry e)"
  using read_sizes by (auto simp: readChunk_def catch_def ret_def raise_def split: sum.splits prod.splits option.splits if_splits)

lemma appendWorldChunk_ok: "ok s \<Longrightarrow> appendWorldChunk e items w c s = (r, s') \<Longrightarrow> ok s'"
  using readChunk_ok by (auto simp: appendWorldChunk_def Let_def split: prod.splits sum.splits option.splits if_splits)

lemma append_world_bounded:
  "ok s \<Longrightarrow> accounted items w \<Longrightarrow> length (response_Bytes (fst (append_world e coords items w s))) \<le> 67108864"
proof (induction coords arbitrary: items w s)
  case Nil
  then show ?case by (simp add: accounted_def array_size_def)
next
  case (Cons c coords)
  have small: "payloadBytes (en_geometry e) < 2 ^ 64" "presenceBytes (en_geometry e) < 2 ^ 64"
    using wf_geometry_bounds [OF sound_geometry [OF Cons.prems(1)]] by simp_all
  obtain r s' where a: "appendWorldChunk e items w c s = (r, s')" by fastforce
  show ?case
  proof (cases r)
    case (Inl failure)
    then have "failure = errorResponse ''STORAGE'' ''read failed'' \<or> failure = outOfRange"
      using a by (auto simp: appendWorldChunk_def Let_def split: prod.splits sum.splits option.splits if_splits)
    then have "length (response_Bytes failure) \<le> 100"
      using length_error_response [of "''STORAGE''" "''read failed''"] length_error_response [of "''OUT_OF_RANGE''" "''world read response exceeds the 64 MiB limit''"]
      by (auto simp: outOfRange_def)
    then show ?thesis using a Inl by simp
  next
    case (Inr iw)
    obtain items' w' where iw: "iw = (items', w')" by (cases iw)
    have "accounted items' w'"
      using a Inr iw Cons.prems(2) readChunk_sizes [OF Cons.prems(1)] small accounted_item [OF Cons.prems(2), of c]
      by (fastforce simp: appendWorldChunk_def Let_def not_less split: prod.splits sum.splits option.splits if_splits)
    then show ?thesis using a Inr iw Cons.IH [OF appendWorldChunk_ok [OF Cons.prems(1) a]] by simp
  qed
qed

definition fits :: "'s handler \<Rightarrow> bool" where
  "fits h \<longleftrightarrow> (\<forall>s. ok s \<longrightarrow> length (response_Bytes (fst (h s))) \<le> 67108864)"

lemma fits_error: "8 + length code + length detail \<le> 67108864 \<Longrightarrow> fits (respond (errorResponse code detail))"
  using order_trans [OF length_error_response] by (auto simp: fits_def respond_def)

lemma fits_parsed:
  "(\<And>x. fits (k x)) \<Longrightarrow> fits (parsed (requireArity args n) k)" "(\<And>x. fits (k' x)) \<Longrightarrow> fits (parsed (parseCoord args) k')"
  using fits_error [of "''ARITY''" "''wrong number of arguments''"] fits_error [of "''NUMBER''" "''coordinates must be signed decimal integers''"]
  by (auto simp: parsed_def requireArity_def arityError_def parseCoord_def Let_def split: option.split)

lemma fits_if: "(b \<Longrightarrow> fits h) \<Longrightarrow> (\<not> b \<Longrightarrow> fits k) \<Longrightarrow> fits (if b then h else k)"
  by simp

lemma fits_option: "fits h \<Longrightarrow> (\<And>x. fits (k x)) \<Longrightarrow> fits (case v of None \<Rightarrow> h | Some x \<Rightarrow> k x)"
  by (cases v) simp_all

lemma fits_world: "fits (append_world e coords [] 0)"
  using append_world_bounded [OF _ accounted_empty] by (simp add: fits_def)

lemmas fits_rules = fits_parsed fits_if fits_option fits_error fits_world

lemma world_reads_fit: "fits (cmd_chunkRange e args)" "fits (cmd_chunkRadius e args)"
  unfolding cmd_chunkRange_def cmd_chunkRadius_def Let_def by (intro fits_rules; simp)+

end

section \<open>The properties of world reads\<close>

text \<open>
  (C34) The world reads visit exactly the chunks of their shape.  \<^verbatim>\<open>CHUNKRANGE\<close> visits every chunk of the rectangle
  between the corners, column by column, each once.  \<^verbatim>\<open>CHUNKRADIUS\<close> visits every chunk whose distance to the centre is
  at most the radius and whose coordinates exist as 64-bit numbers, column by column, each once, also where the disc
  crosses the border of the world: the table of half widths, the machine arithmetic and the checked additions
  lose no chunk and add none.
\<close>

theorem world_read_coords_exact:
  "(sint (coord_X first) \<le> sint (coord_X final) \<and> sint (coord_Y first) \<le> sint (coord_Y final) \<longrightarrow>
      map ipos (range_coords first final) = List.product [sint (coord_X first)..sint (coord_X final)] [sint (coord_Y first)..sint (coord_Y final)]) \<and>
   (0 \<le> sint radius \<and> sint radius < sint maxWorldReadChunks \<longrightarrow>
      map ipos (radius_coords center radius (half_widths radius)) = disc (ipos center) (sint radius))"
  using range_coords_product radius_coords_disc [of radius center] by (simp add: maxWorldReadChunks_def)

theorem world_read_coords_exact_witness:
  "map ipos (range_coords (Coord (-1) 5) (Coord 0 6)) = [(-1, 5), (-1, 6), (0, 5), (0, 6)] \<and>
   map ipos (radius_coords (Coord MaxInt64 0) 1 (half_widths 1)) =
     [(9223372036854775806, 0), (9223372036854775807, - 1), (9223372036854775807, 0), (9223372036854775807, 1)]"
proof -
  have "sint (coord_X (Coord (- 1) 5)) \<le> sint (coord_X (Coord 0 6))" "sint (coord_Y (Coord (- 1) 5)) \<le> sint (coord_Y (Coord 0 6))"
    "0 \<le> sint (1 :: int64)" "sint (1 :: int64) < sint maxWorldReadChunks" by code_simp+
  then have "map ipos (range_coords (Coord (-1) 5) (Coord 0 6)) =
      List.product [sint (coord_X (Coord (-1) 5))..sint (coord_X (Coord 0 6))] [sint (coord_Y (Coord (-1) 5))..sint (coord_Y (Coord 0 6))]"
    "map ipos (radius_coords (Coord MaxInt64 0) 1 (half_widths 1)) = disc (ipos (Coord MaxInt64 0)) (sint (1 :: int64))"
    using world_read_coords_exact [of "Coord (- 1) 5" "Coord 0 6" 1 "Coord MaxInt64 0"] by blast+
  moreover have "List.product [sint (coord_X (Coord (-1) 5))..sint (coord_X (Coord 0 6))] [sint (coord_Y (Coord (-1) 5))..sint (coord_Y (Coord 0 6))] =
      [(-1, 5), (-1, 6), (0, 5), (0, 6)]" by code_simp
  moreover have "disc (ipos (Coord MaxInt64 0)) (sint (1 :: int64)) =
     [(9223372036854775806, 0), (9223372036854775807, - 1), (9223372036854775807, 0), (9223372036854775807, 1)]"
    by (simp add: disc_def ipos_def int64_range_def MaxInt64_def upto.simps)
  ultimately show ?thesis by simp
qed

end
