(* ===== verification/StoreLive.thy ===== *)
theory StoreLive
  imports StoreSafety
begin

text \<open>
  What a running store answers.  A read looks at the pending publications, then at the cache, then at the chunk file, and
  never at the log.  \<open>Live\<close> is the invariant that makes this right: the pending publications, the cache and the files
  of the other chunks all show the contents that the log and the files stand for.  Reads and writes keep it, except
  that a checkpoint that failed half-way leaves it: then a further checkpoint is due (\<open>checkpointDue\<close>).
\<close>

section \<open>Operations that leave a part of the store alone\<close>

definition keeps :: "(Store \<Rightarrow> 'b) \<Rightarrow> 'a sop \<Rightarrow> bool" where
  "keeps h m \<longleftrightarrow> (\<forall>s. h (snd (m s)) = h s)"

named_theorems stills \<open>operations that leave a part of the store alone\<close>

lemma keepsD: "keeps h m \<Longrightarrow> m s = (r, s') \<Longrightarrow> h s' = h s"
  unfolding keeps_def by (metis snd_conv)

lemma keeps_basic [stills]: "keeps h (ret x)" "keeps h (raise e)" "keeps h (state_of f)" "keeps h (lift_result y)"
  by (simp_all add: keeps_def ret_def raise_def state_of_def lift_result_def)

lemma keeps_catch [stills]:
  assumes "keeps h m" "\<And>e. keeps h (handler e)" "\<And>x. keeps h (f x)"
  shows "keeps h (catch m handler f)"
  unfolding keeps_def
proof
  fix s
  obtain r t where m: "m s = (r, t)" by fastforce
  then have t: "h t = h s" by (rule keepsD [OF assms(1)])
  have k: "catch m handler f s = (case r of Inl e \<Rightarrow> handler e t | Inr x \<Rightarrow> f x t)" using m by (simp add: catch_def)
  show "h (snd (catch m handler f s)) = h s" unfolding k using t assms(2,3) by (cases r) (simp_all add: keeps_def)
qed

lemma keeps_andThen [stills]: "keeps h m \<Longrightarrow> (\<And>x. keeps h (f x)) \<Longrightarrow> keeps h (andThen m f)"
  unfolding andThen_def by (intro stills)

lemma keeps_ignore [stills]: "keeps h m \<Longrightarrow> keeps h (ignore m)"
  unfolding ignore_def by (intro stills)

lemma keeps_if [stills]: "(b \<Longrightarrow> keeps h m) \<Longrightarrow> (\<not> b \<Longrightarrow> keeps h n) \<Longrightarrow> keeps h (if b then m else n)"
  by simp

lemma keeps_case_prod [stills]: "(\<And>a b. keeps h (f a b)) \<Longrightarrow> keeps h (case x of (a, b) \<Rightarrow> f a b)"
  by (cases x) simp

lemma keeps_case_option [stills]: "keeps h m \<Longrightarrow> (\<And>a. keeps h (f a)) \<Longrightarrow> keeps h (case x of None \<Rightarrow> m | Some a \<Rightarrow> f a)"
  by (cases x) simp_all

text \<open>The cache and the counters of the log.\<close>

definition counted :: "Store \<Rightarrow> chunkCache \<times> uint64 \<times> int64" where
  "counted s = (st_cache s, st_walRecords s, st_walBytes s)"

abbreviation still :: "'a sop \<Rightarrow> bool" where
  "still \<equiv> keeps counted"

lemma stillD: "still m \<Longrightarrow> m s = (r, s') \<Longrightarrow> st_cache s' = st_cache s \<and> st_walRecords s' = st_walRecords s \<and> st_walBytes s' = st_walBytes s"
  using keepsD [of counted] by (simp add: counted_def)

lemma still_on_world [stills]: "still (on_world m)"
  by (simp add: keeps_def counted_def on_world_def split: prod.split)

lemma still_bookkeeping [stills]:
  "still (poisonDurability e)" "still (reportPostCommitFailure ev)" "still (recordWALFlush k)" "still checkDurabilityHealthy"
  "still (pendingSync_add p)" "still (pendingSync_delete p)" "still (update (\<lambda>s. s\<lparr>st_walUnsyncedUpdates := n s\<rparr>))"
  "still (update (\<lambda>s. s\<lparr>st_versionClock := v\<rparr>))" "still (update (\<lambda>s. s\<lparr>st_snapshotGeneration := v\<rparr>))"
  "still (update (\<lambda>s. s\<lparr>st_pending := ps s\<rparr>))"
  unfolding poisonDurability_def reportPostCommitFailure_def recordWALFlush_def pendingSync_add_def pendingSync_delete_def
  by (simp_all add: keeps_def counted_def update_def checkDurabilityHealthy_def split: walFlushKind.split option.split)

lemma still_raise_joined [stills]: "still (raise_joined e)"
  unfolding raise_joined_def by (intro stills)

lemma still_log [stills]: "still acquire_wal" "still (syncWAL k)" "still (appendWAL d)" "still walSize" "still (rollbackWAL b)" "still (ensureWALCommit f)"
  "still writerLock_checkHealthy" "still (clearWAL sy)"
proof -
  show a: "still acquire_wal" "still writerLock_checkHealthy" unfolding acquire_wal_def writerLock_checkHealthy_def by (intro stills)+
  show s: "still (syncWAL k)" for k unfolding syncWAL_def by (intro stills a)
  show "still (appendWAL d)" "still walSize" "still (rollbackWAL b)" "still (ensureWALCommit f)" "still (clearWAL sy)"
    unfolding appendWAL_def walSize_def rollbackWAL_def ensureWALCommit_def clearWAL_def by (intro stills a s)+
qed

lemma still_intents [stills]: "still (inspectIntentDirectory b)" "still intentExists" "still (publishIntent st n)" "still syncIntentDirectory"
  "still clearIntent" "still readIntent" "still (rollbackRejectedWrite n u e)" "still (abandon_rollback_intent e)"
proof -
  show i: "still (inspectIntentDirectory b)" for b unfolding inspectIntentDirectory_def by (intro stills)
  show e: "still intentExists" unfolding intentExists_def by (intro stills i)
  show "still (publishIntent st n)" unfolding publishIntent_def by (intro stills i)
  show s: "still syncIntentDirectory" unfolding syncIntentDirectory_def by (intro stills i)
  show c: "still clearIntent" unfolding clearIntent_def by (intro stills i s)
  show "still readIntent" unfolding readIntent_def by (intro stills e)
  show "still (rollbackRejectedWrite n u e)" "still (abandon_rollback_intent e)" for e
    unfolding rollbackRejectedWrite_def abandon_rollback_intent_def by (intro stills c e \<open>still intentExists\<close>)+
qed

lemma still_snapshots [stills]: "still (persistSnapshotGeneration n b)" "still beginWriteSnapshot" "still (finishWriterSnapshot b)"
  "still finishRejectedSnapshot" "still finishCommittedSnapshot" "still (reject e)" "still (persistVersionClock v)" "still (persistChunkVersion c v b)"
  "still (persistChunk c p q b)"
proof -
  show p: "still (persistSnapshotGeneration n b)" for n b unfolding persistSnapshotGeneration_def by (intro stills)
  show "still beginWriteSnapshot" unfolding beginWriteSnapshot_def by (intro stills p)
  show f: "still (finishWriterSnapshot b)" for b unfolding finishWriterSnapshot_def by (intro stills p)
  show r: "still finishRejectedSnapshot" "still finishCommittedSnapshot" unfolding finishRejectedSnapshot_def finishCommittedSnapshot_def by (intro stills f)+
  show "still (reject e)" unfolding reject_def by (intro stills r)
  show "still (persistVersionClock v)" "still (persistChunkVersion c v b)" "still (persistChunk c p q b)"
    unfolding persistVersionClock_def persistChunkVersion_def persistChunk_def Let_def by (intro stills)+
qed

section \<open>Live stores\<close>

definition coh :: "Geometry \<Rightarrow> (Coord \<Rightarrow> chunk_view) \<Rightarrow> Store \<Rightarrow> bool" where
  "coh g D s \<longleftrightarrow> cache_inv (st_cache s) \<and> 0 < cc_max (st_cache s) \<and> \<not> cc_closed (st_cache s) \<and> cc_geometry (st_cache s) = g \<and>
     (\<forall>c v. cache_content (st_cache s) c = Some v \<longrightarrow> D c = Inr (visible v))"

definition files_live :: "Geometry \<Rightarrow> (Coord \<Rightarrow> chunk_view) \<Rightarrow> Store \<Rightarrow> bool" where
  "files_live g D s \<longleftrightarrow>
     (\<forall>c. map_of (st_pending s) c = None \<longrightarrow> file_state g (chunk_files g (st_world s)) c = D c) \<and>
     (\<forall>c p. map_of (st_pending s) c = Some p \<longrightarrow> D c = Inr (visible (pp_payload p, pp_presence p)))"

text \<open>A store between two operations whose reads are right.\<close>

definition Live :: "Geometry \<Rightarrow> (Coord \<Rightarrow> chunk_view) \<Rightarrow> Store \<Rightarrow> bool" where
  "Live g D s \<longleftrightarrow> inv g D s \<and> coh g D s \<and> files_live g D s \<and> \<not> checkpointDue s"

lemma files_live_sframe:
  assumes "files_live g D s" "sframe X s s'" "\<And>c. chunkPath g c \<notin> X"
  shows "files_live g D s'"
proof -
  have "content (st_world s') (chunkPath g c) = content (st_world s) (chunkPath g c)" for c
    by (rule sframe_content [OF assms(2,3)]) simp
  then have "file_state g (chunk_files g (st_world s')) = file_state g (chunk_files g (st_world s))"
    by (simp add: fun_eq_iff file_state_def chunk_files_def)
  then show ?thesis using assms(1) sframe_pending [OF assms(2)] by (simp add: files_live_def)
qed

lemma coh_cache: "coh g D s \<Longrightarrow> st_cache s' = st_cache s \<Longrightarrow> coh g D s'"
  by (simp add: coh_def)

lemma due_still:
  assumes "still m" "tame g X m" "st_geometry s = g" "m s = (r, s')"
  shows "checkpointDue s' = checkpointDue s"
  using stillD [OF assms(1,4)] tameD [OF assms(2-4)] by (simp add: checkpointDue_def sframe_def)

text \<open>An operation that touches no chunk file keeps all of it.\<close>

definition steady :: "Geometry \<Rightarrow> (Coord \<Rightarrow> chunk_view) \<Rightarrow> bool \<Rightarrow> Store \<Rightarrow> bool" where
  "steady g D due s \<longleftrightarrow> st_geometry s = g \<and> coh g D s \<and> files_live g D s \<and> checkpointDue s = due"

lemma steady_keep:
  assumes "still m" "tame g X m" "\<And>c. chunkPath g c \<notin> X"
  shows "triple (steady g D due) m (\<lambda>_. steady g D due)"
proof (rule tripleI)
  fix s r s' assume st: "steady g D due s" and m: "m s = (r, s')"
  then have g: "st_geometry s = g" by (simp add: steady_def)
  have f: "sframe X s s'" by (rule tameD [OF assms(2) g m])
  show "steady g D due s'" using st f files_live_sframe [OF _ f assms(3)] due_still [OF assms(1,2) g m] stillD [OF assms(1) m] coh_cache
    by (auto simp: steady_def sframe_def)
qed

lemma chunk_not_meta: "chunkPath g c \<notin> meta_paths g" "chunkPath g c \<notin> {walPath, intentPath} \<union> meta_paths g"
  using meta_core_paths [of "chunkPath g c" g] by auto


section \<open>Publication\<close>

text \<open>The pending publications hold states of chunks.\<close>

definition stored :: "Geometry \<Rightarrow> chunk_state \<Rightarrow> bool" where
  "stored g v \<longleftrightarrow> (\<exists>ch. wf_chunk ch \<and> chunk_geometry ch = g \<and> (chunk_payload ch, chunk_presence ch) = v)"

lemma pend_stored:
  assumes "Quiet g recs F s" "pend_ok recs ps" "(c, p) \<in> set ps"
  shows "stored g (pp_payload p, pp_presence p)"
proof -
  have "last_state recs c = Some (pp_payload p, pp_presence p)" using assms(2,3) by (auto simp: pend_ok_def)
  then obtain r where r: "r \<in> set recs" "record_state r = (pp_payload p, pp_presence p)" by (metis last_state_in)
  moreover have "wf_geometry g" "wf_record g r" using assms(1) r(1) by (auto simp: Quiet_def base_def quiet_def wf_records_def)
  from wf_record_chunk [OF this] show ?thesis using r(2) by (metis record_state_def stored_def)
qed

definition awaiting :: "Geometry \<Rightarrow> (Coord \<Rightarrow> chunk_view) \<Rightarrow> bool \<Rightarrow> (Coord \<times> pendingPublication) list \<Rightarrow> Store \<Rightarrow> bool" where
  "awaiting g D due ps s \<longleftrightarrow> steady g D due s \<and> st_pending s = ps"

lemma awaiting_keep:
  assumes "still m" "tame g X m" "\<And>c. chunkPath g c \<notin> X"
  shows "triple (awaiting g D due ps) m (\<lambda>_. awaiting g D due ps)"
  unfolding awaiting_def by (rule triple_keep [OF steady_keep [OF assms] assms(2)]) (simp add: steady_def)

lemma persistChunk_awaiting:
  assumes "map_of ps c = Some p" "wf_geometry g" "stored g (pp_payload p, pp_presence p)"
  shows "triple (awaiting g D due ps) (persistChunk c (pp_payload p) (pp_presence p) b)
    (\<lambda>r s. awaiting g D due ps s \<and> (r = Inr () \<longrightarrow> filed g c (pp_payload p, pp_presence p) s))"
proof (rule tripleI)
  fix s r s' assume a: "awaiting g D due ps s" and m: "persistChunk c (pp_payload p) (pp_presence p) b s = (r, s')"
  have g: "st_geometry s = g" and pend: "st_pending s = ps" and live: "files_live g D s" using a by (simp_all add: awaiting_def steady_def)
  note f = tameD [OF tame_persistChunk g m]
  have same: "content (st_world s') (chunkPath g d) = content (st_world s) (chunkPath g d)" if "d \<noteq> c" for d
    using that chunk_not_meta(1) [of g d] by (intro sframe_content [OF f]) auto
  have "file_state g (chunk_files g (st_world s')) d = file_state g (chunk_files g (st_world s)) d" if "d \<noteq> c" for d
    using same [OF that] by (simp add: file_state_def chunk_files_def)
  then have "files_live g D s'" using live assms(1) pend sframe_pending [OF f] unfolding files_live_def by (metis option.distinct(1))
  then have "awaiting g D due ps s'"
    using a f due_still [OF still_snapshots(9) tame_persistChunk g m] stillD [OF still_snapshots(9) m] coh_cache
    by (auto simp: awaiting_def steady_def sframe_def)
  moreover obtain ch where "wf_chunk ch" "chunk_geometry ch = g" "chunk_payload ch = pp_payload p" "chunk_presence ch = pp_presence p"
    using assms(3) by (auto simp: stored_def)
  then have "wf_record g (chunk_record c ch)" "record_state (chunk_record c ch) = (pp_payload p, pp_presence p)"
    using wf_chunk_record by simp_all
  ultimately show "awaiting g D due ps s' \<and> (r = Inr () \<longrightarrow> filed g c (pp_payload p, pp_presence p) s')"
    using persistChunk_filed [of "chunk_record c ch" b s s' g] m g assms(2) \<open>chunk_payload ch = pp_payload p\<close> \<open>chunk_presence ch = pp_presence p\<close>
    by (auto simp: chunk_record_def)
qed

lemma unpend_awaiting:
  assumes "distinct (map fst ((c, p) # ps))"
  shows "triple (\<lambda>s. awaiting g D due ((c, p) # ps) s \<and> filed g c (pp_payload p, pp_presence p) s)
    (update (\<lambda>s. s\<lparr>st_pending := AList.delete c (st_pending s)\<rparr>)) (\<lambda>r. awaiting g D due ps)"
proof (rule tripleI)
  fix s r s' assume a: "awaiting g D due ((c, p) # ps) s \<and> filed g c (pp_payload p, pp_presence p) s"
    and m: "update (\<lambda>s. s\<lparr>st_pending := AList.delete c (st_pending s)\<rparr>) s = (r, s')"
  have n: "c \<notin> fst ` set ps" using assms by simp
  then have s': "s' = s\<lparr>st_pending := ps\<rparr>" using a m by (auto simp: awaiting_def update_def AList.delete_id)
  have "map_of ps c = None" using n by (simp add: map_of_eq_None_iff)
  moreover have "files_live g D s" "st_pending s = (c, p) # ps" using a by (simp_all add: awaiting_def steady_def)
  moreover have "D c = Inr (visible (pp_payload p, pp_presence p))" "file_state g (chunk_files g (st_world s)) c = Inr (visible (pp_payload p, pp_presence p))"
    using calculation a by (simp_all add: files_live_def filed_def)
  ultimately have "files_live g D s'" using s' by (simp add: files_live_def) (metis option.distinct(1))
  then show "awaiting g D due ps s'" using a s' by (simp add: awaiting_def steady_def coh_def checkpointDue_def)
qed

lemma publish_loop_live:
  assumes "wf_geometry g"
  shows "distinct (map fst ps) \<Longrightarrow> \<forall>(c, p)\<in>set ps. stored g (pp_payload p, pp_presence p) \<Longrightarrow>
    triple (awaiting g D due ps) (publish_loop b ps) (\<lambda>_. steady g D due)"
proof (induction ps)
  case Nil
  show ?case by (auto simp: triple_def ret_def awaiting_def)
next
  case (Cons e ps)
  obtain c p where e: "e = (c, p)" by fastforce
  let ?A = "awaiting g D due ((c, p) # ps)"
  have rep: "triple ?A (andThen (reportPostCommitFailure ev) (\<lambda>_. raise err)) (\<lambda>_. steady g D due)" for ev err
    by (rule triple_conseq [OF awaiting_keep [where X = "{}" and g = g and D = D and due = due and ps = "(c, p) # ps"]])
      (intro stills, intro tames, simp_all add: awaiting_def)
  have rest: "triple (awaiting g D due ps) (publish_loop b ps) (\<lambda>_. steady g D due)" using Cons by simp
  have upd: "triple (\<lambda>s. ?A s \<and> filed g c (pp_payload p, pp_presence p) s)
      (andThen (update (\<lambda>s. s\<lparr>st_pending := AList.delete c (st_pending s)\<rparr>)) (\<lambda>_. publish_loop b ps)) (\<lambda>_. steady g D due)"
    by (rule triple_andThen [OF unpend_awaiting rest]) (use Cons.prems(1) e in \<open>auto simp: awaiting_def\<close>)
  have ver: "triple ?A (persistChunkVersion c (pp_version p) b) (\<lambda>_. ?A)"
    by (rule awaiting_keep [OF still_snapshots(8) tame_persistChunkVersion chunk_not_meta(1)])
  have chunk: "triple ?A (persistChunk c (pp_payload p) (pp_presence p) b) (\<lambda>r s. ?A s \<and> (r = Inr () \<longrightarrow> filed g c (pp_payload p, pp_presence p) s))"
    by (rule persistChunk_awaiting) (use assms Cons.prems e in auto)
  have "triple ?A (catch (persistChunk c (pp_payload p) (pp_presence p) b)
      (\<lambda>err. andThen (reportPostCommitFailure ''committed_chunk_publication_failed'') (\<lambda>_. raise err))
      (\<lambda>_. andThen (update (\<lambda>s. s\<lparr>st_pending := AList.delete c (st_pending s)\<rparr>)) (\<lambda>_. publish_loop b ps))) (\<lambda>_. steady g D due)"
    by (rule triple_catch [OF chunk]) (rule triple_conseq [OF rep] triple_conseq [OF upd]; simp)+
  from triple_catch [OF ver rep this] show ?case unfolding publish_loop.simps e prod.case Let_def .
qed

section \<open>Checkpoints\<close>

text \<open>Operations that at most forget cached chunks.\<close>

definition tidy :: "'a sop \<Rightarrow> bool" where
  "tidy m \<longleftrightarrow> (\<forall>s. st_walRecords (snd (m s)) = st_walRecords s \<and> st_walBytes (snd (m s)) = st_walBytes s \<and>
     (\<forall>g D. coh g D s \<longrightarrow> coh g D (snd (m s))))"

named_theorems tidies \<open>operations that at most forget cached chunks\<close>

lemma tidyD: "tidy m \<Longrightarrow> m s = (r, s') \<Longrightarrow> st_walRecords s' = st_walRecords s \<and> st_walBytes s' = st_walBytes s \<and> (coh g D s \<longrightarrow> coh g D s')"
  unfolding tidy_def by (metis snd_conv)

lemma tidy_still [tidies]: "still m \<Longrightarrow> tidy m"
  using coh_cache by (auto simp: tidy_def keeps_def counted_def)

lemma tidy_forget [tidies]: "tidy (cache_forget c)"
  using cache_remove_spec by (auto simp: tidy_def cache_forget_def update_def coh_def split: if_splits)

lemma tidy_catch:
  assumes "tidy m" "\<And>e. tidy (h e)" "\<And>x. tidy (f x)"
  shows "tidy (catch m h f)"
  unfolding tidy_def
proof
  fix s
  obtain r t where m: "m s = (r, t)" by fastforce
  have t: "st_walRecords t = st_walRecords s \<and> st_walBytes t = st_walBytes s \<and> (\<forall>g D. coh g D s \<longrightarrow> coh g D t)" using tidyD [OF assms(1) m] by blast
  have k: "catch m h f s = (case r of Inl e \<Rightarrow> h e t | Inr x \<Rightarrow> f x t)" using m by (simp add: catch_def)
  show "st_walRecords (snd (catch m h f s)) = st_walRecords s \<and> st_walBytes (snd (catch m h f s)) = st_walBytes s \<and>
     (\<forall>g D. coh g D s \<longrightarrow> coh g D (snd (catch m h f s)))"
    unfolding k using t assms(2,3) by (cases r) (simp_all add: tidy_def)
qed

lemma tidy_andThen: "tidy m \<Longrightarrow> (\<And>x. tidy (f x)) \<Longrightarrow> tidy (andThen m f)"
  unfolding andThen_def by (rule tidy_catch) (simp_all add: tidies stills)

lemma tidy_for_each: "(\<And>x. tidy (f x)) \<Longrightarrow> tidy (for_each xs f)"
  by (induction xs) (auto intro: tidies stills tidy_andThen)

lemma tidy_collect: "tidy (collectEmptyChunk c)"
proof -
  have b: "tidy (bury c p t)" for p t unfolding bury_def by (intro tidy_andThen tidies) (intro stills)+
  have t: "tidy (tombstone c p t)" for p t unfolding tombstone_def by (intro tidy_catch b tidies) (intro stills)+
  have f: "tidy (andThen (on_world (commit_directory d)) (\<lambda>_. andThen (pendingSync_delete p) (\<lambda>_. cache_forget c)))" for d p
    by (intro tidy_andThen tidies) (intro stills)+
  show ?thesis unfolding collectEmptyChunk_eq
    by (rule tidy_andThen [OF tidy_still [OF keeps_basic(3)] tidy_catch [OF tidy_still [OF still_on_world] _ tidy_andThen [OF tidy_still [OF still_on_world] t]]])
      (simp add: f tidies stills)
qed

lemma tidy_checkpoint_chunk: "tidy (persistCheckpointChunk c p q b)"
  unfolding persistCheckpointChunk_def Let_def using tidy_collect
  by (cases "emptyPresence q") (simp_all, intro tidies stills)

lemma tidy_scan_wal:
  assumes "\<And>r. tidy (visit r)"
  shows "tidy (scan_wal visit)"
proof -
  have "tidy (andThen (for_each rs (\<lambda>record. andThen (on_world (os_noop (OsRead walPath))) (\<lambda>_. visit record)))
      (\<lambda>_. case err of Some e \<Rightarrow> raise e | None \<Rightarrow> ret y))" for rs err and y :: "nat \<times> walRecord list"
    by (rule tidy_andThen [OF tidy_for_each [OF tidy_andThen [OF tidy_still [OF still_on_world] assms]]])
      (simp add: tidies stills split: option.split)
  then show ?thesis unfolding scan_wal_def Let_def
    by (intro tidy_andThen tidy_still [OF still_log(1)] tidy_still [OF still_on_world] tidy_still [OF keeps_basic(3)]) (simp split: prod.split)
qed

lemma checkpoint_live:
  assumes "Quiet g recs F s" "st_pending s = []" "coh g (disk_view g recs F) s" "checkpointWAL s = (r, s')"
  shows "coh g (disk_view g recs F) s' \<and> (if r = Inr () then files_live g (disk_view g recs F) s' else checkpointDue s' = checkpointDue s)"
proof -
  let ?D = "disk_view g recs F" and ?b = "syncs_data s"
  let ?scan = "scan_wal (\<lambda>r. persistCheckpointChunk (wal_coord r) (wal_payload r) (wal_presence r) ?b)"
  let ?u = "update (\<lambda>s. s\<lparr>st_walRecords := 0, st_walBytes := 0, st_checkpointCount := st_checkpointCount s + 1\<rparr>)"
  have m: "andThen ?scan (\<lambda>_. andThen (clearWAL ?b) (\<lambda>_. ?u)) s = (r, s')" using assms(4) by (simp add: checkpointWAL_def andThen_state_of)
  obtain r1 s1 where 1: "?scan s = (r1, s1)" by fastforce
  obtain r2 s2 where 2: "clearWAL ?b s1 = (r2, s2)" by fastforce
  note T1 = tidyD [OF tidy_scan_wal [OF tidy_checkpoint_chunk] 1, of g ?D] and T2 = stillD [OF still_log(8) 2]
  have q1: "Quiet g recs F s1" "st_pending s1 = []" "(\<exists>y. r1 = Inr y) \<longrightarrow> replayed g recs F recs s1"
    using tripleD [OF checkpoint_scan _ 1] assms(1,2) by blast+
  have o1: "st_options s1 = st_options s" and o2: "sframe {walPath} s1 s2"
  proof -
    have "tame g (UNIV) ?scan" unfolding scan_wal_def Let_def by (auto intro!: tames tame_for_each tame_mono [OF tame_persistCheckpointChunk] split: prod.split)
    from tameD [OF this _ 1] show "st_options s1 = st_options s" using Quiet_geometry [OF assms(1)] by (simp add: sframe_def)
    have "tame g {walPath} (clearWAL ?b)" unfolding clearWAL_def by (intro tames tame_os_truncate) simp
    from tameD [OF this _ 2] show "sframe {walPath} s1 s2" using Quiet_geometry [OF q1(1)] by blast
  qed
  show ?thesis
  proof (cases r1)
    case (Inl e)
    then show ?thesis using m 1 T1 assms(3) o1 by (simp add: andThen_def catch_def raise_def checkpointDue_def) auto
  next
    case (Inr y)
    note R = replayed_view [OF q1(3) [rule_format, OF exI, OF Inr]]
    have c2: "coh g ?D s2" using T1 T2 assms(3) coh_cache by metis
    show ?thesis
    proof (cases r2)
      case (Inl e)
      then show ?thesis using m 1 2 Inr T1 T2 c2 o1 o2 by (auto simp: andThen_def catch_def raise_def checkpointDue_def sframe_def)
    next
      case (Inr z)
      have s': "r = Inr ()" "s' = s2\<lparr>st_walRecords := 0, st_walBytes := 0, st_checkpointCount := st_checkpointCount s2 + 1\<rparr>"
        using m 1 2 Inr \<open>r1 = Inr y\<close> by (auto simp: andThen_def catch_def update_def)
      have "files_live g ?D s1" using R q1(2) by (auto simp: files_live_def disk_view_def fun_eq_iff)
      then have "files_live g ?D s2" using o2 by (rule files_live_sframe) simp
      then show ?thesis using s' c2 by (simp add: files_live_def coh_def)
    qed
  qed
qed


section \<open>The retry of publications\<close>

text \<open>The contents are shown, or a checkpoint that failed is due again.\<close>

definition shown :: "Geometry \<Rightarrow> (Coord \<Rightarrow> chunk_view) \<Rightarrow> Store \<Rightarrow> bool" where
  "shown g D s \<longleftrightarrow> coh g D s \<and> (files_live g D s \<or> checkpointDue s)"

lemma steady_ranged:
  assumes "inv g D s" "steady g D due s"
  shows "steady g D due (ranged s)"
proof -
  have "distinct (map fst (st_pending s))" using assms(1) by (auto simp: inv_def pend_ok_def)
  then show ?thesis using assms(2) by (simp add: steady_def coh_def files_live_def checkpointDue_def ranged_def map_of_range_over)
qed

lemma retry_live:
  assumes i0: "inv g D s0" and st0: "steady g D due s0" and m: "retryPendingPublications s0 = (r, s')"
  shows "shown g D s'" "\<not> due \<Longrightarrow> steady g D False s'"
proof -
  define s where "s = ranged s0"
  have i: "inv g D s" and st: "steady g D due s" using inv_ranged [OF i0] steady_ranged [OF i0 st0] by (simp_all add: s_def)
  obtain recs F where q: "Quiet g recs F s" "pend_ok recs (st_pending s)" "disk_view g recs F = D" using i by (auto simp: inv_def)
  let ?b = "o_Durability (st_options s) = DurabilityFsyncCheckpoint"
  let ?ck = "catch checkpointWAL (\<lambda>err. andThen (reportPostCommitFailure ''committed_checkpoint_failed'') (\<lambda>_. raise err)) ret"
  have m': "andThen (publish_loop ?b (st_pending s)) (\<lambda>_. andThen (state_of checkpointDue) (\<lambda>due. if due then ?ck else ret ())) s = (r, s')"
    using m unfolding retry_ranged s_def .
  obtain r1 s1 where 1: "publish_loop ?b (st_pending s) s = (r1, s1)" by fastforce
  have wg: "wf_geometry g" using q(1) by (simp add: Quiet_def base_def)
  have "distinct (map fst (st_pending s))" "\<forall>(c, p)\<in>set (st_pending s). stored g (pp_payload p, pp_presence p)"
    using q pend_stored by (auto simp: pend_ok_def)
  from tripleD [OF publish_loop_live [OF wg this] _ 1] have st1: "steady g D due s1" using st by (simp add: awaiting_def)
  have q1: "Quiet g recs F s1" "r1 = Inr () \<Longrightarrow> st_pending s1 = []" using tripleD [OF publish_loop_quiet _ 1] q by blast+
  have stop: "shown g D s1 \<and> (\<not> due \<longrightarrow> steady g D False s1)" using st1 by (auto simp: shown_def steady_def)
  have "shown g D s' \<and> (\<not> due \<longrightarrow> steady g D False s')"
  proof (cases "r1 = Inr () \<and> due")
    case False
    then show ?thesis using stop m' 1 st1 by (cases r1) (auto simp: andThen_def catch_def state_of_def raise_def ret_def steady_def)
  next
    case True
    have ck: "?ck s1 = (r, s')" using m' 1 True st1 by (simp add: andThen_def catch_def state_of_def steady_def)
    obtain r2 s2 where 2: "checkpointWAL s1 = (r2, s2)" by fastforce
    have l: "coh g D s2 \<and> (if r2 = Inr () then files_live g D s2 else checkpointDue s2 = checkpointDue s1)"
      using checkpoint_live [OF q1(1) _ _ 2, unfolded q(3)] q1(2) True st1 by (simp add: steady_def)
    have "coh g D s' \<and> (files_live g D s' \<or> checkpointDue s')"
      using ck 2 l st1 True by (cases r2) (auto simp: catch_def andThen_def reportPostCommitFailure_def update_def raise_def ret_def
          steady_def coh_def files_live_def checkpointDue_def)
    then show ?thesis using True by (simp add: shown_def)
  qed
  then show "shown g D s'" "\<not> due \<Longrightarrow> steady g D False s'" by blast+
qed

section \<open>After the commit point\<close>

lemma stored_lengths: "stored g (a, b) \<Longrightarrow> length a = payloadBytes g \<and> length b = presenceBytes g"
  using wf_chunk_lengths by (auto simp: stored_def)

lemma cache_put_coh:
  assumes "coh g D s" "stored g (a, b)"
  shows "\<exists>s'. cache_put c a b s = (Inr (), s') \<and> coh g (D(c := Inr (visible (a, b)))) s' \<and> s' = s\<lparr>st_cache := st_cache s'\<rparr>"
proof -
  have k: "cache_inv (st_cache s)" "0 < cc_max (st_cache s)" "\<not> cc_closed (st_cache s)" "cc_geometry (st_cache s) = g" using assms(1) by (simp_all add: coh_def)
  note e = putState_spec [OF k(1-3), of a b c] stored_lengths [OF assms(2)]
  obtain r c' where p: "putState c a b (st_cache s) = (r, c')" by fastforce
  have "put_effect c a b (st_cache s) r c'" using e k(4) p by simp
  then have "r = Inr ()" "coh g (D(c := Inr (visible (a, b)))) (s\<lparr>st_cache := c'\<rparr>)"
    using assms(1) unfolding put_effect_def coh_def by (auto split: if_splits)
  then show ?thesis using p by (simp add: cache_put_def)
qed

lemma publish_in_memory_live:
  assumes "steady g D due s" "stored g (a, b)" "publish_in_memory c a b v s = (r, s')"
  shows "steady g (D(c := Inr (visible (a, b)))) due s'"
proof -
  let ?D = "D(c := Inr (visible (a, b)))"
  define t where "t = s\<lparr>st_pending := AList.update c \<lparr>pp_payload = a, pp_presence = b, pp_version = v\<rparr> (st_pending s)\<rparr>"
  have "coh g D t" using assms(1) by (simp add: steady_def coh_def t_def)
  then obtain u where u: "cache_put c a b t = (Inr (), u)" "coh g ?D u" "u = t\<lparr>st_cache := st_cache u\<rparr>" using cache_put_coh [OF _ assms(2)] by blast
  have s': "s' = u" using assms(3) u(1) by (simp add: publish_in_memory_def andThen_def catch_def update_def ret_def t_def)
  have "st_world u = st_world s" "checkpointDue u = checkpointDue s" "st_geometry u = st_geometry s"
    "map_of (st_pending u) = (map_of (st_pending s))(c \<mapsto> \<lparr>pp_payload = a, pp_presence = b, pp_version = v\<rparr>)"
    by (subst u(3), simp add: t_def checkpointDue_def update_conv')+
  then show ?thesis using u(2) assms(1) s' by (auto simp: steady_def files_live_def)
qed

lemma steady_counters: "steady g D due s \<Longrightarrow> \<exists>due'. steady g D due' (s\<lparr>st_walRecordBuffer := a, st_walRecords := b, st_walBytes := n\<rparr>)"
  by (simp add: steady_def coh_def files_live_def)

lemma still_settle [stills]: "still settle_intent"
  unfolding settle_intent_def by (intro stills)

lemma tame_settle: "tame g {intentPath} settle_intent"
  unfolding settle_intent_def by (intro tames) simp_all

lemma chunk_not_control: "chunkPath g c \<notin> {walPath, intentPath}"
  using chunk_not_meta(2) [of g c] by blast

lemma commit_tail_live:
  assumes "Quiet g (recs @ [chunk_record c ch]) F s" "st_pending s = ps" "pend_ok recs ps" "steady g D False s"
    and D: "disk_view g recs F = D" and ch: "wf_chunk ch" "chunk_geometry ch = g" and m: "commit_ordinary_tail c ch v buf s = (r, s')"
  shows "shown g (D(c := Inr (visible (chunk_payload ch, chunk_presence ch)))) s'"
proof -
  let ?D = "D(c := Inr (visible (chunk_payload ch, chunk_presence ch)))" and ?new = "[chunk_record c ch]"
  let ?P = "\<lambda>T s. Quiet g (recs @ ?new) F s \<and> pend_part T (recs @ ?new) (st_pending s)"
  define s1 where "s1 = s\<lparr>st_walRecordBuffer := buf\<lparr>buf_bytes := []\<rparr>, st_walRecords := st_walRecords s + 1,
       st_walBytes := st_walBytes s + of_nat (length (buf_bytes buf))\<rparr>"
  obtain due where st1: "steady g D due s1" using steady_counters [OF assms(4)] unfolding s1_def by blast
  have p1: "?P {c} s1" using assms(1-3) pend_part_start [OF assms(3), of ?new] by (simp add: s1_def Quiet_def base_def)
  obtain r2 s2 where 2: "publish_in_memory c (chunk_payload ch) (chunk_presence ch) v s1 = (r2, s2)" by fastforce
  have "last_state (recs @ ?new) c = Some (chunk_payload ch, chunk_presence ch)" by simp
  from tripleD [OF publish_in_memory_quiet [OF this] p1 2] have "inv g (disk_view g (recs @ ?new) F) s2"
    by (auto simp: inv_def pend_part_empty)
  then have i2: "inv g ?D s2" by (simp add: disk_view_append D overlay_chunk)
  have st2: "steady g ?D due s2" by (rule publish_in_memory_live [OF st1 _ 2]) (use ch in \<open>auto simp: stored_def\<close>)
  obtain r3 s3 where 3: "settle_intent s2 = (r3, s3)" by fastforce
  have i3: "inv g ?D s3" by (rule tripleD [OF settle_intent_inv i2 3])
  have st3: "steady g ?D due s3" by (rule tripleD [OF steady_keep [OF still_settle tame_settle] st2 3]) (use chunk_not_control in blast)
  obtain r4 s4 where 4: "retryPendingPublications s3 = (r4, s4)" by fastforce
  have "total settle_intent" unfolding settle_intent_def by (intro totals)
  then have tot: "\<exists>x. r2 = Inr x" "\<exists>x. r3 = Inr x" using totalD [OF total_publish_in_memory 2] totalD [where m = settle_intent, OF _ 3] by blast+
  have "s' = s4" using m 2 3 4 tot
    by (cases r4) (auto simp: commit_ordinary_tail_def finish_commit_eq andThen_def catch_def update_def ignore_def ret_def s1_def)
  then show ?thesis using retry_live(1) [OF i3 st3 4] by simp
qed

section \<open>Writes\<close>

text \<open>The commit protocol up to its tail.\<close>

definition commit_prefix :: "bytes \<Rightarrow> unit sop" where
  "commit_prefix record =
     andThen walSize (\<lambda>boundary.
     catch (publishIntent intentRollback boundary) abandon_rollback_intent (\<lambda>_.
     andThen (state_of st_walUnsyncedUpdates) (\<lambda>unsyncedBefore.
     catch (appendWAL record) (rollbackRejectedWrite boundary unsyncedBefore) (\<lambda>_.
     catch (ensureWALCommit False) (rollbackRejectedWrite boundary unsyncedBefore) (\<lambda>_.
     catch (publishIntent intentCommitted boundary) (\<lambda>commitErr. inspect_commit commitErr boundary unsyncedBefore (ret ())) (\<lambda>_. ret ()))))))"

lemma catch_then: "andThen (catch m h f) k = catch m (\<lambda>e. andThen (h e) k) (\<lambda>x. andThen (f x) k)"
  by (auto simp: fun_eq_iff andThen_def catch_def split: prod.split sum.split)

lemma then_simps: "andThen (andThen m f) k = andThen m (\<lambda>x. andThen (f x) k)" "andThen (raise e) k2 = raise e" "andThen (ret y) k3 = k3 y"
  "andThen (if b then m4 else n4) k4 = (if b then andThen m4 k4 else andThen n4 k4)"
  by (auto simp: fun_eq_iff andThen_def catch_def raise_def ret_def split: prod.split sum.split)

lemma then_raise_joined: "andThen (raise_joined e) k = raise_joined e"
  by (simp add: raise_joined_def catch_then then_simps)

lemma then_failures:
  "andThen (rollbackRejectedWrite b u e) k = rollbackRejectedWrite b u e" "andThen (abandon_rollback_intent e) k2 = abandon_rollback_intent e"
  by (simp_all add: rollbackRejectedWrite_def abandon_rollback_intent_def catch_then then_simps then_raise_joined cong: if_cong)

lemma inspect_commit_then: "andThen (inspect_commit e b u (ret ())) (\<lambda>_. k) = inspect_commit e b u k"
proof -
  have "andThen (case x of (state, _) \<Rightarrow> if state \<noteq> intentCommitted then rollbackRejectedWrite b u e
       else andThen (reportPostCommitFailure ev) (\<lambda>_. ret ())) (\<lambda>_. k) =
     (case x of (state, _) \<Rightarrow> if state \<noteq> intentCommitted then rollbackRejectedWrite b u e else andThen (reportPostCommitFailure ev) (\<lambda>_. k))"
    for x :: "intentState \<times> uint64" and ev
    by (cases x) (simp add: then_simps then_failures)
  then show ?thesis by (simp add: inspect_commit_def catch_then then_simps then_raise_joined)
qed

lemma commitOrdinaryChunk_eq:
  "commitOrdinaryChunk c ch v = andThen (state_of (\<lambda>s. appendWALRecord (st_grow s) (st_geometry s) ((st_walRecordBuffer s)\<lparr>buf_bytes := []\<rparr>) c
       (chunk_payload ch) (chunk_presence ch))) (\<lambda>record. andThen (commit_prefix (buf_bytes record)) (\<lambda>_. commit_ordinary_tail c ch v record))"
  by (simp add: commitOrdinaryChunk_def commit_prefix_def then_simps catch_then then_failures inspect_commit_then)


lemma commit_prefix_quiet:
  assumes "wf_records g new"
  shows "triple (\<lambda>s. Quiet g recs F s \<and> st_pending s = ps) (commit_prefix (wal_bytes g new))
    (outcome_of (\<lambda>s. Quiet g (recs @ new) F s \<and> st_pending s = ps) g recs new F ps)" (is "triple ?P _ ?O")
proof -
  define k where "k = (\<lambda>boundary. catch (publishIntent intentRollback boundary) abandon_rollback_intent (\<lambda>_.
     andThen (state_of st_walUnsyncedUpdates) (\<lambda>u.
     catch (appendWAL (wal_bytes g new)) (rollbackRejectedWrite boundary u) (\<lambda>_.
     catch (ensureWALCommit False) (rollbackRejectedWrite boundary u) (\<lambda>_.
     catch (publishIntent intentCommitted boundary) (\<lambda>commitErr. inspect_commit commitErr boundary u (ret ())) (\<lambda>_. ret ()))))))"
  have fin: "triple (\<lambda>s. Quiet g (recs @ new) F s \<and> st_pending s = ps) (ret ()) ?O" by (simp add: triple_def ret_def outcome_of_def)
  have k: "triple ?P (k (of_nat (length (wal_bytes g recs)))) ?O"
    using arm_outcome [OF guarded_raise triple_observe [where h = st_walUnsyncedUpdates, OF commit_outcome [where grouped = False and k = "ret ()",
      OF assms guarded_raise fin refl]] refl]
    unfolding k_def inspect_commit_def catch_raise_ret .
  have eq: "commit_prefix (wal_bytes g new) = andThen walSize k" unfolding commit_prefix_def k_def ..
  show ?thesis unfolding eq
  proof (rule triple_andThen [OF triple_keep [OF walSize_quiet tame_walSize [of g "{}"]]])
    show "triple (\<lambda>s. (Quiet g recs F s \<and> (\<forall>b. Inr x = Inr b \<longrightarrow> b = of_nat (length (wal_bytes g recs)))) \<and> st_pending s = ps) (k x) ?O" for x
      using k by (cases "x = of_nat (length (wal_bytes g recs))") (auto simp: triple_def)
  qed (auto simp: outcome_of_def rejected_def Down_def dest: Quiet_geometry)
qed

lemma commit_prefix_steady: "triple (steady g D due) (commit_prefix d) (\<lambda>_. steady g D due)"
proof (rule steady_keep)
  show "still (commit_prefix d)" unfolding commit_prefix_def inspect_commit_def by (intro stills)
  show "tame g {walPath, intentPath} (commit_prefix d)" unfolding commit_prefix_def inspect_commit_def by (intro tames) simp_all
qed (rule chunk_not_control)

text \<open>How an operation that turns \<open>D\<close> into \<open>D'\<close> ends for the readers.\<close>

definition ends :: "Geometry \<Rightarrow> (Coord \<Rightarrow> chunk_view) \<Rightarrow> (Coord \<Rightarrow> chunk_view) \<Rightarrow> 'a result \<Rightarrow> Store \<Rightarrow> bool" where
  "ends g D D' r s \<longleftrightarrow> (case r of Inr _ \<Rightarrow> st_geometry s = g \<and> shown g D' s | Inl _ \<Rightarrow> steady g D False s)"

lemma commitOrdinaryChunk_live:
  assumes "wf_chunk ch" "chunk_geometry ch = g"
  shows "triple (\<lambda>s. inv g D s \<and> steady g D False s) (commitOrdinaryChunk c ch v) (ends g D (D(c := Inr (visible (chunk_payload ch, chunk_presence ch)))))"
proof (rule tripleI)
  fix s r s' assume P: "inv g D s \<and> steady g D False s" and m: "commitOrdinaryChunk c ch v s = (r, s')"
  obtain recs F where q: "Quiet g recs F s" "pend_ok recs (st_pending s)" "disk_view g recs F = D" using P by (auto simp: inv_def)
  let ?new = "[chunk_record c ch]"
  define buf where "buf = appendWALRecord (st_grow s) (st_geometry s) ((st_walRecordBuffer s)\<lparr>buf_bytes := []\<rparr>) c (chunk_payload ch) (chunk_presence ch)"
  have buf: "buf_bytes buf = wal_bytes g ?new" using q(1) Quiet_geometry record_buffer unfolding buf_def by blast
  have new: "wf_records g ?new" using wf_chunk_record [OF assms] by (simp add: wf_records_def)
  have m': "andThen (commit_prefix (wal_bytes g ?new)) (\<lambda>_. commit_ordinary_tail c ch v buf) s = (r, s')"
    using m unfolding commitOrdinaryChunk_eq andThen_state_of buf_def [symmetric] buf .
  obtain r1 s1 where 1: "commit_prefix (wal_bytes g ?new) s = (r1, s1)" by fastforce
  have o: "outcome_of (\<lambda>t. Quiet g (recs @ ?new) F t \<and> st_pending t = st_pending s) g recs ?new F (st_pending s) r1 s1"
    by (rule tripleD [OF commit_prefix_quiet [OF new] _ 1]) (use q in simp)
  have st1: "steady g D False s1" by (rule tripleD [OF commit_prefix_steady _ 1]) (use P in blast)
  show "ends g D (D(c := Inr (visible (chunk_payload ch, chunk_presence ch)))) r s'"
  proof (cases r1)
    case (Inl e)
    then show ?thesis using m' 1 st1 by (auto simp: andThen_def catch_def raise_def ends_def)
  next
    case (Inr u)
    have tail: "commit_ordinary_tail c ch v buf s1 = (r, s')" using m' 1 Inr by (simp add: andThen_def catch_def)
    have q1: "Quiet g (recs @ ?new) F s1" "st_pending s1 = st_pending s" using o Inr by (simp_all add: outcome_of_def)
    have "total (commit_ordinary_tail c ch v buf)" unfolding commit_ordinary_tail_def by (intro totals)
    from totalD [OF this tail] obtain x where "r = Inr x" by blast
    moreover have "inv g (disk_view g (recs @ ?new) F) s'"
      using tripleD [OF commit_ordinary_tail_inv [OF q(2)] _ tail] q1 \<open>r = Inr x\<close> by (simp add: outcome_of_def)
    then have "st_geometry s' = g" using Quiet_geometry by (auto simp: inv_def)
    ultimately show ?thesis using commit_tail_live [OF q1 q(2) st1 q(3) assms tail] by (simp add: ends_def)
  qed
qed


definition ready :: "Geometry \<Rightarrow> (Coord \<Rightarrow> chunk_view) \<Rightarrow> Store \<Rightarrow> bool" where
  "ready g D s \<longleftrightarrow> inv g D s \<and> steady g D False s"

lemma ready_Live: "ready g D = Live g D"
  by (auto simp: fun_eq_iff ready_def Live_def steady_def inv_def dest: Quiet_geometry)

lemma ready_keep:
  assumes "still m" "tame g (meta_paths g) m"
  shows "triple (ready g D) m (\<lambda>_. ready g D)"
  using triple_meta [OF meta_stable_inv assms(2)] steady_keep [OF assms chunk_not_meta(1)] by (simp add: triple_def ready_def)

lemma ready_ends: "ready g D s \<Longrightarrow> ends g D D' (Inl e) s"
  by (simp add: ready_def ends_def)

lemma ready_seq:
  assumes "still m" "tame g (meta_paths g) m" "\<And>x. triple (ready g D) (f x) (ends g D D')"
  shows "triple (ready g D) (andThen m f) (ends g D D')"
  by (rule triple_andThen [OF ready_keep [OF assms(1,2)] assms(3) ready_ends])

lemma reject_ends: "triple (steady g D False) (reject e) (ends g D D')" "triple (steady g D False) (raise e) (ends g D D')"
proof -
  have "triple (steady g D False) (reject e :: 'a sop) (\<lambda>r s. steady g D False s \<and> (\<exists>e. r = Inl e))" for e
    by (rule triple_fails [OF fails_reject steady_keep [OF still_snapshots(6) tame_reject chunk_not_meta(1)]])
  then show "triple (steady g D False) (reject e :: 'a sop) (ends g D D')" for e by (rule triple_conseq) (auto simp: ends_def)
  show "triple (steady g D False) (raise e) (ends g D D')" by (simp add: triple_def raise_def ends_def)
qed

lemma ready_retry: "triple (ready g D) (ignore retryPendingPublications) (\<lambda>_. ready g D)"
  by (rule triple_ignore, rule tripleI) (auto simp: ready_def intro: retry_live(2) tripleD [OF retry_inv])

lemma finish_snapshot_ends: "triple (\<lambda>s. st_geometry s = g \<and> shown g D' s) finishCommittedSnapshot (ends g D D')"
proof (rule tripleI)
  fix s r s' assume P: "st_geometry s = g \<and> shown g D' s" and m: "finishCommittedSnapshot s = (r, s')"
  have g: "st_geometry s = g" using P by blast
  have f: "sframe (meta_paths g) s s'" by (rule tameD [OF tame_finishSnapshots(2) g m])
  obtain x where "r = Inr x" using totalD [OF total_finish(2) m] by blast
  then show "ends g D D' r s'"
    using P f files_live_sframe [OF _ f chunk_not_meta(1)] due_still [OF still_snapshots(5) tame_finishSnapshots(2) g m]
      stillD [OF still_snapshots(5) m] coh_cache by (auto simp: ends_def shown_def sframe_def)
qed

lemma WriteChunk_live:
  assumes "wf_chunk ch"
  shows "triple (ready g D) (WriteChunk c (Some ch)) (ends g D (D(c := Inr (visible (chunk_payload ch, chunk_presence ch)))))"
proof -
  let ?D' = "D(c := Inr (visible (chunk_payload ch, chunk_presence ch)))"
  have st: "triple (ready g D) m (ends g D ?D')" if "triple (steady g D False) m (ends g D ?D')" for m :: "unit sop"
    by (rule triple_conseq [OF that]) (auto simp: ready_def)
  have com: "triple (ready g D) (catch (commitOrdinaryChunk c ch v) reject (\<lambda>_. finishCommittedSnapshot)) (ends g D ?D')" if "chunk_geometry ch = g" for v
  proof (rule triple_catch)
    show "triple (ready g D) (commitOrdinaryChunk c ch v) (ends g D ?D')"
      using commitOrdinaryChunk_live [OF assms that] unfolding ready_def [abs_def] .
    show "triple (ends g D ?D' (Inl e :: unit result)) (reject e) (ends g D ?D')" for e
      by (rule triple_conseq [OF reject_ends(1)]) (auto simp: ends_def)
    show "triple (ends g D ?D' (Inr x :: unit result)) finishCommittedSnapshot (ends g D ?D')" for x
      by (rule triple_conseq [OF finish_snapshot_ends]) (auto simp: ends_def)
  qed
  have clock: "triple (ready g D) (catch (persistVersionClock v) reject (\<lambda>_. andThen (update (\<lambda>s. s\<lparr>st_versionClock := v\<rparr>)) (\<lambda>_.
     catch (commitOrdinaryChunk c ch v) reject (\<lambda>_. finishCommittedSnapshot)))) (ends g D ?D')" if "chunk_geometry ch = g" for v
    by (rule triple_catch [OF ready_keep [OF still_snapshots(7) tame_persistVersionClock] st [OF reject_ends(1)]])
      (intro ready_seq stills tames com that)
  let ?m = "andThen writerLock_checkHealthy (\<lambda>_. andThen checkDurabilityHealthy (\<lambda>_. andThen (ignore retryPendingPublications) (\<lambda>_.
     andThen beginWriteSnapshot (\<lambda>_. andThen (state_of st_versionClock) (\<lambda>clock.
     if clock = MaxUint64 then reject [ErrVersionOverflow]
     else let version = clock + 1 in
     catch (persistVersionClock version) reject (\<lambda>_.
     andThen (update (\<lambda>s. s\<lparr>st_versionClock := version\<rparr>)) (\<lambda>_.
     catch (commitOrdinaryChunk c ch version) reject (\<lambda>_. finishCommittedSnapshot))))))))"
  have body: "triple (ready g D) ?m (ends g D ?D')" if "chunk_geometry ch = g"
  proof (rule ready_seq [OF still_log(7) tame_reads(12)], rule ready_seq [OF still_bookkeeping(4) tame_bookkeeping(4)])
    show "triple (ready g D) (andThen (ignore retryPendingPublications) (\<lambda>_. andThen beginWriteSnapshot (\<lambda>_. andThen (state_of st_versionClock) (\<lambda>clock.
       if clock = MaxUint64 then reject [ErrVersionOverflow] else let version = clock + 1 in catch (persistVersionClock version) reject (\<lambda>_.
       andThen (update (\<lambda>s. s\<lparr>st_versionClock := version\<rparr>)) (\<lambda>_. catch (commitOrdinaryChunk c ch version) reject (\<lambda>_. finishCommittedSnapshot))))))) (ends g D ?D')"
      unfolding Let_def
      by (rule triple_andThen [OF ready_retry], intro ready_seq stills tames) (use clock [OF that] st [OF reject_ends(1)] ready_ends in auto)
  qed
  have "triple (ready g D) (andThen (state_of (\<lambda>s. (st_geometry s, st_closed s, o_ReadOnly (st_options s)))) (\<lambda>(g', closed, readOnly).
     if chunk_geometry ch \<noteq> g' then raise [ErrGeometryMismatch] else if closed then raise [] else if readOnly then raise [ErrReadOnly] else ?m)) (ends g D ?D')"
  proof (rule triple_observe)
    fix s assume "ready g D s"
    then have "st_geometry s = g" by (simp add: ready_def steady_def)
    then show "triple (ready g D) (case (st_geometry s, st_closed s, o_ReadOnly (st_options s)) of (g', closed, readOnly) \<Rightarrow>
      if chunk_geometry ch \<noteq> g' then raise [ErrGeometryMismatch] else if closed then raise [] else if readOnly then raise [ErrReadOnly] else ?m)
      (ends g D ?D')" using body st [OF reject_ends(2)] by (simp split del: if_split) (auto split: if_split)
  qed
  then show ?thesis unfolding WriteChunk_def option.case .
qed

end
