(* ===== verification/StoreRead.thy ===== *)
theory StoreRead
  imports StoreLive
begin

text \<open>
  Reads of a live store: a chunk, its absence, or an error; and what a scan of the data directory lists.
\<close>

section \<open>Reading a chunk\<close>

lemma decode_errors: "decode g c d = Inl e \<Longrightarrow> \<not> errors_is e ErrNotExist"
  by (auto simp: decode_def Let_def on_err_def errors_is_def split: if_splits sum.splits dest: decode_payload_Inl)

text \<open>What a reader may be told about the chunk \<open>c\<close> of the contents \<open>D\<close>.\<close>

definition told :: "Geometry \<Rightarrow> (Coord \<Rightarrow> chunk_view) \<Rightarrow> Coord \<Rightarrow> Chunk result \<Rightarrow> bool" where
  "told g D c r \<longleftrightarrow> (case r of
     Inr ch \<Rightarrow> wf_chunk ch \<and> chunk_geometry ch = g \<and> D c = Inr (visible (chunk_payload ch, chunk_presence ch))
   | Inl e \<Rightarrow> errors_is e ErrNotExist \<longrightarrow> D c = Inr None)"

lemma told_state: "wf_geometry g \<Longrightarrow> D c = Inr (visible (a, b)) \<Longrightarrow> told g D c (ChunkFromState g a b)"
  by (auto simp: told_def ChunkFromState_eq errors_is_def wf_chunk_def Let_def)

lemma told_error: "\<not> errors_is e ErrNotExist \<Longrightarrow> told g D c (Inl e)"
  by (simp add: told_def)

lemma os_read_errors: "on_world (os_size p) s = (Inl e, s') \<Longrightarrow> \<not> errors_is e ErrNotExist" "on_world (os_noop c) s = (Inl e', s'') \<Longrightarrow> c \<noteq> OsLock \<Longrightarrow> \<not> errors_is e' ErrNotExist"
  by (auto simp: on_world_def2 os_size_def os_noop_def os_call_def Let_def errors_is_def
      split: prod.splits if_splits fault.splits option.splits oscall.splits)

definition writer :: "Store \<Rightarrow> bool" where
  "writer s \<longleftrightarrow> \<not> o_ReadOnly (st_options s)"

text \<open>A read changes the cache and the clock of the world, nothing else.\<close>

definition looks :: "Store \<Rightarrow> Store \<Rightarrow> bool" where
  "looks s s' \<longleftrightarrow> sframe {} s s' \<and> st_walRecords s' = st_walRecords s \<and> st_walBytes s' = st_walBytes s"

lemma looks_trans: "looks s t \<Longrightarrow> looks t u \<Longrightarrow> looks s u"
  unfolding looks_def using sframe_trans by (metis (no_types))

lemma looks_ready:
  assumes "ready g D s" "looks s s'" "coh g D s'"
  shows "ready g D s'"
proof -
  have f: "sframe {} s s'" using assms(2) by (simp add: looks_def)
  have "inv g D s'" using assms(1) meta_stable_inv [of g D] sframe_mono [OF f, of "meta_paths g"] unfolding meta_stable_def ready_def by blast
  then show ?thesis using assms f files_live_sframe [OF _ f] by (auto simp: ready_def steady_def looks_def sframe_def checkpointDue_def)
qed

lemma looks_still: "still m \<Longrightarrow> tame g {} m \<Longrightarrow> st_geometry s = g \<Longrightarrow> m s = (r, s') \<Longrightarrow> looks s s' \<and> st_cache s' = st_cache s"
  using stillD tameD by (metis looks_def)

lemma cache_look_live:
  assumes "ready g D s" "cache_look c s = (r, s')"
  shows "ready g D s'" "looks s s'" "(\<forall>ch. r = Inr (Some ch) \<longrightarrow> told g D c (Inr ch)) \<and> (\<forall>e. r = Inl e \<longrightarrow> \<not> errors_is e ErrNotExist)"
proof -
  have k: "cache_inv (st_cache s)" "cc_geometry (st_cache s) = g" "wf_geometry g" and coh: "coh g D s"
    using assms(1) by (auto simp: ready_def steady_def coh_def inv_def Quiet_def base_def)
  obtain c' where c': "cache_get c (st_cache s) = (r, c')" "s' = s\<lparr>st_cache := c'\<rparr>"
    using assms(2) by (auto simp: cache_look_def split: prod.splits)
  note G = cache_get_spec [OF k(1) c'(1)]
  show l: "looks s s'" using c'(2) by (simp add: looks_def sframe_def)
  have "coh g D s'" using coh G c'(2) by (simp add: coh_def)
  then show "ready g D s'" by (rule looks_ready [OF assms(1) l])
  show "(\<forall>ch. r = Inr (Some ch) \<longrightarrow> told g D c (Inr ch)) \<and> (\<forall>e. r = Inl e \<longrightarrow> \<not> errors_is e ErrNotExist)"
  proof (cases "cache_content (st_cache s) c")
    case None
    then show ?thesis using G(3) by simp
  next
    case (Some v)
    obtain a b where v: "v = (a, b)" by fastforce
    have "D c = Inr (visible (a, b))" using coh Some v by (simp add: coh_def)
    from told_state [where D = D, OF k(3) this] show ?thesis using G(3) Some v k(2)
      by (auto simp: told_def ChunkFromState_eq [OF k(3)] errors_is_def split: sum.splits if_splits)
  qed
qed

text \<open>A file operation that changes nothing keeps the store ready.\<close>

lemma peek_ready:
  assumes "ready g D s" "still m" "tame g {} m" "m s = (r, s')"
  shows "ready g D s'" "looks s s'" "chunk_files g (st_world s') = chunk_files g (st_world s)"
proof -
  have g: "st_geometry s = g" using assms(1) by (simp add: ready_def steady_def)
  have l: "looks s s'" "st_cache s' = st_cache s" using looks_still [OF assms(2,3) g assms(4)] by blast+
  then show "ready g D s'" "looks s s'" using looks_ready [OF assms(1) l(1)] assms(1) coh_cache by (auto simp: ready_def steady_def)
  show "chunk_files g (st_world s') = chunk_files g (st_world s)"
    using sframe_content [of "{}" s s'] l(1) by (auto simp: fun_eq_iff chunk_files_def looks_def)
qed

lemma open_missing:
  assumes "on_world (os_open p) s = (Inl e, s')" "errors_is e ErrNotExist"
  shows "content (st_world s) p = None"
  using assms by (auto simp: on_world_def2 os_open_def os_call_def Let_def errors_is_def content_def split: prod.splits if_splits fault.splits)

lemma ready_file: "ready g D s \<Longrightarrow> map_of (st_pending s) c = None \<Longrightarrow> D c = file_state g (chunk_files g (st_world s)) c"
  by (simp add: ready_def steady_def files_live_def)

lemma readChunkFile_body_live:
  assumes R: "ready g D s" and w: "writer s" and n: "map_of (st_pending s) c = None"
    and m: "readChunkFile_body (chunkPath g c) c s = (r, s')"
  shows "ready g D s' \<and> looks s s' \<and> told g D c r"
proof -
  let ?p = "chunkPath g c"
  have g: "st_geometry s = g" and wg: "wf_geometry g" using R by (auto simp: ready_def steady_def inv_def Quiet_def base_def)
  obtain r1 s1 where 1: "on_world (os_size ?p) s = (r1, s1)" by fastforce
  note P1 = peek_ready [OF R still_on_world tame_reads(6) 1]
  obtain r2 s2 where 2: "on_world (os_read ?p) s1 = (r2, s2)" by fastforce
  note P2 = peek_ready [OF P1(1) still_on_world tame_reads(2) 2]
  have L2: "looks s s2" using P1(2) P2(2) by (rule looks_trans)
  consider (stat) e where "r1 = Inl e" "r = Inl e" "s' = s1" | (bad) "r = Inl [ErrCorrupt]" "s' = s1 \<or> s' = s2"
    | (got) d where "r2 = Inr d" "andThen (lift_result (decode g c d)) (\<lambda>chunk. andThen (cache_put c (chunk_payload chunk) (chunk_presence chunk)) (\<lambda>_. ret chunk)) s2 = (r, s')"
    using m 1 2 g w by (cases r1; cases r2)
      (auto simp: readChunkFile_body_def andThen_state_of writer_def andThen_def [of "on_world (os_size ?p)"] catch_def raise_def state_of_def split: if_splits)
  then show ?thesis
  proof cases
    case stat
    then show ?thesis using 1 os_read_errors(1) P1 told_error by blast
  next
    case bad
    then show ?thesis using P1 P2(1) L2 told_error by (auto simp: errors_is_def)
  next
    case (got d)
    have "content (st_world s1) ?p = Some d" using 2 got(1) os_read_content by (auto simp: on_world_def split: prod.splits)
    then have onfile: "chunk_files g (st_world s) c = Some d" using P1(3) by (simp add: chunk_files_def fun_eq_iff)
    show ?thesis
    proof (cases "decode g c d")
      case (Inl e)
      then have "r = Inl e" "s' = s2" using got(2) by (auto simp: andThen_def catch_def lift_result_def raise_def)
      then show ?thesis using decode_errors [OF Inl] P2(1) L2 told_error by blast
    next
      case (Inr ch)
      note wf = decode_wf [OF wg Inr]
      have D: "D c = Inr (visible (chunk_payload ch, chunk_presence ch))"
        using ready_file [OF R n] onfile Inr by (simp add: file_state_def)
      have "coh g D s2" "stored g (chunk_payload ch, chunk_presence ch)" using P2(1) wf by (auto simp: ready_def steady_def stored_def)
      from cache_put_coh [OF this, of c] obtain t where t: "cache_put c (chunk_payload ch) (chunk_presence ch) s2 = (Inr (), t)" "coh g D t" "t = s2\<lparr>st_cache := st_cache t\<rparr>"
        using D fun_upd_triv [of D c] by metis
      have s': "r = Inr ch" "s' = t" using got(2) Inr t(1) by (auto simp: andThen_def catch_def lift_result_def ret_def)
      have "looks s2 t" by (subst t(3)) (simp add: looks_def sframe_def)
      then show ?thesis using s' looks_ready [OF P2(1) _ t(2)] L2 looks_trans wf D by (auto simp: told_def)
    qed
  qed
qed

lemma readChunkFile_live:
  assumes R: "ready g D s" and w: "writer s" and n: "map_of (st_pending s) c = None" and m: "readChunkFile c s = (r, s')"
  shows "ready g D s' \<and> looks s s' \<and> told g D c r"
proof -
  let ?p = "chunkPath g c"
  have g: "st_geometry s = g" using R by (simp add: ready_def steady_def)
  obtain r1 s1 where 1: "on_world (os_open ?p) s = (r1, s1)" by fastforce
  note P1 = peek_ready [OF R still_on_world tame_reads(4) 1]
  show ?thesis
  proof (cases r1)
    case (Inl e)
    then have "r = Inl e" "s' = s1" using m 1 g by (auto simp: readChunkFile_def andThen_def catch_def raise_def state_of_def)
    moreover have "D c = Inr None" if "errors_is e ErrNotExist"
      using open_missing [OF 1 [unfolded Inl] that] ready_file [OF R n] by (simp add: file_state_def chunk_files_def)
    ultimately show ?thesis using P1 by (simp add: told_def)
  next
    case (Inr u)
    have k: "writer s1" "map_of (st_pending s1) c = None" using P1(2) w n by (simp_all add: looks_def sframe_def writer_def)
    obtain r2 s2 where 2: "readChunkFile_body ?p c s1 = (r2, s2)" by fastforce
    note B = readChunkFile_body_live [OF P1(1) k 2]
    obtain r3 s3 where 3: "on_world (os_noop (OsClose ?p)) s2 = (r3, s3)" by fastforce
    note P3 = peek_ready [OF conjunct1 [OF B] still_on_world tame_reads(3) 3]
    have L: "looks s s3" using P1(2) B P3(2) looks_trans by blast
    have "s' = s3" "r = r2 \<or> (\<exists>e. r = Inl e \<and> r3 = Inl e)"
      using m 1 2 3 Inr g by (cases r2; cases r3; auto simp: readChunkFile_def andThen_def catch_def raise_def ret_def ignore_def state_of_def)+
    then show ?thesis using P3(1) L B told_error 3 os_read_errors(2) by blast
  qed
qed

lemma ReadChunk_live:
  assumes R: "ready g D s" and w: "writer s" and m: "ReadChunk c s = (r, s')"
  shows "ready g D s' \<and> looks s s' \<and> told g D c r"
proof -
  have g: "st_geometry s = g" and wg: "wf_geometry g" using R by (auto simp: ready_def steady_def inv_def Quiet_def base_def)
  have refl: "looks s s" by (simp add: looks_def)
  show ?thesis
  proof (cases "st_closed s")
    case True
    then show ?thesis using m R refl by (auto simp: ReadChunk_def andThen_state_of raise_def told_def errors_is_def)
  next
    case up: False
    show ?thesis
    proof (cases "map_of (st_pending s) c")
      case (Some p)
      then have "D c = Inr (visible (pp_payload p, pp_presence p))" using R by (simp add: ready_def steady_def files_live_def)
      from told_state [where D = D, OF wg this] show ?thesis using m R refl up Some g by (auto simp: ReadChunk_def andThen_state_of lift_result_def)
    next
      case None
      obtain r1 s1 where 1: "cache_look c s = (r1, s1)" by fastforce
      note C = cache_look_live [OF R 1]
      have w1: "writer s1" "map_of (st_pending s1) c = None" using C(2) w None by (simp_all add: looks_def sframe_def writer_def)
      obtain r2 s2 where 2: "readChunkFile c s1 = (r2, s2)" by fastforce
      note F = readChunkFile_live [OF C(1) w1 2]
      have w2: "writer s2" using F w1 by (simp add: looks_def sframe_def writer_def)
      consider (err) e where "r1 = Inl e" "r = Inl e" "s' = s1" | (hit) ch where "r1 = Inr (Some ch)" "r = Inr ch" "s' = s1" | (onfile) "r = r2" "s' = s2"
        using m up None w w1(1) w2 1 2
        by (cases r1; cases r2) (auto simp: ReadChunk_def andThen_def catch_def state_of_def raise_def ret_def writer_def
            beginReadOnlySnapshot_def finishReadOnlySnapshot_def split: option.splits)
      then show ?thesis using C F told_error looks_trans by cases blast+
    qed
  qed
qed

section \<open>Scanning the data directory\<close>

definition tree :: "Store \<Rightarrow> (path \<times> bytes) list \<times> path list" where
  "tree s = (w_files (st_world s), w_dirs (st_world s))"

lemma keeps_tree [stills]:
  "keeps tree (on_world (os_open p))" "keeps tree (on_world (os_size p))" "keeps tree (on_world (os_read p))" "keeps tree (on_world (os_noop c))"
  "keeps tree (on_world (os_read_dir p))" "keeps tree (cache_put k a b)" "keeps tree (cache_look k)"
  by (auto simp: keeps_def tree_def on_world_def cache_put_def cache_look_def os_open_def os_size_def os_read_def os_noop_def os_read_dir_def
      os_call_def Let_def split: prod.splits if_splits fault.splits option.splits)

lemma keeps_tree_reads [stills]: "keeps tree (readChunkFile c)" "keeps tree beginReadOnlySnapshot" "keeps tree (finishReadOnlySnapshot n)"
  unfolding readChunkFile_def readChunkFile_body_def beginReadOnlySnapshot_def finishReadOnlySnapshot_def readSnapshotGeneration_def by (intro stills)+

lemma keeps_tree_ReadChunk: "keeps tree (ReadChunk c)"
  unfolding ReadChunk_def by (intro stills)

text \<open>The chunks that have a file in a directory of chunks.\<close>

definition listed :: "(path \<times> bytes) list \<times> path list \<Rightarrow> Coord set" where
  "listed t = {c. \<exists>l. [largeDirName l] \<in> set (snd t) \<and> [largeDirName l, chunkFileName c] \<in> fst ` set (fst t) \<and> [largeDirName l, chunkFileName c] \<notin> set (snd t)}"

definition children :: "world \<Rightarrow> path \<Rightarrow> string list" where
  "children w p = sort (remdups (map last (filter (\<lambda>q. q \<noteq> [] \<and> butlast q = p) (map fst (w_files w) @ w_dirs w))))"

lemma set_children: "set (children w p) = {n. p @ [n] \<in> fst ` set (w_files w) \<union> set (w_dirs w)}"
proof -
  have e: "(q \<noteq> [] \<and> butlast q = p \<and> last q = n) \<longleftrightarrow> q = p @ [n]" for q and n :: string by (cases q rule: rev_cases) auto
  have "set (children w p) = {n. \<exists>q \<in> fst ` set (w_files w) \<union> set (w_dirs w). q \<noteq> [] \<and> butlast q = p \<and> last q = n}"
    by (auto simp: children_def)
  then show ?thesis unfolding e by auto
qed

lemma read_dir_children:
  assumes "on_world (os_read_dir p) s = (Inr names, s')"
  shows "names = children (st_world s) p" "is_dir (st_world s) p"
  using assms by (auto simp: on_world_def2 os_read_dir_def os_call_def Let_def children_def is_dir_def split: prod.splits if_splits fault.splits)

text \<open>The coordinates that a pass over a list of directory names adds.\<close>

definition dir_coords :: "world \<Rightarrow> string list \<Rightarrow> Coord list" where
  "dir_coords w names = concat (map (\<lambda>name.
     case (if is_dir w [name] then parseCoordinateName name ''l_'' [] else None) of
       None \<Rightarrow> []
     | Some l \<Rightarrow> if name \<noteq> largeDirName l then [] else List.map_filter parseChunkFileName (filter (\<lambda>f. \<not> is_dir w [name, f]) (children w [name]))) names)"

lemma same_tree:
  assumes "tree s' = tree s"
  shows "is_dir (st_world s') = is_dir (st_world s)" "children (st_world s') = children (st_world s)" "content (st_world s') = content (st_world s)"
  using assms by (simp_all add: tree_def is_dir_def children_def content_def fun_eq_iff)

lemma scan_directories_coords:
  assumes "scan_directories names b s = (Inr b', s')"
  shows "b' = foldl bcc_insert b (dir_coords (st_world s) names)"
  using assms
proof (induction names arbitrary: b s)
  case (Cons name names)
  let ?l = "if is_dir (st_world s) [name] then parseCoordinateName name ''l_'' [] else None"
  show ?case
  proof (cases "\<exists>l. ?l = Some l \<and> name = largeDirName l")
    case False
    then have "scan_directories names b s = (Inr b', s')"
      using Cons.prems by (auto simp: andThen_state_of split: option.splits if_splits)
    moreover have "dir_coords (st_world s) (name # names) = dir_coords (st_world s) names"
      using False by (auto simp: dir_coords_def split: option.splits if_splits)
    ultimately show ?thesis using Cons.IH by simp
  next
    case True
    then obtain l where l: "?l = Some l" "name = largeDirName l" by blast
    obtain files t where r: "on_world (os_read_dir [name]) s = (Inr files, t)"
      "scan_directories names (foldl bcc_insert b (List.map_filter parseChunkFileName (filter (\<lambda>f. \<not> is_dir (st_world t) [name, f]) files))) t = (Inr b', s')"
      using Cons.prems l by (auto simp: andThen_state_of andThen_Inr split: if_splits)
    note T = same_tree [OF keepsD [OF keeps_tree(5) r(1)]]
    have "dir_coords (st_world t) names = dir_coords (st_world s) names" unfolding dir_coords_def T ..
    moreover have "dir_coords (st_world s) (name # names) =
        List.map_filter parseChunkFileName (filter (\<lambda>f. \<not> is_dir (st_world s) [name, f]) (children (st_world s) [name])) @ dir_coords (st_world s) names"
      using l by (auto simp: dir_coords_def split: if_splits)
    ultimately show ?thesis using Cons.IH [OF r(2)] read_dir_children(1) [OF r(1)] T by simp
  qed
qed (simp add: ret_def dir_coords_def)

lemma scan_keeps:
  assumes "\<And>p. keeps h (on_world (os_read_dir p))"
  shows "keeps h (scan_directories names b)"
proof (induction names arbitrary: b)
  case (Cons name names)
  show ?case unfolding scan_directories.simps by (intro stills assms Cons.IH)
qed (simp add: stills)

lemma set_dir_coords:
  assumes "is_dir w []"
  shows "set (dir_coords w (children w [])) = listed (w_files w, w_dirs w)"
proof (intro equalityI subsetI)
  fix c assume "c \<in> set (dir_coords w (children w []))"
  then obtain name l where n: "name \<in> set (children w [])" "is_dir w [name]" "name = largeDirName l"
    "c \<in> set (List.map_filter parseChunkFileName (filter (\<lambda>f. \<not> is_dir w [name, f]) (children w [name])))"
    by (fastforce simp: dir_coords_def split: option.splits if_splits)
  then obtain f where f: "f \<in> set (children w [name])" "\<not> is_dir w [name, f]" "parseChunkFileName f = Some c" by (auto simp: map_filter_def)
  then have "f = chunkFileName c" by (simp add: parseChunkFileName_iff)
  then show "c \<in> listed (w_files w, w_dirs w)" using n f unfolding listed_def set_children by (auto simp: is_dir_def)
next
  fix c assume "c \<in> listed (w_files w, w_dirs w)"
  then obtain l where l: "[largeDirName l] \<in> set (w_dirs w)" "[largeDirName l, chunkFileName c] \<in> fst ` set (w_files w)" "[largeDirName l, chunkFileName c] \<notin> set (w_dirs w)"
    by (auto simp: listed_def)
  have p: "parseCoordinateName (largeDirName l) ''l_'' [] = Some l" "parseChunkFileName (chunkFileName c) = Some c"
    using parseCoordinateName_name [of "''l_''" "coord_X l" "coord_Y l" "[]"] by (simp_all add: largeDirName_def parseChunkFileName_iff)
  have "largeDirName l \<in> set (children w [])" "chunkFileName c \<in> set (children w [largeDirName l])" using l unfolding set_children by auto
  moreover have "is_dir w [largeDirName l]" "\<not> is_dir w [largeDirName l, chunkFileName c]" using l by (auto simp: is_dir_def)
  moreover from calculation p(2) have "c \<in> set (List.map_filter parseChunkFileName (filter (\<lambda>f. \<not> is_dir w [largeDirName l, f]) (children w [largeDirName l])))"
    by (force simp: map_filter_def)
  ultimately show "c \<in> set (dir_coords w (children w []))" using p(1) by (force simp: dir_coords_def)
qed

text \<open>The chunks behind the cursor.\<close>

definition behind :: "bool \<Rightarrow> Coord \<Rightarrow> Coord set \<Rightarrow> Coord set" where
  "behind hasCursor cursor A = {c \<in> A. hasCursor \<longrightarrow> cursor < c}"

lemma ScanChunkCoords_live:
  assumes R: "ready g D s" and w: "writer s" and m: "ScanChunkCoords hasCursor cursor n s = (r, s')"
  shows "ready g D s' \<and> looks s s' \<and> tree s' = tree s"
    and "r = Inr (cs, further) \<Longrightarrow> cs = take (nat n) (sorted_list_of_set (behind hasCursor cursor (listed (tree s)))) \<and>
      further = (nat n < card (behind hasCursor cursor (listed (tree s))))"
proof -
  have k: "keeps tree (ScanChunkCoords hasCursor cursor n)" "still (ScanChunkCoords hasCursor cursor n)"
    unfolding ScanChunkCoords_def beginReadOnlySnapshot_def finishReadOnlySnapshot_def readSnapshotGeneration_def by (intro stills scan_keeps)+
  have "tame g {} (scan_directories names b)" for names b
  proof (induction names arbitrary: b)
    case (Cons name names)
    show ?case unfolding scan_directories.simps by (intro tames Cons.IH)
  qed (simp add: tames)
  then have t: "tame g {} (ScanChunkCoords hasCursor cursor n)"
    unfolding ScanChunkCoords_def beginReadOnlySnapshot_def finishReadOnlySnapshot_def readSnapshotGeneration_def by (intro tames)
  show "ready g D s' \<and> looks s s' \<and> tree s' = tree s" using peek_ready [OF R k(2) t m] keepsD [OF k(1) m] by blast
  assume r: "r = Inr (cs, further)"
  obtain dirs s1 b s2 where 1: "0 < n" "on_world (os_read_dir []) s = (Inr dirs, s1)"
    "scan_directories dirs (newBoundedChunkCoords hasCursor cursor (nat n)) s1 = (Inr b, s2)" "cs = bcc_sorted b" "further = bcc_overflow b"
    using m w unfolding r ScanChunkCoords_def
    by (auto simp: andThen_Inr andThen_state_of beginReadOnlySnapshot_def writer_def ret_def raise_def split: if_splits)
  note T = keepsD [OF keeps_tree(5) 1(2)]
  have "set (dir_coords (st_world s1) dirs) = listed (tree s)"
    using set_dir_coords [of "st_world s1"] read_dir_children [OF 1(2)] same_tree(2) [OF T] T by (simp add: is_dir_def tree_def)
  then show "cs = take (nat n) (sorted_list_of_set (behind hasCursor cursor (listed (tree s)))) \<and>
      further = (nat n < card (behind hasCursor cursor (listed (tree s))))"
    using bounded_coords_spec [of "nat n", where xs = "dir_coords (st_world s1) dirs" and hasCursor = hasCursor and cursor = cursor] scan_directories_coords [OF 1(3)] 1
    by (simp add: behind_def)
qed

end
