(* ===== verification/EngineScan.thy ===== *)
theory EngineScan
  imports WorldRead StoreRead
begin

text \<open>
  The engine on top of the \<^verbatim>\<open>fs_split\<close> store.  \<open>fs_ops\<close> is the store as the engine sees it.  The scan of populated chunks
  (\<^verbatim>\<open>CHUNKSCAN\<close>) asks the store for windows of candidates until it has enough: the locale \<open>chunk_scanner\<close> states what it
  relies on, and its interpretation on the store gives that a scan ends and that it lists exactly the populated chunks.
\<close>

section \<open>The store behind the engine\<close>

definition cache_runtimeStats :: "chunkCache \<Rightarrow> RuntimeStats" where
  "cache_runtimeStats c =
     \<lparr>rs_ProcessLockMode = [], rs_ChunkLockMode = [], rs_CacheHits = cc_hits c, rs_CacheMisses = cc_misses c, rs_LoadedChunks = word_of_int (cc_loaded c),
      rs_DirtyChunks = 0, rs_Evictions = cc_evictions c, rs_EvictionRuns = cc_evictionRuns c, rs_WALFlushes = 0, rs_WALForegroundFlushes = 0,
      rs_WALGroupFlushes = 0, rs_WALEvictionFlushes = 0, rs_WALCheckpointFlushes = 0, rs_OpenWALHandles = 0, rs_Checkpoints = 0\<rparr>"

text \<open>The mode of the writer lock and the number of open log handles are those of the platform and the handle pool.\<close>

definition store_RuntimeStats :: "string \<Rightarrow> uint64 \<Rightarrow> Store \<Rightarrow> RuntimeStats" where
  "store_RuntimeStats guardMode openHandles s =
     (let stats = cache_runtimeStats (st_cache s)
      in stats\<lparr>rs_ProcessLockMode := (if o_ReadOnly (st_options s) then ''none'' else guardMode),
               rs_ChunkLockMode := ''shared-rwmutex'',
               rs_WALForegroundFlushes := st_walForegroundFlushes s,
               rs_WALGroupFlushes := st_walGroupFlushes s,
               rs_WALEvictionFlushes := 0,
               rs_WALCheckpointFlushes := st_walCheckpointFlushes s,
               rs_WALFlushes := st_walForegroundFlushes s + st_walGroupFlushes s + 0 + st_walCheckpointFlushes s,
               rs_OpenWALHandles := openHandles,
               rs_Checkpoints := st_checkpointCount s\<rparr>)"

definition fs_ops :: "string \<Rightarrow> uint64 \<Rightarrow> Store ChunkStore" where
  "fs_ops guardMode openHandles =
     \<lparr>cs_ReadChunk = \<lambda>c. andThen (ReadChunk c) (\<lambda>chunk. ret (Some chunk)), cs_ScanChunkCoords = ScanChunkCoords, cs_WriteChunk = WriteChunk,
      cs_RuntimeStats = store_RuntimeStats guardMode openHandles,
      cs_Versioned = Some \<lparr>vs_ChunkVersion = ChunkVersion, vs_CompareAndSwapChunk = CompareAndSwapChunk, vs_ConditionalWriteChunks = ConditionalWriteChunks\<rparr>,
      cs_FlushWAL = Some FlushWAL\<rparr>"

section \<open>The contract of a scanned store\<close>

text \<open>
  While the engine scans, the candidates \<open>A\<close> and the populated chunks \<open>pop\<close> stay what they are: a window is the next
  candidates in order, and a read tells whether a chunk is populated.
\<close>

locale chunk_scanner =
  fixes store :: "'s ChunkStore" and ok :: "'s \<Rightarrow> bool" and A :: "Coord set" and pop :: "Coord set"
  assumes finite_candidates: "finite A" and populated_candidates: "pop \<subseteq> A"
    and scan_ok: "ok s \<Longrightarrow> cs_ScanChunkCoords store h c n s = (r, s') \<Longrightarrow> ok s'"
    and scan_window_exact: "ok s \<Longrightarrow> cs_ScanChunkCoords store h c n s = (Inr (cs, further), s') \<Longrightarrow>
      cs = take (nat n) (sorted_list_of_set (behind h c A)) \<and> further = (nat n < card (behind h c A))"
    and read_ok: "ok s \<Longrightarrow> cs_ReadChunk store c s = (r', s') \<Longrightarrow> ok s'"
    and read_chunk: "ok s \<Longrightarrow> cs_ReadChunk store c s = (Inr found, s') \<Longrightarrow> \<exists>ch. found = Some ch \<and> (chunkPopulated ch \<longleftrightarrow> c \<in> pop)"
    and read_absent: "ok s \<Longrightarrow> cs_ReadChunk store c s = (Inl e, s') \<Longrightarrow> errors_is e ErrNotExist \<Longrightarrow> c \<notin> pop"
begin

definition storage_failure :: "Response \<Rightarrow> bool" where
  "storage_failure r \<longleftrightarrow> r = errorResponse ''STORAGE'' ''read failed'' \<or> r = errorResponse ''STORAGE'' ''scan failed''"

lemma readChunk_tells:
  assumes "en_store e = store" "ok s" "readChunk e c s = (r, s')"
  shows "ok s'" "r = Inr found \<Longrightarrow> (case found of None \<Rightarrow> True | Some ch \<Rightarrow> \<not> chunkPopulated ch) \<longleftrightarrow> c \<notin> pop"
proof -
  obtain a t where a: "cs_ReadChunk store c s = (a, t)" by fastforce
  have t: "s' = t" and r: "r = (case a of Inl err \<Rightarrow> if errors_is err ErrNotExist then Inr None else Inl err | Inr None \<Rightarrow> Inl [] | Inr (Some ch) \<Rightarrow> Inr (Some ch))"
    using assms(1,3) a by (auto simp: readChunk_def catch_def ret_def raise_def split: sum.splits option.splits if_splits)
  show "ok s'" using read_ok [OF assms(2) a] t by simp
  show "(case found of None \<Rightarrow> True | Some ch \<Rightarrow> \<not> chunkPopulated ch) \<longleftrightarrow> c \<notin> pop" if "r = Inr found"
    using that r read_chunk [OF assms(2)] read_absent [OF assms(2)] a by (cases a) (fastforce split: option.splits if_splits)+
qed

lemma window:
  assumes "en_store e = store"
  shows "ok s \<Longrightarrow> length coords \<le> limit \<Longrightarrow> scan_window e limit cands coords s = (r, s') \<Longrightarrow>
    ok s' \<and> ((\<exists>x. r = Inl x \<and> storage_failure x) \<or>
      (let all = coords @ filter (\<lambda>c. c \<in> pop) cands
       in if length all \<le> limit then r = Inr all else r = Inl (chunkScanResponse (take limit all) True)))"
proof (induction cands arbitrary: coords s)
  case (Cons c cands)
  obtain a t where a: "readChunk e c s = (a, t)" by fastforce
  note T = readChunk_tells [OF assms Cons.prems(1) a]
  show ?case
  proof (cases a)
    case (Inl err)
    then show ?thesis using Cons.prems(3) a T(1) by (auto simp: storage_failure_def)
  next
    case (Inr found)
    note F = T(2) [OF Inr]
    show ?thesis
    proof (cases "c \<in> pop")
      case False
      then show ?thesis using Cons.IH [OF T(1) Cons.prems(2)] Cons.prems(3) a Inr F by simp
    next
      case True
      then show ?thesis using Cons.IH [OF T(1), of "coords @ [c]"] Cons.prems a Inr F T(1)
        by (cases "length coords = limit") (auto simp: Let_def)
    qed
  qed
qed (auto simp: Let_def)

text \<open>The populated chunks are the populated candidates, in order.\<close>

lemma populated_sorted: "sorted_list_of_set (behind h c pop) = filter (\<lambda>x. x \<in> pop) (sorted_list_of_set (behind h c A))"
proof (rule sorted_distinct_set_unique)
  have f: "finite (behind h c A)" "finite (behind h c pop)"
    using finite_candidates finite_subset [OF populated_candidates] by (auto simp: behind_def)
  then show "set (sorted_list_of_set (behind h c pop)) = set (filter (\<lambda>x. x \<in> pop) (sorted_list_of_set (behind h c A)))"
    using populated_candidates by (auto simp: behind_def)
qed (simp_all add: sorted_wrt_filter)

lemma behind_rest:
  assumes "0 < k" "take k (sorted_list_of_set (behind h c A)) = cs" "cs \<noteq> []"
  shows "sorted_list_of_set (behind True (last cs) A) = drop k (sorted_list_of_set (behind h c A))"
    and "card (behind True (last cs) A) < card (behind h c A)"
proof -
  let ?L = "sorted_list_of_set (behind h c A)"
  have f: "finite (behind h c A)" "finite (behind True (last cs) A)" using finite_candidates by (auto simp: behind_def)
  define rest where "rest = drop k ?L"
  have L: "?L = cs @ rest" using assms(2) unfolding rest_def by (metis append_take_drop_id)
  have srt: "sorted_wrt (<) (cs @ rest)" using strict_sorted_list_of_set [of "behind h c A"] L by simp
  have lt: "x < last cs \<or> x = last cs" if "x \<in> set cs" for x
    using that srt by (cases cs rule: rev_cases) (auto simp: sorted_wrt_append)
  have gt: "last cs < x" if "x \<in> set rest" for x
    using that srt assms(3) by (auto simp: sorted_wrt_append)
  have "set (cs @ rest) = behind h c A" using L f(1) by (metis set_sorted_list_of_set)
  then have A: "x \<in> behind h c A \<longleftrightarrow> x \<in> set cs \<or> x \<in> set rest" for x by auto
  have lc: "last cs \<in> behind h c A" using A assms(3) by simp
  have B: "behind True (last cs) A = set rest"
  proof (intro equalityI subsetI)
    fix x assume x: "x \<in> behind True (last cs) A"
    then have "x \<in> behind h c A" using lc by (auto simp: behind_def)
    moreover have "x \<notin> set cs" using x lt [of x] by (auto simp: behind_def)
    ultimately show "x \<in> set rest" using A by blast
  next
    fix x assume "x \<in> set rest"
    then show "x \<in> behind True (last cs) A" using gt A [of x] by (auto simp: behind_def)
  qed
  show "sorted_list_of_set (behind True (last cs) A) = drop k ?L"
    unfolding B rest_def by (rule sorted_list_of_set.idem_if_sorted_distinct) simp_all
  have "behind True (last cs) A \<subset> behind h c A" using A B lc by (auto simp: behind_def)
  then show "card (behind True (last cs) A) < card (behind h c A)" by (rule psubset_card_mono [OF f(1)])
qed

text \<open>What a scan is to answer when \<open>all\<close> are the chunks it has and those that are left.\<close>

definition answered :: "nat \<Rightarrow> Coord list \<Rightarrow> (Response \<times> 's) option \<Rightarrow> bool" where
  "answered limit all result \<longleftrightarrow> (\<exists>r s'. result = Some (r, s') \<and> ok s' \<and>
     (storage_failure r \<or> r = chunkScanResponse (take limit all) (limit < length all)))"

text \<open>One turn of the loop answers, or goes on behind a later cursor with the same chunks in sight.\<close>

definition progress :: "'s Engine \<Rightarrow> nat \<Rightarrow> bool \<Rightarrow> Coord \<Rightarrow> Coord list \<Rightarrow> 's \<Rightarrow> bool" where
  "progress e limit h c coords s \<longleftrightarrow> (\<exists>c' coords' u. scan_loop e limit h c coords s = scan_loop e limit True c' coords' u \<and> ok u \<and>
     length coords' \<le> limit \<and> card (behind True c' A) < card (behind h c A) \<and>
     coords @ sorted_list_of_set (behind h c pop) = coords' @ sorted_list_of_set (behind True c' pop))"

lemma scan_turn_window:
  assumes "en_store e = store" "ok t" "length coords \<le> limit"
    and cs: "cs = take (limit + 1 - length coords) (sorted_list_of_set (behind h c A))" "further = (limit + 1 - length coords < card (behind h c A))" "cs \<noteq> []"
    and loop: "scan_loop e limit h c coords s = (case scan_window e limit cs coords t of (Inl x, u) \<Rightarrow> Some (x, u)
      | (Inr coords, u) \<Rightarrow> if \<not> further then Some (chunkScanResponse coords False, u) else scan_loop e limit True (last cs) coords u)"
  shows "answered limit (coords @ sorted_list_of_set (behind h c pop)) (scan_loop e limit h c coords s) \<or> progress e limit h c coords s"
proof -
  let ?P = "\<lambda>x. x \<in> pop" and ?k = "limit + 1 - length coords"
  obtain b u where b: "scan_window e limit cs coords t = (b, u)" by fastforce
  note W = window [OF assms(1-3) b]
  have k: "0 < ?k" using assms(3) by simp
  note R = behind_rest [OF k cs(1) [symmetric] cs(3)]
  have all: "sorted_list_of_set (behind h c pop) = filter ?P cs @ sorted_list_of_set (behind True (last cs) pop)"
    unfolding populated_sorted R(1) using cs(1) by (metis append_take_drop_id filter_append)
  consider (failure) x where "b = Inl x" "storage_failure x"
    | (full) "limit < length (coords @ filter ?P cs)" "b = Inl (chunkScanResponse (take limit (coords @ filter ?P cs)) True)"
    | (rest) "length (coords @ filter ?P cs) \<le> limit" "b = Inr (coords @ filter ?P cs)"
    using W by (fastforce simp: Let_def split: if_splits)
  then show ?thesis
  proof cases
    case failure
    then show ?thesis using loop b W by (auto simp: answered_def)
  next
    case full
    then show ?thesis using loop b W all by (auto simp: answered_def)
  next
    case rest
    show ?thesis
    proof (cases further)
      case True
      have "progress e limit h c coords s" unfolding progress_def
        by (intro exI [of _ "last cs"] exI [of _ "coords @ filter ?P cs"] exI [of _ u]) (use loop b rest True W R(2) all in auto)
      then show ?thesis by blast
    next
      case False
      then have "drop ?k (sorted_list_of_set (behind h c A)) = []" using cs(2) finite_candidates by (simp add: behind_def)
      then have "sorted_list_of_set (behind True (last cs) pop) = []" unfolding populated_sorted R(1) by simp
      then show ?thesis using loop b rest False W all by (simp add: answered_def)
    qed
  qed
qed

lemma scan_turn:
  assumes "en_store e = store" "ok s" "length coords \<le> limit"
  shows "answered limit (coords @ sorted_list_of_set (behind h c pop)) (scan_loop e limit h c coords s) \<or> progress e limit h c coords s"
proof -
  let ?k = "limit + 1 - length coords" and ?L = "sorted_list_of_set (behind h c A)"
  obtain a t where a: "cs_ScanChunkCoords store h c (int ?k) s = (a, t)" by fastforce
  have t: "ok t" by (rule scan_ok [OF assms(2) a])
  show ?thesis
  proof (cases a)
    case (Inl err)
    then show ?thesis using a t assms by (subst scan_loop.simps) (auto simp: answered_def storage_failure_def)
  next
    case (Inr w)
    obtain cs further where w: "w = (cs, further)" by fastforce
    have cs: "cs = take ?k ?L" "further = (?k < card (behind h c A))"
      using scan_window_exact [OF assms(2) a [unfolded Inr w]] by simp_all
    show ?thesis
    proof (cases "cs = []")
      case True
      then have "?L = []" using cs(1) assms(3) by (cases ?L) auto
      then show ?thesis using a t Inr w True assms populated_sorted [of h c] by (subst scan_loop.simps) (auto simp: answered_def)
    next
      case False
      show ?thesis by (rule scan_turn_window [OF assms(1) t assms(3) cs False]) (subst scan_loop.simps, use a Inr w False assms in auto)
    qed
  qed
qed

lemma scan_exact:
  assumes "en_store e = store"
  shows "ok s \<Longrightarrow> length coords \<le> limit \<Longrightarrow>
    answered limit (coords @ sorted_list_of_set (behind h c pop)) (scan_loop e limit h c coords s)"
proof (induction "card (behind h c A)" arbitrary: h c coords s rule: less_induct)
  case less
  show ?case using scan_turn [OF assms less.prems, of h c]
  proof
    assume "progress e limit h c coords s"
    then show ?thesis unfolding progress_def using less.hyps by metis
  qed
qed

end

section \<open>The store as a scanned store\<close>

definition populated :: "(Coord \<Rightarrow> chunk_view) \<Rightarrow> Coord set" where
  "populated D = {c. \<exists>v. D c = Inr (Some v)}"

definition scanned :: "Geometry \<Rightarrow> (Coord \<Rightarrow> chunk_view) \<Rightarrow> (path \<times> bytes) list \<times> path list \<Rightarrow> Store \<Rightarrow> bool" where
  "scanned g D t s \<longleftrightarrow> ready g D s \<and> writer s \<and> st_pending s = [] \<and> tree s = t"

lemma finite_listed: "finite (listed t)"
proof (rule finite_subset)
  show "listed t \<subseteq> the ` parseChunkFileName ` last ` fst ` set (fst t)"
    by (auto simp: listed_def image_iff) (metis fst_conv last.simps list.distinct(1) option.sel parseChunkFileName_iff)
qed simp

lemma populated_listed:
  assumes "scanned g D t s"
  shows "populated D \<subseteq> listed t"
proof
  fix c assume "c \<in> populated D"
  then obtain v where v: "D c = Inr (Some v)" by (auto simp: populated_def)
  have R: "ready g D s" "st_pending s = []" "t = (w_files (st_world s), w_dirs (st_world s))" using assms by (auto simp: scanned_def tree_def)
  have "content (st_world s) (chunkPath g c) \<noteq> None" using ready_file [OF R(1), of c] R(2) v by (auto simp: file_state_def chunk_files_def split: option.splits)
  moreover have "wf_world (st_world s)" using R(1) by (auto simp: ready_def inv_def Quiet_def base_def)
  ultimately have d: "\<not> is_dir (st_world s) (chunkPath g c)" "is_dir (st_world s) (butlast (chunkPath g c))" "chunkPath g c \<in> fst ` set (w_files (st_world s))"
    by (auto simp: wf_world_def content_def map_of_eq_None_iff)
  then show "c \<in> listed t" unfolding R(3) listed_def by (auto simp: chunkPath_def is_dir_def)
qed

lemma told_populated: "told g D c (Inr ch) \<Longrightarrow> chunkPopulated ch \<longleftrightarrow> c \<in> populated D"
  by (auto simp: told_def populated_def visible_def chunkPopulated_def emptyPresence_def list_ex_iff list_all_iff split: if_splits)

lemma scanned_looks: "scanned g D t s \<Longrightarrow> ready g D s' \<Longrightarrow> looks s s' \<Longrightarrow> tree s' = tree s \<Longrightarrow> scanned g D t s'"
  by (simp add: scanned_def looks_def sframe_def writer_def)

text \<open>A store that is scanned has its populated chunks among the candidates.\<close>

interpretation fs: chunk_scanner "fs_ops mode n" "scanned g D t" "listed t" "populated D \<inter> listed t" for mode n g D t
proof
  show "finite (listed t)" by (rule finite_listed)
  show "populated D \<inter> listed t \<subseteq> listed t" by blast
  fix s h c k r s' assume ok: "scanned g D t s"
  then have R: "ready g D s" "writer s" "tree s = t" by (simp_all add: scanned_def)
  have P: "c \<in> populated D \<inter> listed t \<longleftrightarrow> c \<in> populated D" for c using populated_listed [OF ok] by blast
  note S = ScanChunkCoords_live [OF R(1,2)]
  show "scanned g D t s'" if "cs_ScanChunkCoords (fs_ops mode n) h c k s = (r, s')"
    using S(1) [of h c k r s'] that scanned_looks [OF ok] by (auto simp: fs_ops_def)
  show "cs = take (nat k) (sorted_list_of_set (behind h c (listed t))) \<and> further = (nat k < card (behind h c (listed t)))"
    if "cs_ScanChunkCoords (fs_ops mode n) h c k s = (Inr (cs, further), s')" for cs further
    using S(2) [of h c k "Inr (cs, further)" s' cs further] that R(3) by (simp add: fs_ops_def)
  have read: "\<exists>x. ReadChunk c s = (x, s') \<and> r' = map_sum id Some x" if "cs_ReadChunk (fs_ops mode n) c s = (r', s')" for r'
    using that by (auto simp: fs_ops_def andThen_def catch_def raise_def ret_def split: prod.splits sum.splits)
  note L = ReadChunk_live [OF R(1,2)]
  show "scanned g D t s'" if "cs_ReadChunk (fs_ops mode n) c s = (r', s')" for r'
    using read [OF that] L keepsD [OF keeps_tree_ReadChunk] scanned_looks [OF ok] by blast
  show "\<exists>ch. found = Some ch \<and> (chunkPopulated ch \<longleftrightarrow> c \<in> populated D \<inter> listed t)" if red: "cs_ReadChunk (fs_ops mode n) c s = (Inr found, s')" for found
  proof -
    obtain x where x: "ReadChunk c s = (x, s')" "Inr found = map_sum id Some x" using read [OF red] by blast
    then show ?thesis unfolding P using L [OF x(1)] told_populated by (cases x) auto
  qed
  show "c \<notin> populated D \<inter> listed t" if red: "cs_ReadChunk (fs_ops mode n) c s = (Inl e, s')" and gone: "errors_is e ErrNotExist" for e
  proof -
    obtain x where x: "ReadChunk c s = (x, s')" "Inl e = map_sum id Some x" using read [OF red] by blast
    then show ?thesis unfolding P using L [OF x(1)] gone by (cases x) (auto simp: told_def populated_def)
  qed
qed

section \<open>The properties of scans\<close>

text \<open>The limit and the cursor that the arguments of a scan ask for.\<close>

definition scan_request :: "string list \<Rightarrow> (nat \<times> bool \<times> Coord) option" where
  "scan_request args =
     (if length args = 1 \<or> length args = 3 then
        case parseUint (args ! 0) of
          None \<Rightarrow> None
        | Some limit \<Rightarrow>
            if limit = 0 \<or> limit > maxWorldReadChunks then None
            else if length args = 1 then Some (unat limit, False, Coord 0 0)
            else (case parseCoord (drop 1 args) of Inl _ \<Rightarrow> None | Inr cursor \<Rightarrow> Some (unat limit, True, cursor))
      else None)"

lemma error_kinds: "resp_kind (errorResponse code detail) = responseError" "parseCoord args = Inl r \<Longrightarrow> resp_kind r = responseError"
  "fs.storage_failure r \<Longrightarrow> resp_kind r = responseError"
  by (auto simp: errorResponse_def parseCoord_def fs.storage_failure_def Let_def split: option.splits)

lemma cmd_chunkScan_cases:
  "(\<exists>r. cmd_chunkScan e args s = Some (r, s) \<and> resp_kind r = responseError \<and> scan_request args = None) \<or>
   (\<exists>limit h c. cmd_chunkScan e args s = scan_loop e limit h c [] s \<and> scan_request args = Some (limit, h, c))"
  by (auto simp: cmd_chunkScan_def scan_request_def Let_def error_kinds arityError_def split: option.split sum.split)

text \<open>
  (C5) A scan ends and is exact.  On a live store without pending publications, whatever faults the disk has during the
  scan, \<^verbatim>\<open>CHUNKSCAN\<close> returns, the store is as live as before, and unless the answer is an error it lists the first chunks
  with any block behind the cursor in ascending order, as many as the limit allows, none left out and none
  twice, and it gives a cursor exactly when there are more of them.
\<close>

theorem chunk_scan_exact:
  assumes "Live g D s" "writer s" "st_pending s = []" "en_store e = fs_ops mode n"
  shows "\<exists>r s'. cmd_chunkScan e args s = Some (r, s') \<and> Live g D s' \<and>
    (resp_kind r = responseError \<or> (\<exists>limit h c. scan_request args = Some (limit, h, c) \<and>
       (let all = sorted_list_of_set (behind h c (populated D)) in r = chunkScanResponse (take limit all) (limit < length all))))"
proof -
  have ok: "scanned g D (tree s) s" using assms(1-3) by (simp add: scanned_def ready_Live)
  have pop: "populated D \<inter> listed (tree s) = populated D" using populated_listed [OF ok] by blast
  from cmd_chunkScan_cases [of e args s] show ?thesis
  proof (elim disjE exE conjE)
    fix limit h c assume c: "cmd_chunkScan e args s = scan_loop e limit h c [] s" "scan_request args = Some (limit, h, c)"
    obtain r s' where r: "scan_loop e limit h c [] s = Some (r, s')" "scanned g D (tree s) s'"
      "fs.storage_failure r \<or> r = chunkScanResponse (take limit (sorted_list_of_set (behind h c (populated D)))) (limit < length (sorted_list_of_set (behind h c (populated D))))"
      using fs.scan_exact [OF assms(4) ok, of "[]" limit h c] unfolding fs.answered_def pop by auto
    then show ?thesis using c error_kinds(3) by (auto simp: scanned_def ready_Live)
  qed (use assms(1) in auto)
qed

text \<open>A data directory with the file of one chunk.\<close>

definition stocked_world :: world where
  "stocked_world = sample_world\<lparr>w_files := [(walPath, []), (chunkPath sample_geometry (Coord 1 2), encodeState sample_geometry (Coord 1 2) [5, 0] [1])],
     w_dirs := [butlast (chunkPath sample_geometry (Coord 1 2))]\<rparr>"

definition stocked_store :: Store where
  "stocked_store = new_store sample_geometry (completed None sample_options) (\<lambda>cap n. n) stocked_world"

definition stocked_view :: "Coord \<Rightarrow> chunk_view" where
  "stocked_view = (\<lambda>_. Inr None)(Coord 1 2 := Inr (Some ([5, 0], [1])))"

lemma stocked_files: "content stocked_world (chunkPath sample_geometry c) =
    (if c = Coord 1 2 then Some (encodeState sample_geometry (Coord 1 2) [5, 0] [1]) else None)"
  by (simp add: stocked_world_def content_def)

lemma stocked_file_state: "file_state sample_geometry (chunk_files sample_geometry stocked_world) = stocked_view"
proof
  fix c
  have "decode sample_geometry (Coord 1 2) (encodeState sample_geometry (Coord 1 2) [5, 0] [1]) = Inr sample_chunk"
    using decode_encodeState [OF wf_sample_chunk, of "Coord 1 2"] by (simp add: sample_chunk_def)
  then show "file_state sample_geometry (chunk_files sample_geometry stocked_world) c = stocked_view c"
    by (simp add: file_state_def chunk_files_def stocked_files stocked_view_def sample_chunk_def visible_def emptyPresence_def)
qed

lemma stocked_live: "Live sample_geometry stocked_view stocked_store" "writer stocked_store" "st_pending stocked_store = []"
proof -
  have f: "st_world stocked_store = stocked_world" "st_pending stocked_store = []" "st_geometry stocked_store = sample_geometry"
    "st_cache stocked_store = newChunkCache sample_geometry (cc_max (st_cache stocked_store))" "st_walRecords stocked_store = 0" "st_walBytes stocked_store = 0"
    by (simp_all add: stocked_store_def new_store_def newChunkCache_def)
  show "st_pending stocked_store = []" by (rule f)
  show "writer stocked_store" by (simp add: writer_def stocked_store_def new_store_def completed_def sample_options_def)
  have "wf_world stocked_world" by (auto simp: wf_world_def content_def is_dir_def stocked_world_def chunkPath_def walPath_def largeDirName_def split: if_splits)
  then have "base sample_geometry stocked_store" using wf_sample_geometry f
    by (auto simp: base_def stocked_store_def new_store_def grow_enough_def stocked_world_def sample_world_def)
  moreover have "quiet sample_geometry [] stocked_world"
    by (simp add: quiet_def stocked_world_def content_def wf_records_def wal_bytes_def small_def)
  ultimately have "Quiet sample_geometry [] (chunk_files sample_geometry stocked_world) stocked_store"
    by (simp add: Quiet_def f agree_def chunk_files_def)
  moreover have "disk_view sample_geometry [] (chunk_files sample_geometry stocked_world) = stocked_view"
    by (simp add: fun_eq_iff disk_view_def stocked_file_state)
  ultimately have "inv sample_geometry stocked_view stocked_store" unfolding inv_def by (auto simp: pend_ok_def f)
  moreover have "files_live sample_geometry stocked_view stocked_store" by (simp add: files_live_def f stocked_file_state)
  moreover have "cc_max (st_cache stocked_store) = 1"
    by (simp add: stocked_store_def new_store_def newChunkCache_def completed_def sample_options_def)
  moreover have opts: "o_CheckpointRecords (st_options stocked_store) = 2" "o_CheckpointBytes (st_options stocked_store) = 67108864"
    by (simp_all add: stocked_store_def new_store_def completed_def sample_options_def)
  have "\<not> checkpointRecordTrigger 2 \<le> 0" "\<not> sint (checkpointByteTrigger 67108864) \<le> 0" by code_simp+
  then have "\<not> checkpointDue stocked_store" by (simp add: checkpointDue_def opts f)
  moreover have "coh sample_geometry stocked_view stocked_store"
    using calculation(3) newChunkCache_inv [of sample_geometry 1] unfolding coh_def by (subst (1 2 3 4 5) f(4)) (simp add: newChunkCache_def)
  ultimately show "Live sample_geometry stocked_view stocked_store" by (simp add: Live_def)
qed


theorem chunk_scan_exact_witness:
  "\<exists>r s'. cmd_chunkScan \<lparr>en_geometry = sample_geometry, en_store = fs_ops ''flock'' 1, en_token = [], en_auth = False\<rparr> [''1''] stocked_store = Some (r, s') \<and>
     (resp_kind r = responseError \<or> r = chunkScanResponse [Coord 1 2] False)"
proof -
  let ?e = "\<lparr>en_geometry = sample_geometry, en_store = fs_ops ''flock'' 1, en_token = [], en_auth = False\<rparr>"
  have "en_store ?e = fs_ops ''flock'' 1" by simp
  note t = chunk_scan_exact [OF stocked_live this, of "[''1'']"]
  have "dec_digits 1 = ''1''" "validDecimal ''1'' False" by code_simp+
  then have "parseUint ''1'' = Some 1" using ParseUint_dec_digits [of 1] by (simp add: parseUint_def)
  then have "scan_request [''1''] = Some (1, False, Coord 0 0)" by (simp add: scan_request_def maxWorldReadChunks_def)
  moreover have "behind False c (populated stocked_view) = {Coord 1 2}" for c by (auto simp: behind_def populated_def stocked_view_def split: if_splits)
  ultimately show ?thesis using t by (auto simp: Let_def)
qed

section \<open>World reads on the store\<close>

text \<open>The store hands out chunks of its geometry, from every state whose cache was made for that geometry.\<close>

definition one_geometry :: "Geometry \<Rightarrow> Store \<Rightarrow> bool" where
  "one_geometry g s \<longleftrightarrow> wf_geometry g \<and> st_geometry s = g \<and> cc_geometry (st_cache s) = g"

definition geometries :: "Store \<Rightarrow> Geometry \<times> Geometry" where
  "geometries s = (st_geometry s, cc_geometry (st_cache s))"

lemma putState_geometry: "cc_geometry (snd (putState k p q c)) = cc_geometry c"
proof -
  have "cc_geometry (snd (candidate_loop n c)) = cc_geometry c" for n c
    by (induction n c rule: candidate_loop.induct) (simp_all add: Let_def)
  then have "cc_geometry (snd (evictionCandidate c)) = cc_geometry c" by (simp add: evictionCandidate_def)
  then show ?thesis
    by (auto simp: putState_def Let_def scheduleMaintenance_def takeFreeEntry_def admit_def finish_task_def split: option.split prod.split)
qed

lemma cache_get_geometry: "cc_geometry (snd (cache_get k c)) = cc_geometry c"
  by (auto simp: cache_get_def Let_def split: option.split sum.split)

lemma keeps_geometries [stills]: "keeps geometries (on_world m)" "keeps geometries (cache_put k a b)" "keeps geometries (cache_look k)"
  using putState_geometry [of k a b] cache_get_geometry [of k]
  by (auto simp: keeps_def geometries_def on_world_def cache_put_def cache_look_def split: prod.split) (metis snd_conv)+

lemma keeps_geometries_ReadChunk: "keeps geometries (ReadChunk c)"
  unfolding ReadChunk_def readChunkFile_def readChunkFile_body_def beginReadOnlySnapshot_def finishReadOnlySnapshot_def readSnapshotGeneration_def Let_def
  by (intro stills)

lemma cache_get_sizes:
  assumes "wf_geometry (cc_geometry c)" "cache_get k c = (Inr (Some ch), c')"
  shows "wf_chunk ch \<and> chunk_geometry ch = cc_geometry c"
  using assms(2) ChunkFromState_Inr(1,2) [OF assms(1)] by (auto simp: cache_get_def Let_def split: option.splits sum.splits)

lemma readChunkFile_sized:
  assumes "wf_geometry (st_geometry s)" "readChunkFile c s = (Inr ch, s')"
  shows "wf_chunk ch \<and> chunk_geometry ch = st_geometry s"
proof -
  obtain t u where t: "on_world (os_open (chunkPath (st_geometry s) c)) s = (Inr (), t)" "readChunkFile_body (chunkPath (st_geometry s) c) c t = (Inr ch, u)"
    using assms(2) by (auto simp: readChunkFile_def andThen_def catch_def state_of_def raise_def ignore_def ret_def split: prod.splits sum.splits)
  have g: "st_geometry t = st_geometry s" using t(1) by (auto simp: on_world_def split: prod.splits)
  obtain d where "decode (st_geometry t) c d = Inr ch"
    using t(2) by (auto simp: readChunkFile_body_def andThen_def catch_def state_of_def raise_def ret_def lift_result_def split: prod.splits sum.splits if_splits)
  then show ?thesis using decode_wf [of "st_geometry t"] assms(1) g by auto
qed

lemma one_geometry_keep: "keeps geometries m \<Longrightarrow> triple (one_geometry g) m (\<lambda>_. one_geometry g)"
  by (rule tripleI) (auto simp: one_geometry_def geometries_def dest: keepsD)

lemma cache_look_sized:
  "triple (one_geometry g) (if b then cache_look c else ret None)
     (\<lambda>r s. one_geometry g s \<and> (\<forall>ch. r = Inr (Some ch) \<longrightarrow> wf_chunk ch \<and> chunk_geometry ch = g))"
proof (cases b)
  case True
  have "wf_chunk ch \<and> chunk_geometry ch = g" if "one_geometry g t" "cache_look c t = (Inr (Some ch), t')" for t t' ch
    using that cache_get_sizes [of "st_cache t" c ch] by (auto simp: one_geometry_def cache_look_def split: prod.splits)
  then show ?thesis using tripleD [OF one_geometry_keep [OF keeps_geometries(3)]] True by (auto intro!: tripleI)
qed (simp add: triple_def ret_def)

lemma ReadChunk_sized:
  "triple (one_geometry g) (ReadChunk c) (\<lambda>r s. \<forall>ch. r = Inr ch \<longrightarrow> wf_chunk ch \<and> chunk_geometry ch = g)" (is "triple ?P _ ?Q")
  unfolding ReadChunk_def
proof (rule triple_observe, unfold id_apply)
  fix s assume s: "?P s"
  then have g: "wf_geometry g" "st_geometry s = g" by (simp_all add: one_geometry_def)
  have fin: "triple R (andThen (finishReadOnlySnapshot n) (\<lambda>_. ret ch)) ?Q" if "wf_chunk ch \<and> chunk_geometry ch = g" for R n ch
    using that by (auto simp: triple_def andThen_def catch_def raise_def ret_def split: prod.split sum.split)
  have err: "triple R (andThen (finishReadOnlySnapshot n) (\<lambda>_. raise e)) ?Q" for R n e
    by (auto simp: triple_def andThen_def catch_def raise_def split: prod.split sum.split)
  have read: "triple ?P (readChunkFile c) ?Q"
    by (rule tripleI) (use readChunkFile_sized in \<open>auto simp: one_geometry_def\<close>)
  have body: "triple ?P (catch (readChunkFile c) (\<lambda>err. andThen (finishReadOnlySnapshot n) (\<lambda>_. raise err))
       (\<lambda>chunk. andThen (finishReadOnlySnapshot n) (\<lambda>_. ret chunk))) ?Q" for n
    by (rule triple_catch [OF read err]) (rule triple_pre, rule fin, simp)
  have miss: "triple ?P (andThen beginReadOnlySnapshot (\<lambda>n. catch (readChunkFile c) (\<lambda>err. andThen (finishReadOnlySnapshot n) (\<lambda>_. raise err))
       (\<lambda>chunk. andThen (finishReadOnlySnapshot n) (\<lambda>_. ret chunk)))) ?Q"
    by (rule triple_andThen [OF one_geometry_keep body]) (simp_all add: beginReadOnlySnapshot_def readSnapshotGeneration_def stills)
  have rest: "triple ?P (andThen (if b then cache_look c else ret None) (\<lambda>found. case found of Some chunk \<Rightarrow> ret chunk
     | None \<Rightarrow> andThen beginReadOnlySnapshot (\<lambda>n. catch (readChunkFile c) (\<lambda>err. andThen (finishReadOnlySnapshot n) (\<lambda>_. raise err))
       (\<lambda>chunk. andThen (finishReadOnlySnapshot n) (\<lambda>_. ret chunk))))) ?Q" for b
  proof (rule triple_andThen [OF cache_look_sized])
    fix x :: "Chunk option"
    show "triple (\<lambda>s. ?P s \<and> (\<forall>ch. Inr x = Inr (Some ch) \<longrightarrow> wf_chunk ch \<and> chunk_geometry ch = g)) (case x of Some chunk \<Rightarrow> ret chunk
     | None \<Rightarrow> andThen beginReadOnlySnapshot (\<lambda>n. catch (readChunkFile c) (\<lambda>err. andThen (finishReadOnlySnapshot n) (\<lambda>_. raise err))
       (\<lambda>chunk. andThen (finishReadOnlySnapshot n) (\<lambda>_. ret chunk)))) ?Q"
      using miss by (cases x) (auto simp: triple_def ret_def)
  qed simp
  show "triple ?P (if st_closed s then raise [] else case map_of (st_pending s) c of
       Some pending \<Rightarrow> lift_result (ChunkFromState (st_geometry s) (pp_payload pending) (pp_presence pending))
     | None \<Rightarrow> andThen (if \<not> o_ReadOnly (st_options s) then cache_look c else ret None) (\<lambda>found. case found of Some chunk \<Rightarrow> ret chunk
         | None \<Rightarrow> andThen beginReadOnlySnapshot (\<lambda>n. catch (readChunkFile c) (\<lambda>err. andThen (finishReadOnlySnapshot n) (\<lambda>_. raise err))
             (\<lambda>chunk. andThen (finishReadOnlySnapshot n) (\<lambda>_. ret chunk))))) ?Q"
  proof (cases "st_closed s")
    case open_: False
    show ?thesis
    proof (cases "map_of (st_pending s) c")
      case None
      then show ?thesis using open_ rest [of "\<not> o_ReadOnly (st_options s)"] by simp
    next
      case (Some p)
      then show ?thesis using open_ g ChunkFromState_Inr(1,2) [OF g(1)] by (simp add: triple_def lift_result_def)
    qed
  qed (simp add: triple_def raise_def)
qed

interpretation world: sized_store "\<lparr>en_geometry = g, en_store = fs_ops mode n, en_token = token, en_auth = auth\<rparr>" "one_geometry g" for g mode n token auth
proof
  fix s c s' assume ok: "one_geometry g s"
  show "wf_geometry (en_geometry \<lparr>en_geometry = g, en_store = fs_ops mode n, en_token = token, en_auth = auth\<rparr>)" using ok by (simp add: one_geometry_def)
  have read: "\<exists>x. ReadChunk c s = (x, s') \<and> r = map_sum id Some x"
    if "cs_ReadChunk (en_store \<lparr>en_geometry = g, en_store = fs_ops mode n, en_token = token, en_auth = auth\<rparr>) c s = (r, s')" for r
    using that by (auto simp: fs_ops_def andThen_def catch_def raise_def ret_def split: prod.splits sum.splits)
  show "one_geometry g s'"
    if "cs_ReadChunk (en_store \<lparr>en_geometry = g, en_store = fs_ops mode n, en_token = token, en_auth = auth\<rparr>) c s = (r, s')" for r
    using read [OF that] keepsD [OF keeps_geometries_ReadChunk] ok by (fastforce simp: one_geometry_def geometries_def)
  show "length (chunk_payload chunk) = payloadBytes (en_geometry \<lparr>en_geometry = g, en_store = fs_ops mode n, en_token = token, en_auth = auth\<rparr>) \<and>
      length (chunk_presence chunk) = presenceBytes (en_geometry \<lparr>en_geometry = g, en_store = fs_ops mode n, en_token = token, en_auth = auth\<rparr>)"
    if red: "cs_ReadChunk (en_store \<lparr>en_geometry = g, en_store = fs_ops mode n, en_token = token, en_auth = auth\<rparr>) c s = (Inr (Some chunk), s')" for chunk
  proof -
    obtain x where "ReadChunk c s = (x, s')" "Inr (Some chunk) = map_sum id Some x" using read [OF red] by blast
    then have "ReadChunk c s = (Inr chunk, s')" by (cases x) auto
    from tripleD [OF ReadChunk_sized ok this] show ?thesis using wf_chunk_lengths [of chunk] by simp
  qed
qed

text \<open>
  (C35) A world read on the store never answers with more than 64 MiB.  Whatever the arguments, the files, the faults of the disk
  and the number of chunks of the shape are, the response of \<^verbatim>\<open>CHUNKRANGE\<close> and of \<^verbatim>\<open>CHUNKRADIUS\<close> takes at most 67108864 bytes on the wire,
  array header and item headers included: the size that the code adds up in 64-bit words is the size of the encoded response and
  does not wrap around.  The engine and the cache of its store were made for the geometry of the store, as \<^verbatim>\<open>Open\<close> makes them.
\<close>

theorem world_read_bounded:
  assumes "en_store e = fs_ops mode n" "wf_geometry (en_geometry e)" "st_geometry s = en_geometry e" "cc_geometry (st_cache s) = en_geometry e"
  shows "length (response_Bytes (fst (cmd_chunkRange e args s))) \<le> 67108864 \<and> length (response_Bytes (fst (cmd_chunkRadius e args s))) \<le> 67108864"
proof -
  have e: "e = \<lparr>en_geometry = en_geometry e, en_store = fs_ops mode n, en_token = en_token e, en_auth = en_auth e\<rparr>" using assms(1) by (cases e) simp
  have "one_geometry (en_geometry e) s" using assms(2-4) by (simp add: one_geometry_def)
  then show ?thesis
    using world.world_reads_fit [of "en_geometry e" mode n "en_token e" "en_auth e" args, unfolded world.fits_def, folded e] by blast
qed

theorem world_read_bounded_witness:
  "let e = \<lparr>en_geometry = sample_geometry, en_store = fs_ops ''flock'' 1, en_token = [], en_auth = False\<rparr>
   in length (response_Bytes (fst (cmd_chunkRange e [''0'', ''0'', ''9'', ''9''] stocked_store))) \<le> 67108864 \<and>
      length (response_Bytes (fst (cmd_chunkRadius e [''0'', ''0'', ''8''] stocked_store))) \<le> 67108864"
proof -
  let ?e = "\<lparr>en_geometry = sample_geometry, en_store = fs_ops ''flock'' 1, en_token = [], en_auth = False\<rparr>"
  have "wf_geometry (en_geometry ?e)" "st_geometry stocked_store = en_geometry ?e" "cc_geometry (st_cache stocked_store) = en_geometry ?e"
    using wf_sample_geometry by (simp_all add: stocked_store_def new_store_def newChunkCache_def)
  from world_read_bounded [OF _ this, of "''flock''" 1] show ?thesis by (simp add: Let_def)
qed

end
