(* ===== verification/StoreClean.thy ===== *)
theory StoreClean
  imports StoreRead
begin

text \<open>
  Absent blocks read as zero.  A chunk is clean when its absent blocks have the value zero; the engine writes clean chunks only
  (\<^verbatim>\<open>protocol/engine.go\<close> clears the payload of absent blocks, \<^verbatim>\<open>Chunk.Unset\<close> clears the one it removes).  The contents of the
  directory do not tell a chunk without blocks from no chunk, since a checkpoint removes it; so what the memory and the files of the
  store hold for such a chunk is an invariant of its own, which every read and every write keeps under any fault.
\<close>

section \<open>Clean chunks\<close>

definition clean :: "Chunk \<Rightarrow> bool" where
  "clean ch \<longleftrightarrow> (\<forall>off. chunk_Exists ch off = Inr False \<longrightarrow> chunk_Get ch off = Inr 0)"

lemma codec_Get_zero:
  assumes "wf_codec c" "codec_Get c (replicate n 0) index = Inr v"
  shows "v = 0"
proof (cases "codec_fieldStart c (replicate n 0) index")
  case (Inl e)
  then show ?thesis using assms(2) by (simp add: codec_Get_Inl)
next
  case (Inr start)
  note f = codec_fieldStart_Inr [OF assms(1) Inr]
  have "\<not> field_bit c (replicate n 0) (unat index * unat (codec_width c) + field_pos c i)" if "i < unat (codec_width c)" for i
  proof -
    have "(unat index * unat (codec_width c) + field_pos c i) div 8 < n" using f(1,3) field_pos_less [OF that] by simp
    then show ?thesis by (simp add: field_bit_def)
  qed
  then show ?thesis using codec_Get_bits [OF assms(1) Inr] assms(2) by (auto simp: bit_eq_iff)
qed

lemma clean_NewChunk:
  assumes "wf_geometry g" "NewChunk g = Inr ch"
  shows "clean ch"
proof -
  have w: "wf_chunk ch" by (rule NewChunk_wf [OF assms])
  have p: "chunk_payload ch = replicate (payloadBytes g) 0" using assms(2) by (auto simp: NewChunk_eq [OF assms(1)])
  have "chunk_Get ch off = Inr 0" if there: "chunk_Exists ch off = Inr b" for off b
  proof -
    obtain i where i: "chunk_index ch off = Inr i" using there by (auto simp: chunk_Exists_def split: sum.splits)
    then obtain st where "codec_fieldStart (chunk_codec ch) (chunk_payload ch) i = Inr st" using chunk_field_start [OF w] by blast
    then obtain v where v: "codec_Get (chunk_codec ch) (chunk_payload ch) i = Inr v" using codec_Get_eq [OF wf_chunk_codec(1) [OF w]] by simp
    then show ?thesis using codec_Get_zero [OF wf_chunk_codec(1) [OF w], of "payloadBytes g" i v] i by (simp add: p chunk_Get_def)
  qed
  then show ?thesis unfolding clean_def by blast
qed

lemma clean_edits:
  assumes "wf_chunk ch" "clean ch"
  shows "chunk_Set ch off v = Inr ch' \<Longrightarrow> clean ch'" "chunk_Unset ch off = Inr ch' \<Longrightarrow> clean ch'"
  using assms(2) chunk_Set_Inr(3,4) [OF assms(1)] chunk_Unset_Inr(3,4) [OF assms(1)] by (auto simp: clean_def)

definition fair :: "Geometry \<Rightarrow> chunk_state \<Rightarrow> bool" where
  "fair g v \<longleftrightarrow> (\<forall>ch. ChunkFromState g (fst v) (snd v) = Inr ch \<longrightarrow> emptyPresence (snd v) \<longrightarrow> clean ch)"

lemma fair_chunk:
  assumes "wf_chunk ch" "chunk_geometry ch = g"
  shows "fair g (chunk_payload ch, chunk_presence ch) \<longleftrightarrow> (emptyPresence (chunk_presence ch) \<longrightarrow> clean ch)"
  using ChunkFromState_wf_chunk [OF assms(1)] assms(2) by (simp add: fair_def)

lemma clean_fair: "wf_chunk ch \<Longrightarrow> chunk_geometry ch = g \<Longrightarrow> clean ch \<Longrightarrow> fair g (chunk_payload ch, chunk_presence ch)"
  by (simp add: fair_chunk)

lemma populated_fair: "\<not> emptyPresence (snd v) \<Longrightarrow> fair g v"
  by (simp add: fair_def)

text \<open>No chunk that the directory shows has a value in an absent block.\<close>

definition blank :: "Geometry \<Rightarrow> (Coord \<Rightarrow> chunk_view) \<Rightarrow> bool" where
  "blank g D \<longleftrightarrow> (\<forall>c p q ch. D c = Inr (Some (p, q)) \<longrightarrow> ChunkFromState g p q = Inr ch \<longrightarrow> clean ch)"

lemma blank_update:
  assumes "blank g D" "wf_chunk ch" "chunk_geometry ch = g" "clean ch"
  shows "blank g (D(c := Inr (visible (chunk_payload ch, chunk_presence ch))))"
  using assms(1,3,4) ChunkFromState_wf_chunk [OF assms(2)] by (auto simp: blank_def visible_def split: if_splits)

lemma shown_clean:
  assumes "blank g D" "told g D c (Inr ch)" "fair g (chunk_payload ch, chunk_presence ch)"
  shows "clean ch"
proof -
  have t: "wf_chunk ch" "chunk_geometry ch = g" "D c = Inr (visible (chunk_payload ch, chunk_presence ch))" using assms(2) by (simp_all add: told_def)
  show ?thesis
  proof (cases "emptyPresence (chunk_presence ch)")
    case True
    then show ?thesis using fair_chunk [OF t(1,2)] assms(3) by simp
  next
    case False
    then have "D c = Inr (Some (chunk_payload ch, chunk_presence ch))" using t(3) by (simp add: visible_def)
    then show ?thesis using assms(1) ChunkFromState_wf_chunk [OF t(1)] t(2) unfolding blank_def by metis
  qed
qed

section \<open>The invariant\<close>

definition Fair :: "Geometry \<Rightarrow> Store \<Rightarrow> bool" where
  "Fair g s \<longleftrightarrow> wf_geometry g \<and> st_geometry s = g \<and> cache_inv (st_cache s) \<and> 0 < cc_max (st_cache s) \<and> cc_geometry (st_cache s) = g \<and>
     (\<forall>c v. cache_content (st_cache s) c = Some v \<longrightarrow> fair g v) \<and>
     (\<forall>(c, p)\<in>set (st_pending s). stored g (pp_payload p, pp_presence p) \<and> fair g (pp_payload p, pp_presence p)) \<and>
     (\<forall>c d ch. content (st_world s) (chunkPath g c) = Some d \<longrightarrow> decode g c d = Inr ch \<longrightarrow> fair g (chunk_payload ch, chunk_presence ch))"

abbreviation fairly :: "Geometry \<Rightarrow> 'a sop \<Rightarrow> bool" where
  "fairly g m \<equiv> triple (Fair g) m (\<lambda>_. Fair g)"

named_theorems fairs \<open>operations that keep what the store holds fair\<close>

lemma fairly_basic [fairs]: "fairly g (ret x)" "fairly g (raise e)" "fairly g (state_of f)" "fairly g (lift_result y)"
  by (simp_all add: triple_def ret_def raise_def state_of_def lift_result_def)

lemma fairly_catch [fairs]: "fairly g m \<Longrightarrow> (\<And>e. fairly g (h e)) \<Longrightarrow> (\<And>x. fairly g (f x)) \<Longrightarrow> fairly g (catch m h f)"
  by (rule triple_catch)

lemma fairly_andThen [fairs]: "fairly g m \<Longrightarrow> (\<And>x. fairly g (f x)) \<Longrightarrow> fairly g (andThen m f)"
  by (rule triple_andThen)

lemma fairly_ignore [fairs]: "fairly g m \<Longrightarrow> fairly g (ignore m)"
  by (rule triple_ignore)

lemma fairly_if [fairs]: "(b \<Longrightarrow> fairly g m) \<Longrightarrow> (\<not> b \<Longrightarrow> fairly g n) \<Longrightarrow> fairly g (if b then m else n)"
  by simp

lemma fairly_option [fairs]: "fairly g m \<Longrightarrow> (\<And>a. fairly g (f a)) \<Longrightarrow> fairly g (case x of None \<Rightarrow> m | Some a \<Rightarrow> f a)"
  by (cases x) simp_all

lemma fairly_prod [fairs]: "(\<And>a b. fairly g (f a b)) \<Longrightarrow> fairly g (case x of (a, b) \<Rightarrow> f a b)"
  by (cases x) simp

lemma fairly_for_each: "(\<And>x. x \<in> set xs \<Longrightarrow> fairly g (f x)) \<Longrightarrow> fairly g (for_each xs f)"
  by (rule triple_for_each)

lemma fairly_observe: "(\<And>s. Fair g s \<Longrightarrow> fairly g (f (h s))) \<Longrightarrow> fairly g (andThen (state_of h) f)"
  by (rule triple_observe)

text \<open>An operation that touches no chunk file, no cached chunk and no pending publication.\<close>

lemma fairly_keep:
  assumes "still m" "tame g X m" "\<And>c. chunkPath g c \<notin> X"
  shows "fairly g m"
proof (rule tripleI)
  fix s r s' assume F: "Fair g s" and m: "m s = (r, s')"
  then have g: "st_geometry s = g" by (simp add: Fair_def)
  have f: "sframe X s s'" by (rule tameD [OF assms(2) g m])
  have "content (st_world s') (chunkPath g c) = content (st_world s) (chunkPath g c)" for c
    by (rule sframe_content [OF f assms(3)]) simp
  then show "Fair g s'" using F f stillD [OF assms(1) m] sframe_pending [OF f] by (auto simp: Fair_def sframe_def)
qed

lemma fairly_world: "tame g X (on_world m) \<Longrightarrow> (\<And>c. chunkPath g c \<notin> X) \<Longrightarrow> fairly g (on_world m)"
  by (rule fairly_keep [OF still_on_world])

lemma fairly_update: "(\<And>s. Fair g s \<Longrightarrow> Fair g (f s)) \<Longrightarrow> fairly g (update f)"
  by (simp add: triple_def update_def)

lemma fairly_forget [fairs]: "fairly g (cache_forget c)"
  unfolding cache_forget_def
proof (rule fairly_update)
  fix s assume F: "Fair g s"
  then show "Fair g (s\<lparr>st_cache := cache_remove c (st_cache s)\<rparr>)"
    using cache_remove_spec [of "st_cache s" c] by (auto simp: Fair_def split: if_splits)
qed

lemma fairly_cache_put: "fair g (a, b) \<Longrightarrow> fairly g (cache_put c a b)"
proof (rule tripleI)
  fix s r s' assume v: "fair g (a, b)" and F: "Fair g s" and m: "cache_put c a b s = (r, s')"
  obtain k where k: "putState c a b (st_cache s) = (r, k)" "s' = s\<lparr>st_cache := k\<rparr>" using m by (auto simp: cache_put_def split: prod.splits)
  show "Fair g s'"
  proof (cases r)
    case (Inl e)
    then show ?thesis using putState_rejected [of c a b "st_cache s" e k] k F by simp
  next
    case (Inr u)
    have "state_fits (st_cache s) (a, b)" using putState_fits [of c a b "st_cache s" k] k(1) Inr by simp
    then have "put_effect c a b (st_cache s) r k"
      using putState_spec [of "st_cache s" a b c] F k(1) by (simp add: state_fits_def Fair_def)
    then show ?thesis using F v unfolding k(2) Fair_def put_effect_def by (auto split: if_splits)
  qed
qed

lemma fairly_cache_look [fairs]: "fairly g (cache_look c)"
proof (rule tripleI)
  fix s r s' assume F: "Fair g s" and m: "cache_look c s = (r, s')"
  obtain k where "cache_get c (st_cache s) = (r, k)" "s' = s\<lparr>st_cache := k\<rparr>" using m by (auto simp: cache_look_def split: prod.splits)
  then show "Fair g s'" using cache_get_spec [of "st_cache s" c r k] F by (simp add: Fair_def)
qed

section \<open>Chunk files\<close>

lemma Fair_file: "Fair g s \<Longrightarrow> content (st_world s) (chunkPath g c) = Some d \<Longrightarrow> decode g c d = Inr ch \<Longrightarrow> fair g (chunk_payload ch, chunk_presence ch)"
  unfolding Fair_def by blast

lemma Fair_world:
  assumes "Fair g s" "\<And>c d ch. content w' (chunkPath g c) = Some d \<Longrightarrow> decode g c d = Inr ch \<Longrightarrow> fair g (chunk_payload ch, chunk_presence ch)"
  shows "Fair g (s\<lparr>st_world := w'\<rparr>)"
  using assms by (simp add: Fair_def)

text \<open>A chunk file is replaced as a whole, or removed.\<close>

lemma fairly_writeAtomic:
  assumes "\<And>ch. decode g c d = Inr ch \<Longrightarrow> fair g (chunk_payload ch, chunk_presence ch)"
  shows "fairly g (on_world (writeAtomic (chunkPath g c) d b))"
proof (rule tripleI)
  fix s r s' assume F: "Fair g s" and m: "on_world (writeAtomic (chunkPath g c) d b) s = (r, s')"
  then obtain w' where w: "writeAtomic (chunkPath g c) d b (st_world s) = (r, w')" "s' = s\<lparr>st_world := w'\<rparr>" by (auto simp: on_world_def split: prod.splits)
  note W = writeAtomic_eff [OF not_temporary_chunk(1) w(1)]
  have "content w' (chunkPath g k) = content (st_world s) (chunkPath g k) \<or> k = c \<and> content w' (chunkPath g k) = Some d" for k
  proof (cases "chunkPath g k = chunkPath g c")
    case True
    then have "k = c" by (rule chunkPath_inject [THEN iffD1])
    then show ?thesis using W(2) by blast
  next
    case False
    then show ?thesis using frame_content [OF W(1), of "chunkPath g k"] by simp
  qed
  then have "fair g (chunk_payload ch, chunk_presence ch)" if "content w' (chunkPath g k) = Some e" "decode g k e = Inr ch" for k e ch
    using that Fair_file [OF F, of k e ch] assms by (metis option.inject)
  then show "Fair g s'" unfolding w(2) by (rule Fair_world [OF F])
qed

lemma fairly_rename:
  assumes "temporary t"
  shows "fairly g (on_world (os_rename p t))"
proof (rule tripleI)
  fix s r s' assume F: "Fair g s" and m: "on_world (os_rename p t) s = (r, s')"
  then obtain w' where w: "os_rename p t (st_world s) = (r, w')" "s' = s\<lparr>st_world := w'\<rparr>" by (auto simp: on_world_def split: prod.splits)
  have E: "content w' q = content (st_world s) q \<or> content w' q = None" if "q \<noteq> t" for q
  proof (cases r)
    case (Inl e)
    then show ?thesis using os_rename_content(2) [OF w(1) Inl] by simp
  next
    case (Inr u)
    then have "content w' = (content (st_world s))(p := None, t := content (st_world s) p)"
      using os_rename_content(1) [OF w(1)] by simp
    then show ?thesis using that by simp
  qed
  have "chunkPath g c \<noteq> t" for c using assms not_temporary_chunk(1) [of g c] by auto
  note E = E [OF this]
  have "fair g (chunk_payload ch, chunk_presence ch)" if "content w' (chunkPath g c) = Some d" "decode g c d = Inr ch" for c d ch
    using that Fair_file [OF F, of c d ch] E [of c] by auto
  then show "Fair g s'" unfolding w(2) by (rule Fair_world [OF F])
qed

lemma fairly_replaceFile: "temporary t \<Longrightarrow> fairly g (on_world (replaceFile p t))"
  unfolding replaceFile_eq by (rule fairly_rename)

lemma fairly_removeTemporary: "temporary t \<Longrightarrow> fairly g (on_world (os_remove t))"
  by (rule fairly_world [where X = "{}"], intro tame_on_world harmless_os_writes) simp_all

lemma fairly_reads [fairs]:
  "fairly g (on_world (os_stat p))" "fairly g (on_world (os_read p))" "fairly g (on_world (os_noop k))" "fairly g (on_world (os_open p))"
  "fairly g (on_world (os_size p))" "fairly g (on_world (os_mkdir_all p))" "fairly g (on_world (commit_directory p))" "fairly g acquire_wal"
  by (rule fairly_keep [where X = "{}"], intro stills, intro tames, simp)+

lemma fairly_bookkeeping [fairs]:
  "fairly g (pendingSync_add p)" "fairly g (pendingSync_delete p)" "fairly g (reportPostCommitFailure ev)"
  by (rule fairly_keep [where X = "{}"], intro stills, intro tames, simp)+

lemma fairly_tombstone: "temporary t \<Longrightarrow> fairly g (tombstone c p t)"
  unfolding tombstone_def bury_def by (intro fairs fairly_replaceFile fairly_removeTemporary)

lemma fairly_collect: "fairly g (collectEmptyChunk c)"
  unfolding collectEmptyChunk_eq
proof (rule fairly_observe)
  fix s assume "Fair g s"
  let ?p = "chunkPath (st_geometry s) c"
  have make: "triple (Fair g) (on_world (createTemporaryFile (butlast ?p) (chunkTemporaryPrefix @ ''gc-''))) (\<lambda>r s. Fair g s \<and> (\<forall>t. r = Inr t \<longrightarrow> temporary t))"
  proof (rule tripleI)
    fix s r s' assume F: "Fair g s" and m: "on_world (createTemporaryFile (butlast ?p) (chunkTemporaryPrefix @ ''gc-'')) s = (r, s')"
    have "Fair g s'" by (rule tripleD [OF fairly_world [where X = "{}"] F m]) (rule tame_createTemporaryFile, simp)
    then show "Fair g s' \<and> (\<forall>t. r = Inr t \<longrightarrow> temporary t)" using on_world_temporary m by blast
  qed
  have "fairly g (andThen (on_world (createTemporaryFile (butlast ?p) (chunkTemporaryPrefix @ ''gc-''))) (tombstone c ?p))"
  proof (rule triple_andThen [OF make])
    show "triple (\<lambda>s. Fair g s \<and> (\<forall>t. Inr x = Inr t \<longrightarrow> temporary t)) (tombstone c ?p x) (\<lambda>_. Fair g)" for x
      using fairly_tombstone [of x g c ?p] by (cases "temporary x") (auto simp: triple_def)
  qed simp
  then have rest: "fairly g (andThen (on_world (createTemporaryFile (butlast ?p) (chunkTemporaryPrefix @ ''gc-''))) (tombstone c ?p))" .
  show "fairly g (catch (on_world (os_stat ?p))
       (\<lambda>err. if errors_is err ErrNotExist then andThen (on_world (commit_directory (butlast ?p))) (\<lambda>_. andThen (pendingSync_delete ?p) (\<lambda>_. cache_forget c))
              else raise err)
       (\<lambda>_. andThen (on_world (createTemporaryFile (butlast ?p) (chunkTemporaryPrefix @ ''gc-''))) (tombstone c ?p)))"
    by (rule fairly_catch [OF fairly_reads(1)], intro fairs, rule rest)
qed

lemma fairly_checkpointChunk:
  assumes "wf_geometry g" "wf_record g r"
  shows "fairly g (persistCheckpointChunk (wal_coord r) (wal_payload r) (wal_presence r) b)"
proof (cases "emptyPresence (wal_presence r)")
  case True
  then show ?thesis by (simp add: persistCheckpointChunk_def fairly_collect)
next
  case False
  obtain ch where ch: "wf_chunk ch" "chunk_geometry ch = g" "chunk_payload ch = wal_payload r" "chunk_presence ch = wal_presence r"
    using wf_record_chunk [OF assms] .
  have "fair g (chunk_payload k, chunk_presence k)"
    if "decode g (wal_coord r) (encodeCheckpointState x g (wal_coord r) (wal_payload r) (wal_presence r)) = Inr k" for x k
    using that decode_encodeCheckpointState [OF ch(1), of "wal_coord r" x] ch False by (simp add: populated_fair)
  note w = fairly_writeAtomic [OF this]
  show ?thesis unfolding persistCheckpointChunk_def if_not_P [OF False]
  proof (rule fairly_observe)
    fix s assume "Fair g s"
    then have g: "st_geometry s = g" by (simp add: Fair_def)
    show "fairly g (case (st_geometry s, st_options s) of (g, opts) \<Rightarrow> let path = chunkPath g (wal_coord r) in
       andThen (on_world (os_mkdir_all (butlast path))) (\<lambda>_. andThen (on_world (writeAtomic path
         (encodeCheckpointState (compression_of (o_CheckpointCompression opts)) g (wal_coord r) (wal_payload r) (wal_presence r)) b)) (\<lambda>_.
       if \<not> b then pendingSync_add path else ret ())))"
      unfolding g prod.case Let_def by (intro fairs w)
  qed
qed

lemma fairly_persistChunk:
  assumes "stored g (a, q)" "fair g (a, q)"
  shows "fairly g (persistChunk c a q b)"
  unfolding persistChunk_def
proof (rule fairly_observe)
  fix s assume "Fair g s"
  then have g: "st_geometry s = g" by (simp add: Fair_def)
  obtain ch where ch: "wf_chunk ch" "chunk_geometry ch = g" "chunk_payload ch = a" "chunk_presence ch = q" using assms(1) by (auto simp: stored_def)
  have "fair g (chunk_payload k, chunk_presence k)" if "decode g c (encodeState g c a q) = Inr k" for k
    using that decode_encodeState [OF ch(1), of c] ch assms(2) by simp
  note w = fairly_writeAtomic [OF this]
  show "fairly g (let path = chunkPath (st_geometry s) c in andThen (on_world (os_mkdir_all (butlast path))) (\<lambda>_.
     andThen (on_world (writeAtomic path (encodeState (st_geometry s) c a q) b)) (\<lambda>_. if \<not> b then pendingSync_add path else ret ())))"
    unfolding g Let_def by (intro fairs w)
qed

section \<open>Checkpoints and publication\<close>

lemma decoded_record:
  assumes "wf_geometry g" "decodeWALRecord g enc = Inr r"
  shows "wf_record g r"
proof -
  have "\<exists>k. ChunkFromState g p (chunk_presence ch) = Inr k" if "ChunkFromLegacyBytes g p = Inr ch" for p ch
    using ChunkFromLegacyBytes_outcome [OF assms(1), of p] that ChunkFromState_wf_chunk [of ch] by (auto split: if_splits)
  then show ?thesis using assms(2)
    by (auto simp: decodeWALRecord_def Let_def on_err_Inr_iff wf_record_def split: if_splits)
qed

lemma scanned_records:
  assumes "wf_geometry g" "scanWAL g wal = (n, rs, e)" "r \<in> set rs"
  shows "wf_record g r"
proof -
  have "wf_record g r" if "scan_records g k m w = (rs, e)" "r \<in> set rs" for k m w rs e
    using that assms(1)
  proof (induction g k m w arbitrary: rs e rule: scan_records.induct)
    case (2 g k m w)
    show ?case using "2.prems" "2.IH" decoded_record [of g "take k w"] by (auto simp: Let_def split: sum.splits prod.splits)
  qed simp
  then show ?thesis using assms by (auto simp: scanWAL_def Let_def split: prod.splits if_splits)
qed

lemma fairly_scan_wal:
  assumes "wf_geometry g" "\<And>r. wf_record g r \<Longrightarrow> fairly g (visit r)"
  shows "fairly g (scan_wal visit)"
proof -
  have body: "fairly g (let (n, records, err) = scanWAL h wal
       in andThen (for_each records (\<lambda>record. andThen (on_world (os_noop (OsRead walPath))) (\<lambda>_. visit record))) (\<lambda>_.
          case err of Some e \<Rightarrow> raise e | None \<Rightarrow> ret (n, records)))" if "h = g" for wal h
  proof -
    obtain n rs e where w: "scanWAL g wal = (n, rs, e)" by (metis prod_cases3)
    have "fairly g (andThen (for_each rs (\<lambda>record. andThen (on_world (os_noop (OsRead walPath))) (\<lambda>_. visit record))) (\<lambda>_.
          case e of Some e \<Rightarrow> raise e | None \<Rightarrow> ret (n, rs)))"
      by (rule fairly_andThen [OF fairly_for_each]) (intro fairs assms(2) scanned_records [OF assms(1) w], assumption, intro fairs)
    then show ?thesis using w that by simp
  qed
  show ?thesis unfolding scan_wal_def
    by (intro fairly_andThen [OF fairly_reads(8)] fairly_andThen [OF fairly_reads(3)] fairly_andThen [OF fairly_reads(2)] fairly_observe body)
      (simp add: Fair_def)
qed

lemma fairly_clearWAL: "fairly g (clearWAL b)"
proof (rule fairly_keep [OF still_log(8)])
  show "tame g {walPath} (clearWAL b)" unfolding clearWAL_def by (intro tames tame_os_truncate) simp
qed (use chunk_not_control in blast)

lemma fairly_checkpointWAL: "wf_geometry g \<Longrightarrow> fairly g checkpointWAL"
  unfolding checkpointWAL_def
  by (intro fairs fairly_scan_wal fairly_checkpointChunk fairly_clearWAL fairly_update, assumption+) (simp add: Fair_def)

lemma fairly_meta: "still m \<Longrightarrow> tame g (meta_paths g) m \<Longrightarrow> fairly g m"
  by (rule fairly_keep [OF _ _ chunk_not_meta(1)])

lemma fairly_publish_loop:
  assumes "\<forall>(c, p)\<in>set ps. stored g (pp_payload p, pp_presence p) \<and> fair g (pp_payload p, pp_presence p)"
  shows "fairly g (publish_loop b ps)"
  using assms
proof (induction ps)
  case (Cons e ps)
  obtain c p where e: "e = (c, p)" by fastforce
  have v: "fairly g (persistChunkVersion c (pp_version p) b)" by (rule fairly_meta [OF still_snapshots(8) tame_persistChunkVersion])
  have w: "fairly g (persistChunk c (pp_payload p) (pp_presence p) b)" using Cons.prems e by (auto intro: fairly_persistChunk)
  have d: "fairly g (update (\<lambda>s. s\<lparr>st_pending := AList.delete c (st_pending s)\<rparr>))"
    by (rule fairly_update) (auto simp: Fair_def AList.delete_eq)
  show ?case unfolding publish_loop.simps e Let_def prod.case using Cons.IH Cons.prems by (intro fairs v w d) auto
qed (simp add: fairs)

lemma fairly_retry: "wf_geometry g \<Longrightarrow> fairly g retryPendingPublications"
  unfolding retryPendingPublications_def
proof (rule fairly_andThen)
  assume g: "wf_geometry g"
  show "fairly g (update (\<lambda>s. s\<lparr>st_pending := range_over (st_world s) (st_pending s)\<rparr>))" by (rule fairly_update) (simp add: Fair_def)
  show "fairly g (andThen (state_of (\<lambda>s. (o_Durability (st_options s) = DurabilityFsyncCheckpoint, st_pending s))) (\<lambda>(syncCheckpoint, pending).
     andThen (publish_loop syncCheckpoint pending) (\<lambda>_.
     andThen (state_of checkpointDue) (\<lambda>due.
       if due then catch checkpointWAL
         (\<lambda>err. andThen (reportPostCommitFailure ''committed_checkpoint_failed'') (\<lambda>_. raise err)) ret
       else ret ()))))"
  proof (rule fairly_observe)
    fix s assume "Fair g s"
    then have "\<forall>(c, p)\<in>set (st_pending s). stored g (pp_payload p, pp_presence p) \<and> fair g (pp_payload p, pp_presence p)" by (simp add: Fair_def)
    note l = fairly_publish_loop [OF this]
    show "fairly g (case (o_Durability (st_options s) = DurabilityFsyncCheckpoint, st_pending s) of (syncCheckpoint, pending) \<Rightarrow>
       andThen (publish_loop syncCheckpoint pending) (\<lambda>_. andThen (state_of checkpointDue) (\<lambda>due.
         if due then catch checkpointWAL (\<lambda>err. andThen (reportPostCommitFailure ''committed_checkpoint_failed'') (\<lambda>_. raise err)) ret
         else ret ())))"
      unfolding prod.case by (intro fairs l fairly_checkpointWAL [OF g])
  qed
qed

section \<open>Writes\<close>

lemma set_update: "set (AList.update k v xs) \<subseteq> insert (k, v) (set xs)"
  by (induction xs) auto

lemma fairly_publish_in_memory:
  assumes "stored g (a, b)" "fair g (a, b)"
  shows "fairly g (publish_in_memory c a b v)"
proof -
  have u: "fairly g (update (\<lambda>s. s\<lparr>st_pending := AList.update c \<lparr>pp_payload = a, pp_presence = b, pp_version = v\<rparr> (st_pending s)\<rparr>))"
    by (rule fairly_update) (use assms in \<open>auto simp: Fair_def dest!: subsetD [OF set_update]\<close>)
  have p: "fairly g (poisonDurability e)" for e by (rule fairly_keep [where X = "{}", OF still_bookkeeping(1) tame_bookkeeping(1)]) simp
  show ?thesis unfolding publish_in_memory_def by (intro fairs u fairly_cache_put assms p)
qed

lemma fairly_finish_commit: "wf_geometry g \<Longrightarrow> fairly g finish_commit"
  unfolding finish_commit_eq
  by (intro fairs fairly_retry fairly_keep [OF still_settle tame_settle]) (use chunk_not_control in auto)

lemma fairly_commit_prefix: "fairly g (commit_prefix d)"
proof (rule fairly_keep)
  show "still (commit_prefix d)" unfolding commit_prefix_def inspect_commit_def by (intro stills)
  show "tame g {walPath, intentPath} (commit_prefix d)" unfolding commit_prefix_def inspect_commit_def by (intro tames) simp_all
qed (rule chunk_not_control)

lemma fairly_WriteChunk:
  assumes g: "wf_geometry g" and ch: "wf_chunk ch" "clean ch"
  shows "fairly g (WriteChunk c (Some ch))"
proof -
  have tail: "fairly g (commit_ordinary_tail c ch v buf)" if "chunk_geometry ch = g" for v buf
  proof -
    have "stored g (chunk_payload ch, chunk_presence ch)" "fair g (chunk_payload ch, chunk_presence ch)"
      using ch that by (auto simp: stored_def clean_fair)
    note p = fairly_publish_in_memory [OF this]
    show ?thesis unfolding commit_ordinary_tail_def by (intro fairs p fairly_finish_commit [OF g] fairly_update) (simp add: Fair_def)
  qed
  have commit: "fairly g (commitOrdinaryChunk c ch v)" if "chunk_geometry ch = g" for v
    unfolding commitOrdinaryChunk_eq using tail that by (intro fairs fairly_commit_prefix) 
  show ?thesis unfolding WriteChunk_def option.case
  proof (rule fairly_observe)
    fix s assume "Fair g s"
    then have s: "st_geometry s = g" by (simp add: Fair_def)
    note m = fairly_meta [OF still_log(7) tame_reads(12)] fairly_meta [OF still_bookkeeping(4) tame_bookkeeping(4)]
      fairly_meta [OF still_snapshots(2) tame_beginWriteSnapshot] fairly_meta [OF still_snapshots(6) tame_reject]
      fairly_meta [OF still_snapshots(7) tame_persistVersionClock] fairly_meta [OF still_snapshots(5) tame_finishSnapshots(2)]
    have u: "fairly g (update (\<lambda>s. s\<lparr>st_versionClock := v\<rparr>))" for v by (rule fairly_update) (simp add: Fair_def)
    show "fairly g (case (st_geometry s, st_closed s, o_ReadOnly (st_options s)) of (g', closed, readOnly) \<Rightarrow>
     if chunk_geometry ch \<noteq> g' then raise [ErrGeometryMismatch]
     else if closed then raise []
     else if readOnly then raise [ErrReadOnly]
     else andThen writerLock_checkHealthy (\<lambda>_.
     andThen checkDurabilityHealthy (\<lambda>_.
     andThen (ignore retryPendingPublications) (\<lambda>_.
     andThen beginWriteSnapshot (\<lambda>_.
     andThen (state_of st_versionClock) (\<lambda>clock.
     if clock = MaxUint64 then reject [ErrVersionOverflow]
     else let version = clock + 1 in
     catch (persistVersionClock version) reject (\<lambda>_.
     andThen (update (\<lambda>s. s\<lparr>st_versionClock := version\<rparr>)) (\<lambda>_.
     catch (commitOrdinaryChunk c ch version) reject (\<lambda>_.
     finishCommittedSnapshot)))))))))"
      unfolding s prod.case Let_def by (intro fairs m u fairly_retry [OF g] commit) auto
  qed
qed

section \<open>Reads\<close>

lemma fair_state: "ChunkFromState g a b = Inr ch \<Longrightarrow> fair g (a, b) \<Longrightarrow> fair g (chunk_payload ch, chunk_presence ch)"
  by (auto simp: ChunkFromState_def split: if_splits sum.splits)

abbreviation reads_fair :: "Geometry \<Rightarrow> Chunk sop \<Rightarrow> bool" where
  "reads_fair g m \<equiv> triple (Fair g) m (\<lambda>r s. Fair g s \<and> (\<forall>ch. r = Inr ch \<longrightarrow> fair g (chunk_payload ch, chunk_presence ch)))"

lemma readChunkFile_body_fair: "reads_fair g (readChunkFile_body (chunkPath g c) c)"
proof (rule tripleI)
  fix s r s' assume F: "Fair g s" and m: "readChunkFile_body (chunkPath g c) c s = (r, s')"
  let ?p = "chunkPath g c"
  obtain r1 s1 where 1: "on_world (os_size ?p) s = (r1, s1)" by fastforce
  obtain r2 s2 where 2: "on_world (os_read ?p) s1 = (r2, s2)" by fastforce
  have F1: "Fair g s1" by (rule tripleD [OF fairly_reads(5) F 1])
  have F2: "Fair g s2" by (rule tripleD [OF fairly_reads(2) F1 2])
  have g: "st_geometry s = g" using F by (simp add: Fair_def)
  consider (stop) "s' = s1 \<or> s' = s2" "\<exists>e. r = Inl e"
    | (got) d where "r2 = Inr d" "andThen (lift_result (decode g c d)) (\<lambda>chunk.
        if \<not> o_ReadOnly (st_options s) then andThen (cache_put c (chunk_payload chunk) (chunk_presence chunk)) (\<lambda>_. ret chunk) else ret chunk) s2 = (r, s')"
    using m 1 2 g by (cases r1; cases r2)
      (auto simp: readChunkFile_body_def andThen_state_of andThen_def [of "on_world (os_size ?p)"] catch_def raise_def split: if_splits)
  then show "Fair g s' \<and> (\<forall>ch. r = Inr ch \<longrightarrow> fair g (chunk_payload ch, chunk_presence ch))"
  proof cases
    case stop
    then show ?thesis using F1 F2 by auto
  next
    case (got d)
    have d: "content (st_world s1) ?p = Some d" using 2 got(1) os_read_content by (auto simp: on_world_def split: prod.splits)
    show ?thesis
    proof (cases "decode g c d")
      case (Inl e)
      then show ?thesis using got(2) F2 by (auto simp: andThen_def catch_def lift_result_def raise_def)
    next
      case (Inr ch)
      have f: "fair g (chunk_payload ch, chunk_presence ch)" by (rule Fair_file [OF F1 d Inr])
      obtain r3 s3 where 3: "cache_put c (chunk_payload ch) (chunk_presence ch) s2 = (r3, s3)" by fastforce
      have "Fair g s3" by (rule tripleD [OF fairly_cache_put [OF f] F2 3])
      then show ?thesis using got(2) Inr 3 F2 f
        by (cases r3) (auto simp: andThen_def catch_def lift_result_def raise_def ret_def state_of_def split: if_splits)
    qed
  qed
qed

lemma reads_fair_then: "fairly g m \<Longrightarrow> (\<And>x. reads_fair g (f x)) \<Longrightarrow> reads_fair g (andThen m f)"
  by (rule triple_andThen) auto

lemma reads_fair_raise: "reads_fair g (raise e)"
  by (simp add: triple_def raise_def)

lemma reads_fair_guard:
  assumes "reads_fair g m" "\<And>e. fairly g (h e)" "fairly g k"
  shows "reads_fair g (catch m (\<lambda>e. andThen (h e) (\<lambda>_. raise e)) (\<lambda>ch. andThen k (\<lambda>_. ret ch)))"
proof (rule triple_catch [OF assms(1)])
  show "triple (\<lambda>s. Fair g s \<and> (\<forall>ch :: Chunk. Inl e = Inr ch \<longrightarrow> fair g (chunk_payload ch, chunk_presence ch))) (andThen (h e) (\<lambda>_. raise e))
     (\<lambda>r s. Fair g s \<and> (\<forall>ch :: Chunk. r = Inr ch \<longrightarrow> fair g (chunk_payload ch, chunk_presence ch)))" for e
    using reads_fair_then [where f = "\<lambda>_. raise e", OF assms(2) [of e] reads_fair_raise] by (simp add: triple_def)
  show "triple (\<lambda>s. Fair g s \<and> (\<forall>ch :: Chunk. Inr x = Inr ch \<longrightarrow> fair g (chunk_payload ch, chunk_presence ch))) (andThen k (\<lambda>_. ret x))
     (\<lambda>r s. Fair g s \<and> (\<forall>ch :: Chunk. r = Inr ch \<longrightarrow> fair g (chunk_payload ch, chunk_presence ch)))" for x
    using assms(3) by (fastforce simp: triple_def andThen_def catch_def ret_def raise_def split: prod.splits sum.splits)
qed

lemma readChunkFile_fair: "reads_fair g (readChunkFile c)"
  unfolding readChunkFile_def
proof (rule triple_observe)
  fix s assume "Fair g s"
  then have g: "st_geometry s = g" by (simp add: Fair_def)
  show "reads_fair g (andThen (on_world (os_open (chunkPath (st_geometry s) c))) (\<lambda>_. catch (readChunkFile_body (chunkPath (st_geometry s) c) c)
       (\<lambda>err. andThen (ignore (on_world (os_noop (OsClose (chunkPath (st_geometry s) c))))) (\<lambda>_. raise err))
       (\<lambda>chunk. andThen (on_world (os_noop (OsClose (chunkPath (st_geometry s) c)))) (\<lambda>_. ret chunk))))"
    unfolding g by (intro reads_fair_then reads_fair_guard readChunkFile_body_fair fairs)
qed

lemma fairly_snapshots: "fairly g beginReadOnlySnapshot" "fairly g (finishReadOnlySnapshot n)"
  unfolding beginReadOnlySnapshot_def finishReadOnlySnapshot_def readSnapshotGeneration_def by (intro fairs)+

lemma ReadChunk_fair:
  assumes F: "Fair g s" and m: "ReadChunk c s = (r, s')"
  shows "Fair g s'" and "r = Inr ch \<Longrightarrow> fair g (chunk_payload ch, chunk_presence ch)"
proof -
  have g: "st_geometry s = g" using F by (simp add: Fair_def)
  define onfile where "onfile = andThen beginReadOnlySnapshot (\<lambda>generation. catch (readChunkFile c)
     (\<lambda>err. andThen (finishReadOnlySnapshot generation) (\<lambda>_. raise err)) (\<lambda>chunk. andThen (finishReadOnlySnapshot generation) (\<lambda>_. ret chunk)))"
  have onfile: "reads_fair g onfile" unfolding onfile_def by (intro reads_fair_then reads_fair_guard readChunkFile_fair fairly_snapshots)
  have "Fair g s' \<and> (\<forall>ch. r = Inr ch \<longrightarrow> fair g (chunk_payload ch, chunk_presence ch))"
  proof (cases "map_of (st_pending s) c")
    case (Some p)
    then have "fair g (pp_payload p, pp_presence p)" using F map_of_SomeD [OF Some] by (auto simp: Fair_def)
    then show ?thesis using m F Some g fair_state [of g "pp_payload p" "pp_presence p"]
      by (auto simp: ReadChunk_def andThen_state_of raise_def lift_result_def split: if_splits)
  next
    case None
    obtain r1 s1 where 1: "cache_look c s = (r1, s1)" by fastforce
    have F1: "Fair g s1" by (rule tripleD [OF fairly_cache_look F 1])
    have hit: "fair g (chunk_payload ch, chunk_presence ch)" if found: "r1 = Inr (Some ch)" for ch
    proof -
      obtain k where k: "cache_get c (st_cache s) = (r1, k)" using 1 by (auto simp: cache_look_def split: prod.splits)
      obtain a b where ab: "cache_content (st_cache s) c = Some (a, b)" "ChunkFromState g a b = Inr ch"
        using cache_get_spec(3) [of "st_cache s" c r1 k] k F found by (auto simp: Fair_def split: option.splits sum.splits)
      then show ?thesis using F fair_state [OF ab(2)] by (auto simp: Fair_def)
    qed
    have eq: "ReadChunk c s = (if st_closed s then raise [] else andThen (if \<not> o_ReadOnly (st_options s) then cache_look c else ret None)
        (\<lambda>found. case found of Some chunk \<Rightarrow> ret chunk | None \<Rightarrow> onfile)) s"
      using None by (simp add: ReadChunk_def andThen_state_of onfile_def)
    obtain a t where t: "(if \<not> o_ReadOnly (st_options s) then cache_look c else ret None) s = (a, t)" by fastforce
    have "Fair g t" "\<And>ch. a = Inr (Some ch) \<Longrightarrow> fair g (chunk_payload ch, chunk_presence ch)" using t 1 F F1 hit by (auto simp: ret_def split: if_splits)
    then show ?thesis using m [unfolded eq] t F tripleD [OF onfile, of t]
      by (auto simp: raise_def ret_def andThen_def [of "if _ then _ else _"] catch_def split: if_splits sum.splits option.splits)
  qed
  then show "Fair g s'" "r = Inr ch \<Longrightarrow> fair g (chunk_payload ch, chunk_presence ch)" by blast+
qed

end
