(* ===== verification/EngineBlocks.thy ===== *)
theory EngineBlocks
  imports EngineScan StoreClean
begin

text \<open>
  The block commands of the engine on the \<^verbatim>\<open>fs_split\<close> store refine a map from block coordinates to values.  The locale
  \<open>block_store\<close> is what the engine relies on; the store provides it while it is live (theory \<open>StoreLive\<close>) and its absent
  blocks are zero (theory \<open>StoreClean\<close>), and leaves it only when a checkpoint has failed or a write could not be undone.
\<close>

section \<open>The world as a map of blocks\<close>







section \<open>The specification of the block commands\<close>

text \<open>
  \<open>block_spec m c r m'\<close>: with the blocks \<open>m\<close> the command \<open>c\<close> may be answered with \<open>r\<close> and leave the blocks \<open>m'\<close>.  A refused
  command changes nothing, and an absent block reads as zero.
\<close>

inductive block_spec :: "(Coord \<Rightarrow> uint64 option) \<Rightarrow> Command \<Rightarrow> Response \<Rightarrow> (Coord \<Rightarrow> uint64 option) \<Rightarrow> bool" where
  refused: "resp_kind r = responseError \<Longrightarrow> block_spec m c r m"
| get: "parseCoord args = Inr b \<Longrightarrow> v = (case m b of None \<Rightarrow> 0 | Some w \<Rightarrow> w) \<Longrightarrow>
    block_spec m \<lparr>Name = ''GET'', Args = args\<rparr> (bulkResponse (bytes_of (FormatUint v))) m"
| exists: "parseCoord args = Inr b \<Longrightarrow> block_spec m \<lparr>Name = ''EXISTS'', Args = args\<rparr> (okResponse (if m b = None then ''0'' else ''1'')) m"
| set: "parseCoord (take 2 args) = Inr b \<Longrightarrow> parseUint (args ! 2) = Some v \<Longrightarrow>
    block_spec m \<lparr>Name = ''SET'', Args = args\<rparr> (okResponse []) (m(b \<mapsto> v))"
| unset: "parseCoord args = Inr b \<Longrightarrow> block_spec m \<lparr>Name = ''UNSET'', Args = args\<rparr> (okResponse []) (m(b := None))"

inductive_cases block_spec_SET: "block_spec m \<lparr>Name = ''SET'', Args = args\<rparr> r m'"
inductive_cases block_spec_GET: "block_spec m \<lparr>Name = ''GET'', Args = args\<rparr> r m'"

section \<open>The contract of the store\<close>


section \<open>The store as a block store\<close>

text \<open>A write leaves the options of the store alone.\<close>

lemma options_basic [stills]:
  "keeps st_options (on_world m)" "keeps st_options (cache_put k a b)" "keeps st_options (poisonDurability e)"
  "keeps st_options (reportPostCommitFailure ev)" "keeps st_options (recordWALFlush kind)" "keeps st_options checkDurabilityHealthy"
  by (auto simp: keeps_def on_world_def cache_put_def poisonDurability_def reportPostCommitFailure_def recordWALFlush_def update_def checkDurabilityHealthy_def
      split: prod.split option.split walFlushKind.split)

lemma options_update [stills]: "(\<And>s. st_options (f s) = st_options s) \<Longrightarrow> keeps st_options (update f)"
  by (simp add: keeps_def update_def)

lemma keeps_for_each [stills]: "(\<And>x. keeps h (f x)) \<Longrightarrow> keeps h (for_each xs f)"
  by (induction xs) (auto intro: stills)

lemma options_log [stills]: "keeps st_options acquire_wal" "keeps st_options (syncWAL kind)" "keeps st_options walSize" "keeps st_options (appendWAL d)"
  "keeps st_options (clearWAL b)" "keeps st_options writerLock_checkHealthy" "keeps st_options (ensureWALCommit b)" "keeps st_options (raise_joined e)"
  unfolding acquire_wal_def syncWAL_def walSize_def appendWAL_def clearWAL_def writerLock_checkHealthy_def ensureWALCommit_def raise_joined_def
  by (intro stills; simp)+

lemma options_intents [stills]: "keeps st_options (publishIntent st n)" "keeps st_options (abandon_rollback_intent e)" "keeps st_options clearIntent"
  "keeps st_options syncIntentDirectory" "keeps st_options readIntent" "keeps st_options (rollbackRejectedWrite n u e)"
  unfolding abandon_rollback_intent_def publishIntent_def rollbackRejectedWrite_def clearIntent_def readIntent_def syncIntentDirectory_def intentExists_def rollbackWAL_def
    inspectIntentDirectory_def
  by (intro stills; simp)+

lemma options_snapshots [stills]: "keeps st_options beginWriteSnapshot" "keeps st_options finishCommittedSnapshot" "keeps st_options (reject e)"
  "keeps st_options (persistVersionClock v)" "keeps st_options (persistChunkVersion c v b)" "keeps st_options (persistChunk c p q b)"
  "keeps st_options (persistCheckpointChunk c p q b)"
  unfolding beginWriteSnapshot_def reject_def finishCommittedSnapshot_def finishRejectedSnapshot_def finishWriterSnapshot_def persistSnapshotGeneration_def persistVersionClock_def
    persistChunkVersion_def persistChunk_def persistCheckpointChunk_def collectEmptyChunk_def Let_def pendingSync_add_def pendingSync_delete_def cache_forget_def
  by (intro stills; simp)+

lemma options_scan_wal [stills]:
  assumes "\<And>r. keeps st_options (visit r)"
  shows "keeps st_options (scan_wal visit)"
  unfolding scan_wal_def Let_def using assms by (intro stills; simp)

lemma options_publish_loop [stills]: "keeps st_options (publish_loop b ps)"
  by (induction ps) (auto simp: Let_def split: prod.split intro!: stills)

lemma options_retry [stills]: "keeps st_options retryPendingPublications"
  unfolding retryPendingPublications_def checkpointWAL_def by (intro stills; simp)







section \<open>Block commands\<close>




end
