(* ===== verification/WalPool.thy ===== *)
theory WalPool
  imports Options
begin

text \<open>
  The pool of log handles (\<^verbatim>\<open>fs_split/wal_pool.go\<close>).  Every method runs under the mutex of the pool, so a method is a
  sequence of turns: a turn ends when the method returns or waits on the condition variable.  Callers, their timers and
  the turns of their methods interleave freely in \<open>pool_step\<close>.

  Entries are pointers into a heap, shared by the table \<open>hp_handles\<close> and the recency list \<open>hp_recent\<close>; the head of the list
  is its front.  \<open>hp_files\<close> are the descriptors the pool has open, as the operating system counts them.  What opening and
  closing a file report is an argument.
\<close>

section \<open>The code\<close>

datatype walHandleKind = walAppendHandle | walScanHandle

datatype pool_error = errWALHandlePoolClosed | errWALHandlePoolBusy | file_error

record walHandleEntry =
  whe_kind :: walHandleKind
  whe_file :: nat
  whe_users :: int

record walHandlePoolStats =
  hps_open :: uint64
  hps_opens :: uint64
  hps_evictions :: uint64

record walHandlePool =
  hp_maxOpen :: int
  hp_heap :: "nat \<Rightarrow> walHandleEntry"
  hp_next :: nat
  hp_handles :: "walHandleKind \<rightharpoonup> nat"
  hp_recent :: "nat list"
  hp_active :: int
  hp_opens :: uint64
  hp_evictions :: uint64
  hp_closed :: bool
  hp_closeErr :: "pool_error list"
  hp_waitTimeout :: int
  hp_files :: "nat list"

definition walHandleAcquireTimeout :: int where
  "walHandleAcquireTimeout = 1000000000"

text \<open>A new entry at the front of the recency list and in the table.\<close>

definition admit_handle :: "walHandleKind \<Rightarrow> nat \<Rightarrow> int \<Rightarrow> walHandlePool \<Rightarrow> walHandlePool" where
  "admit_handle kind fd users pool =
     pool\<lparr>hp_heap := (hp_heap pool)(hp_next pool := \<lparr>whe_kind = kind, whe_file = fd, whe_users = users\<rparr>),
          hp_next := hp_next pool + 1,
          hp_recent := hp_next pool # hp_recent pool,
          hp_handles := (hp_handles pool)(kind \<mapsto> hp_next pool)\<rparr>"

definition newWALHandlePool :: "int \<Rightarrow> nat option \<Rightarrow> walHandlePool" where
  "newWALHandlePool maxOpen appendHandle =
     (let pool = \<lparr>hp_maxOpen = maxOpen, hp_heap = \<lambda>_. \<lparr>whe_kind = walAppendHandle, whe_file = 0, whe_users = 0\<rparr>, hp_next = 0,
                  hp_handles = Map.empty, hp_recent = [], hp_active = 0, hp_opens = 0, hp_evictions = 0, hp_closed = False,
                  hp_closeErr = [], hp_waitTimeout = walHandleAcquireTimeout, hp_files = []\<rparr>
      in case appendHandle of
           None \<Rightarrow> pool
         | Some fd \<Rightarrow> (admit_handle walAppendHandle fd 0 pool)\<lparr>hp_opens := 1, hp_files := [fd]\<rparr>)"

definition handle_count :: "walHandlePool \<Rightarrow> int" where
  "handle_count pool = int (length (filter (\<lambda>kind. hp_handles pool kind \<noteq> None) [walAppendHandle, walScanHandle]))"

definition moveToFront_ptr :: "nat \<Rightarrow> nat list \<Rightarrow> nat list" where
  "moveToFront_ptr p ps = p # remove1 p ps"

definition add_user :: "nat \<Rightarrow> int \<Rightarrow> walHandlePool \<Rightarrow> walHandlePool" where
  "add_user p n pool =
     pool\<lparr>hp_heap := (hp_heap pool)(p := (hp_heap pool p)\<lparr>whe_users := whe_users (hp_heap pool p) + n\<rparr>), hp_active := hp_active pool + n\<rparr>"

text \<open>The walk from the back of the recency list; \<open>closes\<close> says which files report an error when they are closed.\<close>

fun evict_loop :: "(nat \<Rightarrow> bool) \<Rightarrow> nat list \<Rightarrow> walHandlePool \<Rightarrow> (pool_error + bool) \<times> walHandlePool" where
  "evict_loop closes [] pool = (Inr False, pool)"
| "evict_loop closes (p # ps) pool =
     (let entry = hp_heap pool p
      in if whe_users entry \<noteq> 0 then evict_loop closes ps pool
         else let pool = pool\<lparr>hp_recent := remove1 p (hp_recent pool), hp_handles := (hp_handles pool)(whe_kind entry := None),
                              hp_evictions := hp_evictions pool + 1, hp_files := removeAll (whe_file entry) (hp_files pool)\<rparr>
              in (if closes (whe_file entry) then Inl file_error else Inr True, pool))"

definition evictLeastRecentIdle :: "(nat \<Rightarrow> bool) \<Rightarrow> walHandlePool \<Rightarrow> (pool_error + bool) \<times> walHandlePool" where
  "evictLeastRecentIdle closes pool = evict_loop closes (rev (hp_recent pool)) pool"

datatype acquire_result = Acquired nat | Refused pool_error | Waits

lemma evict_loop_shrinks:
  assumes "evict_loop closes ps pool = (Inr True, pool')" "set ps \<subseteq> set (hp_recent pool)"
  shows "length (hp_recent pool') < length (hp_recent pool)"
  using assms
proof (induction ps)
  case (Cons p ps)
  then have "0 < length (hp_recent pool)" by (auto intro: length_pos_if_in_set)
  with Cons show ?case by (auto simp: Let_def length_remove1 split: if_splits)
qed simp

text \<open>
  A turn of \<^verbatim>\<open>acquire\<close>, from taking the lock to returning or waiting.  \<open>opened\<close> is what opening the file gives;
  \<open>deadline\<close> is set by an earlier turn of the call; \<open>t1\<close> and \<open>t2\<close> are the readings of the clock.
\<close>

function acquire_turn :: "nat option \<Rightarrow> (nat \<Rightarrow> bool) \<Rightarrow> int \<Rightarrow> int \<Rightarrow> int option \<Rightarrow> walHandleKind \<Rightarrow> walHandlePool \<Rightarrow>
    acquire_result \<times> int option \<times> walHandlePool" where
  "acquire_turn opened closes t1 t2 deadline kind pool =
     (if hp_closed pool then (Refused errWALHandlePoolClosed, deadline, pool)
      else case hp_handles pool kind of
        Some p \<Rightarrow>
          (let pool = add_user p 1 pool
           in (Acquired (whe_file (hp_heap pool p)), deadline, pool\<lparr>hp_recent := moveToFront_ptr p (hp_recent pool)\<rparr>))
      | None \<Rightarrow>
          if handle_count pool < hp_maxOpen pool then
            (case opened of
               None \<Rightarrow> (Refused file_error, deadline, pool)
             | Some fd \<Rightarrow>
                 let pool = admit_handle kind fd 1 (pool\<lparr>hp_files := fd # hp_files pool\<rparr>)
                 in (Acquired fd, deadline, pool\<lparr>hp_active := hp_active pool + 1, hp_opens := hp_opens pool + 1\<rparr>))
          else (case evictLeastRecentIdle closes pool of
                  (Inl err, pool) \<Rightarrow> (Refused err, deadline, pool)
                | (Inr True, pool) \<Rightarrow> acquire_turn opened closes t1 t2 deadline kind pool
                | (Inr False, pool) \<Rightarrow>
                    let deadline = (case deadline of None \<Rightarrow> t1 + hp_waitTimeout pool | Some d \<Rightarrow> d)
                    in if \<not> t2 < deadline then (Refused errWALHandlePoolBusy, Some deadline, pool)
                       else (Waits, Some deadline, pool)))"
  by pat_completeness auto

termination
proof (relation "measure (\<lambda>(_, _, _, _, _, _, pool). length (hp_recent pool))", goal_cases)
  case 2
  then show ?case by (auto simp: evictLeastRecentIdle_def intro!: evict_loop_shrinks)
qed simp

declare acquire_turn.simps [simp del]

text \<open>\<^verbatim>\<open>pool.handles[kind]\<close> must be there: \<^verbatim>\<open>None\<close> is the panic of a nil entry.\<close>

definition wal_release :: "walHandleKind \<Rightarrow> walHandlePool \<Rightarrow> walHandlePool option" where
  "wal_release kind pool = map_option (\<lambda>p. add_user p (- 1) pool) (hp_handles pool kind)"

definition wal_stats :: "walHandlePool \<Rightarrow> walHandlePoolStats" where
  "wal_stats pool = \<lparr>hps_open = of_int (handle_count pool), hps_opens = hp_opens pool, hps_evictions = hp_evictions pool\<rparr>"

fun close_loop :: "(nat \<Rightarrow> bool) \<Rightarrow> nat list \<Rightarrow> walHandlePool \<Rightarrow> walHandlePool" where
  "close_loop closes [] pool = pool"
| "close_loop closes (p # ps) pool =
     (let fd = whe_file (hp_heap pool p);
          pool = pool\<lparr>hp_files := removeAll fd (hp_files pool)\<rparr>
      in close_loop closes ps (if closes fd then pool\<lparr>hp_closeErr := hp_closeErr pool @ [file_error]\<rparr> else pool))"

text \<open>The turns of \<^verbatim>\<open>close\<close>: the first one, and one for every time it looks at \<^verbatim>\<open>active\<close>; \<^verbatim>\<open>None\<close> waits.\<close>

definition close_begin :: "walHandlePool \<Rightarrow> pool_error list option \<times> walHandlePool" where
  "close_begin pool = (if hp_closed pool then (Some (hp_closeErr pool), pool) else (None, pool\<lparr>hp_closed := True\<rparr>))"

definition close_turn :: "(nat \<Rightarrow> bool) \<Rightarrow> walHandlePool \<Rightarrow> pool_error list option \<times> walHandlePool" where
  "close_turn closes pool =
     (if hp_active pool \<noteq> 0 then (None, pool)
      else let pool = (close_loop closes (hp_recent pool) pool)\<lparr>hp_recent := [], hp_handles := Map.empty\<rparr>
           in (Some (hp_closeErr pool), pool))"

section \<open>The state of a pool\<close>

text \<open>\<open>u\<close> counts the callers that have a handle checked out.\<close>

definition pool_ok :: "(walHandleKind \<Rightarrow> int) \<Rightarrow> walHandlePool \<Rightarrow> bool" where
  "pool_ok u pool \<longleftrightarrow>
     distinct (hp_recent pool) \<and> set (hp_recent pool) = ran (hp_handles pool) \<and>
     (\<forall>k p. hp_handles pool k = Some p \<longrightarrow> p < hp_next pool \<and> whe_kind (hp_heap pool p) = k \<and> whe_users (hp_heap pool p) = u k) \<and>
     (\<forall>k. 0 \<le> u k \<and> (hp_handles pool k = None \<longrightarrow> u k = 0)) \<and> hp_active pool = u walAppendHandle + u walScanHandle \<and>
     distinct (hp_files pool) \<and> set (hp_files pool) = (\<lambda>p. whe_file (hp_heap pool p)) ` set (hp_recent pool) \<and>
     inj_on (\<lambda>p. whe_file (hp_heap pool p)) (set (hp_recent pool)) \<and> handle_count pool \<le> hp_maxOpen pool \<and> 1 \<le> hp_maxOpen pool"

definition file_of :: "walHandlePool \<Rightarrow> walHandleKind \<Rightarrow> nat option" where
  "file_of pool k = map_option (\<lambda>p. whe_file (hp_heap pool p)) (hp_handles pool k)"

text \<open>Handles that are checked out stay what they are.\<close>

definition held_same :: "(walHandleKind \<Rightarrow> int) \<Rightarrow> walHandlePool \<Rightarrow> walHandlePool \<Rightarrow> bool" where
  "held_same u pool pool' \<longleftrightarrow> (\<forall>k. 0 < u k \<longrightarrow> file_of pool' k = file_of pool k) \<and> hp_closed pool' = hp_closed pool \<and> hp_maxOpen pool' = hp_maxOpen pool"

lemma kinds: "(\<forall>k. P k) \<longleftrightarrow> P walAppendHandle \<and> P walScanHandle"
  by (metis walHandleKind.exhaust)

lemma pool_ok_table:
  assumes "pool_ok u pool"
  shows "hp_handles pool k = Some p \<Longrightarrow> hp_handles pool k' = Some p \<Longrightarrow> k = k'"
    and "hp_handles pool k = Some p \<Longrightarrow> p \<in> set (hp_recent pool)"
    and "p \<in> set (hp_recent pool) \<Longrightarrow> hp_handles pool (whe_kind (hp_heap pool p)) = Some p"
    and "p \<in> set (hp_recent pool) \<Longrightarrow> p < hp_next pool"
  using assms unfolding pool_ok_def by (auto simp: ran_def) metis+

lemma pool_ok_users:
  assumes "pool_ok u pool"
  shows "hp_handles pool k = Some p \<Longrightarrow> whe_users (hp_heap pool p) = u k" "0 \<le> u k" "hp_handles pool k = None \<Longrightarrow> u k = 0"
    "hp_active pool = u walAppendHandle + u walScanHandle"
  using assms unfolding pool_ok_def by blast+

lemma pool_ok_count:
  assumes "pool_ok u pool"
  shows "int (length (hp_recent pool)) = handle_count pool" "int (length (hp_files pool)) = handle_count pool"
proof -
  have d: "distinct (hp_recent pool)" "set (hp_recent pool) = ran (hp_handles pool)" "distinct (hp_files pool)"
    "set (hp_files pool) = (\<lambda>p. whe_file (hp_heap pool p)) ` set (hp_recent pool)" "inj_on (\<lambda>p. whe_file (hp_heap pool p)) (set (hp_recent pool))"
    using assms unfolding pool_ok_def by blast+
  have U: "dom (hp_handles pool) = set (filter (\<lambda>kind. hp_handles pool kind \<noteq> None) [walAppendHandle, walScanHandle])"
  proof (rule set_eqI)
    fix k show "k \<in> dom (hp_handles pool) \<longleftrightarrow> k \<in> set (filter (\<lambda>kind. hp_handles pool kind \<noteq> None) [walAppendHandle, walScanHandle])"
      by (cases k) auto
  qed
  have "ran (hp_handles pool) = (\<lambda>k. the (hp_handles pool k)) ` dom (hp_handles pool)" by (force simp: ran_def dom_def)
  moreover have "inj_on (\<lambda>k. the (hp_handles pool k)) (dom (hp_handles pool))" using pool_ok_table(1) [OF assms] by (auto simp: inj_on_def dom_def)
  ultimately have "card (ran (hp_handles pool)) = card (dom (hp_handles pool))" by (simp add: card_image)
  then show r: "int (length (hp_recent pool)) = handle_count pool"
    unfolding U handle_count_def using distinct_card [OF d(1)] d(2) by (subst (asm) distinct_card) auto
  then show "int (length (hp_files pool)) = handle_count pool"
    using distinct_card [OF d(3)] distinct_card [OF d(1)] d(4) card_image [OF d(5)] by simp
qed

lemma handle_count_update: "handle_count (pool\<lparr>hp_handles := (hp_handles pool)(k := x)\<rparr>) =
    handle_count pool + (if x = None then 0 else 1) - (if hp_handles pool k = None then 0 else 1)"
  by (cases k) (auto simp: handle_count_def)

lemma handle_count_more [simp]:
  "handle_count (pool\<lparr>hp_recent := a\<rparr>) = handle_count pool" "handle_count (pool\<lparr>hp_heap := b\<rparr>) = handle_count pool"
  "handle_count (pool\<lparr>hp_active := c\<rparr>) = handle_count pool" "handle_count (pool\<lparr>hp_files := d\<rparr>) = handle_count pool"
  "handle_count (pool\<lparr>hp_next := n\<rparr>) = handle_count pool" "handle_count (pool\<lparr>hp_opens := e\<rparr>) = handle_count pool"
  "handle_count (pool\<lparr>hp_evictions := e\<rparr>) = handle_count pool" "handle_count (pool\<lparr>hp_closed := f\<rparr>) = handle_count pool"
  "handle_count (pool\<lparr>hp_closeErr := h\<rparr>) = handle_count pool"
  by (simp_all add: handle_count_def)

text \<open>A caller more, or less, on a handle of the table.\<close>

lemma add_user_ok:
  assumes "pool_ok u pool" "hp_handles pool k = Some p" "0 \<le> u k + n"
  shows "pool_ok (u(k := u k + n)) (add_user p n pool)" "file_of (add_user p n pool) = file_of pool"
proof -
  have other: "k' = k" if "hp_handles pool k' = Some p" for k' using that pool_ok_table(1) [OF assms(1)] assms(2) by blast
  have f: "whe_file (hp_heap (add_user p n pool) q) = whe_file (hp_heap pool q)" for q by (simp add: add_user_def)
  show "file_of (add_user p n pool) = file_of pool" by (simp add: fun_eq_iff file_of_def f) (simp add: add_user_def)
  show "pool_ok (u(k := u k + n)) (add_user p n pool)"
    using assms other unfolding pool_ok_def f by (cases k) (auto simp: add_user_def)
qed

lemma reorder_ok:
  assumes "pool_ok u pool" "p \<in> set (hp_recent pool)"
  shows "pool_ok u (pool\<lparr>hp_recent := moveToFront_ptr p (hp_recent pool)\<rparr>)"
proof -
  have "set (moveToFront_ptr p (hp_recent pool)) = set (hp_recent pool)" "distinct (moveToFront_ptr p (hp_recent pool))"
    using assms by (auto simp: moveToFront_ptr_def pool_ok_def)
  then show ?thesis using assms unfolding pool_ok_def by auto
qed

lemma admit_handle_ok:
  fixes w :: uint64
  assumes "pool_ok u pool" "hp_handles pool k = None" "fd \<notin> set (hp_files pool)" "handle_count pool < hp_maxOpen pool" "0 \<le> n"
  defines "pool' \<equiv> (admit_handle k fd n (pool\<lparr>hp_files := fd # hp_files pool\<rparr>))\<lparr>hp_active := hp_active pool + n, hp_opens := w\<rparr>"
  shows "pool_ok (u(k := u k + n)) pool'" "file_of pool' = (file_of pool)(k \<mapsto> fd)"
proof -
  have u: "u k = 0" using assms(1,2) by (simp add: pool_ok_def)
  have new: "hp_next pool \<notin> set (hp_recent pool)" using pool_ok_table(4) [OF assms(1)] by blast
  have img: "(\<lambda>p. whe_file (hp_heap pool' p)) ` set (hp_recent pool) = (\<lambda>p. whe_file (hp_heap pool p)) ` set (hp_recent pool)"
    using new by (intro image_cong) (auto simp: pool'_def admit_handle_def)
  have inj: "inj_on (\<lambda>p. whe_file (hp_heap pool' p)) (set (hp_recent pool)) \<longleftrightarrow> inj_on (\<lambda>p. whe_file (hp_heap pool p)) (set (hp_recent pool))"
    using new by (intro inj_on_cong) (auto simp: pool'_def admit_handle_def)
  have h: "handle_count pool' = handle_count pool + 1" using assms(2) handle_count_update [of pool k "Some (hp_next pool)"]
    by (simp add: pool'_def admit_handle_def handle_count_def)
  have r: "ran (hp_handles pool') = insert (hp_next pool) (ran (hp_handles pool))" using assms(2) by (simp add: pool'_def admit_handle_def)
  show "pool_ok (u(k := u k + n)) pool'"
    using assms(1-5) u new img inj h r pool_ok_table(2,4) [OF assms(1)] unfolding pool_ok_def
    by (cases k) (auto simp: pool'_def admit_handle_def less_Suc_eq)
  show "file_of pool' = (file_of pool)(k \<mapsto> fd)"
    using pool_ok_table(2) [OF assms(1)] new by (auto simp: fun_eq_iff file_of_def pool'_def admit_handle_def intro!: option.map_cong)
qed

text \<open>An idle handle leaves the table, and its file is closed.\<close>

lemma drop_ok:
  fixes w :: uint64
  assumes "pool_ok u pool" "p \<in> set (hp_recent pool)" "whe_users (hp_heap pool p) = 0"
  defines "pool' \<equiv> pool\<lparr>hp_recent := remove1 p (hp_recent pool), hp_handles := (hp_handles pool)(whe_kind (hp_heap pool p) := None),
    hp_evictions := w, hp_files := removeAll (whe_file (hp_heap pool p)) (hp_files pool)\<rparr>"
  shows "pool_ok u pool'" "held_same u pool pool'" "handle_count pool' = handle_count pool - 1" "hp_handles pool' \<subseteq>\<^sub>m hp_handles pool"
proof -
  let ?k = "whe_kind (hp_heap pool p)"
  have k: "hp_handles pool ?k = Some p" by (rule pool_ok_table(3) [OF assms(1,2)])
  have u: "u ?k = 0" using pool_ok_users(1) [OF assms(1) k] assms(3) by simp
  have d: "distinct (hp_recent pool)" "set (hp_recent pool) = ran (hp_handles pool)" "inj_on (\<lambda>p. whe_file (hp_heap pool p)) (set (hp_recent pool))"
    "set (hp_files pool) = (\<lambda>p. whe_file (hp_heap pool p)) ` set (hp_recent pool)"
    using assms(1) unfolding pool_ok_def by blast+
  have r: "ran ((hp_handles pool)(?k := None)) = ran (hp_handles pool) - {p}"
  proof -
    have "hp_handles pool k' = Some p \<longleftrightarrow> k' = ?k" for k' using pool_ok_table(1) [OF assms(1)] k by blast
    then show ?thesis unfolding ran_def by (auto split: if_splits) (metis option.inject)
  qed
  have s: "set (hp_recent pool') = ran (hp_handles pool')" using d(1,2) r by (simp add: pool'_def)
  have f: "set (hp_files pool') = (\<lambda>p. whe_file (hp_heap pool p)) ` set (hp_recent pool')"
    using d assms(2) by (auto simp: pool'_def inj_on_def)
  show h: "handle_count pool' = handle_count pool - 1" using handle_count_update [of pool ?k None] k by (simp add: pool'_def handle_count_def)
  have i: "inj_on (\<lambda>p. whe_file (hp_heap pool p)) (set (hp_recent pool'))" by (rule inj_on_subset [OF d(3)]) (use d(1) in \<open>auto simp: pool'_def\<close>)
  show "pool_ok u pool'" using assms(1) s f h i u unfolding pool_ok_def by (auto simp: pool'_def distinct_removeAll)
  show "held_same u pool pool'" using u by (auto simp: held_same_def file_of_def pool'_def)
  show "hp_handles pool' \<subseteq>\<^sub>m hp_handles pool" by (simp add: pool'_def map_le_def)
qed

lemma evict_ok:
  assumes "pool_ok u pool" "evictLeastRecentIdle closes pool = (r, pool')"
  shows "pool_ok u pool' \<and> held_same u pool pool'"
    and "r = Inr True \<Longrightarrow> handle_count pool' = handle_count pool - 1"
    and "r = Inr False \<Longrightarrow> pool' = pool \<and> (\<forall>p\<in>set (hp_recent pool). whe_users (hp_heap pool p) \<noteq> 0)"
proof -
  have "(pool_ok u pool' \<and> held_same u pool pool') \<and> (r = Inr True \<longrightarrow> handle_count pool' = handle_count pool - 1) \<and>
    (r = Inr False \<longrightarrow> pool' = pool \<and> (\<forall>p\<in>set ps. whe_users (hp_heap pool p) \<noteq> 0))"
    if "set ps \<subseteq> set (hp_recent pool)" "evict_loop closes ps pool = (r, pool')" for ps
    using that
  proof (induction ps)
    case Nil
    then show ?case using assms(1) by (auto simp: held_same_def)
  next
    case (Cons p ps)
    then show ?case using drop_ok [OF assms(1), of p] by (cases "whe_users (hp_heap pool p) = 0") (auto simp: Let_def split: if_splits)
  qed
  from this [of "rev (hp_recent pool)"] assms(2)
  show "pool_ok u pool' \<and> held_same u pool pool'" "r = Inr True \<Longrightarrow> handle_count pool' = handle_count pool - 1"
    "r = Inr False \<Longrightarrow> pool' = pool \<and> (\<forall>p\<in>set (hp_recent pool). whe_users (hp_heap pool p) \<noteq> 0)"
    by (auto simp: evictLeastRecentIdle_def)
qed

lemma evict_files:
  assumes "evictLeastRecentIdle closes pool = (r, pool')"
  shows "set (hp_files pool') \<subseteq> set (hp_files pool)"
proof -
  have "evict_loop closes ps pool = (r, pool') \<Longrightarrow> set (hp_files pool') \<subseteq> set (hp_files pool)" for ps
    by (induction ps) (auto simp: Let_def split: if_splits)
  then show ?thesis using assms by (simp add: evictLeastRecentIdle_def)
qed

section \<open>The turns\<close>

lemma held_same_trans: "held_same u a b \<Longrightarrow> held_same u b c \<Longrightarrow> held_same u a c"
  by (simp add: held_same_def)

text \<open>What a turn of \<^verbatim>\<open>acquire\<close> does to a pool.\<close>

definition acquire_spec :: "(walHandleKind \<Rightarrow> int) \<Rightarrow> walHandleKind \<Rightarrow> int \<Rightarrow> int option \<Rightarrow> walHandlePool \<Rightarrow> acquire_result \<times> int option \<times> walHandlePool \<Rightarrow> bool" where
  "acquire_spec u kind t2 deadline pool result \<longleftrightarrow>
     (case result of (r, deadline', pool') \<Rightarrow> held_same u pool pool' \<and>
        (case r of
           Acquired fd \<Rightarrow> pool_ok (u(kind := u kind + 1)) pool' \<and> file_of pool' kind = Some fd
         | Refused e \<Rightarrow> pool_ok u pool'
         | Waits \<Rightarrow> pool_ok u pool' \<and> \<not> hp_closed pool' \<and> 0 < hp_active pool' \<and> (\<exists>d. deadline' = Some d \<and> t2 < d \<and> (deadline = None \<or> deadline = Some d))))"

lemma acquire_spec_evicted: "acquire_spec u kind t2 deadline pool' x \<Longrightarrow> held_same u pool pool' \<Longrightarrow> acquire_spec u kind t2 deadline pool x"
  unfolding acquire_spec_def using held_same_trans by (auto split: prod.splits)

lemma busy_active:
  assumes "pool_ok u pool" "\<forall>p\<in>set (hp_recent pool). whe_users (hp_heap pool p) \<noteq> 0" "\<not> handle_count pool < hp_maxOpen pool"
  shows "0 < hp_active pool"
proof -
  have "0 < handle_count pool" using assms(1,3) by (simp add: pool_ok_def)
  then obtain k p where k: "hp_handles pool k = Some p" by (auto simp: handle_count_def split: if_splits)
  then have "0 < u k" using assms(2) pool_ok_table(2) [OF assms(1) k] pool_ok_users(1) [OF assms(1) k] pool_ok_users(2) [OF assms(1), of k] by force
  then show ?thesis using pool_ok_users(2) [OF assms(1), of walAppendHandle] pool_ok_users(2) [OF assms(1), of walScanHandle] pool_ok_users(4) [OF assms(1)]
    by (cases k) auto
qed

lemma acquire_turn_ok:
  assumes "\<forall>fd. opened = Some fd \<longrightarrow> fd \<notin> set (hp_files pool)"
  shows "pool_ok u pool \<Longrightarrow> acquire_spec u kind t2 deadline pool (acquire_turn opened closes t1 t2 deadline kind pool)"
  using assms
proof (induction "length (hp_recent pool)" arbitrary: pool rule: less_induct)
  case less
  note turn = acquire_turn.simps [of opened closes t1 t2 deadline kind pool]
  obtain r pool' where e: "evictLeastRecentIdle closes pool = (r, pool')" by fastforce
  consider (closed) "hp_closed pool" | (there) p where "\<not> hp_closed pool" "hp_handles pool kind = Some p"
    | (room) "\<not> hp_closed pool" "hp_handles pool kind = None" "handle_count pool < hp_maxOpen pool"
    | (full) "\<not> hp_closed pool" "hp_handles pool kind = None" "\<not> handle_count pool < hp_maxOpen pool" by fastforce
  then show ?case
  proof cases
    case closed
    then show ?thesis unfolding turn using less.prems by (simp add: acquire_spec_def held_same_def)
  next
    case there
    let ?pool = "add_user p 1 pool"
    have a: "pool_ok (u(kind := u kind + 1)) ?pool" "file_of ?pool = file_of pool"
      using add_user_ok [OF less.prems(1) there(2), of 1] pool_ok_users(2) [OF less.prems(1), of kind] by simp_all
    have "p \<in> set (hp_recent ?pool)" using pool_ok_table(2) [OF less.prems(1) there(2)] by (simp add: add_user_def)
    then have b: "pool_ok (u(kind := u kind + 1)) (?pool\<lparr>hp_recent := moveToFront_ptr p (hp_recent ?pool)\<rparr>)" by (rule reorder_ok [OF a(1)])
    have f: "file_of (?pool\<lparr>hp_recent := x\<rparr>) = file_of pool" "file_of pool kind = Some (whe_file (hp_heap ?pool p))" for x
      using a(2) there(2) by (simp_all add: fun_eq_iff file_of_def add_user_def)
    have "acquire_turn opened closes t1 t2 deadline kind pool =
        (Acquired (whe_file (hp_heap ?pool p)), deadline, ?pool\<lparr>hp_recent := moveToFront_ptr p (hp_recent ?pool)\<rparr>)"
      unfolding turn using there by (simp add: Let_def)
    then show ?thesis using b f by (simp add: acquire_spec_def held_same_def) (simp add: add_user_def)
  next
    case room
    show ?thesis
    proof (cases opened)
      case None
      then show ?thesis unfolding turn using room less.prems by (simp add: acquire_spec_def held_same_def)
    next
      case (Some fd)
      note A = admit_handle_ok [OF less.prems(1) room(2) _ room(3), of fd 1 "hp_opens pool + 1"]
      have "u kind = 0" by (rule pool_ok_users(3) [OF less.prems(1) room(2)])
      then show ?thesis unfolding turn using room less.prems(2) Some A
        by (simp add: acquire_spec_def held_same_def Let_def) (simp add: admit_handle_def)
    qed
  next
    case full
    note E = evict_ok [OF less.prems(1) e]
    consider (err) x where "r = Inl x" | (gone) "r = Inr True" | (none) "r = Inr False" by (metis sumE)
    then show ?thesis
    proof cases
      case err
      then show ?thesis unfolding turn e using full E(1) by (simp add: acquire_spec_def)
    next
      case gone
      have "length (hp_recent pool') < length (hp_recent pool)"
        using evict_loop_shrinks e gone by (simp add: evictLeastRecentIdle_def)
      moreover have "set (hp_files pool') \<subseteq> set (hp_files pool)" using evict_files [OF e] .
      ultimately have "acquire_spec u kind t2 deadline pool' (acquire_turn opened closes t1 t2 deadline kind pool')"
        using less.hyps [of pool'] E(1) less.prems(2) by blast
      then show ?thesis unfolding turn e using full gone E(1) acquire_spec_evicted by simp
    next
      case none
      then show ?thesis unfolding turn e using full E less.prems(1) busy_active [OF less.prems(1)]
        by (auto simp: acquire_spec_def Let_def split: option.split)
    qed
  qed
qed

lemma release_ok:
  assumes "pool_ok u pool" "0 < u kind"
  shows "\<exists>pool'. wal_release kind pool = Some pool' \<and> pool_ok (u(kind := u kind - 1)) pool' \<and> file_of pool' = file_of pool \<and>
    hp_closed pool' = hp_closed pool \<and> hp_maxOpen pool' = hp_maxOpen pool"
proof -
  obtain p where p: "hp_handles pool kind = Some p" using pool_ok_users(3) [OF assms(1), of kind] assms(2) by (cases "hp_handles pool kind") auto
  show ?thesis using add_user_ok [OF assms(1) p, of "- 1"] assms(2) p by (auto simp: wal_release_def) (simp_all add: add_user_def)
qed

lemma close_loop_same: "hp_handles (close_loop closes ps pool) = hp_handles pool" "hp_active (close_loop closes ps pool) = hp_active pool"
  "hp_maxOpen (close_loop closes ps pool) = hp_maxOpen pool" "hp_closed (close_loop closes ps pool) = hp_closed pool"
  "hp_files (close_loop closes ps pool) = filter (\<lambda>fd. fd \<notin> (\<lambda>p. whe_file (hp_heap pool p)) ` set ps) (hp_files pool)"
  by (induction ps arbitrary: pool) (auto simp: Let_def removeAll_filter_not_eq intro!: filter_cong)

text \<open>When nobody has a handle checked out, closing leaves no file open.\<close>

lemma close_turn_ok:
  assumes "pool_ok u pool" "close_turn closes pool = (r, pool')"
  shows "pool_ok u pool' \<and> (\<forall>k. 0 < u k \<longrightarrow> file_of pool' k = file_of pool k) \<and> hp_closed pool' = hp_closed pool \<and> hp_active pool' = hp_active pool \<and>
    hp_maxOpen pool' = hp_maxOpen pool \<and> (r = None \<longleftrightarrow> hp_active pool \<noteq> 0) \<and> (r \<noteq> None \<longrightarrow> hp_files pool' = [])"
proof (cases "hp_active pool = 0")
  case False
  then show ?thesis using assms by (auto simp: close_turn_def)
next
  case True
  have u: "u k = 0" for k
    using True pool_ok_users(2) [OF assms(1), of walAppendHandle] pool_ok_users(2) [OF assms(1), of walScanHandle] pool_ok_users(4) [OF assms(1)] by (cases k) auto
  have f: "set (hp_files pool) = (\<lambda>p. whe_file (hp_heap pool p)) ` set (hp_recent pool)" "1 \<le> hp_maxOpen pool" using assms(1) unfolding pool_ok_def by blast+
  have p': "pool' = (close_loop closes (hp_recent pool) pool)\<lparr>hp_recent := [], hp_handles := Map.empty\<rparr>" "r = Some (hp_closeErr pool')"
    using assms(2) True by (auto simp: close_turn_def Let_def)
  have "hp_files pool' = []" using f by (simp add: p' close_loop_same filter_empty_conv)
  then show ?thesis using u True f(2) p' by (simp add: pool_ok_def close_loop_same handle_count_def)
qed

section \<open>Callers\<close>

text \<open>
  A caller is outside the pool, on its way through \<^verbatim>\<open>acquire\<close> (with the deadline that an earlier turn has set), asleep
  on the condition variable there, in possession of a handle, or in \<^verbatim>\<open>close\<close>.
\<close>

datatype caller =
    Idle
  | Acquiring walHandleKind "int option"
  | Sleeping walHandleKind int
  | Holding walHandleKind nat
  | Closing
  | Drowsy

record pool_system =
  ps_pool :: walHandlePool
  ps_now :: int
  ps_callers :: "caller list"
  ps_timers :: "nat \<Rightarrow> bool"

text \<open>\<^verbatim>\<open>available.Broadcast()\<close>\<close>

fun wake :: "caller \<Rightarrow> caller" where
  "wake (Sleeping kind d) = Acquiring kind (Some d)"
| "wake Drowsy = Closing"
| "wake c = c"

fun after_acquire :: "walHandleKind \<Rightarrow> acquire_result \<Rightarrow> int option \<Rightarrow> caller" where
  "after_acquire kind (Acquired fd) d = Holding kind fd"
| "after_acquire kind (Refused e) d = Idle"
| "after_acquire kind Waits d = Sleeping kind (the d)"

text \<open>
  A timer is armed when a call first waits and stopped when the call returns; it wakes everybody once its deadline has
  passed.  The operating system gives a new file a descriptor that is not in use.
\<close>

inductive pool_step :: "pool_system \<Rightarrow> pool_system \<Rightarrow> bool" where
  passes: "ps_now s \<le> t \<Longrightarrow> pool_step s (s\<lparr>ps_now := t\<rparr>)"
| calls_acquire: "i < length (ps_callers s) \<Longrightarrow> ps_callers s ! i = Idle \<Longrightarrow>
    pool_step s (s\<lparr>ps_callers := (ps_callers s)[i := Acquiring kind None]\<rparr>)"
| acquires: "i < length (ps_callers s) \<Longrightarrow> ps_callers s ! i = Acquiring kind d \<Longrightarrow> ps_now s \<le> t1 \<Longrightarrow> t1 \<le> t2 \<Longrightarrow>
    \<forall>fd. opened = Some fd \<longrightarrow> fd \<notin> set (hp_files (ps_pool s)) \<Longrightarrow>
    acquire_turn opened closes t1 t2 d kind (ps_pool s) = (r, d', pool') \<Longrightarrow>
    pool_step s \<lparr>ps_pool = pool', ps_now = t2, ps_callers = (ps_callers s)[i := after_acquire kind r d'],
      ps_timers = (ps_timers s)(i := (if r = Waits then d = None \<or> ps_timers s i else False))\<rparr>"
| timer: "i < length (ps_callers s) \<Longrightarrow> ps_timers s i \<Longrightarrow> ps_callers s ! i \<in> {Sleeping kind d, Acquiring kind (Some d)} \<Longrightarrow> d \<le> ps_now s \<Longrightarrow>
    pool_step s (s\<lparr>ps_callers := map wake (ps_callers s), ps_timers := (ps_timers s)(i := False)\<rparr>)"
| releases: "i < length (ps_callers s) \<Longrightarrow> ps_callers s ! i = Holding kind fd \<Longrightarrow> wal_release kind (ps_pool s) = Some pool' \<Longrightarrow>
    pool_step s (s\<lparr>ps_pool := pool', ps_callers := map wake ((ps_callers s)[i := Idle])\<rparr>)"
| calls_close: "i < length (ps_callers s) \<Longrightarrow> ps_callers s ! i = Idle \<Longrightarrow> close_begin (ps_pool s) = (r, pool') \<Longrightarrow>
    pool_step s (s\<lparr>ps_pool := pool',
      ps_callers := (if r = None then map wake ((ps_callers s)[i := Closing]) else ps_callers s)\<rparr>)"
| closes: "i < length (ps_callers s) \<Longrightarrow> ps_callers s ! i = Closing \<Longrightarrow> close_turn fails (ps_pool s) = (r, pool') \<Longrightarrow>
    pool_step s (s\<lparr>ps_pool := pool', ps_callers := (ps_callers s)[i := (if r = None then Drowsy else Idle)]\<rparr>)"

inductive pool_reachable :: "int \<Rightarrow> nat option \<Rightarrow> pool_system \<Rightarrow> bool" for maxOpen appendHandle where
  start: "pool_reachable maxOpen appendHandle
    \<lparr>ps_pool = newWALHandlePool maxOpen appendHandle, ps_now = t, ps_callers = replicate n Idle, ps_timers = \<lambda>_. False\<rparr>"
| step: "pool_reachable maxOpen appendHandle s \<Longrightarrow> pool_step s s' \<Longrightarrow> pool_reachable maxOpen appendHandle s'"

definition holders :: "caller list \<Rightarrow> walHandleKind \<Rightarrow> int" where
  "holders cs kind = int (length (filter (\<lambda>c. \<exists>fd. c = Holding kind fd) cs))"

lemma holders_update:
  assumes "i < length cs"
  shows "holders (cs[i := c]) k = holders cs k - (if \<exists>fd. cs ! i = Holding k fd then 1 else 0) + (if \<exists>fd. c = Holding k fd then 1 else 0)"
proof -
  let ?P = "\<lambda>c. \<exists>fd. c = Holding k fd"
  have cs: "cs = take i cs @ cs ! i # drop (Suc i) cs" using assms by (rule id_take_nth_drop)
  have "length (filter ?P (cs[i := c])) + (if ?P (cs ! i) then 1 else 0) = length (filter ?P cs) + (if ?P c then 1 else 0)"
    unfolding upd_conv_take_nth_drop [OF assms] using arg_cong [OF cs, of "\<lambda>xs. length (filter ?P xs)"] by auto
  then show ?thesis by (auto simp: holders_def)
qed

lemma wake_Holding: "wake c = Holding k fd \<longleftrightarrow> c = Holding k fd"
  by (cases c) auto

lemma holders_wake [simp]: "holders (map wake cs) = holders cs"
  by (simp add: holders_def fun_eq_iff filter_map o_def wake_Holding)

lemma holders_pos: "Holding k fd \<in> set cs \<Longrightarrow> 0 < holders cs k"
  by (auto simp: holders_def filter_empty_conv)

definition pool_inv :: "int \<Rightarrow> pool_system \<Rightarrow> bool" where
  "pool_inv maxOpen s \<longleftrightarrow>
     pool_ok (holders (ps_callers s)) (ps_pool s) \<and> hp_maxOpen (ps_pool s) = maxOpen \<and>
     (\<forall>k fd. Holding k fd \<in> set (ps_callers s) \<longrightarrow> file_of (ps_pool s) k = Some fd) \<and>
     (\<forall>i k d. i < length (ps_callers s) \<and> ps_callers s ! i = Sleeping k d \<longrightarrow> ps_timers s i) \<and>
     (\<forall>i k d. i < length (ps_callers s) \<and> ps_callers s ! i = Acquiring k (Some d) \<longrightarrow> ps_timers s i \<or> d \<le> ps_now s) \<and>
     (Drowsy \<in> set (ps_callers s) \<longrightarrow> hp_active (ps_pool s) \<noteq> 0)"

lemma pool_invI:
  assumes "pool_ok (holders cs) pool" "hp_maxOpen pool = maxOpen" "\<And>k fd. Holding k fd \<in> set cs \<Longrightarrow> file_of pool k = Some fd"
    and "\<And>i k d. i < length cs \<Longrightarrow> cs ! i = Sleeping k d \<Longrightarrow> timers i"
    and "\<And>i k d. i < length cs \<Longrightarrow> cs ! i = Acquiring k (Some d) \<Longrightarrow> timers i \<or> d \<le> now"
    and "Drowsy \<in> set cs \<Longrightarrow> hp_active pool \<noteq> 0"
  shows "pool_inv maxOpen \<lparr>ps_pool = pool, ps_now = now, ps_callers = cs, ps_timers = timers\<rparr>"
  using assms by (simp add: pool_inv_def)

lemma pool_invD:
  assumes "pool_inv maxOpen s"
  shows "pool_ok (holders (ps_callers s)) (ps_pool s)" "hp_maxOpen (ps_pool s) = maxOpen"
    and "Holding k fd \<in> set (ps_callers s) \<Longrightarrow> file_of (ps_pool s) k = Some fd"
    and "i < length (ps_callers s) \<Longrightarrow> ps_callers s ! i = Sleeping k d \<Longrightarrow> ps_timers s i"
    and "i < length (ps_callers s) \<Longrightarrow> ps_callers s ! i = Acquiring k (Some d) \<Longrightarrow> ps_timers s i \<or> d \<le> ps_now s"
    and "Drowsy \<in> set (ps_callers s) \<Longrightarrow> hp_active (ps_pool s) \<noteq> 0"
  using assms unfolding pool_inv_def by blast+

text \<open>A turn of \<^verbatim>\<open>acquire\<close> keeps the invariant.\<close>

lemma acquires_inv:
  assumes I: "pool_inv maxOpen s" and i: "i < length (ps_callers s)" "ps_callers s ! i = Acquiring kind d" "ps_now s \<le> t1" "t1 \<le> t2"
    and fresh: "\<forall>fd. opened = Some fd \<longrightarrow> fd \<notin> set (hp_files (ps_pool s))" and t: "acquire_turn opened closes t1 t2 d kind (ps_pool s) = (r, d', pool')"
  shows "pool_inv maxOpen \<lparr>ps_pool = pool', ps_now = t2, ps_callers = (ps_callers s)[i := after_acquire kind r d'],
      ps_timers = (ps_timers s)(i := (if r = Waits then d = None \<or> ps_timers s i else False))\<rparr>"
proof (rule pool_invI)
  let ?cs = "ps_callers s" and ?u = "holders (ps_callers s)"
  note D = pool_invD [OF I]
  have S: "acquire_spec ?u kind t2 d (ps_pool s) (r, d', pool')" using acquire_turn_ok [OF fresh D(1), of kind t2 d closes t1] t by simp
  then have H: "held_same ?u (ps_pool s) pool'" by (simp add: acquire_spec_def)
  have ok: "pool_ok (if \<exists>fd. r = Acquired fd then ?u(kind := ?u kind + 1) else ?u) pool'"
    using S by (cases r) (simp_all add: acquire_spec_def)
  moreover have h: "holders (?cs[i := after_acquire kind r d']) = (if \<exists>fd. r = Acquired fd then ?u(kind := ?u kind + 1) else ?u)"
    using holders_update [OF i(1), of "after_acquire kind r d'"] i(2) by (cases r) (auto simp: fun_eq_iff)
  ultimately show "pool_ok (holders (?cs[i := after_acquire kind r d'])) pool'" by simp
  show "hp_maxOpen pool' = maxOpen" using H D(2) by (simp add: held_same_def)
  show "file_of pool' k = Some fd" if m: "Holding k fd \<in> set (?cs[i := after_acquire kind r d'])" for k fd
  proof (cases "Holding k fd \<in> set ?cs")
    case True
    then show ?thesis using D(3) holders_pos H by (simp add: held_same_def)
  next
    case False
    then have "after_acquire kind r d' = Holding k fd" using m set_update_subset_insert [of ?cs i "after_acquire kind r d'"] by auto
    then show ?thesis using S by (cases r) (auto simp: acquire_spec_def)
  qed
  show "((ps_timers s)(i := (if r = Waits then d = None \<or> ps_timers s i else False))) j"
    if "j < length (?cs[i := after_acquire kind r d'])" "?cs[i := after_acquire kind r d'] ! j = Sleeping k d0" for j k d0
  proof (cases "j = i")
    case True
    then have "r = Waits" using that i(1) by (cases r) auto
    then show ?thesis using True S D(5) [OF i(1)] i by (fastforce simp: acquire_spec_def)
  qed (use that D(4) in auto)
  show "((ps_timers s)(i := (if r = Waits then d = None \<or> ps_timers s i else False))) j \<or> d0 \<le> t2"
    if "j < length (?cs[i := after_acquire kind r d'])" "?cs[i := after_acquire kind r d'] ! j = Acquiring k (Some d0)" for j k d0
  proof (cases "j = i")
    case True
    then show ?thesis using that i(1) by (cases r) auto
  qed (use that D(5) i(3,4) in fastforce)
  show "hp_active pool' \<noteq> 0" if "Drowsy \<in> set (?cs[i := after_acquire kind r d'])"
  proof -
    have "Drowsy \<in> set ?cs" using that set_update_subset_insert [of ?cs i "after_acquire kind r d'"] by (cases r) auto
    then have "hp_active (ps_pool s) \<noteq> 0" by (rule D(6))
    then show ?thesis using pool_ok_users(2,4) [OF D(1)] pool_ok_users(4) [OF ok] by (auto simp: add_nonneg_eq_0_iff split: if_splits)
  qed
qed

text \<open>Every step keeps the invariant.\<close>

lemma wake_Sleeping: "wake c \<noteq> Sleeping k d" "wake c \<noteq> Drowsy" "wake c = Acquiring k (Some d) \<Longrightarrow> c = Acquiring k (Some d) \<or> c = Sleeping k d"
  by (cases c; auto)+

text \<open>A step that only moves one caller, without a new handle, timer or wait.\<close>

lemma moves_inv:
  assumes I: "pool_inv maxOpen s" and c: "\<And>kind fd. c \<noteq> Holding kind fd" "\<And>kind d. c \<noteq> Sleeping kind d" "\<And>kind d. c \<noteq> Acquiring kind (Some d)"
    and i: "i < length (ps_callers s)" "\<And>kind fd. ps_callers s ! i \<noteq> Holding kind fd" "c = Drowsy \<Longrightarrow> hp_active pool \<noteq> 0"
    and p: "pool_ok (holders (ps_callers s)) pool" "hp_maxOpen pool = maxOpen" "hp_active pool = hp_active (ps_pool s)"
      "\<And>k. 0 < holders (ps_callers s) k \<Longrightarrow> file_of pool k = file_of (ps_pool s) k"
  shows "pool_inv maxOpen (s\<lparr>ps_pool := pool, ps_callers := (ps_callers s)[i := c]\<rparr>)"
proof -
  note D = pool_invD [OF I]
  have h: "holders ((ps_callers s)[i := c]) = holders (ps_callers s)" using holders_update [OF i(1)] c(1) i(2) by (simp add: fun_eq_iff)
  have m: "x \<in> set ((ps_callers s)[i := c]) \<Longrightarrow> x = c \<or> x \<in> set (ps_callers s)" for x using set_update_subset_insert [of "ps_callers s" i c] by blast
  have n: "(ps_callers s)[i := c] ! j = c \<or> (ps_callers s)[i := c] ! j = ps_callers s ! j" for j using i(1) by (cases "j = i") auto
  have "file_of pool k = Some fd" if "Holding k fd \<in> set ((ps_callers s)[i := c])" for k fd
    using m [OF that] c(1) D(3) p(4) holders_pos by metis
  moreover have "ps_timers s j" if "j < length (ps_callers s)" "(ps_callers s)[i := c] ! j = Sleeping k d" for j k d
    using that n [of j] c(2) D(4) by metis
  moreover have "ps_timers s j \<or> d \<le> ps_now s" if "j < length (ps_callers s)" "(ps_callers s)[i := c] ! j = Acquiring k (Some d)" for j k d
    using that n [of j] c(3) D(5) by metis
  moreover have "hp_active pool \<noteq> 0" if "Drowsy \<in> set ((ps_callers s)[i := c])" using m [OF that] i(3) D(6) p(3) by auto
  ultimately show ?thesis using h p by (simp add: pool_inv_def)
qed

lemma wake_inv:
  assumes "pool_inv maxOpen s" "\<And>j k d. j \<noteq> i \<Longrightarrow> timers j = ps_timers s j" "\<And>k d. ps_callers s ! i \<in> {Sleeping k d, Acquiring k (Some d)} \<Longrightarrow> timers i = ps_timers s i \<or> d \<le> ps_now s"
  shows "pool_inv maxOpen (s\<lparr>ps_callers := map wake (ps_callers s), ps_timers := timers\<rparr>)"
proof -
  note D = pool_invD [OF assms(1)]
  have "timers j" if j: "j < length (ps_callers s)" "wake (ps_callers s ! j) = Acquiring k (Some d)" "\<not> d \<le> ps_now s" for j k d
    using j(3) wake_Sleeping(3) [OF j(2)] D(4,5) [OF j(1)] assms(2,3) by (cases "j = i") auto
  moreover have "Holding k fd \<in> wake ` set (ps_callers s) \<Longrightarrow> Holding k fd \<in> set (ps_callers s)" for k fd using wake_Holding by (metis imageE)
  moreover have "Drowsy \<notin> wake ` set (ps_callers s)" using wake_Sleeping(2) by (metis imageE)
  ultimately show ?thesis using D wake_Sleeping(1) by (auto simp: pool_inv_def)
qed

lemma releases_inv:
  assumes I: "pool_inv maxOpen s" and i: "i < length (ps_callers s)" "ps_callers s ! i = Holding kind fd" and r: "wal_release kind (ps_pool s) = Some pool'"
  shows "pool_inv maxOpen (s\<lparr>ps_pool := pool', ps_callers := map wake ((ps_callers s)[i := Idle])\<rparr>)"
proof -
  note D = pool_invD [OF I]
  let ?cs = "(ps_callers s)[i := Idle]"
  have "0 < holders (ps_callers s) kind" using i holders_pos nth_mem by metis
  then have P: "pool_ok ((holders (ps_callers s))(kind := holders (ps_callers s) kind - 1)) pool'" "file_of pool' = file_of (ps_pool s)" "hp_maxOpen pool' = maxOpen"
    using release_ok [OF D(1), of kind] r D(2) by auto
  have h: "holders ?cs = (holders (ps_callers s))(kind := holders (ps_callers s) kind - 1)"
    using holders_update [OF i(1), of Idle] i(2) by (auto simp: fun_eq_iff)
  have H: "Holding k f \<in> set (map wake ?cs) \<Longrightarrow> Holding k f \<in> set (ps_callers s)" for k f
    using wake_Holding set_update_subset_insert [of "ps_callers s" i Idle] by (auto simp: image_iff) (metis caller.distinct(5) insertE subsetD)
  have "ps_timers s j" if j: "j < length (ps_callers s)" "wake (?cs ! j) = Acquiring k (Some d)" "\<not> d \<le> ps_now s" for j k d
    using j wake_Sleeping(3) [OF j(2)] D(4,5) [OF j(1)] i(1) by (cases "j = i") auto
  moreover have "Drowsy \<notin> set (map wake ?cs)" using wake_Sleeping(2) by (auto simp: image_iff) metis
  ultimately show ?thesis using P h D(3) H wake_Sleeping(1) by (auto simp: pool_inv_def)
qed

lemma pool_step_inv:
  assumes "pool_step s s'" "pool_inv maxOpen s"
  shows "pool_inv maxOpen s'"
  using assms
proof (cases rule: pool_step.cases)
  case (passes t)
  then show ?thesis using assms(2) by (fastforce simp: pool_inv_def)
next
  case (calls_acquire i kind)
  show ?thesis unfolding calls_acquire(1)
    using moves_inv [OF assms(2), of "Acquiring kind None" i "ps_pool s"] calls_acquire pool_invD(1,2) [OF assms(2)] by simp
next
  case (acquires i kind d t1 t2 opened closes r d' pool')
  show ?thesis unfolding acquires(1) by (rule acquires_inv [OF assms(2) acquires(2-)])
next
  case (timer i kind d)
  show ?thesis unfolding timer(1) by (rule wake_inv [OF assms(2), of i]) (use timer in auto)
next
  case (releases i kind fd pool')
  show ?thesis unfolding releases(1) by (rule releases_inv [OF assms(2) releases(2-)])
next
  case (calls_close i r pool')
  show ?thesis
  proof (cases "hp_closed (ps_pool s)")
    case True
    then have "r \<noteq> None" "pool' = ps_pool s" using calls_close(4) by (auto simp: close_begin_def)
    then show ?thesis using calls_close(1) assms(2) by auto
  next
    case False
    then have p: "r = None" "pool' = (ps_pool s)\<lparr>hp_closed := True\<rparr>" using calls_close(4) by (simp_all add: close_begin_def)
    have ok: "pool_ok u (pool\<lparr>hp_closed := True\<rparr>) \<longleftrightarrow> pool_ok u pool" "file_of (pool\<lparr>hp_closed := True\<rparr>) = file_of pool" for u pool
      by (auto simp: pool_ok_def file_of_def fun_eq_iff)
    have "pool_inv maxOpen (s\<lparr>ps_pool := pool', ps_callers := (ps_callers s)[i := Closing]\<rparr>)"
      using moves_inv [OF assms(2), of Closing i pool'] calls_close(2,3) pool_invD(1,2) [OF assms(2)] by (simp add: p ok)
    from wake_inv [OF this, of i "ps_timers s"] show ?thesis unfolding calls_close(1) using p by simp
  qed
next
  case (closes i fails r pool')
  note C = close_turn_ok [OF pool_invD(1) [OF assms(2)] closes(4)]
  show ?thesis unfolding closes(1)
    by (rule moves_inv [OF assms(2)]) (use closes C pool_invD(2) [OF assms(2)] in \<open>auto split: if_splits\<close>)
qed

lemma pool_start_inv:
  assumes "1 \<le> maxOpen"
  shows "pool_inv maxOpen \<lparr>ps_pool = newWALHandlePool maxOpen appendHandle, ps_now = t, ps_callers = replicate n Idle, ps_timers = \<lambda>_. False\<rparr>"
proof -
  have "holders (replicate n Idle) = (\<lambda>_. 0)" by (simp add: fun_eq_iff holders_def)
  moreover have "pool_ok (\<lambda>_. 0) (newWALHandlePool maxOpen appendHandle)" "hp_maxOpen (newWALHandlePool maxOpen appendHandle) = maxOpen"
    using assms by (cases appendHandle; auto simp: newWALHandlePool_def admit_handle_def pool_ok_def handle_count_def Let_def split: if_splits)+
  ultimately show ?thesis by (auto simp: pool_inv_def)
qed

lemma pool_reachable_inv: "pool_reachable maxOpen appendHandle s \<Longrightarrow> 1 \<le> maxOpen \<Longrightarrow> pool_inv maxOpen s"
  by (induction rule: pool_reachable.induct) (auto intro: pool_start_inv pool_step_inv)

section \<open>Properties\<close>

text \<open>
  (C36) The pool of log handles is safe in every interleaving of its callers.  However many callers acquire, release,
  time out and close, and whatever opening and closing files report, there are never more files open than the limit
  allows, no file leaks out of the table, a handle that is checked out is the open file in the table and is not closed
  or replaced under its caller, and a release finds its entry.
\<close>

theorem wal_pool_safe:
  assumes "1 \<le> maxOpen" "pool_reachable maxOpen appendHandle s"
  shows "int (length (hp_files (ps_pool s))) = handle_count (ps_pool s) \<and> handle_count (ps_pool s) \<le> maxOpen \<and>
    (i < length (ps_callers s) \<and> ps_callers s ! i = Holding kind fd \<longrightarrow>
       fd \<in> set (hp_files (ps_pool s)) \<and> file_of (ps_pool s) kind = Some fd \<and> wal_release kind (ps_pool s) \<noteq> None)"
proof -
  note I = pool_reachable_inv [OF assms(2,1)]
  note D = pool_invD [OF I]
  have "fd \<in> set (hp_files (ps_pool s)) \<and> file_of (ps_pool s) kind = Some fd \<and> wal_release kind (ps_pool s) \<noteq> None"
    if h: "i < length (ps_callers s)" "ps_callers s ! i = Holding kind fd"
  proof -
    have f: "file_of (ps_pool s) kind = Some fd" using D(3) h by (metis nth_mem)
    then obtain p where p: "hp_handles (ps_pool s) kind = Some p" "whe_file (hp_heap (ps_pool s) p) = fd" by (auto simp: file_of_def)
    moreover have "set (hp_files (ps_pool s)) = (\<lambda>p. whe_file (hp_heap (ps_pool s) p)) ` set (hp_recent (ps_pool s))" using D(1) unfolding pool_ok_def by blast
    ultimately show ?thesis using f pool_ok_table(2) [OF D(1)] by (auto simp: wal_release_def)
  qed
  moreover have "handle_count (ps_pool s) \<le> maxOpen" using D(1,2) unfolding pool_ok_def by blast
  ultimately show ?thesis using pool_ok_count(2) [OF D(1)] by blast
qed

text \<open>Two callers and room for one file: the second one waits, the first one gives the handle back, and the wait ends.\<close>

definition one_handle :: pool_system where
  "one_handle = \<lparr>ps_pool = newWALHandlePool 1 (Some 7), ps_now = 0, ps_callers = replicate 2 Idle, ps_timers = \<lambda>_. False\<rparr>"

definition one_acquired :: pool_system where
  "one_acquired = (let (r, d, pool) = acquire_turn None (\<lambda>_. False) 0 0 None walAppendHandle (ps_pool one_handle)
     in \<lparr>ps_pool = pool, ps_now = 0, ps_callers = [after_acquire walAppendHandle r d, Idle], ps_timers = (\<lambda>_. False)(0 := (r = Waits))\<rparr>)"

lemma one_acquired_reachable: "pool_reachable 1 (Some 7) one_acquired" "ps_callers one_acquired = [Holding walAppendHandle 7, Idle]"
proof -
  have s: "pool_reachable 1 (Some 7) one_handle" unfolding one_handle_def by (rule pool_reachable.start)
  let ?s = "one_handle\<lparr>ps_callers := (ps_callers one_handle)[0 := Acquiring walAppendHandle None]\<rparr>"
  have "pool_reachable 1 (Some 7) ?s" by (rule pool_reachable.step [OF s pool_step.calls_acquire]) (simp_all add: one_handle_def)
  moreover have "pool_step ?s one_acquired"
    using pool_step.acquires [of 0 ?s walAppendHandle None 0 0 None "\<lambda>_. False"]
    by (simp add: one_acquired_def one_handle_def acquire_turn.simps newWALHandlePool_def admit_handle_def add_user_def numeral_2_eq_2)
  ultimately show "pool_reachable 1 (Some 7) one_acquired" by (rule pool_reachable.step)
  show "ps_callers one_acquired = [Holding walAppendHandle 7, Idle]"
    by (simp add: one_acquired_def one_handle_def acquire_turn.simps newWALHandlePool_def admit_handle_def add_user_def)
qed

theorem wal_pool_safe_witness:
  "handle_count (ps_pool one_acquired) \<le> 1 \<and> 7 \<in> set (hp_files (ps_pool one_acquired)) \<and> wal_release walAppendHandle (ps_pool one_acquired) \<noteq> None"
  using wal_pool_safe [OF _ one_acquired_reachable(1), of 0 walAppendHandle 7] one_acquired_reachable(2) by simp

text \<open>Once the deadline of a call has passed, its next turn returns.\<close>

lemma expired_turn:
  assumes "pool_inv maxOpen s" "d \<le> t2" "\<forall>fd. opened = Some fd \<longrightarrow> fd \<notin> set (hp_files (ps_pool s))"
  shows "fst (acquire_turn opened closes t1 t2 (Some d) kind (ps_pool s)) \<noteq> Waits"
proof -
  obtain r d' pool' where t: "acquire_turn opened closes t1 t2 (Some d) kind (ps_pool s) = (r, d', pool')" by (metis prod_cases3)
  show ?thesis using acquire_turn_ok [OF assms(3) pool_invD(1) [OF assms(1)], of kind t2 "Some d" closes t1] assms(2) unfolding t by (auto simp: acquire_spec_def)
qed

lemma holder_exists:
  assumes "pool_ok (holders cs) pool" "hp_active pool \<noteq> 0"
  shows "\<exists>j kind fd. j < length cs \<and> cs ! j = Holding kind fd"
proof -
  note U = pool_ok_users [OF assms(1)]
  obtain k where "0 < holders cs k" using assms(2) U(2) [of walAppendHandle] U(2) [of walScanHandle] U(4) by (metis add_0 order_le_less)
  then have "filter (\<lambda>c. \<exists>fd. c = Holding k fd) cs \<noteq> []" by (auto simp: holders_def)
  then obtain c fd where "c \<in> set cs" "c = Holding k fd" by (auto simp: filter_empty_conv)
  then show ?thesis by (metis in_set_conv_nth)
qed

text \<open>The callers that have a handle can all give it back, while a caller is in \<^verbatim>\<open>close\<close>.\<close>

lemma can_drain:
  assumes "pool_inv maxOpen s" "i < length (ps_callers s)" "ps_callers s ! i \<in> {Closing, Drowsy}"
  shows "\<exists>s'. pool_step\<^sup>*\<^sup>* s s' \<and> pool_inv maxOpen s' \<and> length (ps_callers s') = length (ps_callers s) \<and> ps_callers s' ! i = Closing \<and> hp_active (ps_pool s') = 0"
  using assms
proof (induction "nat (hp_active (ps_pool s))" arbitrary: s rule: less_induct)
  case less
  note D = pool_invD [OF less.prems(1)]
  note U = pool_ok_users [OF D(1)]
  show ?case
  proof (cases "hp_active (ps_pool s) = 0")
    case True
    then show ?thesis using less.prems D(6) by (metis (no_types) insert_iff empty_iff nth_mem rtranclp.rtrancl_refl)
  next
    case False
    then obtain j k fd where j: "j < length (ps_callers s)" "ps_callers s ! j = Holding k fd" using holder_exists [OF D(1)] by blast
    then have k: "0 < holders (ps_callers s) k" using holders_pos nth_mem by metis
    obtain pool' where p: "wal_release k (ps_pool s) = Some pool'" "pool_ok ((holders (ps_callers s))(k := holders (ps_callers s) k - 1)) pool'"
      using release_ok [OF D(1) k] by blast
    let ?s = "s\<lparr>ps_pool := pool', ps_callers := map wake ((ps_callers s)[j := Idle])\<rparr>"
    have st: "pool_step s ?s" by (rule pool_step.releases [OF j p(1)])
    have "hp_active pool' = hp_active (ps_pool s) - 1" using U(4) pool_ok_users(4) [OF p(2)] by (cases k) simp_all
    moreover have "0 < hp_active (ps_pool s)" using False U(2) [of walAppendHandle] U(2) [of walScanHandle] U(4) by linarith
    moreover have "ps_callers ?s ! i = Closing" using less.prems(2,3) j by (cases "i = j") auto
    ultimately obtain s' where "pool_step\<^sup>*\<^sup>* ?s s'" "pool_inv maxOpen s'" "length (ps_callers s') = length (ps_callers ?s)" "ps_callers s' ! i = Closing" "hp_active (ps_pool s') = 0"
      using less.hyps [of ?s] pool_step_inv [OF st less.prems(1)] less.prems(2) by auto
    then show ?thesis using converse_rtranclp_into_rtranclp [of pool_step, OF st] by (intro exI [of _ s']) simp
  qed
qed

definition returned :: "nat \<Rightarrow> pool_system \<Rightarrow> bool" where
  "returned i s \<longleftrightarrow> ps_callers s ! i = Idle \<or> (\<exists>kind fd. ps_callers s ! i = Holding kind fd)"

lemma closing_returns:
  assumes "pool_inv maxOpen s" "i < length (ps_callers s)" "ps_callers s ! i \<in> {Closing, Drowsy}"
  shows "\<exists>s'. pool_step\<^sup>*\<^sup>* s s' \<and> returned i s'"
proof -
  obtain s1 where 1: "pool_step\<^sup>*\<^sup>* s s1" "pool_inv maxOpen s1" "length (ps_callers s1) = length (ps_callers s)" "ps_callers s1 ! i = Closing" "hp_active (ps_pool s1) = 0"
    using can_drain [OF assms] by blast
  obtain r pool' where c: "close_turn (\<lambda>_. False) (ps_pool s1) = (r, pool')" by fastforce
  have "r \<noteq> None" using close_turn_ok [OF pool_invD(1) [OF 1(2)] c] 1(5) by simp
  moreover have "pool_step s1 (s1\<lparr>ps_pool := pool', ps_callers := (ps_callers s1)[i := (if r = None then Drowsy else Idle)]\<rparr>)"
    by (rule pool_step.closes [OF _ 1(4) c]) (use 1(3) assms(2) in simp)
  note rtranclp.rtrancl_into_rtrancl [OF 1(1) this]
  ultimately show ?thesis using 1(3) assms(2) by (intro exI conjI) (assumption, auto simp: returned_def)
qed

lemma acquires_expired:
  assumes "pool_inv maxOpen s" "i < length (ps_callers s)" "ps_callers s ! i = Acquiring kind (Some d)"
  shows "\<exists>s'. pool_step s s' \<and> returned i s'"
proof -
  let ?t = "max d (ps_now s)"
  obtain r d' pool' where t: "acquire_turn None (\<lambda>_. False) ?t ?t (Some d) kind (ps_pool s) = (r, d', pool')" by (metis prod_cases3)
  have "r \<noteq> Waits" using expired_turn [OF assms(1), of d ?t None "\<lambda>_. False" ?t kind] t by simp
  then have "after_acquire kind r d' = Idle \<or> (\<exists>k fd. after_acquire kind r d' = Holding k fd)" by (cases r) auto
  then have "returned i \<lparr>ps_pool = pool', ps_now = ?t, ps_callers = (ps_callers s)[i := after_acquire kind r d'],
      ps_timers = (ps_timers s)(i := (if r = Waits then Some d = None \<or> ps_timers s i else False))\<rparr>" using assms(2) by (simp add: returned_def)
  then show ?thesis using pool_step.acquires [OF assms(2,3) _ _ _ t] by (intro exI conjI) simp_all
qed

lemma sleeping_returns:
  assumes "pool_inv maxOpen s" "i < length (ps_callers s)" "ps_callers s ! i = Sleeping kind d"
  shows "\<exists>s'. pool_step\<^sup>*\<^sup>* s s' \<and> returned i s'"
proof -
  let ?s = "s\<lparr>ps_now := max d (ps_now s)\<rparr>"
  have 1: "pool_step s ?s" by (rule pool_step.passes) simp
  let ?u = "?s\<lparr>ps_callers := map wake (ps_callers ?s), ps_timers := (ps_timers ?s)(i := False)\<rparr>"
  have 2: "pool_step ?s ?u" by (rule pool_step.timer) (use assms pool_invD(4) [OF assms(1)] in auto)
  have "\<exists>s'. pool_step ?u s' \<and> returned i s'"
    by (rule acquires_expired [OF pool_step_inv [OF 2 pool_step_inv [OF 1 assms(1)]], of i kind d]) (use assms in auto)
  then show ?thesis using 1 2 by (meson converse_rtranclp_into_rtranclp r_into_rtranclp)
qed

lemma can_return:
  assumes "pool_inv maxOpen s" "i < length (ps_callers s)"
  shows "\<exists>s'. pool_step\<^sup>*\<^sup>* s s' \<and> returned i s'"
proof (cases "ps_callers s ! i")
  case (Acquiring kind d)
  show ?thesis
  proof (cases d)
    case (Some x)
    then show ?thesis using acquires_expired [OF assms] Acquiring by blast
  next
    case None
    obtain r d' pool' where t: "acquire_turn None (\<lambda>_. False) (ps_now s) (ps_now s) d kind (ps_pool s) = (r, d', pool')" by (metis prod_cases3)
    note st = pool_step.acquires [OF assms(2) Acquiring order_refl order_refl _ t, simplified]
    show ?thesis
    proof (cases "r = Waits")
      case True
      then show ?thesis using sleeping_returns [OF pool_step_inv [OF st assms(1)], of i kind "the d'"] st assms(2)
        by (auto intro: converse_rtranclp_into_rtranclp)
    next
      case False
      then have "after_acquire kind r d' = Idle \<or> (\<exists>k fd. after_acquire kind r d' = Holding k fd)" by (cases r) auto
      then have "returned i \<lparr>ps_pool = pool', ps_now = ps_now s, ps_callers = (ps_callers s)[i := after_acquire kind r d'],
          ps_timers = (ps_timers s)(i := (if r = Waits then d = None \<or> ps_timers s i else False))\<rparr>" using assms(2) by (simp add: returned_def)
      then show ?thesis using r_into_rtranclp [of pool_step, OF st] by blast
    qed
  qed
next
  case (Sleeping kind d)
  then show ?thesis by (rule sleeping_returns [OF assms])
next
  case Closing
  then show ?thesis using closing_returns [OF assms] by simp
next
  case Drowsy
  then show ?thesis using closing_returns [OF assms] by simp
qed (auto simp: returned_def)

text \<open>
  (C37) No caller of the pool is stuck.  In every reachable state, every caller that is inside \<^verbatim>\<open>acquire\<close> or \<^verbatim>\<open>close\<close> can
  still return: asleep in \<^verbatim>\<open>acquire\<close> it is woken by its timer at the latest, and from its deadline on its next turn returns,
  with a handle or an error, whatever the others do; in \<^verbatim>\<open>close\<close> it waits only while a handle is checked out, and the last
  release wakes it.
\<close>

theorem wal_pool_no_caller_stuck:
  assumes "1 \<le> maxOpen" "pool_reachable maxOpen appendHandle s" "i < length (ps_callers s)"
  shows "(\<exists>s'. pool_step\<^sup>*\<^sup>* s s' \<and> returned i s') \<and>
    (ps_callers s ! i = Acquiring kind (Some d) \<and> d \<le> ps_now s \<and> pool_step s s' \<longrightarrow> (\<forall>d'. ps_callers s' ! i \<noteq> Sleeping kind d')) \<and>
    (ps_callers s ! i = Drowsy \<longrightarrow> (\<exists>j kind fd. j < length (ps_callers s) \<and> ps_callers s ! j = Holding kind fd))"
proof (intro conjI impI)
  note I = pool_reachable_inv [OF assms(2,1)]
  note D = pool_invD [OF I]
  show "\<exists>s'. pool_step\<^sup>*\<^sup>* s s' \<and> returned i s'" by (rule can_return [OF I assms(3)])
  show "\<forall>d'. ps_callers s' ! i \<noteq> Sleeping kind d'" if x: "ps_callers s ! i = Acquiring kind (Some d) \<and> d \<le> ps_now s \<and> pool_step s s'"
  proof -
    have "pool_step s s'" using x by simp
    then show ?thesis
    proof (cases rule: pool_step.cases)
      case (acquires j kind' dl t1 t2 opened closes r d' pool')
      show ?thesis
      proof (cases "j = i")
        case True
        then have "r \<noteq> Waits" using expired_turn [OF I, of d t2 opened closes t1 kind] acquires x by auto
        then show ?thesis using acquires(1) True assms(3) by (cases r) auto
      qed (use acquires x in auto)
    qed (use x assms(3) wake_Sleeping(1) in \<open>auto simp: nth_list_update split: if_splits\<close>)
  qed
  show "\<exists>j kind fd. j < length (ps_callers s) \<and> ps_callers s ! j = Holding kind fd" if "ps_callers s ! i = Drowsy"
    using D(6) that assms(3) holder_exists [OF D(1)] by (metis nth_mem)
qed

definition one_waiting :: pool_system where
  "one_waiting = (let (r, d, pool) = acquire_turn None (\<lambda>_. False) 0 0 None walScanHandle (ps_pool one_acquired)
     in \<lparr>ps_pool = pool, ps_now = 0, ps_callers = [Holding walAppendHandle 7, after_acquire walScanHandle r d], ps_timers = (\<lambda>_. False)(0 := False, 1 := (r = Waits))\<rparr>)"

lemmas one_defs = one_waiting_def one_acquired_def one_handle_def acquire_turn.simps newWALHandlePool_def admit_handle_def add_user_def
  evictLeastRecentIdle_def moveToFront_ptr_def handle_count_def walHandleAcquireTimeout_def

lemma one_waiting_reachable: "pool_reachable 1 (Some 7) one_waiting" "ps_callers one_waiting = [Holding walAppendHandle 7, Sleeping walScanHandle 1000000000]"
proof -
  let ?s = "one_acquired\<lparr>ps_callers := (ps_callers one_acquired)[1 := Acquiring walScanHandle None]\<rparr>"
  have "pool_reachable 1 (Some 7) ?s"
    by (rule pool_reachable.step [OF one_acquired_reachable(1) pool_step.calls_acquire]) (simp_all add: one_acquired_reachable(2))
  moreover have "pool_step ?s one_waiting"
    using pool_step.acquires [of 1 ?s walScanHandle None 0 0 None "\<lambda>_. False"] by (simp add: one_defs)
  ultimately show "pool_reachable 1 (Some 7) one_waiting" by (rule pool_reachable.step)
  show "ps_callers one_waiting = [Holding walAppendHandle 7, Sleeping walScanHandle 1000000000]" by (simp add: one_defs)
qed

theorem wal_pool_no_caller_stuck_witness:
  "ps_callers one_waiting ! 1 = Sleeping walScanHandle 1000000000 \<and> (\<exists>s'. pool_step\<^sup>*\<^sup>* one_waiting s' \<and> returned 1 s')"
  using wal_pool_no_caller_stuck [OF _ one_waiting_reachable(1), of 1] one_waiting_reachable(2) by simp

end
