(* ===== verification/SocketIO.thy ===== *)
theory SocketIO
  imports Response
begin

text \<open>
  The socket side of a connection (\<^verbatim>\<open>server/socket_io.go\<close>): the line buffer that cuts the incoming stream into frames,
  and the writing of responses.

  A connection is a script: the pieces in which the stream arrives, and the error that ends it.  A read takes no more
  than there is room for, so a long piece is delivered in parts.  Every way a reader may deliver a stream is a script.
  A frame that is returned is a view of the buffer, used before the next read; here it is a value.
\<close>

section \<open>The code\<close>

text \<open>Errors of a connection, by the classes that the server tells apart.\<close>

datatype io_error = EOF | ErrNoProgress | ErrClosedPipe | ErrNetClosed | NetTimeout | PeerReset | ContextDone | SocketFault

record connection =
  cn_pieces :: "bytes list"
  cn_failure :: io_error
  cn_eager :: bool

text \<open>\<open>cn_eager\<close>: the error that ends the stream comes together with the last piece.\<close>

definition conn_Read :: "nat \<Rightarrow> connection \<Rightarrow> bytes \<times> io_error option \<times> connection" where
  "conn_Read n c =
     (case cn_pieces c of
        [] \<Rightarrow> ([], Some (cn_failure c), c)
      | piece # rest \<Rightarrow>
          if length piece \<le> n then (piece, if rest = [] \<and> cn_eager c then Some (cn_failure c) else None, c\<lparr>cn_pieces := rest\<rparr>)
          else (take n piece, None, c\<lparr>cn_pieces := drop n piece # rest\<rparr>))"

record lineBuffer =
  lb_data :: bytes
  lb_start :: nat
  lb_end :: nat
  lb_pendingErr :: "io_error option"

definition newline :: byte where
  "newline = 10"

definition newLineBuffer :: "nat \<Rightarrow> lineBuffer" where
  "newLineBuffer maxLineBytes = \<lparr>lb_data = replicate (maxLineBytes + 1) 0, lb_start = 0, lb_end = 0, lb_pendingErr = None\<rparr>"

definition lb_maxLineBytes :: "lineBuffer \<Rightarrow> nat" where
  "lb_maxLineBytes b = length (lb_data b) - 1"

definition buffered :: "lineBuffer \<Rightarrow> bytes" where
  "buffered b = drop (lb_start b) (take (lb_end b) (lb_data b))"

text \<open>\<^verbatim>\<open>bytes.IndexByte\<close>\<close>

fun IndexByte :: "byte \<Rightarrow> bytes \<Rightarrow> nat option" where
  "IndexByte c [] = None"
| "IndexByte c (x # xs) = (if x = c then Some 0 else map_option Suc (IndexByte c xs))"

definition consume :: "nat \<Rightarrow> lineBuffer \<Rightarrow> lineBuffer" where
  "consume e b =
     (let b = b\<lparr>lb_start := e\<rparr>
      in if lb_start b = lb_end b then b\<lparr>lb_start := 0, lb_end := 0\<rparr> else b)"

text \<open>Bytes that are copied into the buffer from \<open>at\<close> on.\<close>

definition put_at :: "nat \<Rightarrow> bytes \<Rightarrow> bytes \<Rightarrow> bytes" where
  "put_at pos bs data = take pos data @ bs @ drop (pos + length bs) data"

definition compact :: "lineBuffer \<Rightarrow> lineBuffer" where
  "compact b =
     (if lb_start b = 0 then b
      else b\<lparr>lb_data := put_at 0 (buffered b) (lb_data b), lb_end := lb_end b - lb_start b, lb_start := 0\<rparr>)"

text \<open>
  The results of the Go functions: the frame, whether it was too long, and the error; or the panic of a slice
  expression \<^verbatim>\<open>b.data[b.start:b.end]\<close> whose start is behind its end.
\<close>

datatype read_outcome = Frame bytes bool "io_error option" | SlicePanic

type_synonym read_result = "read_outcome \<times> lineBuffer \<times> connection"

partial_function (option) discard_loop :: "lineBuffer \<Rightarrow> connection \<Rightarrow> read_result option" where
  "discard_loop b c =
     (case conn_Read (length (lb_data b)) c of (bs, err, c) \<Rightarrow>
      let b = b\<lparr>lb_data := put_at 0 bs (lb_data b)\<rparr>
      in case IndexByte newline bs of
           Some i \<Rightarrow> Some (Frame [] True None, b\<lparr>lb_start := i + 1, lb_end := length bs, lb_pendingErr := err\<rparr>, c)
         | None \<Rightarrow>
             (case err of
                Some e \<Rightarrow> Some (Frame [] True (Some e), b, c)
              | None \<Rightarrow> if length bs = 0 then Some (Frame [] True (Some ErrNoProgress), b, c) else discard_loop b c))"

definition discardOversized :: "lineBuffer \<Rightarrow> connection \<Rightarrow> read_result option" where
  "discardOversized b c = discard_loop (b\<lparr>lb_start := 0, lb_end := 0\<rparr>) c"

text \<open>What a read leaves in the buffer.\<close>

definition received :: "nat \<Rightarrow> bytes \<Rightarrow> io_error option \<Rightarrow> lineBuffer \<Rightarrow> lineBuffer" where
  "received pos bs err b =
     b\<lparr>lb_data := put_at pos bs (lb_data b), lb_end := pos + length bs, lb_pendingErr := (if err = None then lb_pendingErr b else err)\<rparr>"

partial_function (option) readFrame :: "lineBuffer \<Rightarrow> connection \<Rightarrow> read_result option" where
  "readFrame b c =
     (if lb_start b > lb_end b then Some (SlicePanic, b, c)
      else case IndexByte newline (buffered b) of
        Some i \<Rightarrow>
          let frameEnd = lb_start b + i + 1;
              frame = drop (lb_start b) (take frameEnd (lb_data b));
              tooLong = length frame > lb_maxLineBytes b
          in Some (if tooLong then Frame [] True None else Frame frame False None, consume frameEnd b, c)
      | None \<Rightarrow>
     (case lb_pendingErr b of
        Some err \<Rightarrow>
          let frame = buffered b;
              tooLong = length frame > lb_maxLineBytes b
          in Some (Frame frame tooLong (Some err), consume (lb_end b) (b\<lparr>lb_pendingErr := None\<rparr>), c)
      | None \<Rightarrow>
     if length (buffered b) > lb_maxLineBytes b then discardOversized b c
     else let b = compact b
          in case conn_Read (length (lb_data b) - lb_end b) c of (bs, err, c) \<Rightarrow>
             let b = received (lb_end b) bs err b
             in if length bs = 0 \<and> err = None then Some (Frame [] False (Some ErrNoProgress), b, c)
                else readFrame b c))"

text \<open>\<open>setIdle\<close> and \<open>setRequest\<close>: the errors of \<^verbatim>\<open>SetReadDeadline\<close>.\<close>

definition readFrameWithin :: "io_error option \<Rightarrow> io_error option \<Rightarrow> lineBuffer \<Rightarrow> connection \<Rightarrow> read_result option" where
  "readFrameWithin setIdle setRequest b c =
     (if lb_start b \<noteq> lb_end b \<or> lb_pendingErr b \<noteq> None then
        (if lb_start b > lb_end b then Some (SlicePanic, b, c)
         else if IndexByte newline (buffered b) \<noteq> None \<or> lb_pendingErr b \<noteq> None then readFrame b c
         else if setRequest \<noteq> None then Some (Frame [] False setRequest, b, c)
         else readFrame b c)
      else if setIdle \<noteq> None then Some (Frame [] False setIdle, b, c)
      else case conn_Read (length (lb_data b)) c of (bs, err, c) \<Rightarrow>
        if length bs \<noteq> 0 \<and> setRequest \<noteq> None then Some (Frame [] False setRequest, received 0 bs None b, c)
        else let b = received 0 bs err b
             in if length bs = 0 \<and> err = None then Some (Frame [] False (Some ErrNoProgress), b, c)
                else readFrame b c)"

text \<open>
  Writing a response.  The writer is the list of answers it will give: how many bytes of the rest it takes, or an
  error; \<open>sent\<close> is what has arrived.
\<close>

datatype write_outcome = Written | WriteFailed | ErrShortWrite_io

fun writeAll :: "nat option list \<Rightarrow> bytes \<Rightarrow> bytes \<Rightarrow> write_outcome \<times> bytes" where
  "writeAll answers sent data =
     (if length data = 0 then (Written, sent)
      else case answers of
        [] \<Rightarrow> (Written, sent @ data)
      | None # rest \<Rightarrow> (WriteFailed, sent)
      | Some n # rest \<Rightarrow>
          let n = min n (length data)
          in if n = 0 then (ErrShortWrite_io, sent) else writeAll rest (sent @ take n data) (drop n data))"

section \<open>The reference\<close>

text \<open>The first frame of a stream and what is left of it.\<close>

definition next_frame :: "nat \<Rightarrow> io_error \<Rightarrow> bytes \<Rightarrow> (bytes \<times> bool \<times> io_error option) \<times> bytes" where
  "next_frame limit failure stream =
     (case IndexByte newline stream of
        Some i \<Rightarrow> (if i + 1 > limit then ([], True, None) else (take (i + 1) stream, False, None), drop (i + 1) stream)
      | None \<Rightarrow> (if length stream > limit then ([], True, Some failure) else (stream, False, Some failure), []))"

text \<open>The frame of an answer that reports an oversized line is not looked at.\<close>

fun seen :: "read_outcome \<Rightarrow> (bytes \<times> bool \<times> io_error option) option" where
  "seen (Frame frame tooLong err) = Some (if tooLong then [] else frame, tooLong, err)"
| "seen SlicePanic = None"

section \<open>Reading\<close>

lemma IndexByte_None: "IndexByte c xs = None \<longleftrightarrow> c \<notin> set xs"
  by (induction xs) auto

lemma IndexByte_append: "IndexByte c (xs @ ys) = (case IndexByte c xs of Some i \<Rightarrow> Some i | None \<Rightarrow> (case IndexByte c ys of Some i \<Rightarrow> Some (length xs + i) | None \<Rightarrow> None))"
  by (induction xs) (auto split: option.split)

lemma IndexByte_less: "IndexByte c xs = Some i \<Longrightarrow> i < length xs"
  by (induction xs arbitrary: i) (auto split: if_splits)

definition ready_buffer :: "nat \<Rightarrow> lineBuffer \<Rightarrow> bool" where
  "ready_buffer limit b \<longleftrightarrow> length (lb_data b) = limit + 1 \<and> lb_start b \<le> lb_end b \<and> lb_end b \<le> length (lb_data b)"

text \<open>An error is kept back only when the stream has ended.\<close>

definition in_step :: "io_error \<Rightarrow> lineBuffer \<Rightarrow> connection \<Rightarrow> bool" where
  "in_step failure b c \<longleftrightarrow> [] \<notin> set (cn_pieces c) \<and> cn_failure c = failure \<and> (\<forall>e. lb_pendingErr b = Some e \<longrightarrow> e = failure \<and> cn_pieces c = [])"

definition unread :: "lineBuffer \<Rightarrow> connection \<Rightarrow> bytes" where
  "unread b c = buffered b @ concat (cn_pieces c)"

lemma conn_Read_stream:
  assumes "conn_Read n c = (bs, err, c')" "[] \<notin> set (cn_pieces c)" "0 < n"
  shows "length bs \<le> n" "concat (cn_pieces c) = bs @ concat (cn_pieces c')" "[] \<notin> set (cn_pieces c')" "cn_failure c' = cn_failure c"
    and "err = None \<Longrightarrow> bs \<noteq> []" "err = Some e \<Longrightarrow> e = cn_failure c \<and> cn_pieces c' = []"
  using assms by (auto simp: conn_Read_def split: list.splits if_splits)

lemma length_put_at: "pos + length bs \<le> length data \<Longrightarrow> length (put_at pos bs data) = length data"
  by (simp add: put_at_def)

lemma buffered_received:
  assumes "lb_start b \<le> lb_end b" "lb_end b + length bs \<le> length (lb_data b)"
  shows "buffered (received (lb_end b) bs err b) = buffered b @ bs"
  using assms by (simp add: buffered_def received_def put_at_def)

lemma compact_same:
  assumes "ready_buffer limit b"
  shows "ready_buffer limit (compact b)" "lb_start (compact b) = 0" "buffered (compact b) = buffered b" "lb_pendingErr (compact b) = lb_pendingErr b"
    "lb_end (compact b) = length (buffered b)"
  using assms by (auto simp: ready_buffer_def compact_def buffered_def put_at_def)

text \<open>An empty buffer starts at its beginning.\<close>

definition rewound :: "lineBuffer \<Rightarrow> bool" where
  "rewound b \<longleftrightarrow> (lb_start b = lb_end b \<longrightarrow> lb_start b = 0)"

text \<open>What a call answers and leaves, measured by the stream \<open>S\<close> that it has before it.\<close>

definition answers :: "nat \<Rightarrow> io_error \<Rightarrow> bytes \<Rightarrow> read_result option \<Rightarrow> bool" where
  "answers limit failure S result \<longleftrightarrow>
     (\<exists>r b c. result = Some (r, b, c) \<and> seen r = Some (fst (next_frame limit failure S)) \<and> unread b c = snd (next_frame limit failure S) \<and>
        ready_buffer limit b \<and> in_step failure b c \<and> (rewound b \<or> fst (snd (fst (next_frame limit failure S)))))"

lemma discard_exact:
  assumes "length (lb_data b) = limit + 1" "lb_start b = 0" "lb_end b = 0" "lb_pendingErr b = None" "in_step failure b c" "limit < length X" "newline \<notin> set X"
  shows "answers limit failure (X @ concat (cn_pieces c)) (discard_loop b c)"
  using assms
proof (induction "length (concat (cn_pieces c))" arbitrary: b c X rule: less_induct)
  case less
  obtain bs err c' where r: "conn_Read (length (lb_data b)) c = (bs, err, c')" by (metis prod_cases3)
  have n: "[] \<notin> set (cn_pieces c)" "cn_failure c = failure" using less.prems(5) by (simp_all add: in_step_def)
  note C = conn_Read_stream [OF r n(1)]
  have l: "0 < length (lb_data b)" using less.prems(1) by simp
  let ?b = "b\<lparr>lb_data := put_at 0 bs (lb_data b)\<rparr>"
  have d: "length (put_at 0 bs (lb_data b)) = limit + 1" "take (length bs) (put_at 0 bs (lb_data b)) = bs"
    using C(1) [OF l] less.prems(1) by (simp_all add: length_put_at put_at_def)
  have X: "IndexByte newline X = None" using less.prems(7) by (simp add: IndexByte_None)
  show ?case
  proof (cases "IndexByte newline bs")
    case (Some i)
    have e: "discard_loop b c = Some (Frame [] True None, ?b\<lparr>lb_start := i + 1, lb_end := length bs, lb_pendingErr := err\<rparr>, c')"
      by (subst discard_loop.simps) (simp add: r Some Let_def)
    show ?thesis unfolding e answers_def next_frame_def using C(1) [OF l] C(2-4) [OF l] C(6) [OF l] n less.prems(1,6) Some X d IndexByte_less [OF Some]
      by (auto simp: IndexByte_append unread_def buffered_def ready_buffer_def in_step_def)
  next
    case None
    show ?thesis
    proof (cases err)
      case (Some e)
      have "discard_loop b c = Some (Frame [] True (Some e), ?b, c')" by (subst discard_loop.simps) (simp add: r Some None Let_def)
      then show ?thesis unfolding answers_def next_frame_def using C(2-4) [OF l] C(6) [OF l Some] n less.prems(1-4,6) None X d
        by (auto simp: IndexByte_append unread_def buffered_def ready_buffer_def in_step_def)
    next
      case e: None
      have bs: "bs \<noteq> []" by (rule C(5) [OF l e])
      then have "discard_loop b c = discard_loop ?b c'" by (subst discard_loop.simps) (simp add: r None e Let_def)
      moreover have "answers limit failure ((X @ bs) @ concat (cn_pieces c')) (discard_loop ?b c')"
        by (rule less.hyps) (use C(2-4) [OF l] bs d(1) less.prems None n in \<open>auto simp: in_step_def IndexByte_None\<close>)
      ultimately show ?thesis using C(2) [OF l] by simp
    qed
  qed
qed

lemma consume_same:
  assumes "ready_buffer limit b" "lb_start b \<le> e" "e \<le> lb_end b"
  shows "ready_buffer limit (consume e b)" "buffered (consume e b) = drop (e - lb_start b) (buffered b)" "lb_pendingErr (consume e b) = lb_pendingErr b"
    "lb_start (consume e b) = lb_end (consume e b) \<Longrightarrow> lb_start (consume e b) = 0"
  using assms by (auto simp: ready_buffer_def consume_def buffered_def Let_def split: if_splits)

lemma length_buffered: "ready_buffer limit b \<Longrightarrow> length (buffered b) = lb_end b - lb_start b"
  by (simp add: ready_buffer_def buffered_def)

lemma found_frame:
  assumes "ready_buffer limit b" "in_step failure b c" "IndexByte newline (buffered b) = Some i"
  shows "answers limit failure (unread b c) (readFrame b c)"
proof -
  have i: "lb_start b + i + 1 \<le> lb_end b" using IndexByte_less [OF assms(3)] length_buffered [OF assms(1)] by simp
  have f: "drop (lb_start b) (take (lb_start b + i + 1) (lb_data b)) = take (i + 1) (buffered b)"
    using i by (simp add: buffered_def take_drop min_def ac_simps)
  have l: "length (take (i + 1) (buffered b)) = i + 1" using IndexByte_less [OF assms(3)] by simp
  have "lb_start b \<le> lb_end b" "lb_maxLineBytes b = limit" "min (length (lb_data b)) (Suc (lb_start b + i)) = Suc (lb_start b + i)"
    using assms(1) i by (simp_all add: ready_buffer_def lb_maxLineBytes_def)
  then have "readFrame b c = Some (if i + 1 > limit then Frame [] True None else Frame (take (i + 1) (buffered b)) False None, consume (lb_start b + i + 1) b, c)"
    using f l by (subst readFrame.simps) (simp add: assms(3) Let_def)
  then show ?thesis unfolding answers_def next_frame_def using consume_same [OF assms(1) _ i] assms(2,3) IndexByte_less [OF assms(3)]
    by (auto simp: unread_def IndexByte_append in_step_def rewound_def)
qed

lemma readFrame_exact:
  assumes "ready_buffer limit b" "in_step failure b c"
  shows "answers limit failure (unread b c) (readFrame b c)"
  using assms
proof (induction "length (concat (cn_pieces c)) + (if lb_pendingErr b = None then 1 else 0)" arbitrary: b c rule: less_induct)
  case less
  have le: "lb_start b \<le> lb_end b" and mx: "lb_maxLineBytes b = limit" using less.prems(1) by (simp_all add: ready_buffer_def lb_maxLineBytes_def)
  consider (found) i where "IndexByte newline (buffered b) = Some i"
    | (ended) e where "IndexByte newline (buffered b) = None" "lb_pendingErr b = Some e"
    | (long) "IndexByte newline (buffered b) = None" "lb_pendingErr b = None" "limit < length (buffered b)"
    | (more_) "IndexByte newline (buffered b) = None" "lb_pendingErr b = None" "length (buffered b) \<le> limit" by fastforce
  then show ?case
  proof cases
    case found
    then show ?thesis by (rule found_frame [OF less.prems])
  next
    case ended
    let ?b = "b\<lparr>lb_pendingErr := None\<rparr>"
    have b: "ready_buffer limit ?b" "buffered ?b = buffered b" using less.prems(1) by (simp_all add: ready_buffer_def buffered_def)
    have "readFrame b c = Some (Frame (buffered b) (length (buffered b) > limit) (Some e), consume (lb_end b) ?b, c)"
      using le by (subst readFrame.simps) (simp add: ended mx Let_def)
    then show ?thesis unfolding answers_def next_frame_def using consume_same [OF b(1), of "lb_end b"] le less.prems(2) ended length_buffered [OF less.prems(1)]
      by (auto simp: unread_def in_step_def b(2) rewound_def)
  next
    case long
    have "readFrame b c = discard_loop (b\<lparr>lb_start := 0, lb_end := 0\<rparr>) c"
      using le by (subst readFrame.simps) (simp add: long mx discardOversized_def)
    then show ?thesis using discard_exact [of "b\<lparr>lb_start := 0, lb_end := 0\<rparr>" limit failure c "buffered b"] less.prems long
      by (simp add: unread_def ready_buffer_def in_step_def IndexByte_None)
  next
    case more_
    note K = compact_same [OF less.prems(1)]
    let ?k = "compact b"
    obtain bs err c' where r: "conn_Read (length (lb_data ?k) - lb_end ?k) c = (bs, err, c')" by (metis prod_cases3)
    have n: "[] \<notin> set (cn_pieces c)" "cn_failure c = failure" using less.prems(2) by (simp_all add: in_step_def)
    have l: "0 < length (lb_data ?k) - lb_end ?k" using K(1,5) more_(3) by (simp add: ready_buffer_def)
    note C = conn_Read_stream [OF r n(1) l]
    let ?b = "received (lb_end ?k) bs err ?k"
    have e: "readFrame b c = readFrame ?b c'"
      using le C(5) more_(3) by (subst readFrame.simps) (auto simp: more_(1,2) mx r Let_def)
    have B: "ready_buffer limit ?b" "buffered ?b = buffered b @ bs" "in_step failure ?b c'"
      using K C(1) buffered_received [of ?k bs err] C(3,4,6) n more_(2)
      by (auto simp: ready_buffer_def received_def length_put_at in_step_def split: option.splits)
    have "answers limit failure (unread ?b c') (readFrame ?b c')"
    proof (rule less.hyps [OF _ B(1,3)])
      show "length (concat (cn_pieces c')) + (if lb_pendingErr ?b = None then 1 else 0) < length (concat (cn_pieces c)) + (if lb_pendingErr b = None then 1 else 0)"
        using C(2,5) more_(2) K(4) by (cases err) (auto simp: received_def)
    qed
    then show ?thesis using e B(2) C(2) by (simp add: unread_def)
  qed
qed

text \<open>With its deadlines set, \<^verbatim>\<open>readFrameWithin\<close> reads what \<^verbatim>\<open>readFrame\<close> reads, provided that an empty buffer starts at its beginning.\<close>

lemma readFrameWithin_exact:
  assumes "ready_buffer limit b" "in_step failure b c" "rewound b"
  shows "answers limit failure (unread b c) (readFrameWithin None None b c)"
proof (cases "lb_start b \<noteq> lb_end b \<or> lb_pendingErr b \<noteq> None")
  case True
  then have "readFrameWithin None None b c = readFrame b c" using assms(1) by (auto simp: readFrameWithin_def ready_buffer_def)
  then show ?thesis using readFrame_exact [OF assms(1,2)] by simp
next
  case False
  then have z: "lb_start b = 0" "lb_end b = 0" "lb_pendingErr b = None" using assms(3) by (auto simp: rewound_def)
  obtain bs err c' where r: "conn_Read (length (lb_data b)) c = (bs, err, c')" by (metis prod_cases3)
  have n: "[] \<notin> set (cn_pieces c)" "cn_failure c = failure" "0 < length (lb_data b)" using assms(1,2) by (simp_all add: in_step_def ready_buffer_def)
  note C = conn_Read_stream [OF r n(1,3)]
  let ?b = "received 0 bs err b"
  have e: "readFrameWithin None None b c = readFrame ?b c'" using z r C(5) by (auto simp: readFrameWithin_def Let_def)
  have B: "ready_buffer limit ?b" "buffered ?b = buffered b @ bs" "in_step failure ?b c'"
    using assms(1) z C(1) buffered_received [of b bs err] C(3,4,6) n
    by (auto simp: ready_buffer_def received_def length_put_at in_step_def split: option.splits)
  show ?thesis unfolding e using readFrame_exact [OF B(1,3)] B(2) C(2) by (simp add: unread_def)
qed

section \<open>A session of reads\<close>

text \<open>The reads of \<^verbatim>\<open>serveConnection\<close>, up to the first error.\<close>

partial_function (option) read_frames :: "lineBuffer \<Rightarrow> connection \<Rightarrow> read_outcome list option" where
  "read_frames b c =
     (case readFrameWithin None None b c of
        None \<Rightarrow> None
      | Some (r, b, c) \<Rightarrow>
          (case r of
             Frame frame tooLong None \<Rightarrow> Option.bind (read_frames b c) (\<lambda>rs. Some (r # rs))
           | _ \<Rightarrow> Some [r]))"

lemma next_frame_shrinks: "fst (next_frame limit failure S) = (f, tooLong, None) \<Longrightarrow> length (snd (next_frame limit failure S)) < length S"
  by (auto simp: next_frame_def split: option.splits if_splits dest: IndexByte_less)

function split_frames :: "nat \<Rightarrow> io_error \<Rightarrow> bytes \<Rightarrow> (bytes \<times> bool \<times> io_error option) list" where
  "split_frames limit failure S =
     (case next_frame limit failure S of
        ((frame, tooLong, None), rest) \<Rightarrow> (frame, tooLong, None) # split_frames limit failure rest
      | (x, rest) \<Rightarrow> [x])"
  by pat_completeness auto

termination
  by (relation "measure (\<lambda>(_, _, S). length S)") (use next_frame_shrinks in \<open>auto simp: prod_eq_iff\<close>)

declare split_frames.simps [simp del]

text \<open>
  The frames of a connection are the lines of its stream.  However the stream is cut into pieces on its way, and
  whether the error that ends it comes with the last bytes or after them, the frames that the server reads are exactly
  the lines of the stream with their line ends, in order, followed by what is left after the last line and the error:
  no byte is lost, added or read twice.  No line is longer than the limit.
\<close>

theorem frames_are_lines:
  assumes "[] \<notin> set (cn_pieces c)" "list_all (\<lambda>(_, tooLong, _). \<not> tooLong) (split_frames limit (cn_failure c) (concat (cn_pieces c)))"
  shows "\<exists>rs. read_frames (newLineBuffer limit) c = Some rs \<and> map seen rs = map Some (split_frames limit (cn_failure c) (concat (cn_pieces c)))"
proof -
  let ?e = "cn_failure c"
  have "\<exists>rs. read_frames b c' = Some rs \<and> map seen rs = map Some (split_frames limit ?e (unread b c'))"
    if "ready_buffer limit b" "in_step ?e b c'" "rewound b" "list_all (\<lambda>(_, tooLong, _). \<not> tooLong) (split_frames limit ?e (unread b c'))" for b c'
    using that
  proof (induction "length (unread b c')" arbitrary: b c' rule: less_induct)
    case less
    obtain r b2 c2 where R: "readFrameWithin None None b c' = Some (r, b2, c2)" "seen r = Some (fst (next_frame limit ?e (unread b c')))"
      "unread b2 c2 = snd (next_frame limit ?e (unread b c'))" "ready_buffer limit b2" "in_step ?e b2 c2" "rewound b2 \<or> fst (snd (fst (next_frame limit ?e (unread b c'))))"
      using readFrameWithin_exact [OF less.prems(1-3)] unfolding answers_def by blast
    obtain f tl e rest where N: "next_frame limit ?e (unread b c') = ((f, tl, e), rest)" by (metis prod_cases3 surj_pair)
    obtain g where r: "r = Frame g tl e" using R(2) N by (cases r) auto
    show ?case
    proof (cases e)
      case (Some x)
      then show ?thesis using R(1,2) N r by (subst read_frames.simps, subst split_frames.simps) simp
    next
      case None
      have S: "split_frames limit ?e (unread b c') = (f, tl, None) # split_frames limit ?e rest" using N None by (subst split_frames.simps) simp
      have "rewound b2" "list_all (\<lambda>(_, tooLong, _). \<not> tooLong) (split_frames limit ?e (unread b2 c2))" "length (unread b2 c2) < length (unread b c')"
        using R(3,6) N less.prems(4) S next_frame_shrinks [of limit ?e "unread b c'" f tl] None by auto
      then obtain rs where "read_frames b2 c2 = Some rs" "map seen rs = map Some (split_frames limit ?e rest)"
        using less.hyps [of b2 c2] R(3-5) N by auto
      then show ?thesis using R(1,2) N r None S by (subst read_frames.simps) simp
    qed
  qed
  from this [of "newLineBuffer limit" c] assms show ?thesis
    by (simp add: newLineBuffer_def ready_buffer_def in_step_def rewound_def unread_def buffered_def)
qed

text \<open>A request that arrives in three parts, two of them within a line end.\<close>

definition cut_request :: connection where
  "cut_request = \<lparr>cn_pieces = [bytes_of ''PI'', bytes_of ''NG'' @ [13], [10] @ bytes_of ''QUIT'' @ [13, 10]], cn_failure = EOF, cn_eager = False\<rparr>"

theorem frames_are_lines_witness:
  "\<exists>rs. read_frames (newLineBuffer 16) cut_request = Some rs \<and>
     map seen rs = map Some [(bytes_of ''PING'' @ [13, 10], False, None), (bytes_of ''QUIT'' @ [13, 10], False, None), ([], False, Some EOF)]"
proof -
  have "split_frames 16 EOF (concat (cn_pieces cut_request)) =
      [(bytes_of ''PING'' @ [13, 10], False, None), (bytes_of ''QUIT'' @ [13, 10], False, None), ([], False, Some EOF)]"
    unfolding cut_request_def by code_simp
  moreover have "[] \<notin> set (cn_pieces cut_request)" by (simp add: cut_request_def bytes_of_def)
  ultimately show ?thesis using frames_are_lines [of cut_request 16] by (simp add: cut_request_def)
qed

text \<open>
  (C38) An oversized line can break the connection.  When an oversized line ends exactly at the end of a read, the buffer
  is left empty but not rewound, and the first read of the next request goes to the beginning of the buffer while its
  start stays behind.  If that read gives fewer bytes than the last part of the oversized line had, the next slice
  expression panics, before any authentication, and the process ends.
\<close>

theorem oversized_line_panics:
  assumes "length X = limit + 1" "newline \<notin> set X" "length Y \<le> limit" "newline \<notin> set Y" "Z \<noteq> []" "length Z \<le> length Y"
    and c: "cn_pieces c = [X, Y @ [newline], Z]"
  shows "read_frames (newLineBuffer limit) c = Some [Frame [] True None, SlicePanic]"
proof -
  let ?b = "received 0 X None (newLineBuffer limit)" and ?c = "c\<lparr>cn_pieces := [Y @ [newline], Z]\<rparr>"
  have n: "IndexByte newline X = None" "IndexByte newline Y = None" using assms(2,4) by (simp_all add: IndexByte_None)
  have l: "length (lb_data (newLineBuffer limit)) = limit + 1" "length (lb_data ?b) = limit + 1"
    using assms(1) by (simp_all add: newLineBuffer_def received_def put_at_def)
  have b: "buffered ?b = X" "lb_start ?b = 0" "lb_end ?b = limit + 1" "lb_pendingErr ?b = None" "lb_maxLineBytes ?b = limit"
    using assms(1) l(2) by (simp_all add: buffered_def received_def newLineBuffer_def put_at_def lb_maxLineBytes_def)
  have 1: "readFrameWithin None None (newLineBuffer limit) c = readFrame ?b ?c"
    using assms(1) l c by (simp add: readFrameWithin_def conn_Read_def Let_def) (auto simp: newLineBuffer_def)
  have 2: "readFrame ?b ?c = discard_loop (?b\<lparr>lb_start := 0, lb_end := 0\<rparr>) ?c"
    using assms(1) b n by (subst readFrame.simps) (simp add: discardOversized_def)
  obtain d where 3: "discard_loop (?b\<lparr>lb_start := 0, lb_end := 0\<rparr>) ?c =
      Some (Frame [] True None, ?b\<lparr>lb_data := d, lb_start := length Y + 1, lb_end := length Y + 1, lb_pendingErr := None\<rparr>, c\<lparr>cn_pieces := [Z]\<rparr>)"
    "length d = limit + 1"
    using assms(3) n(2) l(2) by (subst (asm) discard_loop.simps) (simp add: conn_Read_def IndexByte_append put_at_def Let_def)
  let ?d = "?b\<lparr>lb_data := d, lb_start := length Y + 1, lb_end := length Y + 1, lb_pendingErr := None\<rparr>"
  have "\<exists>b' c'. readFrameWithin None None ?d (c\<lparr>cn_pieces := [Z]\<rparr>) = Some (SlicePanic, b', c')"
    using assms(3,5,6) 3(2) by (simp add: readFrameWithin_def conn_Read_def Let_def readFrame.simps received_def)
  then have 4: "read_frames ?d (c\<lparr>cn_pieces := [Z]\<rparr>) = Some [SlicePanic]" by (subst read_frames.simps) auto
  show ?thesis using 1 2 3(1) 4 by (subst read_frames.simps) simp
qed

text \<open>Twenty bytes and a line end to a server that takes lines of 16 bytes, in two segments, then \<^verbatim>\<open>PING\<close>.\<close>

theorem oversized_line_panics_witness:
  "read_frames (newLineBuffer 16)
     \<lparr>cn_pieces = [replicate 17 65, replicate 10 65 @ [newline], bytes_of ''PING'' @ [13, 10]], cn_failure = EOF, cn_eager = False\<rparr> =
   Some [Frame [] True None, SlicePanic]"
  by (rule oversized_line_panics [of "replicate 17 65" 16 "replicate 10 65" "bytes_of ''PING'' @ [13, 10]"]) (simp_all add: newline_def bytes_of_def)

end
