(* ===== verification/AuthTracker.thy ===== *)
theory AuthTracker
  imports Telemetry "HOL-Library.AList"
begin

text \<open>
  Failed authentications per source address (\<^verbatim>\<open>server/auth.go\<close>).  A time is a number of nanoseconds since the zero time
  of Go; the table of sources is an association list with one entry per source; the recency list holds the sources, its
  head is its front.  An entry's \<^verbatim>\<open>recency\<close> element is the source's place in that list.  The metrics registry is shared
  with the engine and threaded through.  \<^verbatim>\<open>authSource\<close>, which asks the network stack for the address, is a parameter of
  the theories that need it.
\<close>

section \<open>The code\<close>

definition maxAuthSources :: nat where
  "maxAuthSources = 4096"

record authSourceState =
  as_failures :: int
  as_bannedUntil :: nat

record authFailureTracker =
  at_sources :: "(string \<times> authSourceState) list"
  at_recency :: "string list"
  at_delay :: int
  at_limit :: int
  at_banDuration :: nat

definition newAuthFailureTracker :: "int \<Rightarrow> int \<Rightarrow> nat \<Rightarrow> authFailureTracker" where
  "newAuthFailureTracker delay limit banDuration =
     \<lparr>at_sources = [], at_recency = [], at_delay = delay, at_limit = limit, at_banDuration = banDuration\<rparr>"

text \<open>The state of a source that is not in the table is the zero value.\<close>

definition source_state :: "authFailureTracker \<Rightarrow> string \<Rightarrow> authSourceState" where
  "source_state t source = (case map_of (at_sources t) source of Some state \<Rightarrow> state | None \<Rightarrow> \<lparr>as_failures = 0, as_bannedUntil = 0\<rparr>)"

definition touch :: "string \<Rightarrow> authFailureTracker \<Rightarrow> authFailureTracker" where
  "touch source t = (if source \<in> set (at_recency t) then t\<lparr>at_recency := source # remove1 source (at_recency t)\<rparr> else t)"

definition updateSourceGauge :: "authFailureTracker \<Rightarrow> Metrics option \<Rightarrow> Metrics option" where
  "updateSourceGauge t metrics = map_option (SetAuthSources (length (at_sources t))) metrics"

text \<open>The walk from the back of the recency list over the sources that are banned.\<close>

fun room_loop :: "nat \<Rightarrow> string list \<Rightarrow> authFailureTracker \<Rightarrow> bool \<times> authFailureTracker" where
  "room_loop now [] t = (False, t)"
| "room_loop now (source # rest) t =
     (if now < as_bannedUntil (source_state t source) then room_loop now rest t
      else (True, t\<lparr>at_sources := AList.delete source (at_sources t), at_recency := remove1 source (at_recency t)\<rparr>))"

definition makeRoom :: "nat \<Rightarrow> authFailureTracker \<Rightarrow> bool \<times> authFailureTracker" where
  "makeRoom now t = (if length (at_sources t) < maxAuthSources then (True, t) else room_loop now (rev (at_recency t)) t)"

text \<open>A failure that is counted.\<close>

definition count_failure :: "string \<Rightarrow> nat \<Rightarrow> authSourceState \<Rightarrow> authFailureTracker \<Rightarrow> Metrics option \<Rightarrow> authFailureTracker \<times> Metrics option" where
  "count_failure source now state t metrics =
     (let state = state\<lparr>as_failures := as_failures state + 1\<rparr>;
          reached = as_failures state \<ge> at_limit t;
          state = (if reached then \<lparr>as_failures = 0, as_bannedUntil = now + at_banDuration t\<rparr> else state);
          metrics = (if reached then map_option AuthBan metrics else metrics);
          t = touch source t;
          t = t\<lparr>at_sources := AList.update source state (at_sources t)\<rparr>
      in (t, updateSourceGauge t metrics))"

definition registerFailure :: "string \<Rightarrow> nat \<Rightarrow> authFailureTracker \<Rightarrow> Metrics option \<Rightarrow> int \<times> authFailureTracker \<times> Metrics option" where
  "registerFailure source now t metrics =
     (let metrics = map_option AuthFailure metrics;
          state = source_state t source;
          exists = (map_of (at_sources t) source \<noteq> None)
      in if now < as_bannedUntil state then (at_delay t, touch source t, metrics)
         else let (room, t) = (if exists then (True, t) else makeRoom now t)
              in if \<not> room then (at_delay t, t, metrics)
                 else let t = (if exists then t else t\<lparr>at_recency := source # at_recency t\<rparr>)
                      in (at_delay t, count_failure source now state t metrics))"

definition banned :: "string \<Rightarrow> nat \<Rightarrow> authFailureTracker \<Rightarrow> bool \<times> authFailureTracker" where
  "banned source now t =
     (case map_of (at_sources t) source of
        None \<Rightarrow> (False, t)
      | Some state \<Rightarrow>
          if now < as_bannedUntil state then
            (True, (touch source t)\<lparr>at_sources := AList.update source state (at_sources t)\<rparr>)
          else (False, (touch source t)\<lparr>at_sources := AList.update source (state\<lparr>as_bannedUntil := 0\<rparr>) (at_sources t)\<rparr>))"

definition authenticated :: "string \<Rightarrow> authFailureTracker \<Rightarrow> Metrics option \<Rightarrow> authFailureTracker \<times> Metrics option" where
  "authenticated source t metrics =
     (if map_of (at_sources t) source \<noteq> None then
        let t = t\<lparr>at_sources := AList.delete source (at_sources t), at_recency := remove1 source (at_recency t)\<rparr>
        in (t, updateSourceGauge t metrics)
      else (t, metrics))"

section \<open>Invariant\<close>

definition tracker_ok :: "authFailureTracker \<Rightarrow> bool" where
  "tracker_ok t \<longleftrightarrow> distinct (map fst (at_sources t)) \<and> distinct (at_recency t) \<and> set (at_recency t) = fst ` set (at_sources t) \<and>
     length (at_sources t) \<le> maxAuthSources \<and> (\<forall>s st. map_of (at_sources t) s = Some st \<longrightarrow> 0 \<le> as_failures st \<and> as_failures st < max 1 (at_limit t))"

lemma touch_same [simp]: "at_sources (touch source t) = at_sources t" "at_limit (touch source t) = at_limit t" "at_delay (touch source t) = at_delay t"
  "at_banDuration (touch source t) = at_banDuration t" "set (at_recency (touch source t)) = set (at_recency t)"
  "distinct (at_recency t) \<Longrightarrow> distinct (at_recency (touch source t))"
proof -
  have "insert x (set (remove1 x xs)) = insert x (set xs)" for x :: string and xs using in_set_remove1 by fast
  then show "set (at_recency (touch source t)) = set (at_recency t)" by (auto simp: touch_def)
qed (auto simp: touch_def)

lemma source_state_more [simp]: "source_state (t\<lparr>at_recency := r\<rparr>) = source_state t" "source_state (touch source t) = source_state t"
  by (simp_all add: source_state_def fun_eq_iff)

lemma tracker_ok_touch: "tracker_ok t \<Longrightarrow> tracker_ok (touch source t)"
  by (simp add: tracker_ok_def)

lemma keys: "fst ` set xs = dom (map_of xs)"
  by (simp add: dom_map_of_conv_image_fst)

text \<open>A source that is listed is about to get an entry.\<close>

definition tracker_listed :: "string \<Rightarrow> authFailureTracker \<Rightarrow> bool" where
  "tracker_listed source t \<longleftrightarrow> distinct (map fst (at_sources t)) \<and> distinct (at_recency t) \<and> set (at_recency t) = insert source (fst ` set (at_sources t)) \<and>
     length (at_sources t) \<le> maxAuthSources \<and> (source \<in> fst ` set (at_sources t) \<or> length (at_sources t) < maxAuthSources) \<and>
     (\<forall>s st. map_of (at_sources t) s = Some st \<longrightarrow> 0 \<le> as_failures st \<and> as_failures st < max 1 (at_limit t))"

lemma tracker_listedI:
  assumes "tracker_ok t"
  shows "source \<in> fst ` set (at_sources t) \<Longrightarrow> tracker_listed source t"
    and "source \<notin> fst ` set (at_sources t) \<Longrightarrow> length (at_sources t) < maxAuthSources \<Longrightarrow> tracker_listed source (t\<lparr>at_recency := source # at_recency t\<rparr>)"
  using assms by (auto simp: tracker_ok_def tracker_listed_def)

lemma tracker_listed_update:
  assumes "tracker_listed source t" "0 \<le> as_failures st" "as_failures st < max 1 (at_limit t)"
  shows "tracker_ok (t\<lparr>at_sources := AList.update source st (at_sources t)\<rparr>)"
proof -
  have "map fst (AList.update source st (at_sources t)) = (if source \<in> fst ` set (at_sources t) then map fst (at_sources t) else map fst (at_sources t) @ [source])"
    by (simp add: AList.update_keys)
  moreover from this have "length (AList.update source st (at_sources t)) = (if source \<in> fst ` set (at_sources t) then length (at_sources t) else length (at_sources t) + 1)"
    by (metis length_append_singleton length_map Suc_eq_plus1)
  moreover have "fst ` set (AList.update source st (at_sources t)) = insert source (fst ` set (at_sources t))" by (simp add: keys update_conv')
  moreover have "distinct (map fst (AList.update source st (at_sources t)))" using assms(1) by (simp add: tracker_listed_def distinct_update)
  ultimately show ?thesis using assms by (auto simp: tracker_ok_def tracker_listed_def update_conv' split: if_splits)
qed

lemma tracker_ok_delete:
  assumes "tracker_ok t"
  shows "tracker_ok (t\<lparr>at_sources := AList.delete source (at_sources t), at_recency := remove1 source (at_recency t)\<rparr>)"
proof -
  have "length (AList.delete source (at_sources t)) \<le> length (at_sources t)" by (simp add: AList.delete_eq)
  then show ?thesis using assms by (auto simp: tracker_ok_def distinct_delete distinct_removeAll delete_keys delete_conv' keys split: if_splits)
qed

lemma length_delete:
  assumes "distinct (map fst xs)" "k \<in> fst ` set xs"
  shows "length (AList.delete k xs) < length xs"
  using assms(2) by (auto simp: AList.delete_eq intro!: length_filter_less)

lemma makeRoom_ok:
  assumes "tracker_ok t" "makeRoom now t = (room, t')"
  shows "tracker_ok t'" "at_limit t' = at_limit t" "at_banDuration t' = at_banDuration t" "at_delay t' = at_delay t"
    and "room \<Longrightarrow> length (at_sources t') < maxAuthSources" "now < as_bannedUntil (source_state t s) \<Longrightarrow> source_state t' s = source_state t s"
    and "map_of (at_sources t) s = None \<Longrightarrow> map_of (at_sources t') s = None"
proof -
  have loop: "tracker_ok t' \<and> at_limit t' = at_limit t \<and> at_banDuration t' = at_banDuration t \<and> at_delay t' = at_delay t \<and>
      (room \<longrightarrow> length (at_sources t') < maxAuthSources) \<and> (now < as_bannedUntil (source_state t s) \<longrightarrow> source_state t' s = source_state t s) \<and>
      (map_of (at_sources t) s = None \<longrightarrow> map_of (at_sources t') s = None)"
    if "room_loop now xs t = (room, t')" "set xs \<subseteq> set (at_recency t)" for xs
    using that
  proof (induction xs)
    case (Cons x xs)
    have x: "x \<in> fst ` set (at_sources t)" "distinct (map fst (at_sources t))" "length (at_sources t) \<le> maxAuthSources"
      using Cons.prems(2) assms(1) by (auto simp: tracker_ok_def)
    show ?case
    proof (cases "now < as_bannedUntil (source_state t x)")
      case True
      then show ?thesis using Cons by simp
    next
      case False
      then have t': "room" "t' = t\<lparr>at_sources := AList.delete x (at_sources t), at_recency := remove1 x (at_recency t)\<rparr>" using Cons.prems(1) by simp_all
      then show ?thesis using tracker_ok_delete [OF assms(1), of x] length_delete [OF x(2,1)] x(3) False
        by (auto simp: source_state_def delete_conv')
    qed
  qed (use assms(1) in auto)
  have all: "tracker_ok t' \<and> at_limit t' = at_limit t \<and> at_banDuration t' = at_banDuration t \<and> at_delay t' = at_delay t \<and>
      (room \<longrightarrow> length (at_sources t') < maxAuthSources) \<and> (now < as_bannedUntil (source_state t s) \<longrightarrow> source_state t' s = source_state t s) \<and>
      (map_of (at_sources t) s = None \<longrightarrow> map_of (at_sources t') s = None)"
    using assms loop [of "rev (at_recency t)"] by (auto simp: makeRoom_def split: if_splits)
  from all show "tracker_ok t'" "at_limit t' = at_limit t" "at_banDuration t' = at_banDuration t" "at_delay t' = at_delay t"
    "room \<Longrightarrow> length (at_sources t') < maxAuthSources" "now < as_bannedUntil (source_state t s) \<Longrightarrow> source_state t' s = source_state t s"
    "map_of (at_sources t) s = None \<Longrightarrow> map_of (at_sources t') s = None" by blast+
qed

text \<open>A failure that is counted, for a source in the recency list.\<close>

lemma count_failure_ok:
  assumes "tracker_listed source t" "state = source_state t source" "count_failure source now state t metrics = (t', metrics')"
  shows "tracker_ok t'" "at_limit t' = at_limit t" "at_banDuration t' = at_banDuration t"
    and "source_state t' s = (if s = source then (if as_failures state + 1 \<ge> at_limit t then \<lparr>as_failures = 0, as_bannedUntil = now + at_banDuration t\<rparr>
        else state\<lparr>as_failures := as_failures state + 1\<rparr>) else source_state t s)"
    and "map_of (at_sources t') source \<noteq> None"
proof -
  let ?st = "if as_failures state + 1 \<ge> at_limit t then \<lparr>as_failures = 0, as_bannedUntil = now + at_banDuration t\<rparr> else state\<lparr>as_failures := as_failures state + 1\<rparr>"
  have t': "t' = (touch source t)\<lparr>at_sources := AList.update source ?st (at_sources (touch source t))\<rparr>"
    using assms(3) by (auto simp: count_failure_def Let_def split: if_splits)
  have "0 \<le> as_failures state" using assms(1,2) by (auto simp: tracker_listed_def source_state_def split: option.splits)
  then have "0 \<le> as_failures ?st" "as_failures ?st < max 1 (at_limit (touch source t))" by auto
  then show "tracker_ok t'" unfolding t' using tracker_listed_update [of source "touch source t" ?st] assms(1) by (simp add: tracker_listed_def)
  show "at_limit t' = at_limit t" "at_banDuration t' = at_banDuration t" "map_of (at_sources t') source \<noteq> None"
    by (simp_all add: t' update_conv')
  show "source_state t' s = (if s = source then ?st else source_state t s)"
    by (auto simp: t' source_state_def update_conv')
qed

section \<open>Bans\<close>

text \<open>A source can be tracked: it has an entry, or there is room for one.\<close>

definition trackable :: "string \<Rightarrow> authFailureTracker \<Rightarrow> bool" where
  "trackable source t \<longleftrightarrow> map_of (at_sources t) source \<noteq> None \<or> length (at_sources t) < maxAuthSources"

lemma registerFailure_ok:
  assumes "tracker_ok t" "registerFailure source now t metrics = (d, t', metrics')"
  shows "tracker_ok t'" "at_limit t' = at_limit t" "at_banDuration t' = at_banDuration t"
    and "now < as_bannedUntil (source_state t s) \<Longrightarrow> source_state t' s = source_state t s"
    and "\<not> now < as_bannedUntil (source_state t source) \<Longrightarrow> trackable source t \<Longrightarrow> trackable source t' \<and>
      source_state t' source = (if as_failures (source_state t source) + 1 \<ge> at_limit t then \<lparr>as_failures = 0, as_bannedUntil = now + at_banDuration t\<rparr>
        else (source_state t source)\<lparr>as_failures := as_failures (source_state t source) + 1\<rparr>)"
proof -
  let ?st = "source_state t source"
  consider (ban) "now < as_bannedUntil ?st" "t' = touch source t"
    | (there) "\<not> now < as_bannedUntil ?st" "map_of (at_sources t) source \<noteq> None" "count_failure source now ?st t (map_option AuthFailure metrics) = (t', metrics')"
    | (full) "\<not> now < as_bannedUntil ?st" "map_of (at_sources t) source = None" "makeRoom now t = (False, t')"
    | (new) u where "\<not> now < as_bannedUntil ?st" "map_of (at_sources t) source = None" "makeRoom now t = (True, u)"
        "count_failure source now ?st (u\<lparr>at_recency := source # at_recency u\<rparr>) (map_option AuthFailure metrics) = (t', metrics')"
    using assms(2) by (auto simp: registerFailure_def Let_def split: if_splits prod.splits)
  then have "tracker_ok t' \<and> at_limit t' = at_limit t \<and> at_banDuration t' = at_banDuration t \<and>
    (now < as_bannedUntil (source_state t s) \<longrightarrow> source_state t' s = source_state t s) \<and>
    (\<not> now < as_bannedUntil ?st \<longrightarrow> trackable source t \<longrightarrow> trackable source t' \<and>
      source_state t' source = (if as_failures ?st + 1 \<ge> at_limit t then \<lparr>as_failures = 0, as_bannedUntil = now + at_banDuration t\<rparr>
        else ?st\<lparr>as_failures := as_failures ?st + 1\<rparr>))"
  proof cases
    case ban
    then show ?thesis using tracker_ok_touch [OF assms(1)] by simp
  next
    case there
    have l: "tracker_listed source t" using tracker_listedI(1) [OF assms(1)] there(2) by (auto simp: keys dom_def)
    show ?thesis using count_failure_ok [OF l refl there(3)] there(1) by (auto simp: trackable_def)
  next
    case full
    have "length (at_sources t) \<ge> maxAuthSources" using full(3) by (auto simp: makeRoom_def split: if_splits)
    then show ?thesis using makeRoom_ok(1-4,6) [OF assms(1) full(3)] full by (auto simp: trackable_def)
  next
    case new
    note M = makeRoom_ok [OF assms(1) new(3)]
    have n: "map_of (at_sources u) source = None" using M(7) new(2) by simp
    have st: "?st = source_state (u\<lparr>at_recency := source # at_recency u\<rparr>) source" using n new(2) by (simp add: source_state_def)
    have l: "tracker_listed source (u\<lparr>at_recency := source # at_recency u\<rparr>)"
      using tracker_listedI(2) [OF M(1)] M(5) n by (auto simp: keys dom_def)
    show ?thesis using count_failure_ok [OF l st new(4)] M(2,3,6) new(1,2) n by (auto simp: trackable_def source_state_def)
  qed
  then show "tracker_ok t'" "at_limit t' = at_limit t" "at_banDuration t' = at_banDuration t"
    "now < as_bannedUntil (source_state t s) \<Longrightarrow> source_state t' s = source_state t s"
    "\<not> now < as_bannedUntil ?st \<Longrightarrow> trackable source t \<Longrightarrow> trackable source t' \<and>
      source_state t' source = (if as_failures ?st + 1 \<ge> at_limit t then \<lparr>as_failures = 0, as_bannedUntil = now + at_banDuration t\<rparr>
        else ?st\<lparr>as_failures := as_failures ?st + 1\<rparr>)" by blast+
qed

lemma banned_ok:
  assumes "tracker_ok t" "banned source now t = (b, t')"
  shows "b \<longleftrightarrow> now < as_bannedUntil (source_state t source)" "tracker_ok t'" "at_limit t' = at_limit t" "at_banDuration t' = at_banDuration t"
    and "now < as_bannedUntil (source_state t s) \<Longrightarrow> source_state t' s = source_state t s"
    and "as_failures (source_state t' s) = as_failures (source_state t s)" "as_bannedUntil (source_state t' s) \<le> as_bannedUntil (source_state t s)"
    and "trackable s t \<Longrightarrow> trackable s t'"
proof -
  have "(b \<longleftrightarrow> now < as_bannedUntil (source_state t source)) \<and> tracker_ok t' \<and> at_limit t' = at_limit t \<and> at_banDuration t' = at_banDuration t \<and>
    (now < as_bannedUntil (source_state t s) \<longrightarrow> source_state t' s = source_state t s) \<and>
    as_failures (source_state t' s) = as_failures (source_state t s) \<and> as_bannedUntil (source_state t' s) \<le> as_bannedUntil (source_state t s) \<and>
    (trackable s t \<longrightarrow> trackable s t')"
  proof (cases "map_of (at_sources t) source")
    case None
    then show ?thesis using assms by (auto simp: banned_def source_state_def)
  next
    case (Some st)
    let ?st = "if now < as_bannedUntil st then st else st\<lparr>as_bannedUntil := 0\<rparr>"
    have t': "b = (now < as_bannedUntil st)" "t' = (touch source t)\<lparr>at_sources := AList.update source ?st (at_sources (touch source t))\<rparr>"
      using assms(2) Some by (auto simp: banned_def split: if_splits)
    have k: "source \<in> fst ` set (at_sources t)" using Some by (simp add: keys domI)
    have "tracker_listed source (touch source t)" using tracker_listedI(1) [OF tracker_ok_touch [OF assms(1)], of source source] k by simp
    moreover have "0 \<le> as_failures ?st" "as_failures ?st < max 1 (at_limit t)" using assms(1) Some by (auto simp: tracker_ok_def)
    ultimately have "tracker_ok t'" using tracker_listed_update [of source "touch source t" ?st] by (simp add: t'(2))
    moreover have "length (AList.update source ?st (at_sources t)) = length (at_sources t)"
      using arg_cong [OF AList.update_keys [of source ?st "at_sources t"], of length] k by simp
    moreover have m: "map_of (at_sources t') = (map_of (at_sources t))(source \<mapsto> ?st)" by (simp add: t'(2) update_conv')
    then have "source_state t' s = (if s = source then ?st else source_state t s)" "source_state t source = st" using Some by (simp_all add: source_state_def)
    moreover have "trackable s t \<longrightarrow> trackable s t'" using m calculation(2) by (simp add: trackable_def t'(2))
    ultimately show ?thesis by (simp add: t')
  qed
  then show "b \<longleftrightarrow> now < as_bannedUntil (source_state t source)" "tracker_ok t'" "at_limit t' = at_limit t" "at_banDuration t' = at_banDuration t"
    "now < as_bannedUntil (source_state t s) \<Longrightarrow> source_state t' s = source_state t s"
    "as_failures (source_state t' s) = as_failures (source_state t s)" "as_bannedUntil (source_state t' s) \<le> as_bannedUntil (source_state t s)"
    "trackable s t \<Longrightarrow> trackable s t'" by blast+
qed

lemma authenticated_ok:
  assumes "tracker_ok t" "authenticated source t metrics = (t', metrics')"
  shows "tracker_ok t'" "at_limit t' = at_limit t" "at_banDuration t' = at_banDuration t" "s \<noteq> source \<Longrightarrow> source_state t' s = source_state t s"
  using assms tracker_ok_delete [OF assms(1), of source]
  by (auto simp: authenticated_def Let_def source_state_def delete_conv' split: if_splits)

text \<open>The calls of the connections, in the order in which they get the lock.\<close>

datatype auth_call = Failed string nat | Asked string nat | Succeeded string

fun auth_step :: "auth_call \<Rightarrow> authFailureTracker \<Rightarrow> authFailureTracker" where
  "auth_step (Failed source now) t = fst (snd (registerFailure source now t None))"
| "auth_step (Asked source now) t = snd (banned source now t)"
| "auth_step (Succeeded source) t = fst (authenticated source t None)"

fun call_before :: "nat \<Rightarrow> string \<Rightarrow> auth_call \<Rightarrow> bool" where
  "call_before T source (Failed _ now) = (now < T)"
| "call_before T source (Asked _ now) = (now < T)"
| "call_before T source (Succeeded s) = (s \<noteq> source)"

lemma auth_step_ok:
  assumes "tracker_ok t"
  shows "tracker_ok (auth_step c t)" "at_limit (auth_step c t) = at_limit t" "call_before (as_bannedUntil (source_state t source)) source c \<Longrightarrow> source_state (auth_step c t) source = source_state t source"
proof -
  have "tracker_ok (auth_step c t) \<and> at_limit (auth_step c t) = at_limit t \<and> (call_before (as_bannedUntil (source_state t source)) source c \<longrightarrow> source_state (auth_step c t) source = source_state t source)"
  proof (cases c)
    case (Failed s now)
    obtain d t' m where "registerFailure s now t None = (d, t', m)" by (metis prod_cases3)
    then show ?thesis using registerFailure_ok [OF assms] Failed by fastforce
  next
    case (Asked s now)
    obtain b t' where "banned s now t = (b, t')" by fastforce
    then show ?thesis using banned_ok [OF assms] Asked by fastforce
  next
    case (Succeeded s)
    obtain t' m where "authenticated s t None = (t', m)" by fastforce
    then show ?thesis using authenticated_ok [OF assms] Succeeded by fastforce
  qed
  then show "tracker_ok (auth_step c t)" "at_limit (auth_step c t) = at_limit t" "call_before (as_bannedUntil (source_state t source)) source c \<Longrightarrow> source_state (auth_step c t) source = source_state t source"
    by blast+
qed

lemma ban_persists:
  "tracker_ok t \<Longrightarrow> list_all (call_before (as_bannedUntil (source_state t source)) source) calls \<Longrightarrow>
    tracker_ok (fold auth_step calls t) \<and> at_limit (fold auth_step calls t) = at_limit t \<and> source_state (fold auth_step calls t) source = source_state t source"
proof (induction calls arbitrary: t)
  case (Cons c calls)
  have "tracker_ok (auth_step c t)" "at_limit (auth_step c t) = at_limit t" "source_state (auth_step c t) source = source_state t source" using auth_step_ok [OF Cons.prems(1)] Cons.prems(2) by simp_all
  then show ?case using Cons.IH [of "auth_step c t"] Cons.prems(2) by simp
qed simp

text \<open>
  While the table has room for everyone who fails, a failure concerns its own source only: nobody is dropped from the table.
\<close>

lemma registerFailure_others:
  assumes "tracker_ok t" "trackable source t" "registerFailure source now t metrics = (d, t', metrics')"
  shows "s \<noteq> source \<Longrightarrow> source_state t' s = source_state t s" "fst ` set (at_sources t') \<subseteq> insert source (fst ` set (at_sources t))"
proof -
  let ?st = "source_state t source"
  consider (ban) "t' = touch source t"
    | (there) "map_of (at_sources t) source \<noteq> None" "count_failure source now ?st t (map_option AuthFailure metrics) = (t', metrics')"
    | (new) "map_of (at_sources t) source = None" "count_failure source now ?st (t\<lparr>at_recency := source # at_recency t\<rparr>) (map_option AuthFailure metrics) = (t', metrics')"
    using assms(2,3) by (auto simp: registerFailure_def trackable_def makeRoom_def Let_def split: if_splits)
  then have "(s \<noteq> source \<longrightarrow> source_state t' s = source_state t s) \<and> fst ` set (at_sources t') \<subseteq> insert source (fst ` set (at_sources t))"
    by cases (auto simp: count_failure_def Let_def keys source_state_def update_conv' split: if_splits)
  then show "s \<noteq> source \<Longrightarrow> source_state t' s = source_state t s" "fst ` set (at_sources t') \<subseteq> insert source (fst ` set (at_sources t))"
    by blast+
qed

fun failing :: "auth_call \<Rightarrow> string set" where
  "failing (Failed s _) = {s}"
| "failing (Asked s _) = {}"
| "failing (Succeeded s) = {}"

text \<open>The calls of a source that was not banned at \<open>t0\<close>, while it has not authenticated, and the failures among them.\<close>

fun call_after :: "nat \<Rightarrow> string \<Rightarrow> auth_call \<Rightarrow> bool" where
  "call_after t0 source (Failed s now) = (s = source \<longrightarrow> t0 \<le> now)"
| "call_after t0 source (Asked s now) = True"
| "call_after t0 source (Succeeded s) = (s \<noteq> source)"

fun own_failures :: "string \<Rightarrow> auth_call list \<Rightarrow> nat" where
  "own_failures source [] = 0"
| "own_failures source (Failed s _ # calls) = (if s = source then 1 else 0) + own_failures source calls"
| "own_failures source (Asked s _ # calls) = own_failures source calls"
| "own_failures source (Succeeded s # calls) = own_failures source calls"

definition roomy :: "string set \<Rightarrow> authFailureTracker \<Rightarrow> bool" where
  "roomy K t \<longleftrightarrow> finite K \<and> card K \<le> maxAuthSources \<and> fst ` set (at_sources t) \<subseteq> K"

lemma roomy_trackable:
  assumes "roomy K t" "tracker_ok t" "source \<in> K"
  shows "trackable source t"
proof (cases "source \<in> fst ` set (at_sources t)")
  case False
  have "length (at_sources t) = card (fst ` set (at_sources t))" using assms(2) by (metis distinct_card length_map list.set_map tracker_ok_def)
  also have "\<dots> < card K" using assms(1,3) False by (intro psubset_card_mono) (auto simp: roomy_def)
  finally show ?thesis using assms(1) by (simp add: roomy_def trackable_def)
qed (auto simp: trackable_def keys)

lemma call_counted:
  assumes "tracker_ok t" "roomy K t" "failing c \<subseteq> K" "call_after t0 source c" "as_bannedUntil (source_state t source) \<le> t0"
    and "as_failures (source_state t source) + int (own_failures source [c]) < at_limit t"
  shows "tracker_ok (auth_step c t)" "roomy K (auth_step c t)" "at_limit (auth_step c t) = at_limit t" "at_banDuration (auth_step c t) = at_banDuration t"
    and "as_failures (source_state (auth_step c t) source) = as_failures (source_state t source) + int (own_failures source [c])"
    and "as_bannedUntil (source_state (auth_step c t) source) \<le> t0"
proof -
  have "tracker_ok (auth_step c t) \<and> roomy K (auth_step c t) \<and> at_limit (auth_step c t) = at_limit t \<and> at_banDuration (auth_step c t) = at_banDuration t \<and>
    as_failures (source_state (auth_step c t) source) = as_failures (source_state t source) + int (own_failures source [c]) \<and>
    as_bannedUntil (source_state (auth_step c t) source) \<le> t0"
  proof (cases c)
    case (Failed s now)
    obtain d t' m where r: "registerFailure s now t None = (d, t', m)" by (metis prod_cases3)
    have tr: "trackable s t" using roomy_trackable [OF assms(2,1)] assms(3) Failed by simp
    note R = registerFailure_ok [OF assms(1) r] and O = registerFailure_others [OF assms(1) tr r]
    have "roomy K t'" using O(2) assms(2,3) Failed by (auto simp: roomy_def)
    moreover have "source_state t' source = (source_state t source)\<lparr>as_failures := as_failures (source_state t source) + 1\<rparr>" if "s = source"
      using R(5) tr assms(4-6) Failed that by auto
    ultimately show ?thesis using R(1-3) O(1) [of source] r Failed assms(5) by auto
  next
    case (Asked s now)
    obtain b t' where b: "banned s now t = (b, t')" by fastforce
    have "fst ` set (at_sources t') = fst ` set (at_sources t)" using b by (auto simp: banned_def keys update_conv' split: option.splits if_splits)
    then have "roomy K t'" using assms(2) by (simp add: roomy_def)
    then show ?thesis using banned_ok [OF assms(1) b] assms(5) Asked b by (auto intro: le_trans)
  next
    case (Succeeded s)
    obtain t' m where a: "authenticated s t None = (t', m)" by fastforce
    have "fst ` set (at_sources t') \<subseteq> fst ` set (at_sources t)"
      using a by (auto simp: authenticated_def Let_def keys delete_conv' split: if_splits)
    then have "roomy K t'" using assms(2) by (auto simp: roomy_def)
    then show ?thesis using authenticated_ok [OF assms(1) a] assms(4,5) Succeeded a by auto
  qed
  then show "tracker_ok (auth_step c t)" "roomy K (auth_step c t)" "at_limit (auth_step c t) = at_limit t" "at_banDuration (auth_step c t) = at_banDuration t"
    "as_failures (source_state (auth_step c t) source) = as_failures (source_state t source) + int (own_failures source [c])"
    "as_bannedUntil (source_state (auth_step c t) source) \<le> t0" by blast+
qed

lemma own_failures_Cons: "own_failures source (c # calls) = own_failures source [c] + own_failures source calls"
  by (cases c) simp_all

lemma failures_add_up:
  "\<lbrakk>tracker_ok t; roomy K t; list_all (\<lambda>c. failing c \<subseteq> K \<and> call_after t0 source c) calls; as_bannedUntil (source_state t source) \<le> t0;
    as_failures (source_state t source) + int (own_failures source calls) < at_limit t; t' = fold auth_step calls t\<rbrakk> \<Longrightarrow>
   tracker_ok t' \<and> roomy K t' \<and> at_limit t' = at_limit t \<and> at_banDuration t' = at_banDuration t \<and>
   as_failures (source_state t' source) = as_failures (source_state t source) + int (own_failures source calls) \<and>
   as_bannedUntil (source_state t' source) \<le> t0"
proof (induction calls arbitrary: t)
  case (Cons c calls)
  have n: "as_failures (source_state t source) + int (own_failures source [c]) < at_limit t"
    using Cons.prems(5) unfolding own_failures_Cons [of source c calls] by simp
  have c: "failing c \<subseteq> K" "call_after t0 source c" using Cons.prems(3) by simp_all
  note C = call_counted [OF Cons.prems(1,2) c Cons.prems(4) n]
  show ?case
    using Cons.IH [OF C(1,2) _ C(6)] Cons.prems(3,5,6) C(3-5) unfolding own_failures_Cons [of source c calls] by simp
qed simp

text \<open>
  (C39) Bans are enforced, exactly.  Take a source that is not banned, and any sequence of calls of all sources, in the order in
  which they get the lock and with any times, in which the source does not authenticate and its failures bring its count to one
  less than the limit; the table has room for all the sources that fail in it.  The source is not banned yet.  Its next failure,
  at time \<open>T\<close>, bans it until \<open>T\<close> plus the ban duration and no longer: from then on, whatever calls other sources make, however
  many sources there are, and however often the source tries again before the ban ends, it is answered that it is banned exactly
  at the times before \<open>T\<close> plus the ban duration, unless it authenticates on another connection.  The table never has more than
  4096 sources.
\<close>

theorem auth_ban_enforced:
  assumes "tracker_ok t" "as_bannedUntil (source_state t source) \<le> t0" "t0 \<le> T"
    and "card (fst ` set (at_sources t) \<union> insert source (\<Union>c\<in>set earlier. failing c)) \<le> maxAuthSources"
    and "list_all (call_after t0 source) earlier"
    and "as_failures (source_state t source) + int (own_failures source earlier) + 1 = at_limit t"
    and "list_all (call_before (T + at_banDuration t) source) later"
  shows "let t1 = fold auth_step earlier t; t2 = fold auth_step later (auth_step (Failed source T) t1)
     in (\<forall>now. t0 \<le> now \<longrightarrow> \<not> fst (banned source now t1)) \<and>
        (\<forall>now. fst (banned source now t2) \<longleftrightarrow> now < T + at_banDuration t) \<and> length (at_sources t2) \<le> maxAuthSources"
proof -
  let ?K = "fst ` set (at_sources t) \<union> insert source (\<Union>c\<in>set earlier. failing c)"
  define t1 where "t1 = fold auth_step earlier t"
  define t2 where "t2 = fold auth_step later (auth_step (Failed source T) t1)"
  have fin: "finite (failing c)" for c by (cases c) auto
  have K: "roomy ?K t" using assms(4) fin by (auto simp: roomy_def)
  have "list_all (\<lambda>c. failing c \<subseteq> ?K \<and> call_after t0 source c) earlier" using assms(5) by (auto simp: list_all_iff)
  note A = failures_add_up [OF assms(1) K this assms(2) _ t1_def]
  have A: "tracker_ok t1" "roomy ?K t1" "at_limit t1 = at_limit t" "at_banDuration t1 = at_banDuration t"
    "as_failures (source_state t1 source) + 1 = at_limit t" "as_bannedUntil (source_state t1 source) \<le> t0"
    using A assms(6) by auto
  obtain d u m where r: "registerFailure source T t1 None = (d, u, m)" by (metis prod_cases3)
  note R = registerFailure_ok [OF A(1) r]
  have "trackable source t1" using roomy_trackable [OF A(2,1)] by simp
  then have u: "as_bannedUntil (source_state u source) = T + at_banDuration t" using R(5) A(3-6) assms(3) by auto
  have t2: "t2 = fold auth_step later u" using r by (simp add: t2_def)
  have P: "tracker_ok t2" "source_state t2 source = source_state u source"
    using ban_persists [OF R(1), of source later] assms(7) unfolding u t2 by auto
  have "fst (banned source now t2) \<longleftrightarrow> now < T + at_banDuration t" for now
    using banned_ok(1) [OF P(1) prod.collapse [symmetric], of source now] unfolding P(2) u by simp
  moreover have "\<not> fst (banned source now t1)" if "t0 \<le> now" for now
    using banned_ok(1) [OF A(1) prod.collapse [symmetric], of source now] A(6) that by simp
  ultimately show ?thesis using P(1) unfolding Let_def t1_def [symmetric] t2_def [symmetric] by (simp add: tracker_ok_def)
qed

theorem auth_ban_enforced_witness:
  "let t1 = fold auth_step [Failed ''192.0.2.1'' 10, Failed ''192.0.2.2'' 11, Asked ''192.0.2.1'' 12] (newAuthFailureTracker 5 2 60);
       t2 = fold auth_step [Failed ''192.0.2.1'' 70, Failed ''192.0.2.2'' 75, Succeeded ''192.0.2.2''] (auth_step (Failed ''192.0.2.1'' 20) t1)
   in \<not> fst (banned ''192.0.2.1'' 15 t1) \<and> fst (banned ''192.0.2.1'' 79 t2) \<and> \<not> fst (banned ''192.0.2.1'' 80 t2)"
proof -
  let ?t = "newAuthFailureTracker 5 2 60"
  let ?e = "[Failed ''192.0.2.1'' 10, Failed ''192.0.2.2'' 11, Asked ''192.0.2.1'' 12]"
  let ?l = "[Failed ''192.0.2.1'' 70, Failed ''192.0.2.2'' 75, Succeeded ''192.0.2.2'']"
  have t: "tracker_ok ?t" "as_bannedUntil (source_state ?t ''192.0.2.1'') \<le> 10" "(10 :: nat) \<le> 20"
    "list_all (call_after 10 ''192.0.2.1'') ?e" "as_failures (source_state ?t ''192.0.2.1'') + int (own_failures ''192.0.2.1'' ?e) + 1 = at_limit ?t"
    "list_all (call_before (20 + at_banDuration ?t) ''192.0.2.1'') ?l" "20 + at_banDuration ?t = 80"
    by (simp_all add: newAuthFailureTracker_def tracker_ok_def source_state_def)
  have "fst ` set (at_sources ?t) \<union> insert ''192.0.2.1'' (\<Union>c\<in>set ?e. failing c) = {''192.0.2.1'', ''192.0.2.2''}"
    by (auto simp: newAuthFailureTracker_def)
  then have c: "card (fst ` set (at_sources ?t) \<union> insert ''192.0.2.1'' (\<Union>c\<in>set ?e. failing c)) \<le> maxAuthSources"
    by (simp add: maxAuthSources_def)
  have "(10 :: nat) \<le> 15" "(79 :: nat) < 80" "\<not> (80 :: nat) < 80" by simp_all
  then show ?thesis using auth_ban_enforced [OF t(1-3) c t(4-6), unfolded Let_def t(7)] unfolding Let_def by blast
qed

end
