(* ===== verification/Connection.thy ===== *)
theory Connection
  imports SocketIO AuthTracker Engine
begin

text \<open>
  A served connection (\<^verbatim>\<open>server/connection.go\<close>): frames are read, handled by the session and answered, one after the
  other, with the failures of authentication counted per source.  What a turn of the loop meets outside of the program,
  the clock, the deadlines, the network and the cancellation of the server, is a record \<open>turn_env\<close>.  The source is what
  \<^verbatim>\<open>authSource\<close> makes of the peer's address.
\<close>

section \<open>The code\<close>

datatype terminationReason = terminationPeerClose | terminationProtocolClose | terminationServerShutdown | terminationSocketError
  | terminationTLSError | terminationTimeout

record connectionTermination =
  ct_phase :: string
  ct_reason :: terminationReason
  ct_err :: "io_error option"
  ct_shouldLog :: bool

definition isPeerCloseError :: "io_error \<Rightarrow> bool" where
  "isPeerCloseError err \<longleftrightarrow> err = PeerReset"

definition classifyConnectionTermination :: "bool \<Rightarrow> bool \<Rightarrow> string \<Rightarrow> io_error \<Rightarrow> bool \<Rightarrow> connectionTermination" where
  "classifyConnectionTermination cancelled isTLS phase err logPeerClose =
     (let termination = \<lparr>ct_phase = phase, ct_reason = terminationSocketError, ct_err = Some err, ct_shouldLog = True\<rparr>
      in if cancelled then termination\<lparr>ct_reason := terminationServerShutdown, ct_shouldLog := False\<rparr>
         else if err = NetTimeout then termination\<lparr>ct_reason := terminationTimeout\<rparr>
         else if err = EOF \<or> err = ErrClosedPipe \<or> err = ErrNetClosed \<or> isPeerCloseError err
              then termination\<lparr>ct_reason := terminationPeerClose, ct_shouldLog := logPeerClose\<rparr>
         else if isTLS then termination\<lparr>ct_reason := terminationTLSError\<rparr>
         else termination)"

definition protocolClose :: "string \<Rightarrow> connectionTermination" where
  "protocolClose phase = \<lparr>ct_phase = phase, ct_reason = terminationProtocolClose, ct_err = None, ct_shouldLog = False\<rparr>"

record turn_env =
  te_checked :: nat
  te_setIdle :: "io_error option"
  te_setRequest :: "io_error option"
  te_elapsed :: int64
  te_failed :: nat
  te_penalty :: "io_error option"
  te_write :: "io_error option"
  te_cancelled :: bool

record 's conn_state =
  cx_buffer :: lineBuffer
  cx_conn :: connection
  cx_session :: Session
  cx_tracker :: authFailureTracker
  cx_shared :: "'s shared"

text \<open>What a turn has done: an oversized line, or a frame with its response and whether an authentication failed.\<close>

datatype turn_event = Oversized | Answered bytes Response bool

datatype turn_end = Continues | Terminated connectionTermination | Crashed

type_synonym 's turn = "(turn_event list \<times> turn_end \<times> 's conn_state) option"

definition classified :: "bool \<Rightarrow> turn_env \<Rightarrow> string \<Rightarrow> io_error \<Rightarrow> bool \<Rightarrow> turn_end" where
  "classified isTLS env phase err logPeerClose = Terminated (classifyConnectionTermination (te_cancelled env) isTLS phase err logPeerClose)"

text \<open>The accounting after a command.\<close>

definition account :: "string \<Rightarrow> turn_env \<Rightarrow> bool \<Rightarrow> 's conn_state \<Rightarrow> io_error option \<times> 's conn_state" where
  "account source env wasAuthenticated st =
     (let se = cx_session st; sh = cx_shared st
      in if se_authFailed se then
           (case registerFailure source (te_failed env) (cx_tracker st) (Some (sh_metrics sh)) of (delay, t, metrics) \<Rightarrow>
             (te_penalty env, st\<lparr>cx_tracker := t, cx_shared := sh\<lparr>sh_metrics := the metrics\<rparr>\<rparr>))
         else if \<not> wasAuthenticated \<and> se_authenticated se then
           (case authenticated source (cx_tracker st) (Some (sh_metrics sh)) of (t, metrics) \<Rightarrow>
             (None, st\<lparr>cx_tracker := t, cx_shared := sh\<lparr>sh_metrics := the metrics\<rparr>\<rparr>))
         else (None, st))"

text \<open>A frame is handled and answered; \<open>err\<close> is the error that came with it.\<close>

definition answer_turn :: "float64_arith \<Rightarrow> 's Engine \<Rightarrow> string \<Rightarrow> bool \<Rightarrow> turn_env \<Rightarrow> bytes \<Rightarrow> io_error option \<Rightarrow> 's conn_state \<Rightarrow> 's turn" where
  "answer_turn fl e source isTLS env input err st =
     (case Handle fl e (te_elapsed env) input (cx_session st) (cx_shared st) of
        None \<Rightarrow> None
      | Some (response, se, sh) \<Rightarrow>
     (case account source env (se_authenticated (cx_session st)) (st\<lparr>cx_session := se, cx_shared := sh\<rparr>) of (interrupted, st) \<Rightarrow>
      let event = Answered input response (se_authFailed se)
      in case interrupted of
           Some x \<Rightarrow> Some ([event], classified isTLS env ''auth_delay'' x False, st)
         | None \<Rightarrow>
        (case te_write env of
           Some x \<Rightarrow> Some ([event], classified isTLS env ''write'' x True, st)
         | None \<Rightarrow>
             if se_closed se then Some ([event], Terminated (protocolClose ''protocol''), st)
             else if err = Some EOF then Some ([event], classified isTLS env ''read'' EOF False, st)
             else Some ([event], Continues, st))))"

text \<open>One turn of the loop of \<^verbatim>\<open>serveConnection\<close>.\<close>

definition serve_turn :: "float64_arith \<Rightarrow> 's Engine \<Rightarrow> string \<Rightarrow> bool \<Rightarrow> turn_env \<Rightarrow> 's conn_state \<Rightarrow> 's turn" where
  "serve_turn fl e source isTLS env st =
     (case (if se_authenticated (cx_session st) then (False, cx_tracker st) else banned source (te_checked env) (cx_tracker st)) of (isBanned, t) \<Rightarrow>
      let st = st\<lparr>cx_tracker := t\<rparr>
      in if isBanned then Some ([], Terminated (protocolClose ''authentication''), st)
         else case readFrameWithin (te_setIdle env) (te_setRequest env) (cx_buffer st) (cx_conn st) of
           None \<Rightarrow> None
         | Some (outcome, b, c) \<Rightarrow>
        (let st = st\<lparr>cx_buffer := b, cx_conn := c\<rparr>
         in case outcome of
              SlicePanic \<Rightarrow> Some ([], Crashed, st)
            | Frame input tooLong err \<Rightarrow>
                if tooLong then
                  (case te_write env of
                     Some x \<Rightarrow> Some ([Oversized], classified isTLS env ''write'' x True, st)
                   | None \<Rightarrow>
                       (case err of
                          Some x \<Rightarrow> Some ([Oversized], classified isTLS env ''read'' x False, st)
                        | None \<Rightarrow> Some ([Oversized], Continues, st)))
                else
                  (case err of
                     None \<Rightarrow> answer_turn fl e source isTLS env input err st
                   | Some x \<Rightarrow>
                       if x \<noteq> EOF then Some ([], classified isTLS env ''read'' x (x \<noteq> ErrClosedPipe \<and> x \<noteq> ErrNetClosed), st)
                       else if input = [] then Some ([], classified isTLS env ''read'' x False, st)
                       else answer_turn fl e source isTLS env input err st)))"

text \<open>The loop, for as many turns as there are environments.\<close>

fun serve_loop :: "float64_arith \<Rightarrow> 's Engine \<Rightarrow> string \<Rightarrow> bool \<Rightarrow> turn_env list \<Rightarrow> 's conn_state \<Rightarrow> 's turn" where
  "serve_loop fl e source isTLS [] st = Some ([], Continues, st)"
| "serve_loop fl e source isTLS (env # envs) st =
     (case serve_turn fl e source isTLS env st of
        None \<Rightarrow> None
      | Some (events, Continues, st) \<Rightarrow>
          (case serve_loop fl e source isTLS envs st of None \<Rightarrow> None | Some (more_events, finish, st) \<Rightarrow> Some (events @ more_events, finish, st))
      | Some (events, finish, st) \<Rightarrow> Some (events, finish, st))"

text \<open>\<open>handshake\<close> and \<open>noDelay\<close>: the errors of the TLS handshake and of the socket option.\<close>

definition serveConnection :: "float64_arith \<Rightarrow> 's Engine \<Rightarrow> string \<Rightarrow> bool \<Rightarrow> nat \<Rightarrow> io_error option \<Rightarrow> io_error option \<Rightarrow> bool \<Rightarrow>
    turn_env list \<Rightarrow> connection \<Rightarrow> authFailureTracker \<Rightarrow> 's shared \<Rightarrow> 's turn" where
  "serveConnection fl e source isTLS maxLineBytes handshake noDelay cancelled envs c t sh =
     (let st = \<lparr>cx_buffer = newLineBuffer maxLineBytes, cx_conn = c, cx_session = NewSession e, cx_tracker = t, cx_shared = sh\<rparr>
      in case handshake of
           Some x \<Rightarrow> Some ([], Terminated (classifyConnectionTermination cancelled isTLS ''tls_handshake'' x True), st)
         | None \<Rightarrow>
        (case noDelay of
           Some x \<Rightarrow> Some ([], Terminated (classifyConnectionTermination cancelled isTLS ''setup'' x True), st)
         | None \<Rightarrow> serve_loop fl e source isTLS envs st))"

section \<open>The frames that are answered\<close>

text \<open>A failing deadline ends the reading before a frame; otherwise it makes no difference.\<close>

lemma readFrameWithin_deadlines:
  "readFrameWithin si sr b c = readFrameWithin None None b c \<or> (\<exists>x b' c'. readFrameWithin si sr b c = Some (Frame [] False (Some x), b', c'))"
  unfolding readFrameWithin_def by (auto simp: Let_def split: prod.split)

text \<open>The state of a connection before a turn, with \<open>S\<close> the bytes that are still to be read.\<close>

definition serving :: "nat \<Rightarrow> io_error \<Rightarrow> bytes \<Rightarrow> 's conn_state \<Rightarrow> bool" where
  "serving limit failure S st \<longleftrightarrow> ready_buffer limit (cx_buffer st) \<and> in_step failure (cx_buffer st) (cx_conn st) \<and> rewound (cx_buffer st) \<and>
     unread (cx_buffer st) (cx_conn st) = S"

abbreviation short_lines :: "nat \<Rightarrow> io_error \<Rightarrow> bytes \<Rightarrow> bool" where
  "short_lines limit failure S \<equiv> list_all (\<lambda>(_, tooLong, _). \<not> tooLong) (split_frames limit failure S)"

lemma split_frames_next:
  assumes "next_frame limit failure S = ((f, tooLong, err), rest)"
  shows "split_frames limit failure S = (f, tooLong, err) # (if err = None then split_frames limit failure rest else [])"
  by (subst split_frames.simps) (auto simp: assms split: option.split)

text \<open>A turn ends the connection without an answer, or answers the next line.\<close>

definition takes_line :: "float64_arith \<Rightarrow> 's Engine \<Rightarrow> string \<Rightarrow> bool \<Rightarrow> nat \<Rightarrow> io_error \<Rightarrow> turn_env \<Rightarrow> bytes \<Rightarrow> 's conn_state \<Rightarrow> 's turn \<Rightarrow> bool" where
  "takes_line fl e source isTLS limit failure env S st result \<longleftrightarrow>
     (\<exists>f err rest st1. next_frame limit failure S = ((f, False, err), rest) \<and>
        result = answer_turn fl e source isTLS env f err st1 \<and> cx_session st1 = cx_session st \<and> cx_shared st1 = cx_shared st \<and>
        (if se_authenticated (cx_session st) then cx_tracker st1 = cx_tracker st else banned source (te_checked env) (cx_tracker st) = (False, cx_tracker st1)) \<and>
        (err = None \<longrightarrow> serving limit failure rest st1) \<and> (err = None \<or> err = Some EOF))"

lemma serve_turn_total:
  assumes "serving limit failure S st" "short_lines limit failure S"
  shows "(\<exists>finish st'. serve_turn fl e source isTLS env st = Some ([], finish, st') \<and> finish \<noteq> Continues \<and> finish \<noteq> Crashed \<and>
      cx_session st' = cx_session st \<and> cx_shared st' = cx_shared st) \<or>
    takes_line fl e source isTLS limit failure env S st (serve_turn fl e source isTLS env st)"
proof -
  obtain isBanned t where b: "(if se_authenticated (cx_session st) then (False, cx_tracker st) else banned source (te_checked env) (cx_tracker st)) = (isBanned, t)" by fastforce
  let ?b = "cx_buffer st" and ?c = "cx_conn st"
  obtain r b2 c2 where R: "readFrameWithin None None ?b ?c = Some (r, b2, c2)" "seen r = Some (fst (next_frame limit failure S))"
    "unread b2 c2 = snd (next_frame limit failure S)" "ready_buffer limit b2" "in_step failure b2 c2" "rewound b2 \<or> fst (snd (fst (next_frame limit failure S)))"
    using readFrameWithin_exact [of limit ?b failure ?c] assms(1) unfolding serving_def answers_def by blast
  obtain f tl err rest where N: "next_frame limit failure S = ((f, tl, err), rest)" by (metis prod_cases3 surj_pair)
  have tl: "\<not> tl" using assms(2) split_frames_next [OF N] by simp
  have r: "r = Frame f False err" using R(2) N tl by (cases r) (auto split: if_splits)
  show ?thesis
  proof (cases "isBanned \<or> (\<exists>x b' c'. readFrameWithin (te_setIdle env) (te_setRequest env) ?b ?c = Some (Frame [] False (Some x), b', c'))")
    case True
    then show ?thesis using b by (auto simp: serve_turn_def Let_def classified_def split: if_splits)
  next
    case False
    then have rd: "readFrameWithin (te_setIdle env) (te_setRequest env) ?b ?c = Some (Frame f False err, b2, c2)"
      using readFrameWithin_deadlines [of "te_setIdle env" "te_setRequest env" ?b ?c] R(1) r by auto
    let ?st = "st\<lparr>cx_tracker := t, cx_buffer := b2, cx_conn := c2\<rparr>"
    have step: "serve_turn fl e source isTLS env st =
        (if err \<noteq> None \<and> err \<noteq> Some EOF \<or> err = Some EOF \<and> f = []
         then Some ([], classified isTLS env ''read'' (the err) (if the err = EOF then False else the err \<noteq> ErrClosedPipe \<and> the err \<noteq> ErrNetClosed), ?st)
         else answer_turn fl e source isTLS env f err ?st)"
      using b rd False by (auto simp: serve_turn_def Let_def split: option.split)
    show ?thesis
    proof (cases "err \<noteq> None \<and> err \<noteq> Some EOF \<or> err = Some EOF \<and> f = []")
      case True
      then show ?thesis unfolding step by (auto simp: classified_def)
    next
      case F: False
      have "takes_line fl e source isTLS limit failure env S st (serve_turn fl e source isTLS env st)"
        unfolding takes_line_def using step F N tl R(3-6) b False
        by (intro exI [of _ f] exI [of _ err] exI [of _ rest] exI [of _ ?st]) (auto simp: serving_def split: if_splits)
      then show ?thesis by blast
    qed
  qed
qed

lemma serve_turn_cases:
  assumes "serving limit failure S st" "short_lines limit failure S" "serve_turn fl e source isTLS env st = Some (events, finish, st')"
  shows "(events = [] \<and> finish \<noteq> Continues \<and> finish \<noteq> Crashed \<and> cx_session st' = cx_session st \<and> cx_shared st' = cx_shared st) \<or>
    takes_line fl e source isTLS limit failure env S st (Some (events, finish, st'))"
  using serve_turn_total [OF assms(1,2), of fl e source isTLS env] unfolding assms(3) by auto

lemma account_same:
  assumes "account source env was st = (x, st')"
  shows "cx_session st' = cx_session st" "sh_store (cx_shared st') = sh_store (cx_shared st)" "cx_buffer st' = cx_buffer st" "cx_conn st' = cx_conn st"
    and "se_authFailed (cx_session st) \<Longrightarrow> cx_tracker st' = fst (snd (registerFailure source (te_failed env) (cx_tracker st) (Some (sh_metrics (cx_shared st)))))"
    and "\<not> se_authFailed (cx_session st) \<Longrightarrow> \<not> se_authenticated (cx_session st) \<Longrightarrow> cx_tracker st' = cx_tracker st"
  using assms by (auto simp: account_def Let_def split: prod.splits if_splits)

lemma answer_turn_event:
  assumes "answer_turn fl e source isTLS env f err st = Some (events, finish, st')"
  obtains r se sh where "Handle fl e (te_elapsed env) f (cx_session st) (cx_shared st) = Some (r, se, sh)" "events = [Answered f r (se_authFailed se)]"
    "cx_session st' = se" "sh_store (cx_shared st') = sh_store sh" "cx_buffer st' = cx_buffer st" "cx_conn st' = cx_conn st"
    "finish = Continues \<Longrightarrow> err \<noteq> Some EOF" "finish \<noteq> Crashed"
    "se_authFailed se \<Longrightarrow> cx_tracker st' = fst (snd (registerFailure source (te_failed env) (cx_tracker st) (Some (sh_metrics sh))))"
    "\<not> se_authFailed se \<Longrightarrow> \<not> se_authenticated se \<Longrightarrow> cx_tracker st' = cx_tracker st"
proof -
  obtain r se sh where h: "Handle fl e (te_elapsed env) f (cx_session st) (cx_shared st) = Some (r, se, sh)"
    using assms by (auto simp: answer_turn_def split: option.splits)
  obtain x st1 where a: "account source env (se_authenticated (cx_session st)) (st\<lparr>cx_session := se, cx_shared := sh\<rparr>) = (x, st1)" by fastforce
  have "events = [Answered f r (se_authFailed se)]" "st' = st1" "finish = Continues \<Longrightarrow> err \<noteq> Some EOF" "finish \<noteq> Crashed"
    using assms h a by (auto simp: answer_turn_def Let_def classified_def split: option.splits if_splits)
  then show thesis using that [OF h] account_same [OF a] by simp
qed

fun answered_frame :: "turn_event \<Rightarrow> bytes list" where
  "answered_frame (Answered input r failed) = [input]"
| "answered_frame Oversized = []"

lemma serving_more: "serving limit failure S st \<Longrightarrow> cx_buffer st' = cx_buffer st \<Longrightarrow> cx_conn st' = cx_conn st \<Longrightarrow> serving limit failure S st'"
  by (simp add: serving_def)

lemma short_lines_rest:
  "short_lines limit failure S \<Longrightarrow> next_frame limit failure S = ((f, False, None), rest) \<Longrightarrow> short_lines limit failure rest"
  by (drule split_frames_next) simp

lemma loop_continues:
  assumes "serve_loop fl e source isTLS (env # envs) st = Some (events, finish, st')"
  obtains (last) "serve_turn fl e source isTLS env st = Some (events, finish, st')" "finish \<noteq> Continues"
    | (next_) es1 es2 st1 where "serve_turn fl e source isTLS env st = Some (es1, Continues, st1)"
      "serve_loop fl e source isTLS envs st1 = Some (es2, finish, st')" "events = es1 @ es2"
  using assms by (auto split: option.splits prod.splits turn_end.splits)

lemma turn_line:
  assumes "serving limit failure S st" "short_lines limit failure S" "serve_turn fl e source isTLS env st = Some (events, finish, st')"
  shows "finish \<noteq> Crashed \<and> ((events = [] \<and> finish \<noteq> Continues) \<or>
    (\<exists>f err rest r failed. next_frame limit failure S = ((f, False, err), rest) \<and> events = [Answered f r failed] \<and>
       (finish = Continues \<longrightarrow> err = None \<and> serving limit failure rest st')))"
  using serve_turn_cases [OF assms]
proof
  assume "takes_line fl e source isTLS limit failure env S st (Some (events, finish, st'))"
  then obtain f err rest st1 where T: "next_frame limit failure S = ((f, False, err), rest)" "answer_turn fl e source isTLS env f err st1 = Some (events, finish, st')"
    "err = None \<longrightarrow> serving limit failure rest st1" "err = None \<or> err = Some EOF"
    unfolding takes_line_def by metis
  from T(2) show ?thesis
  proof (rule answer_turn_event)
    fix r se sh assume "events = [Answered f r (se_authFailed se)]" "cx_buffer st' = cx_buffer st1" "cx_conn st' = cx_conn st1" "finish = Continues \<Longrightarrow> err \<noteq> Some EOF" "finish \<noteq> Crashed"
    then show ?thesis using T(1,3,4) serving_more [of limit failure rest st1 st'] by auto
  qed
qed blast

lemma loop_answers_lines:
  assumes "serving limit failure S st" "short_lines limit failure S" "serve_loop fl e source isTLS envs st = Some (events, finish, st')"
  shows "concat (map answered_frame events) = take (length events) (map fst (split_frames limit failure S)) \<and> finish \<noteq> Crashed \<and> Oversized \<notin> set events"
  using assms
proof (induction envs arbitrary: S st events)
  case (Cons env envs)
  show ?case using Cons.prems(3)
  proof (cases rule: loop_continues)
    case last
    from turn_line [OF Cons.prems(1,2) last(1)] show ?thesis using split_frames_next [of limit failure S] by fastforce
  next
    case (next_ es1 es2 st1)
    from turn_line [OF Cons.prems(1,2) next_(1)] obtain f rest r failed where
      n: "next_frame limit failure S = ((f, False, None), rest)" and es: "es1 = [Answered f r failed]" and sv: "serving limit failure rest st1" by auto
    from Cons.IH [OF sv short_lines_rest [OF Cons.prems(2) n] next_(2)] show ?thesis using next_(3) es split_frames_next [OF n] by simp
  qed
qed simp

text \<open>Two lines in one segment, served in two turns.\<close>

definition calm :: turn_env where
  "calm = \<lparr>te_checked = 10, te_setIdle = None, te_setRequest = None, te_elapsed = 0, te_failed = 10, te_penalty = None, te_write = None, te_cancelled = False\<rparr>"

section \<open>Connections without the token\<close>

fun wrong_guess :: "turn_event \<Rightarrow> bool" where
  "wrong_guess (Answered input r failed) = failed"
| "wrong_guess Oversized = False"

text \<open>
  The tracker after \<open>k\<close> wrong guesses of a source: they are all counted, or the source is banned for the whole period
  that begins at \<open>t0\<close>.
\<close>

definition guessed :: "string \<Rightarrow> nat \<Rightarrow> authFailureTracker \<Rightarrow> nat \<Rightarrow> authFailureTracker \<Rightarrow> bool" where
  "guessed source t0 t k t' \<longleftrightarrow> tracker_ok t' \<and> at_limit t' = at_limit t \<and> at_banDuration t' = at_banDuration t \<and>
     ((trackable source t' \<and> as_bannedUntil (source_state t' source) \<le> t0 \<and> int k \<le> as_failures (source_state t' source)) \<or>
      (t0 + at_banDuration t \<le> as_bannedUntil (source_state t' source) \<and> int k \<le> at_limit t))"

lemma guessed_bound:
  assumes "guessed source t0 t k t'" "1 \<le> at_limit t"
  shows "int k \<le> at_limit t"
proof -
  have "as_failures (source_state t' source) < max 1 (at_limit t')" if "tracker_ok t'"
    using that by (auto simp: tracker_ok_def source_state_def split: option.splits)
  then show ?thesis using assms by (auto simp: guessed_def)
qed

lemma guessed_check:
  assumes "guessed source t0 t k t'" "t0 \<le> now" "now < t0 + at_banDuration t" "banned source now t' = (False, t1)"
  shows "guessed source t0 t k t1" "trackable source t1 \<and> as_bannedUntil (source_state t1 source) \<le> t0 \<and> int k \<le> as_failures (source_state t1 source)"
proof -
  have ok: "tracker_ok t'" using assms(1) by (simp add: guessed_def)
  note B = banned_ok [OF ok assms(4)]
  have "trackable source t' \<and> as_bannedUntil (source_state t' source) \<le> t0 \<and> int k \<le> as_failures (source_state t' source)"
    using assms(1-3) B(1) by (auto simp: guessed_def)
  then show x: "trackable source t1 \<and> as_bannedUntil (source_state t1 source) \<le> t0 \<and> int k \<le> as_failures (source_state t1 source)"
    using B(6,7) [of source] B(8) [of source] by auto
  show "guessed source t0 t k t1" using x B(2-4) assms(1) by (simp add: guessed_def)
qed

lemma guessed_failure:
  assumes "guessed source t0 t k t1" "trackable source t1 \<and> as_bannedUntil (source_state t1 source) \<le> t0 \<and> int k \<le> as_failures (source_state t1 source)"
    and "t0 \<le> now" "1 \<le> at_limit t"
  shows "guessed source t0 t (k + 1) (fst (snd (registerFailure source now t1 metrics)))"
proof -
  obtain d t2 m where r: "registerFailure source now t1 metrics = (d, t2, m)" by (metis prod_cases3)
  have ok: "tracker_ok t1" "at_limit t1 = at_limit t" "at_banDuration t1 = at_banDuration t" using assms(1) by (simp_all add: guessed_def)
  note R = registerFailure_ok [OF ok(1) r]
  have lt: "as_failures (source_state t1 source) < max 1 (at_limit t1)" using ok(1) by (auto simp: tracker_ok_def source_state_def split: option.splits)
  have "\<not> now < as_bannedUntil (source_state t1 source)" using assms(2,3) by simp
  note F = R(5) [OF this conjunct1 [OF assms(2)]]
  have "guessed source t0 t (k + 1) t2" unfolding guessed_def using R(1-3) ok F assms(2-4) lt by (auto split: if_splits)
  then show ?thesis using r by simp
qed

text \<open>A turn of an unauthenticated session on a line that does not present the token.\<close>

definition locked_out :: "'s shared \<Rightarrow> string \<Rightarrow> nat \<Rightarrow> authFailureTracker \<Rightarrow> nat \<Rightarrow> 's conn_state \<Rightarrow> bool" where
  "locked_out sh source t0 t k st \<longleftrightarrow> \<not> se_authenticated (cx_session st) \<and> sh_store (cx_shared st) = sh_store sh \<and> guessed source t0 t k (cx_tracker st)"

definition in_period :: "nat \<Rightarrow> nat \<Rightarrow> turn_env \<Rightarrow> bool" where
  "in_period t0 T env \<longleftrightarrow> t0 \<le> te_checked env \<and> te_checked env < T \<and> t0 \<le> te_failed env \<and> te_failed env < T"

lemma locked_out_turn:
  assumes "en_auth e" "1 \<le> at_limit t" "in_period t0 (t0 + at_banDuration t) env" "locked_out sh source t0 t k st"
    and "serving limit failure S st" "short_lines limit failure S" "list_all (\<lambda>x. \<not> presents_token e (fst x)) (split_frames limit failure S)"
    and "serve_turn fl e source isTLS env st = Some (events, finish, st')"
  shows "sh_store (cx_shared st') = sh_store sh \<and> (k + length (filter wrong_guess events)) \<le> nat (at_limit t) \<and>
    (finish = Continues \<longrightarrow> locked_out sh source t0 t (k + length (filter wrong_guess events)) st')"
  using serve_turn_cases [OF assms(5,6,8)]
proof
  assume "events = [] \<and> finish \<noteq> Continues \<and> finish \<noteq> Crashed \<and> cx_session st' = cx_session st \<and> cx_shared st' = cx_shared st"
  then show ?thesis using assms(4) guessed_bound [OF _ assms(2), of source t0 k "cx_tracker st"] by (auto simp: locked_out_def)
next
  have L: "\<not> se_authenticated (cx_session st)" "sh_store (cx_shared st) = sh_store sh" "guessed source t0 t k (cx_tracker st)" using assms(4) by (simp_all add: locked_out_def)
  have now: "t0 \<le> te_checked env" "te_checked env < t0 + at_banDuration t" "t0 \<le> te_failed env" using assms(3) by (simp_all add: in_period_def)
  assume "takes_line fl e source isTLS limit failure env S st (Some (events, finish, st'))"
  then obtain f err rest st1 where T: "next_frame limit failure S = ((f, False, err), rest)" "answer_turn fl e source isTLS env f err st1 = Some (events, finish, st')"
    "cx_session st1 = cx_session st" "cx_shared st1 = cx_shared st" "banned source (te_checked env) (cx_tracker st) = (False, cx_tracker st1)"
    unfolding takes_line_def using L(1) by auto
  note C = guessed_check [OF L(3) now(1,2) T(5)]
  have "\<not> presents_token e f" using assms(7) split_frames_next [OF T(1)] by simp
  note H = Handle_unauthenticated [OF assms(1) this L(1), of fl "te_elapsed env" "cx_shared st"]
  from T(2) show ?thesis
  proof (rule answer_turn_event)
    fix r se sh1 assume A: "Handle fl e (te_elapsed env) f (cx_session st1) (cx_shared st1) = Some (r, se, sh1)" "events = [Answered f r (se_authFailed se)]"
      "cx_session st' = se" "sh_store (cx_shared st') = sh_store sh1"
      "se_authFailed se \<Longrightarrow> cx_tracker st' = fst (snd (registerFailure source (te_failed env) (cx_tracker st1) (Some (sh_metrics sh1))))"
      "\<not> se_authFailed se \<Longrightarrow> \<not> se_authenticated se \<Longrightarrow> cx_tracker st' = cx_tracker st1"
    have h: "\<not> se_authenticated se" "sh_store sh1 = sh_store sh" using H A(1) T(3,4) L(2) by auto
    have "guessed source t0 t (k + length (filter wrong_guess events)) (cx_tracker st')"
      using A(2,5,6) h(1) C(1) guessed_failure [OF C now(3) assms(2), of "Some (sh_metrics sh1)"] by (cases "se_authFailed se") auto
    then show ?thesis using guessed_bound [OF _ assms(2)] A(3,4) h by (fastforce simp: locked_out_def)
  qed
qed

lemma locked_out_total:
  assumes "en_auth e" "\<not> se_authenticated (cx_session st)" "serving limit failure S st" "short_lines limit failure S"
    and "list_all (\<lambda>x. \<not> presents_token e (fst x)) (split_frames limit failure S)"
  shows "serve_turn fl e source isTLS env st \<noteq> None"
  using serve_turn_total [OF assms(3,4), of fl e source isTLS env]
proof
  assume "takes_line fl e source isTLS limit failure env S st (serve_turn fl e source isTLS env st)"
  then obtain f err rest st1 where T: "next_frame limit failure S = ((f, False, err), rest)" "serve_turn fl e source isTLS env st = answer_turn fl e source isTLS env f err st1"
    "cx_session st1 = cx_session st" unfolding takes_line_def by blast
  have "\<not> presents_token e f" using assms(5) split_frames_next [OF T(1)] by simp
  from Handle_unauthenticated [OF assms(1) this assms(2), of fl "te_elapsed env" "cx_shared st1"] show ?thesis
    unfolding T(2) answer_turn_def using T(3) by (auto simp: Let_def split: prod.split option.split)
qed auto

lemma locked_out_loop:
  assumes "en_auth e" "1 \<le> at_limit t" "list_all (in_period t0 (t0 + at_banDuration t)) envs"
  shows "locked_out sh source t0 t k st \<Longrightarrow> serving limit failure S st \<Longrightarrow> short_lines limit failure S \<Longrightarrow>
    list_all (\<lambda>x. \<not> presents_token e (fst x)) (split_frames limit failure S) \<Longrightarrow>
    \<exists>events finish st'. serve_loop fl e source isTLS envs st = Some (events, finish, st') \<and>
      sh_store (cx_shared st') = sh_store sh \<and> k + length (filter wrong_guess events) \<le> nat (at_limit t)"
  using assms(3)
proof (induction envs arbitrary: S st k)
  case Nil
  then show ?case using guessed_bound [OF _ assms(2), of source t0 k "cx_tracker st"] by (auto simp: locked_out_def)
next
  case (Cons env envs)
  have p: "in_period t0 (t0 + at_banDuration t) env" "list_all (in_period t0 (t0 + at_banDuration t)) envs" using Cons.prems(5) by simp_all
  obtain es1 fin st1 where t: "serve_turn fl e source isTLS env st = Some (es1, fin, st1)"
    using locked_out_total [OF assms(1) _ Cons.prems(2-4), of fl source isTLS env] Cons.prems(1) by (auto simp: locked_out_def)
  note T = locked_out_turn [OF assms(1,2) p(1) Cons.prems(1-4) t]
  show ?case
  proof (cases "fin = Continues")
    case False
    then show ?thesis using t T by (cases fin) auto
  next
    case True
    from turn_line [OF Cons.prems(2,3) t] obtain f rest where n: "next_frame limit failure S = ((f, False, None), rest)" and sv: "serving limit failure rest st1"
      using True by auto
    have "list_all (\<lambda>x. \<not> presents_token e (fst x)) (split_frames limit failure rest)" using Cons.prems(4) split_frames_next [OF n] by simp
    from Cons.IH [OF _ sv short_lines_rest [OF Cons.prems(3) n] this p(2), of "k + length (filter wrong_guess es1)"] T True
    show ?thesis using t by fastforce
  qed
qed




lemma serving_without_token:
  assumes "en_auth e" "[] \<notin> set (cn_pieces c)" "short_lines maxLineBytes (cn_failure c) (concat (cn_pieces c))"
    and "list_all (\<lambda>x. \<not> presents_token e (fst x)) (split_frames maxLineBytes (cn_failure c) (concat (cn_pieces c)))"
    and "tracker_ok t" "trackable source t" "as_bannedUntil (source_state t source) \<le> t0" "1 \<le> at_limit t" "list_all (in_period t0 (t0 + at_banDuration t)) envs"
  shows "\<exists>events finish st'. serveConnection fl e source isTLS maxLineBytes handshake noDelay cancelled envs c t sh = Some (events, finish, st') \<and>
    sh_store (cx_shared st') = sh_store sh \<and> length (filter wrong_guess events) \<le> nat (at_limit t)"
proof -
  let ?st = "\<lparr>cx_buffer = newLineBuffer maxLineBytes, cx_conn = c, cx_session = NewSession e, cx_tracker = t, cx_shared = sh\<rparr>"
  have sv: "serving maxLineBytes (cn_failure c) (concat (cn_pieces c)) ?st"
    using assms(2) by (simp add: serving_def newLineBuffer_def ready_buffer_def in_step_def rewound_def unread_def buffered_def)
  have "0 \<le> as_failures (source_state t source)" using assms(5) by (auto simp: tracker_ok_def source_state_def split: option.splits)
  then have lo: "locked_out sh source t0 t 0 ?st" using assms(1,5-7) by (simp add: locked_out_def guessed_def NewSession_def)
  show ?thesis using locked_out_loop [OF assms(1,8,9) lo sv assms(3,4), of fl isTLS]
    by (cases handshake; cases noDelay) (auto simp: serveConnection_def Let_def)
qed

section \<open>Properties\<close>

text \<open>
  (C9) A connection answers the lines of its stream.  However the stream is cut into pieces, and whatever deadlines,
  writes and cancellations do, the frames that a connection answers are the first lines of the stream, each once and in
  order, for as many as it answers before it ends; and the server process survives the connection.  No line is longer than the limit.
\<close>

theorem connection_answers_lines:
  assumes "[] \<notin> set (cn_pieces c)" "short_lines maxLineBytes (cn_failure c) (concat (cn_pieces c))"
    and "serveConnection fl e source isTLS maxLineBytes handshake noDelay cancelled envs c t sh = Some (events, finish, st')"
  shows "concat (map answered_frame events) = take (length events) (map fst (split_frames maxLineBytes (cn_failure c) (concat (cn_pieces c)))) \<and>
    finish \<noteq> Crashed \<and> Oversized \<notin> set events"
proof -
  let ?st = "\<lparr>cx_buffer = newLineBuffer maxLineBytes, cx_conn = c, cx_session = NewSession e, cx_tracker = t, cx_shared = sh\<rparr>"
  have "serving maxLineBytes (cn_failure c) (concat (cn_pieces c)) ?st"
    using assms(1) by (simp add: serving_def newLineBuffer_def ready_buffer_def in_step_def rewound_def unread_def buffered_def)
  moreover have "(events = [] \<and> finish \<noteq> Crashed) \<or> serve_loop fl e source isTLS envs ?st = Some (events, finish, st')"
    using assms(3) by (auto simp: serveConnection_def Let_def split: option.splits)
  ultimately show ?thesis using loop_answers_lines [OF _ assms(2)] by fastforce
qed

definition guess_connection :: connection where
  "guess_connection = \<lparr>cn_pieces = [bytes_of ''PING'' @ CRLF @ bytes_of ''AUTH '', bytes_of ''guess'' @ CRLF], cn_failure = EOF, cn_eager = True\<rparr>"

lemma guess_lines: "split_frames 64 EOF (concat (cn_pieces guess_connection)) =
    [(bytes_of ''PING'' @ CRLF, False, None), (bytes_of ''AUTH guess'' @ CRLF, False, None), ([], False, Some EOF)]"
  unfolding guess_connection_def by code_simp

lemma guess_no_token: "list_all (\<lambda>x. \<not> presents_token sample_engine (fst x)) (split_frames 64 EOF (concat (cn_pieces guess_connection)))"
proof -
  have "\<not> presents_token sample_engine (bytes_of ''PING'' @ CRLF)" "\<not> presents_token sample_engine (bytes_of ''AUTH guess'' @ CRLF)"
    "\<not> presents_token sample_engine []" by code_simp+
  then show ?thesis by (simp add: guess_lines)
qed

lemma guess_facts: "en_auth sample_engine" "[] \<notin> set (cn_pieces guess_connection)" "cn_failure guess_connection = EOF"
  "short_lines 64 EOF (concat (cn_pieces guess_connection))"
  "tracker_ok (newAuthFailureTracker 5 2 60)" "trackable ''192.0.2.1'' (newAuthFailureTracker 5 2 60)"
  "as_bannedUntil (source_state (newAuthFailureTracker 5 2 60) ''192.0.2.1'') \<le> 10" "1 \<le> at_limit (newAuthFailureTracker 5 2 60)"
  "list_all (in_period 10 (10 + at_banDuration (newAuthFailureTracker 5 2 60))) [calm, calm, calm]"
proof -
  show "short_lines 64 EOF (concat (cn_pieces guess_connection))" by (simp add: guess_lines)
qed (simp_all add: sample_engine_def guess_connection_def bytes_of_def CRLF_def newAuthFailureTracker_def tracker_ok_def trackable_def source_state_def
      maxAuthSources_def in_period_def calm_def)

theorem connection_answers_lines_witness:
  "\<exists>events finish st'. serveConnection \<lparr>fl_round = \<lambda>x. x, fl_format = \<lambda>x. ''x''\<rparr> sample_engine ''192.0.2.1'' False 64 None None False [calm, calm, calm] guess_connection
       (newAuthFailureTracker 5 2 60) \<lparr>sh_metrics = zero_metrics, sh_store = ()\<rparr> = Some (events, finish, st') \<and>
     concat (map answered_frame events) = take (length events) [bytes_of ''PING'' @ CRLF, bytes_of ''AUTH guess'' @ CRLF, []] \<and> finish \<noteq> Crashed"
proof -
  let ?fl = "\<lparr>fl_round = \<lambda>x. x, fl_format = \<lambda>x. ''x''\<rparr>" and ?sh = "\<lparr>sh_metrics = zero_metrics, sh_store = ()\<rparr>"
  obtain events finish st' where s: "serveConnection ?fl sample_engine ''192.0.2.1'' False 64 None None False [calm, calm, calm] guess_connection
       (newAuthFailureTracker 5 2 60) ?sh = Some (events, finish, st')"
    using serving_without_token [of sample_engine guess_connection 64, unfolded guess_facts(3), OF guess_facts(1,2,4) guess_no_token guess_facts(5-9), of ?fl False None None False ?sh] by blast
  from connection_answers_lines [of guess_connection 64, unfolded guess_facts(3), OF guess_facts(2,4) s] s show ?thesis by (simp add: guess_lines)
qed



end
