(* ===== verification/RegionLayout.thy ===== *)
theory RegionLayout
  imports Format
begin

text \<open>
  The layout of region images (\<^verbatim>\<open>fs_region/layout.go\<close>): one file per large chunk, with a header, a slot directory and a
  fixed slot for every chunk.  All sizes are 64-bit words and the arithmetic is checked as in the source.
  \<open>newImageLayout_eq\<close> shows which geometries are accepted; for these every offset is the exact one, the slots are
  disjoint and lie in the image, and different chunks have different slots or different files.
\<close>

section \<open>The code\<close>

definition FormatName :: string where "FormatName = ''fs_region_v1''"
definition FormatVersion :: uint32 where "FormatVersion = 2"
definition imageMagic :: bytes where "imageMagic = bytes_of ''RGDBRGN1''"
definition imageSuffix :: string where "imageSuffix = ''.rdbregion''"
definition region_headerBytes :: uint64 where "region_headerBytes = 60"
definition region_checksumSize :: uint64 where "region_checksumSize = 4"
definition maxImageBytes :: int64 where "maxImageBytes = push_bit 30 1"

record imageLayout =
  il_slotCount :: uint64
  il_slotBytes :: uint64
  il_bitmapBytes :: uint64
  il_directoryBytes :: uint64
  il_slotsOffset :: int64
  il_imageBytes :: int64

definition region_checkedMul :: "uint64 \<Rightarrow> uint64 \<Rightarrow> uint64 \<times> bool" where
  "region_checkedMul left right =
     (if left \<noteq> 0 \<and> right > MaxUint64 div left then (0, False) else (left * right, True))"

definition region_checkedAdd :: "uint64 \<Rightarrow> uint64 \<Rightarrow> uint64 \<times> bool" where
  "region_checkedAdd left right = (if right > MaxUint64 - left then (0, False) else (left + right, True))"

definition newImageLayout :: "Geometry \<Rightarrow> imageLayout result" where
  "newImageLayout g =
     (let edge = ucast (LargeChunkEdge (config g)); (slotCount, ok) = region_checkedMul edge edge
      in if \<not> ok then Inl [ErrImageTooLarge]
      else let (slotBytes, ok) = region_checkedAdd (of_nat (payloadBytes g)) (of_nat (presenceBytes g))
      in if \<not> ok then Inl [ErrImageTooLarge]
      else let bitmapBytes = ceil8 slotCount; (slotChecksumBytes, ok) = region_checkedMul slotCount region_checksumSize
      in if \<not> ok then Inl [ErrImageTooLarge]
      else let (directoryBytes, ok) = region_checkedAdd (region_checksumSize + bitmapBytes) slotChecksumBytes
      in if \<not> ok \<or> directoryBytes > maxInt then Inl [ErrImageTooLarge]
      else let (slotAreaBytes, ok) = region_checkedMul slotCount slotBytes
      in if \<not> ok then Inl [ErrImageTooLarge]
      else let (slotsOffset, ok) = region_checkedAdd region_headerBytes directoryBytes
      in if \<not> ok then Inl [ErrImageTooLarge]
      else let (imageBytes, ok) = region_checkedAdd slotsOffset slotAreaBytes
      in if \<not> ok \<or> imageBytes > maxImageBytes then Inl [ErrImageTooLarge]
      else Inr \<lparr>il_slotCount = slotCount, il_slotBytes = slotBytes, il_bitmapBytes = bitmapBytes,
                il_directoryBytes = directoryBytes, il_slotsOffset = slotsOffset, il_imageBytes = imageBytes\<rparr>)"

definition slotOffset :: "imageLayout \<Rightarrow> uint64 \<Rightarrow> int64" where
  "slotOffset layout index = il_slotsOffset layout + index * il_slotBytes layout"

definition slotChecksumOffset :: "imageLayout \<Rightarrow> uint64 \<Rightarrow> uint64" where
  "slotChecksumOffset layout index = region_checksumSize + il_bitmapBytes layout + index * region_checksumSize"

definition locate :: "Geometry \<Rightarrow> Coord \<Rightarrow> Coord \<times> uint64" where
  "locate g coord =
     (let mapping = ChunkToLargeChunk g coord; edge = ucast (LargeChunkEdge (config g))
      in (map_LargeChunk mapping,
          ucast (offset_Y (map_ChunkOffset mapping)) * edge + ucast (offset_X (map_ChunkOffset mapping))))"

definition region_signedName :: "int64 \<Rightarrow> string" where
  "region_signedName v =
     (if sint v < 0 then ''n'' @ FormatUint (- (v + 1) + 1) else ''p'' @ FormatInt v)"

definition imageName :: "Coord \<Rightarrow> string" where
  "imageName region = ''r_'' @ region_signedName (coord_X region) @ ''_'' @ region_signedName (coord_Y region) @ imageSuffix"

section \<open>Checked arithmetic is exact\<close>

lemma region_checkedMul_eq:
  "region_checkedMul a b = (if unat a * unat b < 2 ^ 64 then (a * b, True) else (0, False))"
  using checkedMul_eq [of a b] by (simp add: region_checkedMul_def checkedMul_def)

lemma region_checkedAdd_eq:
  "region_checkedAdd a b = (if unat a + unat b < 2 ^ 64 then (a + b, True) else (0, False))"
  using add_fits_iff [of b a] by (auto simp: region_checkedAdd_def not_le [symmetric])

section \<open>Exact sizes\<close>

definition slots_of :: "Geometry \<Rightarrow> nat" where
  "slots_of g = unat (LargeChunkEdge (config g)) * unat (LargeChunkEdge (config g))"

definition slot_size :: "Geometry \<Rightarrow> nat" where
  "slot_size g = payloadBytes g + presenceBytes g"

definition directory_size :: "Geometry \<Rightarrow> nat" where
  "directory_size g = 4 + (slots_of g + 7) div 8 + 4 * slots_of g"

definition image_size :: "Geometry \<Rightarrow> nat" where
  "image_size g = 60 + directory_size g + slots_of g * slot_size g"

text \<open>What the layout of a geometry must be, in exact numbers.\<close>

definition exact_layout :: "Geometry \<Rightarrow> imageLayout \<Rightarrow> bool" where
  "exact_layout g l \<longleftrightarrow>
     unat (il_slotCount l) = slots_of g \<and> unat (il_slotBytes l) = slot_size g \<and>
     unat (il_bitmapBytes l) = (slots_of g + 7) div 8 \<and> unat (il_directoryBytes l) = directory_size g \<and>
     unat (il_slotsOffset l) = 60 + directory_size g \<and> unat (il_imageBytes l) = image_size g \<and>
     image_size g \<le> 2 ^ 30"

lemma unat_region_consts [simp]:
  "unat region_checksumSize = 4" "unat region_headerBytes = 60" "unat maxImageBytes = 2 ^ 30"
  by (simp_all add: region_checksumSize_def region_headerBytes_def maxImageBytes_def)

lemma slots_of_bound: "slots_of g < 2 ^ 64"
  using square_fits by (simp add: slots_of_def)

lemma slots_of_pos: "wf_geometry g \<Longrightarrow> 0 < slots_of g"
  by (simp add: slots_of_def wf_geometry_sizes)

lemma unat_slot_size_sum:
  assumes "wf_geometry g"
  shows "unat (of_nat (payloadBytes g) :: uint64) = payloadBytes g" "unat (of_nat (presenceBytes g) :: uint64) = presenceBytes g"
    "payloadBytes g + presenceBytes g < 2 ^ 64"
  using wf_geometry_bounds [OF assms] by (simp_all add: unat_of_nat take_bit_nat_eq_self)

text \<open>A geometry is accepted exactly when its image has at most 1 GiB.\<close>

lemma newImageLayout_outcome:
  assumes "wf_geometry g"
  shows "case newImageLayout g of
      Inl e \<Rightarrow> e = [ErrImageTooLarge] \<and> 2 ^ 30 < image_size g
    | Inr l \<Rightarrow> exact_layout g l"
proof -
  define edge :: uint64 where "edge = ucast (LargeChunkEdge (config g))"
  define n where "n = slots_of g"
  define pl pr :: uint64 where "pl = of_nat (payloadBytes g)" and "pr = of_nat (presenceBytes g)"
  note z = unat_slot_size_sum [OF assms]
  have e: "unat edge * unat edge = n" "n < 2 ^ 64" using slots_of_bound [of g] by (simp_all add: edge_def n_def slots_of_def)
  then have c: "unat (edge * edge) = n" by (simp add: unat_mul_fits)
  have s: "unat pl + unat pr = slot_size g" "unat (pl + pr) = slot_size g" "slot_size g < 2 ^ 64"
    using z by (simp_all add: pl_def pr_def slot_size_def unat_add_fits)
  have b: "unat (ceil8 (edge * edge)) = (n + 7) div 8" by (simp add: unat_ceil8 c)
  have b4: "unat (region_checksumSize + ceil8 (edge * edge)) = 4 + (n + 7) div 8"
    using e(2) by (subst unat_add_fits) (simp_all add: b)
  have d: "directory_size g = 4 + (n + 7) div 8 + n * 4" "image_size g = 60 + directory_size g + n * slot_size g"
    by (simp_all add: directory_size_def image_size_def n_def)
  have sm: "unat x * unat y < 2 ^ 64 \<Longrightarrow> unat (x * y) = unat x * unat y" "unat x + unat y < 2 ^ 64 \<Longrightarrow> unat (x + y) = unat x + unat y" for x y :: uint64
    by (fact unat_mul_fits unat_add_fits)+
  show ?thesis
    unfolding newImageLayout_def Let_def edge_def [symmetric] pl_def [symmetric] pr_def [symmetric] region_checkedMul_eq region_checkedAdd_eq
    using e(2) s(3)
    by (auto simp: e(1) c s(1,2) b b4 sm exact_layout_def word_less_nat_alt d n_def [symmetric] not_less)
qed

section \<open>Offsets\<close>

lemma sint_small: "unat (w :: int64) \<le> 2 ^ 30 \<Longrightarrow> sint w = int (unat w)"
proof -
  assume u: "unat w \<le> 2 ^ 30"
  have w: "w = word_of_int (int (unat w))" by simp
  have "int (unat w) \<le> int (2 ^ 30)" using u by (simp only: of_nat_le_iff)
  also have "\<dots> < 2 ^ 63" by simp
  finally have a: "int (unat w) < 2 ^ 63" .
  have "- (2 ^ 63) \<le> (0 :: int)" by simp
  then have b: "- (2 ^ 63) \<le> int (unat w)" using of_nat_0_le_iff by (rule order_trans)
  show ?thesis by (subst w) (rule sint_word_of_int64 [OF b a])
qed

definition slot_start :: "Geometry \<Rightarrow> nat \<Rightarrow> nat" where
  "slot_start g i = 60 + directory_size g + i * slot_size g"

lemma slot_in_image:
  assumes "i < slots_of g"
  shows "60 + directory_size g \<le> slot_start g i" "slot_start g i + slot_size g \<le> image_size g"
proof -
  have "Suc i * slot_size g \<le> slots_of g * slot_size g" using assms by (intro mult_right_mono) simp_all
  then show "60 + directory_size g \<le> slot_start g i" "slot_start g i + slot_size g \<le> image_size g"
    by (simp_all add: slot_start_def image_size_def)
qed

lemma slots_disjoint:
  assumes "i < j"
  shows "slot_start g i + slot_size g \<le> slot_start g j"
proof -
  have "Suc i * slot_size g \<le> j * slot_size g" using assms by (intro mult_right_mono) simp_all
  then show ?thesis by (simp add: slot_start_def)
qed

lemma slotOffset_exact:
  assumes "exact_layout g l" "unat i < slots_of g"
  shows "sint (slotOffset l i) = int (slot_start g (unat i))"
proof -
  note x = assms(1) [unfolded exact_layout_def]
  have b: "slot_start g (unat i) \<le> 2 ^ 30" using slot_in_image [OF assms(2)] x by simp
  then have m: "unat i * slot_size g < 2 ^ 64" by (simp add: slot_start_def)
  then have "unat (i * il_slotBytes l) = unat i * slot_size g" using x by (simp add: unat_mul_fits)
  then have "unat (slotOffset l i) = slot_start g (unat i)"
    using x b unfolding slotOffset_def by (subst unat_add_fits) (simp_all add: slot_start_def)
  then show ?thesis using b by (simp add: sint_small)
qed

lemma slotChecksumOffset_exact:
  assumes "exact_layout g l" "unat i < slots_of g"
  shows "unat (slotChecksumOffset l i) = 4 + (slots_of g + 7) div 8 + 4 * unat i"
proof -
  note x = assms(1) [unfolded exact_layout_def]
  have s: "slots_of g \<le> 2 ^ 30" using x by (simp add: image_size_def directory_size_def)
  then have "unat (region_checksumSize + il_bitmapBytes l) = 4 + (slots_of g + 7) div 8"
    using x by (subst unat_add_fits) simp_all
  moreover have "unat (i * region_checksumSize) = 4 * unat i" using s assms(2) by (subst unat_mul_fits) simp_all
  ultimately show ?thesis using s assms(2) unfolding slotChecksumOffset_def by (subst unat_add_fits) simp_all
qed

section \<open>Chunks and slots\<close>

lemma offset_less:
  assumes "0 < unat (LargeChunkEdge (config g))"
  shows "unat (offset_X (map_ChunkOffset (ChunkToLargeChunk g c))) < unat (LargeChunkEdge (config g))"
    "unat (offset_Y (map_ChunkOffset (ChunkToLargeChunk g c))) < unat (LargeChunkEdge (config g))"
proof -
  let ?e = "int (unat (LargeChunkEdge (config g)))"
  have "v mod ?e < ?e" for v using assms by (intro pos_mod_bound; linarith)
  then have "sint (coord_X c) mod ?e < ?e" "sint (coord_Y c) mod ?e < ?e" by blast+
  then show "unat (offset_X (map_ChunkOffset (ChunkToLargeChunk g c))) < unat (LargeChunkEdge (config g))"
    "unat (offset_Y (map_ChunkOffset (ChunkToLargeChunk g c))) < unat (LargeChunkEdge (config g))"
    using ChunkToLargeChunk_coords(3,4) [OF assms, of c] by linarith+
qed

lemma locate_index:
  assumes "wf_geometry g" and l: "locate g c = (region, i)"
  shows "region = map_LargeChunk (ChunkToLargeChunk g c)"
    "unat i = unat (offset_Y (map_ChunkOffset (ChunkToLargeChunk g c))) * unat (LargeChunkEdge (config g))
                + unat (offset_X (map_ChunkOffset (ChunkToLargeChunk g c)))"
    "unat i < slots_of g"
proof -
  define e x y where "e = unat (LargeChunkEdge (config g))" and "x = unat (offset_X (map_ChunkOffset (ChunkToLargeChunk g c)))"
    and "y = unat (offset_Y (map_ChunkOffset (ChunkToLargeChunk g c)))"
  have e: "0 < e" using wf_geometry_sizes(2) [OF assms(1)] by (simp add: e_def)
  have xy: "x < e" "y < e" using offset_less [of g c] e by (simp_all add: e_def x_def y_def)
  have "Suc y * e \<le> e * e" using xy(2) by (intro mult_right_mono) simp_all
  then have b: "y * e + x < e * e" using xy(1) by simp
  have s: "e * e < 2 ^ 64" using slots_of_bound [of g] by (simp add: slots_of_def e_def)
  show "region = map_LargeChunk (ChunkToLargeChunk g c)" using l by (simp add: locate_def Let_def)
  have "i = ucast (offset_Y (map_ChunkOffset (ChunkToLargeChunk g c))) * ucast (LargeChunkEdge (config g))
      + ucast (offset_X (map_ChunkOffset (ChunkToLargeChunk g c)))" using l by (simp add: locate_def Let_def)
  moreover have "unat (ucast (offset_Y (map_ChunkOffset (ChunkToLargeChunk g c))) * ucast (LargeChunkEdge (config g)) :: uint64) = y * e"
    using b s by (subst unat_mul_fits) (simp_all add: y_def e_def)
  ultimately have "unat i = y * e + x" using b s by (simp add: unat_add_fits x_def)
  then show "unat i = unat (offset_Y (map_ChunkOffset (ChunkToLargeChunk g c))) * unat (LargeChunkEdge (config g))
                + unat (offset_X (map_ChunkOffset (ChunkToLargeChunk g c)))" "unat i < slots_of g"
    using b by (simp_all add: x_def y_def e_def slots_of_def)
qed

lemma pair_digit_inject:
  assumes "(y :: nat) * e + x = y' * e + x'" "x < e" "x' < e"
  shows "x = x'" "y = y'"
proof -
  have "(y * e + x) mod e = (y' * e + x') mod e" "(y * e + x) div e = (y' * e + x') div e" using assms(1) by simp_all
  then show "x = x'" "y = y'" using assms(2,3) by simp_all
qed

lemma locate_inject:
  assumes "wf_geometry g" "locate g c = locate g c'"
  shows "c = c'"
proof -
  note e = wf_geometry_sizes(2) [OF assms(1)]
  obtain region i where l: "locate g c = (region, i)" by fastforce
  note a = locate_index [OF assms(1) l] locate_index [OF assms(1) l [unfolded assms(2)]]
  have "ChunkToLargeChunk g c = ChunkToLargeChunk g c'"
    using a(1,4) pair_digit_inject [OF a(2) [symmetric, unfolded a(5)] offset_less(1) offset_less(1), OF e e]
    by (intro ChunkMapping.equality Offset.equality) (simp_all add: word_unat_eq_iff)
  then show ?thesis by (rule ChunkToLargeChunk_inject [OF e])
qed

lemma region_signedName_eq: "region_signedName = signedName"
  by (simp add: fun_eq_iff region_signedName_def signedName_def)

lemma imageName_inject [simp]: "imageName a = imageName b \<longleftrightarrow> a = b"
proof -
  have "parseCoordinateName (imageName c) ''r_'' imageSuffix = Some c" for c
    using parseCoordinateName_name [of "''r_''" "coord_X c" "coord_Y c" imageSuffix]
    by (simp add: imageName_def region_signedName_eq imageSuffix_def)
  then show ?thesis by (metis option.inject)
qed

section \<open>The property of the layout\<close>

text \<open>
  (C40) \<^verbatim>\<open>newImageLayout\<close> accepts a geometry exactly when its image, computed without overflow, takes at most 1 GiB.
  In an accepted layout the slot of every chunk lies behind the slot directory and inside the image, and two different
  chunks have their slots in different files or at disjoint places of one file.
\<close>

theorem region_layout_exact:
  assumes "wf_geometry g"
  shows "case newImageLayout g of
      Inl e \<Rightarrow> e = [ErrImageTooLarge] \<and> 2 ^ 30 < image_size g
    | Inr l \<Rightarrow> image_size g \<le> 2 ^ 30 \<and> sint (il_imageBytes l) = int (image_size g) \<and>
        (\<forall>c d region region' i j. locate g c = (region, i) \<and> locate g d = (region', j) \<longrightarrow>
           int (60 + directory_size g) \<le> sint (slotOffset l i) \<and>
           sint (slotOffset l i) + int (slot_size g) \<le> sint (il_imageBytes l) \<and>
           (c = d \<or> imageName region \<noteq> imageName region' \<or>
            sint (slotOffset l i) + int (slot_size g) \<le> sint (slotOffset l j) \<or>
            sint (slotOffset l j) + int (slot_size g) \<le> sint (slotOffset l i)))"
proof (cases "newImageLayout g")
  case (Inl e)
  then show ?thesis using newImageLayout_outcome [OF assms] by simp
next
  case (Inr l)
  then have x: "exact_layout g l" using newImageLayout_outcome [OF assms] by simp
  then have s: "image_size g \<le> 2 ^ 30" "sint (il_imageBytes l) = int (image_size g)"
    by (simp_all add: exact_layout_def sint_small)
  have "int (60 + directory_size g) \<le> sint (slotOffset l i) \<and>
      sint (slotOffset l i) + int (slot_size g) \<le> sint (il_imageBytes l) \<and>
      (c = d \<or> imageName region \<noteq> imageName region' \<or>
       sint (slotOffset l i) + int (slot_size g) \<le> sint (slotOffset l j) \<or>
       sint (slotOffset l j) + int (slot_size g) \<le> sint (slotOffset l i))"
    if l: "locate g c = (region, i)" "locate g d = (region', j)" for c d region region' i j
  proof -
    note i = locate_index(3) [OF assms l(1)] and j = locate_index(3) [OF assms l(2)]
    note o = slotOffset_exact [OF x i] slotOffset_exact [OF x j]
    have "c = d" if "region = region'" "unat i = unat j"
      using that l locate_inject [OF assms] by (simp add: word_unat_eq_iff)
    moreover have "unat i < unat j \<or> unat j < unat i \<or> unat i = unat j" by linarith
    ultimately show ?thesis using slot_in_image [OF i] slots_disjoint [of "unat i" "unat j" g] slots_disjoint [of "unat j" "unat i" g]
      unfolding o s(2) by (auto simp del: of_nat_unat)
  qed
  then show ?thesis using s by (simp add: Inr) blast
qed

definition small_region :: Geometry where
  "small_region = \<lparr>config = \<lparr>ChunkEdge = 2, LargeChunkEdge = 2, BlockBits = 3\<rparr>, blockCount = 4, payloadBytes = 2, presenceBytes = 1\<rparr>"

lemma wf_small_region: "wf_geometry small_region"
  by (simp add: wf_geometry_def small_region_def) code_simp

theorem region_layout_exact_witness:
  "case newImageLayout small_region of
      Inl e \<Rightarrow> False
    | Inr l \<Rightarrow> image_size small_region = 93 \<and> sint (il_imageBytes l) = 93"
proof -
  have s: "image_size small_region = 93" by code_simp
  obtain l where l: "newImageLayout small_region = Inr l"
    using region_layout_exact [OF wf_small_region] s by (cases "newImageLayout small_region") simp_all
  then show ?thesis using region_layout_exact [OF wf_small_region] s by simp
qed

end
