(* ===== verification/FileEffects.thy ===== *)
theory FileEffects
  imports FileSystem
begin

text \<open>
  What single system calls do to the files, on every outcome: which files may differ (\<open>fx\<close>), and that calls succeed on
  a disk without failures (\<open>flawless\<close>).  The theories of the region store and of the verifier reason with these.
\<close>

text \<open>Reading \<open>n\<close> bytes at an offset, or failing.\<close>

definition os_read_part :: "path \<Rightarrow> nat \<Rightarrow> nat \<Rightarrow> (world, bytes) op" where
  "os_read_part p off n = os_call (OsRead p) untouched
     (\<lambda>w. case content w p of
            None \<Rightarrow> (Inl [], w)
          | Some d \<Rightarrow> if off + n \<le> length d then (Inr (take n (drop off d)), w) else (Inl [], w))"

section \<open>Effects of system calls\<close>

text \<open>No call fails and the process does not stop.\<close>

definition flawless :: "world \<Rightarrow> bool" where
  "flawless w \<longleftrightarrow> \<not> w_halted w \<and> (\<forall>n c. w_oracle w n c = NoFault)"

text \<open>Only files of \<open>A\<close> differ.\<close>

definition fx :: "path set \<Rightarrow> world \<Rightarrow> world \<Rightarrow> bool" where
  "fx A w w' \<longleftrightarrow> w_dirs w' = w_dirs w \<and> (flawless w \<longrightarrow> flawless w') \<and> (\<forall>q. q \<notin> A \<longrightarrow> content w' q = content w q)"

lemma fx_refl [simp]: "fx A w w"
  by (simp add: fx_def)

lemma fx_trans: "fx A w w' \<Longrightarrow> fx B w' w'' \<Longrightarrow> A \<subseteq> C \<Longrightarrow> B \<subseteq> C \<Longrightarrow> fx C w w''"
  unfolding fx_def by (metis subsetD)

lemma fx_content: "fx A w w' \<Longrightarrow> q \<notin> A \<Longrightarrow> content w' q = content w q"
  by (simp add: fx_def)

lemma fx_flawless: "fx A w w' \<Longrightarrow> flawless w \<Longrightarrow> flawless w'"
  by (simp add: fx_def)

lemma fx_is_dir: "fx A w w' \<Longrightarrow> is_dir w' q = is_dir w q"
  by (simp add: fx_def is_dir_def)

lemma content_tick [simp]: "content (w\<lparr>w_clock := n\<rparr>) = content w" "content (w\<lparr>w_halted := b\<rparr>) = content w"
  by (simp_all add: content_def fun_eq_iff)

lemma put_file_fields [simp]:
  "w_dirs (put_file p d w) = w_dirs w" "w_oracle (put_file p d w) = w_oracle w" "w_halted (put_file p d w) = w_halted w"
  by (simp_all add: put_file_def)

lemmas os_effects = os_call_def fx_def flawless_def Let_def is_dir_def

lemma size_effect:
  assumes "os_size p w = (r, w')"
  shows "fx {} w w'"
    and "r = Inr n \<Longrightarrow> \<exists>d. content w p = Some d \<and> n = length d"
    and "r = Inl e \<Longrightarrow> e = []"
    and "flawless w \<Longrightarrow> content w p = Some d \<Longrightarrow> r = Inr (length d)"
  using assms by (auto simp: os_size_def os_effects split: fault.splits if_splits option.splits)

lemma close_effect:
  assumes "os_noop (OsClose p) w = (r, w')"
  shows "fx {} w w'" and "r = Inl e \<Longrightarrow> e = []" and "flawless w \<Longrightarrow> r = Inr ()"
  using assms by (auto simp: os_noop_def os_effects split: fault.splits if_splits)

section \<open>Outcomes of programs\<close>

lemma andThen_result:
  assumes "andThen m f s = (r, s')"
  obtains (failed) e where "m s = (Inl e, s')" "r = Inl e" | (went) x t where "m s = (Inr x, t)" "f x t = (r, s')"
  using assms by (auto simp: andThen_def catch_def raise_def split: prod.splits sum.splits)

lemma catch_result:
  assumes "catch m h f s = (r, s')"
  obtains (caught) e t where "m s = (Inl e, t)" "h e t = (r, s')" | (went) x t where "m s = (Inr x, t)" "f x t = (r, s')"
  using assms by (auto simp: catch_def split: prod.splits sum.splits)

end
