(* ===== verification/RegionStore.thy ===== *)
theory RegionStore
  imports RegionLayout FileEffects
begin

text \<open>
  Region images and their store (\<^verbatim>\<open>fs_region/image.go\<close>, \<^verbatim>\<open>store.go\<close>) over the file system: opening and creating images,
  the slot directory, reading and writing slots, and the bounded set of open images.

  The files of a store are never renamed or removed, so an open file is its path.  An image that is open is shared
  by the table and the recency list of the store; it is identified by its region.  The mutex makes every method one
  step.
\<close>

section \<open>Positioned access to files\<close>

text \<open>\<^verbatim>\<open>os.OpenFile\<close> for reading and writing.\<close>

definition os_open_file :: "path \<Rightarrow> bool \<Rightarrow> (world, unit) op" where
  "os_open_file p create = os_call (OsOpen p) untouched
     (\<lambda>w. if content w p \<noteq> None then (Inr (), w)
          else if is_dir w p then (Inl [], w)
          else if create \<and> is_dir w (butlast p) then (Inr (), put_file p [] w)
          else (Inl [ErrNotExist], w))"

text \<open>The bytes of a file after \<open>d\<close> was written at an offset; a gap reads as zeros.\<close>

definition write_at :: "nat \<Rightarrow> bytes \<Rightarrow> bytes \<Rightarrow> bytes" where
  "write_at off d old = take off (old @ replicate (off - length old) 0) @ d @ drop (off + length d) old"

definition write_file_at :: "path \<Rightarrow> nat \<Rightarrow> bytes \<Rightarrow> world \<Rightarrow> world" where
  "write_file_at p off d w = (case content w p of None \<Rightarrow> w | Some old \<Rightarrow> put_file p (write_at off d old) w)"

definition os_write_at :: "path \<Rightarrow> bytes \<Rightarrow> int64 \<Rightarrow> (world, unit) op" where
  "os_write_at p d off =
     (if sint off < 0 then raise []
      else os_call (OsWrite p) (\<lambda>n w. if n = 0 then w else write_file_at p (nat (sint off)) (take n d) w)
        (\<lambda>w. if content w p = None then (Inl [], w) else (Inr (), write_file_at p (nat (sint off)) d w)))"

text \<open>\<^verbatim>\<open>ReadAt\<close> fills the buffer or fails.\<close>

definition os_read_at :: "path \<Rightarrow> nat \<Rightarrow> int64 \<Rightarrow> (world, bytes) op" where
  "os_read_at p n off = (if sint off < 0 then raise [] else os_read_part p (nat (sint off)) n)"

section \<open>Images\<close>

record regionImage =
  im_file :: path
  im_coord :: Coord
  im_layout :: imageLayout
  im_directory :: bytes

text \<open>Methods of an image work on the image and the files.\<close>

type_synonym 'a image_op = "(regionImage \<times> world, 'a) op"

definition on_file :: "(world, 'a) op \<Rightarrow> 'a image_op" where
  "on_file m s = (case m (snd s) of (r, w) \<Rightarrow> (r, (fst s, w)))"

text \<open>\<^verbatim>\<open>if err != nil { return fmt.Errorf("%w: ...", ErrCorrupt, ...) }\<close>\<close>

definition or_corrupt :: "('s, 'a) op \<Rightarrow> ('s, 'a) op" where
  "or_corrupt m = catch m (\<lambda>_. raise [ErrCorrupt]) ret"

definition image_close :: "unit image_op" where
  "image_close s = on_file (os_noop (OsClose (im_file (fst s)))) s"

definition put_uint32 :: "nat \<Rightarrow> uint32 \<Rightarrow> bytes \<Rightarrow> bytes" where
  "put_uint32 off v d = take off d @ le_bytes 4 v @ drop (off + 4) d"

definition encodeHeader :: "regionImage \<Rightarrow> Geometry \<Rightarrow> bytes" where
  "encodeHeader img g =
     (let cfg = config g;
          header = imageMagic;
          header = codec_AppendUint32 header FormatVersion;
          header = codec_AppendUint32 header (ChunkEdge cfg);
          header = codec_AppendUint32 header (LargeChunkEdge cfg);
          header = header @ [BlockBits cfg, 0, 0, 0];
          header = codec_AppendUint64 header (coord_X (im_coord img));
          header = codec_AppendUint64 header (coord_Y (im_coord img));
          header = codec_AppendUint64 header (il_slotCount (im_layout img));
          header = codec_AppendUint64 header (il_slotBytes (im_layout img))
      in codec_AppendUint32 header (ChecksumIEEE header))"

definition validateHeader :: "regionImage \<Rightarrow> Geometry \<Rightarrow> bytes \<Rightarrow> unit result" where
  "validateHeader img g header =
     (if take (length imageMagic) header \<noteq> imageMagic then Inl [ErrCorrupt]
      else on_err [ErrCorrupt] (codec_Uint32 (go_slice 56 60 header)) (\<lambda>storedChecksum.
      if ChecksumIEEE (take 56 header) \<noteq> storedChecksum then Inl [ErrCorrupt]
      else on_err [ErrCorrupt] (codec_Uint32 (go_slice 8 12 header)) (\<lambda>version.
      if version \<noteq> FormatVersion then Inl [ErrUnsupportedVersion]
      else on_err [ErrCorrupt] (codec_Uint32 (go_slice 12 16 header)) (\<lambda>chunkEdge.
      on_err [ErrCorrupt] (codec_Uint32 (go_slice 16 20 header)) (\<lambda>largeChunkEdge.
      let cfg = config g
      in if chunkEdge \<noteq> ChunkEdge cfg \<or> largeChunkEdge \<noteq> LargeChunkEdge cfg \<or> header ! 20 \<noteq> BlockBits cfg
         then Inl [ErrCorrupt, ErrGeometryMismatch]
      else if go_slice 21 24 header \<noteq> [0, 0, 0] then Inl [ErrCorrupt]
      else on_err [ErrCorrupt] (codec_Uint64 (go_slice 24 32 header)) (\<lambda>storedX.
      on_err [ErrCorrupt] (codec_Uint64 (go_slice 32 40 header)) (\<lambda>storedY.
      if storedX \<noteq> coord_X (im_coord img) \<or> storedY \<noteq> coord_Y (im_coord img) then Inl [ErrCorrupt]
      else on_err [ErrCorrupt] (codec_Uint64 (go_slice 40 48 header)) (\<lambda>slotCount.
      on_err [ErrCorrupt] (codec_Uint64 (go_slice 48 56 header)) (\<lambda>slotBytes.
      if slotCount \<noteq> il_slotCount (im_layout img) \<or> slotBytes \<noteq> il_slotBytes (im_layout img) then Inl [ErrCorrupt]
      else Inr ())))))))))"

definition flushDirectory :: "unit image_op" where
  "flushDirectory =
     andThen (update (\<lambda>(img, w). (img\<lparr>im_directory := put_uint32 0 (ChecksumIEEE (drop 4 (im_directory img))) (im_directory img)\<rparr>, w)))
       (\<lambda>_ s. on_file (os_write_at (im_file (fst s)) (im_directory (fst s)) region_headerBytes) s)"

definition initialize :: "Geometry \<Rightarrow> unit image_op" where
  "initialize g =
     andThen (\<lambda>s. on_file (os_write_at (im_file (fst s)) (encodeHeader (fst s) g) 0) s) (\<lambda>_.
     andThen flushDirectory (\<lambda>_ s.
     on_file (os_truncate (im_file (fst s)) (nat (sint (il_imageBytes (im_layout (fst s)))))) s))"

text \<open>The last part of \<^verbatim>\<open>load\<close>: the checksum of the directory.\<close>

definition check_directory :: "bytes \<Rightarrow> unit result" where
  "check_directory directory = on_err [ErrCorrupt] (codec_Uint32 (take 4 directory)) (\<lambda>storedChecksum.
     if ChecksumIEEE (drop 4 directory) \<noteq> storedChecksum then Inl [ErrCorrupt] else Inr ())"

definition load :: "Geometry \<Rightarrow> unit image_op" where
  "load g =
     andThen (or_corrupt (\<lambda>s. on_file (os_read_at (im_file (fst s)) (unat region_headerBytes) 0) s)) (\<lambda>header.
     andThen (\<lambda>s. (validateHeader (fst s) g header, s)) (\<lambda>_.
     andThen (or_corrupt (\<lambda>s. on_file (os_read_at (im_file (fst s)) (length (im_directory (fst s))) region_headerBytes) s)) (\<lambda>directory.
     andThen (update (\<lambda>(img, w). (img\<lparr>im_directory := directory\<rparr>, w))) (\<lambda>_ s.
     (check_directory directory, s)))))"

text \<open>\<^verbatim>\<open>make([]byte, n)\<close> of a new image.\<close>

definition new_image :: "path \<Rightarrow> Coord \<Rightarrow> imageLayout \<Rightarrow> regionImage" where
  "new_image p region layout =
     \<lparr>im_file = p, im_coord = region, im_layout = layout, im_directory = replicate (unat (il_directoryBytes layout)) 0\<rparr>"

text \<open>The \<^verbatim>\<open>switch\<close> on the size of the file, then the deferred close.\<close>

definition open_body :: "path \<Rightarrow> Coord \<Rightarrow> Geometry \<Rightarrow> imageLayout \<Rightarrow> bool \<Rightarrow> (world, regionImage) op" where
  "open_body p region g layout create =
     andThen (os_size p) (\<lambda>n w.
       let filled = (\<lambda>m. case m (new_image p region layout, w) of
             (Inl e, (img, w)) \<Rightarrow> (Inl e, w) | (Inr _, (img, w)) \<Rightarrow> (Inr img, w))
       in if n = 0 \<and> create then filled (initialize g)
          else if n = 0 then (Inl [ErrImageUnpublished], w)
          else if int n = sint (il_imageBytes layout) then filled (load g)
          else (Inl [ErrCorrupt], w))"

definition openRegionImage :: "path \<Rightarrow> Coord \<Rightarrow> Geometry \<Rightarrow> imageLayout \<Rightarrow> bool \<Rightarrow> (world, regionImage) op" where
  "openRegionImage p region g layout create =
     andThen (os_open_file p create) (\<lambda>_.
     catch (open_body p region g layout create)
       (\<lambda>returnErr. catch (os_noop (OsClose p)) (\<lambda>err. raise (returnErr @ err)) (\<lambda>_. raise returnErr))
       ret)"

text \<open>An index is below the slot count, so every access below is in range of the directory.\<close>

definition present :: "regionImage \<Rightarrow> uint64 \<Rightarrow> bool" where
  "present img index \<longleftrightarrow>
     im_directory img ! unat (region_checksumSize + index div 8) AND push_bit (unat (index mod 8)) 1 \<noteq> 0"

definition markPresent :: "uint64 \<Rightarrow> uint32 \<Rightarrow> regionImage \<Rightarrow> regionImage" where
  "markPresent index checksum img =
     (let at = unat (region_checksumSize + index div 8);
          img = img\<lparr>im_directory := (im_directory img)[at := im_directory img ! at OR push_bit (unat (index mod 8)) 1]\<rparr>
      in img\<lparr>im_directory := put_uint32 (unat (slotChecksumOffset (im_layout img) index)) checksum (im_directory img)\<rparr>)"

definition slotChecksum :: "regionImage \<Rightarrow> uint64 \<Rightarrow> uint32 result" where
  "slotChecksum img index =
     (let offset = unat (slotChecksumOffset (im_layout img) index)
      in on_err [ErrCorrupt] (codec_Uint32 (go_slice offset (offset + 4) (im_directory img))) Inr)"

definition readSlot :: "uint64 \<Rightarrow> bytes image_op" where
  "readSlot index s =
     (if \<not> present (fst s) index then (Inl [ErrSlotAbsent], s)
      else case slotChecksum (fst s) index of
        Inl e \<Rightarrow> (Inl e, s)
      | Inr expected \<Rightarrow>
          andThen (or_corrupt (on_file (os_read_at (im_file (fst s)) (unat (il_slotBytes (im_layout (fst s)))) (slotOffset (im_layout (fst s)) index))))
            (\<lambda>payload. if ChecksumIEEE payload \<noteq> expected then raise [ErrCorrupt] else ret payload) s)"

definition writeSlot :: "uint64 \<Rightarrow> bytes \<Rightarrow> unit image_op" where
  "writeSlot index payload s =
     (if il_slotCount (im_layout (fst s)) \<le> index then (Inl [], s)
      else if of_nat (length payload) \<noteq> il_slotBytes (im_layout (fst s)) then (Inl [], s)
      else andThen (on_file (os_write_at (im_file (fst s)) payload (slotOffset (im_layout (fst s)) index)))
        (\<lambda>_. andThen (update (\<lambda>(img, w). (markPresent index (ChecksumIEEE payload) img, w))) (\<lambda>_. flushDirectory)) s)"

section \<open>The store\<close>

definition DefaultMaxOpenRegions :: int where "DefaultMaxOpenRegions = 64"

text \<open>The only option is the bound on open images.\<close>

definition region_validated :: "int \<Rightarrow> int result" where
  "region_validated maxOpenRegions =
     (let maxOpenRegions = (if maxOpenRegions = 0 then DefaultMaxOpenRegions else maxOpenRegions)
      in if maxOpenRegions < 0 then Inl [] else Inr maxOpenRegions)"

record regionStore =
  rg_geometry :: Geometry
  rg_layout :: imageLayout
  rg_maxOpen :: int
  rg_images :: "(Coord \<times> regionImage) list"
  rg_recent :: "Coord list"
  rg_closed :: bool
  rg_world :: world

type_synonym 'a region_op = "(regionStore, 'a) op"

text \<open>\<^verbatim>\<open>filepath.Abs\<close> asks for the working directory.\<close>

definition OpenRegions :: "string \<Rightarrow> Geometry \<Rightarrow> int \<Rightarrow> (world, regionStore) op" where
  "OpenRegions root g options =
     (if root = [] then raise []
      else case geometry_New (config g) of
        Inl _ \<Rightarrow> raise [ErrInvalid]
      | Inr validated \<Rightarrow> if validated \<noteq> g then raise [ErrInvalid]
      else case region_validated options of
        Inl e \<Rightarrow> raise e
      | Inr options \<Rightarrow> (case newImageLayout g of
        Inl e \<Rightarrow> raise e
      | Inr layout \<Rightarrow>
          andThen (os_noop (OsStat [])) (\<lambda>_.
          andThen (os_mkdir_all []) (\<lambda>_ w.
          (Inr \<lparr>rg_geometry = g, rg_layout = layout, rg_maxOpen = options, rg_images = [], rg_recent = [], rg_closed = False, rg_world = w\<rparr>, w)))))"

definition on_disk :: "(world, 'a) op \<Rightarrow> 'a region_op" where
  "on_disk m s = (case m (rg_world s) of (r, w) \<Rightarrow> (r, s\<lparr>rg_world := w\<rparr>))"

text \<open>A method of the open image of a region; the image is changed in place.\<close>

definition on_image :: "Coord \<Rightarrow> 'a image_op \<Rightarrow> 'a region_op" where
  "on_image region m s =
     (case map_of (rg_images s) region of
        None \<Rightarrow> (Inl [], s)
      | Some img \<Rightarrow> (case m (img, rg_world s) of
          (r, (img, w)) \<Rightarrow> (r, s\<lparr>rg_images := AList.update region img (rg_images s), rg_world := w\<rparr>)))"

definition forget_image :: "Coord \<Rightarrow> regionStore \<Rightarrow> regionStore" where
  "forget_image region s = s\<lparr>rg_recent := remove1 region (rg_recent s), rg_images := AList.delete region (rg_images s)\<rparr>"

definition discardImage :: "Coord \<Rightarrow> unit region_op" where
  "discardImage region s =
     (case map_of (rg_images s) region of
        None \<Rightarrow> (Inr (), s)
      | Some img \<Rightarrow> on_disk (\<lambda>w. case image_close (img, w) of (r, (_, w)) \<Rightarrow> (r, w)) (forget_image region s))"

definition evictImage :: "unit region_op" where
  "evictImage s = (if rg_recent s = [] then (Inr (), s) else discardImage (last (rg_recent s)) s)"

definition acquireImage :: "Coord \<Rightarrow> bool \<Rightarrow> unit region_op" where
  "acquireImage region create s =
     (if map_of (rg_images s) region \<noteq> None then (Inr (), s\<lparr>rg_recent := region # remove1 region (rg_recent s)\<rparr>)
      else andThen (\<lambda>s. if rg_maxOpen s \<le> int (length (rg_recent s)) then evictImage s else (Inr (), s))
        (\<lambda>_. andThen (\<lambda>s. on_disk (openRegionImage [imageName region] region (rg_geometry s) (rg_layout s) create) s)
          (\<lambda>img. update (\<lambda>s. s\<lparr>rg_recent := region # rg_recent s, rg_images := AList.update region img (rg_images s)\<rparr>))) s)"

text \<open>The joined error of the closes so far; the table is cleared behind the loop.\<close>

primrec close_images :: "Coord list \<Rightarrow> error option \<Rightarrow> regionStore \<Rightarrow> error option \<times> regionStore" where
  "close_images [] result s = (result, s)"
| "close_images (region # rest) result s =
     (case on_image region image_close s of
        (Inr _, s) \<Rightarrow> close_images rest result s
      | (Inl e, s) \<Rightarrow> close_images rest (Some (case result of None \<Rightarrow> e | Some r \<Rightarrow> r @ e)) s)"

definition region_Close :: "unit region_op" where
  "region_Close s =
     (if rg_closed s then (Inr (), s)
      else case close_images (rg_recent s) None (s\<lparr>rg_closed := True\<rparr>) of
        (result, s) \<Rightarrow> (case result of None \<Rightarrow> Inr () | Some e \<Rightarrow> Inl e, s\<lparr>rg_recent := [], rg_images := []\<rparr>))"

definition region_WriteChunk :: "Coord \<Rightarrow> Chunk option \<Rightarrow> unit region_op" where
  "region_WriteChunk coord chunk s =
     (case chunk of
        None \<Rightarrow> (Inl [], s)
      | Some chunk \<Rightarrow>
          if chunk_geometry chunk \<noteq> rg_geometry s then (Inl [ErrGeometryMismatch], s)
          else if rg_closed s then (Inl [], s)
          else case locate (rg_geometry s) coord of
            (region, index) \<Rightarrow>
              andThen (acquireImage region True) (\<lambda>_.
              catch (on_image region (writeSlot index (chunk_payload chunk @ chunk_presence chunk)))
                (\<lambda>err. catch (discardImage region) (\<lambda>err'. raise (err @ err')) (\<lambda>_. raise err))
                ret) s)"

definition absentChunkError :: error where
  "absentChunkError = [ErrNotExist]"

definition region_ReadChunk :: "Coord \<Rightarrow> Chunk region_op" where
  "region_ReadChunk coord s =
     (if rg_closed s then (Inl [], s)
      else case locate (rg_geometry s) coord of
        (region, index) \<Rightarrow>
          catch (acquireImage region False)
            (\<lambda>err. if errors_is err ErrNotExist \<or> errors_is err ErrImageUnpublished then raise absentChunkError else raise err)
            (\<lambda>_. catch (on_image region (readSlot index))
              (\<lambda>err. if errors_is err ErrSlotAbsent then raise absentChunkError else raise err)
              (\<lambda>state s. (on_err [ErrCorrupt]
                 (ChunkFromState (rg_geometry s) (take (payloadBytes (rg_geometry s)) state) (drop (payloadBytes (rg_geometry s)) state)) Inr, s))) s)"

section \<open>Bytes of a file\<close>

lemma length_write_at: "length (write_at off d old) = max (off + length d) (length old)"
  by (simp add: write_at_def)

lemma write_at_hit: "take (length d) (drop off (write_at off d old)) = d"
  by (simp add: write_at_def)

lemma write_at_nth:
  "i < off \<or> off + length d \<le> i \<Longrightarrow> i < length old \<Longrightarrow> write_at off d old ! i = old ! i"
  by (auto simp: write_at_def nth_append)

text \<open>Writing leaves the bytes of every disjoint range alone.\<close>

lemma write_at_miss:
  assumes "a + n \<le> off \<or> off + length d \<le> a" "a + n \<le> length old"
  shows "take n (drop a (write_at off d old)) = take n (drop a old)"
  using assms by (intro nth_equalityI) (auto simp: length_write_at intro!: write_at_nth)

lemma length_put_uint32 [simp]: "off + 4 \<le> length d \<Longrightarrow> length (put_uint32 off v d) = length d"
  by (simp add: put_uint32_def)

lemma put_uint32_eq: "off + 4 \<le> length d \<Longrightarrow> put_uint32 off v d = write_at off (le_bytes 4 v) d"
  by (simp add: put_uint32_def write_at_def)


section \<open>Effects of system calls\<close>

lemma open_file_effect:
  assumes "os_open_file p create w = (r, w')"
  shows "fx {p} w w'"
    and "r = Inr () \<Longrightarrow> content w' p = (if content w p = None then Some [] else content w p) \<and> (content w p = None \<longrightarrow> create)"
    and "r = Inl e \<Longrightarrow> content w' p = content w p \<and> (e = [] \<or> e = [ErrNotExist] \<and> content w p = None)"
    and "flawless w \<Longrightarrow> \<not> is_dir w p \<Longrightarrow> content w p \<noteq> None \<or> create \<and> is_dir w (butlast p) \<Longrightarrow> r = Inr ()"
  using assms by (auto simp: os_open_file_def os_effects split: fault.splits if_splits)

lemma read_at_effect:
  assumes "os_read_at p n off w = (r, w')"
  shows "fx {} w w'"
    and "r = Inr b \<Longrightarrow> \<exists>d. content w p = Some d \<and> nat (sint off) + n \<le> length d \<and> b = take n (drop (nat (sint off)) d)"
    and "r = Inl e \<Longrightarrow> e = []"
    and "flawless w \<Longrightarrow> content w p = Some d \<Longrightarrow> 0 \<le> sint off \<Longrightarrow> nat (sint off) + n \<le> length d \<Longrightarrow> \<exists>b. r = Inr b"
  using assms by (auto simp: os_read_at_def os_read_part_def raise_def os_effects split: fault.splits if_splits option.splits)

lemma write_at_effect:
  assumes "os_write_at p d off w = (r, w')"
  shows "fx {p} w w'"
    and "r = Inr () \<Longrightarrow> \<exists>old. content w p = Some old \<and> content w' p = Some (write_at (nat (sint off)) d old)"
    and "r = Inl e \<Longrightarrow> e = []"
    and "flawless w \<Longrightarrow> content w p \<noteq> None \<Longrightarrow> 0 \<le> sint off \<Longrightarrow> r = Inr ()"
  using assms by (auto simp: os_write_at_def raise_def write_file_at_def os_effects split: fault.splits if_splits option.splits)

lemma truncate_effect:
  assumes "os_truncate p n w = (r, w')"
  shows "fx {p} w w'"
    and "r = Inr () \<Longrightarrow> \<exists>d. content w p = Some d \<and> content w' p = Some (take n d @ replicate (n - length d) 0)"
    and "r = Inl e \<Longrightarrow> content w p \<noteq> None \<Longrightarrow> e = []"
    and "flawless w \<Longrightarrow> content w p \<noteq> None \<Longrightarrow> r = Inr ()"
  using assms by (auto simp: os_truncate_def os_effects split: fault.splits if_splits option.splits)

section \<open>Headers\<close>

definition region_header :: "Geometry \<Rightarrow> Coord \<Rightarrow> imageLayout \<Rightarrow> bytes" where
  "region_header g region l =
     imageMagic @ le_bytes 4 FormatVersion @ le_bytes 4 (ChunkEdge (config g)) @ le_bytes 4 (LargeChunkEdge (config g)) @
     [BlockBits (config g), 0, 0, 0] @ le_bytes 8 (coord_X region) @ le_bytes 8 (coord_Y region) @
     le_bytes 8 (il_slotCount l) @ le_bytes 8 (il_slotBytes l)"

lemma length_imageMagic [simp, go_len]: "length imageMagic = 8"
  by (simp add: imageMagic_def)

lemma length_region_header [simp, go_len]: "length (region_header g region l) = 56"
  by (simp add: region_header_def)

lemma encodeHeader_eq: "encodeHeader img g = seal (region_header g (im_coord img) (im_layout img))"
  by (simp add: encodeHeader_def region_header_def seal_def codec_AppendUint32_def codec_AppendUint64_def Let_def)

lemma region_header_slices:
  shows "take 8 (region_header g region l @ rest) = imageMagic"
    and "go_slice 8 12 (region_header g region l @ rest) = le_bytes 4 FormatVersion"
    and "go_slice 12 16 (region_header g region l @ rest) = le_bytes 4 (ChunkEdge (config g))"
    and "go_slice 16 20 (region_header g region l @ rest) = le_bytes 4 (LargeChunkEdge (config g))"
    and "(region_header g region l @ rest) ! 20 = BlockBits (config g)"
    and "go_slice 21 24 (region_header g region l @ rest) = [0, 0, 0]"
    and "go_slice 24 32 (region_header g region l @ rest) = le_bytes 8 (coord_X region)"
    and "go_slice 32 40 (region_header g region l @ rest) = le_bytes 8 (coord_Y region)"
    and "go_slice 40 48 (region_header g region l @ rest) = le_bytes 8 (il_slotCount l)"
    and "go_slice 48 56 (region_header g region l @ rest) = le_bytes 8 (il_slotBytes l)"
    and "take 56 (region_header g region l @ rest) = region_header g region l"
    and "go_slice 56 60 (region_header g region l @ le_bytes 4 v) = le_bytes 4 v"
proof -
  show "take 56 (region_header g region l @ rest) = region_header g region l" by simp
  show "go_slice 56 60 (region_header g region l @ le_bytes 4 v) = le_bytes 4 v" by (simp add: slice_skip slice_hit)
qed (simp_all add: region_header_def slice_skip slice_hit nth_append, simp_all add: go_slice_def numeral_3_eq_3)

lemma validateHeader_encodeHeader [go_codec]: "validateHeader img g (encodeHeader img g) = Inr ()"
  unfolding validateHeader_def encodeHeader_eq seal_def length_imageMagic region_header_slices
  by (simp add: Let_def)

text \<open>The header that is accepted is the one that is written.\<close>

lemma validateHeader_exact:
  assumes "validateHeader img g header = Inr ()" "length header = 60"
  shows "header = encodeHeader img g"
proof -
  have ls: "length (go_slice 8 12 header) = 4" "length (go_slice 12 16 header) = 4" "length (go_slice 16 20 header) = 4"
    "length (go_slice 24 32 header) = 8" "length (go_slice 32 40 header) = 8" "length (go_slice 40 48 header) = 8"
    "length (go_slice 48 56 header) = 8" "length (go_slice 56 60 header) = 4"
    using assms(2) by (simp_all add: length_slice)
  have "take 8 header = imageMagic" and crc: "codec_Uint32 (go_slice 56 60 header) = Inr (ChecksumIEEE (take 56 header))"
    and f: "codec_Uint32 (go_slice 8 12 header) = Inr FormatVersion" "codec_Uint32 (go_slice 12 16 header) = Inr (ChunkEdge (config g))"
      "codec_Uint32 (go_slice 16 20 header) = Inr (LargeChunkEdge (config g))" "header ! 20 = BlockBits (config g)"
      "go_slice 21 24 header = [0, 0, 0]" "codec_Uint64 (go_slice 24 32 header) = Inr (coord_X (im_coord img))"
      "codec_Uint64 (go_slice 32 40 header) = Inr (coord_Y (im_coord img))" "codec_Uint64 (go_slice 40 48 header) = Inr (il_slotCount (im_layout img))"
      "codec_Uint64 (go_slice 48 56 header) = Inr (il_slotBytes (im_layout img))"
    using assms(1) unfolding validateHeader_def length_imageMagic by (auto simp: on_err_Inr_iff Let_def split: if_splits)
  moreover have "go_slice 20 21 header = [header ! 20]" using assms(2) by (simp add: go_slice_def take_Suc_conv_app_nth)
  moreover have "take 56 header = go_slice 0 8 header @ go_slice 8 12 header @ go_slice 12 16 header @ go_slice 16 20 header @ go_slice 20 21 header @
      go_slice 21 24 header @ go_slice 24 32 header @ go_slice 32 40 header @ go_slice 40 48 header @ go_slice 48 56 header"
    by (simp add: slice_glue) (simp add: go_slice_def)
  ultimately have h: "take 56 header = region_header g (im_coord img) (im_layout img)"
    unfolding codec_Uint_exact(1) [OF ls(1)] codec_Uint_exact(1) [OF ls(2)] codec_Uint_exact(1) [OF ls(3)] codec_Uint_exact(2) [OF ls(4)]
      codec_Uint_exact(2) [OF ls(5)] codec_Uint_exact(2) [OF ls(6)] codec_Uint_exact(2) [OF ls(7)] codec_Uint_exact(1) [OF ls(8)]
    by (simp add: region_header_def go_slice_def)
  have "header = take 56 header @ go_slice 56 60 header" using assms(2) by (simp add: go_slice_def)
  then show ?thesis using crc h unfolding codec_Uint_exact(1) [OF ls(8)] encodeHeader_eq seal_def by metis
qed


section \<open>The slot directory\<close>

definition bitmap_size :: "Geometry \<Rightarrow> nat" where
  "bitmap_size g = (slots_of g + 7) div 8"

definition dir_bit :: "bytes \<Rightarrow> nat \<Rightarrow> bool" where
  "dir_bit dir i = bit (dir ! (4 + i div 8)) (i mod 8)"

definition dir_crc :: "Geometry \<Rightarrow> bytes \<Rightarrow> nat \<Rightarrow> bytes" where
  "dir_crc g dir i = take 4 (drop (4 + bitmap_size g + 4 * i) dir)"

definition dir_sealed :: "bytes \<Rightarrow> bool" where
  "dir_sealed dir \<longleftrightarrow> take 4 dir = le_bytes 4 (ChecksumIEEE (drop 4 dir))"

lemma directory_size_eq: "directory_size g = 4 + bitmap_size g + 4 * slots_of g"
  by (simp add: directory_size_def bitmap_size_def)

lemma bitmap_index: "i < slots_of g \<Longrightarrow> i div 8 < bitmap_size g"
  by (simp add: bitmap_size_def; linarith)

lemma unat_bitmap_at:
  assumes "unat i < slots_of g" "exact_layout g l"
  shows "unat (region_checksumSize + i div 8) = 4 + unat i div 8"
proof -
  have "unat i < 2 ^ 30" using assms by (simp add: exact_layout_def image_size_def directory_size_def)
  then show ?thesis by (subst unat_add_fits) (simp_all add: unat_div)
qed

lemma present_dir_bit:
  assumes "exact_layout g l" "unat i < slots_of g"
  shows "present img i = dir_bit (im_directory img) (unat i)"
  by (simp add: present_def dir_bit_def unat_bitmap_at [OF assms(2,1)] and_exp_eq_0_iff_not_bit unat_mod)

lemma slotChecksum_dir_crc:
  assumes "exact_layout g (im_layout img)" "unat i < slots_of g" "length (im_directory img) = directory_size g"
  shows "slotChecksum img i = Inr v \<longleftrightarrow> dir_crc g (im_directory img) (unat i) = le_bytes 4 v" "\<exists>v. slotChecksum img i = Inr v"
proof -
  have d: "go_slice (4 + bitmap_size g + 4 * unat i) (4 + bitmap_size g + 4 * unat i + 4) (im_directory img) = dir_crc g (im_directory img) (unat i)"
    by (simp add: go_slice_def dir_crc_def)
  have "length (dir_crc g (im_directory img) (unat i)) = 4" using assms(2,3) by (simp add: dir_crc_def directory_size_eq)
  then show "slotChecksum img i = Inr v \<longleftrightarrow> dir_crc g (im_directory img) (unat i) = le_bytes 4 v" "\<exists>v. slotChecksum img i = Inr v"
    unfolding slotChecksum_def slotChecksumOffset_exact [OF assms(1,2)] bitmap_size_def [symmetric] Let_def d
    using codec_Uint_exact(1) [of "dir_crc g (im_directory img) (unat i)" v] by (cases "codec_Uint32 (dir_crc g (im_directory img) (unat i))", simp_all)
      (simp_all add: codec_Uint32_def split: if_splits)
qed

text \<open>Marking a slot and sealing the directory.\<close>

definition sealed_dir :: "bytes \<Rightarrow> bytes" where
  "sealed_dir dir = put_uint32 0 (ChecksumIEEE (drop 4 dir)) dir"

lemma sealed_dir:
  assumes "length dir = directory_size g"
  shows "length (sealed_dir dir) = directory_size g" "dir_sealed (sealed_dir dir)"
    "dir_bit (sealed_dir dir) i = dir_bit dir i" "dir_crc g (sealed_dir dir) i = dir_crc g dir i"
proof -
  have l: "4 \<le> length dir" using assms by (simp add: directory_size_eq)
  then have s: "sealed_dir dir = le_bytes 4 (ChecksumIEEE (drop 4 dir)) @ drop 4 dir" by (simp add: sealed_dir_def put_uint32_def)
  show "length (sealed_dir dir) = directory_size g" using assms l by (simp add: s)
  show "dir_sealed (sealed_dir dir)" by (simp add: s dir_sealed_def)
  show "dir_bit (sealed_dir dir) i = dir_bit dir i" using l by (simp add: s dir_bit_def nth_append)
  show "dir_crc g (sealed_dir dir) i = dir_crc g dir i" using l by (simp add: s dir_crc_def add.commute add.left_commute)
qed

lemma markPresent_directory:
  assumes "exact_layout g (im_layout img)" "unat i < slots_of g" "length (im_directory img) = directory_size g"
    and dir': "dir' = im_directory (markPresent i v img)"
  shows "length dir' = directory_size g"
    and "j < slots_of g \<Longrightarrow> dir_bit dir' j = (j = unat i \<or> dir_bit (im_directory img) j)"
    and "j < slots_of g \<Longrightarrow> dir_crc g dir' j = (if j = unat i then le_bytes 4 v else dir_crc g (im_directory img) j)"
proof -
  define dir where "dir = im_directory img"
  define at off where "at = 4 + unat i div 8" and "off = 4 + bitmap_size g + 4 * unat i"
  define mid where "mid = dir[at := dir ! at OR push_bit (unat i mod 8) 1]"
  have a: "at < 4 + bitmap_size g" using bitmap_index [OF assms(2)] by (simp add: at_def)
  have o: "off + 4 \<le> length mid" "length mid = directory_size g"
    using assms(2,3) by (simp_all add: off_def mid_def dir_def directory_size_eq)
  have d: "dir' = write_at off (le_bytes 4 v) mid"
    using o slotChecksumOffset_exact [OF assms(1,2)] unat_bitmap_at [OF assms(2,1)]
    unfolding dir' markPresent_def Let_def put_uint32_eq [symmetric, OF o(1)]
    by (simp add: mid_def at_def dir_def off_def bitmap_size_def unat_mod)
  show "length dir' = directory_size g" using o by (simp add: d length_write_at)
  show "dir_bit dir' j = (j = unat i \<or> dir_bit (im_directory img) j)" if j: "j < slots_of g"
  proof -
    have b: "4 + j div 8 < off" using bitmap_index [OF j] by (simp add: off_def)
    then have "dir' ! (4 + j div 8) = mid ! (4 + j div 8)" using o unfolding d by (intro write_at_nth) simp_all
    moreover have "j = unat i \<longleftrightarrow> 4 + j div 8 = at \<and> j mod 8 = unat i mod 8" unfolding at_def by (metis add_left_cancel div_mult_mod_eq)
    moreover have "at < length dir" using a o(2) by (simp add: mid_def directory_size_eq)
    ultimately show ?thesis
      by (auto simp: dir_bit_def mid_def nth_list_update bit_or_iff dir_def bit_exp_iff)
  qed
  show "dir_crc g dir' j = (if j = unat i then le_bytes 4 v else dir_crc g (im_directory img) j)" if j: "j < slots_of g"
  proof (cases "j = unat i")
    case True
    then show ?thesis using write_at_hit [of "le_bytes 4 v" off mid] by (simp add: d dir_crc_def off_def)
  next
    case False
    then have "take 4 (drop (4 + bitmap_size g + 4 * j) dir') = take 4 (drop (4 + bitmap_size g + 4 * j) mid)"
      using j o(2) unfolding d by (intro write_at_miss) (auto simp: off_def directory_size_eq)
    then show ?thesis using False a by (simp add: dir_crc_def mid_def dir_def)
  qed
qed


section \<open>Whole images\<close>

definition image_ok :: "Geometry \<Rightarrow> Coord \<Rightarrow> imageLayout \<Rightarrow> bytes \<Rightarrow> bytes \<Rightarrow> bool" where
  "image_ok g region l d dir \<longleftrightarrow>
     length d = image_size g \<and> take 60 d = seal (region_header g region l) \<and>
     take (directory_size g) (drop 60 d) = dir \<and> dir_sealed dir"

definition slot_at :: "Geometry \<Rightarrow> bytes \<Rightarrow> nat \<Rightarrow> bytes" where
  "slot_at g d i = take (slot_size g) (drop (slot_start g i) d)"

text \<open>Slot \<open>i\<close> of the image \<open>d\<close> with the directory \<open>dir\<close> is absent or holds these bytes.\<close>

definition slot_holds :: "Geometry \<Rightarrow> bytes \<Rightarrow> bytes \<Rightarrow> nat \<Rightarrow> bytes option \<Rightarrow> bool" where
  "slot_holds g d dir i p \<longleftrightarrow>
     (case p of None \<Rightarrow> \<not> dir_bit dir i
      | Some b \<Rightarrow> dir_bit dir i \<and> slot_at g d i = b \<and> dir_crc g dir i = le_bytes 4 (ChecksumIEEE b))"

definition region_image :: "imageLayout \<Rightarrow> Coord \<Rightarrow> bytes \<Rightarrow> regionImage" where
  "region_image l region dir = \<lparr>im_file = [imageName region], im_coord = region, im_layout = l, im_directory = dir\<rparr>"

lemma region_image_fields [simp]:
  "im_file (region_image l region dir) = [imageName region]" "im_coord (region_image l region dir) = region"
  "im_layout (region_image l region dir) = l" "im_directory (region_image l region dir) = dir"
  "(region_image l region dir)\<lparr>im_directory := dir'\<rparr> = region_image l region dir'"
  by (simp_all add: region_image_def)

lemma markPresent_image:
  "markPresent i v (region_image l region dir) = region_image l region (im_directory (markPresent i v (region_image l region dir)))"
  by (simp add: markPresent_def Let_def)

lemma image_ok_length: "image_ok g region l d dir \<Longrightarrow> length dir = directory_size g"
  by (auto simp: image_ok_def image_size_def)

text \<open>Rewriting the directory of an image.\<close>

lemma image_ok_flush:
  assumes "image_ok g region l d dir" "length dir' = directory_size g" "dir_sealed dir'"
  shows "image_ok g region l (write_at 60 dir' d) dir'"
    and "i < slots_of g \<Longrightarrow> slot_at g (write_at 60 dir' d) i = slot_at g d i"
proof -
  have l: "length d = image_size g" using assms(1) by (simp add: image_ok_def)
  have "take 60 (drop 0 (write_at 60 dir' d)) = take 60 (drop 0 d)"
    using l assms(2) by (intro write_at_miss) (simp_all add: image_size_def)
  then show "image_ok g region l (write_at 60 dir' d) dir'"
    using assms write_at_hit [of dir' 60 d] by (simp add: image_ok_def length_write_at image_size_def)
  show "slot_at g (write_at 60 dir' d) i = slot_at g d i" if "i < slots_of g"
    unfolding slot_at_def using l assms(2) slot_in_image [OF that] by (intro write_at_miss) simp_all
qed

text \<open>Writing a slot.\<close>

lemma image_ok_slot:
  assumes "image_ok g region l d dir" "i < slots_of g" "length b = slot_size g"
  shows "image_ok g region l (write_at (slot_start g i) b d) dir"
    and "j < slots_of g \<Longrightarrow> slot_at g (write_at (slot_start g i) b d) j = (if j = i then b else slot_at g d j)"
proof -
  let ?d = "write_at (slot_start g i) b d"
  have l: "length d = image_size g" using assms(1) by (simp add: image_ok_def)
  have len: "length ?d = image_size g" using l assms(3) slot_in_image [OF assms(2)] by (simp add: length_write_at)
  have h: "take 60 (drop 0 ?d) = take 60 (drop 0 d)"
    using l slot_in_image [OF assms(2)] by (intro write_at_miss) simp_all
  have "take (directory_size g) (drop 60 ?d) = take (directory_size g) (drop 60 d)"
    using l slot_in_image [OF assms(2)] by (intro write_at_miss) (simp_all add: image_size_def)
  then show "image_ok g region l ?d dir" using h len assms(1) by (simp add: image_ok_def)
  show "slot_at g ?d j = (if j = i then b else slot_at g d j)" if j: "j < slots_of g"
  proof (cases "j = i")
    case True
    then show ?thesis using write_at_hit [of b "slot_start g i" d] assms(3) by (simp add: slot_at_def)
  next
    case False
    then have "slot_start g j + slot_size g \<le> slot_start g i \<or> slot_start g i + slot_size g \<le> slot_start g j"
      using slots_disjoint [of i j g] slots_disjoint [of j i g] by linarith
    then show ?thesis using False slot_in_image [OF j] l assms(3) unfolding slot_at_def by (simp add: write_at_miss)
  qed
qed

text \<open>An empty image.\<close>

lemma image_ok_empty:
  assumes "dir = sealed_dir (replicate (directory_size g) 0)"
    and "d = seal (region_header g region l) @ dir @ replicate (slots_of g * slot_size g) 0"
  shows "image_ok g region l d dir" "i < slots_of g \<Longrightarrow> slot_holds g d dir i None"
proof -
  note z = sealed_dir [of "replicate (directory_size g) 0" g, simplified, folded assms(1)]
  show "image_ok g region l d dir" using z(1,2) by (simp add: image_ok_def assms(2) image_size_def length_seal)
  show "slot_holds g d dir i None" if "i < slots_of g"
    using z(3) [of i] bitmap_index [OF that] by (simp add: slot_holds_def dir_bit_def directory_size_eq)
qed


section \<open>Effects of the methods of an image\<close>

lemma on_file_result: "on_file m (img, w) = (r, (img', w')) \<longleftrightarrow> img' = img \<and> m w = (r, w')"
  by (auto simp: on_file_def split: prod.splits)

lemma on_file_result2: "on_file m (img, w) = (r, s') \<longleftrightarrow> fst s' = img \<and> m w = (r, snd s')"
  by (cases s') (simp add: on_file_result)

lemma or_corrupt_result: "or_corrupt m s = (Inr x, s') \<longleftrightarrow> m s = (Inr x, s')" "or_corrupt m s = (Inl e, s') \<longleftrightarrow> e = [ErrCorrupt] \<and> (\<exists>e'. m s = (Inl e', s'))"
  by (auto simp: or_corrupt_def catch_def raise_def ret_def split: prod.splits sum.splits)

lemma region_headerBytes_sint [simp]: "sint region_headerBytes = 60" "sint (0 :: int64) = 0"
  by (simp_all add: region_headerBytes_def)

lemma flushDirectory_effect:
  assumes "flushDirectory (region_image l region dir, w) = (r, (img', w'))"
  shows "img' = region_image l region (sealed_dir dir)" and "fx {[imageName region]} w w'"
    and "r = Inr () \<Longrightarrow> \<exists>old. content w [imageName region] = Some old \<and> content w' [imageName region] = Some (write_at 60 (sealed_dir dir) old)"
    and "r = Inl e \<Longrightarrow> e = []"
    and "flawless w \<Longrightarrow> content w [imageName region] \<noteq> None \<Longrightarrow> r = Inr ()"
proof -
  have f: "img' = region_image l region (sealed_dir dir)" "os_write_at [imageName region] (sealed_dir dir) region_headerBytes w = (r, w')"
    using assms by (auto simp: flushDirectory_def andThen_def catch_def update_def on_file_result sealed_dir_def)
  then show "img' = region_image l region (sealed_dir dir)" by simp
  note e = write_at_effect [OF f(2)]
  show "fx {[imageName region]} w w'" by (rule e(1))
  show "r = Inr () \<Longrightarrow> \<exists>old. content w [imageName region] = Some old \<and> content w' [imageName region] = Some (write_at 60 (sealed_dir dir) old)"
    using e(2) by simp
  show "r = Inl e \<Longrightarrow> e = []" using e(3) by simp
  show "flawless w \<Longrightarrow> content w [imageName region] \<noteq> None \<Longrightarrow> r = Inr ()" using e(4) by simp
qed

lemma imageBytes_exact: "exact_layout g l \<Longrightarrow> sint (il_imageBytes l) = int (image_size g)"
  by (simp add: exact_layout_def sint_small)

lemma initialize_effect:
  assumes i: "initialize g (region_image l region (replicate (directory_size g) 0), w) = (r, (img', w'))"
    and x: "exact_layout g l" and c: "content w [imageName region] = Some []"
  shows "fx {[imageName region]} w w'" and "flawless w \<Longrightarrow> r = Inr ()" and "r = Inl e \<Longrightarrow> e = []"
    and "r = Inr () \<Longrightarrow> \<exists>d dir. content w' [imageName region] = Some d \<and> img' = region_image l region dir \<and> image_ok g region l d dir \<and>
           (\<forall>i < slots_of g. slot_holds g d dir i None)"
proof -
  let ?p = "[imageName region]" and ?img = "region_image l region (replicate (directory_size g) 0)"
  define H dir where "H = seal (region_header g region l)" and "dir = sealed_dir (replicate (directory_size g) 0)"
  have lh: "length H = 60" by (simp add: H_def)
  have ld: "length dir = directory_size g" using sealed_dir(1) [of "replicate (directory_size g) 0" g] by (simp add: dir_def)
  have n: "nat (sint (il_imageBytes l)) = 60 + directory_size g + slots_of g * slot_size g"
    using imageBytes_exact [OF x] by (simp only: image_size_def nat_int)
  have all: "fx {?p} w w' \<and> (flawless w \<longrightarrow> r = Inr ()) \<and> (\<forall>e. r = Inl e \<longrightarrow> e = []) \<and> (r = Inr () \<longrightarrow> img' = region_image l region dir \<and>
      content w' ?p = Some (H @ dir @ replicate (slots_of g * slot_size g) 0))"
    using i unfolding initialize_def
  proof (cases rule: andThen_result)
    case (failed e)
    then have "os_write_at ?p H 0 w = (Inl e, w')" by (simp add: on_file_result encodeHeader_eq H_def)
    note w = write_at_effect [OF this]
    show ?thesis using w(1,3,4) failed(2) c by auto
  next
    case (went u t)
    then have t: "os_write_at ?p H 0 w = (Inr (), snd t)" "fst t = ?img" by (simp_all add: on_file_result2 encodeHeader_eq H_def)
    note w1 = write_at_effect [OF t(1)]
    have c1: "content (snd t) ?p = Some H" using w1(2) c by (simp add: write_at_def)
    show ?thesis using went(2)
    proof (cases rule: andThen_result)
      case (failed e)
      then have "flushDirectory (?img, snd t) = (Inl e, (img', w'))" using t(2) by (cases t) simp
      note w2 = flushDirectory_effect [OF this]
      show ?thesis using fx_trans [OF w1(1) w2(2)] w2(4,5) fx_flawless [OF w1(1)] c1 failed(2) by auto
    next
      case (went v t2)
      have f: "flushDirectory (?img, snd t) = (Inr v, (fst t2, snd t2))" using went(1) t(2) by (cases t) simp
      note w2 = flushDirectory_effect [OF f]
      have c2: "content (snd t2) ?p = Some (H @ dir)" using w2(3) c1 lh by (simp add: write_at_def dir_def)
      have "os_truncate ?p (nat (sint (il_imageBytes l))) (snd t2) = (r, w')" "img' = fst t2"
        using went(2) w2(1) by (cases t2, simp add: on_file_result)+
      note w3 = truncate_effect [OF this(1)] this(2)
      show ?thesis using fx_trans [OF fx_trans [OF w1(1) w2(2)] w3(1)] w3(2,3,4,5) c2 w2(1) fx_flawless [OF w1(1)] fx_flawless [OF w2(2)]
        by (auto simp: n lh ld dir_def [symmetric])
    qed
  qed
  then show "fx {?p} w w'" "flawless w \<Longrightarrow> r = Inr ()" "r = Inl e \<Longrightarrow> e = []" by blast+
  show "\<exists>d dir. content w' ?p = Some d \<and> img' = region_image l region dir \<and> image_ok g region l d dir \<and> (\<forall>i < slots_of g. slot_holds g d dir i None)"
    if "r = Inr ()" using all that image_ok_empty [OF dir_def, where region = region and l = l] by (auto simp: H_def)
qed


lemma validateHeader_Inl: "validateHeader img g header = Inl e \<Longrightarrow> \<not> errors_is e ErrNotExist \<and> \<not> errors_is e ErrImageUnpublished"
  by (auto simp: validateHeader_def on_err_def errors_is_def Let_def split: if_splits sum.splits)

lemma check_directory_eq: "4 \<le> length directory \<Longrightarrow> check_directory directory = (if dir_sealed directory then Inr () else Inl [ErrCorrupt])"
  using codec_Uint_exact(1) [of "take 4 directory" "ChecksumIEEE (drop 4 directory)"]
  by (auto simp: check_directory_def dir_sealed_def on_err_def split: sum.splits)

lemma load_outcome:
  assumes i: "load g (region_image l region dir0, w) = (r, (img', w'))"
    and c: "content w [imageName region] = Some d" and d0: "length dir0 = directory_size g"
  defines "D \<equiv> take (directory_size g) (drop 60 d)"
  shows "fx {} w w' \<and>
      (r = Inr () \<longrightarrow> 60 + directory_size g \<le> length d \<and> take 60 d = seal (region_header g region l) \<and> dir_sealed D \<and> img' = region_image l region D) \<and>
      (image_ok g region l d D \<longrightarrow> flawless w \<longrightarrow> r = Inr ()) \<and> (\<forall>e. r = Inl e \<longrightarrow> \<not> errors_is e ErrNotExist \<and> \<not> errors_is e ErrImageUnpublished)"
  using i unfolding load_def
proof (cases rule: andThen_result)
  case (failed e)
  then obtain e' where "e = [ErrCorrupt]" "os_read_at [imageName region] 60 0 w = (Inl e', w')"
    by (auto simp: or_corrupt_result on_file_result)
  note e = this(1) and rd = read_at_effect [OF this(2)]
  show ?thesis using rd(1) rd(4) [OF _ c] e failed(2) by (auto simp: errors_is_def image_ok_def image_size_def)
next
  case (went header t)
  then have "os_read_at [imageName region] 60 0 w = (Inr header, snd t)" and t: "fst t = region_image l region dir0"
    by (auto simp: or_corrupt_result on_file_result2)
  note r1 = read_at_effect [OF this(1)]
  have h: "60 \<le> length d" "header = take 60 d" using r1(2) c by auto
  have c1: "content (snd t) [imageName region] = Some d" using fx_content [OF r1(1)] c by simp
  show ?thesis using went(2)
  proof (cases rule: andThen_result)
    case (failed e)
    then have v: "validateHeader (region_image l region dir0) g header = Inl e" and w': "snd t = w'" using t by auto
    have "\<not> image_ok g region l d D"
      using v validateHeader_encodeHeader [of "region_image l region dir0" g] by (auto simp: image_ok_def h(2) encodeHeader_eq)
    then show ?thesis using r1(1) w' validateHeader_Inl [OF v] failed(2) by auto
  next
    case (went u t2)
    then have v: "validateHeader (region_image l region dir0) g header = Inr ()" and t2: "t2 = t" using t by auto
    have s: "take 60 d = seal (region_header g region l)"
      using validateHeader_exact [OF v] h by (simp add: encodeHeader_eq)
    show ?thesis using went(2) [unfolded t2]
    proof (cases rule: andThen_result)
      case (failed e)
      then obtain e' where "e = [ErrCorrupt]" "os_read_at [imageName region] (directory_size g) region_headerBytes (snd t) = (Inl e', w')"
        using t d0 by (cases t) (auto simp: or_corrupt_result on_file_result)
      note e = this(1) and rd = read_at_effect [OF this(2)]
      show ?thesis using fx_trans [OF r1(1) rd(1)] rd(4) [OF _ c1] fx_flawless [OF r1(1)] e failed(2)
        by (auto simp: errors_is_def image_ok_def image_size_def)
    next
      case (went dir t3)
      then have "os_read_at [imageName region] (directory_size g) region_headerBytes (snd t) = (Inr dir, snd t3)" and t3: "fst t3 = region_image l region dir0"
        using t d0 by (cases t, auto simp: or_corrupt_result on_file_result2)+
      note r2 = read_at_effect [OF this(1)]
      have dd: "60 + directory_size g \<le> length d" "dir = D" using r2(2) c1 by (auto simp: D_def)
      have "r = check_directory D" "img' = region_image l region D" "w' = snd t3"
        using went(2) t3 dd(2) by (cases t3, auto simp: andThen_def catch_def update_def)+
      moreover have "4 \<le> length D" using dd(1) by (simp add: D_def directory_size_eq)
      ultimately show ?thesis using fx_trans [OF r1(1) r2(1)] dd(1) s
        by (auto simp: check_directory_eq errors_is_def image_ok_def)
    qed
  qed
qed


section \<open>Opening an image\<close>

text \<open>What a file holds, slot by slot; a file that is missing or empty holds nothing.\<close>

definition unborn :: "bytes option \<Rightarrow> bool" where
  "unborn file \<longleftrightarrow> file = None \<or> file = Some []"

definition file_holds :: "Geometry \<Rightarrow> imageLayout \<Rightarrow> Coord \<Rightarrow> bytes option \<Rightarrow> (nat \<Rightarrow> bytes option) \<Rightarrow> bool" where
  "file_holds g l region file S \<longleftrightarrow>
     (if unborn file then (\<forall>i < slots_of g. S i = None)
      else \<exists>d dir. file = Some d \<and> image_ok g region l d dir \<and> (\<forall>i < slots_of g. slot_holds g d dir i (S i)))"

text \<open>An open image and its file.\<close>

definition opened :: "Geometry \<Rightarrow> imageLayout \<Rightarrow> Coord \<Rightarrow> world \<Rightarrow> regionImage \<Rightarrow> bool" where
  "opened g l region w img \<longleftrightarrow>
     (\<exists>d dir. content w [imageName region] = Some d \<and> img = region_image l region dir \<and> image_ok g region l d dir)"

lemma opened_holds:
  assumes "opened g l region w img" "file_holds g l region (content w [imageName region]) S"
  obtains d dir where "content w [imageName region] = Some d" "img = region_image l region dir" "image_ok g region l d dir"
    "\<And>i. i < slots_of g \<Longrightarrow> slot_holds g d dir i (S i)"
  using assms by (auto simp: opened_def file_holds_def unborn_def image_ok_def image_size_def split: if_splits)

text \<open>The outcome of opening the file of a region that has the contents \<open>d\<close>.\<close>

definition opens :: "Geometry \<Rightarrow> imageLayout \<Rightarrow> Coord \<Rightarrow> bool \<Rightarrow> bytes \<Rightarrow> world \<Rightarrow> regionImage result \<Rightarrow> world \<Rightarrow> bool" where
  "opens g l region create d w r w' \<longleftrightarrow>
     fx {[imageName region]} w w' \<and> (\<not> (create \<and> d = []) \<longrightarrow> content w' [imageName region] = Some d) \<and>
     (case r of
        Inr img \<Rightarrow> opened g l region w' img \<and> (d = [] \<longrightarrow> create \<and> file_holds g l region (content w' [imageName region]) (\<lambda>_. None))
      | Inl e \<Rightarrow> (errors_is e ErrImageUnpublished \<longrightarrow> d = []) \<and> \<not> errors_is e ErrNotExist \<and>
          (flawless w \<longrightarrow> \<not> (if d = [] then create else \<exists>dir. image_ok g region l d dir)))"

lemma opens_initialize:
  assumes i: "initialize g (region_image l region (replicate (directory_size g) 0), w) = (r, (img, w'))"
    and "exact_layout g l" "content w [imageName region] = Some []"
  shows "opens g l region True [] w (case r of Inl e \<Rightarrow> Inl e | Inr _ \<Rightarrow> Inr img) w'"
proof (cases r)
  case (Inl e)
  then show ?thesis using initialize_effect(1-3) [OF assms] by (auto simp: opens_def errors_is_def)
next
  case (Inr u)
  then show ?thesis using initialize_effect(1,4) [OF assms] by (auto simp: opens_def opened_def file_holds_def unborn_def)
qed

lemma opens_load:
  assumes i: "load g (region_image l region (replicate (directory_size g) 0), w) = (r, (img, w'))"
    and c: "content w [imageName region] = Some d" and d: "d \<noteq> []" "length d = image_size g"
  shows "opens g l region create d w (case r of Inl e \<Rightarrow> Inl e | Inr _ \<Rightarrow> Inr img) w'"
proof -
  note o = load_outcome [OF i c, simplified]
  have k: "fx {[imageName region]} w w'" "content w' [imageName region] = Some d"
    using o fx_trans [of "{}" w w' "{}" w' "{[imageName region]}"] fx_content [of "{}" w w'] c by auto
  show ?thesis
  proof (cases r)
    case (Inl e)
    have "flawless w \<Longrightarrow> \<not> image_ok g region l d dir" for dir
    proof
      assume "flawless w" and ok: "image_ok g region l d dir"
      have "dir = take (directory_size g) (drop 60 d)" using ok by (simp add: image_ok_def)
      then show False using o ok \<open>flawless w\<close> Inl by simp
    qed
    then show ?thesis using o k d Inl by (simp add: opens_def)
  next
    case (Inr u)
    then have r: "r = Inr ()" by simp
    then have "img = region_image l region (take (directory_size g) (drop 60 d))" "image_ok g region l d (take (directory_size g) (drop 60 d))"
      using o d(2) unfolding image_ok_def by blast+
    then have "opened g l region w' img" using k(2) unfolding opened_def by blast
    then show ?thesis using k d(1) r by (simp add: opens_def)
  qed
qed

lemma opens_early: "fx {} w t \<Longrightarrow> content w [imageName region] = Some d \<Longrightarrow> opens g l region create d t r w' \<Longrightarrow> opens g l region create d w r w'"
  using fx_trans [of "{}" w t "{[imageName region]}" w' "{[imageName region]}"] fx_flawless [of "{}" w t]
  by (auto simp: opens_def split: sum.splits)

lemma open_body_opens:
  assumes "open_body [imageName region] region g l create w = (r, w')" "exact_layout g l" and c: "content w [imageName region] = Some d"
  shows "opens g l region create d w r w'"
  using assms(1) unfolding open_body_def
proof (cases rule: andThen_result)
  case (failed e)
  note z = size_effect [OF failed(1)]
  show ?thesis using z(3) z(4) [OF _ c] fx_content [OF z(1)] fx_trans [OF z(1) fx_refl] c failed(2) by (auto simp: opens_def errors_is_def)
next
  case (went n t)
  let ?img = "region_image l region (replicate (directory_size g) 0)"
  have new: "new_image [imageName region] region l = ?img" using assms(2) by (simp add: new_image_def region_image_def exact_layout_def)
  have pos: "image_size g \<noteq> 0" by (simp add: image_size_def)
  note z = size_effect [OF went(1)] and b = imageBytes_exact [OF assms(2)]
  have n: "n = length d" and ct: "content t [imageName region] = Some d" using z(2) c fx_content [OF z(1)] by auto
  obtain r1 img1 w1 where i: "initialize g (?img, t) = (r1, (img1, w1))" by (cases "initialize g (?img, t)") auto
  obtain r2 img2 w2 where l: "load g (?img, t) = (r2, (img2, w2))" by (cases "load g (?img, t)") auto
  have "opens g l region create d t r w'"
  proof (cases "d = []")
    case True
    then show ?thesis using went(2) n ct i opens_initialize [OF i assms(2)]
      by (cases create; cases r1) (auto simp: new opens_def errors_is_def)
  next
    case False
    show ?thesis
    proof (cases "length d = image_size g")
      case True
      then have "r = (case r2 of Inl e \<Rightarrow> Inl e | Inr _ \<Rightarrow> Inr img2)" "w' = w2"
        using went(2) n l b pos by (cases r2; simp add: new)+
      then show ?thesis using opens_load [OF l ct False True] by simp
    next
      case bad: False
      then have "r = Inl [ErrCorrupt]" "w' = t" using went(2) n b False by simp_all
      then show ?thesis using ct False bad by (simp add: opens_def errors_is_def image_ok_def)
    qed
  qed
  then show ?thesis using opens_early [OF z(1) c] by blast
qed


lemma file_holds_unborn: "unborn f \<Longrightarrow> unborn f' \<Longrightarrow> file_holds g l region f S \<longleftrightarrow> file_holds g l region f' S"
  by (simp add: file_holds_def)

lemma openRegionImage_outcome:
  assumes "openRegionImage [imageName region] region g l create w = (r, w')" "exact_layout g l"
  shows "fx {[imageName region]} w w'" and "\<not> create \<Longrightarrow> content w' [imageName region] = content w [imageName region]"
    and "r = Inr img \<Longrightarrow> opened g l region w' img"
    and "r = Inr img \<Longrightarrow> file_holds g l region (content w [imageName region]) S \<Longrightarrow> file_holds g l region (content w' [imageName region]) S"
    and "r = Inl e \<Longrightarrow> errors_is e ErrNotExist \<or> errors_is e ErrImageUnpublished \<Longrightarrow> unborn (content w [imageName region])"
    and "flawless w \<Longrightarrow> \<not> is_dir w [imageName region] \<Longrightarrow> file_holds g l region (content w [imageName region]) S \<Longrightarrow>
         create \<or> \<not> unborn (content w [imageName region]) \<Longrightarrow> \<exists>img. r = Inr img"
proof -
  let ?p = "[imageName region]" and ?f = "content w [imageName region]"
  have "fx {?p} w w' \<and> (\<not> create \<longrightarrow> content w' ?p = ?f) \<and>
      (\<forall>img. r = Inr img \<longrightarrow> opened g l region w' img \<and> (\<forall>S. file_holds g l region ?f S \<longrightarrow> file_holds g l region (content w' ?p) S)) \<and>
      (\<forall>e. r = Inl e \<longrightarrow> (errors_is e ErrNotExist \<or> errors_is e ErrImageUnpublished \<longrightarrow> unborn ?f) \<and>
         (flawless w \<and> \<not> is_dir w ?p \<and> (create \<or> \<not> unborn ?f) \<longrightarrow> (\<nexists>S. file_holds g l region ?f S)))"
    using assms(1) unfolding openRegionImage_def
  proof (cases rule: andThen_result)
    case (failed e)
    note o = open_file_effect [OF failed(1)]
    have "is_dir w (butlast ?p)" by (simp add: is_dir_def)
    then show ?thesis using o(1,4) o(3) [OF refl] failed(2) by (auto simp: errors_is_def unborn_def)
  next
    case (went u t)
    note o = open_file_effect [OF went(1)]
    define d where "d = (case ?f of None \<Rightarrow> [] | Some d \<Rightarrow> d)"
    have ct: "content t ?p = Some d" and cr: "?f = None \<Longrightarrow> create" and un: "unborn ?f \<longleftrightarrow> d = []" using o(2) by (auto simp: d_def unborn_def split: option.splits)
    obtain r1 t1 where b: "open_body ?p region g l create t = (r1, t1)" by fastforce
    note op = open_body_opens [OF b assms(2) ct, unfolded opens_def]
    have fx1: "fx {?p} w t1" using fx_trans [OF o(1)] op by blast
    have keep: "content t1 ?p = ?f" if "\<not> create" using op that cr by (auto simp: d_def split: option.splits)
    show ?thesis
    proof (cases r1)
      case (Inr img)
      then have "r = Inr img" "w' = t1" using went(2) b by (simp_all add: catch_def ret_def)
      moreover have "file_holds g l region (content t1 ?p) S" if h: "file_holds g l region ?f S" for S
      proof (cases "d = []")
        case True
        then have "\<forall>i < slots_of g. S i = None" using h un by (simp add: file_holds_def)
        then show ?thesis using op Inr True unfolding file_holds_def by (auto split: if_splits)
      next
        case False
        then have "?f = Some d" by (auto simp: d_def split: option.splits)
        then show ?thesis using h op False by simp
      qed
      ultimately show ?thesis using fx1 keep op Inr by simp
    next
      case (Inl e)
      obtain r2 t2 where c: "os_noop (OsClose ?p) t1 = (r2, t2)" by fastforce
      note ce = close_effect [OF c]
      have r: "r = Inl e" "w' = t2" using went(2) b Inl c ce(2) by (cases r2; auto simp: catch_def raise_def)+
      have "content t2 ?p = content t1 ?p" using fx_content [OF ce(1)] by simp
      moreover have "\<nexists>S. file_holds g l region ?f S" if "flawless w" "create \<or> \<not> unborn ?f"
        using op Inl that fx_flawless [OF o(1)] un by (auto simp: file_holds_def d_def split: if_splits)
      ultimately show ?thesis using fx_trans [OF fx1 ce(1)] keep r op Inl un by auto
    qed
  qed
  then show "fx {?p} w w'" "\<not> create \<Longrightarrow> content w' ?p = ?f" "r = Inr img \<Longrightarrow> opened g l region w' img"
    "r = Inr img \<Longrightarrow> file_holds g l region ?f S \<Longrightarrow> file_holds g l region (content w' ?p) S"
    "r = Inl e \<Longrightarrow> errors_is e ErrNotExist \<or> errors_is e ErrImageUnpublished \<Longrightarrow> unborn ?f"
    "flawless w \<Longrightarrow> \<not> is_dir w ?p \<Longrightarrow> file_holds g l region ?f S \<Longrightarrow> create \<or> \<not> unborn ?f \<Longrightarrow> \<exists>img. r = Inr img"
    by (blast, blast, blast, blast, blast, cases r, blast, blast)
qed

section \<open>Reading and writing slots\<close>

lemma readSlot_outcome:
  assumes r: "readSlot i (img, w) = (r, (img', w'))" and x: "exact_layout g l" and i: "unat i < slots_of g"
    and c: "content w [imageName region] = Some d" and img: "img = region_image l region dir" and ok: "image_ok g region l d dir"
    and h: "slot_holds g d dir (unat i) p"
  shows "img' = img \<and> fx {} w w' \<and> r \<in> {case p of None \<Rightarrow> Inl [ErrSlotAbsent] | Some b \<Rightarrow> Inr b, Inl [ErrCorrupt]} \<and>
    (r = Inl [ErrCorrupt] \<longrightarrow> \<not> flawless w)"
proof (cases p)
  case None
  then have "\<not> present img i" using h present_dir_bit [OF x i, of img] by (simp add: slot_holds_def img)
  then show ?thesis using r None by (auto simp: readSlot_def)
next
  case (Some b)
  have "present img i" using Some h present_dir_bit [OF x i, of img] by (simp add: slot_holds_def img)
  moreover have "slotChecksum img i = Inr (ChecksumIEEE b)"
    using Some h slotChecksum_dir_crc(1) [of g img i "ChecksumIEEE b"] x i image_ok_length [OF ok] by (simp add: slot_holds_def img)
  moreover have o: "nat (sint (slotOffset l i)) = slot_start g (unat i)" "0 \<le> sint (slotOffset l i)" "unat (il_slotBytes l) = slot_size g"
    using slotOffset_exact [OF x i] x by (simp_all only: exact_layout_def of_nat_0_le_iff nat_int)
  ultimately have t: "andThen (or_corrupt (on_file (os_read_at [imageName region] (slot_size g) (slotOffset l i))))
      (\<lambda>payload. if ChecksumIEEE payload \<noteq> ChecksumIEEE b then raise [ErrCorrupt] else ret payload) (img, w) = (r, (img', w'))"
    using r by (simp add: readSlot_def img)
  have len: "slot_start g (unat i) + slot_size g \<le> length d" "slot_at g d (unat i) = b"
    using slot_in_image [OF i] ok h Some by (simp_all add: image_ok_def slot_holds_def)
  show ?thesis using t
  proof (cases rule: andThen_result)
    case (failed e)
    then obtain e' where "e = [ErrCorrupt]" "os_read_at [imageName region] (slot_size g) (slotOffset l i) w = (Inl e', w')" "img' = img"
      by (auto simp: or_corrupt_result on_file_result)
    then show ?thesis using read_at_effect(1) read_at_effect(4) [OF _ _ c o(2)] failed(2) len(1) o(1) by fastforce
  next
    case (went y t)
    then have rd: "os_read_at [imageName region] (slot_size g) (slotOffset l i) w = (Inr y, snd t)" "fst t = img"
      by (auto simp: or_corrupt_result on_file_result2)
    then have "y = b" using read_at_effect(2) [OF rd(1)] c len(2) o(1) by (auto simp: slot_at_def)
    then show ?thesis using went(2) rd read_at_effect(1) [OF rd(1)] Some by (cases t) (auto simp: ret_def)
  qed
qed

lemma written_slot_holds:
  assumes ok: "image_ok g region l d dir" and i: "unat i < slots_of g" and b: "length b = slot_size g" and x: "exact_layout g l"
    and dir': "dir' = sealed_dir (im_directory (markPresent i (ChecksumIEEE b) (region_image l region dir)))"
    and d': "d' = write_at 60 dir' (write_at (slot_start g (unat i)) b d)"
  shows "image_ok g region l d' dir'"
    and "j < slots_of g \<Longrightarrow> slot_holds g d dir j p \<Longrightarrow> slot_holds g d' dir' j (if j = unat i then Some b else p)"
proof -
  note m = markPresent_directory [of g "region_image l region dir" i _ "ChecksumIEEE b", OF _ i _ refl, simplified, OF x image_ok_length [OF ok]]
  note s = sealed_dir [OF m(1), folded dir'] and w = image_ok_slot [OF ok i b]
  note f = image_ok_flush [OF w(1) s(1,2)]
  show "image_ok g region l d' dir'" unfolding d' by (rule f(1))
  show "slot_holds g d' dir' j (if j = unat i then Some b else p)" if j: "j < slots_of g" and h: "slot_holds g d dir j p"
    using h f(2) [OF j] w(2) [OF j] s(3,4) [of j] m(2,3) [OF j] by (auto simp: slot_holds_def d' split: option.splits)
qed

lemma writeSlot_outcome:
  assumes r: "writeSlot i b (img, w) = (r, (img', w'))" and x: "exact_layout g l" and i: "unat i < slots_of g"
    and c: "content w [imageName region] = Some d" and img: "img = region_image l region dir" and ok: "image_ok g region l d dir"
    and b: "length b = slot_size g"
  shows "fx {[imageName region]} w w'" and "flawless w \<Longrightarrow> r = Inr ()" and "\<exists>dir'. img' = region_image l region dir'"
    and "r = Inr () \<Longrightarrow> \<exists>d' dir'. content w' [imageName region] = Some d' \<and> img' = region_image l region dir' \<and> image_ok g region l d' dir' \<and>
          (\<forall>j p. j < slots_of g \<longrightarrow> slot_holds g d dir j p \<longrightarrow> slot_holds g d' dir' j (if j = unat i then Some b else p))"
proof -
  let ?p = "[imageName region]"
  define dir' where "dir' = sealed_dir (im_directory (markPresent i (ChecksumIEEE b) (region_image l region dir)))"
  have o: "nat (sint (slotOffset l i)) = slot_start g (unat i)" "0 \<le> sint (slotOffset l i)"
    using slotOffset_exact [OF x i] by (simp_all only: of_nat_0_le_iff nat_int)
  have "\<not> il_slotCount l \<le> i" using x i by (simp add: exact_layout_def word_le_nat_alt)
  moreover have "of_nat (length b) = il_slotBytes l" using x b unat_u64_bound [of "il_slotBytes l"]
    by (simp add: exact_layout_def word_unat_eq_iff unat_of_nat take_bit_nat_eq_self)
  ultimately have t: "andThen (on_file (os_write_at ?p b (slotOffset l i)))
      (\<lambda>_. andThen (update (\<lambda>(img, w). (markPresent i (ChecksumIEEE b) img, w))) (\<lambda>_. flushDirectory)) (img, w) = (r, (img', w'))"
    using r by (simp add: writeSlot_def img)
  have "fx {?p} w w' \<and> (flawless w \<longrightarrow> r = Inr ()) \<and> (\<exists>dir'. img' = region_image l region dir') \<and>
      (r = Inr () \<longrightarrow> img' = region_image l region dir' \<and> content w' ?p = Some (write_at 60 dir' (write_at (slot_start g (unat i)) b d)))"
    using t
  proof (cases rule: andThen_result)
    case (failed e)
    then have w: "os_write_at ?p b (slotOffset l i) w = (Inl e, w')" "img' = img" by (simp_all add: on_file_result)
    show ?thesis using write_at_effect(1,4) [OF w(1)] w(2) c o(2) failed(2) by (auto simp: img)
  next
    case (went u t)
    then have w: "os_write_at ?p b (slotOffset l i) w = (Inr (), snd t)" "fst t = img" by (simp_all add: on_file_result2)
    note e = write_at_effect [OF w(1)]
    have f: "flushDirectory (region_image l region (im_directory (markPresent i (ChecksumIEEE b) (region_image l region dir))), snd t) = (r, (img', w'))"
      using went(2) w(2) by (cases t) (simp add: andThen_def catch_def update_def img markPresent_image [symmetric])
    note fe = flushDirectory_effect [OF f, folded dir'_def]
    have ct: "content (snd t) ?p = Some (write_at (slot_start g (unat i)) b d)" using e(2) c o(1) by auto
    show ?thesis using fx_trans [OF e(1) fe(2)] fe(1,3,5) ct fx_flawless [OF e(1)] by auto
  qed
  then show "fx {?p} w w'" "flawless w \<Longrightarrow> r = Inr ()" "\<exists>dir'. img' = region_image l region dir'"
    "r = Inr () \<Longrightarrow> \<exists>d' dir'. content w' ?p = Some d' \<and> img' = region_image l region dir' \<and> image_ok g region l d' dir' \<and>
       (\<forall>j p. j < slots_of g \<longrightarrow> slot_holds g d dir j p \<longrightarrow> slot_holds g d' dir' j (if j = unat i then Some b else p))"
    using written_slot_holds [OF ok i b x dir'_def refl] by blast+
qed

end
