(* ===== verification/RegionRefinement.thy ===== *)
theory RegionRefinement
  imports RegionStore
begin

text \<open>
  The store of region images refines a map from coordinates to chunks.  \<open>region_inv\<close> ties the open images to their
  files and bounds their number.  \<open>region_rep s M B\<close> says that the files of all regions outside \<open>B\<close> hold the chunks
  of \<open>M\<close>; a region enters \<open>B\<close> when a write to it fails, because the layout has no log to repair it.
\<close>

section \<open>Contents of the files\<close>

definition chunk_bytes :: "Chunk \<Rightarrow> bytes" where
  "chunk_bytes ch = chunk_payload ch @ chunk_presence ch"

definition region_holds :: "Geometry \<Rightarrow> imageLayout \<Rightarrow> Coord \<Rightarrow> bytes option \<Rightarrow> (Coord \<Rightarrow> Chunk option) \<Rightarrow> bool" where
  "region_holds g l region file M \<longleftrightarrow>
     (\<exists>S. file_holds g l region file S \<and> (\<forall>c i. locate g c = (region, i) \<longrightarrow> S (unat i) = map_option chunk_bytes (M c)))"

lemma region_holds_unborn:
  assumes "wf_geometry g" "region_holds g l region file M" "unborn file" "locate g c = (region, i)"
  shows "M c = None"
  using assms locate_index(3) [OF assms(1,4)] by (auto simp: region_holds_def file_holds_def)

lemma region_holds_elsewhere:
  assumes "region_holds g l region file M" "\<And>i. locate g c \<noteq> (region, i)"
  shows "region_holds g l region file (M(c := v))"
  using assms by (fastforce simp: region_holds_def)

section \<open>The invariant\<close>

definition region_inv :: "regionStore \<Rightarrow> bool" where
  "region_inv s \<longleftrightarrow>
     wf_geometry (rg_geometry s) \<and> exact_layout (rg_geometry s) (rg_layout s) \<and> 0 < rg_maxOpen s \<and>
     distinct (rg_recent s) \<and> distinct (map fst (rg_images s)) \<and> set (rg_recent s) = fst ` set (rg_images s) \<and>
     int (length (rg_recent s)) \<le> rg_maxOpen s \<and>
     (\<forall>region img. map_of (rg_images s) region = Some img \<longrightarrow> opened (rg_geometry s) (rg_layout s) region (rg_world s) img)"

text \<open>What no method changes but \<^verbatim>\<open>Close\<close>.\<close>

definition same_conf :: "regionStore \<Rightarrow> regionStore \<Rightarrow> bool" where
  "same_conf s s' \<longleftrightarrow>
     rg_geometry s' = rg_geometry s \<and> rg_layout s' = rg_layout s \<and> rg_maxOpen s' = rg_maxOpen s \<and> rg_closed s' = rg_closed s"

lemma opened_fx: "opened g l region w img \<Longrightarrow> fx A w w' \<Longrightarrow> [imageName region] \<notin> A \<Longrightarrow> opened g l region w' img"
  by (simp add: opened_def fx_content)

lemma keys_delete: "fst ` set (AList.delete k al) = fst ` set al - {k}"
  using arg_cong [OF delete_keys [of k al], of set] by simp

lemma open_iff: "region_inv s \<Longrightarrow> map_of (rg_images s) region \<noteq> None \<longleftrightarrow> region \<in> set (rg_recent s)"
  by (auto simp: region_inv_def map_of_eq_None_iff)

lemma discard_outcome:
  assumes "discardImage region s = (r, s')" "region_inv s"
  shows "region_inv s'" "same_conf s s'" "fx {} (rg_world s) (rg_world s')" "r = Inl e \<Longrightarrow> e = []" "flawless (rg_world s) \<Longrightarrow> r = Inr ()"
    "rg_recent s' = remove1 region (rg_recent s)" "rg_images s' = AList.delete region (rg_images s)"
proof -
  have "region_inv s' \<and> same_conf s s' \<and> fx {} (rg_world s) (rg_world s') \<and> (\<forall>e. r = Inl e \<longrightarrow> e = []) \<and> (flawless (rg_world s) \<longrightarrow> r = Inr ()) \<and>
      rg_recent s' = remove1 region (rg_recent s) \<and> rg_images s' = AList.delete region (rg_images s)"
  proof (cases "map_of (rg_images s) region")
    case None
    then have "region \<notin> fst ` set (rg_images s)" by (simp add: map_of_eq_None_iff)
    then show ?thesis using assms None
      by (auto simp: discardImage_def same_conf_def region_inv_def remove1_idem AList.delete_id)
  next
    case (Some img)
    obtain q w where c: "os_noop (OsClose (im_file img)) (rg_world s) = (q, w)" by fastforce
    note ce = close_effect [OF c]
    have s': "r = q" "s' = (forget_image region s)\<lparr>rg_world := w\<rparr>"
      using assms(1) Some c by (auto simp: discardImage_def on_disk_def image_close_def on_file_def forget_image_def split: prod.splits)
    have "length (remove1 region (rg_recent s)) \<le> length (rg_recent s)" by (simp add: length_remove1)
    moreover have "opened (rg_geometry s) (rg_layout s) region' w img'" if "map_of (AList.delete region (rg_images s)) region' = Some img'" for region' img'
      using that assms(2) opened_fx [OF _ ce(1)] by (auto simp: region_inv_def delete_conv' split: if_splits)
    ultimately have "region_inv s'" using assms(2) by (auto simp: region_inv_def s' forget_image_def distinct_delete keys_delete)
    then show ?thesis using ce s' by (auto simp: same_conf_def forget_image_def)
  qed
  then show "region_inv s'" "same_conf s s'" "fx {} (rg_world s) (rg_world s')" "r = Inl e \<Longrightarrow> e = []" "flawless (rg_world s) \<Longrightarrow> r = Inr ()"
    "rg_recent s' = remove1 region (rg_recent s)" "rg_images s' = AList.delete region (rg_images s)" by blast+
qed


lemma evict_outcome:
  assumes "evictImage s = (r, s')" "region_inv s"
  shows "region_inv s'" "same_conf s s'" "fx {} (rg_world s) (rg_world s')" "r = Inl e \<Longrightarrow> e = []" "flawless (rg_world s) \<Longrightarrow> r = Inr ()"
    "r = Inr () \<Longrightarrow> int (length (rg_recent s')) < rg_maxOpen s'"
    "set (rg_recent s') \<subseteq> set (rg_recent s)"
proof -
  have "region_inv s' \<and> same_conf s s' \<and> fx {} (rg_world s) (rg_world s') \<and> (\<forall>e. r = Inl e \<longrightarrow> e = []) \<and> (flawless (rg_world s) \<longrightarrow> r = Inr ()) \<and>
      int (length (rg_recent s')) < rg_maxOpen s' \<and> set (rg_recent s') \<subseteq> set (rg_recent s)"
  proof (cases "rg_recent s = []")
    case True
    then show ?thesis using assms by (auto simp: evictImage_def same_conf_def region_inv_def)
  next
    case False
    then have d: "discardImage (last (rg_recent s)) s = (r, s')" using assms(1) by (simp add: evictImage_def)
    note o = discard_outcome [OF d assms(2)]
    have "length (rg_recent s') < length (rg_recent s)" using o(6) False by (simp add: length_remove1)
    moreover have "rg_maxOpen s' = rg_maxOpen s" using o(2) by (simp add: same_conf_def)
    moreover have "int (length (rg_recent s)) \<le> rg_maxOpen s" using assms(2) by (simp add: region_inv_def)
    ultimately show ?thesis using o(1-5) o(6) set_remove1_subset [of "last (rg_recent s)" "rg_recent s"] by auto
  qed
  then show "region_inv s'" "same_conf s s'" "fx {} (rg_world s) (rg_world s')" "r = Inl e \<Longrightarrow> e = []" "flawless (rg_world s) \<Longrightarrow> r = Inr ()"
    "r = Inr () \<Longrightarrow> int (length (rg_recent s')) < rg_maxOpen s'" "set (rg_recent s') \<subseteq> set (rg_recent s)" by blast+
qed

text \<open>A new image is entered in the table and at the front of the recency list.\<close>

lemma region_inv_push:
  assumes "region_inv s" "fx {[imageName region]} (rg_world s) w" "map_of (rg_images s) region = None"
    and "opened (rg_geometry s) (rg_layout s) region w img" "int (length (rg_recent s)) < rg_maxOpen s"
  shows "region_inv (s\<lparr>rg_world := w, rg_recent := region # rg_recent s, rg_images := AList.update region img (rg_images s)\<rparr>)"
proof -
  have "opened (rg_geometry s) (rg_layout s) r w i" if "map_of (AList.update region img (rg_images s)) r = Some i" for r i
    using that assms(1,4) opened_fx [OF _ assms(2), of "rg_geometry s" "rg_layout s" r i]
    by (auto simp: region_inv_def update_conv' split: if_splits)
  moreover have "region \<notin> set (rg_recent s)" using assms(3) open_iff [OF assms(1)] by blast
  ultimately show ?thesis using assms(1,5) by (auto simp: region_inv_def distinct_update dom_update)
qed

lemma region_inv_files:
  assumes "region_inv s" "fx A (rg_world s) w" "\<And>region. [imageName region] \<in> A \<Longrightarrow> map_of (rg_images s) region = None"
  shows "region_inv (s\<lparr>rg_world := w\<rparr>)"
proof -
  have "opened (rg_geometry s) (rg_layout s) r w i" if "map_of (rg_images s) r = Some i" for r i
    using that assms(1,3) opened_fx [OF _ assms(2), of "rg_geometry s" "rg_layout s" r i] by (fastforce simp: region_inv_def)
  then show ?thesis using assms(1) by (simp add: region_inv_def)
qed


section \<open>Acquiring an image\<close>

text \<open>What acquiring the image of a region does, on every outcome.\<close>

definition acquires :: "Coord \<Rightarrow> bool \<Rightarrow> regionStore \<Rightarrow> unit result \<Rightarrow> regionStore \<Rightarrow> bool" where
  "acquires region create s r s' \<longleftrightarrow>
     (let p = [imageName region]; g = rg_geometry s; l = rg_layout s
      in region_inv s' \<and> same_conf s s' \<and> fx {p} (rg_world s) (rg_world s') \<and>
         (\<not> create \<longrightarrow> content (rg_world s') p = content (rg_world s) p) \<and>
         (case r of
            Inr _ \<Rightarrow> map_of (rg_images s') region \<noteq> None \<and>
              (\<forall>M. region_holds g l region (content (rg_world s) p) M \<longrightarrow> region_holds g l region (content (rg_world s') p) M)
          | Inl e \<Rightarrow> (errors_is e ErrNotExist \<or> errors_is e ErrImageUnpublished \<longrightarrow> unborn (content (rg_world s) p)) \<and>
              (flawless (rg_world s) \<and> \<not> is_dir (rg_world s) p \<and> unborn (content (rg_world s) p) \<and> \<not> create \<longrightarrow>
                 errors_is e ErrNotExist \<or> errors_is e ErrImageUnpublished) \<and>
              (flawless (rg_world s) \<and> \<not> is_dir (rg_world s) p \<and> (create \<or> \<not> unborn (content (rg_world s) p)) \<longrightarrow>
                 (\<nexists>M. region_holds g l region (content (rg_world s) p) M))))"

lemma open_unborn:
  assumes "openRegionImage p region g l False w = (r, w')" "flawless w" "\<not> is_dir w p" "unborn (content w p)"
  shows "r = Inl [ErrNotExist] \<or> r = Inl [ErrImageUnpublished]"
  using assms
  by (auto simp: unborn_def openRegionImage_def open_body_def os_open_file_def os_size_def os_noop_def os_call_def flawless_def
      andThen_def catch_def raise_def is_dir_def Let_def split: if_splits)

lemma acquires_open:
  assumes o: "openRegionImage [imageName region] region (rg_geometry s) (rg_layout s) create (rg_world s) = (q, w)"
    and inv: "region_inv s" "map_of (rg_images s) region = None" "int (length (rg_recent s)) < rg_maxOpen s"
    and q: "case q of Inl e \<Rightarrow> r = Inl e \<and> s' = s\<lparr>rg_world := w\<rparr>
      | Inr img \<Rightarrow> r = Inr () \<and> s' = s\<lparr>rg_world := w, rg_recent := region # rg_recent s, rg_images := AList.update region img (rg_images s)\<rparr>"
  shows "acquires region create s r s'"
proof -
  have x: "exact_layout (rg_geometry s) (rg_layout s)" using inv(1) by (simp add: region_inv_def)
  note e = openRegionImage_outcome [OF o x]
  show ?thesis
  proof (cases q)
    case (Inl err)
    then have "region_inv s'" using region_inv_files [OF inv(1) e(1)] inv(2) q by auto
    moreover have "errors_is err ErrNotExist \<or> errors_is err ErrImageUnpublished"
      if "flawless (rg_world s)" "\<not> is_dir (rg_world s) [imageName region]" "unborn (content (rg_world s) [imageName region])" "\<not> create"
      using open_unborn [of "[imageName region]"] o that Inl by (force simp: errors_is_def)
    ultimately show ?thesis using q Inl e(1,2,5) e(6) by (auto simp: acquires_def same_conf_def region_holds_def Let_def)
  next
    case (Inr img)
    have "region_inv s'" using region_inv_push [OF inv(1) e(1) inv(2) e(3) [OF Inr] inv(3)] q Inr by simp
    moreover have "region_holds (rg_geometry s) (rg_layout s) region (content (rg_world s) [imageName region]) M \<Longrightarrow>
        region_holds (rg_geometry s) (rg_layout s) region (content w [imageName region]) M" for M
      using e(4) [OF Inr] by (auto simp: region_holds_def)
    ultimately show ?thesis using q Inr e(1,2) by (auto simp: acquires_def same_conf_def update_conv')
  qed
qed

lemma acquires_early:
  assumes "same_conf s t" "fx {} (rg_world s) (rg_world t)" "acquires region create t r s'"
  shows "acquires region create s r s'"
  using assms fx_trans [of "{}" "rg_world s" "rg_world t" "{[imageName region]}" "rg_world s'" "{[imageName region]}"]
    fx_content [OF assms(2), of "[imageName region]"] fx_flawless [OF assms(2)] fx_is_dir [OF assms(2)]
  by (auto simp: acquires_def same_conf_def Let_def split: sum.splits)

lemma acquireImage_acquires:
  assumes "acquireImage region create s = (r, s')" "region_inv s"
  shows "acquires region create s r s'"
proof (cases "map_of (rg_images s) region = None")
  case False
  then have s': "r = Inr ()" "s' = s\<lparr>rg_recent := region # remove1 region (rg_recent s)\<rparr>" using assms(1) by (simp_all add: acquireImage_def)
  have m: "region \<in> set (rg_recent s)" using False open_iff [OF assms(2)] by blast
  then have "length (region # remove1 region (rg_recent s)) = length (rg_recent s)" "set (region # remove1 region (rg_recent s)) = set (rg_recent s)"
    using assms(2) length_pos_if_in_set [OF m] by (auto simp: length_remove1 region_inv_def)
  then have "region_inv s'" using assms(2) by (simp add: s' region_inv_def)
  then show ?thesis using s' False by (simp add: acquires_def same_conf_def)
next
  case True
  have t: "andThen (\<lambda>s. if rg_maxOpen s \<le> int (length (rg_recent s)) then evictImage s else (Inr (), s))
      (\<lambda>_. andThen (\<lambda>s. on_disk (openRegionImage [imageName region] region (rg_geometry s) (rg_layout s) create) s)
        (\<lambda>img. update (\<lambda>s. s\<lparr>rg_recent := region # rg_recent s, rg_images := AList.update region img (rg_images s)\<rparr>))) s = (r, s')"
    using assms(1) True by (simp add: acquireImage_def)
  show ?thesis using t
  proof (cases rule: andThen_result)
    case (failed e)
    then have f: "evictImage s = (Inl e, s')" by (auto split: if_splits)
    note ev = evict_outcome [OF f assms(2)]
    show ?thesis using ev(1,2,4,5) fx_trans [OF ev(3) fx_refl [of "{}"], of "{[imageName region]}"] fx_content [OF ev(3)] failed(2)
      by (auto simp: acquires_def errors_is_def Let_def)
  next
    case (went u t)
    have room: "region_inv t \<and> same_conf s t \<and> fx {} (rg_world s) (rg_world t) \<and> int (length (rg_recent t)) < rg_maxOpen t \<and> set (rg_recent t) \<subseteq> set (rg_recent s)"
    proof (cases "rg_maxOpen s \<le> int (length (rg_recent s))")
      case True
      then have f: "evictImage s = (Inr u, t)" using went(1) by simp
      show ?thesis using evict_outcome(1,2,3,6,7) [OF f assms(2)] by simp
    next
      case False
      then show ?thesis using went(1) assms(2) by (simp add: same_conf_def)
    qed
    then have n: "map_of (rg_images t) region = None" using True open_iff [of t region] open_iff [OF assms(2), of region] by blast
    obtain q w where o: "openRegionImage [imageName region] region (rg_geometry t) (rg_layout t) create (rg_world t) = (q, w)" by fastforce
    have "case q of Inl e \<Rightarrow> r = Inl e \<and> s' = t\<lparr>rg_world := w\<rparr>
      | Inr img \<Rightarrow> r = Inr () \<and> s' = t\<lparr>rg_world := w, rg_recent := region # rg_recent t, rg_images := AList.update region img (rg_images t)\<rparr>"
      using went(2) o by (cases q) (simp_all add: andThen_def catch_def on_disk_def raise_def update_def)
    then have "acquires region create t r s'" using acquires_open [OF o _ n] room by blast
    then show ?thesis using acquires_early room by blast
  qed
qed


section \<open>Reads and writes of chunks\<close>

definition region_rep :: "regionStore \<Rightarrow> (Coord \<Rightarrow> Chunk option) \<Rightarrow> Coord set \<Rightarrow> bool" where
  "region_rep s M B \<longleftrightarrow>
     region_inv s \<and> (\<forall>c ch. M c = Some ch \<longrightarrow> wf_chunk ch \<and> chunk_geometry ch = rg_geometry s) \<and>
     (\<forall>region. region \<notin> B \<longrightarrow> region_holds (rg_geometry s) (rg_layout s) region (content (rg_world s) [imageName region]) M)"

definition no_dirs :: "world \<Rightarrow> bool" where
  "no_dirs w \<longleftrightarrow> (\<forall>region. \<not> is_dir w [imageName region])"

lemma region_inv_put:
  assumes "region_inv s" "map_of (rg_images s) region = Some img0" "opened (rg_geometry s) (rg_layout s) region w img"
    and "fx {[imageName region]} (rg_world s) w"
  shows "region_inv (s\<lparr>rg_images := AList.update region img (rg_images s), rg_world := w\<rparr>)"
proof -
  have "opened (rg_geometry s) (rg_layout s) r w i" if "map_of (AList.update region img (rg_images s)) r = Some i" for r i
    using that assms(1,3) opened_fx [OF _ assms(4), of "rg_geometry s" "rg_layout s" r i] by (auto simp: region_inv_def update_conv' split: if_splits)
  moreover have "insert region (fst ` set (rg_images s)) = fst ` set (rg_images s)" using assms(2) by (force dest: map_of_SomeD)
  ultimately show ?thesis using assms(1) by (auto simp: region_inv_def distinct_update dom_update)
qed

lemma region_rep_acquired:
  assumes "acquires region create s r s'" "region_rep s M B" "create \<longrightarrow> r = Inr () \<or> region \<in> B"
  shows "region_rep s' M B"
proof -
  have "region_holds (rg_geometry s) (rg_layout s) q (content (rg_world s') [imageName q]) M" if q: "q \<notin> B" for q
  proof (cases "q = region")
    case True
    then show ?thesis using assms q by (cases r) (auto simp: acquires_def region_rep_def Let_def)
  next
    case False
    then show ?thesis using assms(1,2) q fx_content [of "{[imageName region]}" "rg_world s" "rg_world s'" "[imageName q]"]
      by (auto simp: acquires_def region_rep_def Let_def)
  qed
  then show ?thesis using assms(1,2) by (simp add: acquires_def region_rep_def same_conf_def Let_def)
qed

lemma readSlot_frame:
  assumes "readSlot i (img, w) = (r, (img', w'))"
  shows "img' = img \<and> fx {} w w'"
  using assms
  by (auto simp: readSlot_def andThen_def catch_def raise_def ret_def or_corrupt_def on_file_def split: if_splits prod.splits sum.splits
      dest: read_at_effect(1))

lemma chunk_of_bytes:
  assumes "wf_chunk ch" "chunk_geometry ch = g"
  shows "ChunkFromState g (take (payloadBytes g) (chunk_bytes ch)) (drop (payloadBytes g) (chunk_bytes ch)) = Inr ch"
  using ChunkFromState_wf_chunk [OF assms(1)] wf_chunk_lengths [OF assms(1)] by (simp add: chunk_bytes_def assms(2))

text \<open>What a read of the slot of a chunk returns.\<close>

lemma read_image_outcome:
  assumes m: "on_image region (readSlot i) s = (r, s')" and rep: "region_rep s M B" and loc: "locate (rg_geometry s) c = (region, i)"
    and op: "map_of (rg_images s) region \<noteq> None"
  shows "region_rep s' M B" "same_conf s s'" "fx {} (rg_world s) (rg_world s')"
    and "region \<notin> B \<Longrightarrow> r \<in> {case M c of None \<Rightarrow> Inl [ErrSlotAbsent] | Some ch \<Rightarrow> Inr (chunk_bytes ch), Inl [ErrCorrupt]} \<and>
      (r = Inl [ErrCorrupt] \<longrightarrow> \<not> flawless (rg_world s))"
proof -
  obtain img where img: "map_of (rg_images s) region = Some img" using op by blast
  obtain q img' w where rd: "readSlot i (img, rg_world s) = (q, (img', w))" by (metis prod.collapse)
  note f = readSlot_frame [OF rd]
  have inv: "region_inv s" using rep by (simp add: region_rep_def)
  have s': "r = q" "s' = s\<lparr>rg_images := AList.update region img (rg_images s), rg_world := w\<rparr>"
    using m img rd f by (simp_all add: on_image_def)
  have o: "opened (rg_geometry s) (rg_layout s) region (rg_world s) img" using inv img by (simp add: region_inv_def)
  have fp: "fx {[imageName region]} (rg_world s) w" using f fx_trans [of "{}" "rg_world s" w "{}" w] by auto
  have "region_inv s'" unfolding s' using region_inv_put [OF inv img opened_fx [OF o conjunct2 [OF f]] fp] by simp
  moreover have "content w = content (rg_world s)" using f fx_content [of "{}" "rg_world s" w] by (simp add: fun_eq_iff)
  ultimately show "region_rep s' M B" using rep by (simp add: region_rep_def s')
  show "same_conf s s'" by (simp add: same_conf_def s')
  show "fx {} (rg_world s) (rg_world s')" using f by (simp add: s')
  assume "region \<notin> B"
  then obtain S where S: "file_holds (rg_geometry s) (rg_layout s) region (content (rg_world s) [imageName region]) S" "S (unat i) = map_option chunk_bytes (M c)"
    using rep loc by (auto simp: region_rep_def region_holds_def)
  have x: "exact_layout (rg_geometry s) (rg_layout s)" "unat i < slots_of (rg_geometry s)"
    using inv locate_index(3) [OF _ loc] by (simp_all add: region_inv_def)
  obtain d dir where d: "content (rg_world s) [imageName region] = Some d" "img = region_image (rg_layout s) region dir"
      "image_ok (rg_geometry s) region (rg_layout s) d dir" "slot_holds (rg_geometry s) d dir (unat i) (map_option chunk_bytes (M c))"
    using opened_holds [OF o S(1)] S(2) x(2) by metis
  show "r \<in> {case M c of None \<Rightarrow> Inl [ErrSlotAbsent] | Some ch \<Rightarrow> Inr (chunk_bytes ch), Inl [ErrCorrupt]} \<and> (r = Inl [ErrCorrupt] \<longrightarrow> \<not> flawless (rg_world s))"
    using readSlot_outcome [OF rd x d] s'(1) by (cases "M c") auto
qed


definition read_answer :: "Chunk option \<Rightarrow> Chunk result" where
  "read_answer v = (case v of None \<Rightarrow> Inl [ErrNotExist] | Some ch \<Rightarrow> Inr ch)"

text \<open>A read may fail for a reason of its own, but it never tells anything wrong.\<close>

definition told_truly :: "Chunk option \<Rightarrow> Chunk result \<Rightarrow> bool" where
  "told_truly v r \<longleftrightarrow> r = read_answer v \<or> (\<exists>e. r = Inl e \<and> \<not> errors_is e ErrNotExist)"

lemma same_conf_trans: "same_conf s t \<Longrightarrow> same_conf t u \<Longrightarrow> same_conf s u"
  by (simp add: same_conf_def)

lemma acquires_reads: "acquires region False s r s' \<Longrightarrow> fx {} (rg_world s) (rg_world s')"
  unfolding acquires_def fx_def Let_def by (metis singletonD)

text \<open>The two parts of \<^verbatim>\<open>ReadChunk\<close>: no image, and an open image.\<close>

definition reads :: "Coord \<Rightarrow> (Coord \<Rightarrow> Chunk option) \<Rightarrow> Coord set \<Rightarrow> regionStore \<Rightarrow> Chunk result \<Rightarrow> regionStore \<Rightarrow> bool" where
  "reads c M B s r s' \<longleftrightarrow>
     region_rep s' M B \<and> same_conf s s' \<and> fx {} (rg_world s) (rg_world s') \<and>
     (fst (locate (rg_geometry s) c) \<notin> B \<longrightarrow> told_truly (M c) r \<and>
        (flawless (rg_world s) \<and> no_dirs (rg_world s) \<and> \<not> rg_closed s \<longrightarrow> r = read_answer (M c)))"

lemma reads_without_image:
  assumes a: "acquireImage region False s = (Inl e, s')" and rep: "region_rep s M B" and loc: "locate (rg_geometry s) c = (region, i)"
    and r: "r = Inl (if errors_is e ErrNotExist \<or> errors_is e ErrImageUnpublished then absentChunkError else e)"
  shows "reads c M B s r s'"
proof -
  let ?f = "content (rg_world s) [imageName region]"
  have g: "wf_geometry (rg_geometry s)" and inv: "region_inv s" using rep by (simp_all add: region_rep_def region_inv_def)
  note ac = acquireImage_acquires [OF a inv]
  have k: "region_rep s' M B" "same_conf s s'" using region_rep_acquired [OF ac rep] ac by (simp_all add: acquires_def Let_def)
  have h: "region_holds (rg_geometry s) (rg_layout s) region ?f M" if "region \<notin> B" using rep that by (simp add: region_rep_def)
  have u: "errors_is e ErrNotExist \<or> errors_is e ErrImageUnpublished \<Longrightarrow> unborn ?f"
    and calm: "flawless (rg_world s) \<Longrightarrow> no_dirs (rg_world s) \<Longrightarrow> region \<notin> B \<Longrightarrow> errors_is e ErrNotExist \<or> errors_is e ErrImageUnpublished"
    using ac h by (auto simp: acquires_def no_dirs_def Let_def)
  have none: "M c = None" if "region \<notin> B" "errors_is e ErrNotExist \<or> errors_is e ErrImageUnpublished"
    using region_holds_unborn [OF g h [OF that(1)] u [OF that(2)] loc] .
  show ?thesis
  proof (cases "errors_is e ErrNotExist \<or> errors_is e ErrImageUnpublished")
    case True
    then show ?thesis using k acquires_reads [OF ac] none loc r by (auto simp: reads_def told_truly_def read_answer_def absentChunkError_def)
  next
    case False
    then have "\<not> (region \<notin> B \<and> flawless (rg_world s) \<and> no_dirs (rg_world s))" using calm by blast
    then show ?thesis using k acquires_reads [OF ac] loc r False by (auto simp: reads_def told_truly_def)
  qed
qed

lemma reads_open_image:
  assumes a: "acquireImage region False s = (Inr (), t)" and m: "on_image region (readSlot i) t = (q, s')"
    and rep: "region_rep s M B" and loc: "locate (rg_geometry s) c = (region, i)" and g: "g = rg_geometry s"
    and r: "r = (case q of Inl e \<Rightarrow> Inl (if errors_is e ErrSlotAbsent then absentChunkError else e)
      | Inr state \<Rightarrow> on_err [ErrCorrupt] (ChunkFromState g (take (payloadBytes g) state) (drop (payloadBytes g) state)) Inr)"
  shows "reads c M B s r s'"
proof -
  have inv: "region_inv s" using rep by (simp add: region_rep_def)
  note ac = acquireImage_acquires [OF a inv]
  have k: "region_rep t M B" "same_conf s t" "map_of (rg_images t) region \<noteq> None"
    using region_rep_acquired [OF ac rep] ac by (simp_all add: acquires_def Let_def)
  have loc': "locate (rg_geometry t) c = (region, i)" using loc k(2) by (simp add: same_conf_def)
  note o = read_image_outcome [OF m k(1) loc' k(3)]
  have fx: "fx {} (rg_world s) (rg_world s')" using fx_trans [OF acquires_reads [OF ac] o(3)] by simp
  have wf: "M c = Some ch \<Longrightarrow> ChunkFromState g (take (payloadBytes g) (chunk_bytes ch)) (drop (payloadBytes g) (chunk_bytes ch)) = Inr ch" for ch
    using rep chunk_of_bytes [of ch g] by (simp add: region_rep_def g)
  have "told_truly (M c) r \<and> (flawless (rg_world s) \<longrightarrow> r = read_answer (M c))" if B: "region \<notin> B"
  proof (cases "q = Inl [ErrCorrupt]")
    case True
    then show ?thesis using o(4) [OF B] fx_flawless [OF acquires_reads [OF ac]] r by (auto simp: told_truly_def errors_is_def)
  next
    case False
    then have "q = (case M c of None \<Rightarrow> Inl [ErrSlotAbsent] | Some ch \<Rightarrow> Inr (chunk_bytes ch))" using o(4) [OF B] by simp
    then have "r = read_answer (M c)" using r wf by (cases "M c") (simp_all add: read_answer_def absentChunkError_def errors_is_def)
    then show ?thesis by (simp add: told_truly_def)
  qed
  then show ?thesis using o(1) same_conf_trans [OF k(2) o(2)] fx loc by (simp add: reads_def)
qed

lemma read_chunk_reads:
  assumes r: "region_ReadChunk c s = (r, s')" and rep: "region_rep s M B"
  shows "reads c M B s r s'"
proof (cases "rg_closed s")
  case True
  then show ?thesis using r rep by (auto simp: region_ReadChunk_def reads_def same_conf_def told_truly_def errors_is_def)
next
  case False
  obtain region i where loc: "locate (rg_geometry s) c = (region, i)" by fastforce
  have t: "catch (acquireImage region False)
      (\<lambda>err. if errors_is err ErrNotExist \<or> errors_is err ErrImageUnpublished then raise absentChunkError else raise err)
      (\<lambda>_. catch (on_image region (readSlot i))
        (\<lambda>err. if errors_is err ErrSlotAbsent then raise absentChunkError else raise err)
        (\<lambda>state s. (on_err [ErrCorrupt]
           (ChunkFromState (rg_geometry s) (take (payloadBytes (rg_geometry s)) state) (drop (payloadBytes (rg_geometry s)) state)) Inr, s))) s = (r, s')"
    using r False loc by (simp add: region_ReadChunk_def)
  show ?thesis using t
  proof (cases rule: catch_result)
    case (caught e t)
    then show ?thesis using reads_without_image [OF _ rep loc, of e s' r] by (auto simp: raise_def split: if_splits)
  next
    case (went u t)
    obtain q t2 where m: "on_image region (readSlot i) t = (q, t2)" by fastforce
    have inv: "region_inv s" using rep by (simp add: region_rep_def)
    have "same_conf s t" using acquireImage_acquires [OF went(1) inv] by (simp add: acquires_def Let_def)
    moreover have "rg_geometry t2 = rg_geometry t" using m by (auto simp: on_image_def split: option.splits prod.splits)
    ultimately have gt: "rg_geometry t2 = rg_geometry s" by (simp add: same_conf_def)
    have "t2 = s'" "r = (case q of Inl e \<Rightarrow> Inl (if errors_is e ErrSlotAbsent then absentChunkError else e)
      | Inr state \<Rightarrow> on_err [ErrCorrupt] (ChunkFromState (rg_geometry s) (take (payloadBytes (rg_geometry s)) state) (drop (payloadBytes (rg_geometry s)) state)) Inr)"
      using went(2) m gt by (cases q; auto simp: catch_def raise_def split: if_splits)+
    then show ?thesis using reads_open_image [OF _ m rep loc refl] went(1) by simp
  qed
qed


lemma region_inv_forget: "region_inv s \<Longrightarrow> region_inv (forget_image region s)"
  using length_remove1 [of region "rg_recent s"]
  by (auto simp: region_inv_def forget_image_def distinct_delete keys_delete delete_conv')

text \<open>What a write of a chunk does.\<close>

definition writes :: "Coord \<Rightarrow> Chunk \<Rightarrow> (Coord \<Rightarrow> Chunk option) \<Rightarrow> Coord set \<Rightarrow> regionStore \<Rightarrow> unit result \<Rightarrow> regionStore \<Rightarrow> bool" where
  "writes c ch M B s r s' \<longleftrightarrow>
     (let region = fst (locate (rg_geometry s) c)
      in same_conf s s' \<and> fx {[imageName region]} (rg_world s) (rg_world s') \<and>
         (case r of
            Inr _ \<Rightarrow> region_rep s' (M(c := Some ch)) B
          | Inl _ \<Rightarrow> region_rep s' M (insert region B) \<and>
              \<not> (region \<notin> B \<and> flawless (rg_world s) \<and> no_dirs (rg_world s) \<and> \<not> rg_closed s \<and> chunk_geometry ch = rg_geometry s)))"

lemma region_rep_spoil: "region_rep s M B \<Longrightarrow> B \<subseteq> C \<Longrightarrow> region_rep s M C"
  by (auto simp: region_rep_def)

lemma region_rep_elsewhere:
  assumes "region_rep s M B" "region_inv s'" "same_conf s s'" "fx {[imageName region]} (rg_world s) (rg_world s')"
  shows "region_rep s' M (insert region B)"
  using assms fx_content [OF assms(4)] by (simp add: region_rep_def same_conf_def)

text \<open>The open image is written: the file holds the new chunk, or the image is discarded.\<close>

lemma region_holds_write:
  assumes g: "wf_geometry g" and loc: "locate g c = (region, i)" and h: "file_holds g l region file S" "\<not> unborn file"
    and S: "\<And>c i. locate g c = (region, i) \<Longrightarrow> S (unat i) = map_option chunk_bytes (M c)"
    and w: "\<And>d dir. file = Some d \<Longrightarrow> image_ok g region l d dir \<Longrightarrow> \<exists>d' dir'. file' = Some d' \<and> image_ok g region l d' dir' \<and>
      (\<forall>j p. j < slots_of g \<longrightarrow> slot_holds g d dir j p \<longrightarrow> slot_holds g d' dir' j (if j = unat i then Some (chunk_bytes ch) else p))"
  shows "region_holds g l region file' (M(c := Some ch))"
proof -
  obtain d dir where d: "file = Some d" "image_ok g region l d dir" "\<And>j. j < slots_of g \<Longrightarrow> slot_holds g d dir j (S j)"
    using h by (auto simp: file_holds_def)
  obtain d' dir' where d': "file' = Some d'" "image_ok g region l d' dir'"
      "\<And>j. j < slots_of g \<Longrightarrow> slot_holds g d' dir' j (if j = unat i then Some (chunk_bytes ch) else S j)"
    using w [OF d(1,2)] d(3) by blast
  define S' where "S' = S(unat i := Some (chunk_bytes ch))"
  have "\<not> unborn file'" using d'(1,2) by (auto simp: unborn_def image_ok_def image_size_def)
  moreover have "\<forall>j < slots_of g. slot_holds g d' dir' j (S' j)" using d'(3) by (simp add: S'_def fun_upd_def)
  ultimately have "file_holds g l region file' S'" unfolding file_holds_def using d'(1,2) by auto
  moreover have "S' (unat j) = map_option chunk_bytes ((M(c := Some ch)) c')" if "locate g c' = (region, j)" for c' j
    using that loc S [OF that] locate_inject [OF g, of c c'] by (auto simp: S'_def word_unat_eq_iff)
  ultimately show ?thesis unfolding region_holds_def by blast
qed

lemma write_image_outcome:
  assumes m: "on_image region (writeSlot i (chunk_bytes ch)) s = (r, t)" and rep: "region_rep s M B" and loc: "locate (rg_geometry s) c = (region, i)"
    and op: "map_of (rg_images s) region \<noteq> None" and ch: "wf_chunk ch" "chunk_geometry ch = rg_geometry s"
  shows "same_conf s t" "fx {[imageName region]} (rg_world s) (rg_world t)" "flawless (rg_world s) \<Longrightarrow> r = Inr ()"
    and "r = Inr () \<Longrightarrow> region_rep t (M(c := Some ch)) B"
    and "\<exists>img. map_of (rg_images t) region = Some img" "forget_image region t = (forget_image region s)\<lparr>rg_world := rg_world t\<rparr>"
proof -
  obtain img where img: "map_of (rg_images s) region = Some img" using op by blast
  obtain img' w where wr: "writeSlot i (chunk_bytes ch) (img, rg_world s) = (r, (img', w))" and t: "t = s\<lparr>rg_images := AList.update region img' (rg_images s), rg_world := w\<rparr>"
    using m img by (auto simp: on_image_def split: prod.splits)
  have inv: "region_inv s" and g: "wf_geometry (rg_geometry s)" using rep by (simp_all add: region_rep_def region_inv_def)
  have x: "exact_layout (rg_geometry s) (rg_layout s)" "unat i < slots_of (rg_geometry s)" "length (chunk_bytes ch) = slot_size (rg_geometry s)"
    using inv locate_index(3) [OF g loc] wf_chunk_lengths [OF ch(1)] ch(2) by (simp_all add: region_inv_def chunk_bytes_def slot_size_def)
  obtain d dir where d: "content (rg_world s) [imageName region] = Some d" "img = region_image (rg_layout s) region dir" "image_ok (rg_geometry s) region (rg_layout s) d dir"
    using inv img unfolding region_inv_def opened_def by blast
  note o = writeSlot_outcome [OF wr x(1,2) d x(3)]
  show "same_conf s t" "fx {[imageName region]} (rg_world s) (rg_world t)" "flawless (rg_world s) \<Longrightarrow> r = Inr ()"
    using o(1,2) by (simp_all add: t same_conf_def)
  show "\<exists>img. map_of (rg_images t) region = Some img" by (simp add: t update_conv')
  show "forget_image region t = (forget_image region s)\<lparr>rg_world := rg_world t\<rparr>" by (simp add: t forget_image_def delete_update_same)
  assume r: "r = Inr ()"
  note o4 = o(4) [OF r]
  then have "opened (rg_geometry s) (rg_layout s) region w img'" by (auto simp: opened_def)
  then have inv': "region_inv t" using region_inv_put [OF inv img _ o(1)] t by simp
  have nb: "\<not> unborn (Some d)" using d(3) by (auto simp: unborn_def image_ok_def image_size_def)
  have "region_holds (rg_geometry s) (rg_layout s) q (content w [imageName q]) (M(c := Some ch))" if q: "q \<notin> B" for q
  proof (cases "q = region")
    case True
    then obtain S where S: "file_holds (rg_geometry s) (rg_layout s) region (Some d) S" "\<And>c i. locate (rg_geometry s) c = (region, i) \<Longrightarrow> S (unat i) = map_option chunk_bytes (M c)"
      using rep q d(1) by (auto simp: region_rep_def region_holds_def)
    have "region_holds (rg_geometry s) (rg_layout s) region (content w [imageName region]) (M(c := Some ch))"
    proof (rule region_holds_write [OF g loc S(1) nb S(2)])
      fix e dir' assume e: "Some d = Some e" "image_ok (rg_geometry s) region (rg_layout s) e dir'"
      then have same: "dir' = dir" "e = d" using d(3) by (simp_all add: image_ok_def)
      show "\<exists>d' dir''. content w [imageName region] = Some d' \<and> image_ok (rg_geometry s) region (rg_layout s) d' dir'' \<and>
        (\<forall>j p. j < slots_of (rg_geometry s) \<longrightarrow> slot_holds (rg_geometry s) e dir' j p \<longrightarrow> slot_holds (rg_geometry s) d' dir'' j (if j = unat i then Some (chunk_bytes ch) else p))"
        unfolding same using o4 by blast
    qed
    then show ?thesis using True by simp
  next
    case False
    then have "region_holds (rg_geometry s) (rg_layout s) q (content w [imageName q]) M" using rep q fx_content [OF o(1), of "[imageName q]"] by (simp add: region_rep_def)
    then show ?thesis using False loc by (intro region_holds_elsewhere) auto
  qed
  then show "region_rep t (M(c := Some ch)) B" using rep inv' ch by (simp add: region_rep_def t)
qed


lemma write_chunk_writes:
  assumes r: "region_WriteChunk c (Some ch) s = (r, s')" and rep: "region_rep s M B" and ch: "wf_chunk ch"
  shows "writes c ch M B s r s'"
proof (cases "chunk_geometry ch \<noteq> rg_geometry s \<or> rg_closed s")
  case True
  then have "s' = s" "\<exists>e. r = Inl e" using r by (auto simp: region_WriteChunk_def split: if_splits)
  then show ?thesis using True region_rep_spoil [OF rep subset_insertI] by (auto simp: writes_def same_conf_def Let_def)
next
  case False
  obtain region i where loc: "locate (rg_geometry s) c = (region, i)" by fastforce
  have inv: "region_inv s" using rep by (simp add: region_rep_def)
  have t: "andThen (acquireImage region True) (\<lambda>_.
      catch (on_image region (writeSlot i (chunk_bytes ch)))
        (\<lambda>err. catch (discardImage region) (\<lambda>err'. raise (err @ err')) (\<lambda>_. raise err)) ret) s = (r, s')"
    using r False loc by (simp add: region_WriteChunk_def chunk_bytes_def)
  show ?thesis using t
  proof (cases rule: andThen_result)
    case (failed e)
    note a = acquireImage_acquires [OF failed(1) inv]
    have "region_rep s' M (insert region B)" using region_rep_elsewhere [OF rep] a by (simp add: acquires_def Let_def)
    then show ?thesis using a failed(2) loc rep by (auto simp: writes_def acquires_def region_rep_def no_dirs_def Let_def)
  next
    case (went u t)
    note a = acquireImage_acquires [OF went(1) inv]
    have k: "region_rep t M B" "same_conf s t" "map_of (rg_images t) region \<noteq> None" "fx {[imageName region]} (rg_world s) (rg_world t)"
      using region_rep_acquired [OF a rep] a by (simp_all add: acquires_def Let_def)
    have loc': "locate (rg_geometry t) c = (region, i)" "chunk_geometry ch = rg_geometry t" using loc k(2) False by (simp_all add: same_conf_def)
    show ?thesis using went(2)
    proof (cases rule: catch_result)
      case (went v t2)
      note o = write_image_outcome [OF went(1) k(1) loc'(1) k(3) ch loc'(2)]
      show ?thesis using went(2) o(4) same_conf_trans [OF k(2) o(1)] fx_trans [OF k(4) o(2)] loc by (auto simp: writes_def ret_def Let_def)
    next
      case (caught e t2)
      note o = write_image_outcome [OF caught(1) k(1) loc'(1) k(3) ch loc'(2)]
      obtain img q w where img: "map_of (rg_images t2) region = Some img" and c: "os_noop (OsClose (im_file img)) (rg_world t2) = (q, w)"
        using o(5) by fastforce
      note ce = close_effect [OF c]
      have s': "s' = (forget_image region t)\<lparr>rg_world := w\<rparr>" "r = Inl e"
        using caught(2) img c ce(2) o(6)
        by (cases q; auto simp: catch_def raise_def discardImage_def on_disk_def image_close_def on_file_def)+
      have fx: "fx {[imageName region]} (rg_world t) w" using fx_trans [OF o(2) ce(1)] by simp
      have "region_inv s'" unfolding s'(1)
        by (rule region_inv_files [OF region_inv_forget, of t "{[imageName region]}"])
          (use k(1) fx in \<open>auto simp: region_rep_def forget_image_def delete_conv'\<close>)
      moreover have "same_conf t s'" by (simp add: s' same_conf_def forget_image_def)
      ultimately have "region_rep s' M (insert region B)" "same_conf s s'" using region_rep_elsewhere [OF k(1)] fx s' same_conf_trans [OF k(2)] by simp_all
      moreover have "\<not> flawless (rg_world s)" using o(3) fx_flawless [OF k(4)] by auto
      ultimately show ?thesis using fx_trans [OF k(4) fx] loc s' by (simp add: writes_def)
    qed
  qed
qed


section \<open>Closing and opening\<close>

lemma close_images_frame:
  assumes "close_images rs result s = (result', s')"
  shows "same_conf s s' \<and> fx {} (rg_world s) (rg_world s') \<and> (flawless (rg_world s) \<longrightarrow> set rs \<subseteq> fst ` set (rg_images s) \<longrightarrow> result' = result)"
  using assms
proof (induction rs arbitrary: result s)
  case Nil
  then show ?case by (simp add: same_conf_def)
next
  case (Cons region rs)
  obtain r t where o: "on_image region image_close s = (r, t)" by fastforce
  have k: "same_conf s t \<and> fx {} (rg_world s) (rg_world t) \<and> fst ` set (rg_images s) \<subseteq> fst ` set (rg_images t) \<and>
      (flawless (rg_world s) \<longrightarrow> region \<in> fst ` set (rg_images s) \<longrightarrow> r = Inr ())"
  proof (cases "map_of (rg_images s) region")
    case None
    then have "region \<notin> fst ` set (rg_images s)" by (simp add: map_of_eq_None_iff)
    moreover have "t = s" using o None by (simp add: on_image_def)
    ultimately show ?thesis by (simp add: same_conf_def)
  next
    case (Some img)
    obtain q w where c: "os_noop (OsClose (im_file img)) (rg_world s) = (q, w)" by fastforce
    then have "r = q" "t = s\<lparr>rg_images := AList.update region img (rg_images s), rg_world := w\<rparr>"
      using o Some by (simp_all add: on_image_def image_close_def on_file_def)
    then show ?thesis using close_effect(1,3) [OF c] subset_insertI by (simp add: same_conf_def dom_update)
  qed
  obtain result1 where c: "close_images rs result1 t = (result', s')" "r = Inr () \<longrightarrow> result1 = result"
    using Cons.prems o by (cases r) auto
  note ih = Cons.IH [OF c(1)]
  have "result' = result" if "flawless (rg_world s)" "set (region # rs) \<subseteq> fst ` set (rg_images s)"
    using ih c(2) that k fx_flawless [of "{}" "rg_world s" "rg_world t"] by auto
  moreover have "same_conf s s'" "fx {} (rg_world s) (rg_world s')"
    using ih k same_conf_trans fx_trans [of "{}" "rg_world s" "rg_world t" "{}" "rg_world s'" "{}"] by blast+
  ultimately show ?case by blast
qed

lemma region_Close_outcome:
  assumes "region_Close s = (r, s')" "region_rep s M B"
  shows "region_rep s' M B" "rg_closed s'" "rg_geometry s' = rg_geometry s" "rg_maxOpen s' = rg_maxOpen s"
    "fx {} (rg_world s) (rg_world s')" "flawless (rg_world s) \<Longrightarrow> r = Inr ()"
proof -
  have "region_rep s' M B \<and> rg_closed s' \<and> rg_geometry s' = rg_geometry s \<and> rg_maxOpen s' = rg_maxOpen s \<and> fx {} (rg_world s) (rg_world s') \<and> (flawless (rg_world s) \<longrightarrow> r = Inr ())"
  proof (cases "rg_closed s")
    case True
    then show ?thesis using assms by (simp add: region_Close_def)
  next
    case False
    obtain result t where c: "close_images (rg_recent s) None (s\<lparr>rg_closed := True\<rparr>) = (result, t)" by fastforce
    note f = conjunct1 [OF close_images_frame [OF c]] close_images_frame [OF c, THEN conjunct2, THEN conjunct1, simplified]
      close_images_frame [OF c, THEN conjunct2, THEN conjunct2, simplified, rule_format]
    have s': "s' = t\<lparr>rg_recent := [], rg_images := []\<rparr>" "r = (case result of None \<Rightarrow> Inr () | Some e \<Rightarrow> Inl e)"
      using assms(1) False c by (simp_all add: region_Close_def)
    have "result = None" if "flawless (rg_world s)" using f(3) that assms(2) by (simp add: region_rep_def region_inv_def)
    moreover have "content (rg_world t) = content (rg_world s)" using fx_content [OF f(2)] by (simp add: fun_eq_iff)
    ultimately show ?thesis using f(1,2) assms(2) s' by (simp add: region_rep_def region_inv_def same_conf_def)
  qed
  then show "region_rep s' M B" "rg_closed s'" "rg_geometry s' = rg_geometry s" "rg_maxOpen s' = rg_maxOpen s"
    "fx {} (rg_world s) (rg_world s')" "flawless (rg_world s) \<Longrightarrow> r = Inr ()" by blast+
qed

lemma OpenRegions_outcome:
  assumes "OpenRegions root g n w = (r, w')"
  shows "fx {} w w'"
    and "r = Inr s \<Longrightarrow> rg_world s = w' \<and> rg_geometry s = g \<and> wf_geometry g \<and> newImageLayout g = Inr (rg_layout s) \<and>
      exact_layout g (rg_layout s) \<and> region_validated n = Inr (rg_maxOpen s) \<and> \<not> rg_closed s \<and> rg_images s = [] \<and> rg_recent s = []"
    and "flawless w \<Longrightarrow> root \<noteq> [] \<Longrightarrow> wf_geometry g \<Longrightarrow> newImageLayout g = Inr l \<Longrightarrow> region_validated n = Inr m \<Longrightarrow> \<exists>s. r = Inr s"
proof -
  have fx: "fx {} w (snd (os_noop (OsStat []) w))" "fx {} w (snd (os_mkdir_all [] w))"
    "flawless w \<Longrightarrow> isl (fst (os_noop (OsStat []) w)) = False \<and> isl (fst (os_mkdir_all [] w)) = False" for w
    by (auto simp: os_noop_def os_mkdir_all_def os_effects flawless_def split: fault.splits)
  have "fx {} w w' \<and> (flawless w \<longrightarrow> root \<noteq> [] \<longrightarrow> wf_geometry g \<longrightarrow> newImageLayout g = Inr l \<longrightarrow> region_validated n = Inr m \<longrightarrow> (\<exists>s. r = Inr s))"
    using assms fx(1) [of w] fx(2) [of "snd (os_noop (OsStat []) w)"] fx(3) [of w] fx(3) [of "snd (os_noop (OsStat []) w)"]
      fx_trans [of "{}" w "snd (os_noop (OsStat []) w)" "{}" "w'" "{}"] fx_flawless [OF fx(1) [of w]]
    by (auto simp: OpenRegions_def andThen_def catch_def raise_def wf_geometry_def split: if_splits sum.splits prod.splits)
  then show "fx {} w w'"
    "flawless w \<Longrightarrow> root \<noteq> [] \<Longrightarrow> wf_geometry g \<Longrightarrow> newImageLayout g = Inr l \<Longrightarrow> region_validated n = Inr m \<Longrightarrow> \<exists>s. r = Inr s" by blast+
  assume r: "r = Inr s"
  have "rg_world s = w' \<and> rg_geometry s = g \<and> geometry_New (config g) = Inr g \<and> newImageLayout g = Inr (rg_layout s) \<and>
      region_validated n = Inr (rg_maxOpen s) \<and> \<not> rg_closed s \<and> rg_images s = [] \<and> rg_recent s = []"
    using assms r by (auto simp: OpenRegions_def andThen_def catch_def raise_def split: if_splits sum.splits prod.splits)
  then show "rg_world s = w' \<and> rg_geometry s = g \<and> wf_geometry g \<and> newImageLayout g = Inr (rg_layout s) \<and>
      exact_layout g (rg_layout s) \<and> region_validated n = Inr (rg_maxOpen s) \<and> \<not> rg_closed s \<and> rg_images s = [] \<and> rg_recent s = []"
    using newImageLayout_outcome [of g] by (auto simp: wf_geometry_def)
qed


section \<open>Histories\<close>

text \<open>A sequence of calls and the replies it gets.\<close>

primrec run_calls :: "('call \<Rightarrow> 's \<Rightarrow> 'reply \<times> 's) \<Rightarrow> 'call list \<Rightarrow> 's \<Rightarrow> 'reply list \<times> 's" where
  "run_calls step [] s = ([], s)"
| "run_calls step (call # calls) s =
     (case step call s of (reply, s) \<Rightarrow> (case run_calls step calls s of (replies, s) \<Rightarrow> (reply # replies, s)))"

text \<open>\<open>history allowed a calls replies a'\<close>: the replies are allowed by an abstract machine that goes from \<open>a\<close> to \<open>a'\<close>.\<close>

inductive history :: "('a \<Rightarrow> 'call \<Rightarrow> 'reply \<Rightarrow> 'a \<Rightarrow> bool) \<Rightarrow> 'a \<Rightarrow> 'call list \<Rightarrow> 'reply list \<Rightarrow> 'a \<Rightarrow> bool" for allowed where
  history_end: "history allowed a [] [] a"
| history_call: "allowed a call reply a' \<Longrightarrow> history allowed a' calls replies a'' \<Longrightarrow> history allowed a (call # calls) (reply # replies) a''"

inductive_simps history_Nil: "history allowed a [] replies a'"
inductive_simps history_Cons: "history allowed a (call # calls) replies a'"

text \<open>A machine that refines another one answers every sequence of calls as that one allows.\<close>

locale simulation =
  fixes step :: "'call \<Rightarrow> 's \<Rightarrow> 'reply \<times> 's" and rep :: "'s \<Rightarrow> 'a \<Rightarrow> bool"
    and allowed :: "'a \<Rightarrow> 'call \<Rightarrow> 'reply \<Rightarrow> 'a \<Rightarrow> bool" and legal :: "'call \<Rightarrow> bool"
  assumes simulates: "rep s a \<Longrightarrow> legal call \<Longrightarrow> step call s = (reply, s') \<Longrightarrow> \<exists>a'. allowed a call reply a' \<and> rep s' a'"
begin

lemma run_history:
  assumes "rep s a" "list_all legal calls" "run_calls step calls s = (replies, s')"
  shows "\<exists>a'. history allowed a calls replies a' \<and> rep s' a'"
  using assms
proof (induction calls arbitrary: s a replies)
  case Nil
  then show ?case by (auto intro: history_end)
next
  case (Cons call calls)
  obtain reply t rest where s: "step call s = (reply, t)" "run_calls step calls t = (rest, s')" "replies = reply # rest"
    using Cons.prems(3) by (auto split: prod.splits)
  obtain a1 where a1: "allowed a call reply a1" "rep t a1" using simulates [OF Cons.prems(1) _ s(1)] Cons.prems(2) by auto
  then obtain a' where "history allowed a1 calls rest a'" "rep s' a'" using Cons.IH [OF _ _ s(2)] Cons.prems(2) by auto
  then show ?case using s(3) history_call [where allowed = allowed and a = a and call = call, OF a1(1)] by blast
qed

end

section \<open>The store as a map\<close>

datatype region_call =
    CallWrite Coord "Chunk option" | CallRead Coord | CallClose
  | CallRestart "nat \<Rightarrow> oscall \<Rightarrow> fault"

datatype region_reply = Done "unit result" | Answer "Chunk result"

text \<open>A restart opens the directory again, after \<^verbatim>\<open>Close\<close> or after the process stopped, and meets new failures.\<close>

primrec region_step :: "region_call \<Rightarrow> regionStore \<Rightarrow> region_reply \<times> regionStore" where
  "region_step (CallWrite c ch) s = (case region_WriteChunk c ch s of (r, s) \<Rightarrow> (Done r, s))"
| "region_step (CallRead c) s = (case region_ReadChunk c s of (r, s) \<Rightarrow> (Answer r, s))"
| "region_step CallClose s = (case region_Close s of (r, s) \<Rightarrow> (Done r, s))"
| "region_step (CallRestart oracle) s =
     (case OpenRegions ''data'' (rg_geometry s) (rg_maxOpen s) ((rg_world s)\<lparr>w_oracle := oracle, w_halted := False\<rparr>) of
        (Inr s, w) \<Rightarrow> (Done (Inr ()), s)
      | (Inl e, w) \<Rightarrow> (Done (Inl e), s\<lparr>rg_closed := True, rg_images := [], rg_recent := [], rg_world := w\<rparr>))"

text \<open>
  The abstract machine: the chunks, the regions that a failed write may have spoiled, whether the disk works and
  whether the store is closed.
\<close>

record region_map =
  ra_chunks :: "Coord \<Rightarrow> Chunk option"
  ra_spoiled :: "Coord set"
  ra_works :: bool
  ra_closed :: bool

definition sound_region :: "Geometry \<Rightarrow> region_map \<Rightarrow> Coord \<Rightarrow> bool" where
  "sound_region g a c \<longleftrightarrow> fst (locate g c) \<notin> ra_spoiled a"

fun region_allowed :: "Geometry \<Rightarrow> region_map \<Rightarrow> region_call \<Rightarrow> region_reply \<Rightarrow> region_map \<Rightarrow> bool" where
  "region_allowed g a (CallWrite c None) (Done r) a' \<longleftrightarrow> r = Inl [] \<and> a' = a"
| "region_allowed g a (CallWrite c (Some ch)) (Done (Inr _)) a' \<longleftrightarrow>
     chunk_geometry ch = g \<and> \<not> ra_closed a \<and> a' = a\<lparr>ra_chunks := (ra_chunks a)(c := Some ch)\<rparr>"
| "region_allowed g a (CallWrite c (Some ch)) (Done (Inl e)) a' \<longleftrightarrow>
     (if chunk_geometry ch \<noteq> g then e = [ErrGeometryMismatch] \<and> a' = a
      else if ra_closed a then e = [] \<and> a' = a
      else \<not> (ra_works a \<and> sound_region g a c) \<and> a' = a\<lparr>ra_spoiled := insert (fst (locate g c)) (ra_spoiled a)\<rparr>)"
| "region_allowed g a (CallRead c) (Answer r) a' \<longleftrightarrow>
     a' = a \<and> (if ra_closed a then r = Inl []
       else sound_region g a c \<longrightarrow> told_truly (ra_chunks a c) r \<and> (ra_works a \<longrightarrow> r = read_answer (ra_chunks a c)))"
| "region_allowed g a CallClose (Done r) a' \<longleftrightarrow> (ra_works a \<longrightarrow> r = Inr ()) \<and> a' = a\<lparr>ra_closed := True\<rparr>"
| "region_allowed g a (CallRestart oracle) (Done r) a' \<longleftrightarrow>
     a' = a\<lparr>ra_works := (\<forall>n c. oracle n c = NoFault), ra_closed := (r \<noteq> Inr ())\<rparr> \<and> (ra_works a' \<longrightarrow> r = Inr ())"
| "region_allowed g a _ _ a' \<longleftrightarrow> False"

definition legal_region_call :: "region_call \<Rightarrow> bool" where
  "legal_region_call call \<longleftrightarrow> (case call of CallWrite c (Some ch) \<Rightarrow> wf_chunk ch | _ \<Rightarrow> True)"

text \<open>The store \<open>s\<close>, opened for the geometry \<open>g\<close> with at most \<open>n\<close> images, represents the abstract state \<open>a\<close>.\<close>

definition represents :: "Geometry \<Rightarrow> int \<Rightarrow> regionStore \<Rightarrow> region_map \<Rightarrow> bool" where
  "represents g n s a \<longleftrightarrow>
     region_rep s (ra_chunks a) (ra_spoiled a) \<and> rg_geometry s = g \<and> rg_maxOpen s = n \<and> newImageLayout g = Inr (rg_layout s) \<and>
     rg_closed s = ra_closed a \<and> (ra_works a \<longrightarrow> flawless (rg_world s)) \<and> no_dirs (rg_world s)"

lemma no_dirs_fx: "fx A w w' \<Longrightarrow> no_dirs w' = no_dirs w"
  by (simp add: no_dirs_def fx_is_dir)

lemma represents_write:
  assumes "represents g n s a" "region_WriteChunk c (Some ch) s = (r, s')" "wf_chunk ch"
  shows "\<exists>a'. region_allowed g a (CallWrite c (Some ch)) (Done r) a' \<and> represents g n s' a'"
proof -
  have rep: "region_rep s (ra_chunks a) (ra_spoiled a)" and conf: "rg_geometry s = g" "rg_maxOpen s = n" "newImageLayout g = Inr (rg_layout s)" "rg_closed s = ra_closed a"
    and env: "ra_works a \<longrightarrow> flawless (rg_world s)" "no_dirs (rg_world s)" using assms(1) by (simp_all add: represents_def)
  note w = write_chunk_writes [OF assms(2) rep assms(3), unfolded writes_def Let_def conf(1)]
  have early: "chunk_geometry ch \<noteq> g \<Longrightarrow> r = Inl [ErrGeometryMismatch] \<and> s' = s" "chunk_geometry ch = g \<Longrightarrow> ra_closed a \<Longrightarrow> r = Inl [] \<and> s' = s"
    using assms(2) conf by (auto simp: region_WriteChunk_def)
  have env': "ra_works a \<longrightarrow> flawless (rg_world s')" "no_dirs (rg_world s')" using w env fx_flawless no_dirs_fx by blast+
  show ?thesis
  proof (cases "chunk_geometry ch = g \<and> \<not> ra_closed a")
    case False
    then show ?thesis using early assms(1) by (cases "chunk_geometry ch = g") auto
  next
    case True
    show ?thesis
    proof (cases r)
      case (Inr u)
      then show ?thesis using w True conf env' by (simp add: represents_def same_conf_def)
    next
      case (Inl e)
      then show ?thesis using w True conf env env' by (auto simp: represents_def same_conf_def sound_region_def)
    qed
  qed
qed


lemma represents_read:
  assumes "represents g n s a" "region_ReadChunk c s = (r, s')"
  shows "region_allowed g a (CallRead c) (Answer r) a \<and> represents g n s' a"
proof -
  have rep: "region_rep s (ra_chunks a) (ra_spoiled a)" using assms(1) by (simp add: represents_def)
  note o = read_chunk_reads [OF assms(2) rep, unfolded reads_def]
  have "ra_closed a \<Longrightarrow> r = Inl []" using assms by (simp add: region_ReadChunk_def represents_def)
  moreover have "flawless (rg_world s) \<longrightarrow> flawless (rg_world s')" "no_dirs (rg_world s') = no_dirs (rg_world s)" using o fx_flawless no_dirs_fx by blast+
  ultimately show ?thesis using assms(1) o by (auto simp: represents_def same_conf_def sound_region_def)
qed

lemma represents_close:
  assumes "represents g n s a" "region_Close s = (r, s')"
  shows "\<exists>a'. region_allowed g a CallClose (Done r) a' \<and> represents g n s' a'"
proof -
  have rep: "region_rep s (ra_chunks a) (ra_spoiled a)" using assms(1) by (simp add: represents_def)
  note o = region_Close_outcome [OF assms(2) rep]
  have "rg_layout s' = rg_layout s" using assms(2) close_images_frame [of "rg_recent s" None "s\<lparr>rg_closed := True\<rparr>"]
    by (auto simp: region_Close_def same_conf_def split: if_splits prod.splits)
  then show ?thesis using assms(1) o(1-4,6) fx_flawless [OF o(5)] no_dirs_fx [OF o(5)] by (simp add: represents_def)
qed

lemma region_rep_reopened:
  assumes "region_rep s M B" "content (rg_world s') = content (rg_world s)" "rg_geometry s' = rg_geometry s" "rg_layout s' = rg_layout s"
    "rg_maxOpen s' = rg_maxOpen s" "rg_images s' = []" "rg_recent s' = []"
  shows "region_rep s' M B"
  using assms by (simp add: region_rep_def region_inv_def)

lemma represents_restart:
  assumes "represents g n s a" "region_step (CallRestart oracle) s = (reply, s')"
  shows "\<exists>a'. region_allowed g a (CallRestart oracle) reply a' \<and> represents g n s' a'"
proof -
  let ?w = "(rg_world s)\<lparr>w_oracle := oracle, w_halted := False\<rparr>"
  obtain r w where o: "OpenRegions ''data'' (rg_geometry s) (rg_maxOpen s) ?w = (r, w)" by fastforce
  note e = OpenRegions_outcome [OF o]
  have pos: "0 < n" "region_validated (rg_maxOpen s) = Inr (rg_maxOpen s)" "rg_maxOpen s = n" "rg_geometry s = g" "newImageLayout g = Inr (rg_layout s)" "wf_geometry g"
    using assms(1) by (auto simp: represents_def region_rep_def region_inv_def region_validated_def Let_def)
  have same: "content w = content (rg_world s)" "no_dirs w" using fx_content [OF e(1)] assms(1) no_dirs_fx [OF e(1)]
    by (auto simp: fun_eq_iff content_def represents_def no_dirs_def is_dir_def)
  have works: "flawless ?w \<longleftrightarrow> (\<forall>n c. oracle n c = NoFault)" by (simp add: flawless_def)
  have rep: "region_rep s (ra_chunks a) (ra_spoiled a)" using assms(1) by (simp add: represents_def)
  show ?thesis
  proof (cases r)
    case (Inr s1)
    then have s: "s' = s1" "reply = Done (Inr ())" using assms(2) o by simp_all
    note c = e(2) [OF Inr]
    have "region_rep s1 (ra_chunks a) (ra_spoiled a)" using c same pos by (intro region_rep_reopened [OF rep]) auto
    then have "represents g n s1 (a\<lparr>ra_works := (\<forall>n c. oracle n c = NoFault), ra_closed := False\<rparr>)"
      using c same pos fx_flawless [OF e(1)] works by (simp add: represents_def)
    then show ?thesis using s by simp
  next
    case (Inl err)
    then have s: "s' = s\<lparr>rg_closed := True, rg_images := [], rg_recent := [], rg_world := w\<rparr>" "reply = Done (Inl err)" using assms(2) o by simp_all
    have nw: "\<not> (\<forall>n c. oracle n c = NoFault)" using e(3) works pos Inl by (metis list.distinct(1) sum.distinct(1))
    have "region_rep s' (ra_chunks a) (ra_spoiled a)" using same s by (intro region_rep_reopened [OF rep]) simp_all
    then have "represents g n s' (a\<lparr>ra_works := (\<forall>n c. oracle n c = NoFault), ra_closed := True\<rparr>)"
      using s same assms(1) nw by (auto simp: represents_def)
    moreover have "region_allowed g a (CallRestart oracle) reply (a\<lparr>ra_works := (\<forall>n c. oracle n c = NoFault), ra_closed := True\<rparr>)"
      using s nw by auto
    ultimately show ?thesis by blast
  qed
qed

interpretation rs: simulation region_step "represents g n" "region_allowed g" legal_region_call for g n
proof unfold_locales
  fix s a call reply s' assume a: "represents g n s a" "legal_region_call call" "region_step call s = (reply, s')"
  show "\<exists>a'. region_allowed g a call reply a' \<and> represents g n s' a'"
  proof (cases call)
    case (CallWrite c ch)
    show ?thesis
    proof (cases ch)
      case None
      then show ?thesis using a CallWrite by (auto simp: region_WriteChunk_def)
    next
      case (Some x)
      obtain r t where w: "region_WriteChunk c (Some x) s = (r, t)" by fastforce
      then show ?thesis using a CallWrite Some represents_write [OF a(1) w] by (simp add: legal_region_call_def)
    qed
  next
    case (CallRead c)
    then show ?thesis using a represents_read [OF a(1)] by (cases "region_ReadChunk c s") auto
  next
    case CallClose
    then show ?thesis using a represents_close [OF a(1)] by (cases "region_Close s") auto
  next
    case (CallRestart faults)
    then show ?thesis using a represents_restart by simp
  qed
qed


section \<open>The property of the store\<close>

definition fresh_regions :: "bool \<Rightarrow> region_map" where
  "fresh_regions works = \<lparr>ra_chunks = (\<lambda>_. None), ra_spoiled = {}, ra_works = works, ra_closed = False\<rparr>"

lemma represents_fresh:
  assumes "OpenRegions root g n w = (Inr s, w')" "w_files w = []" "w_dirs w = []"
  shows "represents g (rg_maxOpen s) s (fresh_regions (flawless w))"
proof -
  note e = OpenRegions_outcome [OF assms(1)]
  note c = e(2) [OF refl]
  have m: "content w' p = None" for p using fx_content [OF e(1), of p] assms(2) by (simp add: content_def)
  have "no_dirs w" using assms(3) by (simp add: no_dirs_def is_dir_def)
  moreover have "0 < rg_maxOpen s" using c by (auto simp: region_validated_def DefaultMaxOpenRegions_def Let_def split: if_splits)
  moreover have "region_holds g (rg_layout s) region None (\<lambda>_. None)" for region
    by (auto simp: region_holds_def file_holds_def unborn_def intro!: exI [of _ "\<lambda>_. None"])
  ultimately show ?thesis using c m fx_flawless [OF e(1)] no_dirs_fx [OF e(1)]
    by (simp add: represents_def region_rep_def region_inv_def fresh_regions_def)
qed

text \<open>
  (C6) A store of region images implements a map from coordinates to chunks, however many images it may keep open.
  Start it on an empty directory and run any sequence of writes, reads, closes and restarts, with any failures of the
  disk and the process stopping at any system call.  Then its answers are those of the map: a read returns the last
  chunk written, reports absence only of a chunk that was never written, and otherwise fails without an answer, except in
  regions where a write was reported to have failed; while the disk works every call succeeds and every answer is exact.
  At no time more images are open than the bound allows.
\<close>

theorem region_store_refines_map:
  assumes "OpenRegions root g maxOpen w = (Inr s, w')" "w_files w = []" "w_dirs w = []"
    and "list_all legal_region_call calls" "run_calls region_step calls s = (replies, s')"
  shows "(\<exists>a. history (region_allowed g) (fresh_regions (flawless w)) calls replies a) \<and>
    int (length (rg_images s')) \<le> (if maxOpen = 0 then 64 else maxOpen)"
proof -
  note run = rs.run_history [OF represents_fresh [OF assms(1-3)] assms(4,5)]
  have "distinct (map fst (rg_images s'))" "set (rg_recent s') = set (map fst (rg_images s'))" "distinct (rg_recent s')" "int (length (rg_recent s')) \<le> rg_maxOpen s"
    using run by (auto simp: represents_def region_rep_def region_inv_def)
  then have "int (length (map fst (rg_images s'))) \<le> rg_maxOpen s" by (metis distinct_card)
  moreover have "rg_maxOpen s = (if maxOpen = 0 then 64 else maxOpen)"
    using OpenRegions_outcome(2) [OF assms(1) refl] by (auto simp: region_validated_def DefaultMaxOpenRegions_def Let_def split: if_splits)
  ultimately show ?thesis using run by auto
qed

definition quiet_disk :: world where
  "quiet_disk = \<lparr>w_files = [], w_dirs = [], w_oracle = (\<lambda>_ _. NoFault), w_random = (\<lambda>_. ''x''), w_order = (\<lambda>_ _. 0), w_clock = 0, w_halted = False\<rparr>"

definition small_chunk :: Chunk where
  "small_chunk = \<lparr>chunk_geometry = small_region, chunk_codec = \<lparr>codec_width = 3, codec_order = LSBFirst\<rparr>, chunk_payload = [0x2A, 1], chunk_presence = [5]\<rparr>"

lemma wf_small_chunk: "wf_chunk small_chunk" "chunk_geometry small_chunk = small_region"
proof -
  have "ChunkFromState small_region [0x2A, 1] [5] = Inr small_chunk" by code_simp
  then show "wf_chunk small_chunk" "chunk_geometry small_chunk = small_region" using ChunkFromState_Inr [OF wf_small_region] by blast+
qed

lemma history_Done: "region_allowed g a (CallWrite c ch) reply a' \<Longrightarrow> \<exists>r. reply = Done r" "region_allowed g a (CallRead c) reply a' \<Longrightarrow> \<exists>r. reply = Answer r"
  by (cases reply; cases ch; simp)+

theorem region_store_refines_map_witness:
  "case OpenRegions ''data'' small_region 1 quiet_disk of
     (Inl _, _) \<Rightarrow> False
   | (Inr s, _) \<Rightarrow> fst (run_calls region_step [CallWrite (Coord 0 0) (Some small_chunk), CallRead (Coord 0 0), CallRead (Coord 1 0)] s) =
       [Done (Inr ()), Answer (Inr small_chunk), Answer (Inl [ErrNotExist])]"
proof -
  let ?calls = "[CallWrite (Coord 0 0) (Some small_chunk), CallRead (Coord 0 0), CallRead (Coord 1 0)]"
  have f: "flawless quiet_disk" by (simp add: flawless_def quiet_disk_def)
  have "image_size small_region = 93" by code_simp
  then obtain l where l: "newImageLayout small_region = Inr l"
    using newImageLayout_outcome [OF wf_small_region] by (cases "newImageLayout small_region") simp_all
  obtain r w where o: "OpenRegions ''data'' small_region 1 quiet_disk = (r, w)" by fastforce
  then obtain s where s: "r = Inr s" using OpenRegions_outcome(3) [OF o f _ wf_small_region l, of 1] by (auto simp: region_validated_def)
  obtain replies s' where run: "run_calls region_step ?calls s = (replies, s')" by fastforce
  have "\<exists>a. history (region_allowed small_region) (fresh_regions True) ?calls replies a"
    using region_store_refines_map [OF o [unfolded s] _ _ _ run] f by (simp add: quiet_disk_def legal_region_call_def wf_small_chunk)
  then obtain a1 a2 a3 r1 r2 r3 where h: "replies = [r1, r2, r3]"
      "region_allowed small_region (fresh_regions True) (CallWrite (Coord 0 0) (Some small_chunk)) r1 a1"
      "region_allowed small_region a1 (CallRead (Coord 0 0)) r2 a2" "region_allowed small_region a2 (CallRead (Coord 1 0)) r3 a3"
    unfolding history_Cons history_Nil by blast
  obtain q1 q2 q3 where q: "r1 = Done q1" "r2 = Answer q2" "r3 = Answer q3" using history_Done h by metis
  have 1: "q1 = Inr () \<and> a1 = (fresh_regions True)\<lparr>ra_chunks := (\<lambda>_. None)(Coord 0 0 := Some small_chunk)\<rparr>"
    using h(2) q(1) wf_small_chunk(2) by (cases q1) (simp_all add: fresh_regions_def sound_region_def)
  then have "q2 = Inr small_chunk \<and> a2 = a1" using h(3) q(2) by (simp add: fresh_regions_def sound_region_def read_answer_def)
  then have "replies = [Done (Inr ()), Answer (Inr small_chunk), Answer (Inl [ErrNotExist])]"
    using 1 h(1,4) q by (simp add: fresh_regions_def sound_region_def read_answer_def)
  then show ?thesis using o s run by simp
qed

end
