(* ===== verification/Verifier.thy ===== *)
theory Verifier
  imports StoreDisk FileEffects
begin

text \<open>
  The offline verifier (\<^verbatim>\<open>fs_split/verify.go\<close>): it walks a data directory, decodes every file and reports issues.

  The verifier is a record with the file system; \<open>Inl\<close> is an error that ends the scan.  Paths are the components below
  the data directory, so \<^verbatim>\<open>relative\<close> is the identity, and a directory entry has a name and a flag for directories
  (there are no symbolic links in the model).  The text of an error is the argument \<open>describe\<close>.
\<close>

section \<open>The code\<close>

record VerificationIssue =
  vi_Code :: string
  vi_Path :: string
  vi_Detail :: string

record VerificationReport =
  vr_Images :: uint64
  vr_Versions :: uint64
  vr_WAL :: uint64
  vr_Issues :: "VerificationIssue list"

record verifier =
  v_geometry :: Geometry
  v_report :: VerificationReport
  v_images :: "(Coord \<times> string) list"
  v_versions :: "(Coord \<times> uint64) list"
  v_clock :: uint64
  v_clockValid :: bool
  v_walBytes :: uint64
  v_walRecord :: uint64
  v_walFound :: bool
  v_intentOK :: bool
  v_world :: world

type_synonym 'a vop = "(verifier, 'a) op"
type_synonym error_text = "path \<Rightarrow> error \<Rightarrow> string"

definition lockName :: string where "lockName = ''.regiondb.lock''"
definition legacyLockMarker :: string where "legacyLockMarker = ''.legacy.''"

text \<open>\<^verbatim>\<open>filepath.ToSlash\<close> of a joined path.\<close>

fun slashed :: "path \<Rightarrow> string" where
  "slashed [] = []"
| "slashed [x] = x"
| "slashed (x # y # rest) = x @ ''/'' @ slashed (y # rest)"

definition issue :: "string \<Rightarrow> string \<Rightarrow> string \<Rightarrow> unit vop" where
  "issue code path detail = update (\<lambda>v. v\<lparr>v_report := (v_report v)\<lparr>vr_Issues := vr_Issues (v_report v) @
     [\<lparr>vi_Code = code, vi_Path = path, vi_Detail = detail\<rparr>]\<rparr>\<rparr>)"

definition on_fs :: "(world, 'a) op \<Rightarrow> 'a vop" where
  "on_fs m v = (case m (v_world v) of (r, w) \<Rightarrow> (r, v\<lparr>v_world := w\<rparr>))"

text \<open>\<^verbatim>\<open>os.Lstat\<close>: is it a directory?\<close>

definition os_lstat :: "path \<Rightarrow> (world, bool) op" where
  "os_lstat p = os_call (OsStat p) untouched
     (\<lambda>w. if is_dir w p then (Inr True, w) else if content w p \<noteq> None then (Inr False, w) else (Inl [ErrNotExist], w))"

text \<open>\<^verbatim>\<open>os.ReadDir\<close>: the sorted entries with their types.\<close>

definition os_read_entries :: "path \<Rightarrow> (world, (string \<times> bool) list) op" where
  "os_read_entries p = os_call (OsReadDir p) untouched
     (\<lambda>w. if \<not> is_dir w p then (Inl [ErrNotExist], w)
          else (Inr (map (\<lambda>name. (name, is_dir w (p @ [name])))
                  (sort (remdups (map last (filter (\<lambda>q. q \<noteq> [] \<and> butlast q = p) (map fst (w_files w) @ w_dirs w)))))), w))"

definition readFileBounded :: "path \<Rightarrow> int \<Rightarrow> (world, bytes) op" where
  "readFileBounded path maximum =
     andThen (os_lstat path) (\<lambda>directory.
     if directory then raise []
     else andThen (os_open path) (\<lambda>_.
       catch
         (andThen (os_size path) (\<lambda>size.
            if maximum < int size then raise []
            else if 9223372036854775807 < int size then raise []
            else os_read_part path 0 size))
         (\<lambda>returnErr. catch (os_noop (OsClose path)) (\<lambda>err. raise (returnErr @ err)) (\<lambda>_. raise returnErr))
         (\<lambda>encoded. andThen (os_noop (OsClose path)) (\<lambda>_. ret encoded))))"

definition verifyGeneration :: "error_text \<Rightarrow> (uint64 \<times> bool) vop" where
  "verifyGeneration describe =
     catch (on_fs (readFileBounded snapshotPath 20))
       (\<lambda>err. if errors_is err ErrNotExist
          then andThen (issue ''generation_missing'' (slashed snapshotPath) ''snapshot generation file is missing'') (\<lambda>_. ret (0, False))
          else andThen (issue ''generation_unreadable'' (slashed snapshotPath) (describe snapshotPath err)) (\<lambda>_. ret (0, False)))
       (\<lambda>encoded. case decodeSnapshotGeneration encoded of
          Inl err \<Rightarrow> andThen (issue ''generation_corrupt'' (slashed snapshotPath) (describe snapshotPath err)) (\<lambda>_. ret (0, False))
        | Inr generation \<Rightarrow>
            andThen (if generation mod 2 \<noteq> 0
                     then issue ''generation_unstable'' (slashed snapshotPath) (''generation '' @ FormatUint generation @ '' is odd'')
                     else ret ())
              (\<lambda>_. ret (generation, True)))"

definition verifyFinalGeneration :: "error_text \<Rightarrow> uint64 \<Rightarrow> unit vop" where
  "verifyFinalGeneration describe expected =
     catch (on_fs (readFileBounded snapshotPath 20))
       (\<lambda>err. issue ''generation_changed'' (slashed snapshotPath) (describe snapshotPath err))
       (\<lambda>encoded. case decodeSnapshotGeneration encoded of
          Inl err \<Rightarrow> issue ''generation_changed'' (slashed snapshotPath) (describe snapshotPath err)
        | Inr generation \<Rightarrow>
            if generation \<noteq> expected
            then issue ''generation_changed'' (slashed snapshotPath)
                   (''generation changed from '' @ FormatUint expected @ '' to '' @ FormatUint generation @ '' during verification'')
            else ret ())"

definition verifyClock :: "error_text \<Rightarrow> unit vop" where
  "verifyClock describe =
     catch (on_fs (readFileBounded versionClockPath 20))
       (\<lambda>err. if errors_is err ErrNotExist
          then issue ''version_clock_missing'' (slashed versionClockPath) ''version clock file is missing''
          else issue ''version_clock_unreadable'' (slashed versionClockPath) (describe versionClockPath err))
       (\<lambda>encoded.
          if length encoded \<noteq> 20 \<or> take 8 encoded \<noteq> versionClockMagic
          then issue ''version_clock_corrupt'' (slashed versionClockPath) ''invalid version clock header''
          else if ChecksumIEEE (take 16 encoded) \<noteq> mustUint32 (drop 16 encoded)
          then issue ''version_clock_corrupt'' (slashed versionClockPath) ''version clock checksum mismatch''
          else update (\<lambda>v. v\<lparr>v_clock := mustUint64 (go_slice 8 16 encoded), v_clockValid := True\<rparr>))"

definition verifyImage :: "error_text \<Rightarrow> path \<Rightarrow> Coord \<Rightarrow> unit vop" where
  "verifyImage describe path coord v =
     (let stateBytes = int (payloadBytes (v_geometry v)) + int (presenceBytes (v_geometry v))
      in if (9223372036854775807 - int headerBytes - int checksumSize) div 2 < stateBytes
         then issue ''image_corrupt'' (slashed path) ''maximum image size overflows'' v
         else catch (on_fs (readFileBounded path (int headerBytes + int checksumSize + stateBytes * 2)))
           (\<lambda>err. issue ''image_unreadable'' (slashed path) (describe path err))
           (\<lambda>encoded v. case decode (v_geometry v) coord encoded of
              Inl err \<Rightarrow> issue ''image_corrupt'' (slashed path) (describe path err) v
            | Inr _ \<Rightarrow> (Inr (), v\<lparr>v_images := AList.update coord (slashed path) (v_images v),
                                  v_report := (v_report v)\<lparr>vr_Images := vr_Images (v_report v) + 1\<rparr>\<rparr>)) v)"

definition count_version :: "Coord \<Rightarrow> uint64 \<Rightarrow> verifier \<Rightarrow> verifier" where
  "count_version coord version v =
     v\<lparr>v_versions := AList.update coord version (v_versions v), v_report := (v_report v)\<lparr>vr_Versions := vr_Versions (v_report v) + 1\<rparr>\<rparr>"

definition verifyVersion :: "error_text \<Rightarrow> path \<Rightarrow> Coord \<Rightarrow> unit vop" where
  "verifyVersion describe path coord =
     catch (on_fs (readFileBounded path 36))
       (\<lambda>err. issue ''version_corrupt'' (slashed path) (describe path err))
       (\<lambda>encoded.
          if length encoded \<noteq> 36 \<or> take 8 encoded \<noteq> versionFileMagic
          then issue ''version_corrupt'' (slashed path) ''invalid chunk version header''
          else if ChecksumIEEE (take (length encoded - checksumSize) encoded) \<noteq> mustUint32 (drop (length encoded - checksumSize) encoded)
          then issue ''version_corrupt'' (slashed path) ''chunk version checksum mismatch''
          else if mustUint64 (go_slice 8 16 encoded) \<noteq> coord_X coord \<or> mustUint64 (go_slice 16 24 encoded) \<noteq> coord_Y coord
          then issue ''version_corrupt'' (slashed path) ''chunk version coordinate mismatch''
          else let version = mustUint64 (go_slice 24 32 encoded)
          in andThen (update (count_version coord version)) (\<lambda>_.
             andThen (if version = 0 then issue ''version_invalid'' (slashed path) ''persisted chunk version is zero'' else ret ()) (\<lambda>_ v.
             if v_clockValid v \<and> v_clock v < version
             then issue ''version_ahead_of_clock'' (slashed path)
                    (''chunk version '' @ FormatUint version @ '' exceeds clock '' @ FormatUint (v_clock v)) v
             else (Inr (), v))))"

text \<open>The records of the log, read one after the other.\<close>

primrec wal_loop :: "error_text \<Rightarrow> nat \<Rightarrow> nat \<Rightarrow> nat \<Rightarrow> bool vop" where
  "wal_loop describe recordSize 0 offset = ret True"
| "wal_loop describe recordSize (Suc n) offset =
     catch (on_fs (os_read_part walPath offset recordSize))
       (\<lambda>err. andThen (issue ''wal_unreadable'' (slashed walPath) (''record at byte '' @ FormatUint (of_nat offset) @ '': '' @ describe walPath err)) (\<lambda>_. ret False))
       (\<lambda>encoded v. case decodeWALRecord (v_geometry v) encoded of
          Inl err \<Rightarrow> andThen (issue ''wal_corrupt'' (slashed walPath) (''record at byte '' @ FormatUint (of_nat offset) @ '': '' @ describe walPath err)) (\<lambda>_. ret False) v
        | Inr _ \<Rightarrow> andThen (update (\<lambda>v. v\<lparr>v_report := (v_report v)\<lparr>vr_WAL := vr_WAL (v_report v) + 1\<rparr>\<rparr>))
                     (\<lambda>_. wal_loop describe recordSize n (offset + recordSize)) v)"

text \<open>\<^verbatim>\<open>verifyWAL\<close> from the magic on, in a file of \<open>fileSize\<close> bytes; the last step is the deferred close.\<close>

definition wal_records :: "error_text \<Rightarrow> nat \<Rightarrow> bytes \<Rightarrow> unit vop" where
  "wal_records describe fileSize magic v =
     (let recordBytes64 = walHeaderBytes + checksumSize + payloadBytes (v_geometry v)
      in if magic \<noteq> walMagic \<and> magic \<noteq> legacyWALMagic then issue ''wal_corrupt'' (slashed walPath) ''invalid record magic'' v
         else let recordSize = (if magic = walMagic then recordBytes64 + presenceBytes (v_geometry v) else recordBytes64)
         in if 9223372036854775807 < int recordSize then issue ''wal_corrupt'' (slashed walPath) ''WAL record size exceeds platform limits'' v
         else andThen (update (\<lambda>v. v\<lparr>v_walRecord := of_nat recordSize\<rparr>)) (\<lambda>_.
           catch (on_fs (os_noop (OsSeek walPath)))
             (\<lambda>err. issue ''wal_unreadable'' (slashed walPath) (describe walPath err))
             (\<lambda>_. let completeBytes = fileSize div recordSize * recordSize
               in andThen (wal_loop describe recordSize (fileSize div recordSize) 0) (\<lambda>finished.
                  if finished \<and> completeBytes \<noteq> fileSize
                  then issue ''wal_truncated'' (slashed walPath)
                         (''WAL has '' @ FormatUint (of_nat (fileSize - completeBytes)) @ '' trailing bytes after complete records'')
                  else ret ()))) v)"

definition wal_body :: "error_text \<Rightarrow> unit vop" where
  "wal_body describe =
     catch (on_fs (os_size walPath))
       (\<lambda>err. issue ''wal_unreadable'' (slashed walPath) (describe walPath err))
       (\<lambda>size. andThen (update (\<lambda>v. v\<lparr>v_walBytes := of_nat size\<rparr>)) (\<lambda>_.
          if size = 0 then ret ()
          else if size < length walMagic
          then issue ''wal_truncated'' (slashed walPath) (''WAL has '' @ FormatUint (of_nat size) @ '' trailing bytes'')
          else catch (on_fs (os_read_part walPath 0 (length walMagic)))
            (\<lambda>err. issue ''wal_unreadable'' (slashed walPath) (describe walPath err))
            (wal_records describe size)))"

definition verifyWAL :: "error_text \<Rightarrow> bool \<Rightarrow> unit vop" where
  "verifyWAL describe directory =
     (if directory then issue ''misplaced_artifact'' (slashed walPath) ''WAL is not a regular file''
      else catch (on_fs (os_open walPath))
        (\<lambda>err. issue ''wal_unreadable'' (slashed walPath) (describe walPath err))
        (\<lambda>_. andThen (wal_body describe) (\<lambda>_.
           catch (on_fs (os_noop (OsClose walPath)))
             (\<lambda>err. issue ''wal_unreadable'' (slashed walPath) (''close WAL: '' @ describe walPath err))
             ret)))"

text \<open>One entry of a large-chunk directory.\<close>

definition verify_chunk_entry :: "error_text \<Rightarrow> path \<Rightarrow> Coord \<Rightarrow> string \<times> bool \<Rightarrow> unit vop" where
  "verify_chunk_entry describe path largeCoord entry v =
     (let name = fst entry; entryPath = path @ [name]; relative = slashed entryPath;
          misplaced = issue ''misplaced_artifact'' relative
      in if snd entry then misplaced ''chunk artifact is not a regular file'' v
         else if strings_HasSuffix name versionFileSuffix then
           (case parseChunkFileName (strings_TrimSuffix name versionFileSuffix) of
              None \<Rightarrow> misplaced ''invalid chunk version filename'' v
            | Some coord \<Rightarrow>
                if map_LargeChunk (ChunkToLargeChunk (v_geometry v) coord) \<noteq> largeCoord
                then misplaced ''chunk version is in the wrong large-chunk directory'' v
                else verifyVersion describe entryPath coord v)
         else if strings_HasSuffix name ''.rdb'' then
           (case parseChunkFileName name of
              None \<Rightarrow> misplaced ''invalid chunk image filename'' v
            | Some coord \<Rightarrow>
                if map_LargeChunk (ChunkToLargeChunk (v_geometry v) coord) \<noteq> largeCoord
                then misplaced ''chunk image is in the wrong large-chunk directory'' v
                else verifyImage describe entryPath coord v)
         else misplaced ''unexpected chunk-directory artifact'' v)"

definition verifyLargeDirectory :: "error_text \<Rightarrow> path \<Rightarrow> Coord \<Rightarrow> unit vop" where
  "verifyLargeDirectory describe path largeCoord =
     andThen (on_fs (os_read_entries path)) (\<lambda>entries. for_each entries (verify_chunk_entry describe path largeCoord))"

definition verify_root_entry :: "error_text \<Rightarrow> string \<times> bool \<Rightarrow> unit vop" where
  "verify_root_entry describe entry =
     (let name = fst entry; directory = snd entry; misplaced = issue ''misplaced_artifact'' name
      in if [name] = walPath then andThen (update (\<lambda>v. v\<lparr>v_walFound := True\<rparr>)) (\<lambda>_. verifyWAL describe directory)
         else if [name] = versionClockPath \<or> [name] = snapshotPath then
           (if directory then misplaced ''control artifact is not a regular file'' else ret ())
         else if name = intentDirectoryName then
           (if \<not> directory then misplaced ''intent artifact is not a directory'' else update (\<lambda>v. v\<lparr>v_intentOK := True\<rparr>))
         else if name = lockName then ret ()
         else if strings_HasPrefix name (lockName @ legacyLockMarker) \<and> \<not> directory then ret ()
         else case parseCoordinateName name ''l_'' [] of
           None \<Rightarrow> misplaced ''unexpected top-level artifact''
         | Some largeCoord \<Rightarrow>
             if name \<noteq> ''l_'' @ signedName (coord_X largeCoord) @ ''_'' @ signedName (coord_Y largeCoord) \<or> \<not> directory
             then misplaced ''unexpected top-level artifact''
             else verifyLargeDirectory describe [name] largeCoord)"

definition verifyRoot :: "error_text \<Rightarrow> unit vop" where
  "verifyRoot describe =
     andThen (on_fs (os_read_entries [])) (\<lambda>entries.
     andThen (for_each entries (verify_root_entry describe)) (\<lambda>_ v.
     if \<not> v_walFound v then issue ''wal_missing'' (slashed walPath) ''WAL file is missing'' v else (Inr (), v)))"

definition verifyImageVersions :: "unit vop" where
  "verifyImageVersions v =
     andThen (for_each (v_images v) (\<lambda>(coord, path) v.
        if map_of (v_versions v) coord = None then issue ''version_missing'' (path @ versionFileSuffix) ''chunk image has no version metadata'' v else (Inr (), v)))
      (\<lambda>_. for_each (v_versions v) (\<lambda>(coord, _) v.
        if map_of (v_images v) coord = None then issue ''image_missing'' (slashed (chunkPath (v_geometry v) coord)) ''chunk version has no image'' v else (Inr (), v))) v"

text \<open>\<^verbatim>\<open>verifyIntent\<close> from the decoded intent on.\<close>

definition intent_issues :: "intentState \<Rightarrow> uint64 \<Rightarrow> unit vop" where
  "intent_issues state boundary =
     andThen (\<lambda>v. if v_walBytes v < boundary
        then issue ''intent_boundary_invalid'' (slashed intentPath) (''WAL boundary '' @ FormatUint boundary @ '' exceeds WAL size '' @ FormatUint (v_walBytes v)) v
        else (Inr (), v)) (\<lambda>_.
     andThen (\<lambda>v. if v_walRecord v \<noteq> 0 \<and> boundary mod v_walRecord v \<noteq> 0
        then issue ''intent_boundary_invalid'' (slashed intentPath)
               (''WAL boundary '' @ FormatUint boundary @ '' is not aligned to record size '' @ FormatUint (v_walRecord v)) v
        else (Inr (), v)) (\<lambda>_.
     issue ''intent_pending'' (slashed intentPath)
       ((if state = intentCommitted then ''committed'' else ''rollback'') @ '' intent remains at WAL boundary '' @ FormatUint boundary)))"

definition verifyIntent :: "error_text \<Rightarrow> unit vop" where
  "verifyIntent describe v =
     (if \<not> v_intentOK v then (Inr (), v)
      else catch (on_fs (os_read_entries intentDirectory))
        (\<lambda>err. issue ''intent_unreadable'' intentDirectoryName (describe intentDirectory err))
        (\<lambda>entries.
           andThen (for_each entries (\<lambda>(name, directory).
              if name \<noteq> intentFileName \<or> directory
              then issue ''misplaced_artifact'' (slashed (intentDirectory @ [name])) ''unexpected intent artifact'' else ret ()))
            (\<lambda>_. if entries \<noteq> [(intentFileName, False)] then ret ()
                 else catch (on_fs (readFileBounded intentPath 20))
                   (\<lambda>err. issue ''intent_unreadable'' (slashed intentPath) (describe intentPath err))
                   (\<lambda>encoded. case decodeIntent encoded of
                      Inl err \<Rightarrow> issue ''intent_corrupt'' (slashed intentPath) (describe intentPath err)
                    | Inr (state, boundary) \<Rightarrow> intent_issues state boundary))) v)"

definition issue_key :: "VerificationIssue \<Rightarrow> string list" where
  "issue_key i = [vi_Path i, vi_Code i, vi_Detail i]"

definition new_verifier :: "Geometry \<Rightarrow> world \<Rightarrow> verifier" where
  "new_verifier g w =
     \<lparr>v_geometry = g, v_report = \<lparr>vr_Images = 0, vr_Versions = 0, vr_WAL = 0, vr_Issues = []\<rparr>, v_images = [], v_versions = [],
      v_clock = 0, v_clockValid = False, v_walBytes = 0, v_walRecord = 0, v_walFound = False, v_intentOK = False, v_world = w\<rparr>"

text \<open>The steps of \<^verbatim>\<open>Verify\<close> on a fresh verifier.\<close>

definition verify_steps :: "error_text \<Rightarrow> unit vop" where
  "verify_steps describe =
     andThen (verifyGeneration describe) (\<lambda>(generation, generationValid).
     andThen (verifyClock describe) (\<lambda>_.
     andThen (verifyRoot describe) (\<lambda>_.
     andThen verifyImageVersions (\<lambda>_.
     andThen (verifyIntent describe) (\<lambda>_.
     if generationValid then verifyFinalGeneration describe generation else ret ())))))"

text \<open>\<^verbatim>\<open>filepath.Abs\<close> and \<^verbatim>\<open>os.Stat\<close> of the data directory are the first two calls.\<close>

definition Verify :: "error_text \<Rightarrow> string \<Rightarrow> Geometry \<Rightarrow> (world, VerificationReport) op" where
  "Verify describe root g =
     (if root = [] then raise []
      else case geometry_New (config g) of
        Inl _ \<Rightarrow> raise [ErrInvalid]
      | Inr g' \<Rightarrow> if g' \<noteq> g then raise [ErrInvalid]
      else andThen (os_noop (OsStat [])) (\<lambda>_.
           andThen (os_lstat []) (\<lambda>directory.
           if \<not> directory then raise []
           else (\<lambda>w. case verify_steps describe (new_verifier g w) of
             (Inl e, v) \<Rightarrow> (Inl e, v_world v)
           | (Inr _, v) \<Rightarrow> (Inr ((v_report v)\<lparr>vr_Issues := sort_key issue_key (vr_Issues (v_report v))\<rparr>), v_world v)))))"

end
