(* ===== verification/VerifierSound.thy ===== *)
theory VerifierSound
  imports Verifier
begin

text \<open>
  A report without issues means a sound data directory.  \<open>checks Q m\<close> is the logic for it: the step \<open>m\<close> leaves every
  file as it is, never takes an issue back, and establishes \<open>Q\<close> when no issue is left.  Each function of the
  verifier has its lemma; \<open>verify_sound\<close> puts them together and relates them to what recovery reads from the directory.
\<close>

section \<open>Checks that pass\<close>

definition clean :: "verifier \<Rightarrow> bool" where
  "clean v \<longleftrightarrow> vr_Issues (v_report v) = []"

text \<open>
  \<open>checks Q m\<close>: the step \<open>m\<close> never changes a file, on any outcome; it never takes an issue back; and when it ends without
  an issue, \<open>Q\<close> relates the verifier before, the result and the verifier after.
\<close>

definition checks :: "(verifier \<Rightarrow> 'a \<Rightarrow> verifier \<Rightarrow> bool) \<Rightarrow> 'a vop \<Rightarrow> bool" where
  "checks Q m \<longleftrightarrow>
     (\<forall>v r v'. m v = (r, v') \<longrightarrow> v_geometry v' = v_geometry v \<and> fx {} (v_world v) (v_world v') \<and>
        (clean v' \<longrightarrow> clean v \<and> (\<forall>x. r = Inr x \<longrightarrow> Q v x v')))"

named_theorems passes \<open>what a passed check tells\<close>

lemma checksI:
  assumes "\<And>v r v'. m v = (r, v') \<Longrightarrow> v_geometry v' = v_geometry v \<and> fx {} (v_world v) (v_world v') \<and>
        (clean v' \<longrightarrow> clean v \<and> (\<forall>x. r = Inr x \<longrightarrow> Q v x v'))"
  shows "checks Q m"
  using assms by (simp add: checks_def)

lemma checks_conseq: "checks P m \<Longrightarrow> (\<And>v x v'. P v x v' \<Longrightarrow> Q v x v') \<Longrightarrow> checks Q m"
  by (auto simp: checks_def)

lemma checks_ret [passes]: "checks (\<lambda>v y v'. y = x \<and> v' = v) (ret x)"
  by (simp add: checks_def ret_def)

lemma checks_issue [passes]: "checks (\<lambda>_ _ _. False) (issue code path detail)"
  by (simp add: checks_def issue_def update_def clean_def)

lemma checks_update:
  assumes "\<And>v. v_geometry (f v) = v_geometry v" "\<And>v. v_world (f v) = v_world v" "\<And>v. vr_Issues (v_report (f v)) = vr_Issues (v_report v)"
  shows "checks (\<lambda>v _ v'. v' = f v) (update f)"
  using assms by (simp add: checks_def update_def clean_def)

lemma checks_on_fs:
  assumes "\<And>w r w'. m w = (r, w') \<Longrightarrow> fx {} w w' \<and> (\<forall>x. r = Inr x \<longrightarrow> R w x)"
  shows "checks (\<lambda>v x v'. R (v_world v) x \<and> fx {} (v_world v) (v_world v') \<and> v' = v\<lparr>v_world := v_world v'\<rparr>) (on_fs m)"
  using assms by (fastforce simp: checks_def on_fs_def clean_def split: prod.splits)

lemma checks_catch:
  assumes m: "checks P m" and h: "\<And>e. checks (\<lambda>_ _ _. False) (h e)" and f: "\<And>x. checks (R x) (f x)"
  shows "checks (\<lambda>v y v''. \<exists>x v'. P v x v' \<and> R x v' y v'') (catch m h f)"
proof (rule checksI)
  fix v r v' assume "catch m h f v = (r, v')"
  then show "v_geometry v' = v_geometry v \<and> fx {} (v_world v) (v_world v') \<and>
      (clean v' \<longrightarrow> clean v \<and> (\<forall>y. r = Inr y \<longrightarrow> (\<exists>x t. P v x t \<and> R x t y v')))"
  proof (cases rule: catch_result)
    case (caught e t)
    note a = m [unfolded checks_def, rule_format, OF caught(1)] and b = h [unfolded checks_def, rule_format, OF caught(2)]
    have "fx {} (v_world v) (v_world v')" using a b fx_trans [of "{}" "v_world v" "v_world t" "{}" "v_world v'" "{}"] by simp
    then show ?thesis using a b by simp
  next
    case (went x t)
    note a = m [unfolded checks_def, rule_format, OF went(1)] and b = f [unfolded checks_def, rule_format, OF went(2)]
    have "fx {} (v_world v) (v_world v')" using a b fx_trans [of "{}" "v_world v" "v_world t" "{}" "v_world v'" "{}"] by simp
    moreover have "clean v' \<longrightarrow> clean v \<and> P v x t" using a b by simp
    ultimately show ?thesis using a b by (metis (no_types, lifting))
  qed
qed

lemma checks_andThen:
  assumes m: "checks P m" and f: "\<And>x. checks (R x) (f x)"
  shows "checks (\<lambda>v y v''. \<exists>x v'. P v x v' \<and> R x v' y v'') (andThen m f)"
proof (rule checksI)
  fix v r v' assume "andThen m f v = (r, v')"
  then show "v_geometry v' = v_geometry v \<and> fx {} (v_world v) (v_world v') \<and>
      (clean v' \<longrightarrow> clean v \<and> (\<forall>y. r = Inr y \<longrightarrow> (\<exists>x t. P v x t \<and> R x t y v')))"
  proof (cases rule: andThen_result)
    case (failed e)
    then show ?thesis using m [unfolded checks_def, rule_format, OF failed(1)] by auto
  next
    case (went x t)
    note a = m [unfolded checks_def, rule_format, OF went(1)] and b = f [unfolded checks_def, rule_format, OF went(2)]
    have "fx {} (v_world v) (v_world v')" using a b fx_trans [of "{}" "v_world v" "v_world t" "{}" "v_world v'" "{}"] by simp
    moreover have "clean v' \<longrightarrow> clean v \<and> P v x t" using a b by simp
    ultimately show ?thesis using a b by (metis (no_types, lifting))
  qed
qed

text \<open>A loop: every element was checked at some point of it.\<close>

lemma checks_for_each:
  assumes "\<And>x. x \<in> set xs \<Longrightarrow> checks (\<lambda>v _ v'. S v v' \<and> Q x v v') (f x)"
    and refl: "\<And>v. S v v" and trans: "\<And>u v w. S u v \<Longrightarrow> S v w \<Longrightarrow> S u w"
  shows "checks (\<lambda>v _ v'. S v v' \<and> (\<forall>x\<in>set xs. \<exists>v1 v2. S v v1 \<and> Q x v1 v2 \<and> S v2 v')) (for_each xs f)"
  using assms(1)
proof (induction xs)
  case Nil
  show ?case using refl by (simp add: checks_def ret_def)
next
  case (Cons x xs)
  have "checks (\<lambda>v _ v''. \<exists>(y :: unit) v'. (S v v' \<and> Q x v v') \<and> S v' v'' \<and> (\<forall>x\<in>set xs. \<exists>v1 v2. S v' v1 \<and> Q x v1 v2 \<and> S v2 v'')) (for_each (x # xs) f)"
    unfolding for_each.simps
    by (rule checks_andThen [where P = "\<lambda>v _ v'. S v v' \<and> Q x v v'" and
          R = "\<lambda>_ v' _ v''. S v' v'' \<and> (\<forall>x\<in>set xs. \<exists>v1 v2. S v' v1 \<and> Q x v1 v2 \<and> S v2 v'')"]) (use Cons in auto)
  then show ?case
  proof (rule checks_conseq)
    fix v :: verifier and u :: unit and v'' assume "\<exists>(y :: unit) v'. (S v v' \<and> Q x v v') \<and> S v' v'' \<and> (\<forall>x\<in>set xs. \<exists>v1 v2. S v' v1 \<and> Q x v1 v2 \<and> S v2 v'')"
    then show "S v v'' \<and> (\<forall>x\<in>set (x # xs). \<exists>v1 v2. S v v1 \<and> Q x v1 v2 \<and> S v2 v'')" using refl trans by (auto, blast+)
  qed
qed


section \<open>Reading\<close>

definition only_read :: "verifier \<Rightarrow> verifier \<Rightarrow> bool" where
  "only_read v v' \<longleftrightarrow> fx {} (v_world v) (v_world v') \<and> v' = v\<lparr>v_world := v_world v'\<rparr>"

lemma only_read_refl [simp]: "only_read v v"
  by (simp add: only_read_def)

lemma only_read_trans:
  assumes "only_read u v" "only_read v w"
  shows "only_read u w"
proof -
  have "v = u\<lparr>v_world := v_world v\<rparr>" "w = v\<lparr>v_world := v_world w\<rparr>" using assms by (simp_all add: only_read_def)
  then have "w = u\<lparr>v_world := v_world w\<rparr>" by (metis (no_types, lifting) verifier.update_convs(11) verifier.surjective)
  then show ?thesis using assms fx_trans [of "{}" "v_world u" "v_world v" "{}" "v_world w" "{}"] by (simp add: only_read_def)
qed

lemma only_read_same:
  assumes "only_read v v'"
  shows "v_geometry v' = v_geometry v" "v_report v' = v_report v" "v_images v' = v_images v" "v_versions v' = v_versions v" "v_clock v' = v_clock v"
    "v_clockValid v' = v_clockValid v" "v_walBytes v' = v_walBytes v" "v_walRecord v' = v_walRecord v" "v_walFound v' = v_walFound v"
    "v_intentOK v' = v_intentOK v" "content (v_world v') = content (v_world v)" "w_dirs (v_world v') = w_dirs (v_world v)"
proof -
  have e: "v' = v\<lparr>v_world := v_world v'\<rparr>" using assms by (simp add: only_read_def)
  show "v_geometry v' = v_geometry v" "v_report v' = v_report v" "v_images v' = v_images v" "v_versions v' = v_versions v" "v_clock v' = v_clock v"
    "v_clockValid v' = v_clockValid v" "v_walBytes v' = v_walBytes v" "v_walRecord v' = v_walRecord v" "v_walFound v' = v_walFound v"
    "v_intentOK v' = v_intentOK v" by (subst e, simp)+
  show "content (v_world v') = content (v_world v)" "w_dirs (v_world v') = w_dirs (v_world v)"
    using assms by (auto simp: only_read_def fx_def fun_eq_iff)
qed

lemma lstat_effect: "os_lstat p w = (r, w') \<Longrightarrow> fx {} w w' \<and> (\<forall>b. r = Inr b \<longrightarrow> b = is_dir w p)"
  by (auto simp: os_lstat_def os_effects split: fault.splits if_splits)

lemma open_effect: "os_open p w = (r, w') \<Longrightarrow> fx {} w w'"
  by (auto simp: os_open_def os_effects split: fault.splits if_splits)

lemma noop_effect: "os_noop c w = (r, w') \<Longrightarrow> fx {} w w'"
  by (auto simp: os_noop_def os_effects split: fault.splits if_splits)

lemma read_part_effect: "os_read_part p off n w = (r, w') \<Longrightarrow> fx {} w w' \<and>
    (\<forall>b. r = Inr b \<longrightarrow> (\<exists>d. content w p = Some d \<and> off + n \<le> length d \<and> b = take n (drop off d)))"
  by (auto simp: os_read_part_def os_effects split: fault.splits if_splits option.splits)

lemma entries_effect: "os_read_entries p w = (r, w') \<Longrightarrow> fx {} w w' \<and>
    (\<forall>es. r = Inr es \<longrightarrow> distinct (map fst es) \<and>
       set es = {(name, is_dir w (p @ [name])) |name. content w (p @ [name]) \<noteq> None \<or> p @ [name] \<in> set (w_dirs w)})"
proof -
  have n: "name \<in> set (map last (filter (\<lambda>q. q \<noteq> [] \<and> butlast q = p) (map fst (w_files w) @ w_dirs w))) \<longleftrightarrow>
      content w (p @ [name]) \<noteq> None \<or> p @ [name] \<in> set (w_dirs w)" for name
  proof -
    have q: "q \<noteq> [] \<and> butlast q = p \<and> last q = name \<longleftrightarrow> q = p @ [name]" for q by (metis append_butlast_last_id butlast_snoc last_snoc snoc_eq_iff_butlast)
    have "name \<in> set (map last (filter (\<lambda>q. q \<noteq> [] \<and> butlast q = p) qs)) \<longleftrightarrow> (\<exists>q\<in>set qs. q \<noteq> [] \<and> butlast q = p \<and> last q = name)" for qs by auto
    then have "name \<in> set (map last (filter (\<lambda>q. q \<noteq> [] \<and> butlast q = p) qs)) \<longleftrightarrow> p @ [name] \<in> set qs" for qs unfolding q by blast
    moreover have "p @ [name] \<in> set (map fst (w_files w)) \<longleftrightarrow> content w (p @ [name]) \<noteq> None"
      unfolding content_def map_of_eq_None_iff by simp
    ultimately show ?thesis by (metis (no_types, lifting) Un_iff set_append)
  qed
  assume "os_read_entries p w = (r, w')"
  then have e: "fx {} w w' \<and> (\<forall>es. r = Inr es \<longrightarrow> es = map (\<lambda>name. (name, is_dir w (p @ [name])))
      (sort (remdups (map last (filter (\<lambda>q. q \<noteq> [] \<and> butlast q = p) (map fst (w_files w) @ w_dirs w))))))"
    by (auto simp: os_read_entries_def os_effects split: fault.splits if_splits)
  show ?thesis
  proof (intro conjI allI impI)
    fix es assume "r = Inr es"
    with e have es: "es = map (\<lambda>name. (name, is_dir w (p @ [name])))
      (sort (remdups (map last (filter (\<lambda>q. q \<noteq> [] \<and> butlast q = p) (map fst (w_files w) @ w_dirs w)))))" by blast
    show "distinct (map fst es)" unfolding es map_map comp_def fst_conv map_ident by (simp only: distinct_sort distinct_remdups)
    show "set es = {(name, is_dir w (p @ [name])) |name. content w (p @ [name]) \<noteq> None \<or> p @ [name] \<in> set (w_dirs w)}"
      unfolding es set_map set_sort set_remdups n [unfolded set_map, symmetric] by blast
  qed (use e in blast)
qed

lemma readFileBounded_effect:
  assumes "readFileBounded p n w = (r, w')"
  shows "fx {} w w' \<and> (\<forall>d. r = Inr d \<longrightarrow> content w p = Some d)"
  using assms unfolding readFileBounded_def
proof (cases rule: andThen_result)
  case (failed e)
  then show ?thesis using lstat_effect by blast
next
  case (went b t)
  note e1 = conjunct1 [OF lstat_effect [OF went(1)]]
  show ?thesis
  proof (cases b)
    case True
    then show ?thesis using went(2) e1 by (auto simp: raise_def)
  next
    case False
    then have w2: "andThen (os_open p) (\<lambda>_. catch (andThen (os_size p) (\<lambda>size. if n < int size then raise []
        else if 9223372036854775807 < int size then raise [] else os_read_part p 0 size))
        (\<lambda>returnErr. catch (os_noop (OsClose p)) (\<lambda>err. raise (returnErr @ err)) (\<lambda>_. raise returnErr))
        (\<lambda>encoded. andThen (os_noop (OsClose p)) (\<lambda>_. ret encoded))) t = (r, w')" using went(2) by simp
    show ?thesis using w2
    proof (cases rule: andThen_result)
      case (failed e)
      then show ?thesis using open_effect [OF failed(1)] fx_trans [OF e1] by auto
    next
      case (went u t2)
      have e2: "fx {} w t2" using fx_trans [OF e1 open_effect [OF went(1)]] by simp
      obtain q t3 where b: "andThen (os_size p) (\<lambda>size. if n < int size then raise []
        else if 9223372036854775807 < int size then raise [] else os_read_part p 0 size) t2 = (q, t3)" by fastforce
      have e3: "fx {} t2 t3 \<and> (\<forall>d. q = Inr d \<longrightarrow> content t2 p = Some d)" using b
      proof (cases rule: andThen_result)
        case (failed e)
        then show ?thesis using size_effect(1) by blast
      next
        case (went m t4)
        note z = size_effect [OF went(1)]
        have "content t4 p = content t2 p" using fx_content [OF z(1)] by simp
        then show ?thesis using went(2) z(1,2) read_part_effect [of p 0 m t4 q t3] fx_trans [OF z(1), of "{}" t3 "{}"] by (auto simp: raise_def split: if_splits)
      qed
      obtain q2 t4 where c: "os_noop (OsClose p) t3 = (q2, t4)" by fastforce
      have "t4 = w' \<and> (\<forall>d. r = Inr d \<longrightarrow> q = Inr d)" using went(2) b c by (cases q; cases q2; auto simp: catch_def andThen_def raise_def ret_def)
      moreover have "fx {} w t4" using fx_trans [OF fx_trans [OF e2 conjunct1 [OF e3], of "{}"] noop_effect [OF c], of "{}"] by simp
      ultimately show ?thesis using e3 fx_content [OF e2, of p] by auto
    qed
  qed
qed


section \<open>The control files\<close>

lemma checks_fs:
  assumes "\<And>w r w'. m w = (r, w') \<Longrightarrow> fx {} w w' \<and> (\<forall>x. r = Inr x \<longrightarrow> R w x)"
  shows "checks (\<lambda>v x v'. R (v_world v) x \<and> only_read v v') (on_fs m)"
  unfolding only_read_def by (rule checks_on_fs) (rule assms)

lemma checks_read: "checks (\<lambda>v d v'. content (v_world v) p = Some d \<and> only_read v v') (on_fs (readFileBounded p n))"
  by (rule checks_fs) (rule readFileBounded_effect)

lemma checks_call: "(\<And>w r w'. m w = (r, w') \<Longrightarrow> fx {} w w') \<Longrightarrow> checks (\<lambda>v _ v'. only_read v v') (on_fs m)"
  using checks_fs [where m = m and R = "\<lambda>_ _. True"] by simp

lemma checks_issue_then: "(\<And>x. checks (R x) (f x)) \<Longrightarrow> checks (\<lambda>_ _ _. False) (andThen (issue c p d) f)"
  by (rule checks_conseq [OF checks_andThen [OF checks_issue]]) simp_all

lemma checks_issue_any: "checks Q (issue code path detail)"
  by (rule checks_conseq [OF checks_issue]) simp

lemma checks_if: "(b \<Longrightarrow> checks P m) \<Longrightarrow> (\<not> b \<Longrightarrow> checks Q n) \<Longrightarrow> checks (\<lambda>v x v'. if b then P v x v' else Q v x v') (if b then m else n)"
  by simp

text \<open>An issue unless the condition holds.\<close>

lemma checks_unless: "checks (\<lambda>v _ v'. \<not> b \<and> v' = v) (if b then issue c p d else ret ())"
  using checks_if [OF checks_issue checks_ret, of b] by (rule checks_conseq) (auto split: if_splits)

lemma checks_when: "checks (\<lambda>v _ v'. \<not> b v \<and> v' = v) (\<lambda>v. if b v then issue c p (d v) v else (Inr (), v))"
  using checks_issue by (auto simp: checks_def)

text \<open>A step that looks at the verifier before it decides what to do.\<close>

lemma checks_look:
  assumes "\<And>v. checks (\<lambda>u x u'. u = v \<longrightarrow> Q v x u') (m v)" "\<And>v. n v = m v v"
  shows "checks Q n"
  using assms by (simp add: checks_def)

definition generation_ok :: "world \<Rightarrow> uint64 \<Rightarrow> bool" where
  "generation_ok w generation \<longleftrightarrow>
     even generation \<and> (\<exists>d. content w snapshotPath = Some d \<and> decodeSnapshotGeneration d = Inr generation)"

lemma checks_verifyGeneration: "checks (\<lambda>v x v'. snd x \<and> generation_ok (v_world v) (fst x) \<and> only_read v v') (verifyGeneration describe)"
proof -
  let ?R = "\<lambda>d v x v'. \<exists>generation. decodeSnapshotGeneration d = Inr generation \<and> even generation \<and> x = (generation, True) \<and> v' = v"
  have f: "checks (?R d) (case decodeSnapshotGeneration d of
          Inl err \<Rightarrow> andThen (issue ''generation_corrupt'' (slashed snapshotPath) (describe snapshotPath err)) (\<lambda>_. ret (0, False))
        | Inr generation \<Rightarrow>
            andThen (if generation mod 2 \<noteq> 0
                     then issue ''generation_unstable'' (slashed snapshotPath) (''generation '' @ FormatUint generation @ '' is odd'')
                     else ret ())
              (\<lambda>_. ret (generation, True)))" for d
  proof (cases "decodeSnapshotGeneration d")
    case (Inl e)
    show ?thesis unfolding Inl sum.case by (rule checks_conseq [OF checks_issue_then [OF checks_ret]]) simp
  next
    case (Inr generation)
    show ?thesis unfolding Inr sum.case by (rule checks_conseq [OF checks_andThen [OF checks_unless checks_ret]]) auto
  qed
  show ?thesis unfolding verifyGeneration_def
    by (rule checks_conseq [OF checks_catch [OF checks_read _ f]])
      (auto simp: generation_ok_def intro!: checks_issue_then checks_ret)
qed

lemma checks_verifyFinalGeneration: "checks (\<lambda>v _ v'. only_read v v') (verifyFinalGeneration describe generation)"
proof -
  have f: "checks (\<lambda>v _ v'. v' = v) (case decodeSnapshotGeneration d of
          Inl err \<Rightarrow> issue ''generation_changed'' (slashed snapshotPath) (describe snapshotPath err)
        | Inr g \<Rightarrow> if g \<noteq> generation
            then issue ''generation_changed'' (slashed snapshotPath)
                   (''generation changed from '' @ FormatUint generation @ '' to '' @ FormatUint g @ '' during verification'')
            else ret ())" for d
    by (cases "decodeSnapshotGeneration d") (auto intro: checks_conseq [OF checks_issue] checks_conseq [OF checks_ret])
  show ?thesis unfolding verifyFinalGeneration_def by (rule checks_conseq [OF checks_catch [OF checks_read checks_issue f]]) auto
qed

definition clock_ok :: "world \<Rightarrow> uint64 \<Rightarrow> bool" where
  "clock_ok w clock \<longleftrightarrow> (\<exists>d. content w versionClockPath = Some d \<and> decodeVersionClock d = Inr clock)"

lemma checks_verifyClock:
  "checks (\<lambda>v _ v'. \<exists>t clock. clock_ok (v_world v) clock \<and> only_read v t \<and> v' = t\<lparr>v_clock := clock, v_clockValid := True\<rparr>)
     (verifyClock describe)"
proof -
  have f: "checks (\<lambda>v _ v'. length d = 20 \<and> take 8 d = versionClockMagic \<and> ChecksumIEEE (take 16 d) = mustUint32 (drop 16 d) \<and>
        v' = v\<lparr>v_clock := mustUint64 (go_slice 8 16 d), v_clockValid := True\<rparr>)
      (if length d \<noteq> 20 \<or> take 8 d \<noteq> versionClockMagic
          then issue ''version_clock_corrupt'' (slashed versionClockPath) ''invalid version clock header''
          else if ChecksumIEEE (take 16 d) \<noteq> mustUint32 (drop 16 d)
          then issue ''version_clock_corrupt'' (slashed versionClockPath) ''version clock checksum mismatch''
          else update (\<lambda>v. v\<lparr>v_clock := mustUint64 (go_slice 8 16 d), v_clockValid := True\<rparr>))" for d
    by (simp add: checks_issue_any, intro impI, rule checks_conseq [OF checks_update]) simp_all
  have h: "checks (\<lambda>_ _ _. False) (if errors_is err ErrNotExist
          then issue ''version_clock_missing'' (slashed versionClockPath) ''version clock file is missing''
          else issue ''version_clock_unreadable'' (slashed versionClockPath) (describe versionClockPath err))" for err
    by (auto intro: checks_issue)
  show ?thesis unfolding verifyClock_def
  proof (rule checks_conseq [OF checks_catch [OF checks_read h f]], elim exE conjE)
    fix v v' t and d :: bytes
    assume "content (v_world v) versionClockPath = Some d" "only_read v t" "length d = 20" "take 8 d = versionClockMagic"
      "ChecksumIEEE (take 16 d) = mustUint32 (drop 16 d)" and v': "v' = t\<lparr>v_clock := mustUint64 (go_slice 8 16 d), v_clockValid := True\<rparr>"
    then have "clock_ok (v_world v) (mustUint64 (go_slice 8 16 d)) \<and> only_read v t" by (simp add: clock_ok_def decodeVersionClock_def)
    then show "\<exists>t clock. clock_ok (v_world v) clock \<and> only_read v t \<and> v' = t\<lparr>v_clock := clock, v_clockValid := True\<rparr>" using v' by blast
  qed
qed


section \<open>The walk through the directory\<close>

text \<open>What the verifier knows of a chunk's version.\<close>

definition version_ok :: "Geometry \<Rightarrow> world \<Rightarrow> Coord \<Rightarrow> uint64 \<Rightarrow> bool" where
  "version_ok g w c k \<longleftrightarrow> k \<noteq> 0 \<and> (\<exists>d. content w (chunkVersionPath g c) = Some d \<and> decodeChunkVersion c d = Inr k)"

definition versions_ok :: "verifier \<Rightarrow> bool" where
  "versions_ok v \<longleftrightarrow> (\<forall>c k. map_of (v_versions v) c = Some k \<longrightarrow> version_ok (v_geometry v) (v_world v) c k \<and> (v_clockValid v \<longrightarrow> k \<le> v_clock v))"

text \<open>During the walk knowledge only grows and the disk stays.\<close>

definition grows :: "verifier \<Rightarrow> verifier \<Rightarrow> bool" where
  "grows v v' \<longleftrightarrow>
     v_geometry v' = v_geometry v \<and> content (v_world v') = content (v_world v) \<and> w_dirs (v_world v') = w_dirs (v_world v) \<and>
     v_clock v' = v_clock v \<and> v_clockValid v' = v_clockValid v \<and>
     fst ` set (v_images v) \<subseteq> fst ` set (v_images v') \<and> v_walFound v' = v_walFound v \<and> v_intentOK v' = v_intentOK v \<and>
     (versions_ok v \<longrightarrow> versions_ok v')"

lemma grows_refl: "grows v v"
  by (simp add: grows_def)

lemma grows_trans: "grows u v \<Longrightarrow> grows v w \<Longrightarrow> grows u w"
  by (auto simp: grows_def)

lemma grows_read:
  assumes "only_read v v'"
  shows "grows v v'"
  using only_read_same [OF assms] by (simp add: grows_def versions_ok_def version_ok_def)

definition image_decodes :: "Geometry \<Rightarrow> world \<Rightarrow> path \<Rightarrow> Coord \<Rightarrow> bool" where
  "image_decodes g w p c \<longleftrightarrow> (\<exists>d chunk. content w p = Some d \<and> decode g c d = Inr chunk)"

lemma checks_verifyImage:
  "checks (\<lambda>v _ v'. grows v v' \<and> image_decodes (v_geometry v) (v_world v) p c \<and> c \<in> fst ` set (v_images v')) (verifyImage describe p c)"
proof -
  define m where "m stateBytes = catch (on_fs (readFileBounded p (int headerBytes + int checksumSize + stateBytes * 2)))
           (\<lambda>err. issue ''image_unreadable'' (slashed p) (describe p err))
           (\<lambda>encoded v. case decode (v_geometry v) c encoded of
              Inl err \<Rightarrow> issue ''image_corrupt'' (slashed p) (describe p err) v
            | Inr _ \<Rightarrow> (Inr (), v\<lparr>v_images := AList.update c (slashed p) (v_images v),
                                  v_report := (v_report v)\<lparr>vr_Images := vr_Images (v_report v) + 1\<rparr>\<rparr>))" for stateBytes
  have f: "checks (\<lambda>v _ v'. (\<exists>chunk. decode (v_geometry v) c d = Inr chunk) \<and> v' = v\<lparr>v_images := AList.update c (slashed p) (v_images v),
                                  v_report := (v_report v)\<lparr>vr_Images := vr_Images (v_report v) + 1\<rparr>\<rparr>)
     (\<lambda>v. case decode (v_geometry v) c d of
              Inl err \<Rightarrow> issue ''image_corrupt'' (slashed p) (describe p err) v
            | Inr _ \<Rightarrow> (Inr (), v\<lparr>v_images := AList.update c (slashed p) (v_images v),
                                  v_report := (v_report v)\<lparr>vr_Images := vr_Images (v_report v) + 1\<rparr>\<rparr>))" for d
    using checks_issue by (auto simp: checks_def clean_def split: sum.splits)
  have m: "checks (\<lambda>v _ v'. grows v v' \<and> image_decodes (v_geometry v) (v_world v) p c \<and> c \<in> fst ` set (v_images v')) (m n)" for n
    unfolding m_def
  proof (rule checks_conseq [OF checks_catch [OF checks_read checks_issue f]], elim exE conjE)
    fix v v' d t chunk
    assume a: "content (v_world v) p = Some d" "only_read v t" "decode (v_geometry t) c d = Inr chunk"
      and v': "v' = t\<lparr>v_images := AList.update c (slashed p) (v_images t), v_report := (v_report t)\<lparr>vr_Images := vr_Images (v_report t) + 1\<rparr>\<rparr>"
    have "grows t v'" by (auto simp: grows_def v' versions_ok_def dom_update)
    then show "grows v v' \<and> image_decodes (v_geometry v) (v_world v) p c \<and> c \<in> fst ` set (v_images v')"
      using a grows_trans [OF grows_read [OF a(2)]] only_read_same(1) [OF a(2)] by (auto simp: image_decodes_def v' dom_update)
  qed
  show ?thesis
  proof (rule checksI)
    fix v r v' assume i: "verifyImage describe p c v = (r, v')"
    show "v_geometry v' = v_geometry v \<and> fx {} (v_world v) (v_world v') \<and> (clean v' \<longrightarrow> clean v \<and>
        (\<forall>x. r = Inr x \<longrightarrow> grows v v' \<and> image_decodes (v_geometry v) (v_world v) p c \<and> c \<in> fst ` set (v_images v')))"
      using i m [unfolded checks_def] checks_issue [unfolded checks_def]
      unfolding verifyImage_def Let_def m_def [symmetric] by (auto split: if_splits)
  qed
qed


lemma grows_count_version:
  assumes "version_ok (v_geometry v) (v_world v) c k" "v_clockValid v \<longrightarrow> k \<le> v_clock v"
  shows "grows v (count_version c k v)"
  using assms by (auto simp: grows_def count_version_def versions_ok_def update_conv')

lemma checks_verifyVersion:
  "checks (\<lambda>v _ v'. p = chunkVersionPath (v_geometry v) c \<longrightarrow> grows v v') (verifyVersion describe p c)"
proof -
  have late: "checks (\<lambda>v _ v'. k \<noteq> 0 \<and> \<not> (v_clockValid v \<and> v_clock v < k) \<and> v' = count_version c k v)
      (andThen (update (count_version c k)) (\<lambda>_.
       andThen (if k = 0 then issue ''version_invalid'' (slashed p) ''persisted chunk version is zero'' else ret ()) (\<lambda>_ v.
       if v_clockValid v \<and> v_clock v < k
       then issue ''version_ahead_of_clock'' (slashed p) (''chunk version '' @ FormatUint k @ '' exceeds clock '' @ FormatUint (v_clock v)) v
       else (Inr (), v))))" for k
    by (rule checks_conseq [OF checks_andThen [OF checks_update checks_andThen [OF checks_unless checks_when]]]) (auto simp: count_version_def)
  let ?D = "\<lambda>d. length d = 36 \<and> take 8 d = versionFileMagic \<and> ChecksumIEEE (take (length d - checksumSize) d) = mustUint32 (drop (length d - checksumSize) d) \<and>
      mustUint64 (go_slice 8 16 d) = coord_X c \<and> mustUint64 (go_slice 16 24 d) = coord_Y c"
  have f: "checks (\<lambda>v _ v'. ?D d \<and> mustUint64 (go_slice 24 32 d) \<noteq> 0 \<and> \<not> (v_clockValid v \<and> v_clock v < mustUint64 (go_slice 24 32 d)) \<and>
        v' = count_version c (mustUint64 (go_slice 24 32 d)) v)
      (if length d \<noteq> 36 \<or> take 8 d \<noteq> versionFileMagic
          then issue ''version_corrupt'' (slashed p) ''invalid chunk version header''
          else if ChecksumIEEE (take (length d - checksumSize) d) \<noteq> mustUint32 (drop (length d - checksumSize) d)
          then issue ''version_corrupt'' (slashed p) ''chunk version checksum mismatch''
          else if mustUint64 (go_slice 8 16 d) \<noteq> coord_X c \<or> mustUint64 (go_slice 16 24 d) \<noteq> coord_Y c
          then issue ''version_corrupt'' (slashed p) ''chunk version coordinate mismatch''
          else let version = mustUint64 (go_slice 24 32 d)
          in andThen (update (count_version c version)) (\<lambda>_.
             andThen (if version = 0 then issue ''version_invalid'' (slashed p) ''persisted chunk version is zero'' else ret ()) (\<lambda>_ v.
             if v_clockValid v \<and> v_clock v < version
             then issue ''version_ahead_of_clock'' (slashed p) (''chunk version '' @ FormatUint version @ '' exceeds clock '' @ FormatUint (v_clock v)) v
             else (Inr (), v))))" for d
    unfolding Let_def by (cases "?D d") (use late [of "mustUint64 (go_slice 24 32 d)"] in \<open>simp_all add: checks_issue_any\<close>)
  show ?thesis unfolding verifyVersion_def
  proof (rule checks_conseq [OF checks_catch [OF checks_read checks_issue f]], elim exE conjE, rule impI)
    fix v v' d t
    assume a: "content (v_world v) p = Some d" "only_read v t" "length d = 36" "take 8 d = versionFileMagic"
      "ChecksumIEEE (take (length d - checksumSize) d) = mustUint32 (drop (length d - checksumSize) d)"
      "mustUint64 (go_slice 8 16 d) = coord_X c" "mustUint64 (go_slice 16 24 d) = coord_Y c" "mustUint64 (go_slice 24 32 d) \<noteq> 0"
      "\<not> (v_clockValid t \<and> v_clock t < mustUint64 (go_slice 24 32 d))" "p = chunkVersionPath (v_geometry v) c"
      and v': "v' = count_version c (mustUint64 (go_slice 24 32 d)) t"
    have "decodeChunkVersion c d = Inr (mustUint64 (go_slice 24 32 d))" using a by (simp add: decodeChunkVersion_def)
    then have "version_ok (v_geometry t) (v_world t) c (mustUint64 (go_slice 24 32 d))"
      using a(1,8,10) only_read_same [OF a(2)] by (simp add: version_ok_def)
    then have "grows t v'" unfolding v' using a(9) by (intro grows_count_version) auto
    then show "grows v v'" by (rule grows_trans [OF grows_read [OF a(2)]])
  qed
qed

section \<open>The log\<close>

lemma grows_wal: "grows v (v\<lparr>v_report := r\<rparr>)" "grows v (v\<lparr>v_walRecord := n\<rparr>)" "grows v (v\<lparr>v_walBytes := n\<rparr>)"
  by (simp_all add: grows_def versions_ok_def)

lemma grows_same: "grows v v' \<Longrightarrow> v_geometry v' = v_geometry v" "grows v v' \<Longrightarrow> content (v_world v') = content (v_world v)" "grows v v' \<Longrightarrow> w_dirs (v_world v') = w_dirs (v_world v)"
  by (simp_all add: grows_def)

lemma checks_wal_loop:
  "checks (\<lambda>v finished v'. finished \<and> grows v v' \<and>
     (\<forall>wal. content (v_world v) walPath = Some wal \<longrightarrow> snd (scan_records (v_geometry v) recordSize n (drop offset wal)) = None))
   (wal_loop describe recordSize n offset)"
proof (induction n arbitrary: offset)
  case 0
  show ?case unfolding wal_loop.simps by (rule checks_conseq [OF checks_ret]) (simp add: grows_refl)
next
  case (Suc n)
  let ?count = "\<lambda>v. v\<lparr>v_report := (v_report v)\<lparr>vr_WAL := vr_WAL (v_report v) + 1\<rparr>\<rparr>"
  let ?next = "andThen (update ?count) (\<lambda>_. wal_loop describe recordSize n (offset + recordSize))"
  let ?P = "\<lambda>off n v finished v'. finished \<and> grows v v' \<and>
     (\<forall>wal. content (v_world v) walPath = Some wal \<longrightarrow> snd (scan_records (v_geometry v) recordSize n (drop off wal)) = None)"
  have nx: "checks (?P (offset + recordSize) n) ?next"
  proof (rule checks_conseq [OF checks_andThen [OF checks_update Suc.IH]])
    fix v finished v'' assume "\<exists>(x::unit) v'. v' = ?count v \<and> ?P (offset + recordSize) n v' finished v''"
    then show "?P (offset + recordSize) n v finished v''" using grows_trans [OF grows_wal(1)] by auto
  qed simp_all
  have f: "checks (\<lambda>v finished v'. (\<exists>r. decodeWALRecord (v_geometry v) d = Inr r) \<and> ?P (offset + recordSize) n v finished v')
     (\<lambda>v. case decodeWALRecord (v_geometry v) d of
          Inl err \<Rightarrow> andThen (issue ''wal_corrupt'' (slashed walPath) (''record at byte '' @ FormatUint (of_nat offset) @ '': '' @ describe walPath err)) (\<lambda>_. ret False) v
        | Inr _ \<Rightarrow> ?next v)" for d
  proof (rule checksI)
    fix v r v'
    assume m: "(case decodeWALRecord (v_geometry v) d of
          Inl err \<Rightarrow> andThen (issue ''wal_corrupt'' (slashed walPath) (''record at byte '' @ FormatUint (of_nat offset) @ '': '' @ describe walPath err)) (\<lambda>_. ret False) v
        | Inr _ \<Rightarrow> ?next v) = (r, v')"
    show "v_geometry v' = v_geometry v \<and> fx {} (v_world v) (v_world v') \<and> (clean v' \<longrightarrow> clean v \<and>
        (\<forall>x. r = Inr x \<longrightarrow> (\<exists>r. decodeWALRecord (v_geometry v) d = Inr r) \<and> ?P (offset + recordSize) n v x v'))"
    proof (cases "decodeWALRecord (v_geometry v) d")
      case (Inl e)
      then show ?thesis using m checks_issue_then [OF checks_ret, unfolded checks_def, rule_format] by simp
    next
      case (Inr x)
      then show ?thesis using m nx [unfolded checks_def, rule_format, of v r v'] by auto
    qed
  qed
  have rd: "checks (\<lambda>v b v'. (\<exists>d. content (v_world v) walPath = Some d \<and> offset + recordSize \<le> length d \<and> b = take recordSize (drop offset d)) \<and> only_read v v')
      (on_fs (os_read_part walPath offset recordSize))"
    by (rule checks_fs) (rule read_part_effect)
  show ?case unfolding wal_loop.simps
  proof (rule checks_conseq [OF checks_catch [OF rd checks_issue_then [OF checks_ret] f]], elim exE conjE)
    fix v finished v'' b t d r
    assume a: "only_read v t" "content (v_world v) walPath = Some d" "b = take recordSize (drop offset d)" "decodeWALRecord (v_geometry t) b = Inr r"
      and p: "finished" "grows t v''" "\<forall>wal. content (v_world t) walPath = Some wal \<longrightarrow> snd (scan_records (v_geometry t) recordSize n (drop (offset + recordSize) wal)) = None"
    note same = only_read_same [OF a(1)]
    have "snd (scan_records (v_geometry v) recordSize n (drop recordSize (drop offset d))) = None"
      using p(3) a(2) same by (simp add: add.commute)
    then show "?P offset (Suc n) v finished v''"
      using p(1) grows_trans [OF grows_read [OF a(1)] p(2)] a(2,3,4) same by (auto split: prod.splits)
  qed
qed


definition log_ok :: "Geometry \<Rightarrow> world \<Rightarrow> bool" where
  "log_ok g w \<longleftrightarrow> (\<exists>wal. content w walPath = Some wal \<and> snd (snd (scanWAL g wal)) = None)"

lemma scanWAL_full:
  assumes "take 8 wal = magic" "8 \<le> length wal" "magic = walMagic \<or> magic = legacyWALMagic"
    and "n = (if magic = walMagic then walHeaderBytes + checksumSize + payloadBytes g + presenceBytes g else walHeaderBytes + checksumSize + payloadBytes g)"
    and "snd (scan_records g n (length wal div n) wal) = None"
  shows "snd (snd (scanWAL g wal)) = None"
proof -
  have "length walMagic = 8" "walMagic \<noteq> legacyWALMagic" by (simp_all add: walMagic_def legacyWALMagic_def)
  then show ?thesis using assms by (auto simp: scanWAL_def Let_def ac_simps split: prod.splits if_splits)
qed

lemma checks_wal_scan:
  "checks (\<lambda>v _ v'. grows v v' \<and> (\<forall>wal. content (v_world v) walPath = Some wal \<longrightarrow> snd (scan_records (v_geometry v) n (fileSize div n) wal) = None))
     (andThen (update (\<lambda>v. v\<lparr>v_walRecord := of_nat n\<rparr>)) (\<lambda>_.
        catch (on_fs (os_noop (OsSeek walPath)))
          (\<lambda>err. issue ''wal_unreadable'' (slashed walPath) (describe walPath err))
          (\<lambda>_. andThen (wal_loop describe n (fileSize div n) 0) (\<lambda>finished.
             if finished \<and> fileSize div n * n \<noteq> fileSize
             then issue ''wal_truncated'' (slashed walPath)
                    (''WAL has '' @ FormatUint (of_nat (fileSize - fileSize div n * n)) @ '' trailing bytes after complete records'')
             else ret ()))))"
proof (rule checks_conseq [OF checks_andThen [OF checks_update checks_catch [OF checks_call checks_issue checks_andThen [OF checks_wal_loop checks_unless]]]], goal_cases)
  case (5 v x v')
  then obtain t1 t2 t3 where t: "t1 = v\<lparr>v_walRecord := of_nat n\<rparr>" "only_read t1 t2" "grows t2 v'"
      "\<forall>wal. content (v_world t2) walPath = Some wal \<longrightarrow> snd (scan_records (v_geometry t2) n (fileSize div n) (drop 0 wal)) = None" by auto
  have "grows v t1" using grows_wal(2) t(1) by simp
  then have "grows v v'" using grows_trans grows_read [OF t(2)] t(3) by blast
  then show ?case using t(4) only_read_same [OF t(2)] t(1) by simp
qed (auto dest: noop_effect)

definition log_record_size :: "bytes \<Rightarrow> Geometry \<Rightarrow> nat" where
  "log_record_size magic g =
     (if magic = walMagic then walHeaderBytes + checksumSize + payloadBytes g + presenceBytes g else walHeaderBytes + checksumSize + payloadBytes g)"

lemma checks_wal_records:
  "checks (\<lambda>v _ v'. grows v v' \<and> (\<forall>wal. content (v_world v) walPath = Some wal \<and> length wal = fileSize \<and> take 8 wal = magic \<and> 8 \<le> fileSize \<longrightarrow>
      snd (snd (scanWAL (v_geometry v) wal)) = None)) (wal_records describe fileSize magic)"
proof -
  define m where "m n = andThen (update (\<lambda>v. v\<lparr>v_walRecord := of_nat n\<rparr>)) (\<lambda>_.
           catch (on_fs (os_noop (OsSeek walPath)))
             (\<lambda>err. issue ''wal_unreadable'' (slashed walPath) (describe walPath err))
             (\<lambda>_. andThen (wal_loop describe n (fileSize div n) 0) (\<lambda>finished.
                  if finished \<and> fileSize div n * n \<noteq> fileSize
                  then issue ''wal_truncated'' (slashed walPath)
                         (''WAL has '' @ FormatUint (of_nat (fileSize - fileSize div n * n)) @ '' trailing bytes after complete records'')
                  else ret ())))" for n
  define k where "k v = (if magic \<noteq> walMagic \<and> magic \<noteq> legacyWALMagic then issue ''wal_corrupt'' (slashed walPath) ''invalid record magic''
      else if 9223372036854775807 < int (log_record_size magic (v_geometry v)) then issue ''wal_corrupt'' (slashed walPath) ''WAL record size exceeds platform limits''
      else m (log_record_size magic (v_geometry v)))" for v :: verifier
  have "wal_records describe fileSize magic v = k v v" for v
    unfolding wal_records_def k_def m_def Let_def log_record_size_def by auto
  moreover have "checks (\<lambda>u x u'. u = v \<longrightarrow> grows v u' \<and> (\<forall>wal. content (v_world v) walPath = Some wal \<and> length wal = fileSize \<and> take 8 wal = magic \<and> 8 \<le> fileSize \<longrightarrow>
      snd (snd (scanWAL (v_geometry v) wal)) = None)) (k v)" for v
  proof (cases "magic \<noteq> walMagic \<and> magic \<noteq> legacyWALMagic \<or> 9223372036854775807 < int (log_record_size magic (v_geometry v))")
    case True
    then show ?thesis by (auto simp: k_def checks_issue_any)
  next
    case False
    then have k: "k v = m (log_record_size magic (v_geometry v))" "magic = walMagic \<or> magic = legacyWALMagic" by (auto simp: k_def)
    show ?thesis unfolding k(1) m_def
      by (rule checks_conseq [OF checks_wal_scan]) (use k(2) scanWAL_full [of _ magic "log_record_size magic (v_geometry v)" "v_geometry v"] in \<open>auto simp: log_record_size_def\<close>)
  qed
  ultimately show ?thesis by (rule checks_look [rotated])
qed


lemma checks_wal_body: "checks (\<lambda>v _ v'. grows v v' \<and> log_ok (v_geometry v) (v_world v)) (wal_body describe)"
proof -
  have m8: "length walMagic = 8" by (simp add: walMagic_def)
  have e: "snd (snd (scanWAL g [])) = None" for g by (simp add: scanWAL_def Let_def m8)
  have sz: "checks (\<lambda>v n v'. (\<exists>d. content (v_world v) walPath = Some d \<and> n = length d) \<and> only_read v v') (on_fs (os_size walPath))"
    by (rule checks_fs) (use size_effect(1,2) in blast)
  have rd: "checks (\<lambda>v b v'. (\<exists>d. content (v_world v) walPath = Some d \<and> 0 + length walMagic \<le> length d \<and> b = take (length walMagic) (drop 0 d)) \<and> only_read v v')
      (on_fs (os_read_part walPath 0 (length walMagic)))"
    by (rule checks_fs) (rule read_part_effect)
  have f: "checks (\<lambda>v _ v'. grows v v' \<and> (\<forall>wal. content (v_world v) walPath = Some wal \<and> length wal = n \<longrightarrow> snd (snd (scanWAL (v_geometry v) wal)) = None))
      (if n = 0 then ret ()
       else if n < length walMagic
       then issue ''wal_truncated'' (slashed walPath) (''WAL has '' @ FormatUint (of_nat n) @ '' trailing bytes'')
       else catch (on_fs (os_read_part walPath 0 (length walMagic)))
         (\<lambda>err. issue ''wal_unreadable'' (slashed walPath) (describe walPath err)) (wal_records describe n))" for n
  proof -
    have "checks (\<lambda>v _ v'. grows v v' \<and> (\<forall>wal. content (v_world v) walPath = Some wal \<and> length wal = n \<longrightarrow> snd (snd (scanWAL (v_geometry v) wal)) = None))
      (catch (on_fs (os_read_part walPath 0 (length walMagic)))
         (\<lambda>err. issue ''wal_unreadable'' (slashed walPath) (describe walPath err)) (wal_records describe n))"
    proof (rule checks_conseq [OF checks_catch [OF rd checks_issue checks_wal_records]], elim exE conjE)
      fix v v' b t d
      assume a: "only_read v t" "grows t v'" "\<forall>wal. content (v_world t) walPath = Some wal \<and> length wal = n \<and> take 8 wal = b \<and> 8 \<le> n \<longrightarrow>
          snd (snd (scanWAL (v_geometry t) wal)) = None" "content (v_world v) walPath = Some d" "0 + length walMagic \<le> length d" "b = take (length walMagic) (drop 0 d)"
      then show "grows v v' \<and> (\<forall>wal. content (v_world v) walPath = Some wal \<and> length wal = n \<longrightarrow> snd (snd (scanWAL (v_geometry v) wal)) = None)"
        using grows_trans [OF grows_read [OF a(1)]] only_read_same [OF a(1)] m8 by auto
    qed
    moreover have "checks (\<lambda>v _ v'. grows v v' \<and> (\<forall>wal. content (v_world v) walPath = Some wal \<and> length wal = 0 \<longrightarrow> snd (snd (scanWAL (v_geometry v) wal)) = None)) (ret ())"
      by (rule checks_conseq [OF checks_ret]) (simp add: grows_refl e)
    ultimately show ?thesis by (auto simp: checks_issue_any)
  qed
  show ?thesis unfolding wal_body_def
  proof (rule checks_conseq [OF checks_catch [OF sz checks_issue checks_andThen [OF checks_update f]]], goal_cases)
    case (4 v u v')
    then obtain d t where t: "content (v_world v) walPath = Some d" "only_read v t" "grows (t\<lparr>v_walBytes := of_nat (length d)\<rparr>) v'"
      "\<forall>wal. content (v_world t) walPath = Some wal \<and> length wal = length d \<longrightarrow> snd (snd (scanWAL (v_geometry t) wal)) = None" by auto
    then show ?case using grows_trans [OF grows_read [OF t(2)] grows_trans [OF grows_wal(3) t(3)]] only_read_same [OF t(2)] by (auto simp: log_ok_def)
  qed simp_all
qed

lemma checks_verifyWAL: "checks (\<lambda>v _ v'. grows v v' \<and> log_ok (v_geometry v) (v_world v)) (verifyWAL describe directory)"
proof -
  have "checks (\<lambda>v _ v'. grows v v' \<and> log_ok (v_geometry v) (v_world v))
     (catch (on_fs (os_open walPath))
        (\<lambda>err. issue ''wal_unreadable'' (slashed walPath) (describe walPath err))
        (\<lambda>_. andThen (wal_body describe) (\<lambda>_.
           catch (on_fs (os_noop (OsClose walPath)))
             (\<lambda>err. issue ''wal_unreadable'' (slashed walPath) (''close WAL: '' @ describe walPath err))
             ret)))"
  proof (rule checks_conseq [OF checks_catch [OF checks_call checks_issue checks_andThen [OF checks_wal_body checks_catch [OF checks_call checks_issue checks_ret]]]], goal_cases)
    case (3 v u v')
    then obtain t1 t2 where t: "only_read v t1" "grows t1 t2" "log_ok (v_geometry t1) (v_world t1)" "only_read t2 v'" by blast
    then show ?case using grows_trans [OF grows_trans [OF grows_read [OF t(1)] t(2)] grows_read [OF t(4)]] only_read_same [OF t(1)] by (simp add: log_ok_def)
  qed (auto dest: open_effect noop_effect)
  then show ?thesis by (simp add: verifyWAL_def checks_issue_any)
qed


section \<open>The chunk directories\<close>

lemma chunk_name_suffixes: "\<not> strings_HasSuffix (chunkFileName c) versionFileSuffix" "strings_HasSuffix (chunkFileName c) ''.rdb''"
  by (simp_all add: chunkFileName_def strings_HasSuffix_def versionFileSuffix_def)

lemma version_name:
  assumes "strings_HasSuffix name versionFileSuffix" "parseChunkFileName (strings_TrimSuffix name versionFileSuffix) = Some c"
  shows "name = chunkFileName c @ versionFileSuffix"
proof -
  have "take (length name - length versionFileSuffix) name = chunkFileName c" "drop (length name - length versionFileSuffix) name = versionFileSuffix"
    using assms by (simp_all add: parseChunkFileName_iff strings_TrimSuffix_def strings_HasSuffix_def)
  then show ?thesis by (metis append_take_drop_id)
qed

text \<open>What a passed entry tells of the chunk it belongs to.\<close>

definition entry_checked :: "Coord \<Rightarrow> string \<times> bool \<Rightarrow> verifier \<Rightarrow> verifier \<Rightarrow> bool" where
  "entry_checked L entry v v' \<longleftrightarrow>
     (\<forall>c. entry = (chunkFileName c, False) \<and> map_LargeChunk (ChunkToLargeChunk (v_geometry v) c) = L \<longrightarrow>
        image_decodes (v_geometry v) (v_world v) (chunkPath (v_geometry v) c) c \<and> c \<in> fst ` set (v_images v'))"

lemma checks_chunk_entry:
  "checks (\<lambda>v _ v'. grows v v' \<and> entry_checked L entry v v') (verify_chunk_entry describe [largeDirName L] L entry)"
proof -
  define p where "p = [largeDirName L, fst entry]"
  define k where "k v =
     (let misplaced = issue ''misplaced_artifact'' (slashed p)
      in if snd entry then misplaced ''chunk artifact is not a regular file''
         else if strings_HasSuffix (fst entry) versionFileSuffix then
           (case parseChunkFileName (strings_TrimSuffix (fst entry) versionFileSuffix) of
              None \<Rightarrow> misplaced ''invalid chunk version filename''
            | Some coord \<Rightarrow>
                if map_LargeChunk (ChunkToLargeChunk (v_geometry v) coord) \<noteq> L
                then misplaced ''chunk version is in the wrong large-chunk directory''
                else verifyVersion describe p coord)
         else if strings_HasSuffix (fst entry) ''.rdb'' then
           (case parseChunkFileName (fst entry) of
              None \<Rightarrow> misplaced ''invalid chunk image filename''
            | Some coord \<Rightarrow>
                if map_LargeChunk (ChunkToLargeChunk (v_geometry v) coord) \<noteq> L
                then misplaced ''chunk image is in the wrong large-chunk directory''
                else verifyImage describe p coord)
         else misplaced ''unexpected chunk-directory artifact'')" for v :: verifier
  have "verify_chunk_entry describe [largeDirName L] L entry v = k v v" for v
    unfolding verify_chunk_entry_def k_def Let_def p_def by (simp split: option.splits)
  moreover have "checks (\<lambda>u x u'. u = v \<longrightarrow> grows v u' \<and> entry_checked L entry v u') (k v)" for v
  proof -
    have ver: "checks (\<lambda>u _ u'. u = v \<longrightarrow> grows v u' \<and> entry_checked L entry v u') (verifyVersion describe p c)"
      if "strings_HasSuffix (fst entry) versionFileSuffix" "parseChunkFileName (strings_TrimSuffix (fst entry) versionFileSuffix) = Some c"
        "map_LargeChunk (ChunkToLargeChunk (v_geometry v) c) = L" for c
    proof (rule checks_conseq [OF checks_verifyVersion], rule impI)
      fix u and x :: unit and u' assume u: "p = chunkVersionPath (v_geometry u) c \<longrightarrow> grows u u'" "u = v"
      have "p = chunkVersionPath (v_geometry u) c" using version_name [OF that(1,2)] that(3) u(2) by (simp add: p_def chunkVersionPath_def)
      moreover have "entry \<noteq> (chunkFileName d, False)" for d using that(1) chunk_name_suffixes(1) by auto
      ultimately show "grows v u' \<and> entry_checked L entry v u'" using u by (simp add: entry_checked_def)
    qed
    have img: "checks (\<lambda>u _ u'. u = v \<longrightarrow> grows v u' \<and> entry_checked L entry v u') (verifyImage describe p c)"
      if "parseChunkFileName (fst entry) = Some c" "map_LargeChunk (ChunkToLargeChunk (v_geometry v) c) = L" for c
    proof (rule checks_conseq [OF checks_verifyImage], rule impI)
      fix u and x :: unit and u' assume u: "grows u u' \<and> image_decodes (v_geometry u) (v_world u) p c \<and> c \<in> fst ` set (v_images u')" "u = v"
      have "d = c" if "entry = (chunkFileName d, False)" for d
        using that \<open>parseChunkFileName (fst entry) = Some c\<close> by (simp add: parseChunkFileName_iff)
      moreover have "p = chunkPath (v_geometry v) c" if "entry = (chunkFileName c, False)"
        using that \<open>map_LargeChunk (ChunkToLargeChunk (v_geometry v) c) = L\<close> by (simp add: p_def chunkPath_def)
      ultimately show "grows v u' \<and> entry_checked L entry v u'" using u unfolding entry_checked_def by metis
    qed
    show ?thesis using ver img unfolding k_def Let_def by (auto simp: checks_issue_any split: option.splits)
  qed
  ultimately show ?thesis by (rule checks_look [rotated])
qed


text \<open>The files of a large chunk that was walked.\<close>

definition large_checked :: "Coord \<Rightarrow> verifier \<Rightarrow> verifier \<Rightarrow> bool" where
  "large_checked L v v' \<longleftrightarrow>
     (\<forall>c. map_LargeChunk (ChunkToLargeChunk (v_geometry v) c) = L \<and> content (v_world v) (chunkPath (v_geometry v) c) \<noteq> None \<and>
        \<not> is_dir (v_world v) (chunkPath (v_geometry v) c) \<longrightarrow>
        image_decodes (v_geometry v) (v_world v) (chunkPath (v_geometry v) c) c \<and> c \<in> fst ` set (v_images v'))"

lemma entry_checked_grows:
  assumes "grows v v1" "entry_checked L entry v1 v2" "grows v2 v'"
  shows "entry_checked L entry v v'"
proof -
  have "fst ` set (v_images v2) \<subseteq> fst ` set (v_images v')" using assms(3) by (simp add: grows_def)
  then show ?thesis
    using assms(2) grows_same(1,2) [OF assms(1)] by (simp add: entry_checked_def image_decodes_def subset_iff)
qed

lemma checks_verifyLargeDirectory:
  "checks (\<lambda>v _ v'. grows v v' \<and> large_checked L v v') (verifyLargeDirectory describe [largeDirName L] L)"
proof -
  let ?p = "[largeDirName L]"
  have rd: "checks (\<lambda>v es v'. (distinct (map fst es) \<and> set es = {(name, is_dir (v_world v) (?p @ [name])) |name.
        content (v_world v) (?p @ [name]) \<noteq> None \<or> ?p @ [name] \<in> set (w_dirs (v_world v))}) \<and> only_read v v') (on_fs (os_read_entries ?p))"
    by (rule checks_fs) (rule entries_effect)
  have lp: "checks (\<lambda>v _ v'. grows v v' \<and> (\<forall>x\<in>set es. \<exists>v1 v2. grows v v1 \<and> entry_checked L x v1 v2 \<and> grows v2 v'))
      (for_each es (verify_chunk_entry describe ?p L))" for es
    by (rule checks_for_each) (auto intro: checks_chunk_entry grows_refl grows_trans)
  show ?thesis unfolding verifyLargeDirectory_def
  proof (rule checks_conseq [OF checks_andThen [OF rd lp]], elim exE conjE)
    fix v v' es t
    assume es: "set es = {(name, is_dir (v_world v) (?p @ [name])) |name. content (v_world v) (?p @ [name]) \<noteq> None \<or> ?p @ [name] \<in> set (w_dirs (v_world v))}"
      and r: "only_read v t" and g: "grows t v'" and loop: "\<forall>x\<in>set es. \<exists>v1 v2. grows t v1 \<and> entry_checked L x v1 v2 \<and> grows v2 v'"
    have "entry_checked L x v v'" if "x \<in> set es" for x
      using loop that entry_checked_grows grows_trans [OF grows_read [OF r]] by blast
    moreover have "(chunkFileName c, False) \<in> set es"
      if "map_LargeChunk (ChunkToLargeChunk (v_geometry v) c) = L" "content (v_world v) (chunkPath (v_geometry v) c) \<noteq> None"
        "\<not> is_dir (v_world v) (chunkPath (v_geometry v) c)" for c
      using that unfolding es by (auto simp: chunkPath_def)
    ultimately show "grows v v' \<and> large_checked L v v'"
      using grows_trans [OF grows_read [OF r] g] unfolding large_checked_def entry_checked_def by blast
  qed
qed


section \<open>The top level\<close>

text \<open>The two flags are set at the top level only, the one for the log only when the log is in order.\<close>

definition walks :: "verifier \<Rightarrow> verifier \<Rightarrow> bool" where
  "walks v v' \<longleftrightarrow>
     grows v (v'\<lparr>v_walFound := v_walFound v, v_intentOK := v_intentOK v\<rparr>) \<and>
     (v_walFound v' \<longrightarrow> v_walFound v \<or> log_ok (v_geometry v) (v_world v)) \<and> (v_intentOK v \<longrightarrow> v_intentOK v')"

lemma walks_refl: "walks v v"
  by (simp add: walks_def grows_refl)

lemma walks_grows: "grows v v' \<Longrightarrow> walks v v'"
  by (auto simp: walks_def grows_def versions_ok_def)

lemma walks_iff:
  "walks v v' \<longleftrightarrow>
     v_geometry v' = v_geometry v \<and> content (v_world v') = content (v_world v) \<and> w_dirs (v_world v') = w_dirs (v_world v) \<and>
     v_clock v' = v_clock v \<and> v_clockValid v' = v_clockValid v \<and> fst ` set (v_images v) \<subseteq> fst ` set (v_images v') \<and>
     (versions_ok v \<longrightarrow> versions_ok v') \<and>
     (v_walFound v' \<longrightarrow> v_walFound v \<or> log_ok (v_geometry v) (v_world v)) \<and> (v_intentOK v \<longrightarrow> v_intentOK v')"
  by (simp add: walks_def grows_def versions_ok_def)

lemma log_ok_cong: "content w = content w' \<Longrightarrow> log_ok g w = log_ok g w'"
  by (simp add: log_ok_def)

lemma walks_trans:
  assumes "walks u v" "walks v w"
  shows "walks u w"
proof -
  note a = assms [unfolded walks_iff]
  have "log_ok (v_geometry v) (v_world v) = log_ok (v_geometry u) (v_world u)"
    using a(1) log_ok_cong [of "v_world v" "v_world u" "v_geometry u"] by (elim conjE) (simp only:)
  then show ?thesis using a unfolding walks_iff by (elim conjE) (intro conjI, simp_all only: subset_trans, blast+)
qed

definition root_checked :: "string \<times> bool \<Rightarrow> verifier \<Rightarrow> verifier \<Rightarrow> bool" where
  "root_checked entry v v' \<longleftrightarrow>
     (\<forall>L. entry = (largeDirName L, True) \<longrightarrow> large_checked L v v') \<and> (entry = (intentDirectoryName, True) \<longrightarrow> v_intentOK v')"

lemma root_names:
  "[largeDirName L] \<noteq> walPath" "[largeDirName L] \<noteq> versionClockPath" "[largeDirName L] \<noteq> snapshotPath" "largeDirName L \<noteq> intentDirectoryName"
  "largeDirName L \<noteq> lockName" "\<not> strings_HasPrefix (largeDirName L) (lockName @ legacyLockMarker)"
  "[intentDirectoryName] \<noteq> walPath" "[intentDirectoryName] \<noteq> versionClockPath" "[intentDirectoryName] \<noteq> snapshotPath"
  "parseCoordinateName (largeDirName L) ''l_'' [] = Some L"
proof -
  show "parseCoordinateName (largeDirName L) ''l_'' [] = Some L"
    using parseCoordinateName_name [of "''l_''" "coord_X L" "coord_Y L" "[]"] by (simp add: largeDirName_def)
qed (simp_all add: largeDirName_def walPath_def versionClockPath_def snapshotPath_def intentDirectoryName_def lockName_def strings_HasPrefix_def)

lemma checks_root_entry: "checks (\<lambda>v _ v'. walks v v' \<and> root_checked entry v v') (verify_root_entry describe entry)"
proof -
  obtain name directory where en: "entry = (name, directory)" by fastforce
  have wal: "checks (\<lambda>v _ v'. walks v v' \<and> root_checked entry v v') (andThen (update (\<lambda>v. v\<lparr>v_walFound := True\<rparr>)) (\<lambda>_. verifyWAL describe directory))" if "[name] = walPath"
  proof (rule checks_conseq [OF checks_andThen [OF checks_update checks_verifyWAL]])
    fix v v' and u :: unit assume "\<exists>(x::unit) t. t = v\<lparr>v_walFound := True\<rparr> \<and> grows t v' \<and> log_ok (v_geometry t) (v_world t)"
    then have "walks v v'" by (auto simp: walks_def grows_def versions_ok_def)
    moreover have "\<forall>L. name \<noteq> largeDirName L" "name \<noteq> intentDirectoryName" using that root_names by metis+
    ultimately show "walks v v' \<and> root_checked entry v v'" by (simp add: root_checked_def en)
  qed simp_all
  have skip: "checks (\<lambda>v _ v'. walks v v' \<and> root_checked entry v v') (ret ())" if "\<And>L. entry \<noteq> (largeDirName L, True)" "entry \<noteq> (intentDirectoryName, True)"
    by (rule checks_conseq [OF checks_ret]) (use that in \<open>simp add: walks_refl root_checked_def\<close>)
  have intent: "checks (\<lambda>v _ v'. walks v v' \<and> root_checked entry v v') (update (\<lambda>v. v\<lparr>v_intentOK := True\<rparr>))" if "name = intentDirectoryName"
    by (rule checks_conseq [OF checks_update]) (use that root_names(4) [symmetric] in \<open>auto simp: walks_iff versions_ok_def root_checked_def en\<close>)
  have large: "checks (\<lambda>v _ v'. walks v v' \<and> root_checked entry v v') (verifyLargeDirectory describe [name] L)" if "name = largeDirName L" for L
    unfolding that by (rule checks_conseq [OF checks_verifyLargeDirectory]) (use that root_names(4) in \<open>auto simp: root_checked_def en walks_grows\<close>)
  have "name \<noteq> largeDirName L" if "[name] = versionClockPath \<or> [name] = snapshotPath \<or> name = lockName \<or> strings_HasPrefix name (lockName @ legacyLockMarker)" for L
    using that root_names(2,3,5,6) by metis
  moreover have "name \<noteq> intentDirectoryName" if "[name] = versionClockPath \<or> [name] = snapshotPath"
    using that root_names by metis
  ultimately show ?thesis
    using wal skip intent large unfolding verify_root_entry_def Let_def en fst_conv snd_conv largeDirName_def [symmetric]
    by (auto simp: checks_issue_any en split: option.splits)
qed


definition root_ok :: "verifier \<Rightarrow> verifier \<Rightarrow> bool" where
  "root_ok v v' \<longleftrightarrow>
     (\<forall>c. content (v_world v) (chunkPath (v_geometry v) c) \<noteq> None \<longrightarrow>
        image_decodes (v_geometry v) (v_world v) (chunkPath (v_geometry v) c) c \<and> c \<in> fst ` set (v_images v')) \<and>
     (content (v_world v) intentPath \<noteq> None \<longrightarrow> v_intentOK v')"

lemma walks_same:
  assumes "walks v v'"
  shows "v_geometry v' = v_geometry v" "content (v_world v') = content (v_world v)" "w_dirs (v_world v') = w_dirs (v_world v)"
    "fst ` set (v_images v) \<subseteq> fst ` set (v_images v')" "v_intentOK v \<Longrightarrow> v_intentOK v'"
  using assms unfolding walks_iff by blast+

lemma root_checked_walks:
  assumes "walks v v1" "root_checked entry v1 v2" "walks v2 v'"
  shows "root_checked entry v v'"
  using assms(2) walks_same(1-3) [OF assms(1)] walks_same(4,5) [OF assms(3)]
  by (simp add: root_checked_def large_checked_def image_decodes_def is_dir_def subset_iff)

lemma root_ok:
  assumes tree: "wf_world (v_world v)"
    and es: "set es = {(name, is_dir (v_world v) ([] @ [name])) |name. content (v_world v) ([] @ [name]) \<noteq> None \<or> [] @ [name] \<in> set (w_dirs (v_world v))}"
    and ok: "\<And>x. x \<in> set es \<Longrightarrow> root_checked x v v'"
  shows "root_ok v v'"
proof -
  have dir: "(name, True) \<in> set es" "\<not> is_dir (v_world v) [name, rest]" if "content (v_world v) [name, rest] \<noteq> None" for name rest
    using tree [unfolded wf_world_def, rule_format, OF that] by (auto simp: es is_dir_def)
  have "image_decodes (v_geometry v) (v_world v) (chunkPath (v_geometry v) c) c \<and> c \<in> fst ` set (v_images v')"
    if "content (v_world v) (chunkPath (v_geometry v) c) \<noteq> None" for c
    using ok [OF dir(1) [OF that [unfolded chunkPath_def]]] dir(2) [OF that [unfolded chunkPath_def]] that
    by (simp add: root_checked_def large_checked_def chunkPath_def)
  moreover have "v_intentOK v'" if "content (v_world v) intentPath \<noteq> None"
    using ok [OF dir(1) [OF that [unfolded intentPath_def]]] by (simp add: root_checked_def)
  ultimately show ?thesis by (simp add: root_ok_def)
qed

lemma checks_verifyRoot:
  "checks (\<lambda>v _ v'. walks v v' \<and> v_walFound v' \<and> (wf_world (v_world v) \<longrightarrow> root_ok v v')) (verifyRoot describe)"
proof -
  have rd: "checks (\<lambda>v es v'. (distinct (map fst es) \<and> set es = {(name, is_dir (v_world v) ([] @ [name])) |name.
        content (v_world v) ([] @ [name]) \<noteq> None \<or> [] @ [name] \<in> set (w_dirs (v_world v))}) \<and> only_read v v') (on_fs (os_read_entries []))"
    by (rule checks_fs) (rule entries_effect)
  have lp: "checks (\<lambda>v _ v'. walks v v' \<and> (\<forall>x\<in>set es. \<exists>v1 v2. walks v v1 \<and> root_checked x v1 v2 \<and> walks v2 v'))
      (for_each es (verify_root_entry describe))" for es
    by (rule checks_for_each) (auto intro: checks_root_entry walks_refl walks_trans)
  show ?thesis unfolding verifyRoot_def
  proof (rule checks_conseq [OF checks_andThen [OF rd checks_andThen [OF lp checks_when]]], elim exE conjE)
    fix v v' es t t'
    assume es: "set es = {(name, is_dir (v_world v) ([] @ [name])) |name. content (v_world v) ([] @ [name]) \<noteq> None \<or> [] @ [name] \<in> set (w_dirs (v_world v))}"
      and r: "only_read v t" and g: "walks t t'" and loop: "\<forall>x\<in>set es. \<exists>v1 v2. walks t v1 \<and> root_checked x v1 v2 \<and> walks v2 t'"
      and f: "\<not> \<not> v_walFound t'" "v' = t'"
    note w = walks_trans [OF walks_grows [OF grows_read [OF r]]]
    have "root_checked x v v'" if "x \<in> set es" for x
      using loop that root_checked_walks w unfolding f(2) by blast
    then show "walks v v' \<and> v_walFound v' \<and> (wf_world (v_world v) \<longrightarrow> root_ok v v')"
      using root_ok [OF _ es] w [OF g] f by blast
  qed
qed


section \<open>Versions and intents\<close>

lemma checks_pairs:
  "checks (\<lambda>v _ v'. v' = v \<and> (\<forall>x\<in>set xs. map_of (v_versions v) (fst x) \<noteq> None))
     (for_each xs (\<lambda>(coord, path) v. if map_of (v_versions v) coord = None then issue c (p path) d v else (Inr (), v)))"
proof (rule checks_conseq [OF checks_for_each [where S = "\<lambda>v v'. v' = v" and Q = "\<lambda>x v v'. map_of (v_versions v) (fst x) \<noteq> None"]], goal_cases)
  case (1 x)
  show ?case by (cases x) (auto intro: checks_conseq [OF checks_when])
qed auto

lemma checks_pairs_back:
  "checks (\<lambda>v _ v'. v' = v) (for_each xs (\<lambda>(coord, _ :: uint64) v. if map_of (v_images v) coord = None then issue c (p v coord) d v else (Inr (), v)))"
proof (rule checks_conseq [OF checks_for_each [where S = "\<lambda>v v'. v' = v" and Q = "\<lambda>x v v'. True"]], goal_cases)
  case (1 x)
  show ?case using checks_issue by (cases x) (auto simp: checks_def)
qed auto

lemma checks_verifyImageVersions:
  "checks (\<lambda>v _ v'. v' = v \<and> fst ` set (v_images v) \<subseteq> dom (map_of (v_versions v))) verifyImageVersions"
proof (rule checks_look)
  fix v
  show "checks (\<lambda>u x u'. u = v \<longrightarrow> u' = v \<and> fst ` set (v_images v) \<subseteq> dom (map_of (v_versions v)))
    (andThen (for_each (v_images v) (\<lambda>(coord, path) v.
        if map_of (v_versions v) coord = None then issue ''version_missing'' (path @ versionFileSuffix) ''chunk image has no version metadata'' v else (Inr (), v)))
      (\<lambda>_. for_each (v_versions v) (\<lambda>(coord, _) v.
        if map_of (v_images v) coord = None then issue ''image_missing'' (slashed (chunkPath (v_geometry v) coord)) ''chunk version has no image'' v else (Inr (), v))))"
    by (rule checks_conseq [OF checks_andThen [OF checks_pairs checks_pairs_back]]) (auto simp: dom_def)
qed (simp add: verifyImageVersions_def)


lemma checks_intent_issues: "checks (\<lambda>_ _ _. False) (intent_issues state boundary)"
  unfolding intent_issues_def by (rule checks_conseq [OF checks_andThen [OF checks_when checks_andThen [OF checks_when checks_issue]]]) blast

lemma only_one:
  assumes "distinct (map fst es)" "x \<in> set es" "\<forall>y\<in>set es. fst y = fst x"
  shows "es = [x]"
proof -
  obtain y ys where "es = y # ys" using assms(2) by (cases es) auto
  moreover have "ys = []" using assms(1,3) \<open>es = y # ys\<close> by (cases ys) auto
  ultimately show ?thesis using assms(2) by simp
qed

lemma checks_verifyIntent:
  "checks (\<lambda>v _ v'. only_read v v' \<and> (v_intentOK v \<and> wf_world (v_world v) \<longrightarrow> content (v_world v) intentPath = None)) (verifyIntent describe)"
proof -
  let ?wanted = "[(intentFileName, False)]"
  have rd: "checks (\<lambda>v es v'. (distinct (map fst es) \<and> set es = {(name, is_dir (v_world v) (intentDirectory @ [name])) |name.
        content (v_world v) (intentDirectory @ [name]) \<noteq> None \<or> intentDirectory @ [name] \<in> set (w_dirs (v_world v))}) \<and> only_read v v')
      (on_fs (os_read_entries intentDirectory))"
    by (rule checks_fs) (rule entries_effect)
  have lp: "checks (\<lambda>v _ v'. v' = v \<and> (\<forall>x\<in>set es. fst x = intentFileName))
      (for_each es (\<lambda>(name, directory). if name \<noteq> intentFileName \<or> directory
         then issue ''misplaced_artifact'' (slashed (intentDirectory @ [name])) ''unexpected intent artifact'' else ret ()))" for es
  proof (rule checks_conseq [OF checks_for_each [where S = "\<lambda>v v'. v' = v" and Q = "\<lambda>x v v'. fst x = intentFileName"]], goal_cases)
    case (1 x)
    show ?case by (cases x) (auto simp: checks_issue_any intro: checks_conseq [OF checks_ret])
  qed auto
  have dec: "checks (\<lambda>_ _ _. False) (case decodeIntent d of
                      Inl err \<Rightarrow> issue ''intent_corrupt'' (slashed intentPath) (describe intentPath err)
                    | Inr (state, boundary) \<Rightarrow> intent_issues state boundary)" for d
    by (cases "decodeIntent d") (auto simp: checks_issue checks_intent_issues)
  have fin: "checks (\<lambda>v _ v'. es \<noteq> ?wanted \<and> v' = v)
      (if es \<noteq> ?wanted then ret () else catch (on_fs (readFileBounded intentPath 20))
                   (\<lambda>err. issue ''intent_unreadable'' (slashed intentPath) (describe intentPath err))
                   (\<lambda>encoded. case decodeIntent encoded of
                      Inl err \<Rightarrow> issue ''intent_corrupt'' (slashed intentPath) (describe intentPath err)
                    | Inr (state, boundary) \<Rightarrow> intent_issues state boundary))" for es
    by (rule checks_conseq [OF checks_if [OF checks_ret checks_catch [OF checks_read checks_issue dec]]]) (auto split: if_splits)
  have body: "checks (\<lambda>v _ v'. only_read v v' \<and> (wf_world (v_world v) \<longrightarrow> content (v_world v) intentPath = None))
      (catch (on_fs (os_read_entries intentDirectory))
        (\<lambda>err. issue ''intent_unreadable'' intentDirectoryName (describe intentDirectory err))
        (\<lambda>entries. andThen (for_each entries (\<lambda>(name, directory).
              if name \<noteq> intentFileName \<or> directory
              then issue ''misplaced_artifact'' (slashed (intentDirectory @ [name])) ''unexpected intent artifact'' else ret ()))
            (\<lambda>_. if entries \<noteq> ?wanted then ret ()
                 else catch (on_fs (readFileBounded intentPath 20))
                   (\<lambda>err. issue ''intent_unreadable'' (slashed intentPath) (describe intentPath err))
                   (\<lambda>encoded. case decodeIntent encoded of
                      Inl err \<Rightarrow> issue ''intent_corrupt'' (slashed intentPath) (describe intentPath err)
                    | Inr (state, boundary) \<Rightarrow> intent_issues state boundary))))"
  proof (rule checks_conseq [OF checks_catch [OF rd checks_issue checks_andThen [OF lp fin]]], elim exE conjE, intro conjI impI)
    fix v v' es t t'
    assume d: "distinct (map fst es)"
      and es: "set es = {(name, is_dir (v_world v) (intentDirectory @ [name])) |name. content (v_world v) (intentDirectory @ [name]) \<noteq> None \<or> intentDirectory @ [name] \<in> set (w_dirs (v_world v))}"
      and r: "only_read v t" "t' = t" "v' = t'" and all: "\<forall>x\<in>set es. fst x = intentFileName" "es \<noteq> ?wanted"
    show "only_read v v'" using r by simp
    assume tr: "wf_world (v_world v)"
    have "(intentFileName, False) \<in> set es" if "content (v_world v) intentPath \<noteq> None"
      using that tr unfolding es wf_world_def intentPath_def intentDirectory_def by fastforce
    then show "content (v_world v) intentPath = None" using only_one [OF d] all by fastforce
  qed
  show ?thesis
    by (rule checksI) (use body [unfolded checks_def] in \<open>auto simp: verifyIntent_def split: if_splits\<close>)
qed



section \<open>The whole run\<close>

text \<open>What a report without issues promises of the directory.\<close>

definition verified :: "Geometry \<Rightarrow> world \<Rightarrow> bool" where
  "verified g w \<longleftrightarrow>
     log_ok g w \<and> content w intentPath = None \<and>
     (\<exists>generation. generation_ok w generation) \<and>
     (\<exists>clock. clock_ok w clock \<and>
        (\<forall>c. content w (chunkPath g c) \<noteq> None \<longrightarrow> image_decodes g w (chunkPath g c) c \<and> (\<exists>k. version_ok g w c k \<and> k \<le> clock)))"

lemma verified_disk:
  assumes "verified g w"
  shows "sound_disk g w" "\<exists>view. disk_state g w c = Inr view"
proof -
  have e: "effective_wal w = wal_content w" "content w intentPath = None" using assms by (simp_all add: verified_def effective_wal_def)
  then show "sound_disk g w" using assms by (auto simp: verified_def log_ok_def sound_disk_def wal_content_def)
  have "\<exists>view. file_state g (chunk_files g w) c = Inr view"
    using assms by (fastforce simp: verified_def file_state_def chunk_files_def image_decodes_def split: option.splits)
  then show "\<exists>view. disk_state g w c = Inr view" by (auto simp: disk_state_def disk_view_def split: option.splits)
qed

lemma root_verified:
  assumes clock: "clock_ok w clock" "v_clock v = clock" "v_clockValid v" and start: "\<not> v_walFound v" "v_versions v = []"
    and same: "content (v_world v) = content w" "w_dirs (v_world v) = w_dirs w" "v_geometry v = g"
    and walk: "walks v v'" "v_walFound v'" "wf_world (v_world v) \<longrightarrow> root_ok v v'"
    and vers: "fst ` set (v_images v') \<subseteq> dom (map_of (v_versions v'))"
    and intent: "v_intentOK v' \<and> wf_world (v_world v') \<longrightarrow> content (v_world v') intentPath = None"
    and gen: "generation_ok w generation" and tree: "wf_world w"
  shows "verified g w"
proof -
  have t: "wf_world (v_world v)" "wf_world (v_world v')" using tree same walks_same(2,3) [OF walk(1)] by (simp_all add: wf_world_def is_dir_def)
  have k: "versions_ok v'" "v_clock v' = clock" "v_clockValid v'" "log_ok (v_geometry v) (v_world v)"
    using walk(1,2) clock start unfolding walks_iff by (auto simp: versions_ok_def)
  have r: "root_ok v v'" using walk(3) t by simp
  have "\<exists>k. version_ok g w c k \<and> k \<le> clock" if "c \<in> fst ` set (v_images v')" for c
  proof -
    have "c \<in> dom (map_of (v_versions v'))" using vers that by (rule subsetD)
    then obtain k where "map_of (v_versions v') c = Some k" by blast
    then have "version_ok (v_geometry v') (v_world v') c k \<and> k \<le> clock" using k(1-3) unfolding versions_ok_def by blast
    then show ?thesis using same walks_same(1,2) [OF walk(1)] unfolding version_ok_def by metis
  qed
  moreover have "content w intentPath = None"
    using r intent t same(1) walks_same(2) [OF walk(1)] unfolding root_ok_def by (metis (no_types, lifting))
  moreover have "log_ok g w" using k(4) same log_ok_cong [of "v_world v" w g] by simp
  ultimately show ?thesis using r clock(1) gen same unfolding verified_def root_ok_def image_decodes_def by (metis (no_types, lifting))
qed


lemma checks_rest:
  "checks (\<lambda>v _ _. \<exists>t clock t1 t2 t3. clock_ok (v_world v) clock \<and> only_read v t \<and> t1 = t\<lparr>v_clock := clock, v_clockValid := True\<rparr> \<and>
       walks t1 t2 \<and> v_walFound t2 \<and> (wf_world (v_world t1) \<longrightarrow> root_ok t1 t2) \<and>
       t3 = t2 \<and> fst ` set (v_images t2) \<subseteq> dom (map_of (v_versions t2)) \<and>
       (v_intentOK t3 \<and> wf_world (v_world t3) \<longrightarrow> content (v_world t3) intentPath = None))
     (andThen (verifyClock describe) (\<lambda>_.
      andThen (verifyRoot describe) (\<lambda>_.
      andThen verifyImageVersions (\<lambda>_.
      andThen (verifyIntent describe) (\<lambda>_.
      if valid then verifyFinalGeneration describe generation else ret ())))))"
proof -
  have fin: "checks (\<lambda>_ _ _. True) (if valid then verifyFinalGeneration describe generation else ret ())"
    by (auto intro: checks_conseq [OF checks_verifyFinalGeneration] checks_conseq [OF checks_ret])
  show ?thesis
    by (rule checks_conseq [OF checks_andThen [OF checks_verifyClock checks_andThen [OF checks_verifyRoot
          checks_andThen [OF checks_verifyImageVersions checks_andThen [OF checks_verifyIntent fin]]]]], elim exE conjE) blast
qed

lemma checks_verify_steps:
  "checks (\<lambda>v _ _. \<not> v_walFound v \<and> v_versions v = [] \<and> wf_world (v_world v) \<longrightarrow> verified (v_geometry v) (v_world v)) (verify_steps describe)"
proof -
  have rest: "checks (\<lambda>v _ _. \<exists>t clock t1 t2 t3. clock_ok (v_world v) clock \<and> only_read v t \<and> t1 = t\<lparr>v_clock := clock, v_clockValid := True\<rparr> \<and>
       walks t1 t2 \<and> v_walFound t2 \<and> (wf_world (v_world t1) \<longrightarrow> root_ok t1 t2) \<and>
       t3 = t2 \<and> fst ` set (v_images t2) \<subseteq> dom (map_of (v_versions t2)) \<and>
       (v_intentOK t3 \<and> wf_world (v_world t3) \<longrightarrow> content (v_world t3) intentPath = None))
     (case x of (generation, valid) \<Rightarrow> andThen (verifyClock describe) (\<lambda>_.
      andThen (verifyRoot describe) (\<lambda>_.
      andThen verifyImageVersions (\<lambda>_.
      andThen (verifyIntent describe) (\<lambda>_.
      if valid then verifyFinalGeneration describe generation else ret ())))))" for x :: "uint64 \<times> bool"
    unfolding case_prod_unfold by (rule checks_rest)
  show ?thesis unfolding verify_steps_def
  proof (rule checks_conseq [OF checks_andThen [OF checks_verifyGeneration rest]], elim exE conjE, intro impI, elim conjE)
    fix v and y :: unit and v' x s t clock t1 t2 t3
    assume g: "snd x" "generation_ok (v_world v) (fst x)" "only_read v s" and c: "clock_ok (v_world s) clock" "only_read s t"
      and t1: "t1 = t\<lparr>v_clock := clock, v_clockValid := True\<rparr>"
      and r: "walks t1 t2" "v_walFound t2" "wf_world (v_world t1) \<longrightarrow> root_ok t1 t2" "t3 = t2" "fst ` set (v_images t2) \<subseteq> dom (map_of (v_versions t2))"
        "v_intentOK t3 \<and> wf_world (v_world t3) \<longrightarrow> content (v_world t3) intentPath = None"
      and v: "\<not> v_walFound v" "v_versions v = []" "wf_world (v_world v)"
    note same = only_read_same [OF only_read_trans [OF g(3) c(2)]]
    have "clock_ok (v_world v) clock" using c(1) only_read_same(11) [OF g(3)] by (simp add: clock_ok_def)
    then show "verified (v_geometry v) (v_world v)"
      by (rule root_verified [OF _ _ _ _ _ _ _ _ r(1,2,3,5) r(6) [unfolded r(4)] g(2) v(3)]) (use v same in \<open>simp_all add: t1\<close>)
  qed
qed

lemma sort_key_empty [simp]: "sort_key f xs = [] \<longleftrightarrow> xs = []"
  by (metis length_0_conv length_sort)

lemma Verify_result:
  assumes "Verify describe root g w = (r, w')"
  shows "content w' = content w \<and> (\<forall>report. r = Inr report \<and> vr_Issues report = [] \<and> wf_world w \<longrightarrow> verified g w)"
proof -
  have none: ?thesis if "fx {} w w'" "\<forall>report. r \<noteq> Inr report" using that by (auto simp: fx_def fun_eq_iff)
  consider (refused) "w' = w" "\<exists>e. r = Inl e" | (ran) "andThen (os_noop (OsStat [])) (\<lambda>_.
           andThen (os_lstat []) (\<lambda>directory.
           if \<not> directory then raise []
           else (\<lambda>w. case verify_steps describe (new_verifier g w) of
             (Inl e, v) \<Rightarrow> (Inl e, v_world v)
           | (Inr _, v) \<Rightarrow> (Inr ((v_report v)\<lparr>vr_Issues := sort_key issue_key (vr_Issues (v_report v))\<rparr>), v_world v)))) w = (r, w')"
    using assms by (auto simp: Verify_def raise_def split: if_splits sum.splits)
  then show ?thesis
  proof cases
    case refused
    then show ?thesis by auto
  next
    case ran
    then show ?thesis
    proof (cases rule: andThen_result)
      case (failed e)
      then show ?thesis using none noop_effect by auto
    next
      case (went u t)
      note e1 = noop_effect [OF went(1)]
      show ?thesis using went(2)
      proof (cases rule: andThen_result)
        case (failed e)
        then show ?thesis using none fx_trans [OF e1 conjunct1 [OF lstat_effect [OF failed(1)]], of "{}"] by auto
      next
        case (went b t2)
        have e2: "fx {} w t2" using fx_trans [OF e1 conjunct1 [OF lstat_effect [OF went(1)]], of "{}"] by simp
        obtain q v where q: "verify_steps describe (new_verifier g t2) = (q, v)" by fastforce
        note run = checks_verify_steps [unfolded checks_def, rule_format, OF q]
        have e3: "fx {} t2 (v_world v)" using run by (simp add: new_verifier_def)
        have "b \<Longrightarrow> w' = v_world v" "\<not> b \<Longrightarrow> w' = t2 \<and> r = Inl []" using went(2) q by (auto simp: raise_def split: sum.splits)
        then have "content w' = content w" using e2 fx_trans [OF e2 e3, of "{}"] by (cases b) (auto simp: fx_def fun_eq_iff)
        moreover have "verified g w" if i: "r = Inr report" "vr_Issues report = []" "wf_world w" for report
        proof -
          have "clean v \<and> (\<exists>x. q = Inr x)" using went(2) q i(1,2) by (auto simp: raise_def clean_def split: sum.splits if_splits)
          moreover have "wf_world t2" using i(3) e2 by (simp add: wf_world_def fx_def is_dir_def)
          ultimately have "verified g t2" using run by (auto simp: new_verifier_def)
          then show ?thesis using e2 by (simp add: verified_def log_ok_def generation_ok_def clock_ok_def image_decodes_def version_ok_def fx_def)
        qed
        ultimately show ?thesis by blast
      qed
    qed
  qed
qed


section \<open>A directory without issues\<close>

lemma readFileBounded_flawless:
  assumes "flawless w" "content w p = Some d" "\<not> is_dir w p" "int (length d) \<le> n" "n \<le> 9223372036854775807"
  shows "readFileBounded p n w = (Inr d, w\<lparr>w_clock := w_clock w + 5\<rparr>)"
  using assms by (simp add: readFileBounded_def os_lstat_def os_open_def os_size_def os_read_part_def os_noop_def os_call_def flawless_def
      andThen_def catch_def ret_def is_dir_def Let_def)

definition audited_world :: "nat \<Rightarrow> world" where
  "audited_world n = \<lparr>w_files = [(walPath, []), (versionClockPath, encodeVersionClock 7), (snapshotPath, encodeSnapshotGeneration 4),
       (chunkPath sample_geometry (Coord 0 0), encodeState sample_geometry (Coord 0 0) [5, 0] [1]),
       (chunkVersionPath sample_geometry (Coord 0 0), encodeChunkVersion (Coord 0 0) 7)],
     w_dirs = [intentDirectory, [largeDirName (Coord 0 0)]],
     w_oracle = \<lambda>_ _. NoFault, w_random = \<lambda>n. [], w_order = \<lambda>_ _. 0, w_clock = n, w_halted = False\<rparr>"

lemma audited_names:
  "walPath = [''.regiondb.wal'']" "versionClockPath = [''.regiondb.version'']" "snapshotPath = [''.regiondb.snapshot'']"
  "chunkPath sample_geometry (Coord 0 0) = [''l_p0_p0'', ''c_p0_p0.rdb'']"
  "chunkVersionPath sample_geometry (Coord 0 0) = [''l_p0_p0'', ''c_p0_p0.rdb.ver'']"
  "intentDirectory = [''.regiondb.intents'']" "largeDirName (Coord 0 0) = ''l_p0_p0''"
  by code_simp+

lemma audited_files:
  "content (audited_world n) walPath = Some []"
  "content (audited_world n) versionClockPath = Some (encodeVersionClock 7)"
  "content (audited_world n) snapshotPath = Some (encodeSnapshotGeneration 4)"
  "content (audited_world n) [''l_p0_p0'', ''c_p0_p0.rdb''] = Some (encodeState sample_geometry (Coord 0 0) [5, 0] [1])"
  "content (audited_world n) [''l_p0_p0'', ''c_p0_p0.rdb.ver''] = Some (encodeChunkVersion (Coord 0 0) 7)"
  "\<not> is_dir (audited_world n) walPath" "\<not> is_dir (audited_world n) versionClockPath" "\<not> is_dir (audited_world n) snapshotPath"
  "\<not> is_dir (audited_world n) [''l_p0_p0'', x]"
  "flawless (audited_world n)" "(audited_world n)\<lparr>w_clock := m\<rparr> = audited_world m" "w_clock (audited_world n) = n"
  by (simp_all add: audited_world_def content_def audited_names is_dir_def flawless_def)

lemma audited_root:
  "os_read_entries [] (audited_world n) = (Inr [(''.regiondb.intents'', True), (''.regiondb.snapshot'', False), (''.regiondb.version'', False),
     (''.regiondb.wal'', False), (''l_p0_p0'', True)], audited_world (n + 1))"
proof -
  have "sort (remdups (map last (filter (\<lambda>q. q \<noteq> [] \<and> butlast q = []) [[''.regiondb.wal''], [''.regiondb.version''], [''.regiondb.snapshot''],
     [''l_p0_p0'', ''c_p0_p0.rdb''], [''l_p0_p0'', ''c_p0_p0.rdb.ver''], [''.regiondb.intents''], [''l_p0_p0'']]))) =
    [''.regiondb.intents'', ''.regiondb.snapshot'', ''.regiondb.version'', ''.regiondb.wal'', ''l_p0_p0'']" by code_simp
  then show ?thesis
    by (simp add: os_read_entries_def os_call_def audited_world_def audited_names is_dir_def)
qed

lemma audited_large:
  "os_read_entries [''l_p0_p0''] (audited_world n) = (Inr [(''c_p0_p0.rdb'', False), (''c_p0_p0.rdb.ver'', False)], audited_world (n + 1))"
proof -
  have "sort (remdups (map last (filter (\<lambda>q. q \<noteq> [] \<and> butlast q = [''l_p0_p0'']) [[''.regiondb.wal''], [''.regiondb.version''], [''.regiondb.snapshot''],
     [''l_p0_p0'', ''c_p0_p0.rdb''], [''l_p0_p0'', ''c_p0_p0.rdb.ver''], [''.regiondb.intents''], [''l_p0_p0'']]))) =
    [''c_p0_p0.rdb'', ''c_p0_p0.rdb.ver'']" by code_simp
  then show ?thesis
    by (simp add: os_read_entries_def os_call_def audited_world_def audited_names is_dir_def)
qed

lemma audited_intents: "os_read_entries intentDirectory (audited_world n) = (Inr [], audited_world (n + 1))"
  by (simp add: os_read_entries_def os_call_def audited_world_def audited_names is_dir_def)


lemma audited_codecs:
  "length (encodeVersionClock k) = 20" "length (encodeSnapshotGeneration k) = 20" "length (encodeChunkVersion c k) = 36"
  "length (encodeState sample_geometry c [5, 0] [1]) = headerBytes + checksumSize + 3"
  by (simp_all add: encodeVersionClock_def encodeSnapshotGeneration_def encodeChunkVersion_def encodeState_def encodeImage_def
      versionClockMagic_def snapshotMagic_def versionFileMagic_def v2FileMagic_def headerBytes_def checksumSize_def Let_def
      codec_AppendUint64_def codec_AppendUint32_def bytes_of_def)

lemma clock_codec:
  "take 8 (encodeVersionClock k) = versionClockMagic" "ChecksumIEEE (take 16 (encodeVersionClock k)) = mustUint32 (drop 16 (encodeVersionClock k))"
  "mustUint64 (go_slice 8 16 (encodeVersionClock k)) = k"
proof -
  have "decodeVersionClock (encodeVersionClock k) = Inr k" by (simp add: decodeVersionClock_iff)
  then show "take 8 (encodeVersionClock k) = versionClockMagic" "ChecksumIEEE (take 16 (encodeVersionClock k)) = mustUint32 (drop 16 (encodeVersionClock k))"
    "mustUint64 (go_slice 8 16 (encodeVersionClock k)) = k"
    by (simp_all add: decodeVersionClock_def split: if_splits)
qed

lemma version_codec:
  "take 8 (encodeChunkVersion c k) = versionFileMagic"
  "ChecksumIEEE (take 32 (encodeChunkVersion c k)) = mustUint32 (drop 32 (encodeChunkVersion c k))"
  "mustUint64 (go_slice 8 16 (encodeChunkVersion c k)) = coord_X c" "mustUint64 (go_slice 16 24 (encodeChunkVersion c k)) = coord_Y c"
  "mustUint64 (go_slice 24 32 (encodeChunkVersion c k)) = k"
proof -
  have "decodeChunkVersion c (encodeChunkVersion c k) = Inr k" by (simp add: decodeChunkVersion_iff)
  then show "take 8 (encodeChunkVersion c k) = versionFileMagic"
    "ChecksumIEEE (take 32 (encodeChunkVersion c k)) = mustUint32 (drop 32 (encodeChunkVersion c k))"
    "mustUint64 (go_slice 8 16 (encodeChunkVersion c k)) = coord_X c" "mustUint64 (go_slice 16 24 (encodeChunkVersion c k)) = coord_Y c"
    "mustUint64 (go_slice 24 32 (encodeChunkVersion c k)) = k"
    by (simp_all add: decodeChunkVersion_def audited_codecs checksumSize_def split: if_splits)
qed

lemmas audited = audited_files audited_codecs audited_root audited_large audited_intents readFileBounded_flawless

lemma audited_image: "\<exists>chunk. decode sample_geometry (Coord 0 0) (encodeState sample_geometry (Coord 0 0) [5, 0] [1]) = Inr chunk"
proof -
  have "ChunkFromState sample_geometry [5, 0] [1] = Inr \<lparr>chunk_geometry = sample_geometry, chunk_codec = \<lparr>codec_width = 3, codec_order = LSBFirst\<rparr>,
     chunk_payload = [5, 0], chunk_presence = [1]\<rparr>" (is "_ = Inr ?c") by code_simp
  then have "wf_chunk ?c" by (rule ChunkFromState_Inr(1) [OF wf_sample_geometry])
  from decode_encodeState [OF this, of "Coord 0 0"] show ?thesis by auto
qed

lemma audit_start:
  assumes "v_world v = audited_world n"
  shows "verifyGeneration describe v = (Inr (4, True), v\<lparr>v_world := audited_world (n + 5)\<rparr>)"
    and "verifyFinalGeneration describe 4 v = (Inr (), v\<lparr>v_world := audited_world (n + 5)\<rparr>)"
    and "verifyClock describe v = (Inr (), v\<lparr>v_world := audited_world (n + 5), v_clock := 7, v_clockValid := True\<rparr>)"
  using assms by (simp_all add: verifyGeneration_def verifyFinalGeneration_def verifyClock_def on_fs_def catch_def andThen_def ret_def update_def
      audited clock_codec decodeSnapshotGeneration_iff [THEN iffD2, OF refl])

lemma audit_chunk:
  assumes "v_world v = audited_world n" "v_geometry v = sample_geometry"
  shows "verifyImage describe [''l_p0_p0'', ''c_p0_p0.rdb''] (Coord 0 0) v = (Inr (), v\<lparr>v_world := audited_world (n + 5),
      v_images := AList.update (Coord 0 0) ''l_p0_p0/c_p0_p0.rdb'' (v_images v), v_report := (v_report v)\<lparr>vr_Images := vr_Images (v_report v) + 1\<rparr>\<rparr>)"
    and "v_clock v = 7 \<Longrightarrow> verifyVersion describe [''l_p0_p0'', ''c_p0_p0.rdb.ver''] (Coord 0 0) v = (Inr (), count_version (Coord 0 0) 7 (v\<lparr>v_world := audited_world (n + 5)\<rparr>))"
proof -
  have g: "payloadBytes sample_geometry = 2" "presenceBytes sample_geometry = 1" by (simp_all add: sample_geometry_def)
  have h: "int headerBytes = 44" "checksumSize = 4" by (simp_all add: headerBytes_def checksumSize_def)
  obtain chunk where d: "decode sample_geometry (Coord 0 0) (encodeState sample_geometry (Coord 0 0) [5, 0] [1]) = Inr chunk" using audited_image by blast
  show "verifyImage describe [''l_p0_p0'', ''c_p0_p0.rdb''] (Coord 0 0) v = (Inr (), v\<lparr>v_world := audited_world (n + 5),
      v_images := AList.update (Coord 0 0) ''l_p0_p0/c_p0_p0.rdb'' (v_images v), v_report := (v_report v)\<lparr>vr_Images := vr_Images (v_report v) + 1\<rparr>\<rparr>)"
    using assms d by (simp add: verifyImage_def g h Let_def on_fs_def catch_def audited)
  show "verifyVersion describe [''l_p0_p0'', ''c_p0_p0.rdb.ver''] (Coord 0 0) v = (Inr (), count_version (Coord 0 0) 7 (v\<lparr>v_world := audited_world (n + 5)\<rparr>))" if "v_clock v = 7"
    using assms(1) that by (simp add: verifyVersion_def on_fs_def catch_def andThen_def update_def ret_def Let_def count_version_def h audited version_codec)
qed


lemmas run_simps = on_fs_def catch_def andThen_def update_def ret_def Let_def

lemma audit_wal:
  assumes "v_world v = audited_world n"
  shows "verifyWAL describe False v = (Inr (), v\<lparr>v_world := audited_world (Suc (Suc (Suc n))), v_walBytes := 0\<rparr>)"
  using assms by (simp add: verifyWAL_def wal_body_def run_simps os_open_def os_size_def os_noop_def os_call_def audited audited_files(1-3) flawless_def [THEN iffD1, OF audited_files(10)])

lemma audited_parts:
  "strings_HasSuffix ''c_p0_p0.rdb.ver'' versionFileSuffix"
  "strings_TrimSuffix ''c_p0_p0.rdb.ver'' versionFileSuffix = ''c_p0_p0.rdb''"
  "\<not> strings_HasSuffix ''c_p0_p0.rdb'' versionFileSuffix" "strings_HasSuffix ''c_p0_p0.rdb'' ''.rdb''"
  "map_LargeChunk (ChunkToLargeChunk sample_geometry (Coord 0 0)) = Coord 0 0"
  "chunkFileName (Coord 0 0) = ''c_p0_p0.rdb''" "signedName 0 = ''p0''"
  "\<not> strings_HasPrefix ''l_p0_p0'' (lockName @ legacyLockMarker)"
  by code_simp+

lemma audited_parsed: "parseChunkFileName ''c_p0_p0.rdb'' = Some (Coord 0 0)" "parseCoordinateName ''l_p0_p0'' ''l_'' [] = Some (Coord 0 0)"
  using audited_parts(6) root_names(10) [of "Coord 0 0"] by (simp_all add: parseChunkFileName_iff audited_names)

lemma audit_large:
  assumes "v_world v = audited_world n" "v_geometry v = sample_geometry" "v_clock v = 7"
  shows "verifyLargeDirectory describe [''l_p0_p0''] (Coord 0 0) v = (Inr (), count_version (Coord 0 0) 7 (v\<lparr>
      v_images := AList.update (Coord 0 0) ''l_p0_p0/c_p0_p0.rdb'' (v_images v), v_report := (v_report v)\<lparr>vr_Images := vr_Images (v_report v) + 1\<rparr>,
      v_world := audited_world (11 + n)\<rparr>))"
  using assms by (simp add: verifyLargeDirectory_def verify_chunk_entry_def run_simps audited audited_parts audited_parsed
      audit_chunk(1) [where n = "n + 1"] audit_chunk(2) [where n = "6 + n"])


lemma audit_names:
  "slashed (largeDirName (Coord 0 0) # x # xs) = ''l_p0_p0/'' @ slashed (x # xs)"
  "intentDirectoryName = ''.regiondb.intents''" "lockName = ''.regiondb.lock''"
  by (simp_all add: audited_names intentDirectoryName_def lockName_def)

lemma audit_run:
  "\<exists>w'. Verify describe ''data'' sample_geometry (audited_world 0) = (Inr \<lparr>vr_Images = 1, vr_Versions = 1, vr_WAL = 0, vr_Issues = []\<rparr>, w')"
proof -
  have g: "geometry_New (config sample_geometry) = Inr sample_geometry" by code_simp
  have root: "is_dir (audited_world n) []" for n by (simp add: is_dir_def)
  show ?thesis
    by (simp add: Verify_def g os_noop_def os_lstat_def os_call_def verify_steps_def verifyRoot_def verify_root_entry_def verifyImageVersions_def verifyIntent_def
        new_verifier_def run_simps audited root audited_intents [unfolded audited_names] audit_start audit_wal audit_large audited_parts audited_parsed audited_names audit_names
        count_version_def flawless_def [THEN iffD1, OF audited_files(10)])
qed

text \<open>
  (C7) The verifier can be trusted.  Whatever it returns and whichever system call fails, it changes no file.  And when it returns
  a report without issues, then the log decodes to its end, no commit intent is pending, the snapshot generation
  is valid and even, the version clock is valid, and every chunk file decodes and has a version that is not zero and not ahead of the
  clock; so recovery accepts the directory, and every chunk of it can be read.
\<close>

theorem verify_sound:
  assumes "Verify describe root g w = (r, w')" "wf_world w"
  shows "content w' = content w \<and>
    (\<forall>report. r = Inr report \<and> vr_Issues report = [] \<longrightarrow>
       verified g w \<and> sound_disk g w \<and> (\<forall>c. \<exists>view. disk_state g w c = Inr view))"
  using Verify_result [OF assms(1)] assms(2) verified_disk by blast

theorem verify_sound_witness:
  "wf_world (audited_world 0) \<and> verified sample_geometry (audited_world 0) \<and> sound_disk sample_geometry (audited_world 0) \<and>
   vr_Images (projr (fst (Verify (\<lambda>_ _. []) ''data'' sample_geometry (audited_world 0)))) = 1"
proof -
  obtain w' where run: "Verify (\<lambda>_ _. []) ''data'' sample_geometry (audited_world 0) =
      (Inr \<lparr>vr_Images = 1, vr_Versions = 1, vr_WAL = 0, vr_Issues = []\<rparr>, w')" using audit_run by blast
  have "wf_world (audited_world 0)"
    by (auto simp: wf_world_def content_def is_dir_def audited_world_def audited_names split: if_splits)
  with verify_sound [OF run this] run show ?thesis by simp
qed

end
