(* ===== verification/ServerRuntime.thy ===== *)
theory ServerRuntime
  imports Prelude "HOL-Library.Multiset"
begin

text \<open>
  The accept loop and the workers of the server (\<^verbatim>\<open>server/runtime.go\<close>) as a step relation.

  A step is what one goroutine does between two points where another can be heard: the acceptor, the workers, which have
  no identity and therefore form a multiset, the shutdown that \<^verbatim>\<open>sync.Once\<close> runs, and the outside that cancels the context
  or lets \<^verbatim>\<open>Accept\<close> fail.  \<^verbatim>\<open>serveConnection\<close> may return at any moment here; what it does is the theory of connections.  A
  connection is a number.
\<close>

section \<open>Options\<close>

record serve_options =
  so_Workers :: int
  so_AcceptQueue :: int
  so_MaxLineBytes :: int
  so_IdleTimeout :: int
  so_RequestTimeout :: int
  so_ResponseTimeout :: int
  so_AuthFailureDelay :: int
  so_AuthFailureLimit :: int
  so_AuthBanDuration :: int

definition DefaultAcceptQueue :: int where "DefaultAcceptQueue = 128"
definition DefaultMaxLineBytes :: int where "DefaultMaxLineBytes = 2 ^ 20"
definition DefaultIdleTimeout :: int where "DefaultIdleTimeout = 30 * 10 ^ 9"
definition DefaultRequestTimeout :: int where "DefaultRequestTimeout = 10 * 10 ^ 9"
definition DefaultResponseTimeout :: int where "DefaultResponseTimeout = 10 * 10 ^ 9"
definition defaultAuthFailureDelay :: int where "defaultAuthFailureDelay = 250 * 10 ^ 6"
definition defaultAuthFailureLimit :: int where "defaultAuthFailureLimit = 5"
definition defaultAuthBanDuration :: int where "defaultAuthBanDuration = 60 * 10 ^ 9"

text \<open>\<^verbatim>\<open>defaults.Workers()\<close>, the number of processors, is an argument.\<close>

definition DefaultOptions :: "int \<Rightarrow> serve_options" where
  "DefaultOptions processors =
     \<lparr>so_Workers = processors, so_AcceptQueue = DefaultAcceptQueue, so_MaxLineBytes = DefaultMaxLineBytes,
      so_IdleTimeout = DefaultIdleTimeout, so_RequestTimeout = DefaultRequestTimeout, so_ResponseTimeout = DefaultResponseTimeout,
      so_AuthFailureDelay = defaultAuthFailureDelay, so_AuthFailureLimit = defaultAuthFailureLimit,
      so_AuthBanDuration = defaultAuthBanDuration\<rparr>"

abbreviation go_maxInt :: int where "go_maxInt \<equiv> 9223372036854775807"

text \<open>The checks of \<^verbatim>\<open>ServeWithOptions\<close> before anything starts; context, listener and engine are not nil.\<close>

definition serve_validated :: "serve_options \<Rightarrow> serve_options result" where
  "serve_validated so =
     (if so_Workers so \<le> 0 then Inl []
      else if so_AcceptQueue so < 0 then Inl []
      else if so_MaxLineBytes so \<le> 0 then Inl []
      else if go_maxInt - so_Workers so < so_AcceptQueue so then Inl []
      else if so_MaxLineBytes so = go_maxInt then Inl []
      else if so_IdleTimeout so < 0 then Inl []
      else let so = (if so_IdleTimeout so = 0 then so\<lparr>so_IdleTimeout := DefaultIdleTimeout\<rparr> else so)
      in if so_RequestTimeout so < 0 then Inl []
      else let so = (if so_RequestTimeout so = 0 then so\<lparr>so_RequestTimeout := DefaultRequestTimeout\<rparr> else so)
      in if so_ResponseTimeout so < 0 then Inl []
      else let so = (if so_ResponseTimeout so = 0 then so\<lparr>so_ResponseTimeout := DefaultResponseTimeout\<rparr> else so)
      in if so_AuthFailureDelay so < 0 then Inl []
      else let so = (if so_AuthFailureDelay so = 0 then so\<lparr>so_AuthFailureDelay := defaultAuthFailureDelay\<rparr> else so)
      in if so_AuthFailureLimit so < 0 then Inl []
      else let so = (if so_AuthFailureLimit so = 0 then so\<lparr>so_AuthFailureLimit := defaultAuthFailureLimit\<rparr> else so)
      in if so_AuthBanDuration so < 0 then Inl []
      else let so = (if so_AuthBanDuration so = 0 then so\<lparr>so_AuthBanDuration := defaultAuthBanDuration\<rparr> else so)
      in Inr so)"

section \<open>The goroutines\<close>

type_synonym conn = nat

text \<open>Where the accept loop goes after it has closed a connection itself.\<close>

datatype next_stop = ToAccept | ToFree | ToWait

text \<open>\<open>Waiting\<close> and \<open>Returned\<close> carry whether the loop ends with an error.\<close>

datatype acceptor =
    Accepting
  | Got conn
  | Stored conn
  | Checked conn
  | Admitted conn
  | Rejecting conn
  | Closing conn next_stop
  | Freeing
  | Waiting bool
  | Returned bool

text \<open>The flag says that the worker ends afterwards.\<close>

datatype worker = WIdle | WGot conn | WServing conn | WClosing conn bool | WFreeing bool | WDone

text \<open>The shutdown with the connections its \<^verbatim>\<open>Range\<close> has still to visit.\<close>

datatype shutdown = NotYet | Ranging "conn set" | Over

record serve_state =
  ss_acceptor :: acceptor
  ss_workers :: "worker multiset"
  ss_queue :: "conn list"
  ss_slots :: nat
  ss_connections :: "conn set"
  ss_listening :: bool
  ss_cancelled :: bool
  ss_shutdown :: shutdown
  ss_accepted :: "conn set"
  ss_closed :: "conn set"
  ss_opened :: nat
  ss_finished :: nat

definition serve_init :: "nat \<Rightarrow> serve_state" where
  "serve_init workers =
     \<lparr>ss_acceptor = Accepting, ss_workers = replicate_mset workers WIdle, ss_queue = [], ss_slots = 0, ss_connections = {},
      ss_listening = True, ss_cancelled = False, ss_shutdown = NotYet, ss_accepted = {}, ss_closed = {}, ss_opened = 0, ss_finished = 0\<rparr>"

text \<open>\<^verbatim>\<open>Close\<close>, \<^verbatim>\<open>connections.Delete\<close> and \<^verbatim>\<open>ConnectionClosed\<close>.\<close>

definition close_conn :: "conn \<Rightarrow> serve_state \<Rightarrow> serve_state" where
  "close_conn c s = s\<lparr>ss_closed := insert c (ss_closed s), ss_connections := ss_connections s - {c}, ss_finished := ss_finished s + 1\<rparr>"

fun after_closing :: "next_stop \<Rightarrow> acceptor" where
  "after_closing ToAccept = Accepting"
| "after_closing ToFree = Freeing"
| "after_closing ToWait = Waiting False"

text \<open>One step; \<open>capacity\<close> is that of the queue and of the slots.\<close>

inductive serve_step :: "nat \<Rightarrow> serve_state \<Rightarrow> serve_state \<Rightarrow> bool" for capacity where
  cancel: "\<not> ss_cancelled s \<Longrightarrow> serve_step capacity s (s\<lparr>ss_cancelled := True\<rparr>)"
| accept: "ss_acceptor s = Accepting \<Longrightarrow> ss_listening s \<Longrightarrow> c \<notin> ss_accepted s \<Longrightarrow>
    serve_step capacity s (s\<lparr>ss_acceptor := Got c, ss_accepted := insert c (ss_accepted s)\<rparr>)"
| accept_stopped: "ss_acceptor s = Accepting \<Longrightarrow> ss_cancelled s \<Longrightarrow> serve_step capacity s (s\<lparr>ss_acceptor := Waiting False\<rparr>)"
| accept_failed: "ss_acceptor s = Accepting \<Longrightarrow> \<not> ss_cancelled s \<Longrightarrow>
    serve_step capacity s (s\<lparr>ss_acceptor := Waiting True, ss_cancelled := True\<rparr>)"
| store: "ss_acceptor s = Got c \<Longrightarrow>
    serve_step capacity s (s\<lparr>ss_acceptor := Stored c, ss_connections := insert c (ss_connections s), ss_opened := ss_opened s + 1\<rparr>)"
| check: "ss_acceptor s = Stored c \<Longrightarrow>
    serve_step capacity s (s\<lparr>ss_acceptor := (if ss_cancelled s then Closing c ToWait else Checked c)\<rparr>)"
| admit: "ss_acceptor s = Checked c \<Longrightarrow> ss_slots s < capacity \<Longrightarrow>
    serve_step capacity s (s\<lparr>ss_acceptor := Admitted c, ss_slots := ss_slots s + 1\<rparr>)"
| admit_stopped: "ss_acceptor s = Checked c \<Longrightarrow> ss_cancelled s \<Longrightarrow> serve_step capacity s (s\<lparr>ss_acceptor := Closing c ToWait\<rparr>)"
| overload: "ss_acceptor s = Checked c \<Longrightarrow> \<not> ss_slots s < capacity \<Longrightarrow> \<not> ss_cancelled s \<Longrightarrow>
    serve_step capacity s (s\<lparr>ss_acceptor := Rejecting c\<rparr>)"
| enqueue: "ss_acceptor s = Admitted c \<Longrightarrow> length (ss_queue s) < capacity \<Longrightarrow>
    serve_step capacity s (s\<lparr>ss_acceptor := Accepting, ss_queue := ss_queue s @ [c]\<rparr>)"
| enqueue_stopped: "ss_acceptor s = Admitted c \<Longrightarrow> ss_cancelled s \<Longrightarrow> serve_step capacity s (s\<lparr>ss_acceptor := Closing c ToFree\<rparr>)"
| reject: "ss_acceptor s = Rejecting c \<Longrightarrow> serve_step capacity s (s\<lparr>ss_acceptor := Closing c ToAccept\<rparr>)"
| close: "ss_acceptor s = Closing c stop \<Longrightarrow> serve_step capacity s ((close_conn c s)\<lparr>ss_acceptor := after_closing stop\<rparr>)"
| free: "ss_acceptor s = Freeing \<Longrightarrow> 0 < ss_slots s \<Longrightarrow>
    serve_step capacity s (s\<lparr>ss_acceptor := Waiting False, ss_slots := ss_slots s - 1\<rparr>)"
| return: "ss_acceptor s = Waiting e \<Longrightarrow> ss_shutdown s = Over \<Longrightarrow> (\<forall>w\<in>#ss_workers s. w = WDone) \<Longrightarrow>
    serve_step capacity s (s\<lparr>ss_acceptor := Returned e\<rparr>)"
| worker_stop: "ss_workers s = add_mset WIdle ws \<Longrightarrow> ss_cancelled s \<Longrightarrow> serve_step capacity s (s\<lparr>ss_workers := add_mset WDone ws\<rparr>)"
| worker_take: "ss_workers s = add_mset WIdle ws \<Longrightarrow> ss_queue s = c # queue \<Longrightarrow>
    serve_step capacity s (s\<lparr>ss_workers := add_mset (WGot c) ws, ss_queue := queue\<rparr>)"
| worker_check: "ss_workers s = add_mset (WGot c) ws \<Longrightarrow>
    serve_step capacity s (s\<lparr>ss_workers := add_mset (if ss_cancelled s then WClosing c True else WServing c) ws\<rparr>)"
| worker_served: "ss_workers s = add_mset (WServing c) ws \<Longrightarrow> serve_step capacity s (s\<lparr>ss_workers := add_mset (WClosing c False) ws\<rparr>)"
| worker_close: "ss_workers s = add_mset (WClosing c final) ws \<Longrightarrow>
    serve_step capacity s ((close_conn c s)\<lparr>ss_workers := add_mset (WFreeing final) ws\<rparr>)"
| worker_free: "ss_workers s = add_mset (WFreeing final) ws \<Longrightarrow> 0 < ss_slots s \<Longrightarrow>
    serve_step capacity s (s\<lparr>ss_workers := add_mset (if final then WDone else WIdle) ws, ss_slots := ss_slots s - 1\<rparr>)"
| shutdown_begin: "ss_shutdown s = NotYet \<Longrightarrow> ss_cancelled s \<Longrightarrow>
    serve_step capacity s (s\<lparr>ss_shutdown := Ranging (ss_connections s), ss_listening := False\<rparr>)"
| shutdown_visit: "ss_shutdown s = Ranging T \<Longrightarrow> c \<in> T \<Longrightarrow>
    serve_step capacity s (s\<lparr>ss_shutdown := Ranging (T - {c}), ss_closed := (if c \<in> ss_connections s then insert c (ss_closed s) else ss_closed s)\<rparr>)"
| shutdown_visit_new: "ss_shutdown s = Ranging T \<Longrightarrow> c \<in> ss_connections s - T - ss_closed s \<Longrightarrow>
    serve_step capacity s (s\<lparr>ss_closed := insert c (ss_closed s)\<rparr>)"
| shutdown_over: "ss_shutdown s = Ranging {} \<Longrightarrow> serve_step capacity s (s\<lparr>ss_shutdown := Over\<rparr>)"

inductive serve_reach :: "nat \<Rightarrow> nat \<Rightarrow> serve_state \<Rightarrow> bool" for workers capacity where
  start: "serve_reach workers capacity (serve_init workers)"
| go: "serve_reach workers capacity s \<Longrightarrow> serve_step capacity s s' \<Longrightarrow> serve_reach workers capacity s'"


section \<open>Who holds what\<close>

fun holder :: "acceptor \<Rightarrow> conn multiset" where
  "holder (Stored c) = {#c#}"
| "holder (Checked c) = {#c#}"
| "holder (Admitted c) = {#c#}"
| "holder (Rejecting c) = {#c#}"
| "holder (Closing c _) = {#c#}"
| "holder _ = {#}"

fun in_hand :: "worker \<Rightarrow> conn multiset" where
  "in_hand (WGot c) = {#c#}"
| "in_hand (WServing c) = {#c#}"
| "in_hand (WClosing c _) = {#c#}"
| "in_hand _ = {#}"

text \<open>The connections that somebody has to look after.\<close>

definition held :: "serve_state \<Rightarrow> conn multiset" where
  "held s = holder (ss_acceptor s) + mset (ss_queue s) + (\<Sum>w\<in>#ss_workers s. in_hand w)"

fun acceptor_slot :: "acceptor \<Rightarrow> nat" where
  "acceptor_slot (Admitted _) = 1"
| "acceptor_slot (Closing _ ToFree) = 1"
| "acceptor_slot Freeing = 1"
| "acceptor_slot _ = 0"

fun worker_slot :: "worker \<Rightarrow> nat" where
  "worker_slot WIdle = 0"
| "worker_slot WDone = 0"
| "worker_slot _ = 1"

definition slots_ok :: "nat \<Rightarrow> serve_state \<Rightarrow> bool" where
  "slots_ok capacity s \<longleftrightarrow>
     ss_slots s = acceptor_slot (ss_acceptor s) + length (ss_queue s) + (\<Sum>w\<in>#ss_workers s. worker_slot w) \<and> ss_slots s \<le> capacity"

lemma after_closing_slot: "acceptor_slot (Closing c stop) = acceptor_slot (after_closing stop)"
  by (cases stop) simp_all

lemma after_closing_holds [simp]: "holder (after_closing stop) = {#}" "after_closing stop \<noteq> Got c"
  by (cases stop; simp)+

lemma slots_step: "serve_step capacity s s' \<Longrightarrow> slots_ok capacity s \<Longrightarrow> slots_ok capacity s'"
  by (induction rule: serve_step.induct) (auto simp: slots_ok_def close_conn_def after_closing_slot split: if_splits)

lemma workers_step: "serve_step capacity s s' \<Longrightarrow> size (ss_workers s') = size (ss_workers s)"
  by (induction rule: serve_step.induct) (auto simp: close_conn_def)

text \<open>Every connection has one owner until it is closed.\<close>

definition owned :: "serve_state \<Rightarrow> bool" where
  "owned s \<longleftrightarrow>
     (\<forall>c. count (held s) c \<le> 1) \<and> ss_connections s = set_mset (held s) \<and> ss_opened s = ss_finished s + size (held s) \<and>
     ss_connections s \<union> ss_closed s \<subseteq> ss_accepted s \<and>
     (\<forall>c. ss_acceptor s = Got c \<longrightarrow> c \<in> ss_accepted s \<and> c \<notin> ss_connections s \<and> c \<notin> ss_closed s) \<and>
     (\<forall>c\<in>ss_accepted s. c \<in> ss_connections s \<or> c \<in> ss_closed s \<or> ss_acceptor s = Got c)"


lemma owned_close:
  assumes o: "owned s" and h: "held s = add_mset c (held t)" and t: "ss_connections t = ss_connections s - {c}" "ss_closed t = insert c (ss_closed s)"
    "ss_finished t = ss_finished s + 1" "ss_opened t = ss_opened s" "ss_accepted t = ss_accepted s" "\<And>d. ss_acceptor t = Got d \<longleftrightarrow> ss_acceptor s = Got d"
  shows "owned t"
proof -
  have le: "count (held s) d \<le> 1" for d using o by (simp add: owned_def)
  have one: "count (held t) d \<le> 1" for d using le [of d] h by (simp split: if_splits)
  moreover have "c \<notin># held t" using le [of c] h by (simp add: not_in_iff)
  moreover have "c \<in> ss_accepted s" using o h by (auto simp: owned_def)
  ultimately show ?thesis using o h t unfolding owned_def by auto
qed


lemma owned_same:
  assumes "owned s" "held t = held s" "ss_connections t = ss_connections s" "ss_opened t = ss_opened s" "ss_finished t = ss_finished s"
    "ss_accepted t = ss_accepted s" "ss_closed t = ss_closed s" "\<And>c. ss_acceptor t = Got c \<longleftrightarrow> ss_acceptor s = Got c"
  shows "owned t"
  using assms(1) unfolding owned_def assms(2-) .

lemma owned_step: "serve_step capacity s s' \<Longrightarrow> owned s \<Longrightarrow> owned s'"
proof (induction rule: serve_step.induct)
  case (close s c stop)
  show ?case by (rule owned_close [OF close(2), where c = c]) (use close(1) in \<open>simp_all add: held_def close_conn_def\<close>)
next
  case (worker_close s c final ws)
  show ?case by (rule owned_close [OF worker_close(2), where c = c]) (use worker_close(1) in \<open>simp_all add: held_def close_conn_def\<close>)
next
  case (store s c)
  then have "count (held s) c = 0" by (auto simp: owned_def not_in_iff)
  then show ?case using store by (auto simp: owned_def held_def)
next
  case (accept s c)
  then have "count (held s) c = 0" by (auto simp: owned_def not_in_iff)
  then show ?case using accept by (auto simp: owned_def held_def)
next
  case (shutdown_visit s T c)
  then show ?case by (auto simp: owned_def held_def)
next
  case (shutdown_visit_new s T c)
  then show ?case by (auto simp: owned_def held_def)
qed (erule owned_same; simp add: held_def)+


section \<open>Shutdown\<close>

text \<open>A connection stored after the context was cancelled, which the accept loop closes itself.\<close>

fun late :: "acceptor \<Rightarrow> conn set" where
  "late (Stored c) = {c}"
| "late (Closing c ToWait) = {c}"
| "late _ = {}"

fun to_visit :: "shutdown \<Rightarrow> conn set" where
  "to_visit NotYet = UNIV"
| "to_visit (Ranging T) = T"
| "to_visit Over = {}"

fun ending :: "acceptor \<Rightarrow> bool" where
  "ending (Closing _ stop) = (stop \<noteq> ToAccept)"
| "ending Freeing = True"
| "ending (Waiting _) = True"
| "ending (Returned _) = True"
| "ending _ = False"

definition stopping_ok :: "serve_state \<Rightarrow> bool" where
  "stopping_ok s \<longleftrightarrow>
     ss_connections s \<subseteq> to_visit (ss_shutdown s) \<union> ss_closed s \<union> late (ss_acceptor s) \<and>
     (ss_shutdown s \<noteq> NotYet \<or> ending (ss_acceptor s) \<longrightarrow> ss_cancelled s) \<and>
     (ss_shutdown s = NotYet \<or> finite (to_visit (ss_shutdown s))) \<and>
     (\<forall>e. ss_acceptor s = Returned e \<longrightarrow> ss_shutdown s = Over \<and> (\<forall>w\<in>#ss_workers s. w = WDone))"

lemma stopping_step:
  assumes "serve_step capacity s s'" "stopping_ok s" "finite (ss_connections s)"
  shows "stopping_ok s'"
  using assms
proof (induction rule: serve_step.induct)
  case (close s c stop)
  then show ?case by (cases stop) (auto simp: stopping_ok_def close_conn_def)
next
  case (check s c)
  then show ?case by (cases "ss_shutdown s") (auto simp: stopping_ok_def)
next
  case (worker_close s c final ws)
  then show ?case by (auto simp: stopping_ok_def close_conn_def)
qed (auto simp: stopping_ok_def)

definition serve_inv :: "nat \<Rightarrow> nat \<Rightarrow> serve_state \<Rightarrow> bool" where
  "serve_inv workers capacity s \<longleftrightarrow> slots_ok capacity s \<and> owned s \<and> stopping_ok s \<and> size (ss_workers s) = workers"

lemma serve_reach_inv: "serve_reach workers capacity s \<Longrightarrow> serve_inv workers capacity s"
proof (induction rule: serve_reach.induct)
  case start
  have "held (serve_init workers) = {#}" by (simp add: held_def serve_init_def)
  then have "owned (serve_init workers)" by (simp add: owned_def) (simp add: serve_init_def)
  then show ?case by (simp add: serve_inv_def slots_ok_def stopping_ok_def serve_init_def)
next
  case (go s s')
  then have "finite (ss_connections s)" by (simp add: serve_inv_def owned_def)
  then show ?case using go slots_step owned_step stopping_step workers_step unfolding serve_inv_def by metis
qed













lemma card_held: "card (set_mset M) \<le> size M"
  by (induction M) (auto simp: card_insert_if)

lemma held_bounded:
  assumes "serve_inv workers capacity s"
  shows "card (ss_accepted s - ss_closed s) \<le> capacity + 1"
proof -
  note inv = assms [unfolded serve_inv_def]
  have hand: "size (in_hand w) \<le> worker_slot w" for w by (cases w) simp_all
  have "size (\<Sum>w\<in>#W. in_hand w) \<le> (\<Sum>w\<in>#W. worker_slot w)" for W
  proof (induction W)
    case (add w W)
    then show ?case using hand [of w] by simp
  qed simp
  then have h: "size (held s) \<le> size (holder (ss_acceptor s)) + ss_slots s"
    using inv by (simp add: held_def slots_ok_def trans_le_add2)
  have c: "card (ss_connections s) \<le> size (held s)" using inv by (simp add: owned_def card_held)
  have fin: "finite (ss_connections s)" using inv by (simp add: owned_def)
  show ?thesis
  proof (cases "\<exists>c. ss_acceptor s = Got c")
    case True
    then obtain c where g: "ss_acceptor s = Got c" by blast
    have "ss_accepted s - ss_closed s \<subseteq> insert c (ss_connections s)" using inv g by (auto simp: owned_def)
    then have "card (ss_accepted s - ss_closed s) \<le> card (insert c (ss_connections s))" using fin by (intro card_mono) auto
    also have "\<dots> \<le> card (ss_connections s) + 1" using fin by (simp add: card_insert_if)
    finally have "card (ss_accepted s - ss_closed s) \<le> card (ss_connections s) + 1" .
    then show ?thesis using c h g inv by (simp add: slots_ok_def)
  next
    case False
    have "size (holder a) \<le> 1" for a by (cases a) simp_all
    moreover have "ss_accepted s - ss_closed s \<subseteq> ss_connections s" using inv False by (auto simp: owned_def)
    then have "card (ss_accepted s - ss_closed s) \<le> card (ss_connections s)" using fin by (rule card_mono [rotated])
    moreover have "size (held s) \<le> 1 + capacity" using h inv \<open>\<And>a. size (holder a) \<le> 1\<close> [of "ss_acceptor s"] by (simp add: slots_ok_def)
    ultimately show ?thesis using c by simp
  qed
qed


section \<open>The properties of the server loop\<close>

text \<open>
  Admission is bounded and never blocks.  With so many workers and a capacity for workers and queue together, at
  every moment at most one connection more than the capacity is open, which is what the main program reserves file
  descriptors for; no connection is in two hands; the number of connections opened less those counted as
  closed is the number in the hands of the acceptor, the queue and the workers; there are as many workers as configured; and an admitted
  connection always finds room in the queue, so the accept loop waits for nothing but the next connection.
\<close>

theorem serve_admission:
  assumes "serve_reach workers capacity s"
  shows "card (ss_accepted s - ss_closed s) \<le> capacity + 1 \<and> (\<forall>c. count (held s) c \<le> 1) \<and>
    ss_opened s = ss_finished s + size (held s) \<and> size (ss_workers s) = workers \<and>
    (\<forall>c. ss_acceptor s = Admitted c \<longrightarrow> length (ss_queue s) < capacity)"
proof -
  have inv: "serve_inv workers capacity s" using assms by (rule serve_reach_inv)
  then have "length (ss_queue s) < capacity" if "ss_acceptor s = Admitted c" for c
    using that by (simp add: serve_inv_def slots_ok_def)
  then show ?thesis using held_bounded [OF inv] inv unfolding serve_inv_def owned_def by blast
qed

text \<open>A server with one worker and no queue that is stopped while a connection waits.\<close>

definition stopped_early :: serve_state where
  "stopped_early = (serve_init 1)\<lparr>ss_queue := [7], ss_slots := 1, ss_connections := {7}, ss_accepted := {7}, ss_opened := 1, ss_cancelled := True\<rparr>"

lemma stopped_early_reached: "serve_reach 1 1 stopped_early"
proof -
  note run = serve_reach.go [OF serve_reach.go [OF serve_reach.go [OF serve_reach.go [OF serve_reach.go [OF serve_reach.go [OF
      serve_reach.start [of 1 1] serve_step.accept [where c = 7]] serve_step.store [where c = 7]] serve_step.check [where c = 7]]
      serve_step.admit [where c = 7]] serve_step.enqueue [where c = 7]] serve_step.cancel]
  show ?thesis using run by (simp add: serve_init_def stopped_early_def)
qed

theorem serve_admission_witness: "serve_reach 1 1 stopped_early \<and> card (ss_accepted stopped_early - ss_closed stopped_early) \<le> 2"
  using stopped_early_reached serve_admission [OF stopped_early_reached] by simp



end
