(* ===== verification/ServerConfig.thy ===== *)
theory ServerConfig
  imports Options ServerRuntime
begin

text \<open>
  The configuration of the server program (\<^verbatim>\<open>cmd/regiondb/main.go\<close>): the checks on the parsed flags, where the token
  comes from, how queue and log streams are fitted to the descriptor limit, and the options handed to the store and to
  the server.  What \<^verbatim>\<open>flag.Parse\<close> leaves in the variables, the environment variable and the reading of the token file
  are arguments; an error is \<open>Inl []\<close>.
\<close>

section \<open>The code\<close>














section \<open>The descriptor budget\<close>





section \<open>Accepted configurations\<close>

















end
