(* ===== verification/Spec2Isabelle.thy ===== *)
theory Spec2Isabelle
  imports Bitcodec Geometry Zrle Chunk Frame Response Names Format Records Cache FileSystem Options StoreModel StoreFrames StoreDisk StoreCommit StorePublish StoreWrite StoreBatch StoreRecovery StoreSafety Telemetry Engine WorldRead StoreLive StoreRead EngineScan StoreClean EngineBlocks WalPool SocketIO AuthTracker Connection RegionLayout RegionStore RegionRefinement VerifierSound ServerRuntime ServerConfig
begin

text \<open>
  A verification of regiondb, a block-world database server written in Go.

  \<^bold>\<open>The program.\<close>  A world is a plane of blocks, each with a value of 1 to 64 bits or no value.  Blocks are grouped
  into square chunks, chunks into large chunks (\<^verbatim>\<open>internal/geometry\<close>).  A chunk in memory is a packed payload
  (\<^verbatim>\<open>internal/bitcodec\<close>) and a presence bitmap (\<^verbatim>\<open>internal/storage/chunk.go\<close>).  Chunks are kept in a data directory by
  \<^verbatim>\<open>internal/storage/fs_split\<close>: one sealed file per chunk, a write-ahead log, a commit intent that makes a log
  append all or nothing, versions per chunk, a cache, checkpoints and recovery.  \<^verbatim>\<open>internal/storage/fs_region\<close> is a
  second file format, one image per region with a slot for every chunk.  \<^verbatim>\<open>internal/protocol\<close> parses command
  lines, runs them on a store and prints responses; \<^verbatim>\<open>internal/server\<close> accepts connections, queues them for workers, reads
  lines from them, drives a session each, and counts failed authentications per source; \<^verbatim>\<open>cmd/regiondb\<close> turns the command line into
  the options of the store and the server.

  \<^bold>\<open>Foundations.\<close>
  \<^item> \<open>Prelude\<close>, \<open>GoText\<close>: machine integers as words, Go errors as lists of sentinels, and the functions of the Go
    library that the sources call (byte order, CRC-32, hexadecimal, decimal, string cutting), with their laws.  The
    collections \<open>go_len\<close>, \<open>go_codec\<close> and \<open>go_bits\<close> carry the component proofs.
  \<^item> \<open>Checksum\<close>: CRC-32 detects every change of a single byte.
  \<^item> \<open>FileSystem\<close>: files and directories with an oracle that fails or stops any system call and an oracle for the order in which a Go map
    is ranged over, Hoare triples over programs on them, and the atomic file replacement of \<^verbatim>\<open>atomic_write.go\<close>.  \<open>FileEffects\<close>: which files a call may
    change, on every outcome.

  \<^bold>\<open>Data.\<close>
  \<^item> \<open>Bitcodec\<close> (\<^verbatim>\<open>bitcodec/codec.go\<close>): get and set laws, exact errors, byte-aligned fast paths equal the loops.
  \<^item> \<open>Geometry\<close> (\<^verbatim>\<open>geometry/geometry.go\<close>): which configurations are accepted, exact floor mappings on \<^verbatim>\<open>int64\<close>.
  \<^item> \<open>Zrle\<close> (\<^verbatim>\<open>storage/zrle.go\<close>): round trip, exact and prefix-free decoder.
  \<^item> \<open>Chunk\<close> (\<^verbatim>\<open>storage/chunk.go\<close>): block edits, last edit wins; the locale \<open>block_cells\<close> is what the engine uses.
  \<^item> \<open>Frame\<close>, \<open>Response\<close> (\<^verbatim>\<open>protocol/frame.go\<close>, \<^verbatim>\<open>response.go\<close>): the parser accepts exactly the canonical lines;
    a stream of responses is read back in one way only.
  \<^item> \<open>Names\<close>, \<open>Format\<close>, \<open>Records\<close> (\<^verbatim>\<open>fs_split/format.go\<close>, \<^verbatim>\<open>scan.go\<close>, \<^verbatim>\<open>wal.go\<close>, \<^verbatim>\<open>version.go\<close>,
    \<^verbatim>\<open>conditional_intent.go\<close>, \<^verbatim>\<open>snapshot_generation.go\<close>): file names, images of three versions, log records and
    sealed metadata; round trips, corruption is detected, a torn log tail is ignored; every chunk the program can come by is
    well formed.
  \<^item> \<open>Options\<close>, \<open>Telemetry\<close> (\<^verbatim>\<open>options.go\<close>, \<^verbatim>\<open>descriptor_budget.go\<close>, \<^verbatim>\<open>telemetry/metrics.go\<close>): validated options,
    cumulative histograms.

  \<^bold>\<open>The store.\<close>
  \<^item> \<open>Cache\<close> (\<^verbatim>\<open>cache.go\<close>, \<^verbatim>\<open>cache_eviction.go\<close>, \<^verbatim>\<open>cache_maintenance.go\<close>): entries on a heap, a pointer ring, a
    maintenance worker, an eviction as the two sections under the mutex that it is (unlink, then hand back); refines a bounded map (locale \<open>bounded_cache\<close>) in every interleaving.
  \<^item> \<open>WalPool\<close> (\<^verbatim>\<open>wal_pool.go\<close>): callers, condition variable and timers as the step relation \<open>pool_step\<close>; the limit is
    kept, no handle in use is closed, no caller is stuck.
  \<^item> \<open>StoreModel\<close>: the record \<open>Store\<close> and every operation of \<^verbatim>\<open>store.go\<close>, \<^verbatim>\<open>conditional.go\<close>, \<^verbatim>\<open>wal.go\<close>,
    \<^verbatim>\<open>conditional_intent.go\<close>, \<^verbatim>\<open>version.go\<close>, \<^verbatim>\<open>snapshot_generation.go\<close>, \<^verbatim>\<open>format.go\<close>, \<^verbatim>\<open>checkpoint.go\<close>, \<^verbatim>\<open>wal_recovery.go\<close>
    and \<^verbatim>\<open>durability.go\<close> over the file system.
  \<^item> \<open>StoreFrames\<close>, \<open>StoreDisk\<close>, \<open>StoreCommit\<close>, \<open>StorePublish\<close>, \<open>StoreWrite\<close>, \<open>StoreBatch\<close>, \<open>StoreRecovery\<close>,
    \<open>StoreSafety\<close>: the abstract contents \<open>disk_state\<close> of a data directory, one triple per step of the commit protocol,
    and crash safety: a write or a conditional batch is all or nothing under every failure and at every crash point,
    and recovery shows exactly what was acknowledged.
  \<^item> \<open>StoreLive\<close>, \<open>StoreRead\<close>: what a running store answers, by the invariant \<open>Live\<close> that ties pending
    publications, cache and files to the abstract contents.  \<open>StoreClean\<close>: the absent blocks of what memory and files hold stay zero.
  \<^item> \<open>Verifier\<close>, \<open>VerifierSound\<close> (\<^verbatim>\<open>verify.go\<close>): the offline verifier.  It changes no file, and a report without issues means
    a directory that recovery accepts, with every chunk readable and versioned.
  \<^item> \<open>RegionLayout\<close>, \<open>RegionStore\<close>, \<open>RegionRefinement\<close> (\<^verbatim>\<open>fs_region/layout.go\<close>, \<^verbatim>\<open>image.go\<close>, \<^verbatim>\<open>store.go\<close>): where a chunk lies in
    an image, all at 64 bits; images and the store with its bounded set of open images over the file system; the
    store refines a map from coordinates to chunks in every history of calls, faults and restarts (locale \<open>simulation\<close>).

  \<^bold>\<open>The engine and the server.\<close>
  \<^item> \<open>Engine\<close>, \<open>WorldRead\<close> (\<^verbatim>\<open>protocol/engine.go\<close>, \<^verbatim>\<open>world_read.go\<close>): sessions and one handler per command over the
    interface of a store; nothing is reached without the token; which chunks a world read visits.  Locale \<open>sized_store\<close>: a world read is bounded.
  \<^item> \<open>EngineScan\<close>, \<open>EngineBlocks\<close>: the engine on the fs_split store.  Locale \<open>chunk_scanner\<close>: a scan ends and lists
    exactly the populated chunks.  The response to a world read fits the limit.
    Locale \<open>block_store\<close>: the block commands refine a map from blocks to values.
  \<^item> \<open>SocketIO\<close>, \<open>AuthTracker\<close>, \<open>Connection\<close> (\<^verbatim>\<open>server/socket_io.go\<close>, \<^verbatim>\<open>auth.go\<close>, \<^verbatim>\<open>connection.go\<close>): frames are the
    lines of the stream however it is cut; bans hold; a connection without the token does not touch the store and is
    answered only a bounded number of wrong guesses.
  \<^item> \<open>ServerRuntime\<close> (\<^verbatim>\<open>server/runtime.go\<close>): the accept loop, the queue, the workers and the shutdown as the step relation \<open>serve_step\<close>;
    admission is bounded and counted, and a shutdown can always be completed.
  \<^item> \<open>ServerConfig\<close> (\<^verbatim>\<open>cmd/regiondb/main.go\<close>): the configuration from the parsed flags, the authentication rules, the fit of connections and log
    streams to the descriptor limit; a configuration that is accepted passes the checks of the store and the server.

  \<^bold>\<open>Correspondence.\<close>  A Go struct is a record, a method that mutates its receiver returns the new record, a returned
  error is \<open>Inl\<close> of the sentinels that \<^verbatim>\<open>errors.Is\<close> finds in it.  Integers that can wrap are words; \<^verbatim>\<open>int\<close> values that
  the code bounds are \<open>int\<close> or \<open>nat\<close>.  Where aliasing matters (cache entries, log handles) there is a heap.  Code under
  a mutex is one step; code that waits is split into turns.

  \<^bold>\<open>Faults.\<close>  Any system call may fail, a failing write may have written a prefix, a directory walk may fail at any entry, and the process may
  stop at any call.  Synchronisation is a call that may fail and has no other effect, so the theorems speak of stops of the process: what a loss of
  power does to files that were written but not synchronised is not described.  No call is assumed to succeed; the errors of the \<^verbatim>\<open>Lstat\<close> calls on the
  intent, which the code drops, show in the crash-safety theorems as an outcome of their own (\<open>stale\<close>).  The order of a range over a Go map
  is arbitrary.  \<open>Live\<close> describes a store without a due checkpoint; a checkpoint that fails ends it.

  \<^bold>\<open>Bounds and loops.\<close>  \<open>half_width\<close> searches with \<open>radius + 1\<close> steps, one more than the search can take.  A temporary
  name is tried 100 times and a start-up scan visits \<open>StartupScanEntryLimit\<close> entries, both limits of the code.
  \<open>scan_loop\<close> and \<open>readFrame\<close> are partial functions, and they are proved to return.  \<open>serve_loop\<close> runs one turn for
  each element of a given list of circumstances, and its theorems hold for every list.

  \<^bold>\<open>Not modelled.\<close>  TLS, the parsing of addresses, URIs and flags, and listening on sockets are the network library, the operating system and the
  argument parser; the process locks (\<^verbatim>\<open>lock*.go\<close>) are advisory locks of the operating system, here a call that may fail; Windows
  builds; logging; the benchmarks and the main programs around the modelled configuration.
  Failpoints, which only tests set, are left out.
\<close>

end
